(* ===== verification/Prelude.thy ===== *)
theory Prelude
  imports Main "HOL-Library.Word"
begin

text \<open>
  Shared vocabulary of the development: the integer types of the engine, the error type of
  \<^verbatim>\<open>error.rs\<close> and results as sums, ordered association lists that stand for Rust's
  \<^verbatim>\<open>BTreeMap\<close> (iteration order is key order), and the generic lemmas the components share.
  A 64-bit target is assumed: \<^verbatim>\<open>usize\<close> is a natural number below \<open>2 ^ 64\<close>, and a slice is
  shorter than \<open>2 ^ 63\<close> bytes.
\<close>

named_theorems res_simps \<open>how results of sequenced fallible steps decompose\<close>
named_theorems bt_simps \<open>lookup and order facts of ordered association lists\<close>

type_synonym u8 = "8 word"
type_synonym u16 = "16 word"
type_synonym u32 = "32 word"
type_synonym u64 = "64 word"
type_synonym bytes = "u8 list"

section \<open>Errors\<close>

datatype isolation_level = ReadCommittedLevel | SnapshotLevel | SerializableLevel

text \<open>An operating-system error carries its kind and its text.\<close>

record io_error =
  io_kind :: string
  io_text :: string

datatype error =
    Io io_error
  | Corrupt string
  | Invalid string
  | NotFound string
  | AlreadyExists string
  | Locked
  | DeadlineExceeded
  | Cancelled
  | TransactionExpired
  | LimitExceeded string nat
  | UnsupportedIsolation isolation_level
  | Conflict "u64 option" "u64 option"
  | VersionUnavailable u64 u64 u64
  | CommitUnknown io_error
  | NeedsRecovery

type_synonym 'a res = "error + 'a"

fun show_nat :: "nat \<Rightarrow> string" where
  "show_nat n = (if n < 10 then [char_of (48 + n)]
                 else show_nat (n div 10) @ [char_of (48 + n mod 10)])"

declare show_nat.simps [simp del]

definition show_u64_option :: "u64 option \<Rightarrow> string" where
  "show_u64_option x =
     (case x of None \<Rightarrow> ''None'' | Some n \<Rightarrow> ''Some('' @ show_nat (unat n) @ '')'')"

fun show_level :: "isolation_level \<Rightarrow> string" where
  "show_level ReadCommittedLevel = ''ReadCommitted''"
| "show_level SnapshotLevel = ''Snapshot''"
| "show_level SerializableLevel = ''Serializable''"

fun display_error :: "error \<Rightarrow> string" where
  "display_error (Io e) = ''storage I/O failed: '' @ io_text e"
| "display_error (Corrupt s) = ''corrupt storage: '' @ s"
| "display_error (Invalid s) = ''invalid operation: '' @ s"
| "display_error (NotFound s) = ''not found: '' @ s"
| "display_error (AlreadyExists s) = ''already exists: '' @ s"
| "display_error Locked = ''the data directory is already open''"
| "display_error Cancelled = ''read cancelled''"
| "display_error DeadlineExceeded = ''operation deadline exceeded''"
| "display_error TransactionExpired = ''transaction or snapshot expired''"
| "display_error (LimitExceeded r l) =
     ''limit exceeded: '' @ r @ '' (maximum '' @ show_nat l @ '')''"
| "display_error (UnsupportedIsolation l) = ''unsupported isolation level: '' @ show_level l"
| "display_error (Conflict t e) =
     ''transaction conflict at table '' @ show_u64_option t @ '', entity '' @
     show_u64_option e @ ''; retry the whole transaction''"
| "display_error (VersionUnavailable r f l) =
     ''version '' @ show_nat (unat r) @ '' is unavailable; retained range is '' @
     show_nat (unat f) @ ''..='' @ show_nat (unat l)"
| "display_error (CommitUnknown e) =
     ''commit outcome is unknown; reopen the database: '' @ io_text e"
| "display_error NeedsRecovery = ''reopen the database after the previous storage failure''"

definition io_duplicate :: "io_error \<Rightarrow> io_error" where
  "io_duplicate e = \<lparr>io_kind = io_kind e, io_text = io_text e\<rparr>"

fun duplicate_error :: "error \<Rightarrow> error" where
  "duplicate_error (Io e) = Io (io_duplicate e)"
| "duplicate_error (CommitUnknown e) = CommitUnknown (io_duplicate e)"
| "duplicate_error e = e"

lemma duplicate_error_id: "duplicate_error e = e"
  by (cases e) (simp_all add: io_duplicate_def)

section \<open>Results\<close>

text \<open>The \<^verbatim>\<open>?\<close> operator: the first error ends the computation.\<close>

fun res_bind :: "'e + 'a \<Rightarrow> ('a \<Rightarrow> 'e + 'b) \<Rightarrow> 'e + 'b" where
  "res_bind (Inl e) f = Inl e"
| "res_bind (Inr x) f = f x"

text \<open>An early return: the error when the condition fails.\<close>

definition ensure :: "bool \<Rightarrow> 'e \<Rightarrow> 'e + unit" where
  "ensure c e = (if c then Inr () else Inl e)"

fun ok_or :: "'a option \<Rightarrow> 'e \<Rightarrow> 'e + 'a" where
  "ok_or None e = Inl e"
| "ok_or (Some x) e = Inr x"

fun map_err :: "('e \<Rightarrow> 'f) \<Rightarrow> 'e + 'a \<Rightarrow> 'f + 'a" where
  "map_err f (Inl e) = Inl (f e)"
| "map_err f (Inr x) = Inr x"

text \<open>A loop whose body may fail, over the elements of a list.\<close>

fun res_fold :: "('a \<Rightarrow> 's \<Rightarrow> 'e + 's) \<Rightarrow> 'a list \<Rightarrow> 's \<Rightarrow> 'e + 's" where
  "res_fold f [] s = Inr s"
| "res_fold f (x # xs) s = res_bind (f x s) (res_fold f xs)"

lemma res_bind_Inr_iff [res_simps]:
  "res_bind m f = Inr y \<longleftrightarrow> (\<exists>x. m = Inr x \<and> f x = Inr y)"
  by (cases m) auto

lemma res_bind_Inl_iff [res_simps]:
  "res_bind m f = Inl e \<longleftrightarrow> m = Inl e \<or> (\<exists>x. m = Inr x \<and> f x = Inl e)"
  by (cases m) auto

lemma res_bind_assoc [simp]: "res_bind (res_bind m f) g = res_bind m (\<lambda>x. res_bind (f x) g)"
  by (cases m) auto

lemma ensure_Inr_iff [res_simps]: "ensure c e = Inr u \<longleftrightarrow> c"
  by (simp add: ensure_def)

lemma ensure_Inl_iff [res_simps]: "ensure c e = Inl e' \<longleftrightarrow> \<not> c \<and> e' = e"
  by (auto simp: ensure_def)

lemma ensure_True [simp]: "ensure True e = Inr ()"
  by (simp add: ensure_def)

lemma ensure_False [simp]: "ensure False e = Inl e"
  by (simp add: ensure_def)

lemma ok_or_Inr_iff [res_simps]: "ok_or m e = Inr x \<longleftrightarrow> m = Some x"
  by (cases m) auto

lemma ok_or_Inl_iff [res_simps]: "ok_or m e = Inl e' \<longleftrightarrow> m = None \<and> e' = e"
  by (cases m) auto

lemma map_err_Inr_iff [res_simps]: "map_err f m = Inr x \<longleftrightarrow> m = Inr x"
  by (cases m) auto

lemma res_fold_append [simp]:
  "res_fold f (xs @ ys) s = res_bind (res_fold f xs s) (res_fold f ys)"
proof (induction xs arbitrary: s)
  case (Cons x xs)
  then show ?case by (cases "f x s") simp_all
qed simp

lemma res_bind_cong [fundef_cong]:
  "m = m' \<Longrightarrow> (\<And>x. m' = Inr x \<Longrightarrow> f x = f' x) \<Longrightarrow> res_bind m f = res_bind m' f'"
  by (cases m') auto

text \<open>An invariant that every step of a fallible loop keeps holds of its result.\<close>

lemma res_fold_invariant:
  assumes "res_fold f xs s = Inr t" and "P s"
    and "\<And>x s t. x \<in> set xs \<Longrightarrow> P s \<Longrightarrow> f x s = Inr t \<Longrightarrow> P t"
  shows "P t"
  using assms
proof (induction xs arbitrary: s)
  case (Cons x xs)
  then obtain u where u: "f x s = Inr u" "res_fold f xs u = Inr t"
    by (auto simp: res_simps)
  have "P u" using Cons.prems(2,3) u(1) by (metis list.set_intros(1))
  then show ?case using Cons.IH[OF u(2)] Cons.prems(3) by (metis list.set_intros(2))
qed simp

section \<open>Checked and saturating arithmetic\<close>

lemma unat_less_u8: "unat (w :: u8) < 256"
  using unsigned_less [of w, where 'a = nat] by simp

lemma unat_less_u16: "unat (w :: u16) < 65536"
  using unsigned_less [of w, where 'a = nat] by simp

lemma unat_less_u32: "unat (w :: u32) < 2 ^ 32"
  using unsigned_less [of w, where 'a = nat] by simp

lemma unat_less_u64: "unat (w :: u64) < 2 ^ 64"
  using unsigned_less [of w, where 'a = nat] by simp

definition checked_add64 :: "u64 \<Rightarrow> u64 \<Rightarrow> u64 option" where
  "checked_add64 a b = (if unat a + unat b < 2 ^ 64 then Some (a + b) else None)"

definition saturating_add64 :: "u64 \<Rightarrow> u64 \<Rightarrow> u64" where
  "saturating_add64 a b = (if unat a + unat b < 2 ^ 64 then a + b else - 1)"

definition saturating_sub64 :: "u64 \<Rightarrow> u64 \<Rightarrow> u64" where
  "saturating_sub64 a b = (if b \<le> a then a - b else 0)"

definition usize_checked_add :: "nat \<Rightarrow> nat \<Rightarrow> nat option" where
  "usize_checked_add a b = (if a + b < 2 ^ 64 then Some (a + b) else None)"

definition usize_saturating_add :: "nat \<Rightarrow> nat \<Rightarrow> nat" where
  "usize_saturating_add a b = min (a + b) (2 ^ 64 - 1)"

definition usize_checked_mul :: "nat \<Rightarrow> nat \<Rightarrow> nat option" where
  "usize_checked_mul a b = (if a * b < 2 ^ 64 then Some (a * b) else None)"

lemma checked_add64_Some_iff:
  "checked_add64 a b = Some c \<longleftrightarrow> unat c = unat a + unat b"
proof
  assume "checked_add64 a b = Some c"
  then show "unat c = unat a + unat b"
    by (auto simp: checked_add64_def unat_word_ariths split: if_splits)
next
  assume eq: "unat c = unat a + unat b"
  then have "unat a + unat b < 2 ^ 64"
    using unat_less_u64 [of c] by simp
  moreover from this have "unat (a + b) = unat c"
    using eq by (simp add: unat_word_ariths)
  ultimately show "checked_add64 a b = Some c"
    by (simp add: checked_add64_def word_unat_eq_iff)
qed

lemma checked_add64_1_None_iff: "checked_add64 a 1 = None \<longleftrightarrow> a = - 1"
proof -
  have "unat a < 2 ^ 64" by (rule unat_less_u64)
  moreover have "unat (- 1 :: u64) = 2 ^ 64 - 1" by (simp add: unsigned_minus_1_eq_mask mask_eq_exp_minus_1)
  ultimately have "(a = - 1) = (\<not> unat a + 1 < 2 ^ 64)"
    by (simp add: word_unat_eq_iff) linarith
  then show ?thesis by (simp add: checked_add64_def)
qed

section \<open>Ordered association lists\<close>

type_synonym ('k, 'v) btree = "('k \<times> 'v) list"

definition bt_ok :: "('k::linorder, 'v) btree \<Rightarrow> bool" where
  "bt_ok m = sorted_wrt (<) (map fst m)"

fun bt_insert :: "'k::linorder \<Rightarrow> 'v \<Rightarrow> ('k, 'v) btree \<Rightarrow> ('k, 'v) btree" where
  "bt_insert k v [] = [(k, v)]"
| "bt_insert k v ((k', v') # m) =
     (if k < k' then (k, v) # (k', v') # m
      else if k = k' then (k, v) # m
      else (k', v') # bt_insert k v m)"

definition bt_remove :: "'k \<Rightarrow> ('k, 'v) btree \<Rightarrow> ('k, 'v) btree" where
  "bt_remove k m = filter (\<lambda>e. fst e \<noteq> k) m"

definition bt_has :: "('k, 'v) btree \<Rightarrow> 'k \<Rightarrow> bool" where
  "bt_has m k = (map_of m k \<noteq> None)"

definition bt_extend :: "('k::linorder, 'v) btree \<Rightarrow> ('k, 'v) btree \<Rightarrow> ('k, 'v) btree" where
  "bt_extend m kvs = fold (\<lambda>e m. bt_insert (fst e) (snd e) m) kvs m"

definition bt_last_key :: "('k, 'v) btree \<Rightarrow> 'k option" where
  "bt_last_key m = (if m = [] then None else Some (fst (last m)))"

lemma bt_ok_Nil [simp, bt_simps]: "bt_ok []"
  by (simp add: bt_ok_def)

lemma bt_ok_Cons [bt_simps]: "bt_ok ((k, v) # m) \<longleftrightarrow> (\<forall>e \<in> set m. k < fst e) \<and> bt_ok m"
  by (auto simp: bt_ok_def)

lemma bt_ok_single [simp]: "bt_ok [(k, v)]"
  by (simp add: bt_ok_def)

lemma map_of_bt_insert [simp]: "map_of (bt_insert k v m) = (map_of m)(k \<mapsto> v)"
  by (induction k v m rule: bt_insert.induct) (auto simp: fun_eq_iff)

lemma set_bt_insert: "set (bt_insert k v m) \<subseteq> insert (k, v) (set m)"
  by (induction k v m rule: bt_insert.induct) auto

lemma set_bt_insert_new: "\<not> bt_has m k \<Longrightarrow> set (bt_insert k v m) = insert (k, v) (set m)"
  by (induction k v m rule: bt_insert.induct) (auto simp: bt_has_def split: if_splits)

lemma bt_ok_insert [simp]: "bt_ok m \<Longrightarrow> bt_ok (bt_insert k v m)"
proof (induction k v m rule: bt_insert.induct)
  case (2 k v k' v' m)
  then show ?case
    using set_bt_insert [of k v m] by (fastforce simp: bt_simps)
qed simp

lemma bt_ok_filter: "bt_ok m \<Longrightarrow> bt_ok (filter P m)"
  by (auto simp: bt_ok_def sorted_wrt_map sorted_wrt_filter)

lemma map_of_filter_key: "map_of (filter (\<lambda>e. P (fst e)) m) k = (if P k then map_of m k else None)"
  by (induction m) auto

lemma bt_ok_remove [simp]: "bt_ok m \<Longrightarrow> bt_ok (bt_remove k m)"
  by (simp add: bt_remove_def bt_ok_filter)

lemma map_of_bt_remove [simp]: "map_of (bt_remove k m) = (map_of m)(k := None)"
  by (induction m) (auto simp: bt_remove_def fun_eq_iff)

lemma bt_ok_distinct: "bt_ok m \<Longrightarrow> distinct (map fst m)"
  by (auto simp: bt_ok_def strict_sorted_iff)

lemma bt_ok_mem_iff: "bt_ok m \<Longrightarrow> map_of m k = Some v \<longleftrightarrow> (k, v) \<in> set m"
  by (simp add: bt_ok_distinct map_of_eq_Some_iff)

lemma bt_ok_append:
  "bt_ok (m @ n) \<longleftrightarrow> bt_ok m \<and> bt_ok n \<and> (\<forall>a \<in> set m. \<forall>b \<in> set n. fst a < fst b)"
  by (auto simp: bt_ok_def sorted_wrt_append)

text \<open>Inserting a key beyond every key appends, which is how decoding loops build a map.\<close>

lemma bt_insert_append: "\<forall>e \<in> set m. fst e < k \<Longrightarrow> bt_insert k v m = m @ [(k, v)]"
  by (induction k v m rule: bt_insert.induct) auto

lemma bt_extend_append:
  "bt_ok (m @ n) \<Longrightarrow> bt_extend m n = m @ n"
proof (induction n arbitrary: m)
  case (Cons e n)
  obtain k v where e: "e = (k, v)" by fastforce
  have "\<forall>a \<in> set m. fst a < k" and ok: "bt_ok ((m @ [(k, v)]) @ n)"
    using Cons.prems by (auto simp: e bt_ok_append)
  then show ?case
    using Cons.IH [OF ok] by (simp add: bt_extend_def e bt_insert_append)
qed (simp add: bt_extend_def)

lemma bt_ok_extend [simp]: "bt_ok m \<Longrightarrow> bt_ok (bt_extend m n)"
  unfolding bt_extend_def by (induction n arbitrary: m) auto

lemma map_of_bt_extend: "bt_ok n \<Longrightarrow> map_of (bt_extend m n) = map_of m ++ map_of n"
proof (induction n arbitrary: m)
  case (Cons e n)
  obtain k v where e: "e = (k, v)" by fastforce
  have "map_of n k = None" and ok: "bt_ok n"
    using Cons.prems by (auto simp: e bt_simps map_of_eq_None_iff)
  then show ?case
    using Cons.IH [OF ok, of "bt_insert k v m"]
    by (auto simp: bt_extend_def e fun_eq_iff map_add_def split: option.splits)
qed (simp add: bt_extend_def)

text \<open>Two ordered association lists with the same lookups are equal.\<close>

lemma bt_eqI:
  assumes "bt_ok m" "bt_ok n" "map_of m = map_of n"
  shows "m = n"
proof -
  have "set (map fst m) = set (map fst n)"
    using assms(3) by (metis dom_map_of_conv_image_fst list.set_map)
  then have keys: "map fst m = map fst n"
    using assms(1,2) by (metis bt_ok_def strict_sorted_equal)
  have "l = map (\<lambda>k. (k, the (map_of l k))) (map fst l)" if "bt_ok l" for l :: "('a \<times> 'b) list"
    using that by (auto intro!: map_idI [symmetric] simp: bt_ok_mem_iff [symmetric] comp_def)
  then show ?thesis using assms keys by metis
qed

lemma bt_last_key_greatest:
  "bt_ok m \<Longrightarrow> bt_last_key m = Some l \<Longrightarrow> e \<in> set m \<Longrightarrow> fst e \<le> l"
  by (induction m rule: rev_induct)
     (auto simp: bt_last_key_def bt_ok_append split: if_splits intro: less_imp_le)

section \<open>Lists\<close>

lemma drop_eq_append_iff:
  "drop n xs = ys @ zs \<Longrightarrow> n \<le> length xs \<Longrightarrow> drop (n + length ys) xs = zs"
  by (metis add.commute append_eq_conv_conj drop_drop)

lemma length_concat_ge:
  "(\<And>x. x \<in> set xs \<Longrightarrow> m \<le> length (f x)) \<Longrightarrow> length xs * m \<le> length (concat (map f xs))"
proof (induction xs)
  case (Cons x xs)
  then have "m \<le> length (f x)" "length xs * m \<le> length (concat (map f xs))" by simp_all
  then show ?case by simp
qed simp

lemma take_drop_eq: "drop n xs = ys @ zs \<Longrightarrow> take (length ys) (drop n xs) = ys"
  by simp

lemma list_eq_nth_updI:
  "length xs = length ys \<Longrightarrow> (\<And>i. i < length xs \<Longrightarrow> xs ! i = ys ! i) \<Longrightarrow> xs = ys"
  by (rule nth_equalityI) auto

lemma list_update_ne: "i < length xs \<Longrightarrow> xs ! i \<noteq> v \<Longrightarrow> xs[i := v] \<noteq> xs"
  by (metis nth_list_update_eq)

end
