(* ===== verification/Codec.thy ===== *)
theory Codec
  imports Prelude
begin

text \<open>
  Models \<^verbatim>\<open>codec.rs\<close>: little-endian integers, the \<^verbatim>\<open>Encoder\<close> (its buffer is the byte list the
  operations append to) and the bounds-checked \<^verbatim>\<open>Decoder\<close>, a slice with an offset. The locales
  at the end state what a pair of encoder and decoder owes its users, once for one item and
  once for a counted loop of items; every record format of the engine interprets them.
\<close>

section \<open>Little-endian integers\<close>

fun nat_bytes :: "nat \<Rightarrow> nat \<Rightarrow> bytes" where
  "nat_bytes 0 k = []"
| "nat_bytes (Suc n) k = of_nat (k mod 256) # nat_bytes n (k div 256)"

fun bytes_nat :: "bytes \<Rightarrow> nat" where
  "bytes_nat [] = 0"
| "bytes_nat (b # bs) = unat b + 256 * bytes_nat bs"

definition le16 :: "u16 \<Rightarrow> bytes" where "le16 w = nat_bytes 2 (unat w)"
definition le32 :: "u32 \<Rightarrow> bytes" where "le32 w = nat_bytes 4 (unat w)"
definition le64 :: "u64 \<Rightarrow> bytes" where "le64 w = nat_bytes 8 (unat w)"
definition from_le16 :: "bytes \<Rightarrow> u16" where "from_le16 bs = of_nat (bytes_nat bs)"
definition from_le32 :: "bytes \<Rightarrow> u32" where "from_le32 bs = of_nat (bytes_nat bs)"
definition from_le64 :: "bytes \<Rightarrow> u64" where "from_le64 bs = of_nat (bytes_nat bs)"

lemma length_nat_bytes [simp]: "length (nat_bytes n k) = n"
  by (induction n k rule: nat_bytes.induct) auto

lemma bytes_nat_nat_bytes [simp]: "bytes_nat (nat_bytes n k) = k mod 256 ^ n"
proof (induction n k rule: nat_bytes.induct)
  case (2 n k)
  have "unat (of_nat (k mod 256) :: u8) = k mod 256" by (simp add: unat_of_nat)
  then show ?case using 2 by (simp add: mod_mult2_eq mult.commute)
qed simp

lemma bytes_nat_less: "bytes_nat bs < 256 ^ length bs"
proof (induction bs)
  case (Cons b bs)
  have "unat b < 256" by (rule unat_less_u8)
  with Cons show ?case by simp
qed simp

lemma nat_bytes_bytes_nat: "nat_bytes (length bs) (bytes_nat bs) = bs"
proof (induction bs)
  case (Cons b bs)
  have "unat b < 256" by (rule unat_less_u8)
  with Cons show ?case by simp
qed simp

lemma length_le [simp]: "length (le16 a) = 2" "length (le32 b) = 4" "length (le64 c) = 8"
  by (simp_all add: le16_def le32_def le64_def)

lemma from_le16_le16 [simp]: "from_le16 (le16 w) = w"
  using unat_less_u16 [of w] by (simp add: from_le16_def le16_def)

lemma from_le32_le32 [simp]: "from_le32 (le32 w) = w"
  using unat_less_u32 [of w] by (simp add: from_le32_def le32_def)

lemma from_le64_le64 [simp]: "from_le64 (le64 w) = w"
  using unat_less_u64 [of w] by (simp add: from_le64_def le64_def)

lemma le16_from_le16: "length bs = 2 \<Longrightarrow> le16 (from_le16 bs) = bs"
  using bytes_nat_less [of bs] nat_bytes_bytes_nat [of bs]
  by (simp add: from_le16_def le16_def unat_of_nat)

lemma le32_from_le32: "length bs = 4 \<Longrightarrow> le32 (from_le32 bs) = bs"
  using bytes_nat_less [of bs] nat_bytes_bytes_nat [of bs]
  by (simp add: from_le32_def le32_def unat_of_nat)

lemma le64_from_le64: "length bs = 8 \<Longrightarrow> le64 (from_le64 bs) = bs"
  using bytes_nat_less [of bs] nat_bytes_bytes_nat [of bs]
  by (simp add: from_le64_def le64_def unat_of_nat)

lemma le_inject [simp]:
  "le16 a = le16 a' \<longleftrightarrow> a = a'" "le32 b = le32 b' \<longleftrightarrow> b = b'" "le64 c = le64 c' \<longleftrightarrow> c = c'"
  by (metis from_le16_le16, metis from_le32_le32, metis from_le64_le64)

section \<open>UTF-8 text\<close>

text \<open>
  A Rust \<^verbatim>\<open>String\<close> is a byte vector holding well-formed UTF-8, so text is modelled by its bytes.
  \<open>utf8_chars\<close> is the standard library's decoding: the scalar values, or None when the bytes are
  not well-formed (overlong forms, surrogates and values above 0x10FFFF are rejected).
\<close>

definition cont_byte :: "u8 \<Rightarrow> bool" where
  "cont_byte b = (0x80 \<le> unat b \<and> unat b < 0xC0)"

fun utf8_chars :: "bytes \<Rightarrow> nat list option" where
  "utf8_chars [] = Some []"
| "utf8_chars (a # bs) =
     (let x = unat a in
      if x < 0x80 then map_option ((#) x) (utf8_chars bs)
      else if 0xC2 \<le> x \<and> x < 0xE0 then
        (case bs of
           b # r \<Rightarrow> if cont_byte b
             then map_option ((#) ((x - 0xC0) * 64 + (unat b - 0x80))) (utf8_chars r) else None
         | _ \<Rightarrow> None)
      else if 0xE0 \<le> x \<and> x < 0xF0 then
        (case bs of
           b # c # r \<Rightarrow> if cont_byte b \<and> cont_byte c \<and> (x = 0xE0 \<longrightarrow> 0xA0 \<le> unat b)
                \<and> (x = 0xED \<longrightarrow> unat b < 0xA0)
             then map_option ((#) ((x - 0xE0) * 4096 + (unat b - 0x80) * 64 + (unat c - 0x80)))
                    (utf8_chars r) else None
         | _ \<Rightarrow> None)
      else if 0xF0 \<le> x \<and> x < 0xF5 then
        (case bs of
           b # c # d # r \<Rightarrow> if cont_byte b \<and> cont_byte c \<and> cont_byte d
                \<and> (x = 0xF0 \<longrightarrow> 0x90 \<le> unat b) \<and> (x = 0xF4 \<longrightarrow> unat b < 0x90)
             then map_option ((#) ((x - 0xF0) * 262144 + (unat b - 0x80) * 4096
                    + (unat c - 0x80) * 64 + (unat d - 0x80))) (utf8_chars r) else None
         | _ \<Rightarrow> None)
      else None)"

definition utf8_valid :: "bytes \<Rightarrow> bool" where
  "utf8_valid bs = (utf8_chars bs \<noteq> None)"

definition text_of :: "bytes \<Rightarrow> string" where
  "text_of bs = map (\<lambda>b. char_of (unat b)) bs"

definition ascii :: "string \<Rightarrow> bytes" where
  "ascii s = map (\<lambda>c. of_nat (of_char c)) s"

lemma length_ascii [simp]: "length (ascii s) = length s"
  by (simp add: ascii_def)

section \<open>Encoder and Decoder\<close>

definition MAX_RECORD :: nat where "MAX_RECORD = 16 * 1024 * 1024"
definition MAX_FRAME :: nat where "MAX_FRAME = 64 * 1024 * 1024"

text \<open>The bytes each operation of the encoder appends.\<close>

definition e_u8 :: "u8 \<Rightarrow> bytes" where "e_u8 v = [v]"
definition e_u32 :: "u32 \<Rightarrow> bytes" where "e_u32 v = le32 v"
definition e_u64 :: "u64 \<Rightarrow> bytes" where "e_u64 v = le64 v"
definition e_bytes :: "bytes \<Rightarrow> bytes" where
  "e_bytes v = e_u64 (of_nat (length v)) @ v"
definition e_string :: "bytes \<Rightarrow> bytes" where "e_string v = e_bytes v"

record decoder =
  d_data :: bytes
  d_offset :: nat

definition d_new :: "bytes \<Rightarrow> decoder" where
  "d_new bs = \<lparr>d_data = bs, d_offset = 0\<rparr>"

definition d_take :: "decoder \<Rightarrow> nat \<Rightarrow> (bytes \<times> decoder) res" where
  "d_take d n = (case usize_checked_add (d_offset d) n of
       None \<Rightarrow> Inl (Corrupt ''length overflow'')
     | Some e \<Rightarrow>
         if e \<le> length (d_data d)
         then Inr (take n (drop (d_offset d) (d_data d)), d\<lparr>d_offset := e\<rparr>)
         else Inl (Corrupt ''truncated record''))"

definition d_u8 :: "decoder \<Rightarrow> (u8 \<times> decoder) res" where
  "d_u8 d = res_bind (d_take d 1) (\<lambda>(bs, d). Inr (hd bs, d))"

definition d_u32 :: "decoder \<Rightarrow> (u32 \<times> decoder) res" where
  "d_u32 d = res_bind (d_take d 4) (\<lambda>(bs, d). Inr (from_le32 bs, d))"

definition d_u64 :: "decoder \<Rightarrow> (u64 \<times> decoder) res" where
  "d_u64 d = res_bind (d_take d 8) (\<lambda>(bs, d). Inr (from_le64 bs, d))"

definition d_remaining :: "decoder \<Rightarrow> nat" where
  "d_remaining d = length (d_data d) - d_offset d"

definition d_count :: "nat \<Rightarrow> decoder \<Rightarrow> (nat \<times> decoder) res" where
  "d_count minimum d = res_bind (d_u64 d) (\<lambda>(n, d).
     if unat n > d_remaining d div max minimum 1
     then Inl (Corrupt ''invalid item count'') else Inr (unat n, d))"

definition d_bytes :: "decoder \<Rightarrow> (bytes \<times> decoder) res" where
  "d_bytes d = res_bind (d_count 1 d) (\<lambda>(n, d). d_take d n)"

definition d_string :: "decoder \<Rightarrow> (bytes \<times> decoder) res" where
  "d_string d = res_bind (d_bytes d) (\<lambda>(bs, d).
     if utf8_valid bs then Inr (bs, d) else Inl (Corrupt ''invalid UTF-8''))"

definition d_finish :: "decoder \<Rightarrow> unit res" where
  "d_finish d = (if d_remaining d \<noteq> 0 then Inl (Corrupt ''unexpected trailing bytes'') else Inr ())"

text \<open>A counted loop over a decoder that threads an accumulator.\<close>

fun d_repeat :: "nat \<Rightarrow> ('s \<Rightarrow> decoder \<Rightarrow> ('s \<times> decoder) res) \<Rightarrow> 's \<Rightarrow> decoder \<Rightarrow> ('s \<times> decoder) res" where
  "d_repeat 0 f s d = Inr (s, d)"
| "d_repeat (Suc n) f s d = res_bind (f s d) (\<lambda>(s, d). d_repeat n f s d)"

section \<open>What decoding consumes\<close>

definition d_rest :: "decoder \<Rightarrow> bytes" where
  "d_rest d = drop (d_offset d) (d_data d)"

definition d_ok :: "decoder \<Rightarrow> bool" where
  "d_ok d = (d_offset d \<le> length (d_data d) \<and> length (d_data d) < 2 ^ 63)"

definition d_skip :: "nat \<Rightarrow> decoder \<Rightarrow> decoder" where
  "d_skip n d = d\<lparr>d_offset := d_offset d + n\<rparr>"

lemma d_skip_0 [simp]: "d_skip 0 d = d"
  by (simp add: d_skip_def)

lemma d_skip_skip [simp]: "d_skip m (d_skip n d) = d_skip (n + m) d"
  by (simp add: d_skip_def add.assoc)

lemma d_rest_skip [simp]: "d_rest (d_skip n d) = drop n (d_rest d)"
  by (simp add: d_rest_def d_skip_def add.commute)

lemma d_remaining_rest: "d_remaining d = length (d_rest d)"
  by (simp add: d_remaining_def d_rest_def)

lemma d_ok_skip: "d_ok d \<Longrightarrow> n \<le> length (d_rest d) \<Longrightarrow> d_ok (d_skip n d)"
  by (auto simp: d_ok_def d_skip_def d_rest_def)

lemma d_ok_new [simp]: "length bs < 2 ^ 63 \<Longrightarrow> d_ok (d_new bs)"
  by (simp add: d_ok_def d_new_def)

lemma d_rest_new [simp]: "d_rest (d_new bs) = bs"
  by (simp add: d_rest_def d_new_def)

lemma d_take_ok:
  assumes "d_ok d" "n \<le> length (d_rest d)"
  shows "d_take d n = Inr (take n (d_rest d), d_skip n d)"
  using assms
  by (auto simp: d_take_def d_ok_def d_rest_def d_skip_def usize_checked_add_def)

lemma d_take_short:
  assumes "d_ok d" "length (d_rest d) < n"
  shows "\<exists>e. d_take d n = Inl (Corrupt e)"
  using assms by (auto simp: d_take_def d_ok_def d_rest_def usize_checked_add_def)

lemma d_take_Inr:
  "d_take d n = Inr (bs, d') \<Longrightarrow> d_ok d \<Longrightarrow>
   bs = take n (d_rest d) \<and> d' = d_skip n d \<and> n \<le> length (d_rest d)"
  by (auto simp: d_take_def d_ok_def d_rest_def d_skip_def usize_checked_add_def split: if_splits)

text \<open>
  \<open>parses f x n d\<close>: run on \<open>d\<close>, the decoder \<open>f\<close> returns \<open>x\<close> and consumes \<open>n\<close> bytes.
\<close>

definition parses :: "(decoder \<Rightarrow> ('a \<times> decoder) res) \<Rightarrow> 'a \<Rightarrow> bytes \<Rightarrow> bool" where
  "parses f x bs = (\<forall>d r. d_ok d \<longrightarrow> d_rest d = bs @ r \<longrightarrow> f d = Inr (x, d_skip (length bs) d))"

lemma parsesD: "parses f x bs \<Longrightarrow> d_ok d \<Longrightarrow> d_rest d = bs @ r \<Longrightarrow> f d = Inr (x, d_skip (length bs) d)"
  by (simp add: parses_def)

lemma parses_bind:
  assumes "parses f x bs" and "parses (g x) y cs"
  shows "parses (\<lambda>d. res_bind (f d) (\<lambda>(x, d). g x d)) y (bs @ cs)"
  unfolding parses_def
proof (intro allI impI)
  fix d r
  assume ok: "d_ok d" and rest: "d_rest d = (bs @ cs) @ r"
  have f: "f d = Inr (x, d_skip (length bs) d)"
    by (rule parsesD [OF assms(1) ok, of "cs @ r"]) (simp add: rest)
  have ok': "d_ok (d_skip (length bs) d)" using ok rest by (intro d_ok_skip) auto
  have "g x (d_skip (length bs) d) = Inr (y, d_skip (length cs) (d_skip (length bs) d))"
    by (rule parsesD [OF assms(2) ok', of r]) (simp add: rest)
  then show "res_bind (f d) (\<lambda>(x, d). g x d) = Inr (y, d_skip (length (bs @ cs)) d)"
    by (simp add: f)
qed

lemma parses_return [simp]: "parses (\<lambda>d. Inr (x, d)) x []"
  by (simp add: parses_def)

lemma parses_take: "parses (\<lambda>d. d_take d (length bs)) bs bs"
  by (simp add: parses_def d_take_ok)

lemma parses_u8 [simp]: "parses d_u8 v (e_u8 v)"
  by (auto simp: parses_def d_u8_def e_u8_def d_take_ok)

lemma parses_u32 [simp]: "parses d_u32 v (e_u32 v)"
  by (auto simp: parses_def d_u32_def e_u32_def d_take_ok)

lemma parses_u64 [simp]: "parses d_u64 v (e_u64 v)"
  by (auto simp: parses_def d_u64_def e_u64_def d_take_ok)

text \<open>A count parses when as many minimal items as it announces still follow.\<close>

lemma d_count_ok:
  assumes "d_ok d" "d_rest d = e_u64 (of_nat n) @ r" "n * max m 1 \<le> length r"
  shows "d_count m d = Inr (n, d_skip 8 d)"
proof -
  have u: "d_u64 d = Inr (of_nat n, d_skip 8 d)"
    using parsesD [OF parses_u64 assms(1,2)] by (simp add: e_u64_def)
  have "length r \<le> length (d_rest d)" by (simp add: assms(2))
  also have "\<dots> < 2 ^ 63" using assms(1) by (auto simp: d_ok_def d_rest_def)
  finally have "n * max m 1 < 2 ^ 63" using assms(3) by simp
  moreover have "n \<le> n * max m 1" by simp
  ultimately have "n < 2 ^ 63" by linarith
  then have nat: "unat (of_nat n :: u64) = n" by (simp add: unat_of_nat)
  have "d_remaining (d_skip 8 d) = length r"
    by (simp add: d_remaining_rest assms(2) e_u64_def)
  moreover have "n \<le> length r div max m 1"
    using assms(3) by (simp add: less_eq_div_iff_mult_less_eq)
  ultimately show ?thesis by (simp add: d_count_def u nat not_less)
qed

lemma parses_count:
  assumes "parses (g n) y cs" "n * max m 1 \<le> length cs"
  shows "parses (\<lambda>d. res_bind (d_count m d) (\<lambda>(n, d). g n d)) y (e_u64 (of_nat n) @ cs)"
  unfolding parses_def
proof (intro allI impI)
  fix d r
  assume ok: "d_ok d" and rest: "d_rest d = (e_u64 (of_nat n) @ cs) @ r"
  have c: "d_count m d = Inr (n, d_skip 8 d)"
    by (rule d_count_ok [OF ok, of _ "cs @ r"]) (use rest assms(2) in simp_all)
  have "d_ok (d_skip 8 d)" using rest ok by (intro d_ok_skip) (auto simp: e_u64_def)
  then have "g n (d_skip 8 d) = Inr (y, d_skip (length cs) (d_skip 8 d))"
    by (rule parsesD [OF assms(1), of _ r]) (simp add: rest e_u64_def)
  then show "res_bind (d_count m d) (\<lambda>(n, d). g n d) =
      Inr (y, d_skip (length (e_u64 (of_nat n) @ cs)) d)"
    by (simp add: c e_u64_def)
qed

lemma length_e [simp]:
  "length (e_u8 a) = 1" "length (e_u32 b) = 4" "length (e_u64 c) = 8"
  "length (e_bytes v) = 8 + length v" "length (e_string v) = 8 + length v"
  by (simp_all add: e_u8_def e_u32_def e_u64_def e_bytes_def e_string_def)

lemma parses_bytes: "parses d_bytes v (e_bytes v)"
  using parses_count [where g = "\<lambda>n d. d_take d n", OF parses_take [of v], of 1]
  by (simp add: d_bytes_def [abs_def] e_bytes_def)

lemma parses_if: "c \<Longrightarrow> parses f x bs \<Longrightarrow> parses (\<lambda>d. if c then f d else Inl e) x bs"
  by (simp add: parses_def)

lemma parses_string: "utf8_valid v \<Longrightarrow> parses d_string v (e_string v)"
  using parses_bytes [of v] by (auto simp: parses_def d_string_def e_string_def)

section \<open>Interfaces of record formats\<close>

text \<open>
  A record format: on the encoding of an admissible value the decoder returns that value and
  consumes exactly the encoding.
\<close>

locale item_format =
  fixes enc :: "'a \<Rightarrow> bytes"
    and dec :: "decoder \<Rightarrow> ('a \<times> decoder) res"
    and ok :: "'a \<Rightarrow> bool"
  assumes parses_enc: "ok x \<Longrightarrow> parses dec x (enc x)"
begin

lemma dec_enc_whole:
  assumes "ok x" "length (enc x) < 2 ^ 63"
  shows "res_bind (dec (d_new (enc x))) (\<lambda>(v, d). res_bind (d_finish d) (\<lambda>_. Inr v)) = Inr x"
proof -
  have "dec (d_new (enc x)) = Inr (x, d_skip (length (enc x)) (d_new (enc x)))"
    by (rule parsesD [OF parses_enc [OF assms(1)], of _ "[]"]) (use assms in simp_all)
  then show ?thesis by (simp add: d_finish_def d_remaining_rest)
qed

lemma enc_inj_on_ok:
  assumes "ok x" "ok y" "enc x = enc y" "length (enc x) < 2 ^ 63"
  shows "x = y"
  using dec_enc_whole [OF assms(1,4)] dec_enc_whole [OF assms(2)] assms(3,4)
  by (metis sum.inject(2))

lemma enc_prefix_free:
  assumes "ok x" "ok y" "enc x @ r = enc y @ s" "length (enc x @ r) < 2 ^ 63"
  shows "x = y \<and> r = s"
proof -
  let ?d = "d_new (enc x @ r)"
  have "dec ?d = Inr (x, d_skip (length (enc x)) ?d)"
    by (rule parsesD [OF parses_enc [OF assms(1)], of _ r]) (use assms in simp_all)
  moreover have "dec ?d = Inr (y, d_skip (length (enc y)) ?d)"
    by (rule parsesD [OF parses_enc [OF assms(2)], of _ s]) (use assms in simp_all)
  ultimately have "x = y" by simp
  with assms(3) show ?thesis by simp
qed

end

text \<open>
  The body of a decoding loop: given the items read so far, it reads the next admissible one and
  extends the accumulator. The whole loop then reads a list of items.
\<close>

locale loop_format =
  fixes enc :: "'a \<Rightarrow> bytes"
    and body :: "'s \<Rightarrow> decoder \<Rightarrow> ('s \<times> decoder) res"
    and ok :: "'s \<Rightarrow> 'a \<Rightarrow> bool"
    and add :: "'s \<Rightarrow> 'a \<Rightarrow> 's"
  assumes parses_body: "ok s x \<Longrightarrow> parses (body s) (add s x) (enc x)"
begin

fun ok_list :: "'s \<Rightarrow> 'a list \<Rightarrow> bool" where
  "ok_list s [] = True"
| "ok_list s (x # xs) = (ok s x \<and> ok_list (add s x) xs)"

lemma parses_repeat:
  "ok_list s xs \<Longrightarrow> parses (d_repeat (length xs) body s) (foldl add s xs) (concat (map enc xs))"
proof (induction xs arbitrary: s)
  case (Cons x xs)
  then have one: "parses (body s) (add s x) (enc x)"
    and more: "parses (d_repeat (length xs) body (add s x)) (foldl add (add s x) xs)
           (concat (map enc xs))"
    by (simp_all add: parses_body)
  show ?case
    using parses_bind [where f = "body s" and g = "d_repeat (length xs) body", OF one more]
    by simp
qed (simp add: parses_def)

lemma parses_counted:
  assumes "ok_list s xs" "\<And>x. x \<in> set xs \<Longrightarrow> m \<le> length (enc x)" "0 < m"
  shows "parses (\<lambda>d. res_bind (d_count m d) (\<lambda>(n, d). d_repeat n body s d))
           (foldl add s xs) (e_u64 (of_nat (length xs)) @ concat (map enc xs))"
proof (rule parses_count [where g = "\<lambda>n. d_repeat n body s", OF parses_repeat [OF assms(1)]])
  show "length xs * max m 1 \<le> length (concat (map enc xs))"
    using length_concat_ge [of xs m enc] assms(2,3) by (simp add: max.absorb1)
qed

end

end
