(* ===== verification/Model.thy ===== *)
theory Model
  imports Codec
begin

unbundle bit_operations_syntax

text \<open>
  Models the data model of \<^verbatim>\<open>model.rs\<close>: typed values, schemas, entities and events, the checks a
  row has to pass, the application of one event, and the byte formats of all of them.
  A \<^verbatim>\<open>f64\<close> is its bit pattern, an \<^verbatim>\<open>i64\<close> its two's-complement pattern, text its UTF-8 bytes.
\<close>

section \<open>Data\<close>

datatype data_type = BoolT | Int64T | UInt64T | Float64T | TextT | BytesT

datatype value_t =
    Null
  | BoolV bool
  | Int64V u64
  | UInt64V u64
  | Float64V u64
  | TextV bytes
  | BytesV bytes

type_synonym fields = "(u32, value_t) btree"

record field =
  f_id :: u32
  f_name :: bytes
  f_type :: data_type
  f_nullable :: bool

record schema =
  s_version :: u64
  s_fields :: "field list"

record table =
  t_id :: u64
  t_name :: bytes
  t_schemas :: "schema list"

record entity =
  en_id :: u64
  en_version :: u64
  en_schema :: u64
  en_deleted :: bool
  en_fields :: fields

datatype event_kind = ApplyEvent | DeleteEvent

record event =
  ev_version :: u64
  ev_transaction :: u64
  ev_schema :: u64
  ev_kind :: event_kind
  ev_fields :: fields

section \<open>Byte formats of fields, entities and events\<close>

fun encode_value :: "value_t \<Rightarrow> bytes" where
  "encode_value Null = e_u8 0"
| "encode_value (BoolV v) = e_u8 1 @ e_u8 (if v then 1 else 0)"
| "encode_value (Int64V v) = e_u8 2 @ e_u64 v"
| "encode_value (UInt64V v) = e_u8 3 @ e_u64 v"
| "encode_value (Float64V v) = e_u8 4 @ e_u64 v"
| "encode_value (TextV v) = e_u8 5 @ e_string v"
| "encode_value (BytesV v) = e_u8 6 @ e_bytes v"

definition encode_field_entry :: "u32 \<times> value_t \<Rightarrow> bytes" where
  "encode_field_entry e = e_u32 (fst e) @ encode_value (snd e)"

definition encode_fields :: "fields \<Rightarrow> bytes" where
  "encode_fields fs = e_u64 (of_nat (length fs)) @ concat (map encode_field_entry fs)"

fun value_encoded_len :: "value_t \<Rightarrow> nat" where
  "value_encoded_len Null = 0"
| "value_encoded_len (BoolV v) = 1"
| "value_encoded_len (TextV v) = 8 + length v"
| "value_encoded_len (BytesV v) = 8 + length v"
| "value_encoded_len v = 8"

definition fields_encoded_len :: "fields \<Rightarrow> nat" where
  "fields_encoded_len fs = 8 + sum_list (map (\<lambda>e. 5 + value_encoded_len (snd e)) fs)"

definition f64_is_finite :: "u64 \<Rightarrow> bool" where
  "f64_is_finite b = (drop_bit 52 b AND 0x7FF \<noteq> 0x7FF)"

definition decode_value :: "decoder \<Rightarrow> (value_t \<times> decoder) res" where
  "decode_value d = res_bind (d_u8 d) (\<lambda>(tag, d).
     if tag = 0 then Inr (Null, d)
     else if tag = 1 then res_bind (d_u8 d) (\<lambda>(b, d).
       if b = 0 then Inr (BoolV False, d)
       else if b = 1 then Inr (BoolV True, d)
       else Inl (Corrupt ''invalid boolean''))
     else if tag = 2 then res_bind (d_u64 d) (\<lambda>(v, d). Inr (Int64V v, d))
     else if tag = 3 then res_bind (d_u64 d) (\<lambda>(v, d). Inr (UInt64V v, d))
     else if tag = 4 then res_bind (d_u64 d) (\<lambda>(v, d).
       if \<not> f64_is_finite v then Inl (Corrupt ''non-finite float'')
       else Inr (Float64V v, d))
     else if tag = 5 then res_bind (d_string d) (\<lambda>(v, d). Inr (TextV v, d))
     else if tag = 6 then res_bind (d_bytes d) (\<lambda>(v, d). Inr (BytesV v, d))
     else Inl (Corrupt ''unknown value type''))"

definition decode_field_entry :: "fields \<Rightarrow> decoder \<Rightarrow> (fields \<times> decoder) res" where
  "decode_field_entry fs d = res_bind (d_u32 d) (\<lambda>(id, d).
     res_bind (decode_value d) (\<lambda>(v, d).
       if bt_has fs id then Inl (Corrupt ''duplicate field'')
       else Inr (bt_insert id v fs, d)))"

definition decode_fields :: "decoder \<Rightarrow> (fields \<times> decoder) res" where
  "decode_fields d = res_bind (d_count 5 d) (\<lambda>(count, d).
     if count > 4096 then Inl (Corrupt ''too many fields'')
     else d_repeat count decode_field_entry [] d)"

definition encode_entity :: "entity \<Rightarrow> bytes" where
  "encode_entity e = e_u64 (en_id e) @ e_u64 (en_version e) @ e_u64 (en_schema e) @
     e_u8 (if en_deleted e then 1 else 0) @ encode_fields (en_fields e)"

definition decode_entity :: "bytes \<Rightarrow> entity res" where
  "decode_entity bs =
     res_bind (d_u64 (d_new bs)) (\<lambda>(id, d).
     res_bind (d_u64 d) (\<lambda>(version, d).
     res_bind (d_u64 d) (\<lambda>(schema_version, d).
     res_bind (d_u8 d) (\<lambda>(tomb, d).
     res_bind (if tomb = 0 then Inr False else if tomb = 1 then Inr True
               else Inl (Corrupt ''invalid tombstone'')) (\<lambda>deleted.
     res_bind (decode_fields d) (\<lambda>(fs, d).
     res_bind (d_finish d) (\<lambda>_.
       Inr \<lparr>en_id = id, en_version = version, en_schema = schema_version,
            en_deleted = deleted, en_fields = fs\<rparr>)))))))"

definition encode_event :: "event \<Rightarrow> bytes" where
  "encode_event e = e_u64 (ev_version e) @ e_u64 (ev_transaction e) @ e_u64 (ev_schema e) @
     e_u8 (case ev_kind e of ApplyEvent \<Rightarrow> 0 | DeleteEvent \<Rightarrow> 1) @ encode_fields (ev_fields e)"

definition decode_event :: "bytes \<Rightarrow> event res" where
  "decode_event bs =
     res_bind (d_u64 (d_new bs)) (\<lambda>(version, d).
     res_bind (d_u64 d) (\<lambda>(transaction, d).
     res_bind (d_u64 d) (\<lambda>(schema_version, d).
     res_bind (d_u8 d) (\<lambda>(k, d).
     res_bind (if k = 0 then Inr ApplyEvent else if k = 1 then Inr DeleteEvent
               else Inl (Corrupt ''invalid event kind'')) (\<lambda>kind.
     res_bind (decode_fields d) (\<lambda>(fs, d).
     res_bind (d_finish d) (\<lambda>_.
       Inr \<lparr>ev_version = version, ev_transaction = transaction, ev_schema = schema_version,
            ev_kind = kind, ev_fields = fs\<rparr>)))))))"

section \<open>Names and schemas\<close>

text \<open>The scalar values \<^verbatim>\<open>char::is_control\<close> and \<^verbatim>\<open>char::is_whitespace\<close> accept.\<close>

definition char_is_control :: "nat \<Rightarrow> bool" where
  "char_is_control c = (c < 0x20 \<or> (0x7F \<le> c \<and> c < 0xA0))"

definition char_is_whitespace :: "nat \<Rightarrow> bool" where
  "char_is_whitespace c = ((0x09 \<le> c \<and> c \<le> 0x0D) \<or> c = 0x20 \<or> c = 0x85 \<or> c = 0xA0 \<or> c = 0x1680 \<or>
     (0x2000 \<le> c \<and> c \<le> 0x200A) \<or> c = 0x2028 \<or> c = 0x2029 \<or> c = 0x202F \<or> c = 0x205F \<or> c = 0x3000)"

definition validate_name :: "bytes \<Rightarrow> unit res" where
  "validate_name name =
     (let chars = (case utf8_chars name of Some cs \<Rightarrow> cs | None \<Rightarrow> []) in
      if list_all char_is_whitespace chars \<or> length name > 255 \<or> list_ex char_is_control chars
      then Inl (Invalid ''names must contain 1..=255 UTF-8 bytes without control characters'')
      else Inr ())"

fun validate_fields :: "u32 list \<Rightarrow> bytes list \<Rightarrow> field list \<Rightarrow> unit res" where
  "validate_fields ids names [] = Inr ()"
| "validate_fields ids names (f # fs) =
     res_bind (validate_name (f_name f)) (\<lambda>_.
       if f_id f = 0 \<or> f_id f \<in> set ids \<or> f_name f \<in> set names
       then Inl (Invalid ''field IDs and names must be unique and nonzero'')
       else validate_fields (f_id f # ids) (f_name f # names) fs)"

definition validate_schema :: "schema \<Rightarrow> unit res" where
  "validate_schema s =
     (if s_version s = 0 \<or> s_fields s = [] \<or> length (s_fields s) > 4096
      then Inl (Invalid ''a schema needs a version and 1..=4096 fields'')
      else validate_fields [] [] (s_fields s))"

definition schema_new :: "field list \<Rightarrow> schema res" where
  "schema_new fs = (let s = \<lparr>s_version = 1, s_fields = fs\<rparr> in
     res_bind (validate_schema s) (\<lambda>_. Inr s))"

definition find_field :: "schema \<Rightarrow> u32 \<Rightarrow> field option" where
  "find_field s i = List.find (\<lambda>f. f_id f = i) (s_fields s)"

fun value_valid :: "value_t \<Rightarrow> field \<Rightarrow> bool" where
  "value_valid Null f = f_nullable f"
| "value_valid (BoolV _) f = (f_type f = BoolT)"
| "value_valid (Int64V _) f = (f_type f = Int64T)"
| "value_valid (UInt64V _) f = (f_type f = UInt64T)"
| "value_valid (TextV _) f = (f_type f = TextT)"
| "value_valid (BytesV _) f = (f_type f = BytesT)"
| "value_valid (Float64V v) f = (f_type f = Float64T \<and> f64_is_finite v)"

definition check_entry :: "schema \<Rightarrow> u32 \<times> value_t \<Rightarrow> unit \<Rightarrow> unit res" where
  "check_entry s e u =
     res_bind (ok_or (find_field s (fst e)) (Invalid (''unknown field '' @ show_nat (unat (fst e)))))
       (\<lambda>f. if value_valid (snd e) f then Inr ()
            else Inl (Invalid (''wrong type or null for field '' @ show_nat (unat (fst e)))))"

definition fill_missing :: "field \<Rightarrow> fields \<Rightarrow> fields res" where
  "fill_missing f fs =
     (if bt_has fs (f_id f) then Inr fs
      else if \<not> f_nullable f then Inl (Invalid (''missing field '' @ show_nat (unat (f_id f))))
      else Inr (bt_insert (f_id f) Null fs))"

definition normalize :: "schema \<Rightarrow> fields \<Rightarrow> bool \<Rightarrow> fields res" where
  "normalize s fs complete =
     res_bind (res_fold (check_entry s) fs ()) (\<lambda>_.
     res_bind (if complete then res_fold fill_missing (s_fields s) fs else Inr fs) (\<lambda>fs.
       if length (encode_fields fs) > MAX_RECORD div 2
       then Inl (Invalid ''row exceeds 8 MiB'') else Inr fs))"

definition table_schema :: "table \<Rightarrow> schema" where
  "table_schema t = last (t_schemas t)"

definition table_version :: "table \<Rightarrow> u64 \<Rightarrow> schema res" where
  "table_version t v = ok_or (List.find (\<lambda>s. s_version s = v) (t_schemas t))
     (Corrupt ''unknown schema version'')"

section \<open>Byte format of tables\<close>

fun type_tag :: "data_type \<Rightarrow> u8" where
  "type_tag BoolT = 0"
| "type_tag Int64T = 1"
| "type_tag UInt64T = 2"
| "type_tag Float64T = 3"
| "type_tag TextT = 4"
| "type_tag BytesT = 5"

definition encode_field_def :: "field \<Rightarrow> bytes" where
  "encode_field_def f = e_u32 (f_id f) @ e_string (f_name f) @ e_u8 (type_tag (f_type f)) @
     e_u8 (if f_nullable f then 1 else 0)"

definition encode_schema :: "schema \<Rightarrow> bytes" where
  "encode_schema s = e_u64 (s_version s) @ e_u64 (of_nat (length (s_fields s))) @
     concat (map encode_field_def (s_fields s))"

definition encode_table :: "table \<Rightarrow> bytes" where
  "encode_table t = e_u64 (t_id t) @ e_string (t_name t) @ e_u64 (of_nat (length (t_schemas t))) @
     concat (map encode_schema (t_schemas t))"

definition decode_type_tag :: "u8 \<Rightarrow> data_type res" where
  "decode_type_tag b =
     (if b = 0 then Inr BoolT else if b = 1 then Inr Int64T else if b = 2 then Inr UInt64T
      else if b = 3 then Inr Float64T else if b = 4 then Inr TextT else if b = 5 then Inr BytesT
      else Inl (Corrupt ''invalid field type''))"

definition decode_field_def :: "field list \<Rightarrow> decoder \<Rightarrow> (field list \<times> decoder) res" where
  "decode_field_def fs d =
     res_bind (d_u32 d) (\<lambda>(id, d).
     res_bind (d_string d) (\<lambda>(name, d).
     res_bind (d_u8 d) (\<lambda>(tag, d).
     res_bind (decode_type_tag tag) (\<lambda>ty.
     res_bind (d_u8 d) (\<lambda>(n, d).
     res_bind (if n = 0 then Inr False else if n = 1 then Inr True
               else Inl (Corrupt ''invalid nullability'')) (\<lambda>nullable.
       Inr (fs @ [\<lparr>f_id = id, f_name = name, f_type = ty, f_nullable = nullable\<rparr>], d)))))))"

definition decode_schema :: "schema list \<Rightarrow> decoder \<Rightarrow> (schema list \<times> decoder) res" where
  "decode_schema ss d =
     res_bind (d_u64 d) (\<lambda>(version, d).
     res_bind (d_count 14 d) (\<lambda>(n, d).
     res_bind (d_repeat n decode_field_def [] d) (\<lambda>(fs, d).
     (let s = \<lparr>s_version = version, s_fields = fs\<rparr> in
      res_bind (map_err (\<lambda>e. Corrupt (display_error e)) (validate_schema s)) (\<lambda>_.
      if version \<noteq> of_nat (length ss) + 1 then Inl (Corrupt ''nonsequential schema versions'')
      else Inr (ss @ [s], d))))))"

definition decode_table :: "decoder \<Rightarrow> (table \<times> decoder) res" where
  "decode_table d =
     res_bind (d_u64 d) (\<lambda>(id, d).
     res_bind (d_string d) (\<lambda>(name, d).
     res_bind (d_count 16 d) (\<lambda>(count, d).
     res_bind (d_repeat count decode_schema [] d) (\<lambda>(ss, d).
     if id = 0 \<or> ss = [] then Inl (Corrupt ''invalid table'')
     else res_bind (map_err (\<lambda>e. Corrupt (display_error e)) (validate_name name)) (\<lambda>_.
       Inr (\<lparr>t_id = id, t_name = name, t_schemas = ss\<rparr>, d))))))"

section \<open>Applying one event\<close>

definition apply_event :: "entity \<Rightarrow> event \<Rightarrow> table \<Rightarrow> entity res" where
  "apply_event st ev t =
     (if en_deleted st \<or> checked_add64 (en_version st) 1 \<noteq> Some (ev_version ev)
      then Inl (Corrupt ''invalid entity version or event after deletion'')
      else res_bind (table_version t (ev_schema ev)) (\<lambda>s.
        res_bind (normalize s (bt_extend (en_fields st) (ev_fields ev)) True) (\<lambda>fs.
          Inr (st\<lparr>en_fields := fs, en_schema := ev_schema ev, en_version := ev_version ev,
                 en_deleted := (ev_kind ev = DeleteEvent)\<rparr>))))"

end
