(* ===== verification/Checksum.thy ===== *)
theory Checksum
  imports Codec
begin

unbundle bit_operations_syntax

text \<open>
  Models \<^verbatim>\<open>checksum.rs\<close>: the table-driven CRC32C that seals WAL frames, slotted pages, index
  pages and checkpoint files. The table is proved equal to the bitwise division it precomputes,
  and the resulting sum is proved to notice every change confined to four consecutive bytes.
  The locale at the end is the contract the sealed formats rely on.
\<close>

section \<open>The table and the running sum\<close>

definition POLY :: u32 where "POLY = 0x82f63b78"

definition crc_bit :: "u32 \<Rightarrow> u32" where
  "crc_bit v = (drop_bit 1 v) XOR (POLY AND (0 - (v AND 1)))"

definition TABLE :: "u32 list" where
  "TABLE = map (\<lambda>i. (crc_bit ^^ 8) (of_nat i)) [0..<256]"

definition checksum_new :: u32 where
  "checksum_new = NOT 0"

definition checksum_step :: "u32 \<Rightarrow> u8 \<Rightarrow> u32" where
  "checksum_step s b = TABLE ! unat ((s XOR ucast b) AND 255) XOR drop_bit 8 s"

definition checksum_update :: "u32 \<Rightarrow> bytes \<Rightarrow> u32" where
  "checksum_update s bs = foldl checksum_step s bs"

definition checksum_finish :: "u32 \<Rightarrow> u32" where
  "checksum_finish s = NOT s"

definition crc32c :: "bytes \<Rightarrow> u32" where
  "crc32c bs = checksum_finish (checksum_update checksum_new bs)"

section \<open>The table is the bitwise division\<close>

lemma xor_right_cancel: "(a :: 'a::len word) XOR c = b XOR c \<longleftrightarrow> a = b"
  by (metis xor.assoc xor_self_eq xor.right_neutral)

lemma xor_left_cancel: "(c :: 'a::len word) XOR a = c XOR b \<longleftrightarrow> a = b"
  by (metis xor_right_cancel xor.commute)

lemma crc_bit_alt: "crc_bit v = drop_bit 1 v XOR (if bit v 0 then POLY else 0)"
proof (cases "bit v 0")
  case True
  then have "v AND 1 = 1" by (simp add: and_one_eq bit_0 odd_iff_mod_2_eq_one)
  with True show ?thesis by (simp add: crc_bit_def)
next
  case False
  then have "v AND 1 = 0" by (simp add: and_one_eq bit_0 even_iff_mod_2_eq_zero)
  with False show ?thesis by (simp add: crc_bit_def)
qed

lemma crc_bit_xor: "crc_bit (a XOR b) = crc_bit a XOR crc_bit b"
  by (auto simp: crc_bit_alt bit_xor_iff drop_bit_xor xor.assoc xor.left_commute xor.commute)

lemma crc_bits_xor: "(crc_bit ^^ n) (a XOR b) = (crc_bit ^^ n) a XOR (crc_bit ^^ n) b"
  by (induction n) (simp_all add: crc_bit_xor)

lemma bit_31_crc_bit: "bit (crc_bit v) 31 = bit v 0"
proof -
  have "\<not> bit v 32" using bit_imp_le_length by fastforce
  moreover have "bit POLY 31" by (simp add: POLY_def bit_numeral_rec)
  ultimately show ?thesis
    by (simp add: crc_bit_alt bit_xor_iff bit_drop_bit_eq)
qed

lemma crc_bit_inject: "crc_bit v = crc_bit w \<longleftrightarrow> v = w"
proof
  assume eq: "crc_bit v = crc_bit w"
  then have low: "bit v 0 = bit w 0" using bit_31_crc_bit by metis
  with eq have high: "drop_bit 1 v = drop_bit 1 w"
    by (simp add: crc_bit_alt xor_right_cancel split: if_splits)
  show "v = w"
  proof (rule bit_word_eqI)
    fix n assume "n < LENGTH(32)"
    show "bit v n = bit w n"
    proof (cases n)
      case (Suc m)
      then show ?thesis
        using arg_cong [OF high, of "\<lambda>x. bit x m"] by (simp add: bit_drop_bit_eq)
    qed (simp add: low)
  qed
qed simp

lemma crc_bits_inject: "(crc_bit ^^ n) v = (crc_bit ^^ n) w \<longleftrightarrow> v = w"
  by (induction n) (simp_all add: crc_bit_inject)

text \<open>While the low bits are zero, the division only shifts.\<close>

lemma crc_bits_shift: "(\<forall>i < n. \<not> bit v i) \<Longrightarrow> (crc_bit ^^ n) v = drop_bit n v"
proof (induction n)
  case (Suc n)
  then have "(crc_bit ^^ n) v = drop_bit n v" by simp
  moreover have "\<not> bit (drop_bit n v) 0" using Suc.prems by (simp add: bit_drop_bit_eq)
  ultimately have "crc_bit ((crc_bit ^^ n) v) = drop_bit (Suc n) v"
    by (simp add: crc_bit_alt)
  then show ?case by simp
qed simp

lemma mask8: "(255 :: u32) = mask 8"
  by (simp add: mask_eq_exp_minus_1)

lemma crc_bits_split:
  "(crc_bit ^^ 8) v = (crc_bit ^^ 8) (v AND 255) XOR drop_bit 8 v"
proof -
  let ?h = "v AND NOT (mask 8)"
  have v: "v = (v AND mask 8) XOR ?h"
    by (rule bit_word_eqI) (auto simp: bit_xor_iff bit_and_iff bit_not_iff)
  have h: "(crc_bit ^^ 8) ?h = drop_bit 8 ?h"
    by (rule crc_bits_shift) (simp add: bit_and_iff bit_not_iff bit_mask_iff)
  have "drop_bit 8 ?h = drop_bit 8 v"
    by (rule bit_word_eqI)
       (auto simp: bit_drop_bit_eq bit_and_iff bit_not_iff bit_mask_iff dest: bit_imp_le_length)
  with h show ?thesis unfolding mask8 by (subst v) (simp only: crc_bits_xor)
qed

lemma TABLE_nth: "i < 256 \<Longrightarrow> TABLE ! i = (crc_bit ^^ 8) (of_nat i)"
  by (simp add: TABLE_def)

lemma checksum_step_bitwise: "checksum_step s b = (crc_bit ^^ 8) (s XOR ucast b)"
proof -
  let ?x = "(s XOR ucast b) AND (255 :: u32)"
  have "?x \<le> 255" by (rule word_and_le1)
  then have "unat ?x < 256" by (simp add: word_le_nat_alt)
  then have t: "TABLE ! unat ?x = (crc_bit ^^ 8) ?x" by (simp add: TABLE_nth)
  have "drop_bit 8 (ucast b :: u32) = 0"
    by (rule bit_word_eqI) (auto simp: bit_drop_bit_eq bit_simps dest: bit_imp_le_length)
  then have "drop_bit 8 (s XOR ucast b) = drop_bit 8 s" by (simp add: drop_bit_xor)
  then show ?thesis
    using crc_bits_split [of "s XOR ucast b"] by (simp add: checksum_step_def t)
qed

section \<open>Composition and injectivity\<close>

lemma checksum_update_Nil [simp]: "checksum_update s [] = s"
  by (simp add: checksum_update_def)

lemma checksum_update_Cons [simp]:
  "checksum_update s (b # bs) = checksum_update (checksum_step s b) bs"
  by (simp add: checksum_update_def)

lemma checksum_update_append [simp]:
  "checksum_update s (xs @ ys) = checksum_update (checksum_update s xs) ys"
  by (simp add: checksum_update_def)

lemma checksum_step_inject_state: "checksum_step s b = checksum_step t b \<longleftrightarrow> s = t"
  by (simp add: checksum_step_bitwise crc_bits_inject xor_right_cancel)

lemma checksum_update_inject_state: "checksum_update s bs = checksum_update t bs \<longleftrightarrow> s = t"
  by (induction bs arbitrary: s t) (simp_all add: checksum_step_inject_state)

text \<open>
  Up to four bytes enter the 32-bit register as one word, so they are never confused with another
  such block under the same register.
\<close>

definition block_word :: "bytes \<Rightarrow> u32" where
  "block_word bs = of_nat (bytes_nat bs)"

lemma drop_push_block:
  assumes "unat w < 2 ^ 24"
  shows "(crc_bit ^^ 8) (push_bit 8 (w :: u32)) = w"
proof -
  have "(crc_bit ^^ 8) (push_bit 8 w) = drop_bit 8 (push_bit 8 w)"
    by (rule crc_bits_shift) (simp add: bit_push_bit_iff)
  also have "\<dots> = w"
  proof (rule bit_word_eqI)
    have "take_bit 24 w = w"
      by (rule word_unat_eq_iff [THEN iffD2])
         (use assms in \<open>simp add: unsigned_take_bit_eq take_bit_nat_eq_self\<close>)
    then have "bit w n \<Longrightarrow> n < 24" for n by (metis bit_take_bit_iff)
    then show "bit (drop_bit 8 (push_bit 8 w)) n = bit w n" if "n < LENGTH(32)" for n
      using that by (fastforce simp: bit_drop_bit_eq bit_push_bit_iff)
  qed
  finally show ?thesis .
qed

lemma block_word_Cons:
  assumes "length bs \<le> 3"
  shows "block_word (b # bs) = ucast b XOR push_bit 8 (block_word bs)"
    and "unat (block_word bs) < 2 ^ 24"
proof -
  have "bytes_nat bs < 256 ^ length bs" by (rule bytes_nat_less)
  also have "\<dots> \<le> 256 ^ 3" using assms by (intro power_increasing) auto
  finally have less: "bytes_nat bs < 2 ^ 24" by simp
  then show 24: "unat (block_word bs) < 2 ^ 24"
    by (simp add: block_word_def unat_of_nat)
  have "(ucast b :: u32) XOR push_bit 8 (block_word bs) = ucast b OR push_bit 8 (block_word bs)"
    by (rule bit_word_eqI)
       (auto simp: bit_xor_iff bit_or_iff bit_push_bit_iff bit_simps dest: bit_imp_le_length)
  also have "\<dots> = ucast b + push_bit 8 (block_word bs)"
    by (rule disjunctive_add [symmetric])
       (auto simp: bit_push_bit_iff bit_simps dest: bit_imp_le_length)
  also have "\<dots> = block_word (b # bs)"
    by (simp add: block_word_def push_bit_eq_mult)
  finally show "block_word (b # bs) = ucast b XOR push_bit 8 (block_word bs)" by simp
qed

lemma checksum_update_block:
  "length bs \<le> 4 \<Longrightarrow> checksum_update s bs = (crc_bit ^^ (8 * length bs)) (s XOR block_word bs)"
proof (induction bs arbitrary: s)
  case (Cons b bs)
  then have len: "length bs \<le> 3" by simp
  note block = block_word_Cons [OF len]
  have "checksum_update s (b # bs) =
        (crc_bit ^^ (8 * length bs)) ((crc_bit ^^ 8) (s XOR ucast b) XOR block_word bs)"
    using Cons by (simp add: checksum_step_bitwise)
  also have "(crc_bit ^^ 8) (s XOR ucast b) XOR block_word bs =
        (crc_bit ^^ 8) (s XOR block_word (b # bs))"
    by (simp only: block crc_bits_xor drop_push_block xor.assoc [symmetric])
  finally show ?case by (simp add: funpow_add [symmetric, THEN fun_cong, unfolded comp_def] add.commute)
qed (simp add: block_word_def)

lemma block_word_inject:
  assumes "length xs = length ys" "length ys \<le> 4" "block_word xs = block_word ys"
  shows "xs = ys"
proof -
  have small: "bytes_nat bs < 2 ^ 32" if "length bs \<le> 4" for bs
    using bytes_nat_less [of bs] power_increasing [OF that, of "256 :: nat"] by simp
  have "bytes_nat xs = bytes_nat ys"
    using arg_cong [OF assms(3), of unat] small [of xs] small [of ys] assms(1,2)
    by (simp add: block_word_def unat_of_nat)
  then show ?thesis using assms(1) nat_bytes_bytes_nat by metis
qed

section \<open>What a seal guarantees\<close>

text \<open>Two byte strings that differ, but only inside one window of \<open>n\<close> consecutive bytes.\<close>

definition differ_within :: "nat \<Rightarrow> bytes \<Rightarrow> bytes \<Rightarrow> bool" where
  "differ_within n xs ys = (\<exists>a m m' b. xs = a @ m @ b \<and> ys = a @ m' @ b \<and>
     length m = length m' \<and> length m' \<le> n \<and> m \<noteq> m')"

lemma differ_within_update:
  assumes "i < length xs" "xs ! i \<noteq> v" "0 < n"
  shows "differ_within n (xs[i := v]) xs"
  unfolding differ_within_def
  by (rule exI [of _ "take i xs"], rule exI [of _ "[v]"], rule exI [of _ "[xs ! i]"],
      rule exI [of _ "drop (Suc i) xs"])
     (use assms in \<open>auto simp: upd_conv_take_nth_drop id_take_nth_drop\<close>)

lemma differ_withinI:
  assumes "length xs = length ys" "xs \<noteq> ys"
    and "\<forall>i < length xs. i < k \<or> k + n \<le> i \<longrightarrow> xs ! i = ys ! i"
  shows "differ_within n xs ys"
proof -
  have e: "take k xs = take k ys" "drop (k + n) xs = drop (k + n) ys"
    using assms(1,3) by (auto intro!: nth_equalityI)
  have split: "take k zs @ take n (drop k zs) @ drop (k + n) zs = zs" for zs :: bytes
    by (metis add.commute append_take_drop_id drop_drop)
  have "take n (drop k xs) \<noteq> take n (drop k ys)"
    using e assms(2) split [of xs] split [of ys] by metis
  moreover have "xs = take k xs @ take n (drop k xs) @ drop (k + n) xs" by (rule split [symmetric])
  moreover have "ys = take k xs @ take n (drop k ys) @ drop (k + n) xs"
    unfolding e by (rule split [symmetric])
  moreover have "length (take n (drop k xs)) = length (take n (drop k ys))" using assms(1) by simp
  ultimately show ?thesis unfolding differ_within_def by (metis length_take min.cobounded2)
qed

lemma crc32c_detects:
  assumes "differ_within 4 xs ys"
  shows "crc32c xs \<noteq> crc32c ys"
proof
  assume eq: "crc32c xs = crc32c ys"
  obtain a m m' b where split: "xs = a @ m @ b" "ys = a @ m' @ b"
    and len: "length m = length m'" "length m' \<le> 4" and ne: "m \<noteq> m'"
    using assms unfolding differ_within_def by blast
  let ?s = "checksum_update checksum_new a"
  have "checksum_update ?s m = checksum_update ?s m'"
    using arg_cong [OF eq, of "\<lambda>w. NOT w"]
    by (simp add: split crc32c_def checksum_finish_def checksum_update_inject_state)
  then have "block_word m = block_word m'"
    using len by (simp add: checksum_update_block crc_bits_inject xor_left_cancel)
  with len have "m = m'" using block_word_inject by blast
  with ne show False ..
qed

text \<open>
  The contract between a checksum and the formats it seals: a stored sum that matched the sealed
  bytes stops matching when either is altered inside one window of four bytes.
\<close>

locale sealing_sum =
  fixes chk :: "bytes \<Rightarrow> u32"
  assumes sum_detects: "differ_within 4 xs ys \<Longrightarrow> chk xs \<noteq> chk ys"
begin

lemma altered_payload:
  "le32 (chk ys) = stored \<Longrightarrow> differ_within 4 xs ys \<Longrightarrow> chk xs \<noteq> from_le32 stored"
  using sum_detects [of xs ys] by auto

lemma altered_byte:
  "i < length ys \<Longrightarrow> ys ! i \<noteq> v \<Longrightarrow> le32 (chk ys) = stored \<Longrightarrow> chk (ys[i := v]) \<noteq> from_le32 stored"
  using differ_within_update [of i ys v 4] by (intro altered_payload) simp_all

lemma altered_sum:
  "length stored = 4 \<Longrightarrow> stored \<noteq> le32 (chk ys) \<Longrightarrow> chk ys \<noteq> from_le32 stored"
  by (metis le32_from_le32)

end

interpretation crc: sealing_sum crc32c
  by unfold_locales (rule crc32c_detects)

lemma crc32c_table_free:
  "crc32c bs = NOT (foldl (\<lambda>s b. (crc_bit ^^ 8) (s XOR ucast b)) (NOT 0) bs)"
  by (simp add: crc32c_def checksum_finish_def checksum_update_def checksum_new_def
      checksum_step_bitwise fun_eq_iff cong: foldl_cong)

section \<open>Properties\<close>

text \<open>
  C36 (crc32c_detects_burst): two byte strings of the same length that differ only inside four
  consecutive bytes have different checksums, so no torn or flipped word goes unnoticed.
\<close>

theorem crc32c_detects_burst:
  assumes "length xs = length ys" "xs \<noteq> ys"
    and "\<forall>i < length xs. i < k \<or> k + 4 \<le> i \<longrightarrow> xs ! i = ys ! i"
  shows "crc32c xs \<noteq> crc32c ys"
  by (rule crc32c_detects) (rule differ_withinI [OF assms])

lemma crc32c_detects_burst_witness: "crc32c [1, 2, 3, 4, 5, 6] \<noteq> crc32c [1, 9, 3, 7, 5, 6]"
proof (rule crc32c_detects_burst [where k = 1])
  show "\<forall>i < length [1, 2, 3, 4, 5, 6 :: u8]. i < 1 \<or> 1 + 4 \<le> i \<longrightarrow>
      [1, 2, 3, 4, 5, 6 :: u8] ! i = [1, 9, 3, 7, 5, 6] ! i"
    by (simp add: All_less_Suc)
qed simp_all

text \<open>
  The table-driven, byte-at-a-time checksum is the bitwise definition of the
  reflected Castagnoli polynomial, and feeding a buffer in pieces gives the checksum of the whole.
\<close>

theorem crc32c_bitwise:
  "crc32c bs = NOT (foldl (\<lambda>s b. (crc_bit ^^ 8) (s XOR ucast b)) (NOT 0) bs) \<and>
   checksum_finish (checksum_update (checksum_update checksum_new xs) ys) = crc32c (xs @ ys)"
  using crc32c_table_free [of bs] by (simp add: crc32c_def)

end
