(* ===== verification/Frame.thy ===== *)
theory Frame
  imports Checksum
begin

text \<open>
  Models \<^verbatim>\<open>storage/frame.rs\<close>: the checksummed frames of the write-ahead log, the history segments
  and the catalog. A file is its bytes with a cursor; positional reads take the bytes and an
  offset. The laws: a written frame is read back, an incomplete tail is told apart from a frame,
  and a complete frame with any byte altered is an error, never a frame and never a tail.
\<close>

section \<open>Files\<close>

record log_file =
  file_bytes :: bytes
  file_pos :: nat

definition eof_error :: error where
  "eof_error = Io \<lparr>io_kind = ''UnexpectedEof'', io_text = ''failed to fill whole buffer''\<rparr>"

definition read_exact_at :: "bytes \<Rightarrow> nat \<Rightarrow> nat \<Rightarrow> bytes res" where
  "read_exact_at bs offset n =
     (if offset + n \<le> length bs then Inr (take n (drop offset bs)) else Inl eof_error)"

definition file_read_exact :: "log_file \<Rightarrow> nat \<Rightarrow> (bytes \<times> log_file) res" where
  "file_read_exact f n = res_bind (read_exact_at (file_bytes f) (file_pos f) n)
     (\<lambda>bs. Inr (bs, f\<lparr>file_pos := file_pos f + n\<rparr>))"

section \<open>Frames\<close>

record frame =
  fr_kind :: u16
  fr_lsn :: u64
  fr_payload :: bytes

definition frame_header :: "u16 \<Rightarrow> u64 \<Rightarrow> bytes \<Rightarrow> bytes" where
  "frame_header kind lsn payload =
     ascii ''EVFR'' @ le16 1 @ le16 kind @ le64 lsn @ le64 (of_nat (length payload)) @
     le32 (crc32c payload)"

definition frame_encode :: "u16 \<Rightarrow> u64 \<Rightarrow> bytes \<Rightarrow> bytes res" where
  "frame_encode kind lsn payload =
     (if length payload > MAX_FRAME then Inl (Invalid ''transaction exceeds 64 MiB'')
      else let header = frame_header kind lsn payload in
        Inr (header @ le32 (crc32c header) @ payload @ ascii ''EVCOMMIT''))"

definition frame_append :: "log_file \<Rightarrow> u16 \<Rightarrow> u64 \<Rightarrow> bytes \<Rightarrow> (nat \<times> log_file) res" where
  "frame_append f kind lsn payload = res_bind (frame_encode kind lsn payload) (\<lambda>bs.
     Inr (file_pos f, f\<lparr>file_bytes := take (file_pos f) (file_bytes f) @ bs @
            drop (file_pos f + length bs) (file_bytes f),
          file_pos := file_pos f + length bs\<rparr>))"

definition header_length :: "bytes \<Rightarrow> u64 res" where
  "header_length header =
     (if take 4 header \<noteq> ascii ''EVFR'' \<or> take 2 (drop 4 header) \<noteq> le16 1 \<or>
         crc32c (take 28 header) \<noteq> from_le32 (take 4 (drop 28 header))
      then Inl (Corrupt ''invalid frame header or checksum'')
      else let len = from_le64 (take 8 (drop 16 header)) in
        if unat len > MAX_FRAME then Inl (Corrupt ''oversized frame'') else Inr len)"

definition frame_assemble :: "bytes \<Rightarrow> bytes \<Rightarrow> bytes \<Rightarrow> frame res" where
  "frame_assemble header payload trailer =
     (if trailer \<noteq> ascii ''EVCOMMIT'' \<or> crc32c payload \<noteq> from_le32 (take 4 (drop 24 header))
      then Inl (Corrupt ''invalid committed frame payload or trailer'')
      else Inr \<lparr>fr_kind = from_le16 (take 2 (drop 6 header)),
                fr_lsn = from_le64 (take 8 (drop 8 header)), fr_payload = payload\<rparr>)"

definition payload_size_at :: "bytes \<Rightarrow> nat \<Rightarrow> nat \<Rightarrow> nat res" where
  "payload_size_at bs offset file_len =
     (if offset + 32 \<ge> 2 ^ 64 \<or> offset + 32 > file_len then Inl (Corrupt ''truncated frame header'')
      else res_bind (read_exact_at bs offset 32) (\<lambda>header.
        res_bind (header_length header) (\<lambda>size.
          if offset + (40 + unat size) \<ge> 2 ^ 64 \<or> offset + (40 + unat size) > file_len
          then Inl (Corrupt ''truncated indexed frame'') else Inr (unat size))))"

definition frame_read :: "log_file \<Rightarrow> (frame option \<times> log_file) res" where
  "frame_read f =
     (let remaining = length (file_bytes f) - file_pos f in
      if remaining < 32 then Inr (None, f)
      else res_bind (file_read_exact f 32) (\<lambda>(header, f).
        res_bind (header_length header) (\<lambda>len.
          if remaining < 40 + unat len then Inr (None, f)
          else res_bind (file_read_exact f (unat len)) (\<lambda>(payload, f).
            res_bind (file_read_exact f 8) (\<lambda>(trailer, f).
              res_bind (frame_assemble header payload trailer) (\<lambda>fr. Inr (Some fr, f)))))))"

definition frame_read_at :: "bytes \<Rightarrow> nat \<Rightarrow> nat \<Rightarrow> frame option res" where
  "frame_read_at bs offset file_end =
     (let remaining = file_end - offset in
      if remaining < 32 then Inr None
      else res_bind (read_exact_at bs offset 32) (\<lambda>header.
        res_bind (header_length header) (\<lambda>len.
          if remaining < 40 + unat len then Inr None
          else res_bind (read_exact_at bs (offset + 32) (unat len + 8)) (\<lambda>rest.
            res_bind (frame_assemble header (take (unat len) rest) (drop (unat len) rest))
              (\<lambda>fr. Inr (Some fr))))))"

section \<open>The shape of an encoded frame\<close>

lemma length_frame_header [simp]: "length (frame_header k l p) = 28"
  by (simp add: frame_header_def)

lemma frame_encode_Inr:
  "frame_encode k l p = Inr bs \<longleftrightarrow> length p \<le> MAX_FRAME \<and>
   bs = frame_header k l p @ le32 (crc32c (frame_header k l p)) @ p @ ascii ''EVCOMMIT''"
  by (auto simp: frame_encode_def Let_def)

lemma length_frame_encode: "frame_encode k l p = Inr bs \<Longrightarrow> length bs = 40 + length p"
  by (auto simp: frame_encode_Inr)

lemma header_slices:
  "take 4 (frame_header k l p) = ascii ''EVFR''"
  "take 2 (drop 4 (frame_header k l p)) = le16 1"
  "take 2 (drop 6 (frame_header k l p)) = le16 k"
  "take 8 (drop 8 (frame_header k l p)) = le64 l"
  "take 8 (drop 16 (frame_header k l p)) = le64 (of_nat (length p))"
  "take 4 (drop 24 (frame_header k l p)) = le32 (crc32c p)"
  by (simp_all add: frame_header_def drop_append)

lemma header_length_ok:
  "length p \<le> MAX_FRAME \<Longrightarrow>
   header_length (frame_header k l p @ le32 (crc32c (frame_header k l p))) = Inr (of_nat (length p))"
  by (simp add: header_length_def header_slices drop_append Let_def unat_of_nat MAX_FRAME_def)

lemma unat_length_frame: "length (p :: bytes) \<le> MAX_FRAME \<Longrightarrow> unat (of_nat (length p) :: u64) = length p"
  by (simp add: unat_of_nat MAX_FRAME_def)

lemma assemble_ok:
  "frame_assemble (frame_header k l p @ le32 c) p (ascii ''EVCOMMIT'') =
   Inr \<lparr>fr_kind = k, fr_lsn = l, fr_payload = p\<rparr>"
  by (simp add: frame_assemble_def header_slices drop_append)

lemma file_read_split:
  assumes "file_pos f \<le> length (file_bytes f)" "drop (file_pos f) (file_bytes f) = xs @ ys"
  shows "file_read_exact f (length xs) = Inr (xs, f\<lparr>file_pos := file_pos f + length xs\<rparr>)"
proof -
  have "length (file_bytes f) - file_pos f = length xs + length ys"
    using arg_cong [OF assms(2), of length] by simp
  then show ?thesis
    using assms by (simp add: file_read_exact_def read_exact_at_def)
qed

text \<open>Where a cursor stands on a header, a payload and a trailer, reading splits them.\<close>

lemma frame_read_split:
  assumes "file_pos f \<le> length (file_bytes f)"
    and "drop (file_pos f) (file_bytes f) = h @ p @ t @ rest"
    and "length h = 32" "length t = 8" "header_length h = Inr len" "unat len = length p"
  shows "frame_read f = res_bind (frame_assemble h p t)
    (\<lambda>fr. Inr (Some fr, f\<lparr>file_pos := file_pos f + (40 + length p)\<rparr>))"
proof -
  have rem: "length (file_bytes f) - file_pos f = 40 + length p + length rest"
    using arg_cong [OF assms(2), of length] assms(3,4) by simp
  let ?f1 = "f\<lparr>file_pos := file_pos f + 32\<rparr>"
  let ?f2 = "?f1\<lparr>file_pos := file_pos ?f1 + length p\<rparr>"
  have 1: "file_read_exact f 32 = Inr (h, ?f1)"
    using file_read_split [OF assms(1,2)] assms(3) by simp
  have d1: "drop (file_pos ?f1) (file_bytes ?f1) = p @ t @ rest"
    using drop_eq_append_iff [OF assms(2,1)] assms(3) by simp
  have 2: "file_read_exact ?f1 (length p) = Inr (p, ?f2)"
    using rem by (intro file_read_split [OF _ d1]) simp
  have d2: "drop (file_pos ?f2) (file_bytes ?f2) = t @ rest"
    using drop_eq_append_iff [OF d1] rem by simp
  have 3: "file_read_exact ?f2 8 = Inr (t, ?f2\<lparr>file_pos := file_pos ?f2 + 8\<rparr>)"
    using file_read_split [OF _ d2] assms(4) rem by simp
  show ?thesis
    using rem assms(5,6) 1 2 3 by (simp add: frame_read_def Let_def add.commute add.left_commute)
qed

text \<open>A header that does not validate is an error, whatever follows it.\<close>

lemma frame_read_bad_header:
  assumes "file_pos f \<le> length (file_bytes f)" "drop (file_pos f) (file_bytes f) = h @ rest"
    and "length h = 32" "header_length h = Inl e"
  shows "frame_read f = Inl e"
  using file_read_split [OF assms(1,2)] assms(3,4) arg_cong [OF assms(2), of length]
  by (simp add: frame_read_def Let_def)

section \<open>Altered headers\<close>

lemma header_altered:
  assumes "i < 32" "(frame_header k l p @ le32 (crc32c (frame_header k l p))) ! i \<noteq> v"
  shows "\<exists>e. header_length ((frame_header k l p @ le32 (crc32c (frame_header k l p)))[i := v]) = Inl (Corrupt e)"
proof -
  let ?h = "frame_header k l p"
  have "crc32c (take 28 ((?h @ le32 (crc32c ?h))[i := v])) \<noteq>
      from_le32 (take 4 (drop 28 ((?h @ le32 (crc32c ?h))[i := v])))"
  proof (cases "i < 28")
    case True
    then show ?thesis
      using crc.altered_byte [of i ?h v] assms
      by (simp add: list_update_append nth_append)
  next
    case False
    let ?s = "le32 (crc32c ?h)"
    have "?s ! (i - 28) \<noteq> v" using assms(2) False by (simp add: nth_append)
    then have "?s[i - 28 := v] \<noteq> ?s"
      using assms(1) False by (intro list_update_ne) auto
    then show ?thesis
      using crc.altered_sum [of "?s[i - 28 := v]" ?h] False
      by (simp add: list_update_append)
  qed
  then show ?thesis by (simp add: header_length_def)
qed

text \<open>An encoded frame is a header that announces its payload, the payload and the trailer.\<close>

lemma frame_encode_parts:
  assumes "frame_encode k l p = Inr bs"
  obtains h where "bs = h @ p @ ascii ''EVCOMMIT''" "length h = 32"
    "header_length h = Inr (of_nat (length p))" "unat (of_nat (length p) :: u64) = length p"
    "\<And>p' t. frame_assemble h p' t =
       (if t \<noteq> ascii ''EVCOMMIT'' \<or> crc32c p' \<noteq> crc32c p
        then Inl (Corrupt ''invalid committed frame payload or trailer'')
        else Inr \<lparr>fr_kind = k, fr_lsn = l, fr_payload = p'\<rparr>)"
    "\<And>i v. i < 32 \<Longrightarrow> h ! i \<noteq> v \<Longrightarrow> \<exists>e. header_length (h[i := v]) = Inl (Corrupt e)"
proof
  let ?h = "frame_header k l p @ le32 (crc32c (frame_header k l p))"
  have p: "length p \<le> MAX_FRAME" and bs: "bs = ?h @ p @ ascii ''EVCOMMIT''"
    using assms by (auto simp: frame_encode_Inr)
  show "bs = ?h @ p @ ascii ''EVCOMMIT''" by (rule bs)
  show "length ?h = 32" by simp
  show "header_length ?h = Inr (of_nat (length p))" by (rule header_length_ok [OF p])
  show "unat (of_nat (length p) :: u64) = length p" by (rule unat_length_frame [OF p])
  show "frame_assemble ?h p' t =
       (if t \<noteq> ascii ''EVCOMMIT'' \<or> crc32c p' \<noteq> crc32c p
        then Inl (Corrupt ''invalid committed frame payload or trailer'')
        else Inr \<lparr>fr_kind = k, fr_lsn = l, fr_payload = p'\<rparr>)" for p' t
    by (simp add: frame_assemble_def header_slices drop_append)
  show "i < 32 \<Longrightarrow> ?h ! i \<noteq> v \<Longrightarrow> \<exists>e. header_length (?h[i := v]) = Inl (Corrupt e)" for i v
    by (rule header_altered)
qed

section \<open>Reading frames back\<close>

lemma frame_read_complete:
  assumes "frame_encode k l p = Inr bs" "file_pos f \<le> length (file_bytes f)"
    "drop (file_pos f) (file_bytes f) = bs @ rest"
  shows "frame_read f = Inr (Some \<lparr>fr_kind = k, fr_lsn = l, fr_payload = p\<rparr>,
    f\<lparr>file_pos := file_pos f + length bs\<rparr>)"
proof -
  obtain h where h: "bs = h @ p @ ascii ''EVCOMMIT''" "length h = 32"
    "header_length h = Inr (of_nat (length p))" "unat (of_nat (length p) :: u64) = length p"
    and a: "frame_assemble h p (ascii ''EVCOMMIT'') = Inr \<lparr>fr_kind = k, fr_lsn = l, fr_payload = p\<rparr>"
    using frame_encode_parts [OF assms(1)] by metis
  have "drop (file_pos f) (file_bytes f) = h @ p @ ascii ''EVCOMMIT'' @ rest"
    using assms(3) h(1) by simp
  from frame_read_split [OF assms(2) this h(2) _ h(3,4)] show ?thesis
    by (simp add: a h(1,2))
qed

text \<open>Any strict prefix of a frame at the end of a file is a tail, not an error.\<close>

lemma frame_read_torn:
  assumes "frame_encode k l p = Inr bs" "file_pos f \<le> length (file_bytes f)"
    "drop (file_pos f) (file_bytes f) = take n bs" "n < length bs"
  shows "\<exists>f'. frame_read f = Inr (None, f')"
proof -
  obtain h where h: "bs = h @ p @ ascii ''EVCOMMIT''" "length h = 32"
    "header_length h = Inr (of_nat (length p))" "unat (of_nat (length p) :: u64) = length p"
    using frame_encode_parts [OF assms(1)] by metis
  have rem: "length (file_bytes f) - file_pos f = n"
    using arg_cong [OF assms(3), of length] assms(4) by simp
  show ?thesis
  proof (cases "n < 32")
    case False
    then have "drop (file_pos f) (file_bytes f) = h @ take (n - 32) (p @ ascii ''EVCOMMIT'')"
      using assms(3) h(1,2) by simp
    from file_read_split [OF assms(2) this] show ?thesis
      using False rem assms(4) h by (simp add: frame_read_def Let_def)
  qed (simp add: frame_read_def rem)
qed

text \<open>A complete frame with one byte altered, wherever it is, is an error.\<close>

lemma frame_read_altered:
  assumes "frame_encode k l p = Inr bs" "i < length bs" "bs ! i \<noteq> v"
    "file_pos f \<le> length (file_bytes f)" "drop (file_pos f) (file_bytes f) = bs[i := v] @ rest"
  shows "\<exists>e. frame_read f = Inl (Corrupt e)"
proof -
  let ?t = "ascii ''EVCOMMIT''"
  obtain h where h: "bs = h @ p @ ?t" "length h = 32"
    "header_length h = Inr (of_nat (length p))" "unat (of_nat (length p) :: u64) = length p"
    and a: "\<And>p' t. frame_assemble h p' t = (if t \<noteq> ?t \<or> crc32c p' \<noteq> crc32c p
        then Inl (Corrupt ''invalid committed frame payload or trailer'')
        else Inr \<lparr>fr_kind = k, fr_lsn = l, fr_payload = p'\<rparr>)"
    and hv: "\<And>i v. i < 32 \<Longrightarrow> h ! i \<noteq> v \<Longrightarrow> \<exists>e. header_length (h[i := v]) = Inl (Corrupt e)"
    proof (rule frame_encode_parts [OF assms(1)], goal_cases)
    case (1 h)
    show ?case by (rule 1(1) [of h]) (fact 1)+
  qed
  have t8: "length ?t = 8" by simp
  have body: "frame_read f = res_bind (frame_assemble h p' t')
      (\<lambda>fr. Inr (Some fr, f\<lparr>file_pos := file_pos f + (40 + length p')\<rparr>))"
    if "bs[i := v] = h @ p' @ t'" "length p' = length p" "length t' = 8" for p' t'
  proof (rule frame_read_split [OF assms(4), where rest = rest and len = "of_nat (length p)"])
    show "drop (file_pos f) (file_bytes f) = h @ p' @ t' @ rest"
      using assms(5) that(1) by simp
    show "unat (of_nat (length p) :: u64) = length p'" using h(4) that(2) by simp
  qed (rule h(2) that(3) h(3))+
  consider (header) "i < 32" | (payload) "32 \<le> i" "i < 32 + length p"
    | (trailer) "32 + length p \<le> i" by linarith
  then show ?thesis
  proof cases
    case header
    then have "bs[i := v] @ rest = h[i := v] @ p @ ?t @ rest" and ne: "h ! i \<noteq> v"
      using assms(2,3) h(1,2) by (simp_all add: list_update_append nth_append)
    then have "drop (file_pos f) (file_bytes f) = h[i := v] @ (p @ ?t @ rest)"
      using assms(5) by simp
    moreover obtain e where "header_length (h[i := v]) = Inl (Corrupt e)"
      using hv [OF header ne] by blast
    ultimately have "frame_read f = Inl (Corrupt e)"
      by (intro frame_read_bad_header [OF assms(4)]) (auto simp: h(2))
    then show ?thesis ..
  next
    case payload
    let ?p = "p[i - 32 := v]"
    have j: "i - 32 < length p" using payload by linarith
    have "bs[i := v] = h @ ?p @ ?t" and "p ! (i - 32) \<noteq> v"
      using assms(2,3) payload h(1,2) j by (simp_all add: list_update_append nth_append)
    moreover from this(2) have "crc32c ?p \<noteq> crc32c p"
      using crc.altered_byte [of "i - 32" p v] j by simp
    ultimately show ?thesis using body [of ?p ?t] by (simp add: a)
  next
    case trailer
    let ?t' = "?t[i - (32 + length p) := v]"
    have nj: "\<not> i - 32 < length p" using trailer by linarith
    have j: "i - (32 + length p) < length ?t" using trailer assms(2) h(1,2) by simp
    have ne: "?t ! (i - (32 + length p)) \<noteq> v"
      using assms(3) trailer h(1,2) nj by (simp add: nth_append diff_diff_eq)
    have "?t' \<noteq> ?t" by (rule list_update_ne [OF j ne])
    moreover have "bs[i := v] = h @ p @ ?t'"
      using trailer h(1,2) assms(2) nj by (simp add: list_update_append diff_diff_eq)
    ultimately show ?thesis using body [of p ?t'] by (simp add: a)
  qed
qed

section \<open>Reading a log\<close>

lemma read_exact_at_Inr:
  "read_exact_at bs off n = Inr xs \<longleftrightarrow> off + n \<le> length bs \<and> xs = take n (drop off bs)"
  by (auto simp: read_exact_at_def)

lemma file_read_exact_Inr:
  "file_read_exact f n = Inr (xs, f') \<longleftrightarrow> file_pos f + n \<le> length (file_bytes f) \<and>
     xs = take n (drop (file_pos f) (file_bytes f)) \<and> f' = f\<lparr>file_pos := file_pos f + n\<rparr>"
  by (auto simp: file_read_exact_def read_exact_at_Inr res_simps)

text \<open>Every frame read moves the cursor past at least its header and trailer.\<close>

lemma frame_read_advances:
  assumes "frame_read f = Inr (Some fr, f')"
  shows "file_bytes f' = file_bytes f \<and> file_pos f + 40 \<le> file_pos f' \<and>
    file_pos f' \<le> length (file_bytes f)"
  using assms by (auto simp: frame_read_def Let_def res_simps file_read_exact_Inr split: if_splits)

text \<open>
  The loop \<^verbatim>\<open>while let Some(record) = frame::read(&mut file)?\<close> of recovery: the records in
  order, each with the position behind it.
\<close>

function log_records :: "log_file \<Rightarrow> (frame \<times> nat) list res" where
  "log_records f = (case frame_read f of
       Inl e \<Rightarrow> Inl e
     | Inr (None, f') \<Rightarrow> Inr []
     | Inr (Some fr, f') \<Rightarrow> res_bind (log_records f') (\<lambda>rs. Inr ((fr, file_pos f') # rs)))"
  by pat_completeness auto

termination log_records
  by (relation "measure (\<lambda>f. length (file_bytes f) - file_pos f)") (auto dest!: frame_read_advances)

declare log_records.simps [simp del]

text \<open>The byte string of a list of frames, and the records reading it gives.\<close>

fun frames_encode :: "frame list \<Rightarrow> bytes res" where
  "frames_encode [] = Inr []"
| "frames_encode (fr # frs) = res_bind (frame_encode (fr_kind fr) (fr_lsn fr) (fr_payload fr)) (\<lambda>bs.
     res_bind (frames_encode frs) (\<lambda>cs. Inr (bs @ cs)))"

fun with_ends :: "nat \<Rightarrow> frame list \<Rightarrow> (frame \<times> nat) list" where
  "with_ends pos [] = []"
| "with_ends pos (fr # frs) =
     (let e = pos + 40 + length (fr_payload fr) in (fr, e) # with_ends e frs)"

lemma log_records_step:
  assumes "frame_encode (fr_kind fr) (fr_lsn fr) (fr_payload fr) = Inr bs"
    "file_pos f \<le> length (file_bytes f)" "drop (file_pos f) (file_bytes f) = bs @ rest"
  shows "log_records f = res_bind (log_records (f\<lparr>file_pos := file_pos f + length bs\<rparr>))
    (\<lambda>rs. Inr ((fr, file_pos f + length bs) # rs))"
  using frame_read_complete [OF assms] by (cases fr) (subst log_records.simps, simp)

lemma log_records_all:
  assumes "frames_encode frs = Inr bs" "file_pos f \<le> length (file_bytes f)"
    "drop (file_pos f) (file_bytes f) = bs @ tail"
    and tail: "\<And>f'. file_pos f' \<le> length (file_bytes f') \<Longrightarrow>
      drop (file_pos f') (file_bytes f') = tail \<Longrightarrow> log_records f' = Inr []"
  shows "log_records f = Inr (with_ends (file_pos f) frs)"
  using assms(1-3)
proof (induction frs arbitrary: f bs)
  case (Cons fr frs)
  obtain b c where b: "frame_encode (fr_kind fr) (fr_lsn fr) (fr_payload fr) = Inr b"
    and c: "frames_encode frs = Inr c" and bs: "bs = b @ c"
    using Cons.prems(1) by (auto simp: res_simps)
  let ?f = "f\<lparr>file_pos := file_pos f + length b\<rparr>"
  have d: "drop (file_pos f) (file_bytes f) = b @ (c @ tail)" using Cons.prems(3) bs by simp
  then have "drop (file_pos ?f) (file_bytes ?f) = c @ tail"
    using drop_eq_append_iff [OF d Cons.prems(2)] by simp
  moreover have "file_pos ?f \<le> length (file_bytes ?f)"
    using arg_cong [OF d, of length] Cons.prems(2) by simp
  ultimately have "log_records ?f = Inr (with_ends (file_pos ?f) frs)"
    using Cons.IH [OF c] by blast
  then show ?case
    using log_records_step [OF b Cons.prems(2) d] length_frame_encode [OF b] by (simp add: add.assoc Let_def)
qed (use tail in simp)

lemma log_records_torn:
  assumes "frame_encode k l p = Inr bs" "n < length bs"
    "file_pos f \<le> length (file_bytes f)" "drop (file_pos f) (file_bytes f) = take n bs"
  shows "log_records f = Inr []"
  using frame_read_torn [OF assms(1,3,4,2)] by (subst log_records.simps) auto

text \<open>A positional read of the published prefix agrees with the sequential one.\<close>

lemma frame_read_at_agrees:
  assumes "file_end = length (file_bytes f)" "file_pos f \<le> file_end"
  shows "frame_read_at (file_bytes f) (file_pos f) file_end = map_sum (\<lambda>e. e) fst (frame_read f)"
proof -
  have t: "take 8 (drop (n + m) xs) = drop m (take (m + 8) (drop n xs))" for n m and xs :: bytes
    by (simp add: drop_take add.commute)
  have split: "take m (take (m + 8) ys) = take m ys" for m and ys :: bytes by simp
  show ?thesis
  proof (cases "header_length (take 32 (drop (file_pos f) (file_bytes f)))")
    case (Inl e)
    then show ?thesis using assms
      by (simp add: frame_read_at_def frame_read_def file_read_exact_def read_exact_at_def Let_def)
  next
    case (Inr len)
    show ?thesis
    proof (cases "file_end - file_pos f < 40 + unat len")
      case True
      then show ?thesis using assms Inr
        by (simp add: frame_read_at_def frame_read_def file_read_exact_def read_exact_at_def Let_def)
    next
      case False
      then have len: "40 + (file_pos f + unat len) \<le> length (file_bytes f)" using assms by linarith
      let ?a = "frame_assemble (take 32 (drop (file_pos f) (file_bytes f)))
        (take (unat len) (drop (file_pos f + 32) (file_bytes f)))
        (take 8 (drop (file_pos f + 32 + unat len) (file_bytes f)))"
      have "frame_read_at (file_bytes f) (file_pos f) file_end = res_bind ?a (\<lambda>fr. Inr (Some fr))"
        using False len assms Inr
        by (simp add: frame_read_at_def read_exact_at_def Let_def t min_def)
      moreover have "frame_read f = res_bind ?a (\<lambda>fr. Inr (Some fr, f\<lparr>file_pos := file_pos f + 32 + unat len + 8\<rparr>))"
        using False len assms Inr
        by (simp add: frame_read_def file_read_exact_def read_exact_at_def Let_def add.commute add.left_commute)
      ultimately show ?thesis by (cases ?a) simp_all
    qed
  qed
qed

section \<open>Properties\<close>

text \<open>
  C17 (log_recovers): recovering a log of complete frames followed by any strict prefix of one more
  frame, as a crash leaves it, gives exactly the complete frames in order, each with the position
  behind it.
\<close>

theorem log_recovers:
  assumes "frames_encode frs = Inr bs" "frame_encode k l p = Inr c" "n < length c"
  shows "log_records \<lparr>file_bytes = bs @ take n c, file_pos = 0\<rparr> = Inr (with_ends 0 frs)"
  using log_records_all [OF assms(1), of "\<lparr>file_bytes = bs @ take n c, file_pos = 0\<rparr>" "take n c"]
    log_records_torn [OF assms(2,3)] by simp

lemma log_recovers_witness:
  "log_records \<lparr>file_bytes = frame_header 2 1 [7] @ le32 (crc32c (frame_header 2 1 [7])) @ [7] @ ascii ''EVCOMMIT'' @
       take 20 (frame_header 2 2 []), file_pos = 0\<rparr> =
   Inr [(\<lparr>fr_kind = 2, fr_lsn = 1, fr_payload = [7]\<rparr>, 41)]"
proof -
  have a: "frames_encode [\<lparr>fr_kind = 2, fr_lsn = 1, fr_payload = [7]\<rparr>] =
      Inr (frame_header 2 1 [7] @ le32 (crc32c (frame_header 2 1 [7])) @ [7] @ ascii ''EVCOMMIT'')"
    by (simp add: frame_encode_def MAX_FRAME_def Let_def)
  have b: "frame_encode 2 2 [] = Inr (frame_header 2 2 [] @ le32 (crc32c (frame_header 2 2 [])) @ [] @ ascii ''EVCOMMIT'')"
    by (simp add: frame_encode_def MAX_FRAME_def Let_def)
  from log_recovers [OF a b, of 20] show ?thesis by simp
qed

lemma log_records_altered:
  assumes "frames_encode frs = Inr bs" "frame_encode k l p = Inr c" "i < length c" "c ! i \<noteq> v"
    "file_pos f \<le> length (file_bytes f)" "drop (file_pos f) (file_bytes f) = bs @ c[i := v] @ rest"
  shows "\<exists>e. log_records f = Inl (Corrupt e)"
  using assms(1,5,6)
proof (induction frs arbitrary: f bs)
  case Nil
  then have "drop (file_pos f) (file_bytes f) = c[i := v] @ rest" by simp
  from frame_read_altered [OF assms(2-4) Nil(2) this] obtain e where "frame_read f = Inl (Corrupt e)" ..
  then show ?case by (subst log_records.simps) simp
next
  case (Cons fr frs)
  obtain b d where b: "frame_encode (fr_kind fr) (fr_lsn fr) (fr_payload fr) = Inr b"
    and d: "frames_encode frs = Inr d" and bs: "bs = b @ d"
    using Cons.prems(1) by (auto simp: res_simps)
  let ?f = "f\<lparr>file_pos := file_pos f + length b\<rparr>"
  have e: "drop (file_pos f) (file_bytes f) = b @ (d @ c[i := v] @ rest)" using Cons.prems(3) bs by simp
  have "drop (file_pos ?f) (file_bytes ?f) = d @ c[i := v] @ rest"
    using drop_eq_append_iff [OF e Cons.prems(2)] by simp
  moreover have "file_pos ?f \<le> length (file_bytes ?f)"
    using arg_cong [OF e, of length] Cons.prems(2) by simp
  ultimately obtain x where "log_records ?f = Inl (Corrupt x)" using Cons.IH [OF d] by blast
  then show ?case using log_records_step [OF b Cons.prems(2) e] by simp
qed

text \<open>
  C30 (log_corruption_detected): a log in which one byte of a complete frame was altered, header,
  payload or trailer, is refused: recovery returns a corruption error and neither drops nor
  reinterprets the frame.
\<close>

theorem log_corruption_detected:
  assumes "frames_encode frs = Inr bs" "frame_encode k l p = Inr c" "i < length c" "c ! i \<noteq> v"
  shows "\<exists>e. log_records \<lparr>file_bytes = bs @ c[i := v] @ rest, file_pos = 0\<rparr> = Inl (Corrupt e)"
  by (rule log_records_altered [OF assms]) simp_all

lemma log_corruption_detected_witness:
  "\<exists>c e. frame_encode 2 2 [5] = Inr c \<and>
     log_records \<lparr>file_bytes = [] @ c[3 := 0] @ [], file_pos = 0\<rparr> = Inl (Corrupt e)"
proof -
  obtain c where c: "frame_encode 2 2 [5] = Inr c"
    by (simp add: frame_encode_def MAX_FRAME_def Let_def)
  then have "length c = 41" "c ! 3 \<noteq> 0"
    using length_frame_encode [OF c] by (auto simp: frame_encode_Inr frame_header_def ascii_def)
  with log_corruption_detected [of "[]" "[]", OF _ c, of 3 0 "[]"] c show ?thesis by auto
qed

end
