(* ===== verification/Page.thy ===== *)
theory Page
  imports Checksum
begin

text \<open>
  Models \<^verbatim>\<open>storage/page.rs\<close>: 8 KiB slotted pages as byte lists. The slot directory grows forward
  from the header, record bytes grow backward from the end, and a checksum covers the page. The
  abstraction of a valid page is its identifier, its sequence number and its list of slots, each
  holding a record or nothing; every operation is shown to be the corresponding operation on that
  abstraction and to keep the page valid, that is, accepted by \<^verbatim>\<open>from_bytes\<close>.
\<close>

section \<open>Layout\<close>

definition PAGE_SIZE :: nat where "PAGE_SIZE = 8192"
definition HEADER_SIZE :: nat where "HEADER_SIZE = 40"
definition SLOT_SIZE :: nat where "SLOT_SIZE = 4"
definition FORMAT_VERSION :: u16 where "FORMAT_VERSION = 2"
definition COUNT_OFFSET :: nat where "COUNT_OFFSET = 16"
definition LOWER_OFFSET :: nat where "LOWER_OFFSET = 18"
definition UPPER_OFFSET :: nat where "UPPER_OFFSET = 20"
definition MAX_RECORD_SIZE :: nat where "MAX_RECORD_SIZE = PAGE_SIZE - HEADER_SIZE - SLOT_SIZE"

lemmas page_consts = PAGE_SIZE_def HEADER_SIZE_def SLOT_SIZE_def COUNT_OFFSET_def
  LOWER_OFFSET_def UPPER_OFFSET_def MAX_RECORD_SIZE_def

datatype page_error =
    InvalidSize
  | InvalidHeader
  | UnsupportedVersion u16
  | InvalidLayout
  | RecordTooLarge
  | Full
  | ChecksumMismatch

fun page_error_text :: "page_error \<Rightarrow> string" where
  "page_error_text InvalidSize = ''expected exactly '' @ show_nat PAGE_SIZE @ '' page bytes''"
| "page_error_text InvalidHeader = ''invalid page header''"
| "page_error_text (UnsupportedVersion v) =
     ''unsupported page format version '' @ show_nat (unat v)"
| "page_error_text InvalidLayout = ''invalid slot directory or record boundaries''"
| "page_error_text RecordTooLarge = ''record exceeds '' @ show_nat MAX_RECORD_SIZE @ '' bytes''"
| "page_error_text Full = ''insufficient space for the record and its slot''"
| "page_error_text ChecksumMismatch = ''page checksum mismatch''"

text \<open>\<^verbatim>\<open>bytes[offset..offset + n]\<close> and \<^verbatim>\<open>bytes[offset..].copy_from_slice\<close>.\<close>

definition slice :: "nat \<Rightarrow> nat \<Rightarrow> bytes \<Rightarrow> bytes" where
  "slice offset n bs = take n (drop offset bs)"

definition put :: "nat \<Rightarrow> bytes \<Rightarrow> bytes \<Rightarrow> bytes" where
  "put offset xs bs = take offset bs @ xs @ drop (offset + length xs) bs"

definition read_u16 :: "bytes \<Rightarrow> nat \<Rightarrow> u16" where
  "read_u16 p offset = from_le16 (slice offset 2 p)"

definition write_u16 :: "nat \<Rightarrow> u16 \<Rightarrow> bytes \<Rightarrow> bytes" where
  "write_u16 offset v p = put offset (le16 v) p"

definition computed_checksum :: "bytes \<Rightarrow> u32" where
  "computed_checksum p = checksum_finish (checksum_update (checksum_update (checksum_update
     checksum_new (take 32 p)) [0, 0, 0, 0]) (drop 36 p))"

definition refresh_checksum :: "bytes \<Rightarrow> bytes" where
  "refresh_checksum p = put 32 (le32 (computed_checksum p)) p"

definition record_count :: "bytes \<Rightarrow> nat" where
  "record_count p = unat (read_u16 p COUNT_OFFSET)"

definition record_location :: "bytes \<Rightarrow> nat \<Rightarrow> nat \<times> nat" where
  "record_location p slot = (let entry = HEADER_SIZE + slot * SLOT_SIZE in
     (unat (read_u16 p entry), unat (read_u16 p (entry + 2))))"

section \<open>Operations\<close>

definition page_new :: "u64 \<Rightarrow> bytes" where
  "page_new pid = refresh_checksum
     (write_u16 UPPER_OFFSET (of_nat PAGE_SIZE)
     (write_u16 LOWER_OFFSET (of_nat HEADER_SIZE)
     (put 8 (le64 pid)
     (write_u16 6 (of_nat PAGE_SIZE)
     (write_u16 4 FORMAT_VERSION
     (put 0 (ascii ''EVPG'') (replicate PAGE_SIZE 0)))))))"

definition check_slot :: "bytes \<Rightarrow> nat \<Rightarrow> nat \<Rightarrow> nat \<Rightarrow> page_error + nat" where
  "check_slot p upper slot expected_end =
     (let (offset, len) = record_location p slot in
      if offset = 0 \<and> len = 0 then Inr expected_end
      else if offset < upper \<or> offset + len \<noteq> expected_end then Inl InvalidLayout
      else Inr offset)"

definition page_from_bytes :: "bytes \<Rightarrow> page_error + bytes" where
  "page_from_bytes p =
     (if length p \<noteq> PAGE_SIZE then Inl InvalidSize
      else if slice 0 4 p \<noteq> ascii ''EVPG'' then Inl InvalidHeader
      else if read_u16 p 4 \<noteq> FORMAT_VERSION then Inl (UnsupportedVersion (read_u16 p 4))
      else if unat (read_u16 p 6) \<noteq> PAGE_SIZE \<or> read_u16 p 22 \<noteq> 0 \<or> slice 36 4 p \<noteq> [0, 0, 0, 0]
      then Inl InvalidHeader
      else let lower = unat (read_u16 p LOWER_OFFSET);
               upper = unat (read_u16 p UPPER_OFFSET);
               directory_end = HEADER_SIZE + record_count p * SLOT_SIZE in
        if lower \<noteq> directory_end \<or> lower > upper \<or> upper > PAGE_SIZE then Inl InvalidLayout
        else res_bind (res_fold (check_slot p upper) [0..<record_count p] PAGE_SIZE) (\<lambda>expected_end.
          if expected_end \<noteq> upper then Inl InvalidLayout
          else if from_le32 (slice 32 4 p) \<noteq> computed_checksum p then Inl ChecksumMismatch
          else Inr p))"

definition page_id :: "bytes \<Rightarrow> u64" where
  "page_id p = from_le64 (slice 8 8 p)"

definition page_lsn :: "bytes \<Rightarrow> u64" where
  "page_lsn p = from_le64 (slice 24 8 p)"

definition set_lsn :: "u64 \<Rightarrow> bytes \<Rightarrow> bytes" where
  "set_lsn lsn p = refresh_checksum (put 24 (le64 lsn) p)"

text \<open>The \<^verbatim>\<open>u16\<close> subtraction wraps; on a valid page it does not.\<close>

definition free_space :: "bytes \<Rightarrow> nat" where
  "free_space p = unat (read_u16 p UPPER_OFFSET - read_u16 p LOWER_OFFSET)"

definition page_insert :: "bytes \<Rightarrow> bytes \<Rightarrow> page_error + (nat \<times> bytes)" where
  "page_insert p rec =
     (if length rec > MAX_RECORD_SIZE then Inl RecordTooLarge
      else if length rec + SLOT_SIZE > free_space p then Inl Full
      else let slot = record_count p;
               lower = unat (read_u16 p LOWER_OFFSET);
               upper = unat (read_u16 p UPPER_OFFSET);
               offset = upper - length rec in
        Inr (slot, refresh_checksum
          (write_u16 UPPER_OFFSET (of_nat offset)
          (write_u16 LOWER_OFFSET (of_nat (lower + SLOT_SIZE))
          (write_u16 COUNT_OFFSET (of_nat (slot + 1))
          (write_u16 (lower + 2) (of_nat (length rec))
          (write_u16 lower (of_nat offset)
          (put offset rec p))))))))"

definition page_get :: "bytes \<Rightarrow> nat \<Rightarrow> bytes option" where
  "page_get p slot =
     (if slot \<ge> record_count p then None
      else let (offset, len) = record_location p slot in
        if offset = 0 then None else Some (slice offset len p))"

definition append_optional :: "bytes option \<Rightarrow> bytes \<Rightarrow> page_error + bytes" where
  "append_optional rec p = (case rec of
       Some r \<Rightarrow> res_bind (page_insert p r) (\<lambda>(_, p). Inr p)
     | None \<Rightarrow>
         if free_space p < SLOT_SIZE then Inl Full
         else let lower = unat (read_u16 p LOWER_OFFSET) in
           Inr (refresh_checksum
             (write_u16 COUNT_OFFSET (of_nat (record_count p + 1))
             (write_u16 LOWER_OFFSET (of_nat (lower + SLOT_SIZE))
             (write_u16 (lower + 2) 0
             (write_u16 lower 0 p))))))"

definition page_rebuild :: "bytes \<Rightarrow> bytes option list \<Rightarrow> page_error + bytes" where
  "page_rebuild p recs = res_fold append_optional recs (set_lsn (page_lsn p) (page_new (page_id p)))"

definition page_replace :: "bytes \<Rightarrow> nat \<Rightarrow> bytes \<Rightarrow> page_error + bytes" where
  "page_replace p slot rec =
     (if page_get p slot = None then Inl InvalidLayout
      else if length rec > MAX_RECORD_SIZE then Inl RecordTooLarge
      else page_rebuild p
        (map (\<lambda>index. if index = slot then Some rec else page_get p index) [0..<record_count p]))"

text \<open>\<^verbatim>\<open>remove\<close>: whether a record was there, and the page; the outer None is its \<^verbatim>\<open>expect\<close> panicking.\<close>

definition page_remove :: "bytes \<Rightarrow> nat \<Rightarrow> (bool \<times> bytes) option" where
  "page_remove p slot =
     (if page_get p slot = None then Some (False, p)
      else case page_rebuild p
          (map (\<lambda>index. if index = slot then None else page_get p index) [0..<record_count p]) of
        Inl e \<Rightarrow> None
      | Inr p' \<Rightarrow> Some (True, p'))"

section \<open>Slices of updated byte lists\<close>

lemma length_put: "offset + length xs \<le> length bs \<Longrightarrow> length (put offset xs bs) = length bs"
  by (simp add: put_def)

lemma slice_put_same [simp]: "offset \<le> length bs \<Longrightarrow> n = length xs \<Longrightarrow> slice offset n (put offset xs bs) = xs"
  by (simp add: slice_def put_def)

lemma slice_put_before: "a + n \<le> b \<Longrightarrow> b \<le> length bs \<Longrightarrow> slice a n (put b xs bs) = slice a n bs"
proof -
  assume b: "a + n \<le> b" "b \<le> length bs"
  then have "take n (drop a (take b bs)) = take n (drop a bs)" by (simp add: drop_take min_def)
  with b show ?thesis by (simp add: slice_def put_def)
qed

lemma slice_put_after:
  "b + length xs \<le> a \<Longrightarrow> b \<le> length bs \<Longrightarrow> slice a n (put b xs bs) = slice a n bs"
  by (simp add: slice_def put_def drop_append)

lemma slice_put:
  "a + n \<le> b \<or> b + length xs \<le> a \<Longrightarrow> b \<le> length bs \<Longrightarrow> slice a n (put b xs bs) = slice a n bs"
  using slice_put_before [of a n b bs xs] slice_put_after [of b xs a bs n] by blast

lemma read_u16_put:
  "a + 2 \<le> b \<or> b + length xs \<le> a \<Longrightarrow> b \<le> length bs \<Longrightarrow> read_u16 (put b xs bs) a = read_u16 bs a"
  by (simp add: read_u16_def slice_put)

lemma read_u16_same [simp]: "a \<le> length bs \<Longrightarrow> read_u16 (put a (le16 v) bs) a = v"
  by (simp add: read_u16_def)

lemma take_put: "n \<le> b \<Longrightarrow> b \<le> length bs \<Longrightarrow> take n (put b xs bs) = take n bs"
  by (simp add: put_def min_def)

lemma drop_put: "b + length xs \<le> n \<Longrightarrow> b \<le> length bs \<Longrightarrow> drop n (put b xs bs) = drop n bs"
  by (simp add: put_def drop_append)

section \<open>Valid pages\<close>

text \<open>What validation establishes, in terms of slices.\<close>

definition page_head :: "bytes \<Rightarrow> bool" where
  "page_head p = (length p = PAGE_SIZE \<and> slice 0 4 p = ascii ''EVPG'' \<and> read_u16 p 4 = FORMAT_VERSION \<and>
     unat (read_u16 p 6) = PAGE_SIZE \<and> read_u16 p 22 = 0 \<and> slice 36 4 p = [0, 0, 0, 0])"

definition page_sealed :: "bytes \<Rightarrow> bool" where
  "page_sealed p = (from_le32 (slice 32 4 p) = computed_checksum p)"

definition page_lower :: "bytes \<Rightarrow> nat" where "page_lower p = unat (read_u16 p LOWER_OFFSET)"
definition page_upper :: "bytes \<Rightarrow> nat" where "page_upper p = unat (read_u16 p UPPER_OFFSET)"

definition page_valid :: "bytes \<Rightarrow> bool" where
  "page_valid p = (page_from_bytes p = Inr p)"

definition page_records :: "bytes \<Rightarrow> bytes option list" where
  "page_records p = map (page_get p) [0..<record_count p]"

lemma page_from_bytes_Inr:
  "page_from_bytes p = Inr q \<longleftrightarrow> q = p \<and> page_head p \<and>
     page_lower p = HEADER_SIZE + record_count p * SLOT_SIZE \<and> page_lower p \<le> page_upper p \<and>
     page_upper p \<le> PAGE_SIZE \<and>
     res_fold (check_slot p (page_upper p)) [0..<record_count p] PAGE_SIZE = Inr (page_upper p) \<and>
     page_sealed p"
  by (auto simp: page_from_bytes_def page_head_def page_sealed_def page_lower_def page_upper_def
      Let_def res_simps split: if_splits)

lemma page_valid_iff:
  "page_valid p \<longleftrightarrow> page_head p \<and>
     page_lower p = HEADER_SIZE + record_count p * SLOT_SIZE \<and> page_lower p \<le> page_upper p \<and>
     page_upper p \<le> PAGE_SIZE \<and>
     res_fold (check_slot p (page_upper p)) [0..<record_count p] PAGE_SIZE = Inr (page_upper p) \<and>
     page_sealed p"
  by (simp add: page_valid_def page_from_bytes_Inr)

lemma page_from_bytes_same: "page_from_bytes p = Inr q \<longleftrightarrow> q = p \<and> page_valid p"
  by (auto simp: page_valid_def page_from_bytes_Inr)

lemma length_valid: "page_valid p \<Longrightarrow> length p = PAGE_SIZE"
  by (simp add: page_valid_iff page_head_def)

text \<open>Refreshing the checksum seals a page and touches nothing else.\<close>

lemma length_refresh [simp]: "36 \<le> length p \<Longrightarrow> length (refresh_checksum p) = length p"
  by (simp add: refresh_checksum_def length_put)

lemma computed_refresh: "36 \<le> length p \<Longrightarrow> computed_checksum (refresh_checksum p) = computed_checksum p"
  by (simp add: computed_checksum_def refresh_checksum_def take_put drop_put)

lemma sealed_refresh: "36 \<le> length p \<Longrightarrow> page_sealed (refresh_checksum p)"
  by (simp add: page_sealed_def computed_refresh) (simp add: refresh_checksum_def)

lemma slice_refresh:
  "a + n \<le> 32 \<or> 36 \<le> a \<Longrightarrow> 32 \<le> length p \<Longrightarrow> slice a n (refresh_checksum p) = slice a n p"
  by (simp add: refresh_checksum_def slice_put)

lemma read_u16_refresh:
  "a + 2 \<le> 32 \<or> 36 \<le> a \<Longrightarrow> 32 \<le> length p \<Longrightarrow> read_u16 (refresh_checksum p) a = read_u16 p a"
  by (simp add: read_u16_def slice_refresh)

lemma slice_write:
  "a + n \<le> b \<or> b + 2 \<le> a \<Longrightarrow> b \<le> length bs \<Longrightarrow> slice a n (write_u16 b v bs) = slice a n bs"
  by (simp add: write_u16_def slice_put)

lemma read_u16_write:
  "a + 2 \<le> b \<or> b + 2 \<le> a \<Longrightarrow> b \<le> length bs \<Longrightarrow> read_u16 (write_u16 b v bs) a = read_u16 bs a"
  by (simp add: read_u16_def slice_write)

lemma read_u16_write_same [simp]: "a \<le> length bs \<Longrightarrow> read_u16 (write_u16 a v bs) a = v"
  by (simp add: write_u16_def)

lemma length_write [simp]: "a + 2 \<le> length bs \<Longrightarrow> length (write_u16 a v bs) = length bs"
  by (simp add: write_u16_def length_put)

lemmas page_access = length_put slice_put read_u16_put slice_write read_u16_write slice_refresh
  read_u16_refresh

text \<open>Every live slot of a valid page lies in the record area, and its length is what validation sums.\<close>

definition slot_len :: "bytes option \<Rightarrow> nat" where
  "slot_len r = (case r of None \<Rightarrow> 0 | Some bs \<Rightarrow> length bs)"

definition page_used :: "bytes option list \<Rightarrow> nat" where
  "page_used rs = SLOT_SIZE * length rs + sum_list (map slot_len rs)"

definition slot_fits :: "bytes \<Rightarrow> nat \<Rightarrow> nat \<Rightarrow> bool" where
  "slot_fits p upper slot = (let (offset, len) = record_location p slot in
     (offset = 0 \<and> len = 0) \<or> (upper \<le> offset \<and> offset + len \<le> PAGE_SIZE))"

lemma check_slots_sound:
  assumes "res_fold (check_slot p u) ss e = Inr e'" "e \<le> PAGE_SIZE" "0 < u"
  shows "(\<forall>s \<in> set ss. slot_fits p u s) \<and>
    e' + sum_list (map (\<lambda>s. snd (record_location p s)) ss) = e"
  using assms
proof (induction ss arbitrary: e)
  case (Cons s ss)
  obtain o1 l1 where loc: "record_location p s = (o1, l1)" by fastforce
  obtain e1 where 1: "check_slot p u s e = Inr e1" and 2: "res_fold (check_slot p u) ss e1 = Inr e'"
    using Cons.prems(1) by (auto simp: res_simps)
  have "e1 \<le> PAGE_SIZE \<and> slot_fits p u s \<and> e1 + l1 = e"
    using 1 Cons.prems(2) by (auto simp: check_slot_def slot_fits_def loc split: if_splits)
  then show ?case using Cons.IH [OF 2] Cons.prems(3) by (auto simp: loc)
qed simp

lemma check_slots_cong:
  assumes "res_fold (check_slot p u) ss e = Inr e'" "u' \<le> u"
    "\<And>s. s \<in> set ss \<Longrightarrow> record_location p' s = record_location p s"
  shows "res_fold (check_slot p' u') ss e = Inr e'"
  using assms
proof (induction ss arbitrary: e)
  case (Cons s ss)
  obtain e1 where 1: "check_slot p u s e = Inr e1" and 2: "res_fold (check_slot p u) ss e1 = Inr e'"
    using Cons.prems(1) by (auto simp: res_simps)
  have "check_slot p' u' s e = Inr e1"
    using 1 Cons.prems(2,3) by (auto simp: check_slot_def split: if_splits prod.splits)
  then show ?case using Cons.IH [OF 2] Cons.prems(2,3) by simp
qed simp

lemma slot_len_get:
  assumes "page_valid p" "s < record_count p"
  shows "slot_len (page_get p s) = snd (record_location p s)"
proof -
  have "slot_fits p (page_upper p) s" "0 < page_upper p"
    using check_slots_sound [of p "page_upper p" "[0..<record_count p]" PAGE_SIZE "page_upper p"] assms
    by (auto simp: page_valid_iff page_consts)
  then show ?thesis using assms
    by (auto simp: slot_len_def page_get_def slot_fits_def slice_def length_valid split: prod.splits)
qed

lemma free_space_valid:
  assumes "page_valid p"
  shows "free_space p + page_used (page_records p) = PAGE_SIZE - HEADER_SIZE"
proof -
  have "page_lower p \<le> page_upper p" using assms by (simp add: page_valid_iff)
  then have "free_space p = page_upper p - page_lower p"
    by (simp add: free_space_def page_lower_def page_upper_def unat_sub word_le_nat_alt)
  moreover have "sum_list (map slot_len (page_records p)) =
      sum_list (map (\<lambda>s. snd (record_location p s)) [0..<record_count p])"
    using assms unfolding page_records_def map_map
    by (intro arg_cong [where f = sum_list] map_cong) (auto simp: slot_len_get)
  moreover have "page_upper p + sum_list (map (\<lambda>s. snd (record_location p s)) [0..<record_count p]) = PAGE_SIZE"
    using check_slots_sound [of p "page_upper p" "[0..<record_count p]" PAGE_SIZE "page_upper p"] assms
    by (auto simp: page_valid_iff page_consts)
  moreover have "SLOT_SIZE * length (page_records p) = page_lower p - HEADER_SIZE" "HEADER_SIZE \<le> page_lower p"
    using assms by (simp_all add: page_records_def page_valid_iff)
  moreover have "page_lower p \<le> page_upper p" "page_upper p \<le> PAGE_SIZE" using assms by (simp_all add: page_valid_iff)
  ultimately show ?thesis by (simp only: page_used_def)
qed

section \<open>The operations on the abstraction\<close>

lemma put_base: "length (put 0 (ascii ''EVPG'') (replicate 8192 0)) = 8192"
  by (simp add: length_put)

lemma slice_magic: "slice 0 4 (put 0 (ascii ''EVPG'') bs) = ascii ''EVPG''"
  by simp

lemma slice_replicate [simp]: "a + n \<le> m \<Longrightarrow> slice a n (replicate m v) = replicate n v"
  by (simp add: slice_def min_def)

lemma bytes_nat_zeros [simp]: "bytes_nat (replicate n 0) = 0"
  by (induction n) simp_all

lemma read_u16_zeros: "slice a 2 p = replicate 2 0 \<Longrightarrow> read_u16 p a = 0"
  by (simp add: read_u16_def from_le16_def)

lemma four_zeros: "replicate 4 (0 :: u8) = [0, 0, 0, 0]"
  by (simp add: numeral_eq_Suc)

lemma page_new_valid:
  "page_valid (page_new pid) \<and> page_records (page_new pid) = [] \<and> page_id (page_new pid) = pid \<and>
   page_lsn (page_new pid) = 0"
proof -
  let ?b = "put 0 (ascii ''EVPG'') (replicate 8192 0)"
  have z: "slice a n ?b = replicate n 0" if "4 \<le> a" "a + n \<le> 8192" for a n
    using that by (simp add: slice_put)
  let ?p = "page_new pid"
  note new = page_new_def page_consts
  have len: "length ?p = 8192" by (simp add: new length_put)
  have zp: "slice 22 2 ?p = replicate 2 0" "slice 36 4 ?p = replicate 4 0"
    "slice 16 2 ?p = replicate 2 0" "slice 24 8 ?p = replicate 8 0"
    by (simp_all add: new page_access length_put z)
  have "read_u16 ?p 22 = 0" by (rule read_u16_zeros) (rule zp)
  moreover have "slice 36 4 ?p = [0, 0, 0, 0]" using zp(2) by (simp add: four_zeros)
  moreover have "slice 0 4 ?p = ascii ''EVPG''" by (simp add: new page_access length_put)
  moreover have "read_u16 ?p 4 = FORMAT_VERSION" "unat (read_u16 ?p 6) = 8192"
    by (simp_all add: new page_access length_put)
  ultimately have "page_head ?p" by (simp add: page_head_def len page_consts)
  moreover have "record_count ?p = 0"
    unfolding record_count_def page_consts by (subst read_u16_zeros) (simp_all add: zp)
  moreover have "page_lower ?p = 40" "page_upper ?p = 8192"
    by (simp_all add: page_lower_def page_upper_def new page_access length_put)
  moreover have "page_sealed ?p" by (simp add: new sealed_refresh length_put)
  moreover have "page_id ?p = pid" by (simp add: page_id_def new page_access length_put)
  moreover have "page_lsn ?p = 0"
    using zp(4) by (simp add: page_lsn_def from_le64_def)
  ultimately show ?thesis
    by (simp add: page_valid_iff page_records_def page_consts)
qed

text \<open>
  A page that differs from a valid one only in its sequence number, its counters, its checksum
  and its free space.
\<close>

definition page_keeps :: "bytes \<Rightarrow> bytes \<Rightarrow> bool" where
  "page_keeps p p' = (length p' = length p \<and> page_sealed p' \<and>
     (\<forall>a n. a + n \<le> 16 \<longrightarrow> slice a n p' = slice a n p) \<and>
     slice 22 2 p' = slice 22 2 p \<and> slice 36 4 p' = slice 36 4 p \<and>
     (\<forall>a n. 40 \<le> a \<and> a + n \<le> page_lower p \<longrightarrow> slice a n p' = slice a n p) \<and>
     (\<forall>a n. page_upper p \<le> a \<longrightarrow> slice a n p' = slice a n p))"

lemma page_keeps_head:
  assumes "page_head p" "page_keeps p p'"
  shows "page_head p' \<and> page_id p' = page_id p"
  using assms by (simp add: page_head_def page_keeps_def read_u16_def page_id_def page_consts)

lemma page_keeps_location:
  assumes "page_valid p" "page_keeps p p'" "s < record_count p"
  shows "record_location p' s = record_location p s"
proof -
  have "40 + s * 4 + 4 \<le> page_lower p"
    using assms(1,3) by (simp add: page_valid_iff page_consts)
  then show ?thesis using assms(2)
    by (simp add: page_keeps_def record_location_def read_u16_def page_consts Let_def)
qed

lemma page_keeps_get:
  assumes "page_valid p" "page_keeps p p'" "s < record_count p" "s < record_count p'"
  shows "page_get p' s = page_get p s"
proof -
  have "slot_fits p (page_upper p) s" "0 < page_upper p"
    using check_slots_sound [of p "page_upper p" "[0..<record_count p]" PAGE_SIZE "page_upper p"]
      assms(1,3) by (auto simp: page_valid_iff page_consts)
  then show ?thesis using assms(2-4) page_keeps_location [OF assms(1-3)]
    by (auto simp: page_get_def slot_fits_def page_keeps_def split: prod.splits)
qed

lemma page_keeps_same:
  assumes "page_valid p" "page_keeps p p'" "record_count p' = record_count p"
    "page_lower p' = page_lower p" "page_upper p' = page_upper p"
  shows "page_valid p' \<and> page_records p' = page_records p"
proof -
  have "res_fold (check_slot p' (page_upper p')) [0..<record_count p] PAGE_SIZE = Inr (page_upper p')"
    unfolding assms(5)
    by (rule check_slots_cong [of p "page_upper p"])
       (use assms(1) page_keeps_location [OF assms(1,2)] in \<open>simp_all add: page_valid_iff\<close>)
  moreover have "page_sealed p'" using assms(2) by (simp add: page_keeps_def)
  ultimately have "page_valid p'"
    using page_keeps_head [OF _ assms(2)] assms by (simp add: page_valid_iff)
  then show ?thesis using page_keeps_get [OF assms(1,2)] assms(3) by (simp add: page_records_def)
qed

lemma page_keeps_extend:
  assumes "page_valid p" "page_keeps p p'" "record_count p' = record_count p + 1"
    "page_lower p' = page_lower p + SLOT_SIZE" "page_lower p' \<le> page_upper p'"
    "record_location p' (record_count p) = (offset, len)"
    "(offset = 0 \<and> len = 0 \<and> page_upper p' = page_upper p) \<or>
     (offset = page_upper p' \<and> page_upper p' + len = page_upper p)"
  shows "page_valid p' \<and> page_records p' =
    page_records p @ [if offset = 0 then None else Some (slice offset len p')]"
proof -
  have u: "page_upper p' \<le> page_upper p" "page_upper p \<le> PAGE_SIZE"
    using assms(1,7) by (auto simp: page_valid_iff)
  have "res_fold (check_slot p' (page_upper p')) [0..<record_count p] PAGE_SIZE = Inr (page_upper p)"
    by (rule check_slots_cong [of p "page_upper p", OF _ u(1)])
       (use assms(1) page_keeps_location [OF assms(1,2)] in \<open>simp_all add: page_valid_iff\<close>)
  moreover have "check_slot p' (page_upper p') (record_count p) (page_upper p) = Inr (page_upper p')"
    using assms(6,7) by (auto simp: check_slot_def)
  ultimately have "res_fold (check_slot p' (page_upper p')) [0..<record_count p'] PAGE_SIZE = Inr (page_upper p')"
    by (simp add: assms(3))
  moreover have "page_sealed p'" using assms(2) by (simp add: page_keeps_def)
  moreover have "page_head p'" using page_keeps_head [OF _ assms(2)] assms(1) by (simp add: page_valid_iff)
  moreover have "page_lower p' = HEADER_SIZE + record_count p' * SLOT_SIZE"
    using assms(1,3,4) by (simp add: page_valid_iff)
  ultimately have "page_valid p'" using u assms(5) by (simp add: page_valid_iff)
  moreover have "page_get p' (record_count p) = (if offset = 0 then None else Some (slice offset len p'))"
    using assms(3,6) by (simp add: page_get_def)
  moreover have "map (page_get p') [0..<record_count p] = page_records p"
    using page_keeps_get [OF assms(1,2)] assms(3) by (simp add: page_records_def)
  ultimately show ?thesis by (simp add: page_records_def assms(3))
qed

lemma page_bounds:
  assumes "page_valid p"
  shows "length p = 8192" "40 \<le> page_lower p" "page_lower p \<le> page_upper p" "page_upper p \<le> 8192"
    "page_lower p = 40 + record_count p * 4" "record_count p \<le> 2038"
  using assms by (simp_all add: page_valid_iff page_head_def page_consts)

lemma set_lsn_valid:
  assumes "page_valid p"
  shows "page_valid (set_lsn l p) \<and> page_records (set_lsn l p) = page_records p \<and>
    page_id (set_lsn l p) = page_id p \<and> page_lsn (set_lsn l p) = l"
proof -
  note b = page_bounds [OF assms]
  have keeps: "page_keeps p (set_lsn l p)"
    using b by (auto simp: page_keeps_def set_lsn_def sealed_refresh page_access length_put)
  moreover have "record_count (set_lsn l p) = record_count p" "page_lower (set_lsn l p) = page_lower p"
    "page_upper (set_lsn l p) = page_upper p" "page_lsn (set_lsn l p) = l"
    using b(1) by (simp_all add: record_count_def page_lower_def page_upper_def page_lsn_def
        set_lsn_def page_consts page_access length_put)
  ultimately show ?thesis
    using page_keeps_same [OF assms keeps] page_keeps_head [OF _ keeps] assms by (simp add: page_valid_iff)
qed

text \<open>Inserting puts the bytes below the record area and points the next directory entry at them.\<close>

lemma unat_u16: "n < 65536 \<Longrightarrow> unat (of_nat n :: u16) = n"
  by (simp add: unat_of_nat)

lemma counters_written:
  assumes "36 \<le> length q" "p' = refresh_checksum (write_u16 20 c (write_u16 18 b (write_u16 16 a q)))"
  shows "read_u16 p' 16 = a" "read_u16 p' 18 = b" "read_u16 p' 20 = c"
  using assms(1) by (simp_all add: assms(2) page_access)

lemma page_counters:
  "read_u16 p 16 = of_nat n \<Longrightarrow> n < 65536 \<Longrightarrow> record_count p = n"
  "read_u16 p 18 = of_nat n \<Longrightarrow> n < 65536 \<Longrightarrow> page_lower p = n"
  "read_u16 p 20 = of_nat n \<Longrightarrow> n < 65536 \<Longrightarrow> page_upper p = n"
  by (simp_all add: record_count_def page_lower_def page_upper_def page_consts unat_u16)

lemma page_insert_Inr:
  assumes "page_valid p" "page_insert p rec = Inr (slot, p')"
  shows "slot = length (page_records p) \<and> page_valid p' \<and>
    page_records p' = page_records p @ [Some rec] \<and> page_id p' = page_id p \<and> page_lsn p' = page_lsn p"
proof -
  note b = page_bounds [OF assms(1)]
  let ?l = "page_lower p" and ?u = "page_upper p" and ?n = "record_count p"
  let ?o = "?u - length rec"
  have "free_space p = ?u - ?l"
    using b by (simp add: free_space_def page_lower_def page_upper_def unat_sub word_le_nat_alt)
  then have fit: "?l + 4 + length rec \<le> ?u" and slot: "slot = ?n"
    and p': "p' = refresh_checksum (write_u16 20 (of_nat ?o) (write_u16 18 (of_nat (?l + 4))
      (write_u16 16 (of_nat (?n + 1)) (write_u16 (?l + 2) (of_nat (length rec))
      (write_u16 ?l (of_nat ?o) (put ?o rec p))))))"
    using assms(2) by (auto simp: page_insert_def page_consts Let_def page_lower_def page_upper_def split: if_splits)
  have l1: "length (put ?o rec p) = 8192" using b fit by (simp add: length_put)
  have o: "40 \<le> ?o" "?o + length rec = ?u" "?l + 4 \<le> ?o" using b fit by linarith+
  have len: "length p' = 8192" using b fit l1 by (simp add: p')
  have sl: "slice a n p' = slice a n (put ?o rec p)"
    if "a + n \<le> 16 \<or> 22 \<le> a \<and> a + n \<le> 32 \<or> 36 \<le> a \<and> a + n \<le> ?l \<or> ?l + 4 \<le> a" for a n
    using that b fit l1 by (auto simp: p' page_access)
  have sp: "slice a n p' = slice a n p"
    if "a + n \<le> 16 \<or> 22 \<le> a \<and> a + n \<le> 32 \<or> 36 \<le> a \<and> a + n \<le> ?l \<or> ?u \<le> a" for a n
    using that b fit o by (subst sl) (auto simp: slice_put)
  have keeps: "page_keeps p p'"
  proof -
    have "page_sealed p'" unfolding p' by (rule sealed_refresh) (use b fit l1 in simp)
    moreover have "slice 22 2 p' = slice 22 2 p" "slice 36 4 p' = slice 36 4 p"
      using b by (simp_all add: sp)
    ultimately show ?thesis using b len by (simp add: page_keeps_def sp)
  qed
  have q: "36 \<le> length (write_u16 (?l + 2) (of_nat (length rec)) (write_u16 ?l (of_nat ?o) (put ?o rec p)))"
    using b fit l1 by simp
  have cnt: "record_count p' = ?n + 1" "page_lower p' = ?l + 4" "page_upper p' = ?o"
    by (rule page_counters(1) [OF counters_written(1) [OF q p']], use b fit in linarith)
       (rule page_counters(2) [OF counters_written(2) [OF q p']], use b fit in linarith,
        rule page_counters(3) [OF counters_written(3) [OF q p']], use b fit in linarith)
  have r: "read_u16 p' ?l = of_nat ?o" "read_u16 p' (?l + 2) = of_nat (length rec)"
    using b fit l1 by (simp_all add: p' page_access)
  have "unat (read_u16 p' ?l) = ?o" "unat (read_u16 p' (?l + 2)) = length rec"
    unfolding r by (rule unat_u16, use b fit in linarith)+
  then have loc: "record_location p' ?n = (?o, length rec)"
    by (simp add: record_location_def page_consts b(5))
  have "slice ?o (length rec) p' = rec"
    using b fit o by (simp add: sl)
  then have "page_valid p' \<and> page_records p' = page_records p @ [Some rec]"
    using page_keeps_extend [OF assms(1) keeps, of ?o "length rec"] cnt o fit loc
    by (simp add: page_consts)
  moreover have "page_id p' = page_id p \<and> page_lsn p' = page_lsn p"
    by (simp add: page_id_def page_lsn_def sp)
  ultimately show ?thesis by (simp add: slot page_records_def)
qed

lemma append_none_Inr:
  assumes "page_valid p" "append_optional None p = Inr p'"
  shows "page_valid p' \<and> page_records p' = page_records p @ [None] \<and> page_id p' = page_id p \<and>
    page_lsn p' = page_lsn p"
proof -
  note b = page_bounds [OF assms(1)]
  let ?l = "page_lower p" and ?u = "page_upper p" and ?n = "record_count p"
  have "free_space p = ?u - ?l"
    using b by (simp add: free_space_def page_lower_def page_upper_def unat_sub word_le_nat_alt)
  then have fit: "?l + 4 \<le> ?u"
    and p': "p' = refresh_checksum (write_u16 16 (of_nat (?n + 1)) (write_u16 18 (of_nat (?l + 4))
      (write_u16 (?l + 2) 0 (write_u16 ?l 0 p))))"
    using assms(2) by (auto simp: append_optional_def page_consts Let_def page_lower_def page_upper_def split: if_splits)
  have sp: "slice a n p' = slice a n p"
    if "a + n \<le> 16 \<or> 22 \<le> a \<and> a + n \<le> 32 \<or> 36 \<le> a \<and> a + n \<le> ?l \<or> ?l + 4 \<le> a \<or> 20 \<le> a \<and> a + n \<le> 32" for a n
    using that b(1-4) fit by (auto simp: p' page_access)
  have keeps: "page_keeps p p'"
  proof -
    have "page_sealed p'" unfolding p' by (rule sealed_refresh) (use b fit in simp)
    moreover have "slice 22 2 p' = slice 22 2 p" "slice 36 4 p' = slice 36 4 p"
      using b by (simp_all add: sp)
    moreover have "length p' = length p" using b(1-4) fit by (simp add: p')
    ultimately show ?thesis using fit by (simp add: page_keeps_def sp)
  qed
  have c: "read_u16 p' 16 = of_nat (?n + 1)" "read_u16 p' 18 = of_nat (?l + 4)"
    "read_u16 p' ?l = 0" "read_u16 p' (?l + 2) = 0"
    using b(1-4) fit by (simp_all add: p' page_access)
  have u: "page_upper p' = ?u" by (simp add: page_upper_def page_consts read_u16_def sp)
  have cnt: "record_count p' = ?n + 1" "page_lower p' = ?l + 4"
    by (rule page_counters(1) [OF c(1)], use b in linarith)
       (rule page_counters(2) [OF c(2)], use b fit in linarith)
  have "record_location p' ?n = (0, 0)"
    using c(3,4) by (simp add: record_location_def page_consts b(5))
  then have "page_valid p' \<and> page_records p' = page_records p @ [None]"
    using page_keeps_extend [OF assms(1) keeps, of 0 0] cnt fit u by (simp add: page_consts)
  moreover have "page_id p' = page_id p \<and> page_lsn p' = page_lsn p"
    by (simp add: page_id_def page_lsn_def sp)
  ultimately show ?thesis by simp
qed

lemma page_insert_Inl:
  assumes "page_valid p"
  shows "page_insert p rec = Inl e \<longleftrightarrow>
    (e = RecordTooLarge \<and> length rec > MAX_RECORD_SIZE \<or>
     e = Full \<and> length rec \<le> MAX_RECORD_SIZE \<and>
       page_used (page_records p @ [Some rec]) > PAGE_SIZE - HEADER_SIZE)"
proof -
  have "length rec + SLOT_SIZE > free_space p \<longleftrightarrow>
      page_used (page_records p @ [Some rec]) > PAGE_SIZE - HEADER_SIZE"
    using free_space_valid [OF assms] by (simp add: page_used_def slot_len_def) linarith
  then show ?thesis by (auto simp: page_insert_def Let_def)
qed

lemma append_optional_valid:
  assumes "page_valid p" "append_optional r p = Inr p'"
  shows "page_valid p' \<and> page_records p' = page_records p @ [r] \<and> page_id p' = page_id p \<and>
    page_lsn p' = page_lsn p"
proof (cases r)
  case None
  then show ?thesis using append_none_Inr [OF assms(1)] assms(2) by simp
next
  case (Some rec)
  then obtain slot where "page_insert p rec = Inr (slot, p')"
    using assms(2) by (auto simp: append_optional_def res_simps)
  from page_insert_Inr [OF assms(1) this] show ?thesis by (simp add: Some)
qed

lemma append_optional_fits:
  assumes "page_valid p" "page_used (page_records p @ [r]) \<le> PAGE_SIZE - HEADER_SIZE"
  shows "\<exists>p'. append_optional r p = Inr p'"
proof (cases r)
  case None
  then show ?thesis using free_space_valid [OF assms(1)] assms(2)
    by (simp add: append_optional_def page_used_def slot_len_def Let_def)
next
  case (Some rec)
  have "length rec \<le> MAX_RECORD_SIZE"
    using assms(2) by (simp add: Some page_used_def slot_len_def page_consts)
  then have "\<not> (\<exists>e. page_insert p rec = Inl e)"
    using page_insert_Inl [OF assms(1), of rec] assms(2) by (auto simp: Some)
  then show ?thesis by (cases "page_insert p rec") (auto simp: append_optional_def Some)
qed

lemma page_rebuild_valid:
  assumes "page_rebuild p rs = Inr p'"
  shows "page_valid p' \<and> page_records p' = rs \<and> page_id p' = page_id p \<and> page_lsn p' = page_lsn p"
proof -
  have "page_valid p' \<and> page_records p' = page_records q @ rs \<and> page_id p' = page_id q \<and> page_lsn p' = page_lsn q"
    if "res_fold append_optional rs q = Inr p'" "page_valid q" for q
    using that
  proof (induction rs arbitrary: q)
    case (Cons r rs)
    then obtain q1 where q1: "append_optional r q = Inr q1" "res_fold append_optional rs q1 = Inr p'"
      by (auto simp: res_simps)
    from append_optional_valid [OF Cons.prems(2) q1(1)] Cons.IH [OF q1(2)] show ?case by simp
  qed simp
  from this [of "set_lsn (page_lsn p) (page_new (page_id p))"] assms show ?thesis
    using set_lsn_valid [of "page_new (page_id p)"] page_new_valid
    by (simp add: page_rebuild_def)
qed

lemma page_rebuild_fits:
  assumes "page_used rs \<le> PAGE_SIZE - HEADER_SIZE"
  shows "\<exists>p'. page_rebuild p rs = Inr p'"
proof -
  have "\<exists>p'. res_fold append_optional rs q = Inr p'"
    if "page_used (page_records q @ rs) \<le> PAGE_SIZE - HEADER_SIZE" "page_valid q" for q
    using that
  proof (induction rs arbitrary: q)
    case (Cons r rs)
    have "page_used (page_records q @ [r]) \<le> page_used (page_records q @ r # rs)"
      by (simp add: page_used_def SLOT_SIZE_def)
    then have "page_used (page_records q @ [r]) \<le> PAGE_SIZE - HEADER_SIZE"
      using Cons.prems(1) by linarith
    then obtain q1 where q1: "append_optional r q = Inr q1"
      using append_optional_fits [OF Cons.prems(2)] by blast
    then show ?case
      using append_optional_valid [OF Cons.prems(2) q1] Cons.IH [of q1] Cons.prems(1) by simp
  qed simp
  from this [of "set_lsn (page_lsn p) (page_new (page_id p))"] assms show ?thesis
    using set_lsn_valid [of "page_new (page_id p)"] page_new_valid
    by (simp add: page_rebuild_def)
qed

lemma page_used_valid: "page_valid p \<Longrightarrow> page_used (page_records p) \<le> PAGE_SIZE - HEADER_SIZE"
  using free_space_valid [of p] by linarith

lemma map_update_upt:
  "s < n \<Longrightarrow> map (\<lambda>i. if i = s then v else f i) [0..<n] = (map f [0..<n])[s := v]"
  by (auto intro: nth_equalityI)

lemma page_get_records: "page_get p s = (if s < length (page_records p) then page_records p ! s else None)"
  by (simp add: page_records_def page_get_def [of p s])

lemma page_remove_valid:
  assumes "page_valid p"
  shows "\<exists>p'. page_remove p s = Some (page_get p s \<noteq> None, p') \<and> page_valid p' \<and>
    page_records p' = (page_records p)[s := None] \<and> page_id p' = page_id p \<and> page_lsn p' = page_lsn p"
proof (cases "page_get p s")
  case None
  then have "(page_records p)[s := None] = page_records p"
    by (cases "s < length (page_records p)") (auto simp: page_get_records list_update_same_conv list_update_beyond)
  with None assms show ?thesis by (simp add: page_remove_def)
next
  case (Some r)
  then have s: "s < record_count p" by (auto simp: page_get_def split: if_splits)
  then have upd: "map (\<lambda>i. if i = s then None else page_get p i) [0..<record_count p] = (page_records p)[s := None]"
    by (simp add: map_update_upt page_records_def)
  have "sum_list (map slot_len ((page_records p)[s := None])) \<le> sum_list (map slot_len (page_records p))"
    using s by (simp add: map_update sum_list_update slot_len_def page_records_def)
  then have "page_used ((page_records p)[s := None]) \<le> PAGE_SIZE - HEADER_SIZE"
    using page_used_valid [OF assms] by (simp add: page_used_def)
  then obtain p' where "page_rebuild p ((page_records p)[s := None]) = Inr p'"
    using page_rebuild_fits by blast
  with page_rebuild_valid [OF this] Some upd show ?thesis by (simp add: page_remove_def)
qed

lemma page_replace_valid:
  assumes "page_valid p" "page_get p s \<noteq> None"
  shows "case page_replace p s rec of
      Inl e \<Rightarrow> page_used ((page_records p)[s := Some rec]) > PAGE_SIZE - HEADER_SIZE
    | Inr p' \<Rightarrow> page_valid p' \<and> page_records p' = (page_records p)[s := Some rec] \<and>
        page_id p' = page_id p \<and> page_lsn p' = page_lsn p"
proof -
  have s: "s < record_count p" using assms(2) by (auto simp: page_get_def split: if_splits)
  then have upd: "map (\<lambda>i. if i = s then Some rec else page_get p i) [0..<record_count p] = (page_records p)[s := Some rec]"
    by (simp add: map_update_upt page_records_def)
  show ?thesis
  proof (cases "length rec > MAX_RECORD_SIZE")
    case True
    have "Some rec \<in> set ((page_records p)[s := Some rec])"
      using s by (intro set_update_memI) (simp add: page_records_def)
    then have "slot_len (Some rec) \<in> set (map slot_len ((page_records p)[s := Some rec]))"
      by simp
    then have "length rec \<le> sum_list (map slot_len ((page_records p)[s := Some rec]))"
      by (intro member_le_sum_list) (simp_all add: slot_len_def)
    moreover have "1 \<le> length (page_records p)" using s by (simp add: page_records_def)
    ultimately have "8152 < 4 * length (page_records p) + sum_list (map slot_len ((page_records p)[s := Some rec]))"
      using True unfolding page_consts by linarith
    then show ?thesis using True assms(2) by (simp add: page_replace_def page_used_def page_consts)
  next
    case False
    then have r: "page_replace p s rec = page_rebuild p ((page_records p)[s := Some rec])"
      using assms(2) by (simp add: page_replace_def upd del: not_None_eq)
    show ?thesis
      using page_rebuild_valid [of p "(page_records p)[s := Some rec]"]
        page_rebuild_fits [of "(page_records p)[s := Some rec]" p]
      by (auto simp: r split: sum.split simp flip: not_le)
  qed
qed

section \<open>Altered pages\<close>

lemma checksum_update_zeros: "computed_checksum p = crc32c (take 32 p @ [0, 0, 0, 0] @ drop 36 p)"
  by (simp only: computed_checksum_def crc32c_def checksum_update_append)

lemma append_at_add:
  assumes "length xs = n"
  shows "(xs @ ys)[n + j := v] = xs @ ys[j := v]" "(xs @ ys) ! (n + j) = ys ! j"
  using assms by (auto simp: list_update_append)

text \<open>No single altered byte of a valid page is accepted.\<close>

lemma page_altered:
  assumes "page_valid p" "i < PAGE_SIZE" "p ! i \<noteq> v"
  shows "\<exists>e. page_from_bytes (p[i := v]) = Inl e"
proof -
  let ?q = "p[i := v]"
  let ?b = "take 32 p @ [0, 0, 0, 0] @ drop 36 p"
  have len: "length p = 8192" and seal: "from_le32 (slice 32 4 p) = crc32c ?b"
    using assms(1) by (simp_all add: page_valid_iff page_head_def page_sealed_def checksum_update_zeros page_consts)
  have i: "i < 8192" using assms(2) by (simp add: page_consts)
  have "from_le32 (slice 32 4 ?q) \<noteq> computed_checksum ?q"
  proof (cases "32 \<le> i \<and> i < 36")
    case True
    then have "slice 32 4 ?q = (slice 32 4 p)[i - 32 := v]" "slice 32 4 p ! (i - 32) = p ! i"
      using len by (auto simp: slice_def drop_update_swap take_update_swap)
    moreover from this(2) have "(slice 32 4 p)[i - 32 := v] \<noteq> slice 32 4 p"
      using True len assms(3) by (intro list_update_ne) (auto simp: slice_def)
    moreover have "slice 32 4 p = le32 (crc32c ?b)"
      using le32_from_le32 [of "slice 32 4 p"] seal len by (simp add: slice_def)
    ultimately have "slice 32 4 ?q \<noteq> le32 (crc32c ?b)" "length (slice 32 4 ?q) = 4"
      using len by (simp_all add: slice_def)
    from crc.altered_sum [OF this(2,1)] show ?thesis
      using True len by (simp add: checksum_update_zeros)
  next
    case False
    have q: "take 32 ?q @ [0, 0, 0, 0] @ drop 36 ?q = ?b[i := v] \<and> ?b ! i = p ! i"
    proof (cases "i < 32")
      case True
      then show ?thesis using len by (simp add: list_update_append nth_append take_update_swap drop_update_swap)
    next
      case False
      then have "36 \<le> i" using \<open>\<not> (32 \<le> i \<and> i < 36)\<close> by linarith
      then obtain j where j: "i = 36 + j" by (auto simp: le_iff_add)
      let ?y = "take 32 p @ [0, 0, 0, 0]"
      have y: "length ?y = 36" using len by simp
      have b: "?b = ?y @ drop 36 p" by simp
      have "?b[i := v] = ?y @ (drop 36 p)[j := v]" "?b ! i = drop 36 p ! j"
        unfolding b j by (rule append_at_add [OF y])+
      moreover have "take 32 ?q = take 32 p" "drop 36 ?q = (drop 36 p)[j := v]" "drop 36 p ! j = p ! i"
        using len i by (simp_all add: j drop_update_swap)
      ultimately show ?thesis by simp
    qed
    have "slice 32 4 ?q = slice 32 4 p"
      using False len by (auto simp: slice_def drop_update_swap take_update_swap list_update_beyond)
    moreover have "crc32c (?b[i := v]) \<noteq> crc32c ?b"
      using crc.altered_byte [of i ?b v "le32 (crc32c ?b)"] i len q assms(3) by simp
    ultimately show ?thesis using seal q by (simp add: checksum_update_zeros)
  qed
  then have "\<not> page_sealed ?q" by (simp add: page_sealed_def)
  then show ?thesis
    using page_from_bytes_Inr [of ?q] by (cases "page_from_bytes ?q") auto
qed

section \<open>Properties\<close>

text \<open>
  C23 (page_insert_refines): inserting into a valid page either appends the record as the next
  slot, keeping every other slot, the identifier and the sequence number, and leaves a page that
  validates; or fails, and only because the record is too large for any page or because the slots
  would not fit.
\<close>

theorem page_insert_refines:
  assumes "page_valid p"
  shows "case page_insert p rec of
      Inr (slot, p') \<Rightarrow> slot = length (page_records p) \<and> page_valid p' \<and>
        page_records p' = page_records p @ [Some rec] \<and> page_id p' = page_id p \<and> page_lsn p' = page_lsn p
    | Inl e \<Rightarrow> e = RecordTooLarge \<and> length rec > MAX_RECORD_SIZE \<or>
        e = Full \<and> page_used (page_records p @ [Some rec]) > PAGE_SIZE - HEADER_SIZE"
  using page_insert_Inr [OF assms, of rec] page_insert_Inl [OF assms, of rec] by (auto split: sum.split)

lemma page_insert_refines_witness:
  "\<exists>p'. page_insert (page_new 5) [1, 2] = Inr (0, p') \<and> page_records p' = [Some [1, 2]]"
proof -
  note n = page_new_valid [of 5]
  have "\<not> length [1, 2 :: u8] > MAX_RECORD_SIZE"
    "\<not> page_used (page_records (page_new 5) @ [Some [1, 2]]) > PAGE_SIZE - HEADER_SIZE"
    using n by (simp_all add: page_used_def slot_len_def page_consts)
  then show ?thesis
    using page_insert_refines [of "page_new 5" "[1, 2]"] n by (auto split: sum.splits)
qed

text \<open>
  C24 (page_rewrite_refines): removing a slot never fails, empties exactly that slot and compacts
  the page; replacing a live record changes exactly that slot or fails because the new contents
  would not fit. Slot numbers, identifier and sequence number stay, and the page validates.
\<close>

theorem page_rewrite_refines:
  assumes "page_valid p"
  shows "(\<exists>p'. page_remove p s = Some (page_get p s \<noteq> None, p') \<and> page_valid p' \<and>
      page_records p' = (page_records p)[s := None] \<and> page_id p' = page_id p \<and> page_lsn p' = page_lsn p) \<and>
    (case page_replace p s rec of
      Inl e \<Rightarrow> page_get p s = None \<or> page_used ((page_records p)[s := Some rec]) > PAGE_SIZE - HEADER_SIZE
    | Inr p' \<Rightarrow> page_valid p' \<and> page_records p' = (page_records p)[s := Some rec] \<and>
        page_id p' = page_id p \<and> page_lsn p' = page_lsn p)"
proof (cases "page_get p s")
  case None
  then show ?thesis using page_remove_valid [OF assms, of s] by (simp add: page_replace_def)
next
  case (Some r)
  then show ?thesis using page_remove_valid [OF assms, of s] page_replace_valid [OF assms, of s rec]
    by (auto split: sum.splits)
qed

lemma page_rewrite_refines_witness: "page_remove (page_new 5) 3 = Some (False, page_new 5)"
proof -
  have "page_get (page_new 5) 3 = None"
    using page_new_valid [of 5] by (simp add: page_get_records)
  then show ?thesis
    using page_rewrite_refines [of "page_new 5" 3 "[]"] page_new_valid [of 5]
    by (simp add: page_remove_def)
qed

text \<open>
  Altering any single byte of a valid page, header, directory, free
  space, record or checksum, makes validation reject it.
\<close>

theorem page_corruption_detected:
  assumes "page_valid p" "i < PAGE_SIZE" "p ! i \<noteq> v"
  shows "\<exists>e. page_from_bytes (p[i := v]) = Inl e"
  by (rule page_altered [OF assms])

lemma page_corruption_detected_witness:
  "\<exists>e. page_from_bytes ((page_new 5)[100 := page_new 5 ! 100 + 1]) = Inl e"
  by (rule page_corruption_detected) (simp_all add: page_new_valid page_consts)

end
