(* ===== verification/Pager.thy ===== *)
theory Pager
  imports Frame Page
begin

text \<open>
  Models \<^verbatim>\<open>storage/pager.rs\<close>: the identity and path of checkpoint files, the bounded cache of
  open files, the clock-replacement page cache, and reading a decoded page through them. The
  laws: two files never share a path, the caches stay within their limits and consistent, the
  clock always finds a victim, and reading through the cache returns what decoding the file does.
\<close>

section \<open>File identities\<close>

record file_id =
  fid_table :: u64
  fid_generation :: u64
  fid_kind :: u8
  fid_segment :: u64

definition file_id_new :: "u64 \<Rightarrow> u64 \<Rightarrow> u8 \<Rightarrow> u64 \<Rightarrow> file_id" where
  "file_id_new t g k s = \<lparr>fid_table = t, fid_generation = g, fid_kind = k, fid_segment = s\<rparr>"

text \<open>\<^verbatim>\<open>{:020}\<close> formatting, and paths as their components.\<close>

definition pad20 :: "nat \<Rightarrow> string" where
  "pad20 n = replicate (20 - length (show_nat n)) CHR ''0'' @ show_nat n"

definition table_path :: "u64 \<Rightarrow> u64 \<Rightarrow> string list" where
  "table_path t g = [''tables'', pad20 (unat t), pad20 (unat g)]"

definition file_path :: "file_id \<Rightarrow> string list option" where
  "file_path f =
     (let d = table_path (fid_table f) (fid_generation f) in
      if fid_kind f = 0 then Some (d @ [''current.pages''])
      else if fid_kind f = 1 then Some (d @ [''bases.pages''])
      else if fid_kind f = 2 then Some (d @ [''snapshots.pages''])
      else if fid_kind f = 3 then Some (d @ [''indexes'', pad20 (unat (fid_segment f)) @ ''.primary.index''])
      else if fid_kind f = 4 then Some (d @ [''indexes'', pad20 (unat (fid_segment f)) @ ''.history.index''])
      else if fid_kind f = 5 then Some (d @ [''indexes'', pad20 (unat (fid_segment f)) @ ''.snapshots.index''])
      else if fid_kind f = 6 then Some (d @ [''history'', pad20 (unat (fid_segment f)) @ ''.events''])
      else None)"

section \<open>The cache of open files\<close>

record ('f, 'h) file_cache =
  fc_open :: "('f \<times> 'h) list"
  fc_order :: "'f list"
  fc_limit :: nat

text \<open>\<^verbatim>\<open>while self.order.len() >= self.limit\<close>: evict from the front.\<close>

fun evict_files :: "nat \<Rightarrow> 'f list \<Rightarrow> ('f \<times> 'h) list \<Rightarrow> 'f list \<times> ('f \<times> 'h) list" where
  "evict_files limit [] opened = ([], opened)"
| "evict_files limit (f # fs) opened =
     (if length (f # fs) \<ge> limit then evict_files limit fs (bt_remove f opened) else (f # fs, opened))"

definition fc_insert :: "'f \<Rightarrow> 'h \<Rightarrow> ('f, 'h) file_cache \<Rightarrow> ('f, 'h) file_cache" where
  "fc_insert f h c = (let (order, opened) = evict_files (fc_limit c) (fc_order c) (fc_open c) in
     c\<lparr>fc_open := (f, h) # bt_remove f opened, fc_order := order @ [f]\<rparr>)"

definition fc_forget :: "('f \<Rightarrow> bool) \<Rightarrow> ('f, 'h) file_cache \<Rightarrow> ('f, 'h) file_cache" where
  "fc_forget matches c = (let opened = filter (\<lambda>e. \<not> matches (fst e)) (fc_open c) in
     c\<lparr>fc_open := opened, fc_order := filter (\<lambda>f. map_of opened f \<noteq> None) (fc_order c)\<rparr>)"

section \<open>The clock cache of pages\<close>

record ('k, 'v) slot =
  sl_key :: 'k
  sl_value :: 'v
  sl_referenced :: bool

record ('k, 'v) page_cache =
  pc_index :: "('k \<times> nat) list"
  pc_slots :: "('k, 'v) slot option list"
  pc_hand :: nat
  pc_limit :: nat
  pc_hits :: nat
  pc_misses :: nat

definition pc_get :: "'k \<Rightarrow> ('k, 'v) page_cache \<Rightarrow> 'v option \<times> ('k, 'v) page_cache" where
  "pc_get k c = (case map_of (pc_index c) k of
       None \<Rightarrow> (None, c\<lparr>pc_misses := pc_misses c + 1\<rparr>)
     | Some i \<Rightarrow> (case pc_slots c ! i of
           None \<Rightarrow> (None, c)
         | Some s \<Rightarrow> (Some (sl_value s),
             c\<lparr>pc_slots := (pc_slots c)[i := Some (s\<lparr>sl_referenced := True\<rparr>)], pc_hits := pc_hits c + 1\<rparr>)))"

text \<open>The sweep of \<^verbatim>\<open>evict\<close>: at most \<open>n\<close> steps, clearing reference bits along the way.\<close>

fun pc_sweep :: "nat \<Rightarrow> ('k, 'v) page_cache \<Rightarrow> nat \<times> ('k, 'v) page_cache" where
  "pc_sweep 0 c = (pc_hand c, c)"
| "pc_sweep (Suc n) c =
     (let position = pc_hand c;
          c = c\<lparr>pc_hand := (pc_hand c + 1) mod length (pc_slots c)\<rparr> in
      case pc_slots c ! position of
        None \<Rightarrow> (position, c)
      | Some s \<Rightarrow> if \<not> sl_referenced s then (position, c)
          else pc_sweep n (c\<lparr>pc_slots := (pc_slots c)[position := Some (s\<lparr>sl_referenced := False\<rparr>)]\<rparr>))"

definition pc_evict :: "('k, 'v) page_cache \<Rightarrow> nat \<times> ('k, 'v) page_cache" where
  "pc_evict c = pc_sweep (length (pc_slots c) * 2) c"

definition pc_insert :: "'k \<Rightarrow> 'v \<Rightarrow> ('k, 'v) page_cache \<Rightarrow> ('k, 'v) page_cache" where
  "pc_insert k v c =
     (if bt_has (pc_index c) k then c
      else let s = \<lparr>sl_key = k, sl_value = v, sl_referenced = True\<rparr> in
        if length (pc_slots c) < pc_limit c
        then c\<lparr>pc_index := (k, length (pc_slots c)) # pc_index c, pc_slots := pc_slots c @ [Some s]\<rparr>
        else let (position, c) = pc_evict c;
                 index = (case pc_slots c ! position of
                     None \<Rightarrow> pc_index c | Some old \<Rightarrow> bt_remove (sl_key old) (pc_index c)) in
          c\<lparr>pc_index := (k, position) # bt_remove k index, pc_slots := (pc_slots c)[position := Some s]\<rparr>)"

definition drop_slot :: "('k \<Rightarrow> bool) \<Rightarrow> ('k, 'v) slot option \<Rightarrow> ('k, 'v) slot option" where
  "drop_slot keep s = (case s of None \<Rightarrow> None | Some x \<Rightarrow> if keep (sl_key x) then Some x else None)"

definition pc_retain :: "('k \<Rightarrow> bool) \<Rightarrow> ('k, 'v) page_cache \<Rightarrow> ('k, 'v) page_cache" where
  "pc_retain keep c =
     (let gone = map sl_key (filter (\<lambda>s. \<not> keep (sl_key s)) (List.map_filter (\<lambda>s. s) (pc_slots c))) in
      c\<lparr>pc_index := fold bt_remove gone (pc_index c), pc_slots := map (drop_slot keep) (pc_slots c)\<rparr>)"

section \<open>Reading a page\<close>

text \<open>
  The published files are immutable: \<open>pg_disk\<close> gives their bytes. The cached value of a page is of a
  type that contains every page type; \<open>inject\<close> and \<open>project\<close> stand for the upcast to
  \<^verbatim>\<open>Any\<close> and the downcast.
\<close>

record 'v pager =
  pg_disk :: "file_id \<Rightarrow> bytes option"
  pg_files :: "(file_id, bytes) file_cache"
  pg_pages :: "(file_id \<times> u64, 'v) page_cache"

definition pager_new :: "(file_id \<Rightarrow> bytes option) \<Rightarrow> nat \<Rightarrow> nat \<Rightarrow> 'v pager" where
  "pager_new disk cache_bytes max_open_files =
     \<lparr>pg_disk = disk,
      pg_files = \<lparr>fc_open = [], fc_order = [], fc_limit = max max_open_files 4\<rparr>,
      pg_pages = \<lparr>pc_index = [], pc_slots = [], pc_hand = 0,
        pc_limit = max (cache_bytes div PAGE_SIZE) 8, pc_hits = 0, pc_misses = 0\<rparr>\<rparr>"

definition not_found_error :: error where
  "not_found_error = Io \<lparr>io_kind = ''NotFound'', io_text = ''No such file or directory (os error 2)''\<rparr>"

definition pager_file :: "file_id \<Rightarrow> 'v pager \<Rightarrow> bytes res \<times> 'v pager" where
  "pager_file f pg = (case map_of (fc_open (pg_files pg)) f of
       Some h \<Rightarrow> (Inr h, pg)
     | None \<Rightarrow> (case pg_disk pg f of
           None \<Rightarrow> (Inl not_found_error, pg)
         | Some bs \<Rightarrow> (Inr bs, pg\<lparr>pg_files := fc_insert f bs (pg_files pg)\<rparr>)))"

definition page_at :: "(bytes \<Rightarrow> 'a res) \<Rightarrow> u64 \<Rightarrow> bytes \<Rightarrow> 'a res" where
  "page_at decode number bs =
     res_bind (ok_or (usize_checked_mul (unat number) PAGE_SIZE) (Corrupt ''page offset overflow'')) (\<lambda>offset.
     res_bind (read_exact_at bs offset PAGE_SIZE) decode)"

definition pager_page :: "('a \<Rightarrow> 'v) \<Rightarrow> ('v \<Rightarrow> 'a option) \<Rightarrow> (bytes \<Rightarrow> 'a res) \<Rightarrow> file_id \<Rightarrow> u64 \<Rightarrow>
    'v pager \<Rightarrow> 'a res \<times> 'v pager" where
  "pager_page inject project decode f number pg =
     (let (cached, pages) = pc_get (f, number) (pg_pages pg);
          pg = pg\<lparr>pg_pages := pages\<rparr> in
      case cached of
        Some v \<Rightarrow> (ok_or (project v) (Corrupt ''page cache type mismatch''), pg)
      | None \<Rightarrow> (let (opened, pg) = pager_file f pg in
          case res_bind opened (page_at decode number) of
            Inl e \<Rightarrow> (Inl e, pg)
          | Inr x \<Rightarrow> (Inr x, pg\<lparr>pg_pages := pc_insert (f, number) (inject x) (pg_pages pg)\<rparr>)))"

definition pager_forget :: "(file_id \<Rightarrow> bool) \<Rightarrow> 'v pager \<Rightarrow> 'v pager" where
  "pager_forget matches pg = pg\<lparr>pg_pages := pc_retain (\<lambda>k. \<not> matches (fst k)) (pg_pages pg),
     pg_files := fc_forget matches (pg_files pg)\<rparr>"

text \<open>Reading without any cache.\<close>

definition page_direct :: "(file_id \<Rightarrow> bytes option) \<Rightarrow> (bytes \<Rightarrow> 'a res) \<Rightarrow> file_id \<Rightarrow> u64 \<Rightarrow> 'a res" where
  "page_direct disk decode f number =
     res_bind (ok_or (disk f) not_found_error) (page_at decode number)"

section \<open>The clock\<close>

definition referenced :: "('k, 'v) slot option \<Rightarrow> bool" where
  "referenced s = (case s of None \<Rightarrow> False | Some x \<Rightarrow> sl_referenced x)"

lemma filter_update_less:
  "i < length xs \<Longrightarrow> P (xs ! i) \<Longrightarrow> \<not> P x \<Longrightarrow> length (filter P (xs[i := x])) + 1 = length (filter P xs)"
proof (induction xs arbitrary: i)
  case (Cons y ys)
  then show ?case by (cases i) auto
qed simp

definition pc_forget_bits :: "('k, 'v) page_cache \<Rightarrow> ('k \<times> 'v) option list" where
  "pc_forget_bits c = map (map_option (\<lambda>s. (sl_key s, sl_value s))) (pc_slots c)"

text \<open>One step of the sweep.\<close>

definition clock_step :: "('k, 'v) slot \<Rightarrow> ('k, 'v) page_cache \<Rightarrow> ('k, 'v) page_cache" where
  "clock_step s c = c\<lparr>pc_hand := (pc_hand c + 1) mod length (pc_slots c),
     pc_slots := (pc_slots c)[pc_hand c := Some (s\<lparr>sl_referenced := False\<rparr>)]\<rparr>"

lemma pc_sweep_cases:
  assumes "pc_sweep (Suc n) c = (i, c')"
  obtains (found) "i = pc_hand c" "\<not> referenced (pc_slots c ! i)"
      "c' = c\<lparr>pc_hand := (pc_hand c + 1) mod length (pc_slots c)\<rparr>"
    | (pass) s where "pc_slots c ! pc_hand c = Some s" "sl_referenced s" "pc_sweep n (clock_step s c) = (i, c')"
proof (cases "pc_slots c ! pc_hand c")
  case None
  then show ?thesis using assms found by (auto simp: Let_def referenced_def)
next
  case (Some s)
  then show ?thesis using assms found pass
    by (cases "sl_referenced s") (auto simp: Let_def referenced_def clock_step_def)
qed

text \<open>A sweep changes only reference bits and the hand.\<close>

lemma pc_sweep_keeps:
  assumes "pc_sweep n c = (i, c')" "pc_slots c \<noteq> []" "pc_hand c < length (pc_slots c)"
  shows "pc_index c' = pc_index c \<and> pc_limit c' = pc_limit c \<and> pc_forget_bits c' = pc_forget_bits c \<and>
    i < length (pc_slots c) \<and> pc_hand c' < length (pc_slots c)"
  using assms
proof (induction n arbitrary: c)
  case (Suc n)
  from Suc.prems(1) show ?case
  proof (cases rule: pc_sweep_cases)
    case found
    then show ?thesis using Suc.prems by (simp add: pc_forget_bits_def)
  next
    case (pass s)
    have keep: "pc_forget_bits (clock_step s c) = pc_forget_bits c"
      using pass(1) Suc.prems(3) by (simp add: pc_forget_bits_def clock_step_def map_update list_update_same_conv)
    have "pc_slots (clock_step s c) \<noteq> []" "pc_hand (clock_step s c) < length (pc_slots (clock_step s c))"
      using Suc.prems(2,3) by (simp_all add: clock_step_def)
    from Suc.IH [OF pass(3) this] keep show ?thesis by (simp add: clock_step_def)
  qed
qed simp

text \<open>With more steps than referenced slots, the sweep ends on a slot that may be reused.\<close>

lemma pc_sweep_finds:
  assumes "pc_sweep n c = (i, c')" "pc_slots c \<noteq> []" "pc_hand c < length (pc_slots c)"
    "length (filter referenced (pc_slots c)) < n"
  shows "\<not> referenced (pc_slots c' ! i)"
  using assms
proof (induction n arbitrary: c)
  case (Suc n)
  from Suc.prems(1) show ?case
  proof (cases rule: pc_sweep_cases)
    case (pass s)
    have "length (filter referenced (pc_slots (clock_step s c))) + 1 = length (filter referenced (pc_slots c))"
      unfolding clock_step_def
      using filter_update_less [of "pc_hand c" "pc_slots c" referenced "Some (s\<lparr>sl_referenced := False\<rparr>)"]
        pass(1,2) Suc.prems(3) by (simp add: referenced_def)
    then have "length (filter referenced (pc_slots (clock_step s c))) < n" using Suc.prems(4) by linarith
    moreover have "pc_slots (clock_step s c) \<noteq> []" "pc_hand (clock_step s c) < length (pc_slots (clock_step s c))"
      using Suc.prems(2,3) by (simp_all add: clock_step_def)
    ultimately show ?thesis using Suc.IH [OF pass(3)] by blast
  qed simp
qed simp

lemma pc_evict_victim:
  assumes "pc_evict c = (i, c')" "pc_slots c \<noteq> []" "pc_hand c < length (pc_slots c)"
  shows "i < length (pc_slots c) \<and> \<not> referenced (pc_slots c' ! i)"
proof -
  have "length (filter referenced (pc_slots c)) < length (pc_slots c) * 2"
    using length_filter_le [of referenced "pc_slots c"] assms(2) by (cases "pc_slots c") auto
  then show ?thesis
    using pc_sweep_finds [of _ c i c'] pc_sweep_keeps [of _ c i c'] assms by (simp add: pc_evict_def)
qed

section \<open>The cache interface\<close>

text \<open>
  A cache may drop what it holds but never changes it: a value found under a key is the one first
  put there. What its client puts in under a property, it finds under that property.
\<close>

locale bounded_cache =
  fixes lookup :: "'c \<Rightarrow> 'k \<Rightarrow> 'v option"
    and ins :: "'k \<Rightarrow> 'v \<Rightarrow> 'c \<Rightarrow> 'c"
    and drop_keys :: "('k \<Rightarrow> bool) \<Rightarrow> 'c \<Rightarrow> 'c"
    and inv :: "'c \<Rightarrow> bool"
    and held :: "'c \<Rightarrow> nat"
    and limit :: "'c \<Rightarrow> nat"
  assumes inv_ins: "inv c \<Longrightarrow> lookup c k = None \<Longrightarrow> inv (ins k v c)"
    and ins_sound: "inv c \<Longrightarrow> lookup c k = None \<Longrightarrow> lookup (ins k v c) j = Some w \<Longrightarrow>
      (j = k \<and> w = v) \<or> lookup c j = Some w"
    and ins_found: "inv c \<Longrightarrow> lookup c k = None \<Longrightarrow> lookup (ins k v c) k = Some v"
    and inv_drop: "inv c \<Longrightarrow> inv (drop_keys m c)"
    and lookup_drop: "inv c \<Longrightarrow> lookup (drop_keys m c) j = (if m j then None else lookup c j)"
    and held_limit: "inv c \<Longrightarrow> held c \<le> limit c"
begin

definition all_good :: "('k \<Rightarrow> 'v \<Rightarrow> bool) \<Rightarrow> 'c \<Rightarrow> bool" where
  "all_good good c = (\<forall>k v. lookup c k = Some v \<longrightarrow> good k v)"

lemma good_ins:
  "inv c \<Longrightarrow> lookup c k = None \<Longrightarrow> all_good good c \<Longrightarrow> good k v \<Longrightarrow> all_good good (ins k v c)"
  using ins_sound [of c k v] unfolding all_good_def by blast

lemma good_drop: "inv c \<Longrightarrow> all_good good c \<Longrightarrow> all_good good (drop_keys m c)"
  by (simp add: all_good_def lookup_drop)

lemma good_found: "all_good good c \<Longrightarrow> lookup c k = Some v \<Longrightarrow> good k v"
  by (simp add: all_good_def)

end

section \<open>The page cache provides the interface\<close>

definition pc_inv :: "('k, 'v) page_cache \<Rightarrow> bool" where
  "pc_inv c = ((\<forall>k i. map_of (pc_index c) k = Some i \<longleftrightarrow>
       i < length (pc_slots c) \<and> (\<exists>s. pc_slots c ! i = Some s \<and> sl_key s = k)) \<and>
     length (pc_slots c) \<le> pc_limit c \<and> 0 < pc_limit c \<and>
     (pc_hand c = 0 \<or> pc_hand c < length (pc_slots c)))"

definition pc_lookup :: "('k, 'v) page_cache \<Rightarrow> 'k \<Rightarrow> 'v option" where
  "pc_lookup c k = (case map_of (pc_index c) k of None \<Rightarrow> None
     | Some i \<Rightarrow> map_option sl_value (pc_slots c ! i))"

lemma pc_indexD:
  "pc_inv c \<Longrightarrow> map_of (pc_index c) k = Some i \<Longrightarrow>
   i < length (pc_slots c) \<and> (\<exists>s. pc_slots c ! i = Some s \<and> sl_key s = k)"
  by (simp add: pc_inv_def)

lemma pc_index_slot:
  "pc_inv c \<Longrightarrow> i < length (pc_slots c) \<Longrightarrow> pc_slots c ! i = Some s \<Longrightarrow> map_of (pc_index c) (sl_key s) = Some i"
  by (simp add: pc_inv_def)

lemma pc_lookup_slot:
  "pc_inv c \<Longrightarrow> i < length (pc_slots c) \<Longrightarrow> pc_slots c ! i = Some s \<Longrightarrow> pc_lookup c (sl_key s) = Some (sl_value s)"
  by (simp add: pc_lookup_def pc_index_slot)

lemma pc_lookup_SomeE:
  assumes "pc_inv c" "pc_lookup c k = Some v"
  obtains i s where "i < length (pc_slots c)" "pc_slots c ! i = Some s" "sl_key s = k" "sl_value s = v"
proof -
  obtain i where i: "map_of (pc_index c) k = Some i" and v: "map_option sl_value (pc_slots c ! i) = Some v"
    using assms(2) by (auto simp: pc_lookup_def split: option.splits)
  then show ?thesis using pc_indexD [OF assms(1) i] that by auto
qed

lemma pc_lookup_None: "pc_inv c \<Longrightarrow> pc_lookup c k = None \<longleftrightarrow> map_of (pc_index c) k = None"
  by (auto simp: pc_lookup_def split: option.splits dest: pc_indexD)

lemma pc_inv_more: "pc_inv c \<Longrightarrow> pc_inv (c\<lparr>pc_misses := m\<rparr>)" "pc_inv c \<Longrightarrow> pc_inv (c\<lparr>pc_hits := m\<rparr>)"
  by (simp_all add: pc_inv_def)

lemma pc_inv_bits:
  assumes "pc_inv c" "pc_index c' = pc_index c" "pc_limit c' = pc_limit c"
    "pc_forget_bits c' = pc_forget_bits c" "pc_hand c' = 0 \<or> pc_hand c' < length (pc_slots c)"
  shows "pc_inv c' \<and> length (pc_slots c') = length (pc_slots c) \<and> pc_lookup c' = pc_lookup c"
proof -
  have len: "length (pc_slots c') = length (pc_slots c)"
    using arg_cong [OF assms(4), of length] by (simp add: pc_forget_bits_def)
  have same: "map_option (\<lambda>s. (sl_key s, sl_value s)) (pc_slots c' ! j) =
      map_option (\<lambda>s. (sl_key s, sl_value s)) (pc_slots c ! j)" if "j < length (pc_slots c)" for j
    using arg_cong [OF assms(4), of "\<lambda>xs. xs ! j"] that len by (simp add: pc_forget_bits_def)
  have k: "(\<exists>t. pc_slots c' ! j = Some t \<and> sl_key t = a) \<longleftrightarrow> (\<exists>t. pc_slots c ! j = Some t \<and> sl_key t = a)"
    if "j < length (pc_slots c)" for j a
    using same [OF that] by (cases "pc_slots c' ! j"; cases "pc_slots c ! j") auto
  have v: "map_option sl_value (pc_slots c' ! j) = map_option sl_value (pc_slots c ! j)"
    if "j < length (pc_slots c)" for j
    using same [OF that] by (cases "pc_slots c' ! j"; cases "pc_slots c ! j") auto
  have ne: "pc_slots c' = [] \<longleftrightarrow> pc_slots c = []" using len by (metis length_0_conv)
  have "pc_inv c'" using assms(1-3,5) k len ne unfolding pc_inv_def by auto
  moreover have "pc_lookup c' = pc_lookup c"
    using assms(2) v pc_indexD [OF assms(1)] by (auto simp: pc_lookup_def fun_eq_iff split: option.split)
  ultimately show ?thesis using len by blast
qed

lemma pc_get_lookup:
  assumes "pc_inv c"
  shows "fst (pc_get k c) = pc_lookup c k \<and> pc_inv (snd (pc_get k c)) \<and>
    pc_lookup (snd (pc_get k c)) = pc_lookup c"
proof (cases "map_of (pc_index c) k")
  case None
  then have "pc_get k c = (None, c\<lparr>pc_misses := pc_misses c + 1\<rparr>)" by (simp add: pc_get_def)
  moreover have "pc_lookup (c\<lparr>pc_misses := pc_misses c + 1\<rparr>) = pc_lookup c"
    by (auto simp: pc_lookup_def fun_eq_iff split: option.split)
  moreover have "pc_lookup c k = None" using pc_lookup_None [OF assms] None by simp
  ultimately show ?thesis using assms by (simp add: pc_inv_more)
next
  case (Some i)
  then obtain s where s: "i < length (pc_slots c)" "pc_slots c ! i = Some s" "sl_key s = k"
    using pc_indexD [OF assms] by blast
  let ?c = "c\<lparr>pc_slots := (pc_slots c)[i := Some (s\<lparr>sl_referenced := True\<rparr>)], pc_hits := pc_hits c + 1\<rparr>"
  have g: "pc_get k c = (Some (sl_value s), ?c)" using s Some by (simp add: pc_get_def)
  have "pc_forget_bits ?c = pc_forget_bits c"
    using s by (simp add: pc_forget_bits_def map_update list_update_same_conv)
  then have "pc_inv ?c \<and> pc_lookup ?c = pc_lookup c"
    using pc_inv_bits [OF assms, of ?c] assms by (simp add: pc_inv_def)
  moreover have "pc_lookup c k = Some (sl_value s)" using pc_lookup_slot [OF assms s(1,2)] s(3) by simp
  ultimately show ?thesis by (simp add: g)
qed

text \<open>Putting a page in a slot: the end of a cache that still grows, or a victim's.\<close>

lemma pc_lookup_intro:
  assumes "pc_inv c" "pc_inv c'"
    "\<And>i s. i < length (pc_slots c') \<Longrightarrow> pc_slots c' ! i = Some s \<Longrightarrow>
      (sl_key s = k \<and> sl_value s = v) \<or> (i < length (pc_slots c) \<and> pc_slots c ! i = Some s)"
    "pc_lookup c' j = Some w"
  shows "(j = k \<and> w = v) \<or> pc_lookup c j = Some w"
proof -
  obtain i s where "i < length (pc_slots c')" "pc_slots c' ! i = Some s" "sl_key s = j" "sl_value s = w"
    using pc_lookup_SomeE [OF assms(2,4)] by blast
  then show ?thesis using assms(3) pc_lookup_slot [OF assms(1)] by blast
qed

lemma pc_inv_place:
  assumes inv: "pc_inv c" and new: "map_of (pc_index c) k = None" and i: "i < length (pc_slots c)"
    and key: "sl_key s = k"
    and ix: "map_of (pc_index c') = (case pc_slots c ! i of None \<Rightarrow> map_of (pc_index c)
       | Some old \<Rightarrow> (map_of (pc_index c))(sl_key old := None))(k \<mapsto> i)"
    and c': "pc_slots c' = (pc_slots c)[i := Some s]" "pc_limit c' = pc_limit c" "pc_hand c' = pc_hand c"
  shows "pc_inv c'"
proof -
  have slot: "map_of (pc_index c) a = Some j \<longleftrightarrow> j < length (pc_slots c) \<and>
      (\<exists>t. pc_slots c ! j = Some t \<and> sl_key t = a)" for a j
    using inv by (simp add: pc_inv_def)
  have fresh: "\<not> (\<exists>t. pc_slots c ! j = Some t \<and> sl_key t = k)" if "j < length (pc_slots c)" for j
    using slot [of k j] new that by simp
  have "map_of (pc_index c') a = Some j \<longleftrightarrow> j < length (pc_slots c') \<and>
      (\<exists>t. pc_slots c' ! j = Some t \<and> sl_key t = a)" for a j
  proof (cases "a = k")
    case True
    then show ?thesis using fresh [of j] i key by (cases "j = i") (auto simp: ix c')
  next
    case False
    show ?thesis
    proof (cases "j = i")
      case True
      have "map_of (pc_index c') a \<noteq> Some i"
        using False slot [of a i] by (auto simp: ix split: option.splits if_splits)
      then show ?thesis using True False i key by (simp add: c')
    next
      case ji: False
      have old: "map_of (pc_index c) (sl_key t) = Some i" if "pc_slots c ! i = Some t" for t
        using slot [of "sl_key t" i] that i by blast
      have "map_of (pc_index c') a = Some j \<longleftrightarrow> map_of (pc_index c) a = Some j"
        using False ji old by (auto simp: ix split: option.splits)
      then show ?thesis using slot [of a j] ji by (simp add: c')
    qed
  qed
  then show ?thesis using inv unfolding pc_inv_def c' by (simp add: c')
qed

lemma pc_insert_inv:
  assumes inv: "pc_inv c" and none: "pc_lookup c k = None"
  shows "pc_inv (pc_insert k v c) \<and> pc_lookup (pc_insert k v c) k = Some v \<and>
    (\<forall>j w. pc_lookup (pc_insert k v c) j = Some w \<longrightarrow> (j = k \<and> w = v) \<or> pc_lookup c j = Some w)"
proof -
  let ?s = "\<lparr>sl_key = k, sl_value = v, sl_referenced = True\<rparr>" and ?c' = "pc_insert k v c"
  have new: "map_of (pc_index c) k = None" using none pc_lookup_None [OF inv] by simp
  have fresh: "pc_slots c ! j = Some t \<Longrightarrow> j < length (pc_slots c) \<Longrightarrow> sl_key t \<noteq> k" for j t
    using pc_index_slot [OF inv, of j t] new by auto
  show ?thesis
  proof (cases "length (pc_slots c) < pc_limit c")
    case True
    then have c': "?c' = c\<lparr>pc_index := (k, length (pc_slots c)) # pc_index c, pc_slots := pc_slots c @ [Some ?s]\<rparr>"
      using new by (simp add: pc_insert_def bt_has_def)
    have slot: "map_of (pc_index c) a = Some j \<longleftrightarrow> j < length (pc_slots c) \<and>
        (\<exists>t. pc_slots c ! j = Some t \<and> sl_key t = a)" for a j
      using inv by (simp add: pc_inv_def)
    have "map_of (pc_index ?c') a = Some j \<longleftrightarrow> j < length (pc_slots ?c') \<and>
        (\<exists>t. pc_slots ?c' ! j = Some t \<and> sl_key t = a)" for a j
      using slot [of a j] fresh [of j] by (cases "j < length (pc_slots c)"; cases "a = k")
        (auto simp: c' nth_append less_Suc_eq)
    then have inv': "pc_inv ?c'" using inv True by (auto simp: pc_inv_def c' simp del: fun_upd_apply)
    moreover have "pc_lookup ?c' k = Some v"
      using pc_lookup_slot [OF inv', of "length (pc_slots c)" ?s] by (simp add: c')
    moreover have "(j = k \<and> w = v) \<or> pc_lookup c j = Some w" if "pc_lookup ?c' j = Some w" for j w
      by (rule pc_lookup_intro [OF inv inv' _ that]) (auto simp: c' nth_append less_Suc_eq split: if_splits)
    ultimately show ?thesis by blast
  next
    case False
    then have ne: "pc_slots c \<noteq> []" and hand: "pc_hand c < length (pc_slots c)"
      using inv by (auto simp: pc_inv_def)
    obtain i d where ev: "pc_evict c = (i, d)" by fastforce
    have keep: "pc_index d = pc_index c" "pc_limit d = pc_limit c" "pc_forget_bits d = pc_forget_bits c"
      "pc_hand d < length (pc_slots c)" and i: "i < length (pc_slots c)"
      using pc_sweep_keeps [OF ev [unfolded pc_evict_def] ne hand] by simp_all
    then have d: "pc_inv d" "length (pc_slots d) = length (pc_slots c)" "pc_lookup d = pc_lookup c"
      using pc_inv_bits [OF inv keep(1-3)] by simp_all
    let ?index = "case pc_slots d ! i of None \<Rightarrow> pc_index d | Some old \<Rightarrow> bt_remove (sl_key old) (pc_index d)"
    have c': "?c' = d\<lparr>pc_index := (k, i) # bt_remove k ?index, pc_slots := (pc_slots d)[i := Some ?s]\<rparr>"
      using False new ev by (simp add: pc_insert_def bt_has_def Let_def)
    have inv': "pc_inv ?c'"
      by (rule pc_inv_place [OF d(1), of k i ?s]) (use new keep i d(2) in \<open>auto simp: c' fun_eq_iff split: option.split\<close>)
    moreover have "pc_lookup ?c' k = Some v"
      using pc_lookup_slot [OF inv', of i ?s] i d(2) by (simp add: c')
    moreover have "(j = k \<and> w = v) \<or> pc_lookup c j = Some w" if "pc_lookup ?c' j = Some w" for j w
      unfolding d(3) [symmetric]
      by (rule pc_lookup_intro [OF d(1) inv' _ that]) (use i d(2) in \<open>auto simp: c' nth_list_update split: if_splits\<close>)
    ultimately show ?thesis by blast
  qed
qed

lemma map_of_fold_remove: "map_of (fold bt_remove ks m) k = (if k \<in> set ks then None else map_of m k)"
  by (induction ks arbitrary: m) auto

lemma pc_retain_inv:
  assumes inv: "pc_inv c"
  shows "pc_inv (pc_retain keep c) \<and>
    pc_lookup (pc_retain keep c) k = (if keep k then pc_lookup c k else None)"
proof -
  let ?c = "pc_retain keep c"
  let ?gone = "map sl_key (filter (\<lambda>s. \<not> keep (sl_key s)) (List.map_filter (\<lambda>s. s) (pc_slots c)))"
  have c: "?c = c\<lparr>pc_index := fold bt_remove ?gone (pc_index c), pc_slots := map (drop_slot keep) (pc_slots c)\<rparr>"
    by (simp add: pc_retain_def Let_def)
  have gone: "a \<in> set ?gone \<longleftrightarrow> \<not> keep a \<and> map_of (pc_index c) a \<noteq> None" for a
  proof -
    have "a \<in> set ?gone \<longleftrightarrow> \<not> keep a \<and> (\<exists>j < length (pc_slots c). \<exists>s. pc_slots c ! j = Some s \<and> sl_key s = a)"
      by (force simp: List.map_filter_def in_set_conv_nth)
    also have "(\<exists>j < length (pc_slots c). \<exists>s. pc_slots c ! j = Some s \<and> sl_key s = a) \<longleftrightarrow> map_of (pc_index c) a \<noteq> None"
      using pc_indexD [OF inv, of a] pc_index_slot [OF inv] by (cases "map_of (pc_index c) a") auto
    finally show ?thesis .
  qed
  have ix: "map_of (pc_index ?c) a = (if keep a then map_of (pc_index c) a else None)" for a
    using gone [of a] by (cases "map_of (pc_index c) a") (auto simp: c map_of_fold_remove)
  have slot: "map_of (pc_index c) a = Some j \<longleftrightarrow> j < length (pc_slots c) \<and>
      (\<exists>t. pc_slots c ! j = Some t \<and> sl_key t = a)" for a j
    using inv by (simp add: pc_inv_def)
  have "map_of (pc_index ?c) a = Some j \<longleftrightarrow> j < length (pc_slots ?c) \<and>
      (\<exists>t. pc_slots ?c ! j = Some t \<and> sl_key t = a)" for a j
    using slot [of a j] unfolding ix by (auto simp: c drop_slot_def split: option.splits if_splits)
  then have inv': "pc_inv ?c" using inv by (simp add: pc_inv_def) (simp add: c)
  have "pc_lookup ?c k = (if keep k then pc_lookup c k else None)"
  proof (cases "map_of (pc_index c) k")
    case None
    then show ?thesis by (simp add: pc_lookup_def ix)
  next
    case (Some i)
    then obtain s where s: "i < length (pc_slots c)" "pc_slots c ! i = Some s" "sl_key s = k"
      using pc_indexD [OF inv] by blast
    then have "keep k \<Longrightarrow> pc_slots ?c ! i = Some s" by (simp add: c drop_slot_def)
    then show ?thesis using s Some by (simp add: pc_lookup_def ix)
  qed
  with inv' show ?thesis by blast
qed

lemma pc_inv_limit: "pc_inv c \<Longrightarrow> length (pc_slots c) \<le> pc_limit c"
  by (simp add: pc_inv_def)

interpretation pages: bounded_cache pc_lookup pc_insert "\<lambda>m. pc_retain (\<lambda>k. \<not> m k)" pc_inv
  "\<lambda>c. length (pc_slots c)" pc_limit
proof
  fix c :: "('a, 'b) page_cache" and k j v w m
  assume inv: "pc_inv c"
  show "pc_inv (pc_retain (\<lambda>k. \<not> m k) c)"
    "pc_lookup (pc_retain (\<lambda>k. \<not> m k) c) j = (if m j then None else pc_lookup c j)"
    using pc_retain_inv [OF inv, of "\<lambda>k. \<not> m k" j] by simp_all
  show "length (pc_slots c) \<le> pc_limit c" by (rule pc_inv_limit [OF inv])
  assume none: "pc_lookup c k = None"
  show "pc_inv (pc_insert k v c)" "pc_lookup (pc_insert k v c) k = Some v"
    using pc_insert_inv [OF inv none, of v] by simp_all
  assume "pc_lookup (pc_insert k v c) j = Some w"
  then show "(j = k \<and> w = v) \<or> pc_lookup c j = Some w"
    using pc_insert_inv [OF inv none, of v] by blast
qed

section \<open>The file cache provides the interface\<close>

definition fc_inv :: "('f, 'h) file_cache \<Rightarrow> bool" where
  "fc_inv c = (distinct (fc_order c) \<and> (\<forall>f. f \<in> set (fc_order c) \<longleftrightarrow> map_of (fc_open c) f \<noteq> None) \<and>
     length (fc_order c) \<le> fc_limit c \<and> 0 < fc_limit c)"

lemma evict_files_inv:
  assumes "evict_files limit order opened = (order', opened')" "distinct order" "0 < limit"
    "\<forall>f. f \<in> set order \<longleftrightarrow> map_of opened f \<noteq> None"
  shows "distinct order' \<and> (\<forall>f. f \<in> set order' \<longleftrightarrow> map_of opened' f \<noteq> None) \<and> length order' < limit \<and>
    (\<forall>f h. map_of opened' f = Some h \<longrightarrow> map_of opened f = Some h)"
  using assms
proof (induction limit order opened rule: evict_files.induct)
  case (2 limit f fs opened)
  show ?case
  proof (cases "length (f # fs) \<ge> limit")
    case True
    have "\<forall>g. g \<in> set fs \<longleftrightarrow> map_of (bt_remove f opened) g \<noteq> None"
      using 2(3,5) by (auto split: if_splits)
    moreover have "evict_files limit fs (bt_remove f opened) = (order', opened')" "distinct fs"
      using 2(2,3) True by simp_all
    ultimately have "distinct order' \<and> (\<forall>f. f \<in> set order' \<longleftrightarrow> map_of opened' f \<noteq> None) \<and>
        length order' < limit \<and> (\<forall>g h. map_of opened' g = Some h \<longrightarrow> map_of (bt_remove f opened) g = Some h)"
      using 2(1) [OF True] 2(4) by blast
    then show ?thesis by (metis fun_upd_apply map_of_bt_remove option.distinct(1))
  qed (use 2 in auto)
qed auto

lemma fc_insert_inv:
  assumes inv: "fc_inv c" and none: "map_of (fc_open c) f = None"
  shows "fc_inv (fc_insert f h c) \<and> map_of (fc_open (fc_insert f h c)) f = Some h \<and>
    (\<forall>g k. map_of (fc_open (fc_insert f h c)) g = Some k \<longrightarrow> (g = f \<and> k = h) \<or> map_of (fc_open c) g = Some k)"
proof -
  obtain order opened where ev: "evict_files (fc_limit c) (fc_order c) (fc_open c) = (order, opened)" by fastforce
  have e: "distinct order" "\<forall>f. f \<in> set order \<longleftrightarrow> map_of opened f \<noteq> None" "length order < fc_limit c"
    "\<forall>f h. map_of opened f = Some h \<longrightarrow> map_of (fc_open c) f = Some h"
    using evict_files_inv [OF ev] inv by (simp_all add: fc_inv_def)
  have "f \<notin> set order" using e(2,4) none by (metis not_None_eq)
  then show ?thesis using e ev inv by (auto simp: fc_insert_def fc_inv_def)
qed

lemma map_of_filter_not: "map_of (filter (\<lambda>e. \<not> m (fst e)) xs) k = (if m k then None else map_of xs k)"
  using map_of_filter_key [of "\<lambda>k. \<not> m k" xs k] by simp

lemma fc_forget_inv:
  assumes "fc_inv c"
  shows "fc_inv (fc_forget m c) \<and> map_of (fc_open (fc_forget m c)) f = (if m f then None else map_of (fc_open c) f)"
proof -
  let ?opened = "filter (\<lambda>e. \<not> m (fst e)) (fc_open c)"
  have "length (filter (\<lambda>f. map_of ?opened f \<noteq> None) (fc_order c)) \<le> fc_limit c"
    using assms by (intro le_trans [OF length_filter_le]) (simp add: fc_inv_def)
  moreover have "map_of ?opened f = (if m f then None else map_of (fc_open c) f)" for f
    by (rule map_of_filter_not)
  ultimately show ?thesis using assms unfolding fc_inv_def fc_forget_def Let_def by auto
qed

interpretation handles: bounded_cache "\<lambda>c. map_of (fc_open c)" fc_insert fc_forget fc_inv
  "\<lambda>c. length (fc_order c)" fc_limit
proof
  fix c :: "('a, 'b) file_cache" and k j v w m
  assume inv: "fc_inv c"
  show "fc_inv (fc_forget m c)"
    "map_of (fc_open (fc_forget m c)) j = (if m j then None else map_of (fc_open c) j)"
    using fc_forget_inv [OF inv, of m j] by simp_all
  show "length (fc_order c) \<le> fc_limit c" using inv by (simp add: fc_inv_def)
  assume none: "map_of (fc_open c) k = None"
  show "fc_inv (fc_insert k v c)" "map_of (fc_open (fc_insert k v c)) k = Some v"
    using fc_insert_inv [OF inv none, of v] by simp_all
  assume "map_of (fc_open (fc_insert k v c)) j = Some w"
  then show "(j = k \<and> w = v) \<or> map_of (fc_open c) j = Some w"
    using fc_insert_inv [OF inv none, of v] by blast
qed

section \<open>Transparency\<close>

text \<open>
  \<open>dec f n\<close> is the decoder of the pages of file \<open>f\<close>. A pager is consistent when every open handle
  is the file's content and every cached page is what decoding the file gives.
\<close>

definition pager_inv :: "(file_id \<Rightarrow> u64 \<Rightarrow> bytes \<Rightarrow> 'v res) \<Rightarrow> 'v pager \<Rightarrow> bool" where
  "pager_inv dec pg = (pc_inv (pg_pages pg) \<and> fc_inv (pg_files pg) \<and>
     handles.all_good (\<lambda>f bs. pg_disk pg f = Some bs) (pg_files pg) \<and>
     pages.all_good (\<lambda>(f, n) v. page_direct (pg_disk pg) (dec f n) f n = Inr v) (pg_pages pg))"

lemma pager_new_inv: "pager_inv dec (pager_new disk b m)"
  by (auto simp: pager_inv_def pager_new_def pc_inv_def fc_inv_def handles.all_good_def pages.all_good_def
      pc_lookup_def)

lemma pager_file_inv:
  assumes "pager_inv dec pg"
  shows "fst (pager_file f pg) = ok_or (pg_disk pg f) not_found_error \<and>
    pager_inv dec (snd (pager_file f pg)) \<and> pg_disk (snd (pager_file f pg)) = pg_disk pg \<and>
    pg_pages (snd (pager_file f pg)) = pg_pages pg"
proof (cases "map_of (fc_open (pg_files pg)) f")
  case None
  have fc: "fc_inv (pg_files pg)" "handles.all_good (\<lambda>f bs. pg_disk pg f = Some bs) (pg_files pg)"
    using assms by (simp_all add: pager_inv_def)
  show ?thesis
  proof (cases "pg_disk pg f")
    case (Some bs)
    have "fc_inv (fc_insert f bs (pg_files pg))"
      "handles.all_good (\<lambda>f bs. pg_disk pg f = Some bs) (fc_insert f bs (pg_files pg))"
      using handles.inv_ins [OF fc(1) None] handles.good_ins [OF fc(1) None fc(2) Some] by simp_all
    then show ?thesis using assms None Some by (simp add: pager_file_def pager_inv_def)
  qed (use None assms in \<open>simp add: pager_file_def\<close>)
next
  case (Some bs)
  then have "pg_disk pg f = Some bs"
    using assms handles.good_found [of _ "pg_files pg" f bs] by (auto simp: pager_inv_def)
  then show ?thesis using Some assms by (simp add: pager_file_def)
qed

text \<open>
  Reading a page through the caches is reading it from the file: the caches change neither the
  value nor the error.
\<close>

lemma pager_page_direct:
  assumes inv: "pager_inv dec pg"
    and dec: "\<And>bs. dec f n bs = res_bind (decode bs) (\<lambda>x. Inr (inject x))"
    and inj: "\<And>x. project (inject x) = Some x"
  shows "fst (pager_page inject project decode f n pg) = page_direct (pg_disk pg) decode f n \<and>
    pager_inv dec (snd (pager_page inject project decode f n pg)) \<and>
    pg_disk (snd (pager_page inject project decode f n pg)) = pg_disk pg"
proof -
  have pc: "pc_inv (pg_pages pg)"
    "pages.all_good (\<lambda>(f, n) v. page_direct (pg_disk pg) (dec f n) f n = Inr v) (pg_pages pg)"
    using inv by (simp_all add: pager_inv_def)
  have direct: "page_direct (pg_disk pg) (dec f n) f n =
      res_bind (page_direct (pg_disk pg) decode f n) (\<lambda>x. Inr (inject x))"
    by (simp add: page_direct_def page_at_def [abs_def] dec [abs_def])
  obtain cached ps where g: "pc_get (f, n) (pg_pages pg) = (cached, ps)" by fastforce
  have get: "cached = pc_lookup (pg_pages pg) (f, n)" "pc_inv ps" "pc_lookup ps = pc_lookup (pg_pages pg)"
    using pc_get_lookup [OF pc(1), of "(f, n)"] g by simp_all
  let ?pg = "pg\<lparr>pg_pages := ps\<rparr>"
  have inv1: "pager_inv dec ?pg"
    using inv get by (simp add: pager_inv_def pages.all_good_def)
  show ?thesis
  proof (cases cached)
    case (Some v)
    then have "page_direct (pg_disk pg) (dec f n) f n = Inr v"
      using pages.good_found [OF pc(2), of "(f, n)" v] get(1) by simp
    then obtain x where "page_direct (pg_disk pg) decode f n = Inr x" "v = inject x"
      by (auto simp: direct res_simps)
    then show ?thesis using Some g inv1 by (simp add: pager_page_def inj)
  next
    case None
    obtain opened pg' where pf: "pager_file f ?pg = (opened, pg')" by fastforce
    have opn: "opened = ok_or (pg_disk pg f) not_found_error" "pager_inv dec pg'" "pg_disk pg' = pg_disk pg"
      "pg_pages pg' = ps"
      using pager_file_inv [OF inv1, of f] pf by simp_all
    have d: "res_bind opened (page_at decode n) = page_direct (pg_disk pg) decode f n"
      by (simp add: opn(1) page_direct_def)
    show ?thesis
    proof (cases "page_direct (pg_disk pg) decode f n")
      case (Inl e)
      then show ?thesis using None g pf d opn by (simp add: pager_page_def)
    next
      case (Inr x)
      have none: "pc_lookup ps (f, n) = None" using None get by simp
      have "pages.all_good (\<lambda>(f, n) v. page_direct (pg_disk pg) (dec f n) f n = Inr v) (pc_insert (f, n) (inject x) ps)"
        using pages.good_ins [OF get(2) none, of "\<lambda>(f, n) v. page_direct (pg_disk pg) (dec f n) f n = Inr v" "inject x"]
          opn(2-4) Inr by (simp add: pager_inv_def direct)
      then have "pager_inv dec (pg'\<lparr>pg_pages := pc_insert (f, n) (inject x) ps\<rparr>)"
        using opn(2-4) pages.inv_ins [OF get(2) none, of "inject x"] by (simp add: pager_inv_def)
      then show ?thesis using None g pf d opn Inr by (simp add: pager_page_def)
    qed
  qed
qed

section \<open>Properties\<close>

text \<open>
  C28 (pager_transparent): reading a page through the file and page caches returns the value or the
  error that decoding it from the file returns, and leaves the caches consistent, bounded by their
  limits and the files untouched.
\<close>

theorem pager_transparent:
  assumes "pager_inv dec pg"
    and "\<And>bs. dec f n bs = res_bind (decode bs) (\<lambda>x. Inr (inject x))"
    and "\<And>x. project (inject x) = Some x"
  shows "fst (pager_page inject project decode f n pg) = page_direct (pg_disk pg) decode f n \<and>
    pager_inv dec (snd (pager_page inject project decode f n pg)) \<and>
    pg_disk (snd (pager_page inject project decode f n pg)) = pg_disk pg"
  by (rule pager_page_direct [OF assms])

lemma pager_transparent_witness:
  "fst (pager_page (\<lambda>x. x) Some Inr (file_id_new 1 1 0 0) 0 (pager_new (\<lambda>_. None) 0 0)) = Inl not_found_error"
  using pager_transparent [of "\<lambda>_ _. Inr" "pager_new (\<lambda>_. None) 0 0" "file_id_new 1 1 0 0" 0 Inr "\<lambda>x. x" Some]
    pager_new_inv [of "\<lambda>_ _. Inr" "\<lambda>_. None" 0 0]
  by (simp add: page_direct_def pager_new_def)

text \<open>
  Putting a page into a full or growing cache makes it found, keeps the
  cache within its limit and its index exact, and changes no other page it still holds; a victim
  is always a slot that was not used since the hand last passed it.
\<close>

theorem page_cache_bounded:
  assumes "pc_inv c" "pc_lookup c k = None"
  shows "pc_inv (pc_insert k v c) \<and> length (pc_slots (pc_insert k v c)) \<le> pc_limit (pc_insert k v c) \<and>
    pc_lookup (pc_insert k v c) k = Some v \<and>
    (\<forall>j w. pc_lookup (pc_insert k v c) j = Some w \<longrightarrow> (j = k \<and> w = v) \<or> pc_lookup c j = Some w) \<and>
    (pc_slots c \<noteq> [] \<longrightarrow> (let (i, d) = pc_evict c in i < length (pc_slots c) \<and> \<not> referenced (pc_slots d ! i)))"
proof -
  have "pc_slots c \<noteq> [] \<Longrightarrow> pc_hand c < length (pc_slots c)"
    using assms(1) by (auto simp: pc_inv_def)
  then show ?thesis
    using pc_insert_inv [OF assms, of v] pc_evict_victim [of c]
    by (auto simp: pc_inv_limit split: prod.split)
qed

lemma page_cache_bounded_witness:
  "pc_lookup (pc_insert (1::nat) True \<lparr>pc_index = [], pc_slots = [], pc_hand = 0, pc_limit = 8, pc_hits = 0,
     pc_misses = 0\<rparr>) 1 = Some True"
  by (rule page_cache_bounded [THEN conjunct2, THEN conjunct2, THEN conjunct1])
     (simp_all add: pc_inv_def pc_lookup_def)

end
