(* ===== verification/Heap.thy ===== *)
theory Heap
  imports Pager Codec
begin

unbundle bit_operations_syntax

text \<open>
  Models \<^verbatim>\<open>storage/heap.rs\<close>: heap files of slotted pages. A record is stored inline in a slot, or
  as a chain of overflow pages. Reading goes through the store: the published files and the
  admission of memory. By \<open>pager_page_direct\<close> the page caches are transparent, so pages are
  read from the file. The law: what was appended is read back at the location append returned.
\<close>

section \<open>Locations\<close>

definition MAX_SLOTS :: nat where "MAX_SLOTS = 256"
definition PAGE_LIMIT :: u64 where "PAGE_LIMIT = push_bit 40 1"

definition locate_slot :: "u8 \<Rightarrow> u64 \<Rightarrow> u64" where
  "locate_slot s location = push_bit 56 (ucast s) OR location"

definition split_locator :: "u64 \<Rightarrow> u8 \<times> u64" where
  "split_locator l = (ucast (drop_bit 56 l), l AND (push_bit 16 PAGE_LIMIT - 1))"

section \<open>The store\<close>

text \<open>
  What reading relies on: the published files, whether memory for a temporary buffer or a decoded
  record of a given size is admitted, and what the platform decides: the capacity the allocator
  gives a buffer, and the sizes of the in-memory entity and (accounted) event.
\<close>

record store =
  st_disk :: "file_id \<Rightarrow> bytes option"
  st_scratch :: "nat \<Rightarrow> unit res"
  st_decoded :: "nat \<Rightarrow> unit res"
  st_capacity :: "bytes \<Rightarrow> nat"
  st_entity_size :: nat
  st_event_size :: nat

text \<open>A store that admits every request.\<close>

definition open_store :: "(file_id \<Rightarrow> bytes option) \<Rightarrow> store" where
  "open_store disk = \<lparr>st_disk = disk, st_scratch = (\<lambda>_. Inr ()), st_decoded = (\<lambda>_. Inr ()),
     st_capacity = length, st_entity_size = 56, st_event_size = 96\<rparr>"

lemma open_store_simps [simp]:
  "st_disk (open_store disk) = disk" "st_scratch (open_store disk) n = Inr ()" "st_decoded (open_store disk) n = Inr ()"
  "st_capacity (open_store disk) = length"
  by (simp_all add: open_store_def)

definition page_err :: "page_error + 'a \<Rightarrow> 'a res" where
  "page_err = map_err (\<lambda>e. Corrupt (page_error_text e))"

section \<open>Writing\<close>

record heap_writer =
  hw_file :: bytes
  hw_page :: bytes
  hw_lsn :: u64

definition heap_create :: "u64 \<Rightarrow> heap_writer" where
  "heap_create lsn = \<lparr>hw_file = [], hw_page = set_lsn lsn (page_new 0), hw_lsn = lsn\<rparr>"

definition heap_flush :: "heap_writer \<Rightarrow> heap_writer" where
  "heap_flush w =
     (if record_count (hw_page w) = 0 then w
      else w\<lparr>hw_file := hw_file w @ hw_page w,
             hw_page := set_lsn (hw_lsn w) (page_new (page_id (hw_page w) + 1))\<rparr>)"

definition heap_put :: "bytes \<Rightarrow> heap_writer \<Rightarrow> (nat \<times> heap_writer) res" where
  "heap_put rec w = res_bind (page_err (page_insert (hw_page w) rec)) (\<lambda>(slot, p).
     Inr (slot, w\<lparr>hw_page := p\<rparr>))"

function chunks :: "nat \<Rightarrow> 'a list \<Rightarrow> 'a list list" where
  "chunks n xs = (if n = 0 \<or> xs = [] then [] else take n xs # chunks n (drop n xs))"
  by pat_completeness auto
termination by (relation "measure (length \<circ> snd)") auto

declare chunks.simps [simp del]

definition div_ceil :: "nat \<Rightarrow> nat \<Rightarrow> nat" where
  "div_ceil a b = (a + b - 1) div b"

definition overflow_record :: "nat \<Rightarrow> nat \<Rightarrow> nat \<Rightarrow> bytes \<Rightarrow> bytes" where
  "overflow_record whole count index chunk =
     [1] @ le32 (of_nat whole) @ le32 (of_nat index) @ le32 (of_nat count) @ chunk"

definition overflow_step :: "nat \<Rightarrow> nat \<Rightarrow> nat \<times> bytes \<Rightarrow> heap_writer \<Rightarrow> heap_writer res" where
  "overflow_step whole count ic w =
     res_bind (heap_put (overflow_record whole count (fst ic) (snd ic)) w) (\<lambda>(_, w). Inr (heap_flush w))"

definition heap_append :: "bytes \<Rightarrow> heap_writer \<Rightarrow> (u64 \<times> heap_writer) res" where
  "heap_append bs w =
     (if length bs > MAX_RECORD then Inl (Invalid ''record exceeds 16 MiB'')
      else if page_id (hw_page w) \<ge> PAGE_LIMIT
      then Inl (Invalid ''heap file exceeds its addressable size'')
      else if length bs < MAX_RECORD_SIZE then
        (let rec = 0 # bs;
             w = (if free_space (hw_page w) < length rec + 4 then heap_flush w else w) in
         res_bind (heap_put rec w) (\<lambda>(slot, w).
           Inr (push_bit 16 (page_id (hw_page w)) OR of_nat slot, w)))
      else
        (let w = heap_flush w;
             start = push_bit 16 (page_id (hw_page w));
             count = div_ceil (length bs) (MAX_RECORD_SIZE - 13) in
         res_bind (res_fold (overflow_step (length bs) count)
             (enumerate 0 (chunks (MAX_RECORD_SIZE - 13) bs)) w) (\<lambda>w.
           Inr (start, w))))"

definition heap_finish :: "heap_writer \<Rightarrow> bytes" where
  "heap_finish w = hw_file (heap_flush w)"

section \<open>Reading\<close>

definition heap_decode :: "u64 \<Rightarrow> bytes \<Rightarrow> bytes res" where
  "heap_decode number bs = res_bind (page_err (page_from_bytes bs)) (\<lambda>p.
     if page_id p \<noteq> number then Inl (Corrupt ''misdirected heap page'') else Inr p)"

definition heap_read_page :: "store \<Rightarrow> file_id \<Rightarrow> u64 \<Rightarrow> u64 \<Rightarrow> bytes res" where
  "heap_read_page st f number lsn =
     res_bind (page_direct (st_disk st) (heap_decode number) f number) (\<lambda>p.
       if page_lsn p \<noteq> lsn then Inl (Corrupt ''misdirected heap page'') else Inr p)"

definition overflow_fragment :: "store \<Rightarrow> file_id \<Rightarrow> u64 \<Rightarrow> u64 \<Rightarrow> bytes \<Rightarrow> nat \<Rightarrow> nat \<Rightarrow> bytes \<Rightarrow> bytes res" where
  "overflow_fragment st f number lsn header whole index bs =
     res_bind (heap_read_page st f (number + of_nat index) lsn) (\<lambda>p.
     res_bind (ok_or (page_get p 0) (Corrupt ''missing overflow record'')) (\<lambda>chunk.
       if length chunk < 13 \<or> chunk ! 0 \<noteq> 1 \<or> slice 1 4 chunk \<noteq> take 4 header \<or>
          slice 9 4 chunk \<noteq> drop 8 header \<or> unat (from_le32 (slice 5 4 chunk)) \<noteq> index
       then Inl (Corrupt ''invalid overflow fragment'')
       else if length bs + (length chunk - 13) > whole
       then Inl (Corrupt ''overflow chain is too long'')
       else Inr (bs @ drop 13 chunk)))"

definition heap_read :: "store \<Rightarrow> file_id \<Rightarrow> u64 \<Rightarrow> u64 \<Rightarrow> bytes res" where
  "heap_read st f location lsn =
     (let number = drop_bit 16 location;
          slot = unat (ucast location :: u16) in
      res_bind (heap_read_page st f number lsn) (\<lambda>p.
      res_bind (ok_or (page_get p slot) (Corrupt ''absent heap slot'')) (\<lambda>rec.
        case rec of
          [] \<Rightarrow> Inl (Corrupt ''unknown heap record kind'')
        | tag # bs \<Rightarrow>
            if tag = 0 then res_bind (st_scratch st (length bs)) (\<lambda>_. Inr bs)
            else if tag = 1 \<and> length rec \<ge> 13 then
              (let whole = unat (from_le32 (slice 1 4 rec));
                   count = unat (from_le32 (slice 9 4 rec)) in
               if whole < MAX_RECORD_SIZE \<or> whole > MAX_RECORD \<or>
                  count \<noteq> div_ceil whole (MAX_RECORD_SIZE - 13) \<or> slot \<noteq> 0
               then Inl (Corrupt ''invalid overflow chain'')
               else res_bind (st_scratch st whole) (\<lambda>_.
                 res_bind (res_fold (overflow_fragment st f number lsn (slice 1 12 rec) whole)
                     [0..<count] []) (\<lambda>bs.
                   if length bs \<noteq> whole then Inl (Corrupt ''truncated overflow chain'')
                   else Inr bs)))
            else Inl (Corrupt ''unknown heap record kind''))))"

section \<open>Locators round trip\<close>

lemma split_locate:
  assumes "unat location < 2 ^ 56"
  shows "split_locator (locate_slot s location) = (s, location)"
proof -
  have loc: "\<not> bit location n" if "56 \<le> n" for n
  proof -
    have "(2 :: nat) ^ 56 \<le> 2 ^ n" using that by (intro power_increasing) auto
    then have "unat location < 2 ^ n" using assms by linarith
    then have "\<not> bit (unat location) n" by (simp add: bit_iff_odd)
    then show ?thesis by (simp add: bit_unsigned_iff)
  qed
  have mask: "push_bit 16 PAGE_LIMIT - 1 = (mask 56 :: u64)"
    by (simp add: PAGE_LIMIT_def mask_eq_exp_minus_1)
  have "(ucast (drop_bit 56 (locate_slot s location)) :: u8) = s"
    by (rule bit_word_eqI) (auto simp: locate_slot_def bit_simps loc)
  moreover have "locate_slot s location AND mask 56 = location"
    by (rule bit_word_eqI) (use loc in \<open>auto simp: locate_slot_def bit_simps not_less [symmetric]\<close>)
  ultimately show ?thesis by (simp add: split_locator_def mask)
qed

section \<open>Chunks\<close>

lemma chunks_Nil [simp]: "chunks n [] = []"
  by (simp add: chunks.simps)

lemma concat_chunks: "0 < n \<Longrightarrow> concat (chunks n xs) = xs"
proof (induction n xs rule: chunks.induct)
  case (1 n xs)
  then show ?case by (cases "xs = []") (simp_all add: chunks.simps [of n xs])
qed

lemma div_ceil_step: "0 < n \<Longrightarrow> 0 < m \<Longrightarrow> div_ceil m n = Suc (div_ceil (m - n) n)"
proof (cases "m \<le> n")
  case True
  assume "0 < n" "0 < m"
  then have "m + n - 1 = (m - 1) + n" "m - 1 < n" using True by linarith+
  then have "(m + n - 1) div n = Suc 0" by (simp only: div_add_self2) simp
  then show ?thesis using True \<open>0 < n\<close> by (simp add: div_ceil_def)
next
  case False
  assume "0 < n"
  then have "m + n - 1 = (m - n + n - 1) + n" using False by linarith
  then show ?thesis using \<open>0 < n\<close> unfolding div_ceil_def by (simp only: div_add_self2)
qed

lemma length_chunks: "0 < n \<Longrightarrow> length (chunks n xs) = div_ceil (length xs) n"
proof (induction n xs rule: chunks.induct)
  case (1 n xs)
  then show ?case
    by (cases "xs = []", simp add: div_ceil_def) (simp add: chunks.simps [of n xs] div_ceil_step [of n "length xs"])
qed

lemma chunks_bounded: "0 < n \<Longrightarrow> c \<in> set (chunks n xs) \<Longrightarrow> length c \<le> n"
proof (induction n xs rule: chunks.induct)
  case (1 n xs)
  then show ?case by (cases "xs = []") (auto simp: chunks.simps [of n xs])
qed

section \<open>The writer's pages\<close>

text \<open>
  A writer in a good state has written whole valid pages, each under its own number and with the
  writer's sequence number; the page it still fills is the next one.
\<close>

definition page_of :: "u64 \<Rightarrow> nat \<Rightarrow> bytes \<Rightarrow> bool" where
  "page_of lsn n p = (page_valid p \<and> page_id p = of_nat n \<and> page_lsn p = lsn)"

definition heap_inv :: "heap_writer \<Rightarrow> bytes list \<Rightarrow> bool" where
  "heap_inv w ps = (hw_file w = concat ps \<and> (\<forall>i < length ps. page_of (hw_lsn w) i (ps ! i)) \<and>
     page_of (hw_lsn w) (length ps) (hw_page w))"

text \<open>Records stay where they are while pages fill and new ones are added.\<close>

definition grows :: "bytes list \<Rightarrow> bytes list \<Rightarrow> bool" where
  "grows ps qs = (length ps \<le> length qs \<and>
     (\<forall>n < length ps. \<forall>s r. page_get (ps ! n) s = Some r \<longrightarrow> page_get (qs ! n) s = Some r))"

lemma grows_refl [simp]: "grows ps ps"
  by (simp add: grows_def)

lemma grows_trans: "grows ps qs \<Longrightarrow> grows qs rs \<Longrightarrow> grows ps rs"
  by (auto simp: grows_def)

lemma grows_snoc: "grows (ps @ [p]) (ps @ [p, q])"
  by (auto simp: grows_def nth_append)

lemma fresh_page: "page_of lsn n (set_lsn lsn (page_new (of_nat n))) \<and>
    page_records (set_lsn lsn (page_new (of_nat n))) = []"
  using set_lsn_valid [of "page_new (of_nat n)" lsn] page_new_valid [of "of_nat n"]
  by (simp add: page_of_def)

lemma records_Nil_iff: "page_records p = [] \<longleftrightarrow> record_count p = 0"
  by (simp add: page_records_def)

lemma heap_create_inv: "heap_inv (heap_create lsn) []"
  using fresh_page [of lsn 0] by (simp add: heap_inv_def heap_create_def)

lemma heap_flush_inv:
  assumes "heap_inv w ps"
  obtains ps' where "heap_inv (heap_flush w) ps'" "page_records (hw_page (heap_flush w)) = []"
    "grows (ps @ [hw_page w]) (ps' @ [hw_page (heap_flush w)])" "hw_lsn (heap_flush w) = hw_lsn w"
    "record_count (hw_page w) \<noteq> 0 \<Longrightarrow> ps' = ps @ [hw_page w]" "record_count (hw_page w) = 0 \<Longrightarrow> ps' = ps"
proof (cases "record_count (hw_page w) = 0")
  case True
  then show ?thesis using that [of ps] assms by (simp add: heap_flush_def records_Nil_iff)
next
  case False
  let ?q = "set_lsn (hw_lsn w) (page_new (of_nat (Suc (length ps))))"
  have id: "page_id (hw_page w) + 1 = of_nat (Suc (length ps))"
    using assms by (simp add: heap_inv_def page_of_def)
  have w': "heap_flush w = w\<lparr>hw_file := hw_file w @ hw_page w, hw_page := ?q\<rparr>"
    using False unfolding heap_flush_def id by simp
  have "heap_inv (heap_flush w) (ps @ [hw_page w])"
    using assms fresh_page [of "hw_lsn w" "Suc (length ps)"]
    unfolding w' by (auto simp: heap_inv_def nth_append less_Suc_eq simp del: of_nat_Suc)
  moreover have "page_records (hw_page (heap_flush w)) = []"
    using fresh_page [of "hw_lsn w" "Suc (length ps)"] by (simp add: w')
  moreover have "grows (ps @ [hw_page w]) ((ps @ [hw_page w]) @ [hw_page (heap_flush w)])"
    using grows_snoc [of ps "hw_page w"] by simp
  ultimately show ?thesis using that [of "ps @ [hw_page w]"] False by (simp add: w')
qed

lemma heap_put_inv:
  assumes "heap_inv w ps" "heap_put rec w = Inr (slot, w')"
  shows "heap_inv w' ps \<and> grows (ps @ [hw_page w]) (ps @ [hw_page w']) \<and> hw_lsn w' = hw_lsn w \<and>
    page_get (hw_page w') slot = Some rec \<and> slot = record_count (hw_page w) \<and> record_count (hw_page w') \<noteq> 0"
proof -
  obtain p where p: "page_insert (hw_page w) rec = Inr (slot, p)" and w': "w' = w\<lparr>hw_page := p\<rparr>"
    using assms(2) by (auto simp: heap_put_def page_err_def res_simps)
  have valid: "page_valid (hw_page w)" using assms(1) by (simp add: heap_inv_def page_of_def)
  have ins: "slot = length (page_records (hw_page w))" "page_valid p"
    "page_records p = page_records (hw_page w) @ [Some rec]" "page_id p = page_id (hw_page w)"
    "page_lsn p = page_lsn (hw_page w)"
    using page_insert_Inr [OF valid p] by simp_all
  have "grows (ps @ [hw_page w]) (ps @ [p])"
    by (auto simp: grows_def nth_append page_get_records ins(3) less_Suc_eq split: if_splits)
  moreover have "page_get p slot = Some rec" by (simp add: page_get_records ins)
  moreover have "record_count p \<noteq> 0" using records_Nil_iff [of p] by (simp add: ins)
  moreover have "length (page_records (hw_page w)) = record_count (hw_page w)" by (simp add: page_records_def)
  ultimately show ?thesis using assms(1) ins
    by (simp add: w' heap_inv_def page_of_def)
qed

section \<open>Stored records\<close>

definition overflow_count :: "bytes \<Rightarrow> nat" where
  "overflow_count bs = div_ceil (length bs) (MAX_RECORD_SIZE - 13)"

definition fragment :: "bytes \<Rightarrow> nat \<Rightarrow> bytes" where
  "fragment bs i = overflow_record (length bs) (overflow_count bs) i (chunks (MAX_RECORD_SIZE - 13) bs ! i)"

definition holds_inline :: "bytes list \<Rightarrow> nat \<Rightarrow> nat \<Rightarrow> bytes \<Rightarrow> bool" where
  "holds_inline ps n s bs = (n < length ps \<and> page_get (ps ! n) s = Some (0 # bs))"

definition holds_chain :: "bytes list \<Rightarrow> nat \<Rightarrow> nat \<Rightarrow> bytes \<Rightarrow> bool" where
  "holds_chain ps n k bs = (n + k \<le> length ps \<and> (\<forall>i < k. page_get (ps ! (n + i)) 0 = Some (fragment bs i)))"

definition heap_stored :: "bytes list \<Rightarrow> u64 \<Rightarrow> bytes \<Rightarrow> bool" where
  "heap_stored ps location bs = (\<exists>n s. location = push_bit 16 (of_nat n) OR of_nat s \<and> s < 65536 \<and>
     (holds_inline ps n s bs \<or>
      (s = 0 \<and> MAX_RECORD_SIZE \<le> length bs \<and> length bs \<le> MAX_RECORD \<and> holds_chain ps n (overflow_count bs) bs)))"

lemma overflow_count_pos: "MAX_RECORD_SIZE \<le> length bs \<Longrightarrow> 0 < overflow_count bs"
  unfolding overflow_count_def by (subst div_ceil_step) (auto simp: page_consts)

lemma holds_inline_grows: "holds_inline ps n s bs \<Longrightarrow> grows ps qs \<Longrightarrow> holds_inline qs n s bs"
  by (auto simp: holds_inline_def grows_def)

lemma holds_chain_grows: "holds_chain ps n k bs \<Longrightarrow> grows ps qs \<Longrightarrow> holds_chain qs n k bs"
  by (auto simp: holds_chain_def grows_def)

lemma heap_stored_grows: "heap_stored ps l bs \<Longrightarrow> grows ps qs \<Longrightarrow> heap_stored qs l bs"
  unfolding heap_stored_def using holds_inline_grows holds_chain_grows by blast

text \<open>One overflow fragment fills the current, still empty page, and the next page is started.\<close>

lemma overflow_step_inv:
  assumes "heap_inv w ps" "page_records (hw_page w) = []" "overflow_step t k (i, c) w = Inr w'"
  shows "\<exists>p. heap_inv w' (ps @ [p]) \<and> page_records (hw_page w') = [] \<and> hw_lsn w' = hw_lsn w \<and>
    grows (ps @ [hw_page w]) ((ps @ [p]) @ [hw_page w']) \<and> page_get p 0 = Some (overflow_record t k i c)"
proof -
  obtain slot w1 where put: "heap_put (overflow_record t k i c) w = Inr (slot, w1)" and w': "w' = heap_flush w1"
    using assms(3) by (auto simp: overflow_step_def res_simps)
  have p: "heap_inv w1 ps" "grows (ps @ [hw_page w]) (ps @ [hw_page w1])" "hw_lsn w1 = hw_lsn w"
    "page_get (hw_page w1) slot = Some (overflow_record t k i c)" "slot = 0" "record_count (hw_page w1) \<noteq> 0"
    using heap_put_inv [OF assms(1) put] assms(2) by (auto simp: records_Nil_iff)
  obtain ps' where f: "heap_inv w' ps'" "page_records (hw_page w') = []"
    "grows (ps @ [hw_page w1]) (ps' @ [hw_page w'])" "hw_lsn w' = hw_lsn w1" "ps' = ps @ [hw_page w1]"
    using heap_flush_inv [OF p(1)] p(6) unfolding w' by metis
  then show ?thesis using p grows_trans [OF p(2) f(3)] by auto
qed

lemma overflow_steps_inv:
  assumes "res_fold (overflow_step t k) (enumerate m cs) w = Inr w'" "heap_inv w ps" "page_records (hw_page w) = []"
  shows "\<exists>qs. heap_inv w' (ps @ qs) \<and> page_records (hw_page w') = [] \<and> hw_lsn w' = hw_lsn w \<and>
    grows (ps @ [hw_page w]) ((ps @ qs) @ [hw_page w']) \<and> length qs = length cs \<and>
    (\<forall>i < length cs. page_get (qs ! i) 0 = Some (overflow_record t k (m + i) (cs ! i)))"
  using assms
proof (induction cs arbitrary: m w ps)
  case (Cons c cs)
  obtain w1 where w1: "overflow_step t k (m, c) w = Inr w1"
    "res_fold (overflow_step t k) (enumerate (Suc m) cs) w1 = Inr w'"
    using Cons.prems(1) by (auto simp: res_simps)
  obtain p where p: "heap_inv w1 (ps @ [p])" "page_records (hw_page w1) = []" "hw_lsn w1 = hw_lsn w"
    "grows (ps @ [hw_page w]) ((ps @ [p]) @ [hw_page w1])" "page_get p 0 = Some (overflow_record t k m c)"
    using overflow_step_inv [OF Cons.prems(2,3) w1(1)] by blast
  obtain qs where q: "heap_inv w' ((ps @ [p]) @ qs)" "page_records (hw_page w') = []" "hw_lsn w' = hw_lsn w1"
    "grows ((ps @ [p]) @ [hw_page w1]) (((ps @ [p]) @ qs) @ [hw_page w'])" "length qs = length cs"
    "\<forall>i < length cs. page_get (qs ! i) 0 = Some (overflow_record t k (Suc m + i) (cs ! i))"
    using Cons.IH [OF w1(2) p(1,2)] by blast
  have "\<forall>i < length (c # cs). page_get ((p # qs) ! i) 0 = Some (overflow_record t k (m + i) ((c # cs) ! i))"
    using p(5) q(6) by (auto simp: less_Suc_eq_0_disj)
  then show ?case
    using q(1-3,5) p(3) grows_trans [OF p(4) q(4)] by (intro exI [of _ "p # qs"]) simp
qed auto

lemma of_nat_slot: "record_count p < 65536"
  using unat_less_u16 [of "read_u16 p COUNT_OFFSET"] by (simp add: record_count_def)

text \<open>Appending stores the record at the returned location and keeps everything stored before.\<close>

lemma heap_append_inv:
  assumes "heap_inv w ps" "heap_append bs w = Inr (l, w')"
  shows "\<exists>ps'. heap_inv w' ps' \<and> hw_lsn w' = hw_lsn w \<and>
    grows (ps @ [hw_page w]) (ps' @ [hw_page w']) \<and> heap_stored (ps' @ [hw_page w']) l bs"
proof -
  have max: "length bs \<le> MAX_RECORD" using assms(2) by (auto simp: heap_append_def split: if_splits)
  obtain fs where f: "heap_inv (heap_flush w) fs" "page_records (hw_page (heap_flush w)) = []"
    "grows (ps @ [hw_page w]) (fs @ [hw_page (heap_flush w)])" "hw_lsn (heap_flush w) = hw_lsn w"
    using heap_flush_inv [OF assms(1)] by metis
  show ?thesis
  proof (cases "length bs < MAX_RECORD_SIZE")
    case True
    define v where "v = (if free_space (hw_page w) < length (0 # bs) + 4 then heap_flush w else w)"
    obtain slot where put: "heap_put (0 # bs) v = Inr (slot, w')"
      and l: "l = push_bit 16 (page_id (hw_page w')) OR of_nat slot"
      using assms(2) True by (auto simp: heap_append_def v_def Let_def res_simps split: if_splits)
    obtain qs where q: "heap_inv v qs" "grows (ps @ [hw_page w]) (qs @ [hw_page v])" "hw_lsn v = hw_lsn w"
      using f assms(1) unfolding v_def by (cases "free_space (hw_page w) < length (0 # bs) + 4") auto
    note p = heap_put_inv [OF q(1) put]
    have "slot < 65536" using p of_nat_slot [of "hw_page v"] by simp
    moreover have "page_id (hw_page w') = of_nat (length qs)" using p by (simp add: heap_inv_def page_of_def)
    moreover have "holds_inline (qs @ [hw_page w']) (length qs) slot bs"
      using p by (auto simp: holds_inline_def)
    ultimately have "heap_stored (qs @ [hw_page w']) l bs"
      unfolding heap_stored_def l by metis
    then show ?thesis using p q(3) grows_trans [OF q(2)] by (metis (no_types, lifting))
  next
    case False
    let ?w = "heap_flush w"
    have steps: "res_fold (overflow_step (length bs) (overflow_count bs))
        (enumerate 0 (chunks (MAX_RECORD_SIZE - 13) bs)) ?w = Inr w'"
      and l: "l = push_bit 16 (page_id (hw_page ?w))"
      using assms(2) False by (auto simp: heap_append_def overflow_count_def Let_def res_simps split: if_splits)
    obtain qs where q: "heap_inv w' (fs @ qs)" "hw_lsn w' = hw_lsn ?w"
      "grows (fs @ [hw_page ?w]) ((fs @ qs) @ [hw_page w'])" "length qs = length (chunks (MAX_RECORD_SIZE - 13) bs)"
      "\<forall>i < length (chunks (MAX_RECORD_SIZE - 13) bs). page_get (qs ! i) 0 = Some (fragment bs i)"
      using overflow_steps_inv [OF steps f(1,2)] by (auto simp: fragment_def)
    have "length (chunks (MAX_RECORD_SIZE - 13) bs) = overflow_count bs"
      unfolding overflow_count_def by (rule length_chunks) (simp add: page_consts)
    then have "holds_chain ((fs @ qs) @ [hw_page w']) (length fs) (overflow_count bs) bs"
      using q(4,5) by (auto simp: holds_chain_def nth_append)
    moreover have "page_id (hw_page ?w) = of_nat (length fs)" using f by (simp add: heap_inv_def page_of_def)
    ultimately have "heap_stored ((fs @ qs) @ [hw_page w']) l bs"
      unfolding heap_stored_def l using False max
      by (intro exI [of _ "length fs"] exI [of _ 0]) simp
    then show ?thesis using q f(4) grows_trans [OF f(3) q(3)] by metis
  qed
qed

text \<open>Finishing writes the last page; nothing that was stored is lost.\<close>

lemma heap_finish_stored:
  assumes "heap_inv w ps"
  obtains qs where "heap_finish w = concat qs" "\<forall>i < length qs. page_of (hw_lsn w) i (qs ! i)"
    "\<And>l bs. heap_stored (ps @ [hw_page w]) l bs \<Longrightarrow> heap_stored qs l bs"
proof -
  obtain qs where q: "heap_inv (heap_flush w) qs" "page_records (hw_page (heap_flush w)) = []"
    "grows (ps @ [hw_page w]) (qs @ [hw_page (heap_flush w)])" "hw_lsn (heap_flush w) = hw_lsn w"
    using heap_flush_inv [OF assms] by metis
  let ?e = "hw_page (heap_flush w)"
  have none: "page_get ?e s = None" for s
    using q(2) by (simp add: page_get_records)
  have last: "n < length qs \<and> page_get (qs ! n) s = Some r"
    if "n < length (qs @ [?e])" "page_get ((qs @ [?e]) ! n) s = Some r" for n s r
    using that none by (cases "n < length qs") (auto simp: nth_append split: if_splits)
  have "heap_stored qs l bs" if "heap_stored (ps @ [hw_page w]) l bs" for l bs
  proof -
    have "heap_stored (qs @ [?e]) l bs" by (rule heap_stored_grows [OF that q(3)])
    then obtain n s where l: "l = push_bit 16 (of_nat n) OR of_nat s" "s < 65536"
      and h: "holds_inline (qs @ [?e]) n s bs \<or> (s = 0 \<and> MAX_RECORD_SIZE \<le> length bs \<and>
        length bs \<le> MAX_RECORD \<and> holds_chain (qs @ [?e]) n (overflow_count bs) bs)"
      unfolding heap_stored_def by blast
    have "holds_inline (qs @ [?e]) n s bs \<Longrightarrow> holds_inline qs n s bs"
      unfolding holds_inline_def using last by blast
    moreover have "holds_chain qs n (overflow_count bs) bs"
      if "holds_chain (qs @ [?e]) n (overflow_count bs) bs" "MAX_RECORD_SIZE \<le> length bs"
    proof -
      have c: "\<And>i. i < overflow_count bs \<Longrightarrow> n + i < length qs \<and> page_get (qs ! (n + i)) 0 = Some (fragment bs i)"
        using that(1) last unfolding holds_chain_def by (meson add_less_cancel_left less_le_trans)
      have pos: "0 < overflow_count bs" by (rule overflow_count_pos [OF that(2)])
      then have "n + (overflow_count bs - 1) < length qs" using c [of "overflow_count bs - 1"] by simp
      then have "n + overflow_count bs \<le> length qs" using pos by linarith
      with c show ?thesis unfolding holds_chain_def by auto
    qed
    ultimately show ?thesis using l h unfolding heap_stored_def by blast
  qed
  moreover have "heap_finish w = concat qs" "\<forall>i < length qs. page_of (hw_lsn w) i (qs ! i)"
    using q by (simp_all add: heap_finish_def heap_inv_def)
  ultimately show ?thesis using that by blast
qed

section \<open>Reading back\<close>

lemma concat_pages:
  assumes "\<forall>i < length ps. length (ps ! i) = k" "n < length ps"
  shows "take k (drop (n * k) (concat ps)) = ps ! n \<and> n * k + k \<le> length (concat ps)"
  using assms
proof (induction ps arbitrary: n)
  case (Cons p ps)
  have p: "length p = k" using Cons.prems(1) by (metis length_greater_0_conv list.simps(3) nth_Cons_0)
  have tl: "\<forall>i < length ps. length (ps ! i) = k" using Cons.prems(1) by (metis Suc_less_eq length_Cons nth_Cons_Suc)
  show ?case
  proof (cases n)
    case (Suc m)
    then show ?thesis using Cons.IH [OF tl, of m] Cons.prems(2) p by (simp add: add.commute)
  qed (simp add: p)
qed simp

definition heap_holds :: "store \<Rightarrow> file_id \<Rightarrow> u64 \<Rightarrow> bytes list \<Rightarrow> bool" where
  "heap_holds st f lsn ps = (st_disk st f = Some (concat ps) \<and> length (concat ps) < 2 ^ 60 \<and>
     (\<forall>i < length ps. page_of lsn i (ps ! i)))"

lemma heap_read_page_holds:
  assumes "heap_holds st f lsn ps" "n < length ps"
  shows "heap_read_page st f (of_nat n) lsn = Inr (ps ! n) \<and> n < 2 ^ 47"
proof -
  have len: "\<forall>i < length ps. length (ps ! i) = 8192"
    using assms(1) by (auto simp: heap_holds_def page_of_def length_valid page_consts)
  note c = concat_pages [OF len assms(2)]
  have n: "n * 8192 + 8192 < 2 ^ 60" using c assms(1) by (simp add: heap_holds_def)
  then have u: "unat (of_nat n :: u64) = n" by (simp add: unat_of_nat)
  have p: "page_of lsn n (ps ! n)" using assms by (simp add: heap_holds_def)
  then have "heap_decode (of_nat n) (ps ! n) = Inr (ps ! n)"
    by (simp add: heap_decode_def page_err_def page_of_def page_valid_def)
  then have "page_direct (st_disk st) (heap_decode (of_nat n)) f (of_nat n) = Inr (ps ! n)"
    using c n assms(1)
    by (simp add: page_direct_def page_at_def heap_holds_def u usize_checked_mul_def read_exact_at_def PAGE_SIZE_def)
  then show ?thesis using p n by (simp add: heap_read_page_def page_of_def)
qed

lemma location_parts:
  assumes "n < 2 ^ 48" "s < 65536"
  shows "drop_bit 16 (push_bit 16 (of_nat n) OR of_nat s :: u64) = of_nat n"
    "unat (ucast (push_bit 16 (of_nat n) OR of_nat s :: u64) :: u16) = s"
proof -
  have n: "\<not> bit n i" if "48 \<le> i" for i
  proof -
    have "(2 :: nat) ^ 48 \<le> 2 ^ i" using that by (intro power_increasing) auto
    then show ?thesis using assms(1) by (simp add: bit_iff_odd)
  qed
  have s: "\<not> bit s i" if "16 \<le> i" for i
  proof -
    have "(2 :: nat) ^ 16 \<le> 2 ^ i" using that by (intro power_increasing) auto
    then show ?thesis using assms(2) by (simp add: bit_iff_odd)
  qed
  show "drop_bit 16 (push_bit 16 (of_nat n) OR of_nat s :: u64) = of_nat n"
    by (rule bit_word_eqI) (use n s in \<open>auto simp: bit_simps not_less [symmetric]\<close>)
  have "(ucast (push_bit 16 (of_nat n) OR of_nat s :: u64) :: u16) = of_nat s"
    by (rule bit_word_eqI) (use n s in \<open>auto simp: bit_simps\<close>)
  then show "unat (ucast (push_bit 16 (of_nat n) OR of_nat s :: u64) :: u16) = s"
    using assms(2) by (simp add: unat_of_nat)
qed

lemma fragment_slices:
  assumes "length bs \<le> MAX_RECORD" "i < overflow_count bs"
  shows "13 \<le> length (fragment bs i)" "fragment bs i ! 0 = 1" "slice 1 4 (fragment bs i) = le32 (of_nat (length bs))"
    "slice 9 4 (fragment bs i) = le32 (of_nat (overflow_count bs))" "slice 5 4 (fragment bs i) = le32 (of_nat i)"
    "drop 13 (fragment bs i) = chunks (MAX_RECORD_SIZE - 13) bs ! i"
    "slice 1 12 (fragment bs i) = le32 (of_nat (length bs)) @ le32 (of_nat i) @ le32 (of_nat (overflow_count bs))"
  by (simp_all add: fragment_def overflow_record_def slice_def drop_append)

lemma unat_u32: "n < 2 ^ 32 \<Longrightarrow> unat (of_nat n :: u32) = n"
  by (simp add: unat_of_nat)

lemma overflow_bounds:
  assumes "length bs \<le> MAX_RECORD"
  shows "length bs < 2 ^ 32" "overflow_count bs < 2 ^ 32"
  using assms by (auto simp: overflow_count_def div_ceil_def MAX_RECORD_def page_consts)

lemma overflow_read:
  assumes "heap_holds st f lsn ps" "holds_chain ps n (overflow_count bs) bs" "length bs \<le> MAX_RECORD"
    "k \<le> overflow_count bs" "0 < overflow_count bs"
  shows "res_fold (overflow_fragment st f (of_nat n) lsn (slice 1 12 (fragment bs 0)) (length bs)) [0..<k] [] =
    Inr (concat (take k (chunks (MAX_RECORD_SIZE - 13) bs)))"
  using assms(4)
proof (induction k)
  case (Suc k)
  let ?cs = "chunks (MAX_RECORD_SIZE - 13) bs"
  have k: "k < overflow_count bs" using Suc.prems by simp
  have len: "length ?cs = overflow_count bs"
    unfolding overflow_count_def by (rule length_chunks) (simp add: page_consts)
  have nk: "n + k < length ps" "page_get (ps ! (n + k)) 0 = Some (fragment bs k)"
    using assms(2) k by (simp_all add: holds_chain_def)
  have rd: "heap_read_page st f (of_nat n + of_nat k) lsn = Inr (ps ! (n + k))"
    using heap_read_page_holds [OF assms(1) nk(1)] by simp
  have "length (concat (take (Suc k) ?cs)) \<le> length (concat ?cs)"
    by (metis append_take_drop_id concat_append le_add1 length_append)
  then have fit: "length (concat (take k ?cs)) + length (?cs ! k) \<le> length bs"
    using k len by (simp add: concat_chunks page_consts take_Suc_conv_app_nth)
  have idx: "unat (of_nat k :: u32) = k" using k overflow_bounds(2) [OF assms(3)] by (intro unat_u32) simp
  note fr = fragment_slices [OF assms(3) k]
  have hd: "take 4 (slice 1 12 (fragment bs 0)) = le32 (of_nat (length bs))"
    "drop 8 (slice 1 12 (fragment bs 0)) = le32 (of_nat (overflow_count bs))"
    unfolding fragment_slices(7) [OF assms(3,5)] by simp_all
  have "length (fragment bs k) - 13 = length (?cs ! k)" using arg_cong [OF fr(6), of length] by simp
  then have "overflow_fragment st f (of_nat n) lsn (slice 1 12 (fragment bs 0)) (length bs) k (concat (take k ?cs)) =
      Inr (concat (take (Suc k) ?cs))"
    using fr hd fit k len by (simp add: overflow_fragment_def rd nk(2) idx take_Suc_conv_app_nth)
  then show ?case using Suc by simp
qed simp

lemma heap_read_stored:
  assumes "heap_holds st f lsn ps" "heap_stored ps l bs" "st_scratch st (length bs) = Inr ()"
  shows "heap_read st f l lsn = Inr bs"
proof -
  obtain n s where l: "l = push_bit 16 (of_nat n) OR of_nat s" "s < 65536"
    and h: "holds_inline ps n s bs \<or> (s = 0 \<and> MAX_RECORD_SIZE \<le> length bs \<and>
      length bs \<le> MAX_RECORD \<and> holds_chain ps n (overflow_count bs) bs)"
    using assms(2) unfolding heap_stored_def by blast
  from h show ?thesis
  proof
    assume i: "holds_inline ps n s bs"
    then have n: "n < length ps" by (simp add: holds_inline_def)
    note r = heap_read_page_holds [OF assms(1) n]
    have "n < 2 ^ 48" using r by simp
    note lp = location_parts [OF this l(2), folded l(1)]
    show ?thesis using i r assms(3) by (simp add: heap_read_def lp holds_inline_def Let_def)
  next
    assume c: "s = 0 \<and> MAX_RECORD_SIZE \<le> length bs \<and> length bs \<le> MAX_RECORD \<and> holds_chain ps n (overflow_count bs) bs"
    then have max: "length bs \<le> MAX_RECORD" and pos: "0 < overflow_count bs"
      using overflow_count_pos by auto
    then have n: "n < length ps" and g: "page_get (ps ! n) 0 = Some (fragment bs 0)"
      using c by (auto simp: holds_chain_def)
    note r = heap_read_page_holds [OF assms(1) n]
    have "n < 2 ^ 48" using r by simp
    note lp = location_parts [OF this l(2), folded l(1)]
    note fr = fragment_slices [OF max pos] and ob = overflow_bounds [OF max]
    obtain t where t: "fragment bs 0 = 1 # t" using fr(1,2) by (cases "fragment bs 0") auto
    have "res_fold (overflow_fragment st f (of_nat n) lsn (slice 1 12 (fragment bs 0)) (length bs))
        [0..<overflow_count bs] [] = Inr bs"
      using overflow_read [OF assms(1) _ max order_refl pos, of n] c
        length_chunks [of "MAX_RECORD_SIZE - 13" bs] by (simp add: concat_chunks overflow_count_def page_consts)
    moreover have "unat (from_le32 (slice 1 4 (fragment bs 0))) = length bs"
      "unat (from_le32 (slice 9 4 (fragment bs 0))) = overflow_count bs"
      unfolding fr(3,4) using ob by (simp_all add: unat_u32)
    ultimately show ?thesis using c r g assms(3) fr(1) t
      by (simp add: heap_read_def lp Let_def overflow_count_def)
  qed
qed

section \<open>A whole heap file\<close>

fun heap_append_all :: "bytes list \<Rightarrow> heap_writer \<Rightarrow> (u64 list \<times> heap_writer) res" where
  "heap_append_all [] w = Inr ([], w)"
| "heap_append_all (bs # recs) w = res_bind (heap_append bs w) (\<lambda>(l, w).
     res_bind (heap_append_all recs w) (\<lambda>(ls, w). Inr (l # ls, w)))"

lemma heap_append_all_inv:
  assumes "heap_append_all recs w = Inr (ls, w')" "heap_inv w ps"
  shows "\<exists>ps'. heap_inv w' ps' \<and> hw_lsn w' = hw_lsn w \<and> grows (ps @ [hw_page w]) (ps' @ [hw_page w']) \<and>
    list_all2 (heap_stored (ps' @ [hw_page w'])) ls recs"
  using assms
proof (induction recs arbitrary: w ls ps)
  case (Cons bs recs)
  obtain l w1 ls1 where a: "heap_append bs w = Inr (l, w1)" "heap_append_all recs w1 = Inr (ls1, w')" "ls = l # ls1"
    using Cons.prems(1) by (auto simp: res_simps)
  obtain p1 where p1: "heap_inv w1 p1" "hw_lsn w1 = hw_lsn w" "grows (ps @ [hw_page w]) (p1 @ [hw_page w1])"
    "heap_stored (p1 @ [hw_page w1]) l bs"
    using heap_append_inv [OF Cons.prems(2) a(1)] by blast
  obtain p2 where p2: "heap_inv w' p2" "hw_lsn w' = hw_lsn w1" "grows (p1 @ [hw_page w1]) (p2 @ [hw_page w'])"
    "list_all2 (heap_stored (p2 @ [hw_page w'])) ls1 recs"
    using Cons.IH [OF a(2) p1(1)] by blast
  show ?case
    using p1 p2 heap_stored_grows [OF p1(4) p2(3)] grows_trans [OF p1(3) p2(3)] by (auto simp: a(3))
qed auto

lemma heap_file_stored:
  assumes "heap_append_all recs (heap_create lsn) = Inr (ls, w)" "st_disk st f = Some (heap_finish w)"
    "length (heap_finish w) < 2 ^ 60"
  obtains qs where "heap_holds st f lsn qs" "list_all2 (heap_stored qs) ls recs"
proof -
  obtain ps where p: "heap_inv w ps" "hw_lsn w = lsn" "list_all2 (heap_stored (ps @ [hw_page w])) ls recs"
    using heap_append_all_inv [OF assms(1) heap_create_inv] by (auto simp: heap_create_def)
  obtain qs where q: "heap_finish w = concat qs" "\<forall>i < length qs. page_of (hw_lsn w) i (qs ! i)"
    "\<And>l bs. heap_stored (ps @ [hw_page w]) l bs \<Longrightarrow> heap_stored qs l bs"
    using heap_finish_stored [OF p(1)] by metis
  have "heap_holds st f lsn qs" using q(1,2) p(2) assms(2,3) by (simp add: heap_holds_def)
  moreover have "list_all2 (heap_stored qs) ls recs"
    by (rule list_all2_mono [OF p(3)]) (rule q(3))
  ultimately show ?thesis using that by blast
qed

text \<open>A first short record always fits.\<close>

lemma heap_append_first:
  assumes "length bs + 9 \<le> MAX_RECORD_SIZE"
  shows "\<exists>w. heap_append bs (heap_create lsn) = Inr (0, w) \<and> length (heap_finish w) = 8192"
proof -
  let ?p = "set_lsn lsn (page_new 0)"
  have v: "page_valid ?p" "page_records ?p = []" "page_id ?p = 0"
    using fresh_page [of lsn 0] by (simp_all add: page_of_def)
  have free: "free_space ?p = 8152"
    using free_space_valid [OF v(1)] v(2) by (simp add: page_used_def page_consts)
  have "\<not> (\<exists>e. page_insert ?p (0 # bs) = Inl e)"
    using page_insert_Inl [OF v(1), of "0 # bs"] assms by (auto simp: v(2) page_used_def slot_len_def page_consts)
  then obtain s p where p: "page_insert ?p (0 # bs) = Inr (s, p)" by (cases "page_insert ?p (0 # bs)") auto
  note ins = page_insert_Inr [OF v(1) p]
  let ?w = "heap_create lsn\<lparr>hw_page := p\<rparr>"
  have "\<not> page_id ?p \<ge> PAGE_LIMIT" using v(3) by (simp add: PAGE_LIMIT_def word_le_nat_alt)
  then have "heap_append bs (heap_create lsn) = Inr (0, ?w)"
    using p assms free ins v(2,3) by (simp add: heap_append_def heap_create_def heap_put_def page_err_def Let_def
        MAX_RECORD_def page_consts)
  moreover have "record_count p \<noteq> 0" using ins records_Nil_iff [of p] by simp
  then have "length (heap_finish ?w) = 8192"
    using ins by (simp add: heap_finish_def heap_flush_def heap_create_def length_valid page_consts)
  ultimately show ?thesis by blast
qed

text \<open>
  C18 (heap_roundtrip): every record appended to a heap file, inline or as an overflow chain, is read
  back unchanged at the location that append returned, once the file is finished and published.
\<close>

theorem heap_roundtrip:
  assumes "heap_append_all recs (heap_create lsn) = Inr (ls, w)"
    and "st_disk st f = Some (heap_finish w)" "length (heap_finish w) < 2 ^ 60"
    and "\<And>n. st_scratch st n = Inr ()"
  shows "list_all2 (\<lambda>l bs. heap_read st f l lsn = Inr bs) ls recs"
proof -
  obtain qs where "heap_holds st f lsn qs" "list_all2 (heap_stored qs) ls recs"
    using heap_file_stored [OF assms(1-3)] by blast
  then show ?thesis using heap_read_stored assms(4) by (auto elim!: list_all2_mono)
qed

lemma heap_roundtrip_witness:
  "\<exists>l w. heap_append_all [[1, 2, 3]] (heap_create 7) = Inr ([l], w) \<and>
     heap_read (open_store (\<lambda>_. Some (heap_finish w)))
       (file_id_new 1 1 0 0) l 7 = Inr [1, 2, 3]"
proof -
  obtain w where w: "heap_append [1, 2, 3] (heap_create 7) = Inr (0, w)" "length (heap_finish w) = 8192"
    using heap_append_first [of "[1, 2, 3]" 7] by (auto simp: page_consts)
  then have "heap_append_all [[1, 2, 3]] (heap_create 7) = Inr ([0], w)" by simp
  moreover from heap_roundtrip [OF this, of "(open_store (\<lambda>_. Some (heap_finish w)))" "file_id_new 1 1 0 0"]
  have "heap_read (open_store (\<lambda>_. Some (heap_finish w)))
      (file_id_new 1 1 0 0) 0 7 = Inr [1, 2, 3]"
    using w(2) by simp
  ultimately show ?thesis by blast
qed

end
