(* ===== verification/Index_Node.thy ===== *)
theory Index_Node
  imports Heap "HOL-Library.Product_Lexorder"
begin

text \<open>
  Models the pages of \<^verbatim>\<open>storage/index.rs\<close>: the layout that \<^verbatim>\<open>page\<close>, \<^verbatim>\<open>put\<close> and \<^verbatim>\<open>write\<close> produce, the
  validation of \<^verbatim>\<open>Node::decode\<close>, the accessors and the binary search of a node. A key and a value
  are pairs of integers, ordered lexicographically. The laws: a written leaf or branch decodes to
  itself, its accessors return what was written, and the search finds the lower bound.
\<close>

section \<open>Constants and types\<close>

type_synonym index_key = "u64 \<times> u64"
type_synonym index_value = "u64 \<times> u64"

definition INDEX_HEADER :: nat where "INDEX_HEADER = 40"
definition LEAF_WIDTH :: nat where "LEAF_WIDTH = 32"
definition BRANCH_WIDTH :: nat where "BRANCH_WIDTH = 24"
definition LEAF_CAPACITY :: nat where "LEAF_CAPACITY = (PAGE_SIZE - INDEX_HEADER) div LEAF_WIDTH"
definition BRANCH_CAPACITY :: nat where "BRANCH_CAPACITY = (PAGE_SIZE - INDEX_HEADER) div BRANCH_WIDTH"

lemmas index_consts = INDEX_HEADER_def LEAF_WIDTH_def BRANCH_WIDTH_def LEAF_CAPACITY_def BRANCH_CAPACITY_def
  PAGE_SIZE_def

section \<open>Writing pages\<close>

definition put_u64 :: "nat \<Rightarrow> u64 \<Rightarrow> bytes \<Rightarrow> bytes" where
  "put_u64 at v bs = put at (le64 v) bs"

definition get_u64 :: "bytes \<Rightarrow> nat \<Rightarrow> u64" where
  "get_u64 bs at = from_le64 (slice at 8 bs)"

definition index_page :: "u16 \<Rightarrow> u64 \<Rightarrow> u64 \<Rightarrow> nat \<Rightarrow> u64 \<Rightarrow> bytes" where
  "index_page kind pid lsn count link =
     put_u64 32 link
     (put 24 (le16 (of_nat count))
     (put_u64 16 lsn
     (put_u64 8 pid
     (put 6 (le16 kind)
     (put 4 (le16 1)
     (put 0 (ascii ''EVIX'') (replicate PAGE_SIZE 0)))))))"

text \<open>\<^verbatim>\<open>write\<close>: the checksum is of the page with a zero checksum field.\<close>

definition index_seal :: "bytes \<Rightarrow> bytes" where
  "index_seal bs = put 28 (le32 (crc32c bs)) bs"

definition put_leaf_entry :: "nat \<times> index_key \<times> index_value \<Rightarrow> bytes \<Rightarrow> bytes" where
  "put_leaf_entry ikv bs = (case ikv of (i, (k0, k1), (v0, v1)) \<Rightarrow>
     let at = INDEX_HEADER + i * LEAF_WIDTH in
     put_u64 (at + 24) v1 (put_u64 (at + 16) v0 (put_u64 (at + 8) k1 (put_u64 at k0 bs))))"

definition leaf_page :: "u64 \<Rightarrow> u64 \<Rightarrow> (index_key \<times> index_value) list \<Rightarrow> u64 \<Rightarrow> bytes" where
  "leaf_page pid lsn es link = fold put_leaf_entry (enumerate 0 es) (index_page 1 pid lsn (length es) link)"

definition put_branch_entry :: "nat \<times> index_key \<times> u64 \<Rightarrow> bytes \<Rightarrow> bytes" where
  "put_branch_entry ikc bs = (case ikc of (i, (k0, k1), c) \<Rightarrow>
     let at = INDEX_HEADER + i * BRANCH_WIDTH in
     put_u64 (at + 16) c (put_u64 (at + 8) k1 (put_u64 at k0 bs)))"

definition branch_page :: "u64 \<Rightarrow> u64 \<Rightarrow> (index_key \<times> u64) list \<Rightarrow> bytes" where
  "branch_page pid lsn cs = fold put_branch_entry (enumerate 0 cs) (index_page 2 pid lsn (length cs) 0)"

definition meta_page :: "u64 \<Rightarrow> u64 \<Rightarrow> u64 \<Rightarrow> u64 \<Rightarrow> bytes" where
  "meta_page pid lsn count root = put_u64 40 count (index_page 0 pid lsn 0 root)"

section \<open>Reading nodes\<close>

definition node_kind :: "bytes \<Rightarrow> u16" where
  "node_kind n = from_le16 (slice 6 2 n)"

definition node_count :: "bytes \<Rightarrow> nat" where
  "node_count n = unat (from_le16 (slice 24 2 n))"

definition node_lsn :: "bytes \<Rightarrow> u64" where
  "node_lsn n = get_u64 n 16"

definition node_next :: "bytes \<Rightarrow> u64" where
  "node_next n = get_u64 n 32"

definition node_width :: "bytes \<Rightarrow> nat" where
  "node_width n = (if node_kind n = 1 then LEAF_WIDTH else BRANCH_WIDTH)"

definition node_key :: "bytes \<Rightarrow> nat \<Rightarrow> index_key" where
  "node_key n i = (let at = INDEX_HEADER + i * node_width n in (get_u64 n at, get_u64 n (at + 8)))"

definition node_value :: "bytes \<Rightarrow> nat \<Rightarrow> index_value" where
  "node_value n i = (let at = INDEX_HEADER + i * LEAF_WIDTH in (get_u64 n (at + 16), get_u64 n (at + 24)))"

definition node_child :: "bytes \<Rightarrow> nat \<Rightarrow> u64" where
  "node_child n i = get_u64 n (INDEX_HEADER + i * BRANCH_WIDTH + 16)"

definition check_node_entry :: "u64 \<Rightarrow> bytes \<Rightarrow> nat \<Rightarrow> index_key option \<Rightarrow> index_key option res" where
  "check_node_entry expected_id n i previous =
     (let key = node_key n i in
      if (case previous of None \<Rightarrow> False | Some p \<Rightarrow> p \<ge> key) then Inl (Corrupt ''unordered index node'')
      else if node_kind n = 2 \<and> (node_child n i = 0 \<or> node_child n i \<ge> expected_id)
      then Inl (Corrupt ''invalid index child'')
      else Inr (Some key))"

definition node_decode :: "u64 \<Rightarrow> bytes \<Rightarrow> bytes res" where
  "node_decode expected_id page =
     (let expected = from_le32 (slice 28 4 page);
          n = put 28 [0, 0, 0, 0] page in
      if slice 0 4 n \<noteq> ascii ''EVIX'' \<or> slice 4 2 n \<noteq> le16 1 \<or> get_u64 n 8 \<noteq> expected_id \<or>
         slice 26 2 n \<noteq> [0, 0] \<or> crc32c n \<noteq> expected
      then Inl (Corrupt ''invalid index page header or checksum'')
      else if node_kind n = 0 \<and> node_count n = 0 \<and> (node_next n = 0 \<or> node_next n > expected_id)
      then Inr n
      else if node_kind n \<noteq> 1 \<and> node_kind n \<noteq> 2 then Inl (Corrupt ''invalid index node kind'')
      else if node_count n = 0 \<or> node_count n > (PAGE_SIZE - INDEX_HEADER) div node_width n
      then Inl (Corrupt ''invalid index node count'')
      else res_bind (res_fold (check_node_entry expected_id n) [0..<node_count n] None) (\<lambda>_.
        if node_kind n = 1 \<and> node_next n \<noteq> 0 \<and> node_next n \<le> expected_id
        then Inl (Corrupt ''cyclic index leaf chain'') else Inr n))"

text \<open>\<^verbatim>\<open>while low < high\<close> of the binary search.\<close>

function lower_bound_loop :: "bytes \<Rightarrow> index_key \<Rightarrow> nat \<Rightarrow> nat \<Rightarrow> nat" where
  "lower_bound_loop n key low high =
     (if low < high then
        (let middle = low + (high - low) div 2 in
         if node_key n middle < key then lower_bound_loop n key (middle + 1) high
         else lower_bound_loop n key low middle)
      else low)"
  by pat_completeness auto
termination by (relation "measure (\<lambda>(n, key, low, high). high - low)") auto

declare lower_bound_loop.simps [simp del]

definition node_lower_bound :: "bytes \<Rightarrow> index_key \<Rightarrow> nat" where
  "node_lower_bound n key = lower_bound_loop n key 0 (node_count n)"

definition node_floor_index :: "bytes \<Rightarrow> index_key \<Rightarrow> nat option" where
  "node_floor_index n key = (let i = node_lower_bound n key in
     if i < node_count n \<and> node_key n i = key then Some i
     else if i = 0 then None else Some (i - 1))"

section \<open>The layout of a written page\<close>

definition index_header :: "u16 \<Rightarrow> u64 \<Rightarrow> u64 \<Rightarrow> nat \<Rightarrow> u64 \<Rightarrow> bytes" where
  "index_header kind pid lsn count link = ascii ''EVIX'' @ le16 1 @ le16 kind @ le64 pid @ le64 lsn @
     le16 (of_nat count) @ replicate 6 0 @ le64 link"

lemma length_index_header [simp]: "length (index_header k p l c n) = 40"
  by (simp add: index_header_def)

lemma put_zeros:
  "length A = at \<Longrightarrow> length xs \<le> n \<Longrightarrow> put at xs (A @ replicate n 0) = A @ xs @ replicate (n - length xs) (0 :: u8)"
  by (simp add: put_def)

lemma put_u64_zeros:
  "length A = at \<Longrightarrow> 8 \<le> n \<Longrightarrow> put_u64 at v (A @ replicate n 0) = (A @ le64 v) @ replicate (n - 8) (0 :: u8)"
  by (simp add: put_u64_def put_zeros)

lemma index_page_layout: "index_page k p l c n = index_header k p l c n @ replicate 8152 0"
proof -
  have "put 0 (ascii ''EVIX'') (replicate 8192 0) = ascii ''EVIX'' @ replicate 8188 (0 :: u8)"
    using put_zeros [of "[]" 0 "ascii ''EVIX''" 8192] by simp
  moreover have "put 4 (le16 1) (ascii ''EVIX'' @ replicate 8188 0) = (ascii ''EVIX'' @ le16 1) @ replicate 8186 0"
    by (subst put_zeros) simp_all
  moreover have "put 6 (le16 k) ((ascii ''EVIX'' @ le16 1) @ replicate 8186 0) = (ascii ''EVIX'' @ le16 1 @ le16 k) @ replicate 8184 0"
    by (subst put_zeros) simp_all
  moreover have "put_u64 8 p ((ascii ''EVIX'' @ le16 1 @ le16 k) @ replicate 8184 0) =
      (ascii ''EVIX'' @ le16 1 @ le16 k @ le64 p) @ replicate 8176 0"
    by (subst put_u64_zeros) simp_all
  moreover have "put_u64 16 l ((ascii ''EVIX'' @ le16 1 @ le16 k @ le64 p) @ replicate 8176 0) =
      (ascii ''EVIX'' @ le16 1 @ le16 k @ le64 p @ le64 l) @ replicate 8168 0"
    by (subst put_u64_zeros) simp_all
  moreover have "put 24 (le16 (of_nat c)) ((ascii ''EVIX'' @ le16 1 @ le16 k @ le64 p @ le64 l) @ replicate 8168 0) =
      (ascii ''EVIX'' @ le16 1 @ le16 k @ le64 p @ le64 l @ le16 (of_nat c) @ replicate 6 0) @ replicate 8160 0"
    by (subst put_zeros) (simp_all add: replicate_add [symmetric])
  moreover have "put_u64 32 n ((ascii ''EVIX'' @ le16 1 @ le16 k @ le64 p @ le64 l @ le16 (of_nat c) @ replicate 6 0) @
      replicate 8160 0) = index_header k p l c n @ replicate 8152 0"
    by (subst put_u64_zeros) (simp_all add: index_header_def)
  ultimately show ?thesis by (simp add: index_page_def PAGE_SIZE_def)
qed

fun leaf_entry_bytes :: "index_key \<times> index_value \<Rightarrow> bytes" where
  "leaf_entry_bytes ((k0, k1), (v0, v1)) = le64 k0 @ le64 k1 @ le64 v0 @ le64 v1"

fun branch_entry_bytes :: "index_key \<times> u64 \<Rightarrow> bytes" where
  "branch_entry_bytes ((k0, k1), c) = le64 k0 @ le64 k1 @ le64 c"

lemma length_leaf_entry [simp]: "length (leaf_entry_bytes e) = 32"
  by (cases e rule: leaf_entry_bytes.cases) simp

lemma length_branch_entry [simp]: "length (branch_entry_bytes e) = 24"
  by (cases e rule: branch_entry_bytes.cases) simp

lemma length_concat_const: "(\<And>x. x \<in> set xs \<Longrightarrow> length (f x) = w) \<Longrightarrow> length (concat (map f xs)) = length xs * w"
  by (induction xs) auto

lemma put_leaf_zeros:
  assumes "length A = 40 + i * 32" "32 \<le> n"
  shows "put_leaf_entry (i, e) (A @ replicate n 0) = (A @ leaf_entry_bytes e) @ replicate (n - 32) 0"
proof -
  obtain k0 k1 v0 v1 where e: "e = ((k0, k1), (v0, v1))" by (cases e rule: leaf_entry_bytes.cases) auto
  show ?thesis using assms
    by (simp add: put_leaf_entry_def e index_consts put_u64_zeros append_assoc [symmetric] del: append_assoc)
qed

lemma put_branch_zeros:
  assumes "length A = 40 + i * 24" "24 \<le> n"
  shows "put_branch_entry (i, e) (A @ replicate n 0) = (A @ branch_entry_bytes e) @ replicate (n - 24) 0"
proof -
  obtain k0 k1 c where e: "e = ((k0, k1), c)" by (cases e rule: branch_entry_bytes.cases) auto
  show ?thesis using assms
    by (simp add: put_branch_entry_def e index_consts put_u64_zeros append_assoc [symmetric] del: append_assoc)
qed

text \<open>Writing the entries one after the other fills the zeros behind the header.\<close>

lemma put_entries_zeros:
  assumes step: "\<And>A i e n. length A = 40 + i * w \<Longrightarrow> w \<le> n \<Longrightarrow>
      put_entry (i, e) (A @ replicate n 0) = (A @ enc e) @ replicate (n - w) (0 :: u8)"
    and len: "\<And>e. length (enc e) = w"
  shows "length A = 40 + i * w \<Longrightarrow> length es * w \<le> n \<Longrightarrow>
    fold put_entry (enumerate i es) (A @ replicate n 0) = A @ concat (map enc es) @ replicate (n - length es * w) 0"
proof (induction es arbitrary: i A n)
  case (Cons e es)
  have "put_entry (i, e) (A @ replicate n 0) = (A @ enc e) @ replicate (n - w) 0"
    using Cons.prems by (intro step) simp_all
  moreover have "fold put_entry (enumerate (Suc i) es) ((A @ enc e) @ replicate (n - w) 0) =
      (A @ enc e) @ concat (map enc es) @ replicate (n - w - length es * w) 0"
    using Cons.prems by (intro Cons.IH) (simp_all add: len)
  ultimately show ?case by simp
qed simp

lemma leaf_page_layout:
  assumes "length es \<le> 254"
  shows "leaf_page p l es n = index_header 1 p l (length es) n @ concat (map leaf_entry_bytes es) @
    replicate (8152 - length es * 32) 0"
  using put_entries_zeros [of 32 put_leaf_entry leaf_entry_bytes "index_header 1 p l (length es) n" 0 es 8152]
    put_leaf_zeros assms by (simp add: leaf_page_def index_page_layout)

lemma branch_page_layout:
  assumes "length cs \<le> 339"
  shows "branch_page p l cs = index_header 2 p l (length cs) 0 @ concat (map branch_entry_bytes cs) @
    replicate (8152 - length cs * 24) 0"
  using put_entries_zeros [of 24 put_branch_entry branch_entry_bytes "index_header 2 p l (length cs) 0" 0 cs 8152]
    put_branch_zeros assms by (simp add: branch_page_def index_page_layout)

lemma meta_page_layout: "meta_page p l c r = index_header 0 p l 0 r @ le64 c @ replicate 8144 0"
  using put_u64_zeros [of "index_header 0 p l 0 r" 40 8152 c] by (simp add: meta_page_def index_page_layout)

section \<open>What a written page reads back as\<close>

lemma slice_append_left: "a + n \<le> length A \<Longrightarrow> slice a n (A @ B) = slice a n A"
  by (simp add: slice_def)

lemma slice_append_right: "length A \<le> a \<Longrightarrow> slice a n (A @ B) = slice (a - length A) n B"
  by (simp add: slice_def drop_append)

lemma index_header_slices:
  "slice 0 4 (index_header k p l c n) = ascii ''EVIX''"
  "slice 4 2 (index_header k p l c n) = le16 1"
  "slice 6 2 (index_header k p l c n) = le16 k"
  "slice 8 8 (index_header k p l c n) = le64 p"
  "slice 16 8 (index_header k p l c n) = le64 l"
  "slice 24 2 (index_header k p l c n) = le16 (of_nat c)"
  "slice 26 2 (index_header k p l c n) = [0, 0]"
  "slice 28 4 (index_header k p l c n) = [0, 0, 0, 0]"
  "slice 32 8 (index_header k p l c n) = le64 n"
  by (simp_all add: slice_def index_header_def drop_append take_append min_def numeral_eq_Suc)

text \<open>The header fields of any page that starts with a written header.\<close>

lemma header_fields:
  "node_kind (index_header k p l c n @ B) = k"
  "c < 65536 \<Longrightarrow> node_count (index_header k p l c n @ B) = c"
  "node_lsn (index_header k p l c n @ B) = l"
  "node_next (index_header k p l c n @ B) = n"
  "get_u64 (index_header k p l c n @ B) 8 = p"
  by (simp_all add: node_kind_def node_count_def node_lsn_def node_next_def get_u64_def slice_append_left
      index_header_slices unat_of_nat)

lemma slice_blocks:
  assumes len: "\<And>e. length (f e) = w" and "i < length es" "a + n \<le> w" "length H = h"
  shows "slice (h + i * w + a) n (H @ concat (map f es) @ Z) = slice a n (f (es ! i))"
proof -
  have split: "concat (map f es) = concat (map f (take i es)) @ f (es ! i) @ concat (map f (drop (Suc i) es))"
    using id_take_nth_drop [OF assms(2)] by (metis concat_append concat.simps(2) list.simps(9) map_append)
  have "length (concat (map f (take i es))) = i * w"
    using assms(2) by (simp add: length_concat_const len)
  then show ?thesis
    using assms by (simp add: split slice_append_right slice_append_left len)
qed

lemma leaf_entry_slices:
  "slice 0 8 (leaf_entry_bytes ((k0, k1), (v0, v1))) = le64 k0"
  "slice 8 8 (leaf_entry_bytes ((k0, k1), (v0, v1))) = le64 k1"
  "slice 16 8 (leaf_entry_bytes ((k0, k1), (v0, v1))) = le64 v0"
  "slice 24 8 (leaf_entry_bytes ((k0, k1), (v0, v1))) = le64 v1"
  by (simp_all add: slice_def)

lemma branch_entry_slices:
  "slice 0 8 (branch_entry_bytes ((k0, k1), c)) = le64 k0"
  "slice 8 8 (branch_entry_bytes ((k0, k1), c)) = le64 k1"
  "slice 16 8 (branch_entry_bytes ((k0, k1), c)) = le64 c"
  by (simp_all add: slice_def)

lemma leaf_reads:
  assumes "length es \<le> 254" "n = leaf_page p l es nx" "i < length es"
  shows "node_key n i = fst (es ! i)" "node_value n i = snd (es ! i)"
proof -
  obtain k0 k1 v0 v1 where e: "es ! i = ((k0, k1), (v0, v1))" by (cases "es ! i" rule: leaf_entry_bytes.cases) auto
  note lay = assms(2) [unfolded leaf_page_layout [OF assms(1)]]
  have s: "slice (40 + i * 32 + a) 8 n = slice a 8 (leaf_entry_bytes (es ! i))" if "a + 8 \<le> 32" for a
    using slice_blocks [of leaf_entry_bytes 32 i es a 8 "index_header 1 p l (length es) nx" 40] that assms(3)
    by (simp add: lay)
  show "node_key n i = fst (es ! i)" "node_value n i = snd (es ! i)"
    using s [of 0] s [of 8] s [of 16] s [of 24]
    by (simp_all add: node_key_def node_value_def node_width_def get_u64_def lay header_fields index_consts e
        leaf_entry_slices del: leaf_entry_bytes.simps)
qed

lemma branch_reads:
  assumes "length cs \<le> 339" "n = branch_page p l cs" "i < length cs"
  shows "node_key n i = fst (cs ! i)" "node_child n i = snd (cs ! i)"
proof -
  obtain k0 k1 c where e: "cs ! i = ((k0, k1), c)" by (cases "cs ! i" rule: branch_entry_bytes.cases) auto
  note lay = assms(2) [unfolded branch_page_layout [OF assms(1)]]
  have s: "slice (40 + i * 24 + a) 8 n = slice a 8 (branch_entry_bytes (cs ! i))" if "a + 8 \<le> 24" for a
    using slice_blocks [of branch_entry_bytes 24 i cs a 8 "index_header 2 p l (length cs) 0" 40] that assms(3)
    by (simp add: lay)
  show "node_key n i = fst (cs ! i)" "node_child n i = snd (cs ! i)"
    using s [of 0] s [of 8] s [of 16]
    by (simp_all add: node_key_def node_child_def node_width_def get_u64_def lay header_fields index_consts e
        branch_entry_slices del: branch_entry_bytes.simps)
qed

text \<open>Sealing and unsealing.\<close>

lemma index_seal_slices:
  assumes "length (H :: bytes) = 40" "slice 28 4 H = [0, 0, 0, 0]"
  shows "slice 28 4 (index_seal (H @ B)) = le32 (crc32c (H @ B))"
    and "put 28 [0, 0, 0, 0] (index_seal (H @ B)) = H @ B"
    and "length (index_seal (H @ B)) = length (H @ B)"
proof -
  show "slice 28 4 (index_seal (H @ B)) = le32 (crc32c (H @ B))" using assms(1) by (simp add: index_seal_def)
  have eq: "H = take 28 H @ [0, 0, 0, 0] @ drop 32 H"
    using append_take_drop_id [of 28 H] append_take_drop_id [of 4 "drop 28 H"] assms(2)
    by (simp add: slice_def)
  obtain X Y where H: "H = X @ [0, 0, 0, 0] @ Y" "length X = 28"
    by (rule that [OF eq]) (simp add: assms(1))
  show "put 28 [0, 0, 0, 0] (index_seal (H @ B)) = H @ B" by (simp add: index_seal_def put_def H)
  show "length (index_seal (H @ B)) = length (H @ B)" using assms(1) by (simp add: index_seal_def length_put)
qed


section \<open>What validation guarantees\<close>

text \<open>The keys of a node are strictly increasing, and its children have smaller numbers.\<close>

definition node_sorted :: "bytes \<Rightarrow> bool" where
  "node_sorted n = (\<forall>j < node_count n. \<forall>i < j. node_key n i < node_key n j)"

definition node_ok :: "u64 \<Rightarrow> bytes \<Rightarrow> bool" where
  "node_ok pid n = (node_kind n = 0 \<or>
     node_kind n \<in> {1, 2} \<and> node_count n \<noteq> 0 \<and> node_sorted n \<and>
     (node_kind n = 2 \<longrightarrow> (\<forall>i < node_count n. node_child n i \<noteq> 0 \<and> node_child n i < pid)) \<and>
     (node_kind n = 1 \<longrightarrow> node_next n = 0 \<or> pid < node_next n))"

lemma check_node_entry_Inr:
  "check_node_entry pid n i prev = Inr x \<longleftrightarrow> x = Some (node_key n i) \<and> (\<forall>p. prev = Some p \<longrightarrow> p < node_key n i) \<and>
     (node_kind n = 2 \<longrightarrow> node_child n i \<noteq> 0 \<and> node_child n i < pid)"
  by (auto simp: check_node_entry_def Let_def not_le split: option.splits)

lemma check_entries_Inr:
  "(\<exists>x. res_fold (check_node_entry pid n) [0..<m] None = Inr x) \<longleftrightarrow>
    (\<forall>j < m. \<forall>i < j. node_key n i < node_key n j) \<and>
    (node_kind n = 2 \<longrightarrow> (\<forall>i < m. node_child n i \<noteq> 0 \<and> node_child n i < pid))"
proof -
  have "res_fold (check_node_entry pid n) [0..<m] None = Inr x \<longleftrightarrow>
      x = (if m = 0 then None else Some (node_key n (m - 1))) \<and>
      (\<forall>i. Suc i < m \<longrightarrow> node_key n i < node_key n (Suc i)) \<and>
      (node_kind n = 2 \<longrightarrow> (\<forall>i < m. node_child n i \<noteq> 0 \<and> node_child n i < pid))" for x
  proof (induction m arbitrary: x)
    case (Suc m)
    let ?Y = "if m = 0 then None else Some (node_key n (m - 1))"
    have "res_fold (check_node_entry pid n) [0..<Suc m] None = Inr x \<longleftrightarrow>
        (\<exists>y. res_fold (check_node_entry pid n) [0..<m] None = Inr y \<and> check_node_entry pid n m y = Inr x)"
      by (simp add: res_bind_Inr_iff)
    also have "\<dots> \<longleftrightarrow> (\<forall>i. Suc i < m \<longrightarrow> node_key n i < node_key n (Suc i)) \<and>
        (node_kind n = 2 \<longrightarrow> (\<forall>i < m. node_child n i \<noteq> 0 \<and> node_child n i < pid)) \<and>
        check_node_entry pid n m ?Y = Inr x"
      unfolding Suc.IH by blast
    also have "check_node_entry pid n m ?Y = Inr x \<longleftrightarrow> x = Some (node_key n m) \<and>
        (\<forall>i. Suc i = m \<longrightarrow> node_key n i < node_key n (Suc i)) \<and>
        (node_kind n = 2 \<longrightarrow> node_child n m \<noteq> 0 \<and> node_child n m < pid)"
      unfolding check_node_entry_Inr by (cases m) simp_all
    finally have step: "res_fold (check_node_entry pid n) [0..<Suc m] None = Inr x \<longleftrightarrow>
        (\<forall>i. Suc i < m \<longrightarrow> node_key n i < node_key n (Suc i)) \<and>
        (node_kind n = 2 \<longrightarrow> (\<forall>i < m. node_child n i \<noteq> 0 \<and> node_child n i < pid)) \<and>
        x = Some (node_key n m) \<and> (\<forall>i. Suc i = m \<longrightarrow> node_key n i < node_key n (Suc i)) \<and>
        (node_kind n = 2 \<longrightarrow> node_child n m \<noteq> 0 \<and> node_child n m < pid)" .
    show ?case unfolding step by (auto simp: less_Suc_eq)
  qed auto
  moreover have "(\<forall>i. Suc i < m \<longrightarrow> node_key n i < node_key n (Suc i)) \<longleftrightarrow>
      (\<forall>j < m. \<forall>i < j. node_key n i < node_key n j)"
  proof
    assume step: "\<forall>i. Suc i < m \<longrightarrow> node_key n i < node_key n (Suc i)"
    have "j < m \<Longrightarrow> i < j \<Longrightarrow> node_key n i < node_key n j" for i j
    proof (induction j)
      case (Suc j)
      then show ?case using step by (cases "i = j") (auto intro: less_trans)
    qed simp
    then show "\<forall>j < m. \<forall>i < j. node_key n i < node_key n j" by blast
  qed simp
  ultimately show ?thesis by simp
qed

lemma node_decode_ok:
  assumes "node_decode pid page = Inr n"
  shows "node_ok pid n" "get_u64 n 8 = pid" "n = put 28 [0, 0, 0, 0] page"
proof -
  show "n = put 28 [0, 0, 0, 0] page" "get_u64 n 8 = pid"
    using assms by (auto simp: node_decode_def Let_def res_simps split: if_splits)
  show "node_ok pid n"
    using assms check_entries_Inr [of pid n "node_count n"]
    by (auto simp: node_decode_def Let_def res_simps node_ok_def node_sorted_def not_le split: if_splits)
qed

text \<open>A sealed page with a written header and valid contents decodes to itself.\<close>

lemma node_decode_sealed:
  assumes n: "n = index_header k p l c nx @ B" and "c < 65536"
    and "k = 0 \<and> c = 0 \<and> (nx = 0 \<or> p < nx) \<or> k \<in> {1, 2} \<and> node_ok p n \<and> c \<le> 8152 div node_width n"
  shows "node_decode p (index_seal n) = Inr n"
proof -
  note f = header_fields(1) [of k p l c nx B, folded n] header_fields(2) [OF assms(2), of k p l nx B, folded n]
    header_fields(3,4,5) [of k p l c nx B, folded n]
  note seal = index_seal_slices [OF length_index_header [of k p l c nx] index_header_slices(8) [of k p l c nx], of B, folded n]
  have s: "slice 0 4 n = ascii ''EVIX''" "slice 4 2 n = le16 1" "slice 26 2 n = [0, 0]"
    by (simp_all add: n slice_append_left index_header_slices)
  show ?thesis
  proof (cases "k = 0")
    case True
    then show ?thesis using assms(2,3) f s seal by (simp add: node_decode_def Let_def)
  next
    case False
    then have "k \<in> {1, 2}" "node_ok p n" "c \<le> 8152 div node_width n" using assms(3) by auto
    moreover obtain x where "res_fold (check_node_entry p n) [0..<node_count n] None = Inr x"
      using check_entries_Inr [of p n "node_count n"] \<open>node_ok p n\<close> False f(1)
      by (auto simp: node_ok_def node_sorted_def)
    ultimately show ?thesis using False assms(2) f s seal
      by (auto simp: node_decode_def Let_def node_ok_def index_consts)
  qed
qed

lemma leaf_decode:
  assumes "0 < length es" "length es \<le> LEAF_CAPACITY" "bt_ok es" "nx = 0 \<or> p < nx"
  shows "node_decode p (index_seal (leaf_page p l es nx)) = Inr (leaf_page p l es nx)"
    and "node_kind (leaf_page p l es nx) = 1" "node_count (leaf_page p l es nx) = length es"
    and "node_next (leaf_page p l es nx) = nx" "node_lsn (leaf_page p l es nx) = l"
    and "length (index_seal (leaf_page p l es nx)) = PAGE_SIZE"
proof -
  let ?n = "leaf_page p l es nx"
  have len: "length es \<le> 254" using assms(2) by (simp add: index_consts)
  note lay = leaf_page_layout [OF len, of p l nx]
  show f: "node_kind ?n = 1" "node_count ?n = length es" "node_next ?n = nx" "node_lsn ?n = l"
    using len by (simp_all add: lay header_fields)
  have "node_sorted ?n"
    using assms(3) by (auto simp: node_sorted_def f leaf_reads [OF len refl] bt_ok_def sorted_wrt_iff_nth_less)
  then have "node_ok p ?n" using assms(1,4) f by (auto simp: node_ok_def)
  then show "node_decode p (index_seal ?n) = Inr ?n"
    using len f(1) by (intro node_decode_sealed [OF lay]) (auto simp: node_width_def index_consts)
  have "length (concat (map leaf_entry_bytes es)) = length es * 32" by (rule length_concat_const) simp
  then show "length (index_seal ?n) = PAGE_SIZE"
    using len unfolding lay by (subst index_seal_slices(3)) (simp_all add: index_header_slices PAGE_SIZE_def)
qed

lemma branch_decode:
  assumes "0 < length cs" "length cs \<le> BRANCH_CAPACITY" "bt_ok cs" "\<forall>c \<in> set cs. snd c \<noteq> 0 \<and> snd c < p"
  shows "node_decode p (index_seal (branch_page p l cs)) = Inr (branch_page p l cs)"
    and "node_kind (branch_page p l cs) = 2" "node_count (branch_page p l cs) = length cs"
    and "node_lsn (branch_page p l cs) = l"
    and "length (index_seal (branch_page p l cs)) = PAGE_SIZE"
proof -
  let ?n = "branch_page p l cs"
  have len: "length cs \<le> 339" using assms(2) by (simp add: index_consts)
  note lay = branch_page_layout [OF len, of p l]
  show f: "node_kind ?n = 2" "node_count ?n = length cs" "node_lsn ?n = l"
    using len by (simp_all add: lay header_fields)
  have "node_sorted ?n"
    using assms(3) by (auto simp: node_sorted_def f branch_reads [OF len refl] bt_ok_def sorted_wrt_iff_nth_less)
  then have "node_ok p ?n" using assms(1,4) f by (auto simp: node_ok_def branch_reads [OF len refl])
  then show "node_decode p (index_seal ?n) = Inr ?n"
    using len f(1) by (intro node_decode_sealed [OF lay]) (auto simp: node_width_def index_consts)
  have "length (concat (map branch_entry_bytes cs)) = length cs * 24" by (rule length_concat_const) simp
  then show "length (index_seal ?n) = PAGE_SIZE"
    using len unfolding lay by (subst index_seal_slices(3)) (simp_all add: index_header_slices PAGE_SIZE_def)
qed

lemma meta_decode:
  assumes "r = 0 \<or> p < r"
  shows "node_decode p (index_seal (meta_page p l c r)) = Inr (meta_page p l c r)"
    and "node_kind (meta_page p l c r) = 0" "node_next (meta_page p l c r) = r" "node_lsn (meta_page p l c r) = l"
    and "length (index_seal (meta_page p l c r)) = PAGE_SIZE"
  using assms node_decode_sealed [OF meta_page_layout]
    index_seal_slices(3) [OF length_index_header index_header_slices(8)]
  by (simp_all add: meta_page_layout header_fields PAGE_SIZE_def)

section \<open>The binary search\<close>

lemma lower_bound_loop_spec:
  assumes "\<And>i. i < low \<Longrightarrow> node_key n i < key" "\<And>i. high \<le> i \<Longrightarrow> i < node_count n \<Longrightarrow> key \<le> node_key n i"
    and "node_sorted n" "low \<le> high" "high \<le> node_count n"
  shows "lower_bound_loop n key low high \<le> node_count n \<and>
    (\<forall>i < lower_bound_loop n key low high. node_key n i < key) \<and>
    (\<forall>i. lower_bound_loop n key low high \<le> i \<and> i < node_count n \<longrightarrow> key \<le> node_key n i)"
  using assms
proof (induction n key low high rule: lower_bound_loop.induct)
  case (1 n key low high)
  show ?case
  proof (cases "low < high")
    case False
    then have "lower_bound_loop n key low high = low" by (subst lower_bound_loop.simps) simp
    moreover have "low = high" using False "1.prems"(4) by simp
    ultimately show ?thesis using "1.prems"(1,2,5) by simp
  next
    case True
    let ?m = "low + (high - low) div 2"
    have m: "?m < high" "low \<le> ?m" using True by auto
    then have mc: "?m < node_count n" using "1.prems" by simp
    have mono: "node_key n i \<le> node_key n j" if "i \<le> j" "j < node_count n" for i j
      using "1.prems"(3) that by (cases "i = j") (auto simp: node_sorted_def less_imp_le)
    show ?thesis
    proof (cases "node_key n ?m < key")
      case below: True
      have "node_key n i < key" if "i < ?m + 1" for i
        using mono [of i ?m] mc below that by (auto intro: le_less_trans)
      note low = this
      have eq: "lower_bound_loop n key low high = lower_bound_loop n key (?m + 1) high"
        by (subst lower_bound_loop.simps) (simp add: True below)
      have "?m + 1 \<le> high" using m(1) by linarith
      from "1.IH"(1) [OF True refl below low "1.prems"(2,3) this "1.prems"(5)] show ?thesis
        unfolding eq .
    next
      case above: False
      have "key \<le> node_key n i" if "?m \<le> i" "i < node_count n" for i
        using mono [of ?m i] above that by (meson leI order_trans)
      note high = this
      have eq: "lower_bound_loop n key low high = lower_bound_loop n key low ?m"
        by (subst lower_bound_loop.simps) (simp add: True above)
      from "1.IH"(2) [OF True refl above "1.prems"(1) high "1.prems"(3) m(2) less_imp_le [OF mc]] show ?thesis
        unfolding eq .
    qed
  qed
qed

lemma node_lower_bound_spec:
  assumes "node_sorted n"
  shows "node_lower_bound n key \<le> node_count n"
    and "i < node_lower_bound n key \<Longrightarrow> node_key n i < key"
    and "node_lower_bound n key \<le> i \<Longrightarrow> i < node_count n \<Longrightarrow> key \<le> node_key n i"
  using lower_bound_loop_spec [of 0 n key "node_count n"] assms by (auto simp: node_lower_bound_def)

text \<open>The floor is the last entry whose key is at most the one sought.\<close>

lemma node_floor_index_spec:
  assumes "node_sorted n"
  shows "case node_floor_index n key of
      None \<Rightarrow> \<forall>i < node_count n. key < node_key n i
    | Some j \<Rightarrow> j < node_count n \<and> (\<forall>i \<le> j. node_key n i \<le> key) \<and> (\<forall>i < node_count n. j < i \<longrightarrow> key < node_key n i)"
proof -
  let ?b = "node_lower_bound n key"
  note b = node_lower_bound_spec [OF assms, where key = key]
  have sorted: "node_key n i < node_key n j" if "i < j" "j < node_count n" for i j
    using assms that by (simp add: node_sorted_def)
  show ?thesis
  proof (cases "?b < node_count n \<and> node_key n ?b = key")
    case True
    then show ?thesis
      using b(2) sorted by (auto simp: node_floor_index_def Let_def le_less) (metis sorted)
  next
    case False
    have above: "key < node_key n i" if "?b \<le> i" "i < node_count n" for i
      using b(3) [OF that] sorted [of ?b i] b(3) [of ?b] that False by (cases "i = ?b") (auto simp: le_less)
    show ?thesis
    proof (cases "?b = 0")
      case True
      have "node_floor_index n key = None" using False True by (auto simp: node_floor_index_def Let_def)
      then show ?thesis using above True by simp
    next
      case nz: False
      have "node_floor_index n key = Some (?b - 1)" using False nz by (auto simp: node_floor_index_def Let_def)
      moreover have "node_key n i \<le> key" if "i \<le> ?b - 1" for i
        using b(2) [of i] that nz by (simp add: less_imp_le)
      ultimately show ?thesis using above nz b(1) by auto
    qed
  qed
qed

end
