(* ===== verification/Root.thy ===== *)
theory Root
  imports Model Index_Node
begin

text \<open>
  Models the manifest of \<^verbatim>\<open>snapshot.rs\<close> (\<^verbatim>\<open>Root\<close>, its byte format, validation and the bookkeeping of
  generation slots) and the key partitioning of \<^verbatim>\<open>partitions.rs\<close>. Maps and sets are ordered
  association lists; \<open>file_id\<close> is ordered field by field, as derived in the source.
\<close>

section \<open>Ordering files\<close>

definition file_id_key :: "'a file_id_scheme \<Rightarrow> u64 \<times> u64 \<times> u8 \<times> u64 \<times> 'a" where
  "file_id_key f = (fid_table f, fid_generation f, fid_kind f, fid_segment f, file_id.more f)"

lemma file_id_key_inject: "file_id_key f = file_id_key g \<longleftrightarrow> f = g"
  by (cases f; cases g) (simp add: file_id_key_def)

instantiation file_id_ext :: (linorder) linorder
begin

definition less_eq_file_id_ext :: "'a file_id_scheme \<Rightarrow> 'a file_id_scheme \<Rightarrow> bool" where
  "f \<le> g \<longleftrightarrow> file_id_key f \<le> file_id_key g"

definition less_file_id_ext :: "'a file_id_scheme \<Rightarrow> 'a file_id_scheme \<Rightarrow> bool" where
  "f < g \<longleftrightarrow> file_id_key f < file_id_key g"

instance
  by standard (auto simp: less_eq_file_id_ext_def less_file_id_ext_def file_id_key_inject dest: antisym)

end

section \<open>Partitions of the key space\<close>

definition WIDTH :: u64 where "WIDTH = 1024"

type_synonym route = "u64 \<times> u8 \<times> index_key"

definition bucket :: "u8 \<Rightarrow> index_key \<Rightarrow> index_key" where
  "bucket kind key =
     (if kind = 3 then (fst key div WIDTH * WIDTH, 0) else (fst key, snd key div WIDTH * WIDTH))"

definition bucket_end :: "u8 \<Rightarrow> index_key \<Rightarrow> index_key" where
  "bucket_end kind lower =
     (if kind = 3 then (saturating_add64 (fst lower) (WIDTH - 1), - 1)
      else (fst lower, saturating_add64 (snd lower) (WIDTH - 1)))"

record partition =
  p_file :: file_id
  p_lsn :: u64
  p_base :: u64
  p_first :: index_key
  p_last :: index_key
  p_slots :: "(u8, u8) btree"
  p_dependencies :: "(file_id, unit) btree"

section \<open>Generation slots in locators\<close>

definition entity_slot :: "index_value \<Rightarrow> u8 res" where
  "entity_slot v =
     (let (slot, _) = split_locator (fst v); (base, _) = split_locator (snd v) in
      if slot \<noteq> base then Inl (Corrupt ''entity state and base disagree on their generation'') else Inr slot)"

definition remap :: "index_value \<Rightarrow> u8 \<Rightarrow> index_value" where
  "remap v slot =
     (let (_, current) = split_locator (fst v); (_, base) = split_locator (snd v) in
      (locate_slot slot current, locate_slot slot base))"

definition translate :: "partition \<Rightarrow> index_value \<Rightarrow> index_value res" where
  "translate part v =
     (if fid_kind (p_file part) \<noteq> 3 then Inr v
      else res_bind (entity_slot v) (\<lambda>slot.
        res_bind (ok_or (map_of (p_slots part) slot) (Corrupt ''unmapped primary partition slot'')) (\<lambda>new.
          Inr (remap v new))))"

section \<open>The manifest\<close>

record generation_info =
  g_generation :: u64
  g_lsn :: u64

record file_info =
  fi_generation :: u64
  fi_table :: u64
  fi_kind :: u8
  fi_segment :: u64
  fi_size :: u64
  fi_crc :: u32

definition file_info_id :: "file_info \<Rightarrow> file_id" where
  "file_info_id f = file_id_new (fi_table f) (fi_generation f) (fi_kind f) (fi_segment f)"

record occupancy =
  oc_entities :: u64
  oc_dead :: u64

record root =
  r_generation :: u64
  r_lsn :: u64
  r_catalog :: "(u64, table) btree"
  r_generations :: "generation_info list"
  r_files :: "file_info list"
  r_partitions :: "(route, partition) btree"
  r_history_generations :: "(u64, u64) btree"
  r_history_compacted :: bool
  r_occupancy :: "(u64 \<times> u8, occupancy) btree"

definition root_empty :: root where
  "root_empty = \<lparr>r_generation = 0, r_lsn = 0, r_catalog = [],
     r_generations = [\<lparr>g_generation = 0, g_lsn = 0\<rparr>], r_files = [], r_partitions = [],
     r_history_generations = [], r_history_compacted = True, r_occupancy = []\<rparr>"

section \<open>Encoding\<close>

definition encode_generation :: "generation_info \<Rightarrow> bytes" where
  "encode_generation g = e_u64 (g_generation g) @ e_u64 (g_lsn g)"

definition encode_slot_entry :: "u8 \<times> u8 \<Rightarrow> bytes" where
  "encode_slot_entry s = e_u8 (fst s) @ e_u8 (snd s)"

definition encode_dependency :: "file_id \<times> unit \<Rightarrow> bytes" where
  "encode_dependency f = e_u64 (fid_table (fst f)) @ e_u64 (fid_generation (fst f)) @ e_u8 (fid_kind (fst f)) @
     e_u64 (fid_segment (fst f))"

definition encode_partition :: "route \<times> partition \<Rightarrow> bytes" where
  "encode_partition rp = (case rp of ((t, kind, lower), part) \<Rightarrow>
     e_u64 t @ e_u8 kind @ e_u64 (fst lower) @ e_u64 (snd lower) @
     e_u64 (fid_generation (p_file part)) @ e_u64 (fid_segment (p_file part)) @
     e_u64 (p_lsn part) @ e_u64 (p_base part) @
     e_u64 (fst (p_first part)) @ e_u64 (snd (p_first part)) @ e_u64 (fst (p_last part)) @ e_u64 (snd (p_last part)) @
     e_u64 (of_nat (length (p_slots part))) @ concat (map encode_slot_entry (p_slots part)) @
     e_u64 (of_nat (length (p_dependencies part))) @ concat (map encode_dependency (p_dependencies part)))"

definition encode_history :: "u64 \<times> u64 \<Rightarrow> bytes" where
  "encode_history h = e_u64 (fst h) @ e_u64 (snd h)"

definition encode_file_info :: "file_info \<Rightarrow> bytes" where
  "encode_file_info f = e_u64 (fi_generation f) @ e_u64 (fi_table f) @ e_u8 (fi_kind f) @ e_u64 (fi_segment f) @
     e_u64 (fi_size f) @ e_u32 (fi_crc f)"

definition encode_occupancy :: "(u64 \<times> u8) \<times> occupancy \<Rightarrow> bytes" where
  "encode_occupancy c = e_u64 (fst (fst c)) @ e_u8 (snd (fst c)) @ e_u64 (oc_entities (snd c)) @ e_u64 (oc_dead (snd c))"

definition encode_root :: "root \<Rightarrow> bytes" where
  "encode_root r = e_u64 (r_generation r) @ e_u64 (r_lsn r) @
     e_u64 (of_nat (length (r_catalog r))) @ concat (map (\<lambda>e. encode_table (snd e)) (r_catalog r)) @
     e_u64 (of_nat (length (r_generations r))) @ concat (map encode_generation (r_generations r)) @
     e_u64 (of_nat (length (r_partitions r))) @ concat (map encode_partition (r_partitions r)) @
     e_u8 (if r_history_compacted r then 1 else 0) @
     e_u64 (of_nat (length (r_history_generations r))) @ concat (map encode_history (r_history_generations r)) @
     e_u64 (of_nat (length (r_files r))) @ concat (map encode_file_info (r_files r)) @
     e_u64 (of_nat (length (r_occupancy r))) @ concat (map encode_occupancy (r_occupancy r))"

section \<open>Decoding\<close>

text \<open>Each loop body takes what it has collected so far.\<close>

definition decode_catalog_entry :: "bytes list \<times> (u64, table) btree \<Rightarrow> decoder \<Rightarrow>
    ((bytes list \<times> (u64, table) btree) \<times> decoder) res" where
  "decode_catalog_entry nc d = res_bind (decode_table d) (\<lambda>(t, d).
     if t_name t \<in> set (fst nc) \<or> bt_has (snd nc) (t_id t) then Inl (Corrupt ''duplicate table'')
     else Inr ((t_name t # fst nc, bt_insert (t_id t) t (snd nc)), d))"

definition decode_generation :: "generation_info list \<Rightarrow> decoder \<Rightarrow> (generation_info list \<times> decoder) res" where
  "decode_generation gs d =
     res_bind (d_u64 d) (\<lambda>(g, d). res_bind (d_u64 d) (\<lambda>(lsn, d).
       if gs \<noteq> [] \<and> g_generation (last gs) \<ge> g then Inl (Corrupt ''unordered generation list'')
       else Inr (gs @ [\<lparr>g_generation = g, g_lsn = lsn\<rparr>], d)))"

definition decode_slot_entry :: "generation_info list \<Rightarrow> (u8, u8) btree \<Rightarrow> decoder \<Rightarrow> ((u8, u8) btree \<times> decoder) res" where
  "decode_slot_entry gs slots d =
     res_bind (d_u8 d) (\<lambda>(old, d). res_bind (d_u8 d) (\<lambda>(new, d).
       if unat new \<ge> length gs \<or> bt_has slots old then Inl (Corrupt ''invalid partition slot mapping'')
       else Inr (bt_insert old new slots, d)))"

definition decode_dependency :: "u64 \<Rightarrow> (file_id, unit) btree \<Rightarrow> decoder \<Rightarrow> ((file_id, unit) btree \<times> decoder) res" where
  "decode_dependency table deps d =
     res_bind (d_u64 d) (\<lambda>(t, d). res_bind (d_u64 d) (\<lambda>(g, d). res_bind (d_u8 d) (\<lambda>(k, d). res_bind (d_u64 d) (\<lambda>(s, d).
       let f = file_id_new t g k s in
       if fid_table f \<noteq> table \<or> (fid_kind f \<noteq> 2 \<and> fid_kind f \<noteq> 6) \<or> bt_has deps f
       then Inl (Corrupt ''invalid partition dependency'') else Inr (bt_insert f () deps, d)))))"

text \<open>What the loops know of the manifest, and the partitions with their files and their roots.\<close>

definition partition_valid :: "root \<Rightarrow> route \<Rightarrow> partition \<Rightarrow> bool" where
  "partition_valid r rt part = (case rt of (table, kind, lower) \<Rightarrow>
     bt_has (r_catalog r) table \<and> 3 \<le> kind \<and> kind \<le> 5 \<and> fid_generation (p_file part) \<le> r_generation r \<and>
     p_lsn part \<le> r_lsn r \<and> p_first part \<le> p_last part \<and> bucket kind (p_first part) = lower \<and>
     bucket kind (p_last part) = lower \<and> (kind \<noteq> 3 \<longrightarrow> p_slots part = []) \<and> (kind = 3 \<longrightarrow> p_slots part \<noteq> []))"

type_synonym partition_state = "(route, partition) btree \<times> file_id list \<times> (file_id \<times> u64) list"

definition decode_partition :: "root \<Rightarrow> partition_state \<Rightarrow> decoder \<Rightarrow> (partition_state \<times> decoder) res" where
  "decode_partition r ps d = (case ps of (parts, index_files, index_roots) \<Rightarrow>
     res_bind (d_u64 d) (\<lambda>(t, d). res_bind (d_u8 d) (\<lambda>(kind, d).
     res_bind (d_u64 d) (\<lambda>(l0, d). res_bind (d_u64 d) (\<lambda>(l1, d).
     res_bind (d_u64 d) (\<lambda>(g, d). res_bind (d_u64 d) (\<lambda>(s, d).
     res_bind (d_u64 d) (\<lambda>(sequence, d). res_bind (d_u64 d) (\<lambda>(base, d).
     res_bind (d_u64 d) (\<lambda>(f0, d). res_bind (d_u64 d) (\<lambda>(f1, d).
     res_bind (d_u64 d) (\<lambda>(a0, d). res_bind (d_u64 d) (\<lambda>(a1, d).
     res_bind (d_count 2 d) (\<lambda>(n, d). res_bind (d_repeat n (decode_slot_entry (r_generations r)) [] d) (\<lambda>(slots, d).
     res_bind (d_count 25 d) (\<lambda>(n, d). res_bind (d_repeat n (decode_dependency t) [] d) (\<lambda>(deps, d).
       let f = file_id_new t g kind s;
           part = \<lparr>p_file = f, p_lsn = sequence, p_base = base, p_first = (f0, f1), p_last = (a0, a1),
                   p_slots = slots, p_dependencies = deps\<rparr> in
       if \<not> partition_valid r (t, kind, (l0, l1)) part \<or> (f, base) \<in> set index_roots
       then Inl (Corrupt ''invalid index partition'')
       else if bt_has parts (t, kind, (l0, l1)) then Inl (Corrupt ''duplicate index partition route'')
       else Inr ((bt_insert (t, kind, (l0, l1)) part parts, f # index_files, (f, base) # index_roots), d))))))))))))))))))"

definition decode_history_entry :: "root \<Rightarrow> (u64, u64) btree \<Rightarrow> decoder \<Rightarrow> ((u64, u64) btree \<times> decoder) res" where
  "decode_history_entry r hs d =
     res_bind (d_u64 d) (\<lambda>(g, d). res_bind (d_u64 d) (\<lambda>(sequence, d).
       if g > r_generation r \<or> sequence > r_lsn r \<or> bt_has hs g then Inl (Corrupt ''invalid history generation'')
       else Inr (bt_insert g sequence hs, d)))"

definition file_valid :: "root \<Rightarrow> file_id list \<Rightarrow> file_info \<Rightarrow> bool" where
  "file_valid r index_files f = (bt_has (r_catalog r) (fi_table f) \<and> fi_kind f \<le> 6 \<and>
     (fi_kind f < 3 \<longrightarrow> fi_segment f = 0) \<and>
     (if fi_kind f = 2 \<or> fi_kind f = 6 then bt_has (r_history_generations r) (fi_generation f)
      else if 3 \<le> fi_kind f \<and> fi_kind f \<le> 5 then file_info_id f \<in> set index_files
      else fi_generation f \<in> set (map g_generation (r_generations r))))"

definition decode_file_info :: "root \<Rightarrow> file_id list \<Rightarrow> file_info list \<times> file_id list \<Rightarrow> decoder \<Rightarrow>
    ((file_info list \<times> file_id list) \<times> decoder) res" where
  "decode_file_info r index_files fs d =
     res_bind (d_u64 d) (\<lambda>(g, d). res_bind (d_u64 d) (\<lambda>(t, d). res_bind (d_u8 d) (\<lambda>(k, d).
     res_bind (d_u64 d) (\<lambda>(s, d). res_bind (d_u64 d) (\<lambda>(size, d). res_bind (d_u32 d) (\<lambda>(crc, d).
       let f = \<lparr>fi_generation = g, fi_table = t, fi_kind = k, fi_segment = s, fi_size = size, fi_crc = crc\<rparr> in
       if \<not> file_valid r index_files f \<or> file_info_id f \<in> set (snd fs)
       then Inl (Corrupt ''invalid checkpoint file reference'')
       else Inr ((fst fs @ [f], file_info_id f # snd fs), d)))))))"

definition check_partition :: "file_info list \<Rightarrow> partition \<Rightarrow> unit res" where
  "check_partition files part =
     (if \<not> list_ex (\<lambda>f. file_info_id f = p_file part \<and> p_base part < fi_size f div of_nat PAGE_SIZE) files
      then Inl (Corrupt ''partition root outside index file'')
      else if \<not> list_all (\<lambda>f. f \<in> set (map file_info_id files)) (p_file part # map fst (p_dependencies part))
      then Inl (Corrupt ''incomplete partition manifest'') else Inr ())"

definition decode_occupancy :: "root \<Rightarrow> (u64 \<times> u8, occupancy) btree \<Rightarrow> decoder \<Rightarrow>
    ((u64 \<times> u8, occupancy) btree \<times> decoder) res" where
  "decode_occupancy r os d =
     res_bind (d_u64 d) (\<lambda>(t, d). res_bind (d_u8 d) (\<lambda>(slot, d). res_bind (d_u64 d) (\<lambda>(entities, d).
     res_bind (d_u64 d) (\<lambda>(dead, d).
       if \<not> bt_has (r_catalog r) t \<or> unat slot \<ge> length (r_generations r) \<or> dead > entities \<or> bt_has os (t, slot)
       then Inl (Corrupt ''invalid generation occupancy'')
       else Inr (bt_insert (t, slot) \<lparr>oc_entities = entities, oc_dead = dead\<rparr> os, d)))))"

text \<open>The fields decoded so far are kept in a manifest that later loops consult.\<close>

definition decode_root :: "bytes \<Rightarrow> root res" where
  "decode_root bs =
     res_bind (d_u64 (d_new bs)) (\<lambda>(generation, d). res_bind (d_u64 d) (\<lambda>(lsn, d).
     res_bind (d_count 25 d) (\<lambda>(n, d). res_bind (d_repeat n decode_catalog_entry ([], []) d) (\<lambda>(nc, d).
     res_bind (d_count 16 d) (\<lambda>(n, d). res_bind (d_repeat n decode_generation [] d) (\<lambda>(gs, d).
     if length gs > MAX_SLOTS \<or> gs = [] \<or> g_generation (last gs) \<noteq> generation
     then Inl (Corrupt ''invalid generation list'')
     else let r = root_empty\<lparr>r_generation := generation, r_lsn := lsn, r_catalog := snd nc, r_generations := gs\<rparr> in
     res_bind (d_count 105 d) (\<lambda>(n, d). res_bind (d_repeat n (decode_partition r) ([], [], []) d) (\<lambda>(ps, d).
     res_bind (d_u8 d) (\<lambda>(flag, d).
     res_bind (if flag = 0 then Inr False else if flag = 1 then Inr True
               else Inl (Corrupt ''invalid history compaction flag'')) (\<lambda>compacted.
     res_bind (d_count 16 d) (\<lambda>(n, d). res_bind (d_repeat n (decode_history_entry r) [] d) (\<lambda>(hs, d).
     let r = r\<lparr>r_partitions := fst ps, r_history_compacted := compacted, r_history_generations := hs\<rparr> in
     res_bind (d_count 37 d) (\<lambda>(n, d). res_bind (d_repeat n (decode_file_info r (fst (snd ps))) ([], []) d) (\<lambda>(fs, d).
     res_bind (res_fold (\<lambda>part _. check_partition (fst fs) part) (map snd (r_partitions r)) ()) (\<lambda>_.
     res_bind (d_count 25 d) (\<lambda>(n, d). res_bind (d_repeat n (decode_occupancy r) [] d) (\<lambda>(os, d).
     res_bind (d_finish d) (\<lambda>_.
       Inr (r\<lparr>r_files := fst fs, r_occupancy := os\<rparr>)))))))))))))))))))"

section \<open>Slots and files of the next manifest\<close>

definition at_slot :: "root \<Rightarrow> u8 \<Rightarrow> generation_info res" where
  "at_slot r slot = (if unat slot < length (r_generations r) then Inr (r_generations r ! unat slot)
     else Inl (Corrupt ''locator names an absent generation''))"

definition slotted :: "root \<Rightarrow> u64 \<Rightarrow> u8 \<Rightarrow> u8 \<Rightarrow> u64 \<Rightarrow> (file_id \<times> u64) res" where
  "slotted r table kind slot segment =
     res_bind (at_slot r slot) (\<lambda>g. Inr (file_id_new table (g_generation g) kind segment, g_lsn g))"

definition root_file_ids :: "root \<Rightarrow> file_id list" where
  "root_file_ids r = map file_info_id (r_files r)"

definition root_totals :: "root \<Rightarrow> u8 \<Rightarrow> occupancy" where
  "root_totals r slot = fold (\<lambda>e acc. if snd (fst e) = slot
       then \<lparr>oc_entities = oc_entities acc + oc_entities (snd e), oc_dead = oc_dead acc + oc_dead (snd e)\<rparr> else acc)
     (r_occupancy r) \<lparr>oc_entities = 0, oc_dead = 0\<rparr>"

text \<open>The loop of \<^verbatim>\<open>rebuild_slots\<close> over the old generations.\<close>

fun rebuild_loop :: "u64 list \<Rightarrow> generation_info list \<Rightarrow> generation_info list \<Rightarrow> u8 option list \<Rightarrow>
    generation_info list \<times> u8 option list" where
  "rebuild_loop absorb [] gs slots = (gs, slots)"
| "rebuild_loop absorb (g # old) gs slots =
     (if g_generation g \<in> set absorb then rebuild_loop absorb old gs (slots @ [None])
      else rebuild_loop absorb old (gs @ [g]) (slots @ [Some (of_nat (length gs))]))"

definition rebuild_slots :: "root \<Rightarrow> u64 list \<Rightarrow> u64 \<Rightarrow> u64 \<Rightarrow> (generation_info list \<times> u8 option list) res" where
  "rebuild_slots r absorb generation lsn =
     (let (gs, slots) = rebuild_loop absorb (r_generations r) [] [];
          gs = gs @ [\<lparr>g_generation = generation, g_lsn = lsn\<rparr>] in
      if length gs > MAX_SLOTS then Inl (Invalid ''a manifest cannot reference more generations'')
      else Inr (gs, slots @ replicate (MAX_SLOTS - length slots) None))"

definition kept_files :: "root \<Rightarrow> u64 list \<Rightarrow> file_info list" where
  "kept_files r absorb = filter (\<lambda>f. (fi_kind f = 0 \<or> fi_kind f = 1) \<and> fi_generation f \<notin> set absorb) (r_files r)"

definition kept_occupancy :: "root \<Rightarrow> u8 option list \<Rightarrow> (u64 \<times> u8, occupancy) btree" where
  "kept_occupancy r slots = fold (\<lambda>e m. case slots ! unat (snd (fst e)) of
       None \<Rightarrow> m | Some new \<Rightarrow> bt_insert (fst (fst e), new) (snd e) m) (r_occupancy r) []"

section \<open>Verifying checkpoint files\<close>

text \<open>The file is read in pieces of at most 65536 bytes.\<close>

definition digest :: "store \<Rightarrow> file_id \<Rightarrow> (nat \<times> u32) res" where
  "digest st f = res_bind (ok_or (st_disk st f) not_found_error) (\<lambda>bs. Inr (length bs,
     checksum_finish (foldl checksum_update checksum_new (chunks 65536 bs))))"

definition root_verify :: "store \<Rightarrow> root \<Rightarrow> unit res" where
  "root_verify st r = res_fold (\<lambda>f _. res_bind (digest st (file_info_id f)) (\<lambda>(size, crc).
     if size \<noteq> unat (fi_size f) \<or> crc \<noteq> fi_crc f then Inl (Corrupt ''checkpoint file checksum mismatch'') else Inr ()))
     (r_files r) ()"

end
