(* ===== verification/Model_Laws.thy ===== *)
theory Model_Laws
  imports Model
begin

text \<open>
  What the data model guarantees: every record format reads back what it wrote (interpretations
  of the format locales), a normalised row conforms to its schema, and applying an event advances
  an entity by exactly one version.
\<close>

section \<open>Sequencing of parsers\<close>

lemma parses_pure:
  "m = Inr x \<Longrightarrow> parses (g x) y bs \<Longrightarrow> parses (\<lambda>d. res_bind m (\<lambda>x. g x d)) y bs"
  by simp

lemma parses_guard: "\<not> c \<Longrightarrow> parses f y bs \<Longrightarrow> parses (\<lambda>d. if c then Inl e else f d) y bs"
  by (simp add: parses_def)

lemma parses_return_eq: "x = y \<Longrightarrow> parses (\<lambda>d. Inr (x, d)) y []"
  by simp

lemma parses_end: "parses f x (bs @ []) \<Longrightarrow> parses f x bs"
  by simp

lemma parses_eqI: "parses f y cs \<Longrightarrow> x = y \<Longrightarrow> bs = cs \<Longrightarrow> parses f x bs"
  by simp

lemma parses_tag:
  assumes "parses (g t) y cs"
  shows "parses (\<lambda>d. res_bind (d_u8 d) (\<lambda>(t, d). g t d)) y (e_u8 t @ cs)"
  by (rule parses_bind [where f = d_u8 and g = g and x = t]) (rule parses_u8, rule assms)

lemma parses_u64_bind: "parses (g v) y cs \<Longrightarrow> parses (\<lambda>d. res_bind (d_u64 d) (\<lambda>(x, d). g x d)) y (e_u64 v @ cs)"
  by (rule parses_bind [OF parses_u64])

lemma parses_u32_bind: "parses (g v) y cs \<Longrightarrow> parses (\<lambda>d. res_bind (d_u32 d) (\<lambda>(x, d). g x d)) y (e_u32 v @ cs)"
  by (rule parses_bind [OF parses_u32])

lemma parses_u64_last: "parses (g v) y [] \<Longrightarrow> parses (\<lambda>d. res_bind (d_u64 d) (\<lambda>(x, d). g x d)) y (e_u64 v)"
  using parses_u64_bind [of g v y "[]"] by simp

lemma parses_u32_last: "parses (g v) y [] \<Longrightarrow> parses (\<lambda>d. res_bind (d_u32 d) (\<lambda>(x, d). g x d)) y (e_u32 v)"
  using parses_u32_bind [of g v y "[]"] by simp

lemma parses_u8_last: "parses (g v) y [] \<Longrightarrow> parses (\<lambda>d. res_bind (d_u8 d) (\<lambda>(x, d). g x d)) y (e_u8 v)"
  using parses_tag [of g v y "[]"] by simp

lemma parses_loop:
  assumes "parses (d_repeat n body s) s' bs" "n * max m 1 \<le> length bs" "parses (k s') y cs"
  shows "parses (\<lambda>d. res_bind (d_count m d) (\<lambda>(n, d). res_bind (d_repeat n body s d) (\<lambda>(x, d). k x d))) y
    (e_u64 (of_nat n) @ bs @ cs)"
  by (rule parses_count [where g = "\<lambda>n d. res_bind (d_repeat n body s d) (\<lambda>(x, d). k x d)"])
     (use assms parses_bind [where g = k and x = s', OF assms(1,3)] in simp_all)

lemma parses_loop_last:
  assumes "parses (d_repeat n body s) s' bs" "n * max m 1 \<le> length bs" "parses (k s') y []"
  shows "parses (\<lambda>d. res_bind (d_count m d) (\<lambda>(n, d). res_bind (d_repeat n body s d) (\<lambda>(x, d). k x d))) y
    (e_u64 (of_nat n) @ bs)"
  using parses_loop [where k = k and s' = s', OF assms] by simp

lemmas parse_steps = parses_u64_bind parses_u32_bind parses_tag parses_u64_last parses_u32_last parses_u8_last

context loop_format begin

lemma ok_list_prefix: "(\<And>n. n < length xs \<Longrightarrow> ok (foldl add s (take n xs)) (xs ! n)) \<Longrightarrow> ok_list s xs"
proof (induction xs arbitrary: s)
  case (Cons x xs)
  have "ok s x" using Cons.prems [of 0] by simp
  moreover have "ok_list (add s x) xs"
    by (rule Cons.IH) (use Cons.prems [of "Suc n" for n] in simp)
  ultimately show ?case by simp
qed simp

lemma parses_list:
  assumes "\<And>n. n < length xs \<Longrightarrow> ok (foldl add s (take n xs)) (xs ! n)" "s' = foldl add s xs"
  shows "parses (d_repeat (length xs) body s) s' (concat (map enc xs))"
  unfolding assms(2) by (rule parses_repeat [OF ok_list_prefix]) (rule assms(1))

end

text \<open>Decoding a map in key order rebuilds it, and a later key is always new.\<close>

section \<open>Values and field maps\<close>

fun value_ok :: "value_t \<Rightarrow> bool" where
  "value_ok (Float64V v) = f64_is_finite v"
| "value_ok (TextV v) = utf8_valid v"
| "value_ok _ = True"

definition fields_ok :: "fields \<Rightarrow> bool" where
  "fields_ok fs = (bt_ok fs \<and> (\<forall>e \<in> set fs. value_ok (snd e)) \<and> length fs \<le> 4096)"

lemma parses_decode_value: "value_ok v \<Longrightarrow> parses decode_value v (encode_value v)"
proof (cases v)
  case Null
  then show ?thesis
    by (auto simp: decode_value_def [abs_def] parses_def d_u8_def e_u8_def d_take_ok)
next
  case (BoolV b)
  have "parses (\<lambda>d. res_bind (d_u8 d) (\<lambda>(b, d). if b = 0 then Inr (BoolV False, d)
       else if b = 1 then Inr (BoolV True, d) else Inl (Corrupt ''invalid boolean'')))
     (BoolV b) (e_u8 (if b then 1 else 0) @ [])"
    by (rule parses_tag) simp
  then show ?thesis unfolding BoolV decode_value_def [abs_def] encode_value.simps
    by (intro parses_tag) simp
next
  case (Int64V w)
  have "parses (\<lambda>d. res_bind (d_u64 d) (\<lambda>(v, d). Inr (Int64V v, d))) (Int64V w) (e_u64 w @ [])"
    by (rule parses_bind, rule parses_u64) simp
  then show ?thesis unfolding Int64V decode_value_def [abs_def] encode_value.simps
    by (intro parses_tag) simp
next
  case (UInt64V w)
  have "parses (\<lambda>d. res_bind (d_u64 d) (\<lambda>(v, d). Inr (UInt64V v, d))) (UInt64V w) (e_u64 w @ [])"
    by (rule parses_bind, rule parses_u64) simp
  then show ?thesis unfolding UInt64V decode_value_def [abs_def] encode_value.simps
    by (intro parses_tag) simp
next
  case (Float64V w)
  moreover assume "value_ok v"
  ultimately have fin: "f64_is_finite w" by simp
  have "parses (\<lambda>d. res_bind (d_u64 d) (\<lambda>(v, d).
       if \<not> f64_is_finite v then Inl (Corrupt ''non-finite float'')
       else Inr (Float64V v, d))) (Float64V w) (e_u64 w @ [])"
    by (rule parses_bind, rule parses_u64) (simp add: fin)
  then show ?thesis unfolding Float64V decode_value_def [abs_def] encode_value.simps
    by (intro parses_tag) simp
next
  case (TextV s)
  moreover assume "value_ok v"
  ultimately have valid: "utf8_valid s" by simp
  have "parses (\<lambda>d. res_bind (d_string d) (\<lambda>(v, d). Inr (TextV v, d)))
      (TextV s) (e_string s @ [])"
    by (rule parses_bind, rule parses_string [OF valid]) simp
  then show ?thesis unfolding TextV decode_value_def [abs_def] encode_value.simps
    by (intro parses_tag) simp
next
  case (BytesV s)
  have "parses (\<lambda>d. res_bind (d_bytes d) (\<lambda>(v, d). Inr (BytesV v, d))) (BytesV s) (e_bytes s @ [])"
    by (rule parses_bind, rule parses_bytes) simp
  then show ?thesis unfolding BytesV decode_value_def [abs_def] encode_value.simps
    by (intro parses_tag) simp
qed

interpretation value_format: item_format encode_value decode_value value_ok
  by unfold_locales (rule parses_decode_value)

lemma parses_field_entry:
  assumes "\<not> bt_has fs (fst e)" "value_ok (snd e)"
  shows "parses (decode_field_entry fs) (bt_insert (fst e) (snd e) fs) (encode_field_entry e)"
  unfolding decode_field_entry_def [abs_def] encode_field_entry_def
  by (rule parses_bind, rule parses_u32, rule parses_end, rule parses_bind,
      rule parses_decode_value [OF assms(2)])
     (simp add: assms)

interpretation fields_format: loop_format encode_field_entry decode_field_entry
  "\<lambda>fs e. \<not> bt_has fs (fst e) \<and> value_ok (snd e)" "\<lambda>fs e. bt_insert (fst e) (snd e) fs"
  by unfold_locales (simp add: parses_field_entry)

text \<open>Decoding in key order appends each entry, so the loop rebuilds the map it was given.\<close>

lemma fields_ok_list:
  "bt_ok (s @ fs) \<Longrightarrow> \<forall>e \<in> set fs. value_ok (snd e) \<Longrightarrow>
   fields_format.ok_list s fs \<and> foldl (\<lambda>fs e. bt_insert (fst e) (snd e) fs) s fs = s @ fs"
proof (induction fs arbitrary: s)
  case (Cons e fs)
  have less: "\<forall>a \<in> set s. fst a < fst e"
    using Cons.prems(1) by (auto simp: bt_ok_append)
  then have "fst e \<notin> fst ` set s" by force
  then have new: "\<not> bt_has s (fst e)" by (simp add: bt_has_def map_of_eq_None_iff)
  have ins: "bt_insert (fst e) (snd e) s = s @ [e]" using bt_insert_append [OF less] by simp
  show ?case using Cons.IH [of "s @ [e]"] Cons.prems new by (simp add: ins)
qed simp

lemma length_encode_value: "length (encode_value v) = 1 + value_encoded_len v"
  by (cases v) auto

lemma length_encode_field_entry: "length (encode_field_entry e) = 5 + value_encoded_len (snd e)"
  by (simp add: encode_field_entry_def length_encode_value)

lemma fields_encoded_len_correct: "fields_encoded_len fs = length (encode_fields fs)"
  by (simp add: fields_encoded_len_def encode_fields_def length_concat comp_def
      length_encode_field_entry)

lemma parses_decode_fields: "fields_ok fs \<Longrightarrow> parses decode_fields fs (encode_fields fs)"
proof -
  assume ok: "fields_ok fs"
  then have l: "fields_format.ok_list [] fs"
      "foldl (\<lambda>fs e. bt_insert (fst e) (snd e) fs) [] fs = fs"
    using fields_ok_list [of "[]" fs] by (auto simp: fields_ok_def)
  have few: "length fs \<le> 4096" using ok by (simp add: fields_ok_def)
  have "parses (\<lambda>d. res_bind (d_count 5 d) (\<lambda>(n, d).
      if n > 4096 then Inl (Corrupt ''too many fields'') else d_repeat n decode_field_entry [] d))
     fs (e_u64 (of_nat (length fs)) @ concat (map encode_field_entry fs))"
  proof (rule parses_count)
    show "parses (\<lambda>d. if length fs > 4096 then Inl (Corrupt ''too many fields'')
        else d_repeat (length fs) decode_field_entry [] d) fs (concat (map encode_field_entry fs))"
      using fields_format.parses_repeat [OF l(1)] few by (simp add: l(2))
    show "length fs * max 5 1 \<le> length (concat (map encode_field_entry fs))"
      using length_concat_ge [of fs 5 encode_field_entry] by (simp add: length_encode_field_entry)
  qed
  then show ?thesis by (simp add: decode_fields_def [abs_def] encode_fields_def)
qed

interpretation field_map_format: item_format encode_fields decode_fields fields_ok
  by unfold_locales (rule parses_decode_fields)

section \<open>Entities and events\<close>

definition entity_body :: "decoder \<Rightarrow> (entity \<times> decoder) res" where
  "entity_body d =
     res_bind (d_u64 d) (\<lambda>(i, d). res_bind (d_u64 d) (\<lambda>(v, d). res_bind (d_u64 d) (\<lambda>(s, d).
     res_bind (d_u8 d) (\<lambda>(tomb, d).
     res_bind (if tomb = 0 then Inr False else if tomb = 1 then Inr True
               else Inl (Corrupt ''invalid tombstone'')) (\<lambda>del.
     res_bind (decode_fields d) (\<lambda>(fs, d).
       Inr (\<lparr>en_id = i, en_version = v, en_schema = s, en_deleted = del, en_fields = fs\<rparr>, d)))))))"

lemma decode_entity_body:
  "decode_entity bs = res_bind (entity_body (d_new bs)) (\<lambda>(v, d). res_bind (d_finish d) (\<lambda>_. Inr v))"
  by (simp add: decode_entity_def entity_body_def case_prod_unfold)

lemma parses_entity_body:
  "fields_ok (en_fields e) \<Longrightarrow> parses entity_body e (encode_entity e)"
  unfolding entity_body_def [abs_def] encode_entity_def
  by (rule parses_bind, rule parses_u64, rule parses_bind, rule parses_u64,
      rule parses_bind, rule parses_u64, rule parses_tag, rule parses_pure [where x = "en_deleted e"],
      simp, rule parses_end, rule parses_bind, erule parses_decode_fields) (cases e, simp)

interpretation entity_format: item_format encode_entity entity_body "\<lambda>e. fields_ok (en_fields e)"
  by unfold_locales (rule parses_entity_body)

lemma decode_encode_entity:
  "fields_ok (en_fields e) \<Longrightarrow> length (encode_entity e) < 2 ^ 63 \<Longrightarrow>
   decode_entity (encode_entity e) = Inr e"
  by (simp add: decode_entity_body entity_format.dec_enc_whole)

definition event_body :: "decoder \<Rightarrow> (event \<times> decoder) res" where
  "event_body d =
     res_bind (d_u64 d) (\<lambda>(v, d). res_bind (d_u64 d) (\<lambda>(t, d). res_bind (d_u64 d) (\<lambda>(s, d).
     res_bind (d_u8 d) (\<lambda>(k, d).
     res_bind (if k = 0 then Inr ApplyEvent else if k = 1 then Inr DeleteEvent
               else Inl (Corrupt ''invalid event kind'')) (\<lambda>kind.
     res_bind (decode_fields d) (\<lambda>(fs, d).
       Inr (\<lparr>ev_version = v, ev_transaction = t, ev_schema = s, ev_kind = kind, ev_fields = fs\<rparr>, d)))))))"

lemma decode_event_body:
  "decode_event bs = res_bind (event_body (d_new bs)) (\<lambda>(v, d). res_bind (d_finish d) (\<lambda>_. Inr v))"
  by (simp add: decode_event_def event_body_def case_prod_unfold)

lemma parses_event_body:
  "fields_ok (ev_fields e) \<Longrightarrow> parses event_body e (encode_event e)"
  unfolding event_body_def [abs_def] encode_event_def
  by (rule parses_bind, rule parses_u64, rule parses_bind, rule parses_u64,
      rule parses_bind, rule parses_u64, rule parses_tag, rule parses_pure [where x = "ev_kind e"],
      simp split: event_kind.split, rule parses_end, rule parses_bind, erule parses_decode_fields) (cases e, simp)

interpretation event_format: item_format encode_event event_body "\<lambda>e. fields_ok (ev_fields e)"
  by unfold_locales (rule parses_event_body)

lemma decode_encode_event:
  "fields_ok (ev_fields e) \<Longrightarrow> length (encode_event e) < 2 ^ 63 \<Longrightarrow>
   decode_event (encode_event e) = Inr e"
  by (simp add: decode_event_body event_format.dec_enc_whole)

section \<open>Tables\<close>

definition field_def_ok :: "field \<Rightarrow> bool" where
  "field_def_ok f = utf8_valid (f_name f)"

definition schema_ok :: "nat \<Rightarrow> schema \<Rightarrow> bool" where
  "schema_ok n s = (s_version s = of_nat n + 1 \<and> validate_schema s = Inr () \<and>
     (\<forall>f \<in> set (s_fields s). field_def_ok f))"

definition table_ok :: "table \<Rightarrow> bool" where
  "table_ok t = (t_id t \<noteq> 0 \<and> t_schemas t \<noteq> [] \<and> utf8_valid (t_name t) \<and>
     validate_name (t_name t) = Inr () \<and>
     (\<forall>n < length (t_schemas t). schema_ok n (t_schemas t ! n)))"

lemma decode_type_tag: "decode_type_tag (type_tag t) = Inr t"
  by (cases t) (simp_all add: decode_type_tag_def)

lemma parses_field_def:
  "field_def_ok f \<Longrightarrow> parses (decode_field_def fs) (fs @ [f]) (encode_field_def f)"
  unfolding decode_field_def_def [abs_def] encode_field_def_def field_def_ok_def
  by (rule parses_bind, rule parses_u32, rule parses_bind, erule parses_string,
      rule parses_tag, rule parses_pure [where x = "f_type f"], simp add: decode_type_tag,
      rule parses_end, rule parses_tag, rule parses_pure [where x = "f_nullable f"], simp)
     (cases f, simp)

interpretation field_def_format: loop_format encode_field_def decode_field_def
  "\<lambda>fs f. field_def_ok f" "\<lambda>fs f. fs @ [f]"
  by unfold_locales (rule parses_field_def)

lemma field_def_list:
  "(\<forall>f \<in> set fs. field_def_ok f) \<Longrightarrow> field_def_format.ok_list s fs \<and> foldl (\<lambda>fs f. fs @ [f]) s fs = s @ fs"
  by (induction fs arbitrary: s) auto

lemma length_encode_field_def: "14 \<le> length (encode_field_def f)"
  by (simp add: encode_field_def_def)

lemma parses_schema:
  assumes "schema_ok (length ss) s"
  shows "parses (decode_schema ss) (ss @ [s]) (encode_schema s)"
proof -
  have ok: "\<forall>f \<in> set (s_fields s). field_def_ok f" and val: "validate_schema s = Inr ()"
    and ver: "s_version s = of_nat (length ss) + 1"
    using assms by (simp_all add: schema_ok_def)
  have same: "\<lparr>s_version = of_nat (length ss) + 1, s_fields = s_fields s\<rparr> = s"
    using ver by (cases s) simp
  note l = field_def_list [OF ok, of "[]"]
  let ?k = "\<lambda>(fs, d). let s' = \<lparr>s_version = s_version s, s_fields = fs\<rparr> in
      res_bind (map_err (\<lambda>e. Corrupt (display_error e)) (validate_schema s')) (\<lambda>_.
      if s_version s \<noteq> of_nat (length ss) + 1 then Inl (Corrupt ''nonsequential schema versions'')
      else Inr (ss @ [s'], d))"
  have "parses (\<lambda>d. res_bind (d_count 14 d) (\<lambda>(n, d). res_bind (d_repeat n decode_field_def [] d) ?k))
      (ss @ [s]) (e_u64 (of_nat (length (s_fields s))) @ concat (map encode_field_def (s_fields s)))"
  proof (rule parses_count [where g = "\<lambda>n d. res_bind (d_repeat n decode_field_def [] d) ?k"])
    have p: "parses (d_repeat (length (s_fields s)) decode_field_def []) (s_fields s)
        (concat (map encode_field_def (s_fields s)))"
      using field_def_format.parses_repeat [of "[]" "s_fields s"] l by simp
    show "parses (\<lambda>d. res_bind (d_repeat (length (s_fields s)) decode_field_def [] d) ?k)
        (ss @ [s]) (concat (map encode_field_def (s_fields s)))"
      by (rule parses_end, rule parses_bind, rule p) (simp add: Let_def val same ver)
    show "length (s_fields s) * max 14 1 \<le> length (concat (map encode_field_def (s_fields s)))"
      using length_concat_ge [of "s_fields s" 14 encode_field_def] by (simp add: length_encode_field_def)
  qed
  then show ?thesis
    unfolding decode_schema_def [abs_def] encode_schema_def
    by (rule parses_bind [OF parses_u64])
qed

interpretation schema_format: loop_format encode_schema decode_schema
  "\<lambda>ss s. schema_ok (length ss) s" "\<lambda>ss s. ss @ [s]"
  by unfold_locales (rule parses_schema)

lemma schema_list:
  "(\<forall>n < length xs. schema_ok (length ss + n) (xs ! n)) \<Longrightarrow>
   schema_format.ok_list ss xs \<and> foldl (\<lambda>ss s. ss @ [s]) ss xs = ss @ xs"
proof (induction xs arbitrary: ss)
  case (Cons x xs)
  have "schema_ok (length ss) x" using Cons.prems by fastforce
  moreover have "\<forall>n < length xs. schema_ok (length (ss @ [x]) + n) (xs ! n)"
    using Cons.prems by fastforce
  ultimately show ?case using Cons.IH [of "ss @ [x]"] by simp
qed simp

lemma length_encode_schema: "16 \<le> length (encode_schema s)"
  by (simp add: encode_schema_def)

lemma parses_decode_table:
  assumes "table_ok t"
  shows "parses decode_table t (encode_table t)"
proof -
  have l: "schema_format.ok_list [] (t_schemas t)"
      "foldl (\<lambda>ss s. ss @ [s]) [] (t_schemas t) = t_schemas t"
    using schema_list [of "t_schemas t" "[]"] assms by (auto simp: table_ok_def)
  have same: "\<lparr>t_id = t_id t, t_name = t_name t, t_schemas = t_schemas t\<rparr> = t"
    by (cases t) simp
  let ?k = "\<lambda>(ss, d). if t_id t = 0 \<or> ss = [] then Inl (Corrupt ''invalid table'')
     else res_bind (map_err (\<lambda>e. Corrupt (display_error e)) (validate_name (t_name t))) (\<lambda>_.
       Inr (\<lparr>t_id = t_id t, t_name = t_name t, t_schemas = ss\<rparr>, d))"
  let ?cs = "concat (map encode_schema (t_schemas t))"
  have "parses (\<lambda>d. res_bind (d_count 16 d) (\<lambda>(n, d). res_bind (d_repeat n decode_schema [] d) ?k))
      t (e_u64 (of_nat (length (t_schemas t))) @ ?cs)"
  proof (rule parses_count [where g = "\<lambda>n d. res_bind (d_repeat n decode_schema [] d) ?k"])
    have p: "parses (d_repeat (length (t_schemas t)) decode_schema []) (t_schemas t) ?cs"
      using schema_format.parses_repeat [OF l(1)] by (simp add: l(2))
    show "parses (\<lambda>d. res_bind (d_repeat (length (t_schemas t)) decode_schema [] d) ?k) t ?cs"
      by (rule parses_end, rule parses_bind, rule p) (use assms in \<open>simp add: same table_ok_def\<close>)
    show "length (t_schemas t) * max 16 1 \<le> length ?cs"
      using length_concat_ge [of "t_schemas t" 16 encode_schema] by (simp add: length_encode_schema)
  qed
  moreover have "utf8_valid (t_name t)" using assms by (simp add: table_ok_def)
  ultimately show ?thesis
    unfolding decode_table_def [abs_def] encode_table_def
    by (intro parses_bind [OF parses_u64] parses_bind [OF parses_string])
qed

interpretation table_format: item_format encode_table decode_table table_ok
  by unfold_locales (rule parses_decode_table)

section \<open>Normalised rows\<close>

text \<open>The field a schema gives an identifier, and what it means for a row to conform.\<close>

definition conforms_partially :: "schema \<Rightarrow> fields \<Rightarrow> bool" where
  "conforms_partially s fs = (\<forall>e \<in> set fs. \<exists>f. find_field s (fst e) = Some f \<and> value_valid (snd e) f)"

definition conforms :: "schema \<Rightarrow> fields \<Rightarrow> bool" where
  "conforms s fs = (bt_ok fs \<and> conforms_partially s fs \<and>
     (\<forall>f \<in> set (s_fields s). bt_has fs (f_id f)) \<and> length (encode_fields fs) \<le> MAX_RECORD div 2)"

definition ids_unique :: "schema \<Rightarrow> bool" where
  "ids_unique s = distinct (map f_id (s_fields s))"

lemma check_entries_iff:
  "res_fold (check_entry s) fs () = Inr u \<longleftrightarrow> conforms_partially s fs"
  by (induction fs) (auto simp: conforms_partially_def check_entry_def res_simps split: if_splits)

lemma find_field_Some: "find_field s i = Some f \<Longrightarrow> f \<in> set (s_fields s) \<and> f_id f = i"
  by (auto simp: find_field_def find_Some_iff)

lemma find_field_unique:
  "ids_unique s \<Longrightarrow> f \<in> set (s_fields s) \<Longrightarrow> find_field s (f_id f) = Some f"
proof -
  assume u: "ids_unique s" and f: "f \<in> set (s_fields s)"
  then obtain g where g: "find_field s (f_id f) = Some g"
    by (cases "find_field s (f_id f)") (auto simp: find_field_def find_None_iff)
  with u f show ?thesis
    using find_field_Some [OF g] by (auto simp: ids_unique_def distinct_map inj_on_def)
qed

lemma fill_all:
  assumes "res_fold fill_missing gs fs = Inr fs'" "bt_ok fs"
  shows "bt_ok fs' \<and> map_of fs \<subseteq>\<^sub>m map_of fs' \<and> (\<forall>g \<in> set gs. bt_has fs' (f_id g)) \<and>
    (\<forall>i v. map_of fs' i = Some v \<longrightarrow> map_of fs i = Some v \<or>
       map_of fs i = None \<and> v = Null \<and> (\<exists>g \<in> set gs. f_id g = i \<and> f_nullable g))"
  using assms
proof (induction gs arbitrary: fs)
  case (Cons g gs)
  then obtain u where u: "fill_missing g fs = Inr u" "res_fold fill_missing gs u = Inr fs'"
    by (auto simp: res_simps)
  have step: "bt_ok u" "map_of fs \<subseteq>\<^sub>m map_of u" "bt_has u (f_id g)"
      "\<forall>i v. map_of u i = Some v \<longrightarrow> map_of fs i = Some v \<or>
         map_of fs i = None \<and> v = Null \<and> f_id g = i \<and> f_nullable g"
    using u(1) Cons.prems(2)
    by (auto simp: fill_missing_def bt_has_def map_le_def split: if_splits)
  note ih = Cons.IH [OF u(2) step(1)]
  have "bt_has fs' (f_id g)"
    using ih step(3) by (auto simp: bt_has_def map_le_def dom_def)
  moreover have "map_of fs \<subseteq>\<^sub>m map_of fs'"
    using ih step(2) map_le_trans by blast
  moreover have "map_of fs i = Some v \<or> map_of fs i = None \<and> v = Null \<and>
      (\<exists>g' \<in> set (g # gs). f_id g' = i \<and> f_nullable g')" if v: "map_of fs' i = Some v" for i v
  proof (cases "map_of u i")
    case None
    then have "map_of fs i = None" using step(2) by (metis domIff map_le_implies_dom_le subsetD)
    moreover have "map_of u i = Some v \<or> v = Null \<and> (\<exists>g \<in> set gs. f_id g = i \<and> f_nullable g)"
      using ih v by blast
    ultimately show ?thesis using None by auto
  next
    case (Some w)
    then have "v = w" using ih v by (metis domI map_le_def option.inject)
    with Some step(4) show ?thesis by auto
  qed
  ultimately show ?case using ih by auto
qed auto

lemma normalize_partial:
  assumes "normalize s fs False = Inr fs'"
  shows "fs' = fs \<and> conforms_partially s fs \<and> length (encode_fields fs) \<le> MAX_RECORD div 2"
  using assms by (auto simp: normalize_def res_simps check_entries_iff split: if_splits)

lemma normalize_complete:
  assumes "normalize s fs True = Inr fs'" "bt_ok fs" "ids_unique s"
  shows "conforms s fs'" and "map_of fs \<subseteq>\<^sub>m map_of fs'"
    and "\<And>i. map_of fs i = None \<Longrightarrow> map_of fs' i \<in> {None, Some Null}"
proof -
  have part: "conforms_partially s fs" and fill: "res_fold fill_missing (s_fields s) fs = Inr fs'"
    and len: "length (encode_fields fs') \<le> MAX_RECORD div 2"
    using assms(1) by (auto simp: normalize_def res_simps check_entries_iff split: if_splits)
  note all = fill_all [OF fill assms(2)]
  show "map_of fs \<subseteq>\<^sub>m map_of fs'" using all by blast
  show "map_of fs' i \<in> {None, Some Null}" if "map_of fs i = None" for i
  proof (cases "map_of fs' i")
    case (Some v)
    then have "map_of fs i = Some v \<or> v = Null" using all by blast
    then show ?thesis using Some that by auto
  qed simp
  have "\<exists>f. find_field s i = Some f \<and> value_valid v f" if "(i, v) \<in> set fs'" for i v
  proof -
    have "map_of fs' i = Some v" using that all by (simp add: bt_ok_mem_iff)
    then consider "map_of fs i = Some v"
      | g where "v = Null" "g \<in> set (s_fields s)" "f_id g = i" "f_nullable g" using all by blast
    then show ?thesis
    proof cases
      case 1
      then have "(i, v) \<in> set fs" by (rule map_of_SomeD)
      with part show ?thesis by (auto simp: conforms_partially_def)
    next
      case 2
      then show ?thesis using find_field_unique [OF assms(3)] by auto
    qed
  qed
  with all len show "conforms s fs'" by (auto simp: conforms_def conforms_partially_def)
qed

lemma normalize_conforming:
  assumes "conforms s fs"
  shows "normalize s fs True = Inr fs"
proof -
  have "\<forall>f \<in> set gs. bt_has fs (f_id f) \<Longrightarrow> res_fold fill_missing gs fs = Inr fs" for gs
    by (induction gs) (auto simp: fill_missing_def)
  with assms show ?thesis
    using check_entries_iff [of s fs] by (auto simp: normalize_def conforms_def)
qed

lemma validate_fields_distinct:
  "validate_fields ids names fs = Inr u \<Longrightarrow>
   distinct (map f_id fs) \<and> distinct (map f_name fs) \<and> 0 \<notin> f_id ` set fs \<and>
   f_id ` set fs \<inter> set ids = {} \<and> f_name ` set fs \<inter> set names = {}"
  by (induction ids names fs rule: validate_fields.induct) (auto simp: res_simps split: if_splits)

lemma validate_schema_unique: "validate_schema s = Inr u \<Longrightarrow> ids_unique s"
  using validate_fields_distinct [of "[]" "[]" "s_fields s" u]
  by (auto simp: validate_schema_def ids_unique_def split: if_splits)

section \<open>Applying events\<close>

text \<open>A table whose schemas passed validation, each at the version its position gives it.\<close>

definition table_valid :: "table \<Rightarrow> bool" where
  "table_valid t = (t_schemas t \<noteq> [] \<and> (\<forall>n < length (t_schemas t).
     s_version (t_schemas t ! n) = of_nat n + 1 \<and> validate_schema (t_schemas t ! n) = Inr ()))"

text \<open>An entity whose row conforms to the schema version it names.\<close>

definition entity_valid :: "table \<Rightarrow> entity \<Rightarrow> bool" where
  "entity_valid t e = (\<exists>s. table_version t (en_schema e) = Inr s \<and> conforms s (en_fields e))"

lemma table_version_valid:
  "table_valid t \<Longrightarrow> table_version t v = Inr s \<Longrightarrow> ids_unique s \<and> s \<in> set (t_schemas t) \<and> s_version s = v"
  by (auto simp: table_version_def res_simps find_Some_iff table_valid_def validate_schema_unique in_set_conv_nth)

lemma apply_event_Inr:
  assumes "apply_event st ev t = Inr st'"
  shows "\<not> en_deleted st" "unat (ev_version ev) = unat (en_version st) + 1"
    "en_version st' = ev_version ev" "en_id st' = en_id st" "en_schema st' = ev_schema ev"
    "en_deleted st' \<longleftrightarrow> ev_kind ev = DeleteEvent"
    "\<exists>s. table_version t (ev_schema ev) = Inr s \<and>
       normalize s (bt_extend (en_fields st) (ev_fields ev)) True = Inr (en_fields st')"
  using assms checked_add64_Some_iff [of "en_version st" 1 "ev_version ev"]
  by (auto simp: apply_event_def res_simps split: if_splits)

lemma apply_event_valid:
  assumes "apply_event st ev t = Inr st'" "table_valid t" "bt_ok (en_fields st)"
  shows "entity_valid t st'" and "bt_ok (ev_fields ev) \<Longrightarrow> map_of (en_fields st) ++ map_of (ev_fields ev) \<subseteq>\<^sub>m map_of (en_fields st')"
proof -
  obtain s where s: "table_version t (ev_schema ev) = Inr s"
      "normalize s (bt_extend (en_fields st) (ev_fields ev)) True = Inr (en_fields st')"
    using apply_event_Inr(7) [OF assms(1)] by blast
  have u: "ids_unique s" using table_version_valid [OF assms(2) s(1)] by simp
  have ok: "bt_ok (bt_extend (en_fields st) (ev_fields ev))" using assms(3) by simp
  show "entity_valid t st'"
    using normalize_complete(1) [OF s(2) ok u] s(1) apply_event_Inr(5) [OF assms(1)]
    by (auto simp: entity_valid_def)
  show "map_of (en_fields st) ++ map_of (ev_fields ev) \<subseteq>\<^sub>m map_of (en_fields st')" if "bt_ok (ev_fields ev)"
    using normalize_complete(2) [OF s(2) ok u] by (simp add: map_of_bt_extend [OF that])
qed

section \<open>Properties\<close>

text \<open>
  C33 (record_roundtrip): an entity or event whose field map is well formed is decoded from its
  encoding unchanged, with nothing left over.
\<close>

theorem record_roundtrip:
  assumes "fields_ok (en_fields e)" "length (encode_entity e) < 2 ^ 63"
    and "fields_ok (ev_fields v)" "length (encode_event v) < 2 ^ 63"
  shows "decode_entity (encode_entity e) = Inr e \<and> decode_event (encode_event v) = Inr v"
  using assms by (simp add: decode_encode_entity decode_encode_event)

lemma record_roundtrip_witness:
  "let fs = [(1, Int64V 5), (2, TextV (ascii ''hi'')), (7, Null)];
       e = \<lparr>en_id = 3, en_version = 2, en_schema = 1, en_deleted = False, en_fields = fs\<rparr> in
   decode_entity (encode_entity e) = Inr e"
proof -
  let ?fs = "[(1, Int64V 5), (2, TextV (ascii ''hi'')), (7, Null)] :: fields"
  have "utf8_chars (ascii ''hi'') = Some [104, 105]" by (simp add: ascii_def)
  then have ok: "fields_ok ?fs" by (simp add: fields_ok_def bt_ok_def utf8_valid_def)
  show ?thesis
    unfolding Let_def
    by (rule conjunct1 [OF record_roundtrip [where v = "\<lparr>ev_version = 1, ev_transaction = 1, ev_schema = 1,
          ev_kind = ApplyEvent, ev_fields = []\<rparr>"]])
       (use ok in \<open>simp_all add: encode_entity_def encode_event_def encode_fields_def encode_field_entry_def fields_ok_def\<close>)
qed

text \<open>
  (table_roundtrip) a table with its whole schema history is decoded from its encoding
  unchanged, with nothing left over.
\<close>

theorem table_roundtrip:
  assumes "table_ok t" "length (encode_table t) < 2 ^ 63"
  shows "res_bind (decode_table (d_new (encode_table t))) (\<lambda>(v, d). res_bind (d_finish d) (\<lambda>_. Inr v)) = Inr t"
  by (rule table_format.dec_enc_whole [OF assms])

text \<open>
  The length a row is charged without encoding it is the length of its
  encoding.
\<close>

theorem row_length_exact: "fields_encoded_len fs = length (encode_fields fs)"
  by (rule fields_encoded_len_correct)

text \<open>
  C35 (normalize_sound): normalising a row under a validated schema gives a row that conforms to
  it: every declared field present, every value of its declared type, no other field. Values given
  are kept, only nulls are added, and normalising again changes nothing.
\<close>

theorem normalize_sound:
  assumes "validate_schema s = Inr ()" "bt_ok fs" "normalize s fs True = Inr fs'"
  shows "conforms s fs' \<and> map_of fs \<subseteq>\<^sub>m map_of fs' \<and>
    (\<forall>i. map_of fs i = None \<longrightarrow> map_of fs' i \<in> {None, Some Null}) \<and> normalize s fs' True = Inr fs'"
proof -
  note n = normalize_complete [OF assms(3,2) validate_schema_unique [OF assms(1)]]
  show ?thesis using n normalize_conforming [OF n(1)] by blast
qed

text \<open>
  C32 (apply_event_step): an event is applied only to a live entity and only as its next version;
  the entity it gives carries the event's version and schema, conforms to that schema, holds the
  old row overridden by the event's fields, and is deleted exactly after a delete event.
\<close>

theorem apply_event_step:
  assumes "apply_event st ev t = Inr st'" "table_valid t" "bt_ok (en_fields st)" "bt_ok (ev_fields ev)"
  shows "\<not> en_deleted st \<and> unat (en_version st') = unat (en_version st) + 1 \<and>
    en_version st' = ev_version ev \<and> en_id st' = en_id st \<and> en_schema st' = ev_schema ev \<and>
    (en_deleted st' \<longleftrightarrow> ev_kind ev = DeleteEvent) \<and> entity_valid t st' \<and>
    map_of (en_fields st) ++ map_of (ev_fields ev) \<subseteq>\<^sub>m map_of (en_fields st')"
  using apply_event_Inr [OF assms(1)] apply_event_valid [OF assms(1-3)] assms(4) by simp

section \<open>A concrete table\<close>

definition sample_schema :: schema where
  "sample_schema = \<lparr>s_version = 1, s_fields =
     [\<lparr>f_id = 1, f_name = ascii ''name'', f_type = TextT, f_nullable = False\<rparr>,
      \<lparr>f_id = 2, f_name = ascii ''age'', f_type = Int64T, f_nullable = True\<rparr>]\<rparr>"

definition sample_table :: table where
  "sample_table = \<lparr>t_id = 1, t_name = ascii ''users'', t_schemas = [sample_schema]\<rparr>"

lemma sample_chars:
  "utf8_chars (ascii ''name'') = Some [110, 97, 109, 101]" "utf8_chars (ascii ''age'') = Some [97, 103, 101]"
  "utf8_chars (ascii ''users'') = Some [117, 115, 101, 114, 115]" "utf8_chars (ascii ''ann'') = Some [97, 110, 110]"
  by (simp_all add: ascii_def)

lemma sample_valid: "validate_schema sample_schema = Inr ()" "validate_name (t_name sample_table) = Inr ()"
  by (simp_all add: validate_schema_def sample_schema_def sample_table_def validate_name_def sample_chars
      char_is_whitespace_def char_is_control_def) (simp add: ascii_def)

lemma sample_normalize:
  "normalize sample_schema [(1, TextV (ascii ''ann''))] True = Inr [(1, TextV (ascii ''ann'')), (2, Null)]"
  by (simp add: normalize_def sample_schema_def check_entry_def find_field_def fill_missing_def bt_has_def
      encode_fields_def encode_field_entry_def MAX_RECORD_def)

lemma normalize_sound_witness:
  "conforms sample_schema [(1, TextV (ascii ''ann'')), (2, Null)]"
  using normalize_sound [OF sample_valid(1) _ sample_normalize] by simp

lemma sample_ok: "table_ok sample_table" "length (encode_table sample_table) < 2 ^ 63"
  using sample_valid
  by (simp_all add: table_ok_def schema_ok_def field_def_ok_def sample_table_def sample_schema_def
      utf8_valid_def sample_chars encode_table_def encode_schema_def encode_field_def_def)

lemma table_roundtrip_witness:
  "res_bind (decode_table (d_new (encode_table sample_table))) (\<lambda>(v, d). res_bind (d_finish d) (\<lambda>_. Inr v)) =
   Inr sample_table"
  by (rule table_roundtrip [OF sample_ok])

lemma sample_table_valid: "table_valid sample_table"
  using sample_valid(1) by (simp add: table_valid_def sample_table_def) (simp add: sample_schema_def)

lemma apply_event_step_witness:
  "\<exists>st'. apply_event \<lparr>en_id = 4, en_version = 0, en_schema = 1, en_deleted = False, en_fields = []\<rparr>
      \<lparr>ev_version = 1, ev_transaction = 9, ev_schema = 1, ev_kind = ApplyEvent,
       ev_fields = [(1, TextV (ascii ''ann''))]\<rparr> sample_table = Inr st' \<and> entity_valid sample_table st'"
proof -
  let ?e = "\<lparr>en_id = 4, en_version = 0, en_schema = 1, en_deleted = False, en_fields = []\<rparr>"
  let ?v = "\<lparr>ev_version = 1, ev_transaction = 9, ev_schema = 1, ev_kind = ApplyEvent,
       ev_fields = [(1, TextV (ascii ''ann''))]\<rparr>"
  have "table_version sample_table 1 = Inr sample_schema"
    by (simp add: table_version_def sample_table_def sample_schema_def)
  then have "\<exists>st'. apply_event ?e ?v sample_table = Inr st'"
    using sample_normalize by (simp add: apply_event_def checked_add64_def bt_extend_def)
  then obtain st' where "apply_event ?e ?v sample_table = Inr st'" ..
  from apply_event_step [OF this sample_table_valid] this show ?thesis by auto
qed

end
