(* ===== verification/Root_Laws.thy ===== *)
theory Root_Laws
  imports Root Model_Laws
begin

text \<open>
  The laws of the manifest: it is decoded from its encoding unchanged, every part of it through an
  interpretation of the loop format; the slot translation that a new manifest is built with never
  redirects a locator to another generation.
\<close>

section \<open>Decoding maps in key order\<close>

lemma foldl_bt_insert: "bt_ok (s @ xs) \<Longrightarrow> foldl (\<lambda>m e. bt_insert (fst e) (snd e) m) s xs = s @ xs"
proof (induction xs arbitrary: s)
  case (Cons e xs)
  have "\<forall>a \<in> set s. fst a < fst e" using Cons.prems by (auto simp: bt_ok_append)
  then have "bt_insert (fst e) (snd e) s = s @ [e]" using bt_insert_append [of s "fst e" "snd e"] by simp
  then show ?case using Cons.IH [of "s @ [e]"] Cons.prems by simp
qed simp

lemma bt_ok_take: "bt_ok xs \<Longrightarrow> bt_ok (take n xs)"
  by (metis append_take_drop_id bt_ok_append)

lemma foldl_bt_take: "bt_ok xs \<Longrightarrow> foldl (\<lambda>m e. bt_insert (fst e) (snd e) m) [] (take n xs) = take n xs"
  using foldl_bt_insert [of "[]" "take n xs"] bt_ok_take by fastforce

lemma bt_has_take:
  assumes "bt_ok xs" "n < length xs"
  shows "\<not> bt_has (take n xs) (fst (xs ! n))"
proof -
  have "bt_ok (take n xs @ [xs ! n])" using assms by (metis bt_ok_take take_Suc_conv_app_nth)
  then have "\<forall>a \<in> set (take n xs). fst a < fst (xs ! n)" unfolding bt_ok_append by simp
  then have "fst (xs ! n) \<notin> fst ` set (take n xs)" by (metis image_iff less_irrefl)
  then show ?thesis by (simp add: bt_has_def map_of_eq_None_iff)
qed

lemma distinct_take: "distinct (map f xs) \<Longrightarrow> n < length xs \<Longrightarrow> f (xs ! n) \<notin> f ` set (take n xs)"
  by (auto simp: distinct_conv_nth in_set_conv_nth)

lemma min_length: "(\<And>x. x \<in> set xs \<Longrightarrow> m \<le> length (f x)) \<Longrightarrow> 0 < m \<Longrightarrow> length xs * max m 1 \<le> length (concat (map f xs))"
  using length_concat_ge [of xs m f] by (simp add: max.absorb1)

section \<open>The parts of a manifest\<close>

interpretation catalog_format: loop_format "\<lambda>e :: u64 \<times> table. encode_table (snd e)" decode_catalog_entry
  "\<lambda>nc e. table_ok (snd e) \<and> fst e = t_id (snd e) \<and> t_name (snd e) \<notin> set (fst nc) \<and> \<not> bt_has (snd nc) (fst e)"
  "\<lambda>nc e. (t_name (snd e) # fst nc, bt_insert (fst e) (snd e) (snd nc))"
proof
  fix nc :: "bytes list \<times> (u64, table) btree" and e :: "u64 \<times> table"
  assume a: "table_ok (snd e) \<and> fst e = t_id (snd e) \<and> t_name (snd e) \<notin> set (fst nc) \<and> \<not> bt_has (snd nc) (fst e)"
  show "parses (decode_catalog_entry nc) (t_name (snd e) # fst nc, bt_insert (fst e) (snd e) (snd nc)) (encode_table (snd e))"
    unfolding decode_catalog_entry_def [abs_def]
    by (rule parses_end, rule parses_bind, rule table_format.parses_enc) (use a in auto)
qed

interpretation generation_format: loop_format encode_generation decode_generation
  "\<lambda>gs g. gs = [] \<or> g_generation (last gs) < g_generation g" "\<lambda>gs g. gs @ [g]"
proof
  fix gs :: "generation_info list" and g :: generation_info
  assume "gs = [] \<or> g_generation (last gs) < g_generation g"
  then have n: "\<not> (gs \<noteq> [] \<and> g_generation g \<le> g_generation (last gs))" "\<lparr>g_generation = g_generation g, g_lsn = g_lsn g\<rparr> = g"
    by (auto simp: not_le)
  show "parses (decode_generation gs) (gs @ [g]) (encode_generation g)"
    unfolding decode_generation_def [abs_def] encode_generation_def
    by (rule parse_steps)+ (simp only: n if_False parses_return)
qed

interpretation slot_format: loop_format encode_slot_entry "decode_slot_entry gs"
  "\<lambda>slots e. unat (snd e) < length gs \<and> \<not> bt_has slots (fst e)" "\<lambda>slots e. bt_insert (fst e) (snd e) slots" for gs
proof
  fix slots :: "(u8, u8) btree" and e :: "u8 \<times> u8"
  assume a: "unat (snd e) < length gs \<and> \<not> bt_has slots (fst e)"
  show "parses (decode_slot_entry gs slots) (bt_insert (fst e) (snd e) slots) (encode_slot_entry e)"
    unfolding decode_slot_entry_def [abs_def] encode_slot_entry_def
    by (rule parse_steps)+ (use a in \<open>auto simp: not_le\<close>)
qed

interpretation dependency_format: loop_format encode_dependency "decode_dependency t"
  "\<lambda>deps e. fid_table (fst e) = t \<and> fid_kind (fst e) \<in> {2, 6} \<and> \<not> bt_has deps (fst e)"
  "\<lambda>deps e. bt_insert (fst e) (snd e) deps" for t
proof
  fix deps :: "(file_id, unit) btree" and e :: "file_id \<times> unit"
  assume a: "fid_table (fst e) = t \<and> fid_kind (fst e) \<in> {2, 6} \<and> \<not> bt_has deps (fst e)"
  have eta: "file_id_new (fid_table (fst e)) (fid_generation (fst e)) (fid_kind (fst e)) (fid_segment (fst e)) = fst e"
    by (cases "fst e") (simp add: file_id_new_def)
  show "parses (decode_dependency t deps) (bt_insert (fst e) (snd e) deps) (encode_dependency e)"
    unfolding decode_dependency_def [abs_def] encode_dependency_def Let_def
    by ((rule parse_steps)+, unfold eta, use a in auto)
qed

interpretation history_format: loop_format encode_history "decode_history_entry r"
  "\<lambda>hs e. fst e \<le> r_generation r \<and> snd e \<le> r_lsn r \<and> \<not> bt_has hs (fst e)" "\<lambda>hs e. bt_insert (fst e) (snd e) hs" for r
proof
  fix hs :: "(u64, u64) btree" and e :: "u64 \<times> u64"
  assume "fst e \<le> r_generation r \<and> snd e \<le> r_lsn r \<and> \<not> bt_has hs (fst e)"
  then have n: "\<not> (r_generation r < fst e \<or> r_lsn r < snd e \<or> bt_has hs (fst e))" by auto
  show "parses (decode_history_entry r hs) (bt_insert (fst e) (snd e) hs) (encode_history e)"
    unfolding decode_history_entry_def [abs_def] encode_history_def
    by (rule parse_steps)+ (use n in simp)
qed

interpretation file_format: loop_format encode_file_info "decode_file_info r ix"
  "\<lambda>fs f. file_valid r ix f \<and> file_info_id f \<notin> set (snd fs)" "\<lambda>fs f. (fst fs @ [f], file_info_id f # snd fs)" for r ix
proof
  fix fs :: "file_info list \<times> file_id list" and f
  assume a: "file_valid r ix f \<and> file_info_id f \<notin> set (snd fs)"
  have eta: "\<lparr>fi_generation = fi_generation f, fi_table = fi_table f, fi_kind = fi_kind f, fi_segment = fi_segment f,
      fi_size = fi_size f, fi_crc = fi_crc f\<rparr> = f" by (cases f) simp
  show "parses (decode_file_info r ix fs) (fst fs @ [f], file_info_id f # snd fs) (encode_file_info f)"
    unfolding decode_file_info_def [abs_def] encode_file_info_def Let_def
    by ((rule parse_steps)+, use a in \<open>simp add: eta\<close>)
qed

interpretation occupancy_format: loop_format encode_occupancy "decode_occupancy r"
  "\<lambda>os e. bt_has (r_catalog r) (fst (fst e)) \<and> unat (snd (fst e)) < length (r_generations r) \<and>
     oc_dead (snd e) \<le> oc_entities (snd e) \<and> \<not> bt_has os (fst e)"
  "\<lambda>os e. bt_insert (fst e) (snd e) os" for r
proof
  fix os :: "(u64 \<times> u8, occupancy) btree" and e :: "(u64 \<times> u8) \<times> occupancy"
  assume a: "bt_has (r_catalog r) (fst (fst e)) \<and> unat (snd (fst e)) < length (r_generations r) \<and>
     oc_dead (snd e) \<le> oc_entities (snd e) \<and> \<not> bt_has os (fst e)"
  then have n: "\<not> (\<not> bt_has (r_catalog r) (fst (fst e)) \<or> length (r_generations r) \<le> unat (snd (fst e)) \<or>
      oc_entities (snd e) < oc_dead (snd e) \<or> bt_has os (fst (fst e), snd (fst e)))" by auto
  have eta: "\<lparr>oc_entities = oc_entities (snd e), oc_dead = oc_dead (snd e)\<rparr> = snd e" by (cases "snd e") simp
  show "parses (decode_occupancy r os) (bt_insert (fst e) (snd e) os) (encode_occupancy e)"
    unfolding decode_occupancy_def [abs_def] encode_occupancy_def
    by ((rule parse_steps)+, use n in \<open>simp add: eta\<close>)
qed


text \<open>A partition: its file belongs to the table and kind of its route.\<close>

definition partition_ok :: "root \<Rightarrow> route \<times> partition \<Rightarrow> bool" where
  "partition_ok r e = (case e of ((t, kind, lower), part) \<Rightarrow>
     partition_valid r (t, kind, lower) part \<and> fid_table (p_file part) = t \<and> fid_kind (p_file part) = kind \<and>
     bt_ok (p_slots part) \<and> (\<forall>s \<in> set (p_slots part). unat (snd s) < length (r_generations r)) \<and>
     bt_ok (p_dependencies part) \<and>
     (\<forall>f \<in> set (p_dependencies part). fid_table (fst f) = t \<and> fid_kind (fst f) \<in> {2, 6}))"

definition part_root :: "route \<times> partition \<Rightarrow> file_id \<times> u64" where
  "part_root e = (p_file (snd e), p_base (snd e))"

lemma parses_slots:
  assumes "bt_ok xs" "\<forall>s \<in> set xs. unat (snd s) < length gs"
  shows "parses (d_repeat (length xs) (decode_slot_entry gs) []) xs (concat (map encode_slot_entry xs))"
  by (rule slot_format.parses_list) (use assms in \<open>simp_all add: foldl_bt_take bt_has_take foldl_bt_insert [of "[]"]\<close>)

lemma parses_dependencies:
  assumes "bt_ok xs" "\<forall>f \<in> set xs. fid_table (fst f) = t \<and> fid_kind (fst f) \<in> {2, 6}"
  shows "parses (d_repeat (length xs) (decode_dependency t) []) xs (concat (map encode_dependency xs))"
  by (rule dependency_format.parses_list)
     (use assms nth_mem [of _ xs] foldl_bt_take [of xs] foldl_bt_insert [of "[]" xs] in \<open>simp_all add: bt_has_take\<close>)

lemma parses_partition:
  assumes ok: "partition_ok r e" and new: "\<not> bt_has parts (fst e)" "part_root e \<notin> set roots"
  shows "parses (decode_partition r (parts, files, roots))
    (bt_insert (fst e) (snd e) parts, p_file (snd e) # files, part_root e # roots) (encode_partition e)"
proof -
  obtain t kind l0 l1 part where e: "e = ((t, kind, (l0, l1)), part)" by (metis prod.collapse)
  have slots: "bt_ok (p_slots part)" "\<forall>s \<in> set (p_slots part). unat (snd s) < length (r_generations r)"
    and deps: "bt_ok (p_dependencies part)" "\<forall>f \<in> set (p_dependencies part). fid_table (fst f) = t \<and> fid_kind (fst f) \<in> {2, 6}"
    and fl: "fid_table (p_file part) = t" "fid_kind (p_file part) = kind" and valid: "partition_valid r (t, kind, (l0, l1)) part"
    using ok by (auto simp: partition_ok_def e)
  have f: "file_id_new t (fid_generation (p_file part)) kind (fid_segment (p_file part)) = p_file part"
    using fl by (cases "p_file part") (simp add: file_id_new_def)
  have eta: "\<lparr>p_file = p_file part, p_lsn = p_lsn part, p_base = p_base part,
      p_first = (fst (p_first part), snd (p_first part)), p_last = (fst (p_last part), snd (p_last part)),
      p_slots = p_slots part, p_dependencies = p_dependencies part\<rparr> = part" by (cases part) simp
  have len: "length (p_slots part) * max 2 1 \<le> length (concat (map encode_slot_entry (p_slots part)))"
    "length (p_dependencies part) * max 25 1 \<le> length (concat (map encode_dependency (p_dependencies part)))"
    by (rule min_length; simp add: encode_slot_entry_def encode_dependency_def)+
  note r = new [unfolded part_root_def e fst_conv snd_conv]
  show ?thesis
    unfolding decode_partition_def [abs_def] encode_partition_def e prod.case
    apply (rule parse_steps)+
    apply (rule parses_loop [OF parses_slots [OF slots] len(1)])
    apply (rule parses_loop_last [OF parses_dependencies [OF deps] len(2)])
    apply (simp only: f Let_def eta)
    using valid r by (simp add: part_root_def)
qed

interpretation partition_format: loop_format encode_partition "decode_partition r"
  "\<lambda>ps e. partition_ok r e \<and> \<not> bt_has (fst ps) (fst e) \<and> part_root e \<notin> set (snd (snd ps))"
  "\<lambda>ps e. (bt_insert (fst e) (snd e) (fst ps), p_file (snd e) # fst (snd ps), part_root e # snd (snd ps))" for r
proof
  fix ps :: partition_state and e
  assume "partition_ok r e \<and> \<not> bt_has (fst ps) (fst e) \<and> part_root e \<notin> set (snd (snd ps))"
  then show "parses (decode_partition r ps)
      (bt_insert (fst e) (snd e) (fst ps), p_file (snd e) # fst (snd ps), part_root e # snd (snd ps)) (encode_partition e)"
    using parses_partition [of r e "fst ps" "snd (snd ps)" "fst (snd ps)"] by simp
qed

section \<open>Well-formed manifests\<close>

definition root_ok :: "root \<Rightarrow> bool" where
  "root_ok r = (
     bt_ok (r_catalog r) \<and> (\<forall>e \<in> set (r_catalog r). table_ok (snd e) \<and> fst e = t_id (snd e)) \<and>
     distinct (map (\<lambda>e. t_name (snd e)) (r_catalog r)) \<and>
     sorted_wrt (<) (map g_generation (r_generations r)) \<and> length (r_generations r) \<le> MAX_SLOTS \<and>
     r_generations r \<noteq> [] \<and> g_generation (last (r_generations r)) = r_generation r \<and>
     bt_ok (r_partitions r) \<and> (\<forall>e \<in> set (r_partitions r). partition_ok r e) \<and> distinct (map part_root (r_partitions r)) \<and>
     bt_ok (r_history_generations r) \<and>
     (\<forall>e \<in> set (r_history_generations r). fst e \<le> r_generation r \<and> snd e \<le> r_lsn r) \<and>
     distinct (root_file_ids r) \<and>
     (\<forall>f \<in> set (r_files r). file_valid r (map (p_file \<circ> snd) (r_partitions r)) f) \<and>
     (\<forall>e \<in> set (r_partitions r). check_partition (r_files r) (snd e) = Inr ()) \<and>
     bt_ok (r_occupancy r) \<and>
     (\<forall>e \<in> set (r_occupancy r). bt_has (r_catalog r) (fst (fst e)) \<and> unat (snd (fst e)) < length (r_generations r) \<and>
       oc_dead (snd e) \<le> oc_entities (snd e)))"

lemma parses_catalog:
  assumes "bt_ok xs" "\<forall>e \<in> set xs. table_ok (snd e) \<and> fst e = t_id (snd e)" "distinct (map (\<lambda>e. t_name (snd e)) xs)"
  shows "parses (d_repeat (length xs) decode_catalog_entry ([], [])) (rev (map (\<lambda>e. t_name (snd e)) xs), xs)
    (concat (map (\<lambda>e. encode_table (snd e)) xs))"
proof (rule catalog_format.parses_list)
  have fold: "foldl (\<lambda>nc e. (t_name (snd e) # fst nc, bt_insert (fst e) (snd e) (snd nc))) (ns, m) ys =
      (rev (map (\<lambda>e. t_name (snd e)) ys) @ ns, foldl (\<lambda>m e. bt_insert (fst e) (snd e) m) m ys)" for ns m ys
    by (induction ys arbitrary: ns m) auto
  show "(rev (map (\<lambda>e. t_name (snd e)) xs), xs) =
      foldl (\<lambda>nc e. (t_name (snd e) # fst nc, bt_insert (fst e) (snd e) (snd nc))) ([], []) xs"
    using assms(1) by (simp add: fold foldl_bt_insert [of "[]"])
  fix n assume n: "n < length xs"
  have "t_name (snd (xs ! n)) \<notin> (\<lambda>e. t_name (snd e)) ` set (take n xs)"
    using distinct_take [OF assms(3) n] .
  then show "table_ok (snd (xs ! n)) \<and> fst (xs ! n) = t_id (snd (xs ! n)) \<and>
      t_name (snd (xs ! n)) \<notin> set (fst (foldl (\<lambda>nc e. (t_name (snd e) # fst nc, bt_insert (fst e) (snd e) (snd nc))) ([], []) (take n xs))) \<and>
      \<not> bt_has (snd (foldl (\<lambda>nc e. (t_name (snd e) # fst nc, bt_insert (fst e) (snd e) (snd nc))) ([], []) (take n xs))) (fst (xs ! n))"
    using assms n nth_mem [OF n] bt_has_take [OF assms(1) n] by (simp add: fold foldl_bt_take)
qed

lemma foldl_snoc: "foldl (\<lambda>xs x. xs @ [x]) s xs = s @ xs"
  by (induction xs arbitrary: s) auto

lemma parses_generations:
  assumes "sorted_wrt (<) (map g_generation xs)"
  shows "parses (d_repeat (length xs) decode_generation []) xs (concat (map encode_generation xs))"
proof (rule generation_format.parses_list)
  fix n assume n: "n < length xs"
  show "foldl (\<lambda>gs g. gs @ [g]) [] (take n xs) = [] \<or>
      g_generation (last (foldl (\<lambda>gs g. gs @ [g]) [] (take n xs))) < g_generation (xs ! n)"
    using assms n by (cases n) (simp_all add: foldl_snoc take_Suc_conv_app_nth sorted_wrt_iff_nth_less)
qed (simp add: foldl_snoc)

lemma parses_partitions:
  assumes "bt_ok xs" "\<forall>e \<in> set xs. partition_ok r e" "distinct (map part_root xs)"
  shows "parses (d_repeat (length xs) (decode_partition r) ([], [], []))
    (xs, rev (map (p_file \<circ> snd) xs), rev (map part_root xs)) (concat (map encode_partition xs))"
proof (rule partition_format.parses_list)
  let ?f = "\<lambda>ps e. (bt_insert (fst e) (snd e) (fst ps), p_file (snd e) # fst (snd ps), part_root e # snd (snd ps))"
  have fold: "foldl ?f (m, fs, rs) ys = (foldl (\<lambda>m e. bt_insert (fst e) (snd e) m) m ys,
      rev (map (p_file \<circ> snd) ys) @ fs, rev (map part_root ys) @ rs)" for m fs rs ys
    by (induction ys arbitrary: m fs rs) auto
  show "(xs, rev (map (p_file \<circ> snd) xs), rev (map part_root xs)) = foldl ?f ([], [], []) xs"
    using assms(1) by (simp add: fold foldl_bt_insert [of "[]"])
  fix n assume n: "n < length xs"
  show "partition_ok r (xs ! n) \<and> \<not> bt_has (fst (foldl ?f ([], [], []) (take n xs))) (fst (xs ! n)) \<and>
      part_root (xs ! n) \<notin> set (snd (snd (foldl ?f ([], [], []) (take n xs))))"
    using assms n nth_mem [OF n] distinct_take [OF assms(3) n] by (simp add: fold foldl_bt_take bt_has_take)
qed

lemma parses_history:
  assumes "bt_ok xs" "\<forall>e \<in> set xs. fst e \<le> r_generation r \<and> snd e \<le> r_lsn r"
  shows "parses (d_repeat (length xs) (decode_history_entry r) []) xs (concat (map encode_history xs))"
  by (rule history_format.parses_list)
     (use assms nth_mem [of _ xs] in \<open>simp_all add: foldl_bt_take bt_has_take foldl_bt_insert [of "[]"]\<close>)

lemma parses_files:
  assumes "\<forall>f \<in> set xs. file_valid r ix f" "distinct (map file_info_id xs)"
  shows "parses (d_repeat (length xs) (decode_file_info r ix) ([], [])) (xs, rev (map file_info_id xs))
    (concat (map encode_file_info xs))"
proof (rule file_format.parses_list)
  have fold: "foldl (\<lambda>fs f. (fst fs @ [f], file_info_id f # snd fs)) (a, b) ys = (a @ ys, rev (map file_info_id ys) @ b)" for a b ys
    by (induction ys arbitrary: a b) auto
  show "(xs, rev (map file_info_id xs)) = foldl (\<lambda>fs f. (fst fs @ [f], file_info_id f # snd fs)) ([], []) xs"
    by (simp add: fold)
  fix n assume n: "n < length xs"
  show "file_valid r ix (xs ! n) \<and> file_info_id (xs ! n) \<notin>
      set (snd (foldl (\<lambda>fs f. (fst fs @ [f], file_info_id f # snd fs)) ([], []) (take n xs)))"
    using assms(1) nth_mem [OF n] distinct_take [OF assms(2) n] by (simp add: fold)
qed

lemma parses_occupancies:
  assumes "bt_ok xs" "\<forall>e \<in> set xs. bt_has (r_catalog r) (fst (fst e)) \<and> unat (snd (fst e)) < length (r_generations r) \<and>
       oc_dead (snd e) \<le> oc_entities (snd e)"
  shows "parses (d_repeat (length xs) (decode_occupancy r) []) xs (concat (map encode_occupancy xs))"
  by (rule occupancy_format.parses_list)
     (use assms nth_mem [of _ xs] in \<open>simp_all add: foldl_bt_take bt_has_take foldl_bt_insert [of "[]"]\<close>)


section \<open>The whole manifest\<close>

definition root_body :: "decoder \<Rightarrow> (root \<times> decoder) res" where
  "root_body d =
     res_bind (d_u64 d) (\<lambda>(generation, d). res_bind (d_u64 d) (\<lambda>(lsn, d).
     res_bind (d_count 25 d) (\<lambda>(n, d). res_bind (d_repeat n decode_catalog_entry ([], []) d) (\<lambda>(nc, d).
     res_bind (d_count 16 d) (\<lambda>(n, d). res_bind (d_repeat n decode_generation [] d) (\<lambda>(gs, d).
     if length gs > MAX_SLOTS \<or> gs = [] \<or> g_generation (last gs) \<noteq> generation
     then Inl (Corrupt ''invalid generation list'')
     else let r = root_empty\<lparr>r_generation := generation, r_lsn := lsn, r_catalog := snd nc, r_generations := gs\<rparr> in
     res_bind (d_count 105 d) (\<lambda>(n, d). res_bind (d_repeat n (decode_partition r) ([], [], []) d) (\<lambda>(ps, d).
     res_bind (d_u8 d) (\<lambda>(flag, d).
     res_bind (if flag = 0 then Inr False else if flag = 1 then Inr True
               else Inl (Corrupt ''invalid history compaction flag'')) (\<lambda>compacted.
     res_bind (d_count 16 d) (\<lambda>(n, d). res_bind (d_repeat n (decode_history_entry r) [] d) (\<lambda>(hs, d).
     let r = r\<lparr>r_partitions := fst ps, r_history_compacted := compacted, r_history_generations := hs\<rparr> in
     res_bind (d_count 37 d) (\<lambda>(n, d). res_bind (d_repeat n (decode_file_info r (fst (snd ps))) ([], []) d) (\<lambda>(fs, d).
     res_bind (res_fold (\<lambda>part _. check_partition (fst fs) part) (map snd (r_partitions r)) ()) (\<lambda>_.
     res_bind (d_count 25 d) (\<lambda>(n, d). res_bind (d_repeat n (decode_occupancy r) [] d) (\<lambda>(os, d).
       Inr (r\<lparr>r_files := fst fs, r_occupancy := os\<rparr>, d))))))))))))))))))"

lemma res_bind_if: "res_bind (if c then a else b) f = (if c then res_bind a f else res_bind b f)"
  by simp

lemma decode_root_body:
  "decode_root bs = res_bind (root_body (d_new bs)) (\<lambda>(v, d). res_bind (d_finish d) (\<lambda>_. Inr v))"
  by (simp add: decode_root_def root_body_def case_prod_unfold Let_def res_bind_if cong: if_cong)

lemma partition_ok_cong:
  assumes "r_catalog r = r_catalog r'" "r_generation r = r_generation r'" "r_lsn r = r_lsn r'"
    "r_generations r = r_generations r'"
  shows "partition_ok r e = partition_ok r' e"
  using assms by (auto simp: partition_ok_def partition_valid_def split: prod.split)

lemma file_valid_cong:
  assumes "r_catalog r = r_catalog r'" "r_history_generations r = r_history_generations r'"
    "r_generations r = r_generations r'" "set ix = set ix'"
  shows "file_valid r ix f = file_valid r' ix' f"
  using assms by (simp add: file_valid_def)

lemma length_encode_partition: "105 \<le> length (encode_partition e)"
  by (simp add: encode_partition_def split: prod.split)

lemma length_encode_table: "table_ok t \<Longrightarrow> 25 \<le> length (encode_table t)"
  using length_encode_schema [of "hd (t_schemas t)"]
  by (cases "t_schemas t") (simp_all add: encode_table_def table_ok_def)

lemma res_fold_checks: "\<forall>x \<in> set xs. f x () = Inr () \<Longrightarrow> res_fold f xs () = Inr ()"
  by (induction xs) auto

lemma parses_root:
  assumes ok: "root_ok r"
  shows "parses root_body r (encode_root r)"
proof -
  let ?r1 = "root_empty\<lparr>r_generation := r_generation r, r_lsn := r_lsn r, r_catalog := r_catalog r,
    r_generations := r_generations r\<rparr>"
  let ?r2 = "?r1\<lparr>r_partitions := r_partitions r, r_history_compacted := r_history_compacted r,
    r_history_generations := r_history_generations r\<rparr>"
  let ?ix = "rev (map (p_file \<circ> snd) (r_partitions r))"
  have eta: "?r2\<lparr>r_files := r_files r, r_occupancy := r_occupancy r\<rparr> = r" by (cases r) simp
  have cat: "bt_ok (r_catalog r)" "\<forall>e \<in> set (r_catalog r). table_ok (snd e) \<and> fst e = t_id (snd e)"
      "distinct (map (\<lambda>e. t_name (snd e)) (r_catalog r))"
    and gens: "sorted_wrt (<) (map g_generation (r_generations r))"
      "\<not> (length (r_generations r) > MAX_SLOTS \<or> r_generations r = [] \<or> g_generation (last (r_generations r)) \<noteq> r_generation r)"
    and parts: "bt_ok (r_partitions r)" "\<forall>e \<in> set (r_partitions r). partition_ok r e" "distinct (map part_root (r_partitions r))"
    and hist: "bt_ok (r_history_generations r)" "\<forall>e \<in> set (r_history_generations r). fst e \<le> r_generation r \<and> snd e \<le> r_lsn r"
    and fls: "\<forall>f \<in> set (r_files r). file_valid r (map (p_file \<circ> snd) (r_partitions r)) f" "distinct (map file_info_id (r_files r))"
    and chk: "\<forall>e \<in> set (r_partitions r). check_partition (r_files r) (snd e) = Inr ()"
    and occ: "bt_ok (r_occupancy r)" "\<forall>e \<in> set (r_occupancy r). bt_has (r_catalog r) (fst (fst e)) \<and>
       unat (snd (fst e)) < length (r_generations r) \<and> oc_dead (snd e) \<le> oc_entities (snd e)"
    using ok by (auto simp: root_ok_def root_file_ids_def)
  have parts1: "\<forall>e \<in> set (r_partitions r). partition_ok ?r1 e"
    using parts(2) partition_ok_cong [of ?r1 r] by simp
  have hist1: "\<forall>e \<in> set (r_history_generations r). fst e \<le> r_generation ?r1 \<and> snd e \<le> r_lsn ?r1" using hist(2) by simp
  have fls2: "\<forall>f \<in> set (r_files r). file_valid ?r2 ?ix f"
    using fls(1) file_valid_cong [of ?r2 r ?ix "map (p_file \<circ> snd) (r_partitions r)"] by simp
  have occ2: "\<forall>e \<in> set (r_occupancy r). bt_has (r_catalog ?r2) (fst (fst e)) \<and>
       unat (snd (fst e)) < length (r_generations ?r2) \<and> oc_dead (snd e) \<le> oc_entities (snd e)"
    using occ(2) by simp
  have checks: "res_fold (\<lambda>part _. check_partition (r_files r) part) (map snd (r_partitions r)) () = Inr ()"
    using chk by (intro res_fold_checks) auto
  show ?thesis
    unfolding root_body_def [abs_def] encode_root_def
    apply (rule parses_u64_bind)+
    apply (rule parses_loop [OF parses_catalog [OF cat]])
     apply (rule min_length; use cat(2) length_encode_table in force)
    apply (rule parses_loop [OF parses_generations [OF gens(1)]])
     apply (rule min_length; simp add: encode_generation_def)
    apply (rule parses_guard [OF gens(2)])
    apply (simp only: Let_def snd_conv)
    apply (rule parses_loop [OF parses_partitions [OF parts(1) parts1 parts(3)]])
     apply (rule min_length; simp add: length_encode_partition)
    apply (rule parses_tag)
    apply (rule parses_pure [where x = "r_history_compacted r"], simp)
    apply (rule parses_loop [OF parses_history [OF hist(1) hist1]])
     apply (rule min_length; simp add: encode_history_def)
    apply (simp only: fst_conv snd_conv)
    apply (rule parses_loop [OF parses_files [OF fls2 fls(2)]])
     apply (rule min_length; simp add: encode_file_info_def)
    apply (rule parses_pure [where x = "()"])
     apply (simp add: checks)
    apply (rule parses_loop_last [OF parses_occupancies [OF occ(1) occ2]])
     apply (rule min_length; simp add: encode_occupancy_def)
    by (simp only: fst_conv eta parses_return)
qed


interpretation root_format: item_format encode_root root_body root_ok
  by unfold_locales (rule parses_root)

section \<open>Slot translation\<close>

lemma rebuild_loop_spec:
  assumes "rebuild_loop absorb old gs slots = (gs', slots')"
  shows "\<exists>hs ss. gs' = gs @ hs \<and> slots' = slots @ ss \<and> length ss = length old \<and>
    hs = filter (\<lambda>g. g_generation g \<notin> set absorb) old \<and>
    (\<forall>i < length old. if g_generation (old ! i) \<in> set absorb then ss ! i = None
      else \<exists>n < length hs. ss ! i = Some (of_nat (length gs + n)) \<and> hs ! n = old ! i)"
  using assms
proof (induction absorb old gs slots rule: rebuild_loop.induct)
  case (1 absorb gs slots)
  then show ?case by simp
next
  case (2 absorb g old gs slots)
  show ?case
  proof (cases "g_generation g \<in> set absorb")
    case True
    then obtain hs ss where "gs' = gs @ hs" "slots' = (slots @ [None]) @ ss" "length ss = length old"
        "hs = filter (\<lambda>g. g_generation g \<notin> set absorb) old"
        "\<forall>i < length old. if g_generation (old ! i) \<in> set absorb then ss ! i = None
          else \<exists>n < length hs. ss ! i = Some (of_nat (length gs + n)) \<and> hs ! n = old ! i"
      using "2.IH"(1) "2.prems" by auto
    then show ?thesis using True
      by (intro exI [of _ hs] exI [of _ "None # ss"]) (auto simp: nth_Cons split: nat.split)
  next
    case False
    then obtain hs ss where IH: "gs' = (gs @ [g]) @ hs" "slots' = (slots @ [Some (of_nat (length gs))]) @ ss"
        "length ss = length old" "hs = filter (\<lambda>g. g_generation g \<notin> set absorb) old"
        "\<forall>i < length old. if g_generation (old ! i) \<in> set absorb then ss ! i = None
          else \<exists>n < length hs. ss ! i = Some (of_nat (length (gs @ [g]) + n)) \<and> hs ! n = old ! i"
      using "2.IH"(2) "2.prems" by auto
    have "if g_generation ((g # old) ! i) \<in> set absorb then (Some (of_nat (length gs)) # ss) ! i = None
        else \<exists>n < length (g # hs). (Some (of_nat (length gs)) # ss) ! i = Some (of_nat (length gs + n)) \<and> (g # hs) ! n = (g # old) ! i"
      if "i < length (g # old)" for i
    proof (cases i)
      case 0
      then show ?thesis using False by (auto intro!: exI [of _ 0])
    next
      case (Suc j)
      show ?thesis
      proof (cases "g_generation (old ! j) \<in> set absorb")
        case True
        then show ?thesis using IH(5) that Suc by simp
      next
        case False
        have "j < length old" using that Suc by simp
        with IH(5) have "if g_generation (old ! j) \<in> set absorb then ss ! j = None
          else \<exists>n < length hs. ss ! j = Some (of_nat (length (gs @ [g]) + n)) \<and> hs ! n = old ! j" by blast
        then obtain n where "n < length hs" "ss ! j = Some (of_nat (length (gs @ [g]) + n))" "hs ! n = old ! j"
          unfolding if_not_P [OF False] by blast
        then have n: "n < length hs" "ss ! j = Some (of_nat (length gs + Suc n))" "hs ! n = old ! j" by simp_all
        have "\<exists>n < length (g # hs). (Some (of_nat (length gs)) # ss) ! i = Some (of_nat (length gs + n)) \<and> (g # hs) ! n = (g # old) ! i"
          using Suc n by (intro exI [of _ "Suc n"]) simp
        then show ?thesis using Suc False by simp
      qed
    qed
    then have all: "\<forall>i < length (g # old). if g_generation ((g # old) ! i) \<in> set absorb
        then (Some (of_nat (length gs)) # ss) ! i = None
        else \<exists>n < length (g # hs). (Some (of_nat (length gs)) # ss) ! i = Some (of_nat (length gs + n)) \<and> (g # hs) ! n = (g # old) ! i"
      by blast
    have "gs' = gs @ g # hs" "slots' = slots @ Some (of_nat (length gs)) # ss"
      "length (Some (of_nat (length gs)) # ss) = length (g # old)"
      "g # hs = filter (\<lambda>g. g_generation g \<notin> set absorb) (g # old)"
      using IH(1-4) False by simp_all
    with all show ?thesis by blast
  qed
qed

lemma rebuild_slots_spec:
  assumes "rebuild_slots r absorb generation lsn = Inr (gs, slots)" "length (r_generations r) \<le> MAX_SLOTS"
  shows "length slots = MAX_SLOTS" "length gs \<le> MAX_SLOTS" "gs \<noteq> []" "g_generation (last gs) = generation"
    and "gs = filter (\<lambda>g. g_generation g \<notin> set absorb) (r_generations r) @ [\<lparr>g_generation = generation, g_lsn = lsn\<rparr>]"
    and "\<And>i. i < length (r_generations r) \<Longrightarrow> slots ! i = None \<longleftrightarrow> g_generation (r_generations r ! i) \<in> set absorb"
    and "\<And>i n. i < MAX_SLOTS \<Longrightarrow> slots ! i = Some n \<Longrightarrow> i < length (r_generations r) \<and> unat n < length gs \<and>
      gs ! unat n = r_generations r ! i"
proof -
  obtain gs0 slots0 where loop: "rebuild_loop absorb (r_generations r) [] [] = (gs0, slots0)" by fastforce
  then have g: "gs = gs0 @ [\<lparr>g_generation = generation, g_lsn = lsn\<rparr>]" "length gs \<le> MAX_SLOTS"
    and s: "slots = slots0 @ replicate (MAX_SLOTS - length slots0) None"
    using assms(1) by (auto simp: rebuild_slots_def split: if_splits)
  obtain ss where spec: "gs0 = filter (\<lambda>g. g_generation g \<notin> set absorb) (r_generations r)" "slots0 = ss"
      "length ss = length (r_generations r)"
      "\<forall>i < length (r_generations r). if g_generation (r_generations r ! i) \<in> set absorb then ss ! i = None
          else \<exists>n < length gs0. ss ! i = Some (of_nat n) \<and> gs0 ! n = r_generations r ! i"
    using rebuild_loop_spec [OF loop, unfolded append_Nil list.size(3) add_0] by blast
  show "length slots = MAX_SLOTS" using s spec(2,3) assms(2) by simp
  show "length gs \<le> MAX_SLOTS" by (rule g(2))
  show "gs \<noteq> []" "g_generation (last gs) = generation"
    "gs = filter (\<lambda>g. g_generation g \<notin> set absorb) (r_generations r) @ [\<lparr>g_generation = generation, g_lsn = lsn\<rparr>]"
    using g spec(1) by simp_all
  show "slots ! i = None \<longleftrightarrow> g_generation (r_generations r ! i) \<in> set absorb" if "i < length (r_generations r)" for i
    using spec that by (auto simp: s nth_append split: if_splits)
  show "i < length (r_generations r) \<and> unat n < length gs \<and> gs ! unat n = r_generations r ! i"
    if "i < MAX_SLOTS" "slots ! i = Some n" for i n
  proof -
    have i: "i < length (r_generations r)" using that spec(2,3) assms(2) by (auto simp: s nth_append split: if_splits)
    then have "ss ! i = Some n" using that spec(2,3) by (simp add: s nth_append)
    then obtain m where m: "m < length gs0" "n = of_nat m" "gs0 ! m = r_generations r ! i"
      using spec(4) i by (auto split: if_splits)
    have "m < 256" using m(1) g by (simp add: MAX_SLOTS_def)
    then have "unat n = m" by (simp add: m(2) unat_of_nat)
    then show ?thesis using m i g(1) by (simp add: nth_append)
  qed
qed

lemma location_less: "unat (snd (split_locator l)) < 2 ^ 56"
proof -
  have "push_bit 16 PAGE_LIMIT - 1 = (mask 56 :: u64)" by (simp add: PAGE_LIMIT_def mask_eq_exp_minus_1)
  moreover have "l AND mask 56 = take_bit 56 l" by (simp add: take_bit_eq_mask)
  ultimately show ?thesis by (simp add: split_locator_def unsigned_take_bit_eq take_bit_nat_less_exp [of 56, simplified])
qed

lemma split_remap:
  "split_locator (fst (remap v n)) = (n, snd (split_locator (fst v)))"
  "split_locator (snd (remap v n)) = (n, snd (split_locator (snd v)))"
  using location_less by (simp_all add: remap_def case_prod_unfold split_locate)

lemma entity_slot_remap: "entity_slot (remap v n) = Inr n"
  by (simp add: entity_slot_def split_remap)


section \<open>Properties\<close>

text \<open>
  C37 (root_roundtrip): a well-formed manifest, its catalog, generations, index partitions with
  their slot maps and dependencies, history generations, files and occupancy, is decoded from its
  encoding unchanged; every check of the decoder accepts it.
\<close>

theorem root_roundtrip:
  assumes "root_ok r" "length (encode_root r) < 2 ^ 63"
  shows "decode_root (encode_root r) = Inr r"
  unfolding decode_root_body by (rule root_format.dec_enc_whole [OF assms])


section \<open>A concrete manifest\<close>

definition sample_root :: root where
  "sample_root = \<lparr>r_generation = 3, r_lsn = 20, r_catalog = [(1, sample_table)],
     r_generations = [\<lparr>g_generation = 2, g_lsn = 9\<rparr>, \<lparr>g_generation = 3, g_lsn = 20\<rparr>],
     r_files = [\<lparr>fi_generation = 3, fi_table = 1, fi_kind = 3, fi_segment = 0, fi_size = 16384, fi_crc = 77\<rparr>,
       \<lparr>fi_generation = 3, fi_table = 1, fi_kind = 2, fi_segment = 0, fi_size = 8192, fi_crc = 5\<rparr>],
     r_partitions = [((1, 3, (1024, 0)), \<lparr>p_file = file_id_new 1 3 3 0, p_lsn = 20, p_base = 0, p_first = (1030, 0),
       p_last = (1500, 0), p_slots = [(1, 1)], p_dependencies = [(file_id_new 1 3 2 0, ())]\<rparr>)],
     r_history_generations = [(3, 20)], r_history_compacted = True,
     r_occupancy = [((1, 1), \<lparr>oc_entities = 10, oc_dead = 2\<rparr>)]\<rparr>"

lemma root_roundtrip_witness: "decode_root (encode_root sample_root) = Inr sample_root"
proof (rule root_roundtrip)
  have t: "t_id sample_table = 1" by (simp add: sample_table_def)
  have b: "bucket 3 (1030, 0) = (1024, 0)" "bucket 3 (1500, 0) = (1024, 0)" by (simp_all add: bucket_def WIDTH_def)
  show "root_ok sample_root"
    using sample_ok(1) b
    by (simp add: root_ok_def sample_root_def t MAX_SLOTS_def partition_ok_def partition_valid_def bt_has_def
        file_id_new_def root_file_ids_def file_info_id_def file_valid_def check_partition_def PAGE_SIZE_def)
  have "length (encode_table sample_table) < 1000"
    by (simp add: encode_table_def encode_schema_def encode_field_def_def sample_table_def sample_schema_def)
  then show "length (encode_root sample_root) < 2 ^ 63"
    by (simp add: encode_root_def sample_root_def encode_generation_def encode_partition_def encode_slot_entry_def
        encode_dependency_def encode_history_def encode_file_info_def encode_occupancy_def)
qed


end
