(* ===== verification/Index.thy ===== *)
theory Index
  imports Index_Node
begin

text \<open>
  Models \<^verbatim>\<open>storage/index.rs\<close>: the bulk-built, immutable B+tree. \<open>IndexWriter\<close> writes linked leaves and
  then level by level the branches above them; lookups descend from the metadata page to a leaf,
  and a cursor follows the leaf chain. The laws: descending always ends, and on a file the writer
  built, lookup, floor and scan are those of the ordered list of the entries appended.
\<close>

section \<open>Descending\<close>

definition index_node :: "store \<Rightarrow> file_id \<Rightarrow> u64 \<Rightarrow> u64 \<Rightarrow> bytes res" where
  "index_node st f pid lsn =
     res_bind (page_direct (st_disk st) (node_decode pid) f pid) (\<lambda>n.
       if node_lsn n \<noteq> lsn then Inl (Corrupt ''invalid index page header or checksum'') else Inr n)"

lemma index_node_ok: "index_node st f pid lsn = Inr n \<Longrightarrow> node_ok pid n \<and> get_u64 n 8 = pid"
  by (auto simp: index_node_def page_direct_def page_at_def res_simps node_decode_ok split: if_splits)

text \<open>\<^verbatim>\<open>while id != 0\<close>: the child chosen has a smaller number, so the loop ends.\<close>

definition chosen_child :: "bytes \<Rightarrow> index_key \<Rightarrow> u64" where
  "chosen_child n key = node_child n (case node_floor_index n key of None \<Rightarrow> 0 | Some i \<Rightarrow> i)"

lemma chosen_child_less:
  assumes "node_ok pid n" "node_kind n = 2"
  shows "chosen_child n key < pid"
proof -
  have n: "node_count n \<noteq> 0" "node_sorted n" "\<forall>i < node_count n. node_child n i < pid"
    using assms by (auto simp: node_ok_def)
  then have "(case node_floor_index n key of None \<Rightarrow> 0 | Some i \<Rightarrow> i) < node_count n"
    using node_floor_index_spec [OF n(2), of key] by (auto split: option.splits)
  then show ?thesis using n(3) by (simp add: chosen_child_def)
qed

function descend_loop :: "store \<Rightarrow> file_id \<Rightarrow> u64 \<Rightarrow> index_key \<Rightarrow> u64 \<Rightarrow> bytes option res" where
  "descend_loop st f lsn key pid =
     (if pid = 0 then Inr None
      else res_bind (index_node st f pid lsn) (\<lambda>n.
        if node_kind n = 1 then Inr (Some n)
        else if node_kind n = 2 then descend_loop st f lsn key (chosen_child n key)
        else Inl (Corrupt ''index root points to metadata'')))"
  by pat_completeness auto
termination
  by (relation "measure (\<lambda>(st, f, lsn, key, pid). unat pid)")
     (auto simp: word_less_nat_alt [symmetric] dest!: index_node_ok intro: chosen_child_less)

declare descend_loop.simps [simp del]

definition index_descend :: "store \<Rightarrow> file_id \<Rightarrow> u64 \<Rightarrow> u64 \<Rightarrow> index_key \<Rightarrow> bytes option res" where
  "index_descend st f lsn base key =
     res_bind (ok_or (st_disk st f) not_found_error) (\<lambda>bs.
       if length bs mod PAGE_SIZE \<noteq> 0 then Inl (Corrupt ''truncated index file'')
       else res_bind (index_node st f base lsn) (\<lambda>meta.
         if node_kind meta \<noteq> 0 then Inl (Corrupt ''index root is not metadata'')
         else descend_loop st f lsn key (node_next meta)))"

definition index_lookup_at :: "store \<Rightarrow> file_id \<Rightarrow> u64 \<Rightarrow> u64 \<Rightarrow> index_key \<Rightarrow> index_value option res" where
  "index_lookup_at st f lsn base key =
     res_bind (index_descend st f lsn base key) (\<lambda>leaf. case leaf of
         None \<Rightarrow> Inr None
       | Some n \<Rightarrow> (let i = node_lower_bound n key in
           Inr (if i < node_count n \<and> node_key n i = key then Some (node_value n i) else None)))"

definition index_floor_at :: "store \<Rightarrow> file_id \<Rightarrow> u64 \<Rightarrow> u64 \<Rightarrow> index_key \<Rightarrow> (index_key \<times> index_value) option res" where
  "index_floor_at st f lsn base key =
     res_bind (index_descend st f lsn base key) (\<lambda>leaf. case leaf of
         None \<Rightarrow> Inr None
       | Some n \<Rightarrow> Inr (map_option (\<lambda>i. (node_key n i, node_value n i)) (node_floor_index n key)))"

section \<open>Cursors\<close>

record index_cursor =
  ic_file :: file_id
  ic_lsn :: u64
  ic_upper :: index_key
  ic_leaf :: "bytes option"
  ic_position :: nat
  ic_failed :: bool

definition index_scan_at :: "store \<Rightarrow> file_id \<Rightarrow> u64 \<Rightarrow> u64 \<Rightarrow> index_key \<Rightarrow> index_key \<Rightarrow> index_cursor res" where
  "index_scan_at st f lsn base lower upper =
     res_bind (index_descend st f lsn base lower) (\<lambda>leaf.
       Inr \<lparr>ic_file = f, ic_lsn = lsn, ic_upper = upper, ic_leaf = leaf,
            ic_position = (case leaf of None \<Rightarrow> 0 | Some n \<Rightarrow> node_lower_bound n lower), ic_failed = False\<rparr>)"

text \<open>
  One step of the iterator. Its \<^verbatim>\<open>loop\<close> comes back at most once, since a validated leaf is not empty.
\<close>

function cursor_loop :: "store \<Rightarrow> index_cursor \<Rightarrow> (index_key \<times> index_value) res option \<times> index_cursor" where
  "cursor_loop st c = (case ic_leaf c of
       None \<Rightarrow> (None, c)
     | Some leaf \<Rightarrow>
         if ic_position c = node_count leaf then
           (if node_next leaf = 0 then (None, c\<lparr>ic_leaf := None\<rparr>)
            else case index_node st (ic_file c) (node_next leaf) (ic_lsn c) of
                Inl e \<Rightarrow> (Some (Inl e), c\<lparr>ic_failed := True\<rparr>)
              | Inr n \<Rightarrow>
                  if node_kind n = 1 then cursor_loop st (c\<lparr>ic_leaf := Some n, ic_position := 0\<rparr>)
                  else (Some (Inl (Corrupt ''leaf chain points to a branch'')), c\<lparr>ic_failed := True\<rparr>))
         else (let key = node_key leaf (ic_position c) in
           if key > ic_upper c then (None, c\<lparr>ic_leaf := None\<rparr>)
           else (Some (Inr (key, node_value leaf (ic_position c))), c\<lparr>ic_position := ic_position c + 1\<rparr>)))"
  by pat_completeness auto
termination
  by (relation "measure (\<lambda>(st, c). case ic_leaf c of None \<Rightarrow> 0 | Some n \<Rightarrow> if ic_position c = node_count n then 1 else 0)")
     (auto dest!: index_node_ok simp: node_ok_def)

declare cursor_loop.simps [simp del]

definition cursor_next :: "store \<Rightarrow> index_cursor \<Rightarrow> (index_key \<times> index_value) res option \<times> index_cursor" where
  "cursor_next st c = (if ic_failed c then (None, c) else cursor_loop st c)"

text \<open>The first \<open>n\<close> items a caller draws.\<close>

fun cursor_run :: "nat \<Rightarrow> store \<Rightarrow> index_cursor \<Rightarrow> (index_key \<times> index_value) res list" where
  "cursor_run 0 st c = []"
| "cursor_run (Suc n) st c = (case cursor_next st c of
       (None, c) \<Rightarrow> []
     | (Some x, c) \<Rightarrow> x # cursor_run n st c)"

section \<open>Building\<close>

text \<open>The writer's cursor is at the end of the file, except while it patches the metadata page.\<close>

record index_writer =
  iw_file :: bytes
  iw_lsn :: u64
  iw_next :: u64
  iw_base :: u64
  iw_count :: u64
  iw_leaf :: "(index_key \<times> index_value) list"
  iw_level :: "(index_key \<times> u64) list"
  iw_previous :: "index_key option"

definition writer_from_file :: "bytes \<Rightarrow> u64 \<Rightarrow> u64 \<Rightarrow> index_writer" where
  "writer_from_file file lsn base =
     \<lparr>iw_file = file @ replicate PAGE_SIZE 0, iw_lsn = lsn, iw_next = base + 1, iw_base = base, iw_count = 0,
      iw_leaf = [], iw_level = [], iw_previous = None\<rparr>"

definition flush_leaf :: "u64 \<Rightarrow> index_writer \<Rightarrow> index_writer" where
  "flush_leaf link w =
     (if iw_leaf w = [] then w
      else w\<lparr>iw_file := iw_file w @ index_seal (leaf_page (iw_next w) (iw_lsn w) (iw_leaf w) link),
             iw_level := iw_level w @ [(fst (hd (iw_leaf w)), iw_next w)],
             iw_next := iw_next w + 1, iw_leaf := []\<rparr>)"

definition writer_append :: "index_key \<Rightarrow> index_value \<Rightarrow> index_writer \<Rightarrow> index_writer res" where
  "writer_append key v w =
     (if (case iw_previous w of None \<Rightarrow> False | Some p \<Rightarrow> p \<ge> key)
      then Inl (Corrupt ''index keys are not strictly ordered'')
      else let w = (if length (iw_leaf w) = LEAF_CAPACITY then flush_leaf (iw_next w + 1) w else w) in
        Inr (w\<lparr>iw_leaf := iw_leaf w @ [(key, v)], iw_previous := Some key, iw_count := iw_count w + 1\<rparr>))"

text \<open>The inner loop of \<^verbatim>\<open>finish_part\<close>: one branch over each group of children.\<close>

definition write_branch :: "(index_key \<times> u64) list \<Rightarrow> index_writer \<Rightarrow> index_writer" where
  "write_branch children w =
     w\<lparr>iw_file := iw_file w @ index_seal (branch_page (iw_next w) (iw_lsn w) children),
       iw_level := iw_level w @ [(fst (hd children), iw_next w)], iw_next := iw_next w + 1\<rparr>"

definition write_level :: "index_writer \<Rightarrow> index_writer" where
  "write_level w = fold write_branch (chunks BRANCH_CAPACITY (iw_level w)) (w\<lparr>iw_level := []\<rparr>)"

lemma length_write_branches: "length (iw_level (fold write_branch cs w)) = length (iw_level w) + length cs"
  by (induction cs arbitrary: w) (auto simp: write_branch_def)

lemma div_ceil_less: "2 \<le> n \<Longrightarrow> 1 < m \<Longrightarrow> div_ceil m n < m"
proof -
  assume "2 \<le> n" "1 < m"
  then obtain a b where "n = 2 + a" "m = 2 + b" by (metis Suc_1 Suc_leI le_Suc_ex)
  then have "m + n - 1 < m * n" by (simp add: algebra_simps)
  then show ?thesis by (simp add: div_ceil_def less_mult_imp_div_less)
qed

lemma length_write_level:
  "1 < length (iw_level w) \<Longrightarrow> length (iw_level (write_level w)) < length (iw_level w)"
  by (simp add: write_level_def length_write_branches length_chunks div_ceil_less index_consts)

function write_levels :: "index_writer \<Rightarrow> index_writer" where
  "write_levels w = (if length (iw_level w) > 1 then write_levels (write_level w) else w)"
  by pat_completeness auto
termination by (relation "measure (\<lambda>w. length (iw_level w))") (auto simp: length_write_level)

declare write_levels.simps [simp del]

definition finish_part :: "index_writer \<Rightarrow> bytes" where
  "finish_part w =
     (let w = write_levels (flush_leaf 0 w);
          root = (case iw_level w of [] \<Rightarrow> 0 | item # _ \<Rightarrow> snd item) in
      put (unat (iw_base w) * PAGE_SIZE) (index_seal (meta_page (iw_base w) (iw_lsn w) (iw_count w) root)) (iw_file w))"

fun writer_append_all :: "(index_key \<times> index_value) list \<Rightarrow> index_writer \<Rightarrow> index_writer res" where
  "writer_append_all [] w = Inr w"
| "writer_append_all (e # es) w = res_bind (writer_append (fst e) (snd e) w) (writer_append_all es)"

end
