(* ===== verification/Index_Laws.thy ===== *)
theory Index_Laws
  imports Index
begin

text \<open>
  The laws of \<^verbatim>\<open>storage/index.rs\<close>. A built file is described by its groups of entries, one per leaf,
  and its nodes, in the order they were written; \<open>covers\<close> says which leaves a node is above. From
  this: a descent finds the one leaf that can hold a key, so lookup, floor and scan on a built
  file are the operations of the ordered list of the entries.
\<close>

section \<open>Entries in groups\<close>

definition group_first :: "(index_key \<times> 'v) list list \<Rightarrow> nat \<Rightarrow> index_key" where
  "group_first gs i = fst (hd (gs ! i))"

definition groups_ok :: "(index_key \<times> 'v) list list \<Rightarrow> bool" where
  "groups_ok gs = (bt_ok (concat gs) \<and> [] \<notin> set gs)"

lemma groups_split:
  "i < length gs \<Longrightarrow> concat gs = concat (take i gs) @ gs ! i @ concat (drop (Suc i) gs)"
  using id_take_nth_drop [of i gs] by (metis concat_append concat.simps(2))

lemma groups_nth:
  assumes "groups_ok gs" "i < length gs"
  shows "gs ! i \<noteq> []" "bt_ok (gs ! i)"
    and "\<And>a b. a \<in> set (concat (take i gs)) \<Longrightarrow> b \<in> set (gs ! i) \<Longrightarrow> fst a < fst b"
    and "\<And>a b. a \<in> set (gs ! i) \<Longrightarrow> b \<in> set (concat (drop (Suc i) gs)) \<Longrightarrow> fst a < fst b"
proof -
  have "bt_ok (concat (take i gs) @ gs ! i @ concat (drop (Suc i) gs))"
    using assms groups_split [OF assms(2)] by (simp add: groups_ok_def)
  then have ok: "bt_ok (gs ! i) \<and>
      (\<forall>a \<in> set (concat (take i gs)). \<forall>b \<in> set (gs ! i). fst a < fst b) \<and>
      (\<forall>a \<in> set (gs ! i). \<forall>b \<in> set (concat (drop (Suc i) gs)). fst a < fst b)"
    unfolding bt_ok_append set_append by blast
  from ok show "bt_ok (gs ! i)" by blast
  from ok show "\<And>a b. a \<in> set (concat (take i gs)) \<Longrightarrow> b \<in> set (gs ! i) \<Longrightarrow> fst a < fst b" by blast
  from ok show "\<And>a b. a \<in> set (gs ! i) \<Longrightarrow> b \<in> set (concat (drop (Suc i) gs)) \<Longrightarrow> fst a < fst b" by blast
  show "gs ! i \<noteq> []" using assms by (metis groups_ok_def nth_mem)
qed

lemma group_first_mem: "groups_ok gs \<Longrightarrow> i < length gs \<Longrightarrow> \<exists>e \<in> set (gs ! i). fst e = group_first gs i"
  using groups_nth(1) [of gs i] by (auto simp: group_first_def intro: hd_in_set)

lemma group_first_le: "groups_ok gs \<Longrightarrow> i < length gs \<Longrightarrow> e \<in> set (gs ! i) \<Longrightarrow> group_first gs i \<le> fst e"
  using groups_nth(2) [of gs i] by (cases "gs ! i") (auto simp: group_first_def bt_ok_Cons intro: less_imp_le)

lemma group_first_less:
  assumes "groups_ok gs" "i < j" "j < length gs"
  shows "group_first gs i < group_first gs j"
proof -
  obtain a b where ab: "a \<in> set (gs ! i)" "fst a = group_first gs i" "b \<in> set (gs ! j)" "fst b = group_first gs j"
    using group_first_mem [OF assms(1)] assms(2,3) by (meson less_trans)
  have "gs ! i \<in> set (take j gs)" using assms(2,3) by (metis in_set_conv_nth length_take min.absorb4 nth_take)
  then have "a \<in> set (concat (take j gs))" using ab(1) by auto
  from groups_nth(3) [OF assms(1,3) this ab(3)] show ?thesis unfolding ab .
qed

text \<open>The leaf among \<open>i..<j\<close> that a key belongs to: the last one that starts at or below it.\<close>

definition right_group :: "(index_key \<times> 'v) list list \<Rightarrow> index_key \<Rightarrow> nat \<Rightarrow> nat \<Rightarrow> nat \<Rightarrow> bool" where
  "right_group gs key i j r = (i \<le> r \<and> r < j \<and> (r = i \<or> group_first gs r \<le> key) \<and>
     (\<forall>s. r < s \<and> s < j \<longrightarrow> key < group_first gs s))"

text \<open>What the other leaves hold lies below or above the key.\<close>

lemma in_concat_drop: "e \<in> set (concat (drop n gs)) \<Longrightarrow> \<exists>s < length gs - n. e \<in> set (gs ! (n + s))"
proof -
  assume "e \<in> set (concat (drop n gs))"
  then obtain g where "g \<in> set (drop n gs)" "e \<in> set g" by auto
  then obtain s where "s < length (drop n gs)" "drop n gs ! s = g" by (meson in_set_conv_nth)
  with \<open>e \<in> set g\<close> show ?thesis by auto
qed

lemma right_group_sides:
  assumes "groups_ok gs" "right_group gs key 0 (length gs) r"
  shows "\<And>e. e \<in> set (concat (take r gs)) \<Longrightarrow> fst e < key"
    and "\<And>e. e \<in> set (concat (drop (Suc r) gs)) \<Longrightarrow> key < fst e"
proof -
  have r: "r < length gs" using assms(2) by (simp add: right_group_def)
  show "fst e < key" if e: "e \<in> set (concat (take r gs))" for e
  proof -
    have "r \<noteq> 0" using e by (cases r) auto
    then have "group_first gs r \<le> key" using assms(2) by (simp add: right_group_def)
    moreover obtain b where "b \<in> set (gs ! r)" "fst b = group_first gs r" using group_first_mem [OF assms(1) r] by blast
    ultimately show ?thesis using groups_nth(3) [OF assms(1) r e] by fastforce
  qed
  show "key < fst e" if e: "e \<in> set (concat (drop (Suc r) gs))" for e
  proof -
    obtain s where s: "s < length gs - Suc r" "e \<in> set (gs ! (Suc r + s))"
      using in_concat_drop [OF e] by blast
    then have "key < group_first gs (Suc r + s)" using assms(2) by (simp add: right_group_def)
    also have "\<dots> \<le> fst e" using group_first_le [OF assms(1) _ s(2)] s(1) by simp
    finally show ?thesis .
  qed
qed

section \<open>The shape of a built tree\<close>

text \<open>
  \<open>node_number b q\<close> is the page of the node written as number \<open>q\<close>: the metadata page is \<open>b\<close>. A child
  is written before its parent.
\<close>

definition node_number :: "nat \<Rightarrow> nat \<Rightarrow> u64" where
  "node_number b q = of_nat (b + 1 + q)"

inductive covers :: "nat \<Rightarrow> u64 \<Rightarrow> (index_key \<times> index_value) list list \<Rightarrow> bytes list \<Rightarrow> nat \<Rightarrow> nat \<Rightarrow> nat \<Rightarrow> bool"
  and spans :: "nat \<Rightarrow> u64 \<Rightarrow> (index_key \<times> index_value) list list \<Rightarrow> bytes list \<Rightarrow> (index_key \<times> u64) list \<Rightarrow> nat \<Rightarrow> nat \<Rightarrow> bool"
  for b lsn gs where
  leaf: "i < length gs \<Longrightarrow> i < length ns \<Longrightarrow> covers b lsn gs ns i i (Suc i)"
| branch: "q < length ns \<Longrightarrow> ns ! q = branch_page (node_number b q) lsn cs \<Longrightarrow> cs \<noteq> [] \<Longrightarrow>
    length cs \<le> BRANCH_CAPACITY \<Longrightarrow> length gs \<le> q \<Longrightarrow>
    (\<forall>c \<in> set cs. \<exists>p < q. snd c = node_number b p) \<Longrightarrow> spans b lsn gs ns cs i j \<Longrightarrow> covers b lsn gs ns q i j"
| empty: "spans b lsn gs ns [] i i"
| cons: "covers b lsn gs ns q i m \<Longrightarrow> i < m \<Longrightarrow> spans b lsn gs ns cs m j \<Longrightarrow>
    spans b lsn gs ns ((group_first gs i, node_number b q) # cs) i j"

inductive_cases spans_NilE: "spans b lsn gs ns [] i j"
inductive_cases spans_ConsE: "spans b lsn gs ns (c # cs) i j"

lemma covers_bounds:
  "covers b lsn gs ns q i j \<Longrightarrow> i < j \<and> j \<le> length gs"
  "spans b lsn gs ns cs i j \<Longrightarrow> (cs = [] \<longrightarrow> i = j) \<and> (cs \<noteq> [] \<longrightarrow> i < j \<and> j \<le> length gs)"
  by (induction rule: covers_spans.inducts) auto

text \<open>Writing more nodes keeps what is there.\<close>

lemma covers_grow:
  "covers b lsn gs ns q i j \<Longrightarrow> covers b lsn gs (ns @ ms) q i j"
  "spans b lsn gs ns cs i j \<Longrightarrow> spans b lsn gs (ns @ ms) cs i j"
proof (induction rule: covers_spans.inducts)
  case (branch q ns cs i j)
  then show ?case by (intro covers_spans.branch [where cs = cs]) (auto simp: nth_append)
qed (auto intro: covers_spans.intros)

lemma spans_append:
  "spans b lsn gs ns (xs @ ys) i j \<longleftrightarrow> (\<exists>m. spans b lsn gs ns xs i m \<and> spans b lsn gs ns ys m j)"
proof (induction xs arbitrary: i)
  case Nil
  then show ?case by (auto elim: spans_NilE intro: covers_spans.empty)
next
  case (Cons x xs)
  show ?case
  proof
    assume "spans b lsn gs ns ((x # xs) @ ys) i j"
    then obtain q m where x: "x = (group_first gs i, node_number b q)" "covers b lsn gs ns q i m" "i < m"
        and tl: "spans b lsn gs ns (xs @ ys) m j"
      by (auto elim: spans_ConsE)
    from tl Cons.IH obtain m' where "spans b lsn gs ns xs m m'" "spans b lsn gs ns ys m' j" by blast
    then show "\<exists>m. spans b lsn gs ns (x # xs) i m \<and> spans b lsn gs ns ys m j"
      using x by (auto intro: covers_spans.cons)
  next
    assume "\<exists>m. spans b lsn gs ns (x # xs) i m \<and> spans b lsn gs ns ys m j"
    then show "spans b lsn gs ns ((x # xs) @ ys) i j"
      using Cons.IH by (auto elim!: spans_ConsE intro: covers_spans.cons)
  qed
qed

lemma spans_firsts:
  assumes "groups_ok gs"
  shows "covers b lsn gs ns q i j \<Longrightarrow> True"
    and "spans b lsn gs ns cs i j \<Longrightarrow> bt_ok cs \<and> (\<forall>c \<in> set cs. \<exists>s. i \<le> s \<and> s < j \<and> fst c = group_first gs s) \<and>
      (cs \<noteq> [] \<longrightarrow> fst (hd cs) = group_first gs i)"
proof (induction rule: covers_spans.inducts)
  case (cons ns q i m cs j)
  have m: "m \<le> length gs" "i < m" using covers_bounds(1) [OF \<open>covers b lsn gs ns q i m\<close>] by auto
  have j: "m \<le> j \<and> (cs \<noteq> [] \<longrightarrow> j \<le> length gs)"
    using covers_bounds(2) [OF \<open>spans b lsn gs ns cs m j\<close>] by auto
  have "group_first gs i < fst c" if c: "c \<in> set cs" for c
  proof -
    obtain s where "m \<le> s" "s < j" "fst c = group_first gs s" using cons.IH c by blast
    then show ?thesis using group_first_less [OF assms, of i s] m j c by fastforce
  qed
  then have "bt_ok ((group_first gs i, node_number b q) # cs)" using cons.IH by (simp add: bt_ok_Cons)
  moreover have "\<exists>s. i \<le> s \<and> s < j \<and> fst c = group_first gs s"
    if "c \<in> set ((group_first gs i, node_number b q) # cs)" for c
  proof (cases "c \<in> set cs")
    case True
    then obtain s where "m \<le> s" "s < j" "fst c = group_first gs s" using cons.IH by blast
    then show ?thesis using m by (intro exI [of _ s]) simp
  next
    case False
    then have "fst c = group_first gs i" using that by simp
    then show ?thesis using m j by (intro exI [of _ i]) simp
  qed
  ultimately show ?case by simp
qed auto

section \<open>Descending a built tree\<close>

text \<open>What reading relies on: every node is read back under its number.\<close>

definition holds_nodes :: "store \<Rightarrow> file_id \<Rightarrow> u64 \<Rightarrow> nat \<Rightarrow> bytes list \<Rightarrow> bool" where
  "holds_nodes st f lsn b ns = (b + 1 + length ns < 2 ^ 48 \<and>
     (\<forall>q < length ns. index_node st f (node_number b q) lsn = Inr (ns ! q)))"

text \<open>The leaves come first and are chained.\<close>

definition leaf_link :: "nat \<Rightarrow> 'a list \<Rightarrow> nat \<Rightarrow> u64" where
  "leaf_link b gs i = (if Suc i < length gs then node_number b (Suc i) else 0)"

definition leaves_ok :: "nat \<Rightarrow> u64 \<Rightarrow> (index_key \<times> index_value) list list \<Rightarrow> bytes list \<Rightarrow> bool" where
  "leaves_ok b lsn gs ns = (length gs \<le> length ns \<and> (\<forall>i < length gs. length (gs ! i) \<le> LEAF_CAPACITY \<and>
     ns ! i = leaf_page (node_number b i) lsn (gs ! i) (leaf_link b gs i)))"

lemma node_number_nonzero: "b + 1 + q < 2 ^ 48 \<Longrightarrow> node_number b q \<noteq> 0 \<and> unat (node_number b q) = b + 1 + q"
  by (auto simp: node_number_def unat_of_nat word_unat_eq_iff simp del: of_nat_add of_nat_Suc)

lemma leaf_link_next:
  assumes "b + 1 + length gs < 2 ^ 48" "i < length gs"
  shows "leaf_link b gs i = 0 \<or> node_number b i < leaf_link b gs i"
  using assms node_number_nonzero [of b i] node_number_nonzero [of b "Suc i"]
  by (auto simp: leaf_link_def word_less_nat_alt)

lemma leaf_facts:
  assumes "groups_ok gs" "leaves_ok b lsn gs ns" "i < length gs" "b + 1 + length ns < 2 ^ 48"
  shows "node_kind (ns ! i) = 1" "node_count (ns ! i) = length (gs ! i)" "node_next (ns ! i) = leaf_link b gs i"
    "node_sorted (ns ! i)"
    "\<And>e. e < length (gs ! i) \<Longrightarrow> node_key (ns ! i) e = fst (gs ! i ! e) \<and> node_value (ns ! i) e = snd (gs ! i ! e)"
proof -
  have len: "length (gs ! i) \<le> LEAF_CAPACITY" and n: "ns ! i = leaf_page (node_number b i) lsn (gs ! i) (leaf_link b gs i)"
    and c: "length gs \<le> length ns" using assms(2,3) by (auto simp: leaves_ok_def)
  have link: "leaf_link b gs i = 0 \<or> node_number b i < leaf_link b gs i"
    using leaf_link_next [OF _ assms(3)] assms(4) c by simp
  have "0 < length (gs ! i)" using groups_nth(1) [OF assms(1,3)] by simp
  note d = leaf_decode [OF this len groups_nth(2) [OF assms(1,3)] link, of lsn, folded n]
  show k: "node_kind (ns ! i) = 1" "node_count (ns ! i) = length (gs ! i)" "node_next (ns ! i) = leaf_link b gs i"
    using d by simp_all
  show "node_sorted (ns ! i)"
    using node_decode_ok(1) [OF d(1)] k by (simp add: node_ok_def)
  show "node_key (ns ! i) e = fst (gs ! i ! e) \<and> node_value (ns ! i) e = snd (gs ! i ! e)" if "e < length (gs ! i)" for e
    using leaf_reads [OF _ n that] len by (simp add: index_consts)
qed

lemma children_less:
  assumes "\<forall>c \<in> set cs. \<exists>p < q. snd c = node_number b p" "b + 1 + q < 2 ^ 48"
  shows "\<forall>c \<in> set cs. snd c \<noteq> 0 \<and> snd c < node_number b q"
proof
  fix c assume "c \<in> set cs"
  then obtain p where "p < q" "snd c = node_number b p" using assms(1) by blast
  then show "snd c \<noteq> 0 \<and> snd c < node_number b q"
    using node_number_nonzero [of b p] node_number_nonzero [of b q] assms(2) by (simp add: word_less_nat_alt)
qed

lemma branch_facts:
  assumes "groups_ok gs" "ns ! q = branch_page (node_number b q) lsn cs" "cs \<noteq> []" "length cs \<le> BRANCH_CAPACITY"
    "\<forall>c \<in> set cs. \<exists>p < q. snd c = node_number b p" "bt_ok cs" "b + 1 + q < 2 ^ 48"
  shows "node_kind (ns ! q) = 2"
    and "\<exists>m < length cs. chosen_child (ns ! q) key = snd (cs ! m) \<and> (m = 0 \<or> fst (cs ! m) \<le> key) \<and>
      (\<forall>k < length cs. m < k \<longrightarrow> key < fst (cs ! k))"
proof -
  let ?n = "ns ! q"
  have "0 < length cs" using assms(3) by simp
  note d = branch_decode [OF this assms(4,6) children_less [OF assms(5,7)], of lsn, folded assms(2)]
  show kind: "node_kind ?n = 2" by (rule d(2))
  have count: "node_count ?n = length cs" by (rule d(3))
  have sorted: "node_sorted ?n" using node_decode_ok(1) [OF d(1)] kind by (simp add: node_ok_def)
  have reads: "node_key ?n i = fst (cs ! i)" "node_child ?n i = snd (cs ! i)" if "i < length cs" for i
    using branch_reads [OF _ assms(2) that] assms(4) by (simp_all add: index_consts)
  note floor = node_floor_index_spec [OF sorted, of key, unfolded count]
  show "\<exists>m < length cs. chosen_child ?n key = snd (cs ! m) \<and> (m = 0 \<or> fst (cs ! m) \<le> key) \<and>
      (\<forall>k < length cs. m < k \<longrightarrow> key < fst (cs ! k))"
  proof (cases "node_floor_index ?n key")
    case None
    then show ?thesis using floor reads assms(3) by (intro exI [of _ 0]) (auto simp: chosen_child_def)
  next
    case (Some m)
    then show ?thesis using floor reads by (intro exI [of _ m]) (auto simp: chosen_child_def)
  qed
qed


lemma covers_leaf_or_branch:
  assumes "groups_ok gs" "leaves_ok b lsn gs ns0" "holds_nodes st f lsn b ns0"
  shows "covers b lsn gs ns q i j \<Longrightarrow> ns = ns0 \<Longrightarrow>
      \<exists>r. right_group gs key i j r \<and> descend_loop st f lsn key (node_number b q) = Inr (Some (ns ! r))"
    and "spans b lsn gs ns cs i j \<Longrightarrow> ns = ns0 \<Longrightarrow>
      \<forall>m < length cs. (m = 0 \<or> fst (cs ! m) \<le> key) \<longrightarrow> (\<forall>k < length cs. m < k \<longrightarrow> key < fst (cs ! k)) \<longrightarrow>
        (\<exists>r. right_group gs key i j r \<and> descend_loop st f lsn key (snd (cs ! m)) = Inr (Some (ns ! r)))"
proof (induction rule: covers_spans.inducts)
  case (leaf i ns)
  have "b + 1 + length ns < 2 ^ 48" using assms(3) leaf.prems by (simp add: holds_nodes_def)
  then have "node_kind (ns ! i) = 1" "node_number b i \<noteq> 0" "index_node st f (node_number b i) lsn = Inr (ns ! i)"
    using leaf_facts(1) [OF assms(1,2) \<open>i < length gs\<close>] node_number_nonzero [of b i] leaf assms(3)
    by (auto simp: holds_nodes_def)
  then show ?case by (intro exI [of _ i]) (auto simp: right_group_def descend_loop.simps)
next
  case (branch q ns cs i j)
  have ok: "bt_ok cs" using spans_firsts(2) [OF assms(1) \<open>spans b lsn gs ns cs i j\<close>] by simp
  have bl: "b + 1 + length ns < 2 ^ 48" using assms(3) branch.prems by (simp add: holds_nodes_def)
  then have bq: "b + 1 + q < 2 ^ 48" using \<open>q < length ns\<close> by linarith
  from bl have n: "node_number b q \<noteq> 0" "index_node st f (node_number b q) lsn = Inr (ns ! q)"
    using node_number_nonzero [of b q] branch.hyps branch.prems assms(3) by (auto simp: holds_nodes_def)
  have bf: "node_kind (ns ! q) = 2"
      "\<exists>m < length cs. chosen_child (ns ! q) key = snd (cs ! m) \<and> (m = 0 \<or> fst (cs ! m) \<le> key) \<and>
      (\<forall>k < length cs. m < k \<longrightarrow> key < fst (cs ! k))"
    using branch_facts [OF assms(1) \<open>ns ! q = branch_page (node_number b q) lsn cs\<close> \<open>cs \<noteq> []\<close>
        \<open>length cs \<le> BRANCH_CAPACITY\<close> \<open>\<forall>c \<in> set cs. \<exists>p < q. snd c = node_number b p\<close> ok bq] by blast+
  then obtain m where m: "m < length cs" "chosen_child (ns ! q) key = snd (cs ! m)" "m = 0 \<or> fst (cs ! m) \<le> key"
      "\<forall>k < length cs. m < k \<longrightarrow> key < fst (cs ! k)" by blast
  from branch(8) [OF branch.prems] m(1,3,4) obtain r where
      "right_group gs key i j r" "descend_loop st f lsn key (snd (cs ! m)) = Inr (Some (ns ! r))" by blast
  then have "right_group gs key i j r" "descend_loop st f lsn key (chosen_child (ns ! q) key) = Inr (Some (ns ! r))"
    by (simp_all only: m(2))
  then show ?case using n bf(1) by (intro exI [of _ r]) (simp add: descend_loop.simps [of st f lsn key "node_number b q"])
next
  case (cons ns q i m cs j)
  have im: "m \<le> length gs" "i < m" using covers_bounds(1) [OF \<open>covers b lsn gs ns q i m\<close>] by auto
  note sp = \<open>spans b lsn gs ns cs m j\<close>
  have j: "cs = [] \<longrightarrow> m = j" "cs \<noteq> [] \<longrightarrow> m < j \<and> j \<le> length gs" using covers_bounds(2) [OF sp] by auto
  note firsts = spans_firsts(2) [OF assms(1) sp]
  show ?case
  proof (intro allI impI)
    fix k
    let ?cs = "(group_first gs i, node_number b q) # cs"
    assume k: "k < length ?cs" "k = 0 \<or> fst (?cs ! k) \<le> key" "\<forall>k' < length ?cs. k < k' \<longrightarrow> key < fst (?cs ! k')"
    show "\<exists>r. right_group gs key i j r \<and> descend_loop st f lsn key (snd (?cs ! k)) = Inr (Some (ns ! r))"
    proof (cases k)
      case 0
      obtain r where r: "right_group gs key i m r" "descend_loop st f lsn key (node_number b q) = Inr (Some (ns ! r))"
        using cons(2) [OF cons.prems] by blast
      have "key < group_first gs s" if s: "m \<le> s" "s < j" for s
      proof -
        have ne: "cs \<noteq> []" using j s by auto
        then have "key < fst (?cs ! 1)" using k(3) 0 by (cases cs) auto
        also have "fst (?cs ! 1) = group_first gs m" using firsts ne by (cases cs) auto
        also have "group_first gs m \<le> group_first gs s"
          using group_first_less [OF assms(1), of m s] s j ne by (cases "m = s") (auto intro: less_imp_le)
        finally show ?thesis .
      qed
      then have "right_group gs key i j r"
        using r(1) im j by (auto simp: right_group_def) (metis not_le, metis less_le_trans not_le)
      then show ?thesis using r(2) 0 by auto
    next
      case (Suc k')
      have le: "fst (cs ! k') \<le> key" "k' < length cs" using k Suc by auto
      have up: "\<forall>n < length cs. k' < n \<longrightarrow> key < fst (cs ! n)"
      proof (intro allI impI)
        fix n assume "n < length cs" "k' < n"
        then show "key < fst (cs ! n)" using k(3) [rule_format, of "Suc n"] Suc by simp
      qed
      obtain r where r: "right_group gs key m j r" "descend_loop st f lsn key (snd (cs ! k')) = Inr (Some (ns ! r))"
        using cons(4) [OF cons.prems] le up by blast
      have ne: "cs \<noteq> []" using le by auto
      have "group_first gs m \<le> fst (cs ! k')"
      proof -
        have "fst (cs ! 0) = group_first gs m" "bt_ok cs" using firsts ne by (simp_all add: hd_conv_nth)
        moreover have "fst (cs ! 0) \<le> fst (cs ! k')"
        proof (cases "k' = 0")
          case False
          then have "fst (cs ! 0) < fst (cs ! k')" using \<open>bt_ok cs\<close> le(2)
            by (simp add: bt_ok_def sorted_wrt_iff_nth_less)
          then show ?thesis by (rule less_imp_le)
        qed simp
        ultimately show ?thesis by simp
      qed
      then have "group_first gs m \<le> key" using le(1) by simp
      then have "right_group gs key i j r" using r(1) im by (auto simp: right_group_def)
      then show ?thesis using r(2) Suc by auto
    qed
  qed
qed simp

section \<open>Lookup, floor and scan\<close>

text \<open>A built part of a file: its metadata page points at a root above every leaf.\<close>

definition index_built :: "store \<Rightarrow> file_id \<Rightarrow> u64 \<Rightarrow> nat \<Rightarrow> (index_key \<times> index_value) list list \<Rightarrow> bytes list \<Rightarrow> bool" where
  "index_built st f lsn b gs ns = (groups_ok gs \<and> leaves_ok b lsn gs ns \<and> holds_nodes st f lsn b ns \<and>
     (\<exists>bs. st_disk st f = Some bs \<and> length bs mod PAGE_SIZE = 0) \<and>
     (\<exists>root count. index_node st f (of_nat b) lsn = Inr (meta_page (of_nat b) lsn count root) \<and>
       (if gs = [] then root = 0 else \<exists>q. root = node_number b q \<and> covers b lsn gs ns q 0 (length gs))))"

lemma index_descend_built:
  assumes "index_built st f lsn b gs ns"
  shows "if gs = [] then index_descend st f lsn (of_nat b) key = Inr None
    else \<exists>r. right_group gs key 0 (length gs) r \<and> index_descend st f lsn (of_nat b) key = Inr (Some (ns ! r))"
proof -
  obtain bs root count where ok: "groups_ok gs" "leaves_ok b lsn gs ns" "holds_nodes st f lsn b ns"
      and bs: "st_disk st f = Some bs" "length bs mod PAGE_SIZE = 0"
      and meta: "index_node st f (of_nat b) lsn = Inr (meta_page (of_nat b) lsn count root)"
      and root: "if gs = [] then root = 0 else \<exists>q. root = node_number b q \<and> covers b lsn gs ns q 0 (length gs)"
    using assms by (auto simp: index_built_def)
  have d: "index_descend st f lsn (of_nat b) key = descend_loop st f lsn key root"
    by (simp add: index_descend_def bs meta meta_page_layout header_fields)
  show ?thesis
  proof (cases "gs = []")
    case True
    then show ?thesis using root by (simp add: d descend_loop.simps)
  next
    case False
    then obtain q where "root = node_number b q" "covers b lsn gs ns q 0 (length gs)" using root by auto
    then show ?thesis using covers_leaf_or_branch(1) [OF ok _ refl, where key = key and q = q] False by (simp add: d)
  qed
qed

lemma index_lookup_built:
  assumes "index_built st f lsn b gs ns"
  shows "index_lookup_at st f lsn (of_nat b) key = Inr (map_of (concat gs) key)"
proof (cases "gs = []")
  case True
  then show ?thesis using index_descend_built [OF assms, of key] by (simp add: index_lookup_at_def)
next
  case False
  then obtain r where r: "right_group gs key 0 (length gs) r"
      "index_descend st f lsn (of_nat b) key = Inr (Some (ns ! r))"
    using index_descend_built [OF assms, of key] by auto
  have ok: "groups_ok gs" "leaves_ok b lsn gs ns" "b + 1 + length ns < 2 ^ 48" and rl: "r < length gs"
    using assms r(1) by (auto simp: index_built_def holds_nodes_def right_group_def)
  note lf = leaf_facts [OF ok(1,2) rl ok(3)]
  note sides = right_group_sides [OF ok(1) r(1)]
  let ?n = "ns ! r" and ?g = "gs ! r"
  let ?i = "node_lower_bound ?n key"
  note lb = node_lower_bound_spec [OF lf(4), where key = key, unfolded lf(2)]
  have out: "map_of (concat (take r gs)) key = None" "map_of (concat (drop (Suc r) gs)) key = None"
    using sides by (fastforce simp: map_of_eq_None_iff)+
  have whole: "map_of (concat gs) key = map_of ?g key"
    using out by (simp add: groups_split [OF rl] map_add_def split: option.splits)
  have dist: "distinct (map fst ?g)" using groups_nth(2) [OF ok(1) rl] by (rule bt_ok_distinct)
  have "map_of ?g key = (if ?i < length ?g \<and> node_key ?n ?i = key then Some (node_value ?n ?i) else None)"
  proof (cases "?i < length ?g \<and> node_key ?n ?i = key")
    case True
    then have "?g ! ?i = (key, node_value ?n ?i)" using lf(5) by (metis prod.collapse)
    then have "(key, node_value ?n ?i) \<in> set ?g" using True by (metis nth_mem)
    then show ?thesis using True dist by simp
  next
    case False
    have "key \<noteq> fst (?g ! e)" if "e < length ?g" for e
    proof
      assume e: "key = fst (?g ! e)"
      then have "\<not> e < ?i" using lb(2) [of e] lf(5) [OF that] by auto
      moreover have "\<not> ?i < e"
      proof
        assume lt: "?i < e"
        then have "node_key ?n ?i < node_key ?n e" using lf(4) that by (simp add: node_sorted_def lf(2))
        then show False using lb(3) [of ?i] lt that e lf(5) [OF that] by auto
      qed
      ultimately have "e = ?i" by linarith
      then show False using False e that lf(5) [OF that] by auto
    qed
    then have "key \<notin> fst ` set ?g" by (auto simp: in_set_conv_nth) (metis fst_conv)
    then have "map_of ?g key = None" by (simp add: map_of_eq_None_iff)
    then show ?thesis using False by (simp only: if_False)
  qed
  then show ?thesis by (simp add: index_lookup_at_def r(2) Let_def whole lf(2))
qed


lemma index_floor_built:
  assumes "index_built st f lsn b gs ns"
  shows "index_floor_at st f lsn (of_nat b) key =
    Inr (case filter (\<lambda>e. fst e \<le> key) (concat gs) of [] \<Rightarrow> None | es \<Rightarrow> Some (last es))"
proof (cases "gs = []")
  case True
  then show ?thesis using index_descend_built [OF assms, of key] by (simp add: index_floor_at_def)
next
  case False
  then obtain r where r: "right_group gs key 0 (length gs) r"
      "index_descend st f lsn (of_nat b) key = Inr (Some (ns ! r))"
    using index_descend_built [OF assms, of key] by auto
  have ok: "groups_ok gs" "leaves_ok b lsn gs ns" "b + 1 + length ns < 2 ^ 48" and rl: "r < length gs"
    using assms r(1) by (auto simp: index_built_def holds_nodes_def right_group_def)
  note lf = leaf_facts [OF ok(1,2) rl ok(3)]
  note sides = right_group_sides [OF ok(1) r(1)]
  let ?n = "ns ! r" and ?g = "gs ! r"
  note floor = node_floor_index_spec [OF lf(4), of key, unfolded lf(2)]
  have low: "filter (\<lambda>e. fst e \<le> key) (concat (take r gs)) = concat (take r gs)"
    using sides(1) by (intro filter_True) (blast intro: less_imp_le)
  have high: "filter (\<lambda>e. fst e \<le> key) (concat (drop (Suc r) gs)) = []"
    using sides(2) by (intro filter_False) (meson not_le)
  have whole: "filter (\<lambda>e. fst e \<le> key) (concat gs) = concat (take r gs) @ filter (\<lambda>e. fst e \<le> key) ?g"
    using low high by (subst groups_split [OF rl]) simp
  show ?thesis
  proof (cases "node_floor_index ?n key")
    case None
    then have above: "\<forall>e < length ?g. key < fst (?g ! e)" using floor lf(5) by simp
    then have "filter (\<lambda>e. fst e \<le> key) ?g = []" by (intro filter_False) (metis in_set_conv_nth not_le)
    moreover have r0: "r = 0"
    proof (rule ccontr)
      assume "r \<noteq> 0"
      then have "group_first gs r \<le> key" using r(1) by (simp add: right_group_def)
      moreover have "group_first gs r = fst (?g ! 0)" using groups_nth(1) [OF ok(1) rl] by (simp add: group_first_def hd_conv_nth)
      ultimately show False using above groups_nth(1) [OF ok(1) rl] by (metis length_greater_0_conv not_le)
    qed
    ultimately have "filter (\<lambda>e. fst e \<le> key) (concat gs) = []" unfolding whole by simp
    then show ?thesis by (simp add: index_floor_at_def r(2) None)
  next
    case (Some m)
    then have fl: "m < length ?g" "\<forall>i \<le> m. node_key ?n i \<le> key" "\<forall>i < length ?g. m < i \<longrightarrow> key < node_key ?n i"
      using floor by simp_all
    then have m: "m < length ?g" "\<forall>i \<le> m. fst (?g ! i) \<le> key" "\<forall>i < length ?g. m < i \<longrightarrow> key < fst (?g ! i)"
      using lf(5) by (auto simp del: less_prod_simp less_eq_prod_simp)
    have "filter (\<lambda>e. fst e \<le> key) (take (Suc m) ?g) = take (Suc m) ?g"
      using m by (intro filter_True) (simp add: all_set_conv_all_nth)
    moreover have "filter (\<lambda>e. fst e \<le> key) (drop (Suc m) ?g) = []"
      using m(3) by (intro filter_False) (simp add: all_set_conv_all_nth not_le)
    ultimately have "filter (\<lambda>e. fst e \<le> key) ?g = take (Suc m) ?g"
      by (metis append_Nil2 append_take_drop_id filter_append)
    moreover have "last (take (Suc m) ?g) = ?g ! m" "take (Suc m) ?g \<noteq> []"
      using m(1) by (simp_all add: take_Suc_conv_app_nth)
    ultimately have "last (filter (\<lambda>e. fst e \<le> key) (concat gs)) = ?g ! m" "filter (\<lambda>e. fst e \<le> key) (concat gs) \<noteq> []"
      by (simp_all add: whole)
    moreover have "?g ! m = (node_key ?n m, node_value ?n m)" using lf(5) [OF m(1)] by simp
    ultimately show ?thesis
      by (auto simp only: index_floor_at_def r(2) Some neq_Nil_conv list.case res_bind.simps option.case option.map)
  qed
qed

text \<open>The entries a cursor has still to deliver, below its upper bound or not.\<close>

definition cursor_rest :: "(index_key \<times> index_value) list list \<Rightarrow> nat \<Rightarrow> nat \<Rightarrow> (index_key \<times> index_value) list" where
  "cursor_rest gs r p = drop p (gs ! r) @ concat (drop (Suc r) gs)"

definition cursor_at :: "file_id \<Rightarrow> u64 \<Rightarrow> (index_key \<times> index_value) list list \<Rightarrow> bytes list \<Rightarrow> nat \<Rightarrow> nat \<Rightarrow>
    index_cursor \<Rightarrow> bool" where
  "cursor_at f lsn gs ns r p c = (ic_file c = f \<and> ic_lsn c = lsn \<and> \<not> ic_failed c \<and> ic_leaf c = Some (ns ! r) \<and>
     ic_position c = p \<and> r < length gs \<and> p \<le> length (gs ! r))"

lemma cursor_rest_next: "Suc r < length gs \<Longrightarrow> cursor_rest gs r (length (gs ! r)) = cursor_rest gs (Suc r) 0"
  by (simp add: cursor_rest_def Cons_nth_drop_Suc [symmetric])

lemma cursor_step_inside:
  assumes built: "index_built st f lsn b gs ns" and at: "cursor_at f lsn gs ns r p c" and p: "p < length (gs ! r)"
  shows "if ic_upper c < fst (gs ! r ! p) then fst (cursor_loop st c) = None
    else cursor_loop st c = (Some (Inr (gs ! r ! p)), c\<lparr>ic_position := Suc p\<rparr>) \<and>
      cursor_at f lsn gs ns r (Suc p) (c\<lparr>ic_position := Suc p\<rparr>)"
proof -
  have ok: "groups_ok gs" "leaves_ok b lsn gs ns" "b + 1 + length ns < 2 ^ 48" and rl: "r < length gs"
    using built at by (auto simp: index_built_def holds_nodes_def cursor_at_def)
  note lf = leaf_facts [OF ok(1,2) rl ok(3)]
  have c: "ic_leaf c = Some (ns ! r)" "ic_position c = p" using at by (auto simp: cursor_at_def)
  have kv: "node_key (ns ! r) p = fst (gs ! r ! p)" "node_value (ns ! r) p = snd (gs ! r ! p)" using lf(5) [OF p] by auto
  show ?thesis using at p unfolding cursor_loop.simps [of st c] by (simp add: c lf(2) kv cursor_at_def)
qed

lemma cursor_step_end:
  assumes built: "index_built st f lsn b gs ns" and at: "cursor_at f lsn gs ns r (length (gs ! r)) c"
  shows "if Suc r = length gs then fst (cursor_loop st c) = None
    else cursor_loop st c = cursor_loop st (c\<lparr>ic_leaf := Some (ns ! Suc r), ic_position := 0\<rparr>) \<and>
      cursor_at f lsn gs ns (Suc r) 0 (c\<lparr>ic_leaf := Some (ns ! Suc r), ic_position := 0\<rparr>)"
proof -
  have ok: "groups_ok gs" "leaves_ok b lsn gs ns" "b + 1 + length ns < 2 ^ 48" and rl: "r < length gs"
    using built at by (auto simp: index_built_def holds_nodes_def cursor_at_def)
  note lf = leaf_facts [OF ok(1,2) rl ok(3)]
  have c: "ic_leaf c = Some (ns ! r)" "ic_position c = length (gs ! r)" "ic_file c = f" "ic_lsn c = lsn"
    using at by (auto simp: cursor_at_def)
  show ?thesis
  proof (cases "Suc r = length gs")
    case True
    then show ?thesis unfolding cursor_loop.simps [of st c] by (simp add: c lf(2,3) leaf_link_def)
  next
    case False
    then have sr: "Suc r < length gs" using rl by simp
    have ns: "Suc r < length ns" using sr ok(2) by (auto simp: leaves_ok_def)
    have "index_node st f (node_number b (Suc r)) lsn = Inr (ns ! Suc r)"
      using built ns by (auto simp: index_built_def holds_nodes_def)
    moreover have "node_number b (Suc r) \<noteq> 0" using node_number_nonzero [of b "Suc r"] ns ok(3) by simp
    moreover have "node_kind (ns ! Suc r) = 1" by (rule leaf_facts(1) [OF ok(1,2) sr ok(3)])
    ultimately show ?thesis using False sr at
      by (subst cursor_loop.simps [of st c]) (simp add: c lf(2,3) leaf_link_def cursor_at_def)
  qed
qed

lemma cursor_step:
  assumes built: "index_built st f lsn b gs ns" and at: "cursor_at f lsn gs ns r p c"
  shows "case cursor_rest gs r p of
      [] \<Rightarrow> fst (cursor_loop st c) = None
    | e # es \<Rightarrow> if ic_upper c < fst e then fst (cursor_loop st c) = None
        else \<exists>r' p' c'. cursor_loop st c = (Some (Inr e), c') \<and> cursor_at f lsn gs ns r' p' c' \<and>
          cursor_rest gs r' p' = es \<and> ic_upper c' = ic_upper c"
proof (cases "p < length (gs ! r)")
  case True
  have rest: "cursor_rest gs r p = gs ! r ! p # cursor_rest gs r (Suc p)"
    using True by (simp add: cursor_rest_def Cons_nth_drop_Suc [symmetric])
  show ?thesis
  proof (cases "ic_upper c < fst (gs ! r ! p)")
    case over: True
    then have "fst (cursor_loop st c) = None" using cursor_step_inside [OF built at True] by simp
    then show ?thesis using over unfolding rest by (simp only: list.case if_True)
  next
    case False
    then have "cursor_loop st c = (Some (Inr (gs ! r ! p)), c\<lparr>ic_position := Suc p\<rparr>)"
      "cursor_at f lsn gs ns r (Suc p) (c\<lparr>ic_position := Suc p\<rparr>)"
      using cursor_step_inside [OF built at True] by simp_all
    then have "\<exists>r' p' c'. cursor_loop st c = (Some (Inr (gs ! r ! p)), c') \<and> cursor_at f lsn gs ns r' p' c' \<and>
        cursor_rest gs r' p' = cursor_rest gs r (Suc p) \<and> ic_upper c' = ic_upper c"
      by (intro exI [of _ r] exI [of _ "Suc p"] exI [of _ "c\<lparr>ic_position := Suc p\<rparr>"]) simp
    then show ?thesis using False by (simp only: rest list.case if_False)
  qed
next
  case False
  then have p: "p = length (gs ! r)" and at': "cursor_at f lsn gs ns r (length (gs ! r)) c"
    using at by (auto simp: cursor_at_def)
  show ?thesis
  proof (cases "Suc r = length gs")
    case True
    then have "cursor_rest gs r p = []" by (simp add: cursor_rest_def p)
    then show ?thesis using cursor_step_end [OF built at'] True by simp
  next
    case more: False
    let ?c = "c\<lparr>ic_leaf := Some (ns ! Suc r), ic_position := 0\<rparr>"
    have step: "cursor_loop st c = cursor_loop st ?c" and at2: "cursor_at f lsn gs ns (Suc r) 0 ?c"
      using cursor_step_end [OF built at'] more by simp_all
    have sr: "Suc r < length gs" using at2 by (simp add: cursor_at_def)
    have ne: "0 < length (gs ! Suc r)"
      using groups_nth(1) [OF _ sr] built by (auto simp: index_built_def)
    have rest: "cursor_rest gs r p = gs ! Suc r ! 0 # cursor_rest gs (Suc r) (Suc 0)"
      unfolding p cursor_rest_next [OF sr] using Cons_nth_drop_Suc [OF ne] by (simp add: cursor_rest_def)
    note inside = cursor_step_inside [OF built at2 ne]
    show ?thesis
    proof (cases "ic_upper ?c < fst (gs ! Suc r ! 0)")
      case over: True
      then have "fst (cursor_loop st c) = None" using inside step by simp
      then show ?thesis using over unfolding rest by simp
    next
      case False
      then have "cursor_loop st c = (Some (Inr (gs ! Suc r ! 0)), ?c\<lparr>ic_position := Suc 0\<rparr>)"
        "cursor_at f lsn gs ns (Suc r) (Suc 0) (?c\<lparr>ic_position := Suc 0\<rparr>)"
        using inside step by simp_all
      then have "\<exists>r' p' c'. cursor_loop st c = (Some (Inr (gs ! Suc r ! 0)), c') \<and> cursor_at f lsn gs ns r' p' c' \<and>
          cursor_rest gs r' p' = cursor_rest gs (Suc r) (Suc 0) \<and> ic_upper c' = ic_upper c"
        by (intro exI [of _ "Suc r"] exI [of _ "Suc 0"] exI [of _ "?c\<lparr>ic_position := Suc 0\<rparr>"]) simp
      moreover have "\<not> ic_upper c < fst (gs ! Suc r ! 0)" using False by simp
      ultimately show ?thesis by (simp only: rest list.case if_False)
    qed
  qed
qed

lemma cursor_run_built:
  assumes built: "index_built st f lsn b gs ns" and "cursor_at f lsn gs ns r p c"
  shows "cursor_run n st c = take n (map Inr (takeWhile (\<lambda>e. fst e \<le> ic_upper c) (cursor_rest gs r p)))"
  using assms(2)
proof (induction n arbitrary: r p c)
  case (Suc n)
  have nf: "\<not> ic_failed c" using Suc.prems by (simp add: cursor_at_def)
  note step = cursor_step [OF built Suc.prems]
  show ?case
  proof (cases "cursor_rest gs r p")
    case Nil
    then have "fst (cursor_loop st c) = None" using step by simp
    then show ?thesis using Nil nf by (cases "cursor_loop st c") (simp add: cursor_next_def)
  next
    case (Cons e es)
    show ?thesis
    proof (cases "ic_upper c < fst e")
      case True
      then have "fst (cursor_loop st c) = None" using step Cons by simp
      then show ?thesis using Cons nf True by (cases "cursor_loop st c") (simp add: cursor_next_def not_le)
    next
      case False
      then obtain r' p' c' where c': "cursor_loop st c = (Some (Inr e), c')" "cursor_at f lsn gs ns r' p' c'"
          "cursor_rest gs r' p' = es" "ic_upper c' = ic_upper c"
        using step Cons by auto
      have "fst e \<le> ic_upper c" using False by (meson not_le)
      then show ?thesis using Suc.IH [OF c'(2)] c' nf Cons by (simp add: cursor_next_def)
    qed
  qed
qed simp


lemma index_scan_built:
  assumes built: "index_built st f lsn b gs ns"
  shows "\<exists>c. index_scan_at st f lsn (of_nat b) lower upper = Inr c \<and>
    (\<forall>n. cursor_run n st c = take n (map Inr (filter (\<lambda>e. lower \<le> fst e \<and> fst e \<le> upper) (concat gs))))"
proof (cases "gs = []")
  case True
  let ?c = "\<lparr>ic_file = f, ic_lsn = lsn, ic_upper = upper, ic_leaf = None, ic_position = 0, ic_failed = False\<rparr>"
  have "index_scan_at st f lsn (of_nat b) lower upper = Inr ?c"
    using index_descend_built [OF built, of lower] True by (simp add: index_scan_at_def)
  moreover have "cursor_run n st ?c = []" for n
    by (cases n) (simp_all add: cursor_next_def cursor_loop.simps)
  ultimately show ?thesis using True by (intro exI [of _ ?c]) simp
next
  case False
  then obtain r where r: "right_group gs lower 0 (length gs) r"
      "index_descend st f lsn (of_nat b) lower = Inr (Some (ns ! r))"
    using index_descend_built [OF built, of lower] by auto
  have ok: "groups_ok gs" "leaves_ok b lsn gs ns" "b + 1 + length ns < 2 ^ 48" and rl: "r < length gs"
    using built r(1) by (auto simp: index_built_def holds_nodes_def right_group_def)
  note lf = leaf_facts [OF ok(1,2) rl ok(3)]
  let ?n = "ns ! r" and ?g = "gs ! r"
  let ?p = "node_lower_bound ?n lower"
  note lb = node_lower_bound_spec [OF lf(4), where key = lower, unfolded lf(2)]
  let ?c = "\<lparr>ic_file = f, ic_lsn = lsn, ic_upper = upper, ic_leaf = Some ?n, ic_position = ?p, ic_failed = False\<rparr>"
  have "cursor_at f lsn gs ns r ?p ?c" using rl lb(1) by (simp add: cursor_at_def)
  note run = cursor_run_built [OF built this]
  have drops: "filter (\<lambda>e. lower \<le> fst e) (concat gs) = cursor_rest gs r ?p"
  proof -
    have "filter (\<lambda>e. lower \<le> fst e) (concat (take r gs)) = []"
      using right_group_sides(1) [OF ok(1) r(1)] by (intro filter_False) (meson not_le)
    moreover have "filter (\<lambda>e. lower \<le> fst e) (concat (drop (Suc r) gs)) = concat (drop (Suc r) gs)"
      using right_group_sides(2) [OF ok(1) r(1)] by (intro filter_True) (blast intro: less_imp_le)
    moreover have "filter (\<lambda>e. lower \<le> fst e) (take ?p ?g) = []"
      using lb(1,2) lf(5) by (intro filter_False) (simp add: all_set_conv_all_nth not_le)
    moreover have "filter (\<lambda>e. lower \<le> fst e) (drop ?p ?g) = drop ?p ?g"
      using lb(1,3) lf(5) by (intro filter_True) (simp add: all_set_conv_all_nth)
    moreover have "filter (\<lambda>e. lower \<le> fst e) ?g =
        filter (\<lambda>e. lower \<le> fst e) (take ?p ?g) @ filter (\<lambda>e. lower \<le> fst e) (drop ?p ?g)"
      by (simp flip: filter_append)
    ultimately show ?thesis by (subst groups_split [OF rl]) (simp add: cursor_rest_def)
  qed
  have sorted: "bt_ok (cursor_rest gs r ?p)"
    using ok(1) unfolding drops [symmetric] groups_ok_def by (blast intro: bt_ok_filter)
  have tw: "takeWhile (\<lambda>e. fst e \<le> upper) xs = filter (\<lambda>e. fst e \<le> upper) xs" if "bt_ok xs"
    for xs :: "(index_key \<times> index_value) list"
    using that
  proof (induction xs)
    case (Cons x xs)
    have x: "\<forall>e \<in> set xs. fst x < fst e" "bt_ok xs" using Cons.prems bt_ok_Cons [of "fst x" "snd x" xs] by simp_all
    show ?case
    proof (cases "fst x \<le> upper")
      case True
      then show ?thesis using Cons.IH [OF x(2)] by simp
    next
      case False
      have "filter (\<lambda>e. fst e \<le> upper) xs = []"
      proof (rule filter_False, rule ballI)
        fix e assume "e \<in> set xs"
        then have "fst x < fst e" using x(1) by blast
        then show "\<not> fst e \<le> upper" using False by (meson less_imp_le order_trans)
      qed
      then show ?thesis using False by simp
    qed
  qed simp
  have "index_scan_at st f lsn (of_nat b) lower upper = Inr ?c" by (simp add: index_scan_at_def r(2))
  moreover have "cursor_run n st ?c = take n (map Inr (filter (\<lambda>e. lower \<le> fst e \<and> fst e \<le> upper) (concat gs)))" for n
    using run [of n] tw [OF sorted] by (simp add: drops [symmetric] conj_commute)
  ultimately show ?thesis by blast
qed

section \<open>What the writer builds\<close>

definition branches_ok :: "nat \<Rightarrow> u64 \<Rightarrow> nat \<Rightarrow> bytes list \<Rightarrow> bool" where
  "branches_ok b lsn k ns = (\<forall>q < length ns. k \<le> q \<longrightarrow> (\<exists>cs. ns ! q = branch_page (node_number b q) lsn cs \<and>
     cs \<noteq> [] \<and> length cs \<le> BRANCH_CAPACITY \<and> bt_ok cs \<and> (\<forall>c \<in> set cs. \<exists>p < q. snd c = node_number b p)))"

text \<open>The writer while it appends: the groups are the leaves written so far.\<close>

definition flushed_leaf :: "nat \<Rightarrow> u64 \<Rightarrow> (index_key \<times> index_value) list list \<Rightarrow> nat \<Rightarrow> bytes" where
  "flushed_leaf b lsn gs i = leaf_page (node_number b i) lsn (gs ! i) (node_number b (Suc i))"

definition append_inv :: "bytes \<Rightarrow> nat \<Rightarrow> u64 \<Rightarrow> (index_key \<times> index_value) list list \<Rightarrow> index_writer \<Rightarrow> bool" where
  "append_inv pre b lsn gs w = (
     iw_file w = pre @ replicate PAGE_SIZE 0 @ concat (map index_seal (map (flushed_leaf b lsn gs) [0..<length gs])) \<and>
     iw_lsn w = lsn \<and> iw_base w = of_nat b \<and> iw_next w = node_number b (length gs) \<and>
     iw_level w = map (\<lambda>i. (group_first gs i, node_number b i)) [0..<length gs] \<and>
     (\<forall>g \<in> set gs. g \<noteq> [] \<and> length g \<le> LEAF_CAPACITY) \<and> length (iw_leaf w) \<le> LEAF_CAPACITY \<and>
     (gs \<noteq> [] \<longrightarrow> iw_leaf w \<noteq> []) \<and> bt_ok (concat gs @ iw_leaf w) \<and>
     iw_previous w = bt_last_key (concat gs @ iw_leaf w))"

lemma append_inv_new: "append_inv pre b lsn [] (writer_from_file pre lsn (of_nat b))"
  by (simp add: append_inv_def writer_from_file_def node_number_def bt_last_key_def)

lemma flushed_leaf_snoc: "i < length gs \<Longrightarrow> flushed_leaf b lsn (gs @ hs) i = flushed_leaf b lsn gs i"
  by (simp add: flushed_leaf_def nth_append)

lemma flushed_leaves_snoc: "map (index_seal \<circ> flushed_leaf b lsn (gs @ hs)) [0..<length gs] =
    map (index_seal \<circ> flushed_leaf b lsn gs) [0..<length gs]"
  by (simp add: flushed_leaf_snoc)

lemma group_first_snoc: "i < length gs \<Longrightarrow> group_first (gs @ hs) i = group_first gs i"
  by (simp add: group_first_def nth_append)

lemma node_number_Suc: "node_number b (Suc q) = node_number b q + 1"
  by (simp add: node_number_def)

text \<open>Flushing a leaf, on the way or at the end.\<close>

lemma flush_leaf_file:
  assumes "append_inv pre b lsn gs w" "iw_leaf w \<noteq> []"
  shows "iw_file (flush_leaf link w) = pre @ replicate PAGE_SIZE 0 @ concat (map index_seal
      (map (flushed_leaf b lsn gs) [0..<length gs] @ [leaf_page (node_number b (length gs)) lsn (iw_leaf w) link]))"
    and "iw_level (flush_leaf link w) = map (\<lambda>i. (group_first (gs @ [iw_leaf w]) i, node_number b i)) [0..<Suc (length gs)]"
    and "iw_next (flush_leaf link w) = node_number b (Suc (length gs))"
    and "iw_lsn (flush_leaf link w) = lsn" "iw_base (flush_leaf link w) = of_nat b" "iw_leaf (flush_leaf link w) = []"
    and "iw_count (flush_leaf link w) = iw_count w"
  using assms by (auto simp: append_inv_def flush_leaf_def node_number_Suc group_first_snoc)
    (simp add: group_first_def nth_append)

lemma append_inv_flush:
  assumes "append_inv pre b lsn gs w" "iw_leaf w \<noteq> []"
  shows "let w' = flush_leaf (iw_next w + 1) w in
    append_inv pre b lsn (gs @ [iw_leaf w]) (w'\<lparr>iw_leaf := [e], iw_previous := Some (fst e), iw_count := n\<rparr>) \<longleftrightarrow>
    bt_ok ((concat gs @ iw_leaf w) @ [e])"
proof -
  have nx: "iw_next w + 1 = node_number b (Suc (length gs))" using assms by (simp add: append_inv_def node_number_Suc)
  have "map (flushed_leaf b lsn (gs @ [iw_leaf w])) [0..<Suc (length gs)] =
      map (flushed_leaf b lsn gs) [0..<length gs] @ [leaf_page (node_number b (length gs)) lsn (iw_leaf w) (iw_next w + 1)]"
    by (simp add: flushed_leaf_snoc) (simp add: flushed_leaf_def nx)
  then show ?thesis
    using assms flush_leaf_file [OF assms, of "iw_next w + 1"]
    by (simp add: append_inv_def Let_def bt_last_key_def index_consts flushed_leaves_snoc)
qed

lemma writer_append_step:
  assumes "append_inv pre b lsn gs w" "writer_append k v w = Inr w'"
  shows "\<exists>gs'. append_inv pre b lsn gs' w' \<and> concat gs' @ iw_leaf w' = (concat gs @ iw_leaf w) @ [(k, v)]"
proof -
  have below: "\<not> (case iw_previous w of None \<Rightarrow> False | Some p \<Rightarrow> p \<ge> k)"
    and w': "w' = (let w = (if length (iw_leaf w) = LEAF_CAPACITY then flush_leaf (iw_next w + 1) w else w) in
        w\<lparr>iw_leaf := iw_leaf w @ [(k, v)], iw_previous := Some k, iw_count := iw_count w + 1\<rparr>)"
    using assms(2) by (auto simp: writer_append_def Let_def split: if_splits)
  have prev: "bt_ok (concat gs @ iw_leaf w)" "iw_previous w = bt_last_key (concat gs @ iw_leaf w)"
    using assms(1) by (simp_all add: append_inv_def)
  have "fst e < k" if e: "e \<in> set (concat gs @ iw_leaf w)" for e
  proof -
    have "concat gs @ iw_leaf w \<noteq> []" using e by (metis empty_iff list.set(1))
    then obtain l where l: "iw_previous w = Some l" using prev(2) by (simp add: bt_last_key_def del: append_is_Nil_conv)
    then have "fst e \<le> l" using bt_last_key_greatest [OF prev(1)] prev(2) e by metis
    also have "l < k" using below l by (simp add: not_le)
    finally show ?thesis .
  qed
  then have ok: "bt_ok ((concat gs @ iw_leaf w) @ [(k, v)])"
    using prev(1) by (simp only: bt_ok_append [of "concat gs @ iw_leaf w"]) simp
  show ?thesis
  proof (cases "length (iw_leaf w) = LEAF_CAPACITY")
    case True
    then have ne: "iw_leaf w \<noteq> []" by (auto simp: index_consts)
    let ?f = "flush_leaf (iw_next w + 1) w"
    have eq: "w' = ?f\<lparr>iw_leaf := [(k, v)], iw_previous := Some (fst (k, v)), iw_count := iw_count ?f + 1\<rparr>"
      using True flush_leaf_file(6) [OF assms(1) ne] by (simp add: w' Let_def)
    have "append_inv pre b lsn (gs @ [iw_leaf w]) w'"
      using append_inv_flush [OF assms(1) ne, where e = "(k, v)"] ok unfolding eq by (simp add: Let_def)
    then show ?thesis by (intro exI [of _ "gs @ [iw_leaf w]"]) (simp add: eq)
  next
    case False
    then have "w' = w\<lparr>iw_leaf := iw_leaf w @ [(k, v)], iw_previous := Some k, iw_count := iw_count w + 1\<rparr>"
      by (simp add: w')
    then show ?thesis using assms(1) False ok
      by (intro exI [of _ gs]) (auto simp: append_inv_def bt_last_key_def)
  qed
qed

lemma writer_append_all_inv:
  "append_inv pre b lsn gs w \<Longrightarrow> writer_append_all es w = Inr w' \<Longrightarrow>
    \<exists>gs'. append_inv pre b lsn gs' w' \<and> concat gs' @ iw_leaf w' = (concat gs @ iw_leaf w) @ es"
proof (induction es arbitrary: gs w)
  case (Cons e es)
  then obtain u where u: "writer_append (fst e) (snd e) w = Inr u" "writer_append_all es u = Inr w'"
    by (auto simp: res_simps)
  from writer_append_step [OF Cons.prems(1) u(1)] obtain gs' where
    "append_inv pre b lsn gs' u" "concat gs' @ iw_leaf u = (concat gs @ iw_leaf w) @ [e]" by auto
  then show ?case using Cons.IH [OF _ u(2)] by fastforce
qed auto


section \<open>Finishing a part\<close>

text \<open>The writer once every leaf is written: its level spans all leaves.\<close>

definition level_inv :: "bytes \<Rightarrow> nat \<Rightarrow> u64 \<Rightarrow> (index_key \<times> index_value) list list \<Rightarrow> bytes list \<Rightarrow> index_writer \<Rightarrow> bool" where
  "level_inv pre b lsn gs ns w = (iw_file w = pre @ replicate PAGE_SIZE 0 @ concat (map index_seal ns) \<and>
     iw_lsn w = lsn \<and> iw_base w = of_nat b \<and> iw_next w = node_number b (length ns) \<and>
     groups_ok gs \<and> leaves_ok b lsn gs ns \<and> branches_ok b lsn (length gs) ns)"

lemma spans_leaves:
  assumes "length gs \<le> length ns"
  shows "k \<le> length gs \<Longrightarrow> spans b lsn gs ns (map (\<lambda>i. (group_first gs i, node_number b i)) [0..<k]) 0 k"
proof (induction k)
  case (Suc k)
  have "covers b lsn gs ns k k (Suc k)" using Suc.prems assms by (intro covers_spans.leaf) simp_all
  then have "spans b lsn gs ns [(group_first gs k, node_number b k)] k (Suc k)"
    by (auto intro: covers_spans.intros)
  then show ?case using Suc by (auto simp: spans_append)
qed (simp add: covers_spans.empty)

lemma flush_leaf_last:
  assumes "append_inv pre b lsn gs w"
  shows "\<exists>gs' ns. concat gs' = concat gs @ iw_leaf w \<and> level_inv pre b lsn gs' ns (flush_leaf 0 w) \<and>
    spans b lsn gs' ns (iw_level (flush_leaf 0 w)) 0 (length gs')"
proof (cases "iw_leaf w = []")
  case True
  then have "gs = []" using assms by (auto simp: append_inv_def)
  with True assms have "level_inv pre b lsn [] [] (flush_leaf 0 w) \<and> iw_level (flush_leaf 0 w) = []"
    by (simp add: level_inv_def append_inv_def flush_leaf_def groups_ok_def leaves_ok_def branches_ok_def)
  then show ?thesis using True \<open>gs = []\<close>
    by (intro exI [of _ "[]"]) (simp add: covers_spans.empty)
next
  case False
  let ?gs = "gs @ [iw_leaf w]"
  let ?ns = "map (flushed_leaf b lsn gs) [0..<length gs] @ [leaf_page (node_number b (length gs)) lsn (iw_leaf w) 0]"
  note fl = flush_leaf_file [OF assms False, of 0]
  have g: "groups_ok ?gs" using assms False by (auto simp: append_inv_def groups_ok_def)
  have len: "\<forall>g \<in> set ?gs. length g \<le> LEAF_CAPACITY" using assms by (auto simp: append_inv_def)
  have "leaves_ok b lsn ?gs ?ns"
    unfolding leaves_ok_def
  proof (intro conjI allI impI)
    fix i assume "i < length ?gs"
    then show "length (?gs ! i) \<le> LEAF_CAPACITY" using len by (meson nth_mem)
    show "?ns ! i = leaf_page (node_number b i) lsn (?gs ! i) (leaf_link b ?gs i)"
    proof (cases "i < length gs")
      case True
      then show ?thesis by (simp add: nth_append flushed_leaf_def leaf_link_def)
    next
      case False
      then have "i = length gs" using \<open>i < length ?gs\<close> by simp
      then show ?thesis by (simp add: nth_append leaf_link_def)
    qed
  qed simp
  then have "level_inv pre b lsn ?gs ?ns (flush_leaf 0 w)"
    using fl g by (simp add: level_inv_def branches_ok_def)
  moreover have "spans b lsn ?gs ?ns (iw_level (flush_leaf 0 w)) 0 (length ?gs)"
    using spans_leaves [of ?gs ?ns "length ?gs" b lsn] unfolding fl(2) by simp
  ultimately show ?thesis by (intro exI [of _ ?gs] exI [of _ ?ns]) simp
qed

lemma covers_node: "covers b lsn gs ns q i j \<Longrightarrow> q < length ns"
  by (erule covers.cases) auto

lemma spans_children: "spans b lsn gs ns cs i j \<Longrightarrow> \<forall>c \<in> set cs. \<exists>p < length ns. snd c = node_number b p"
proof (induction cs arbitrary: i)
  case (Cons c cs)
  from Cons.prems obtain q m where "c = (group_first gs i, node_number b q)" "covers b lsn gs ns q i m"
      "spans b lsn gs ns cs m j" by (auto elim: spans_ConsE)
  then show ?case using Cons.IH covers_node by fastforce
qed simp

text \<open>One branch more: it takes the place of its children in the level.\<close>

lemma write_branch_step:
  assumes inv: "level_inv pre b lsn gs ns w" and ch: "spans b lsn gs ns ch i m" "ch \<noteq> []" "length ch \<le> BRANCH_CAPACITY"
    and acc: "spans b lsn gs ns (iw_level w) 0 i"
  shows "\<exists>n. level_inv pre b lsn gs (ns @ [n]) (write_branch ch w) \<and>
    spans b lsn gs (ns @ [n]) (iw_level (write_branch ch w)) 0 m"
proof -
  let ?n = "branch_page (node_number b (length ns)) lsn ch"
  have g: "groups_ok gs" "length gs \<le> length ns" using inv by (auto simp: level_inv_def leaves_ok_def)
  note firsts = spans_firsts(2) [OF g(1) ch(1)]
  note children = spans_children [OF ch(1)]
  have "leaves_ok b lsn gs (ns @ [?n])" using inv by (auto simp: level_inv_def leaves_ok_def nth_append)
  moreover have "branches_ok b lsn (length gs) (ns @ [?n])"
    using inv ch firsts children by (auto simp: level_inv_def branches_ok_def nth_append less_Suc_eq)
  ultimately have "level_inv pre b lsn gs (ns @ [?n]) (write_branch ch w)"
    using inv by (simp add: level_inv_def write_branch_def node_number_Suc)
  moreover have "covers b lsn gs (ns @ [?n]) (length ns) i m"
    using ch g children by (intro covers_spans.branch [where cs = ch] covers_grow(2)) auto
  then have "spans b lsn gs (ns @ [?n]) [(group_first gs i, node_number b (length ns))] i m"
    using covers_bounds(2) [OF ch(1)] ch(2) by (auto intro: covers_spans.intros)
  then have "spans b lsn gs (ns @ [?n]) (iw_level (write_branch ch w)) 0 m"
    using covers_grow(2) [OF acc, of "[?n]"] firsts ch(2) inv
    by (auto simp: write_branch_def spans_append level_inv_def)
  ultimately show ?thesis by blast
qed

lemma write_branches:
  assumes "level_inv pre b lsn gs ns w" "spans b lsn gs ns (concat chs) i m" "spans b lsn gs ns (iw_level w) 0 i"
    and "\<forall>ch \<in> set chs. ch \<noteq> [] \<and> length ch \<le> BRANCH_CAPACITY"
  shows "\<exists>ms. level_inv pre b lsn gs (ns @ ms) (fold write_branch chs w) \<and>
    spans b lsn gs (ns @ ms) (iw_level (fold write_branch chs w)) 0 m"
  using assms
proof (induction chs arbitrary: ns w i)
  case Nil
  then show ?case by (intro exI [of _ "[]"]) (auto elim: spans_NilE)
next
  case (Cons ch chs)
  from Cons.prems(2) obtain k where k: "spans b lsn gs ns ch i k" "spans b lsn gs ns (concat chs) k m"
    by (auto simp: spans_append)
  obtain n where n: "level_inv pre b lsn gs (ns @ [n]) (write_branch ch w)"
      "spans b lsn gs (ns @ [n]) (iw_level (write_branch ch w)) 0 k"
    using write_branch_step [OF Cons.prems(1) k(1) _ _ Cons.prems(3)] Cons.prems(4) by auto
  obtain ms where "level_inv pre b lsn gs ((ns @ [n]) @ ms) (fold write_branch chs (write_branch ch w))"
      "spans b lsn gs ((ns @ [n]) @ ms) (iw_level (fold write_branch chs (write_branch ch w))) 0 m"
    using Cons.IH [OF n(1) covers_grow(2) [OF k(2), of "[n]"] n(2)] Cons.prems(4) by auto
  then show ?case by (intro exI [of _ "n # ms"]) simp
qed

lemma BRANCH_CAPACITY_pos: "0 < BRANCH_CAPACITY"
  by (simp add: index_consts)

lemma chunks_nonempty: "c \<in> set (chunks n xs) \<Longrightarrow> c \<noteq> []"
proof (induction n xs rule: chunks.induct)
  case (1 n xs)
  then show ?case by (auto simp: chunks.simps [of n xs] split: if_splits)
qed

lemma write_level_step:
  assumes "level_inv pre b lsn gs ns w" "spans b lsn gs ns (iw_level w) 0 (length gs)"
  shows "\<exists>ms. level_inv pre b lsn gs (ns @ ms) (write_level w) \<and>
    spans b lsn gs (ns @ ms) (iw_level (write_level w)) 0 (length gs)"
  unfolding write_level_def
proof (rule write_branches)
  show "level_inv pre b lsn gs ns (w\<lparr>iw_level := []\<rparr>)" using assms(1) by (simp add: level_inv_def)
  show "spans b lsn gs ns (concat (chunks BRANCH_CAPACITY (iw_level w))) 0 (length gs)"
    using assms(2) by (simp add: concat_chunks index_consts)
  show "\<forall>ch \<in> set (chunks BRANCH_CAPACITY (iw_level w)). ch \<noteq> [] \<and> length ch \<le> BRANCH_CAPACITY"
    using chunks_bounded [OF BRANCH_CAPACITY_pos] chunks_nonempty by blast
qed (simp add: covers_spans.empty)

lemma write_levels_tree:
  assumes "level_inv pre b lsn gs ns w" "spans b lsn gs ns (iw_level w) 0 (length gs)"
  shows "\<exists>ms. level_inv pre b lsn gs ms (write_levels w) \<and> length (iw_level (write_levels w)) \<le> 1 \<and>
    spans b lsn gs ms (iw_level (write_levels w)) 0 (length gs)"
  using assms
proof (induction w arbitrary: ns rule: write_levels.induct)
  case (1 w)
  show ?case
  proof (cases "length (iw_level w) > 1")
    case True
    from write_level_step [OF "1.prems"] obtain ms where
      "level_inv pre b lsn gs (ns @ ms) (write_level w)" "spans b lsn gs (ns @ ms) (iw_level (write_level w)) 0 (length gs)"
      by blast
    from "1.IH" [OF True this] show ?thesis using True by (simp add: write_levels.simps [of w])
  next
    case False
    then show ?thesis using "1.prems" by (intro exI [of _ ns]) (simp add: write_levels.simps [of w])
  qed
qed


section \<open>Reading back a finished part\<close>

lemma page_direct_part:
  assumes "st_disk st f = Some (pre @ concat ps @ post)" "length pre = b * PAGE_SIZE"
    and "\<forall>p \<in> set ps. length p = PAGE_SIZE" "j < length ps" "length (pre @ concat ps @ post) < 2 ^ 60"
  shows "page_direct (st_disk st) dec f (of_nat (b + j)) = dec (ps ! j)"
proof -
  have c: "take PAGE_SIZE (drop (j * PAGE_SIZE) (concat ps)) = ps ! j \<and> j * PAGE_SIZE + PAGE_SIZE \<le> length (concat ps)"
    using assms(3,4) by (intro concat_pages) simp_all
  have at: "(b + j) * PAGE_SIZE = length pre + j * PAGE_SIZE" by (simp add: assms(2) algebra_simps)
  have "take PAGE_SIZE (drop ((b + j) * PAGE_SIZE) (pre @ concat ps @ post)) = ps ! j"
    using c by (simp add: at)
  moreover have len: "(b + j) * PAGE_SIZE + PAGE_SIZE \<le> length (pre @ concat ps @ post)" using c at by simp
  moreover have "unat (of_nat (b + j) :: u64) = b + j"
    using len assms(5) by (simp add: unat_of_nat PAGE_SIZE_def del: of_nat_add)
  ultimately show ?thesis using assms(1,5)
    by (simp add: page_direct_def page_at_def usize_checked_mul_def read_exact_at_def del: of_nat_add)
qed

lemma node_sealed:
  assumes "level_inv pre b lsn gs ns w" "q < length ns" "b + 1 + length ns < 2 ^ 48"
  shows "node_decode (node_number b q) (index_seal (ns ! q)) = Inr (ns ! q)" "node_lsn (ns ! q) = lsn"
    and "length (index_seal (ns ! q)) = PAGE_SIZE"
proof -
  have inv: "groups_ok gs" "leaves_ok b lsn gs ns" "branches_ok b lsn (length gs) ns"
    using assms(1) by (auto simp: level_inv_def)
  have "node_decode (node_number b q) (index_seal (ns ! q)) = Inr (ns ! q) \<and> node_lsn (ns ! q) = lsn \<and>
      length (index_seal (ns ! q)) = PAGE_SIZE"
  proof (cases "q < length gs")
    case True
    have g: "0 < length (gs ! q)" "length (gs ! q) \<le> LEAF_CAPACITY" "bt_ok (gs ! q)"
        "ns ! q = leaf_page (node_number b q) lsn (gs ! q) (leaf_link b gs q)" "length gs \<le> length ns"
      using groups_nth(1,2) [OF inv(1) True] inv(2) True by (auto simp: leaves_ok_def)
    show ?thesis using leaf_decode [OF g(1-3) leaf_link_next [OF _ True]] g(4,5) assms(3) by simp
  next
    case False
    then obtain cs where cs: "ns ! q = branch_page (node_number b q) lsn cs" "0 < length cs" "length cs \<le> BRANCH_CAPACITY"
        "bt_ok cs" "\<forall>c \<in> set cs. \<exists>p < q. snd c = node_number b p"
      using inv(3) assms(2) by (auto simp: branches_ok_def)
    have "b + 1 + q < 2 ^ 48" using assms(2,3) by linarith
    then show ?thesis using branch_decode [OF cs(2-4) children_less [OF cs(5)]] cs(1) by simp
  qed
  then show "node_decode (node_number b q) (index_seal (ns ! q)) = Inr (ns ! q)" "node_lsn (ns ! q) = lsn"
    "length (index_seal (ns ! q)) = PAGE_SIZE" by blast+
qed

lemma index_node_direct:
  "page_direct (st_disk st) (node_decode pid) f pid = Inr n \<Longrightarrow> node_lsn n = lsn \<Longrightarrow> index_node st f pid lsn = Inr n"
  by (simp add: index_node_def)

text \<open>Sealed nodes are whole pages even before it is known how many there are.\<close>

lemma length_sealed:
  assumes "level_inv pre b lsn gs ns w" "q < length ns"
  shows "length (index_seal (ns ! q)) = PAGE_SIZE"
proof (cases "q < length gs")
  case True
  then have len: "length (gs ! q) \<le> 254" and n: "ns ! q = leaf_page (node_number b q) lsn (gs ! q) (leaf_link b gs q)"
    using assms by (auto simp: level_inv_def leaves_ok_def index_consts)
  have "length (concat (map leaf_entry_bytes (gs ! q))) = length (gs ! q) * 32" by (rule length_concat_const) simp
  then show ?thesis using len unfolding n leaf_page_layout [OF len]
    by (subst index_seal_slices(3)) (simp_all add: index_header_slices PAGE_SIZE_def)
next
  case False
  then obtain cs where n: "ns ! q = branch_page (node_number b q) lsn cs" and len: "length cs \<le> 339"
    using assms by (auto simp: level_inv_def branches_ok_def index_consts)
  have "length (concat (map branch_entry_bytes cs)) = length cs * 24" by (rule length_concat_const) simp
  then show ?thesis using len unfolding n branch_page_layout [OF len]
    by (subst index_seal_slices(3)) (simp_all add: index_header_slices PAGE_SIZE_def)
qed

definition meta_root :: "index_writer \<Rightarrow> u64" where
  "meta_root w = (case iw_level w of [] \<Rightarrow> 0 | item # _ \<Rightarrow> snd item)"

lemma finish_part_layout:
  assumes "w' = write_levels (flush_leaf 0 w)" "level_inv pre b lsn gs ns w'" "length pre = b * PAGE_SIZE" "b < 2 ^ 64"
  shows "finish_part w = pre @ index_seal (meta_page (of_nat b) lsn (iw_count w') (meta_root w')) @ concat (map index_seal ns)"
proof -
  have "length (index_seal (meta_page (of_nat b) lsn c r)) = PAGE_SIZE" for c r
    using index_seal_slices(3) [OF length_index_header index_header_slices(8)] by (simp add: meta_page_layout PAGE_SIZE_def)
  moreover have "unat (of_nat b :: u64) = b" using assms(4) by (simp add: unat_of_nat)
  ultimately show ?thesis
    using assms(1-3) unfolding finish_part_def Let_def assms(1) [symmetric]
    by (simp add: level_inv_def meta_root_def put_def)
qed

lemma index_finished:
  assumes "append_inv pre b lsn gs0 w" "length pre = b * PAGE_SIZE"
    and "st_disk st f = Some (finish_part w @ post)" "length post mod PAGE_SIZE = 0" "length (finish_part w @ post) < 2 ^ 60"
  shows "\<exists>gs ns. concat gs = concat gs0 @ iw_leaf w \<and> index_built st f lsn b gs ns"
proof -
  obtain gs ns0 where g: "concat gs = concat gs0 @ iw_leaf w" "level_inv pre b lsn gs ns0 (flush_leaf 0 w)"
      "spans b lsn gs ns0 (iw_level (flush_leaf 0 w)) 0 (length gs)"
    using flush_leaf_last [OF assms(1)] by blast
  define w' where "w' = write_levels (flush_leaf 0 w)"
  obtain ns where ns: "level_inv pre b lsn gs ns w'" "length (iw_level w') \<le> 1" "spans b lsn gs ns (iw_level w') 0 (length gs)"
    using write_levels_tree [OF g(2,3)] unfolding w'_def by blast
  let ?meta = "meta_page (of_nat b) lsn (iw_count w') (meta_root w')"
  let ?ps = "index_seal ?meta # map index_seal ns"
  have "length pre \<le> length (iw_file w')" using ns(1) by (simp add: level_inv_def)
  also have "\<dots> \<le> length (finish_part w)" by (simp add: finish_part_def Let_def put_def w'_def)
  finally have "length pre \<le> length (finish_part w)" .
  then have b64: "b < 2 ^ 64" using assms(2,5) by (simp add: PAGE_SIZE_def)
  have fin: "finish_part w = pre @ concat ?ps"
    using finish_part_layout [OF w'_def ns(1) assms(2) b64] by simp
  have mlen: "length (index_seal ?meta) = PAGE_SIZE"
    using index_seal_slices(3) [OF length_index_header index_header_slices(8)] by (simp add: meta_page_layout PAGE_SIZE_def)
  have plen: "\<forall>p \<in> set ?ps. length p = PAGE_SIZE" using mlen length_sealed [OF ns(1)] by (auto simp: in_set_conv_nth)
  have total: "length (finish_part w) = (b + 1 + length ns) * PAGE_SIZE"
    using length_concat_const [of ?ps "\<lambda>p. p" PAGE_SIZE] plen by (simp add: fin assms(2) algebra_simps)
  have bound: "b + 1 + length ns < 2 ^ 48" using assms(5) total by (simp add: PAGE_SIZE_def)
  have disk: "st_disk st f = Some (pre @ concat ?ps @ post)" "length (pre @ concat ?ps @ post) < 2 ^ 60"
    using assms(3,5) fin by simp_all
  have read: "page_direct (st_disk st) dec f (of_nat (b + j)) = dec (?ps ! j)" if "j < length ?ps" for dec :: "bytes \<Rightarrow> bytes res" and j
    by (rule page_direct_part [OF disk(1) assms(2) plen that disk(2)])
  have nodes: "index_node st f (node_number b q) lsn = Inr (ns ! q)" if "q < length ns" for q
    using read [of "Suc q" "node_decode (node_number b q)"] node_sealed [OF ns(1) that bound] that
    by (intro index_node_direct) (simp_all add: node_number_def)
  have root: "if gs = [] then meta_root w' = 0 else \<exists>q. meta_root w' = node_number b q \<and> covers b lsn gs ns q 0 (length gs)"
  proof (cases "iw_level w'")
    case Nil
    then have "gs = []" using ns(3) by (auto elim: spans_NilE)
    then show ?thesis using Nil by (simp add: meta_root_def)
  next
    case (Cons c cs)
    then have "cs = []" using ns(2) by simp
    then obtain q where q: "c = (group_first gs 0, node_number b q)" "covers b lsn gs ns q 0 (length gs)"
      using ns(3) Cons by (auto elim!: spans_ConsE spans_NilE)
    moreover have "gs \<noteq> []" using covers_bounds(1) [OF q(2)] by auto
    ultimately show ?thesis using Cons by (auto simp: meta_root_def)
  qed
  have "meta_root w' = 0 \<or> of_nat b < meta_root w'"
  proof (cases "gs = []")
    case False
    then obtain q where q: "meta_root w' = node_number b q" "covers b lsn gs ns q 0 (length gs)" using root by auto
    have "b + 1 + q < 2 ^ 48" using covers_node [OF q(2)] bound by linarith
    moreover from this have "unat (of_nat b :: u64) = b" by (simp add: unat_of_nat)
    ultimately show ?thesis using node_number_nonzero [of b q] q(1) by (simp add: word_less_nat_alt)
  qed (use root in simp)
  then have "index_node st f (of_nat b) lsn = Inr ?meta"
    using read [of 0 "node_decode (of_nat b)"] meta_decode by (intro index_node_direct) simp_all
  then have meta: "\<exists>root count. index_node st f (of_nat b) lsn = Inr (meta_page (of_nat b) lsn count root) \<and>
      (if gs = [] then root = 0 else \<exists>q. root = node_number b q \<and> covers b lsn gs ns q 0 (length gs))"
    using root by blast
  have "PAGE_SIZE dvd length (finish_part w @ post)"
    unfolding length_append total using assms(4) by (intro dvd_add) (auto simp: dvd_eq_mod_eq_0)
  then have "length (finish_part w @ post) mod PAGE_SIZE = 0" by (simp add: dvd_eq_mod_eq_0)
  then have "\<exists>bs. st_disk st f = Some bs \<and> length bs mod PAGE_SIZE = 0"
    by (intro exI [of _ "finish_part w @ post"] conjI assms(3))
  moreover have "groups_ok gs" "leaves_ok b lsn gs ns" using ns(1) by (simp_all add: level_inv_def)
  moreover have "holds_nodes st f lsn b ns" using nodes bound by (simp add: holds_nodes_def)
  ultimately have "index_built st f lsn b gs ns" using meta unfolding index_built_def by blast
  then show ?thesis using g(1) by blast
qed


section \<open>The order of appends\<close>

lemma writer_append_accepts:
  assumes "append_inv pre b lsn gs w" "bt_ok ((concat gs @ iw_leaf w) @ [(k, v)])"
  shows "\<exists>w'. writer_append k v w = Inr w'"
proof -
  have "\<not> p \<ge> k" if p: "iw_previous w = Some p" for p
  proof -
    have prev: "iw_previous w = bt_last_key (concat gs @ iw_leaf w)" using assms(1) by (simp add: append_inv_def)
    then have "concat gs @ iw_leaf w \<noteq> []" "p = fst (last (concat gs @ iw_leaf w))"
      using p by (auto simp: bt_last_key_def split: if_splits)
    then have "p < k" using assms(2) unfolding bt_ok_append [of "concat gs @ iw_leaf w"] by (metis fst_conv last_in_set list.set_intros(1))
    then show ?thesis by (simp add: not_le)
  qed
  then show ?thesis by (auto simp: writer_append_def Let_def split: option.splits)
qed

lemma writer_append_all_iff:
  assumes "append_inv pre b lsn gs w"
  shows "(\<exists>w'. writer_append_all es w = Inr w') \<longleftrightarrow> bt_ok ((concat gs @ iw_leaf w) @ es)"
  using assms
proof (induction es arbitrary: gs w)
  case Nil
  then show ?case by (simp add: append_inv_def)
next
  case (Cons e es)
  let ?l = "concat gs @ iw_leaf w"
  have split: "bt_ok (?l @ e # es) \<Longrightarrow> bt_ok (?l @ [(fst e, snd e)])"
    using bt_ok_append [of "?l @ [e]" es] by simp
  show ?case
  proof (cases "writer_append (fst e) (snd e) w")
    case (Inl x)
    then have "\<not> bt_ok (?l @ e # es)" using writer_append_accepts [OF Cons.prems] split by (metis sum.distinct(1))
    then show ?thesis using Inl by simp
  next
    case (Inr u)
    obtain gs' where "append_inv pre b lsn gs' u" "concat gs' @ iw_leaf u = ?l @ [e]"
      using writer_append_step [OF Cons.prems Inr] by auto
    then show ?thesis using Cons.IH [of gs' u] Inr by simp
  qed
qed

section \<open>Properties\<close>

text \<open>
  C21 (index_search): in a file part the index writer built from entries appended in order, the
  page-by-page lookup, floor and range scan give what the ordered list of the entries gives; they
  end and fail on no input, wherever in the file the part lies and whatever parts follow it.
\<close>

theorem index_search:
  assumes "writer_append_all es (writer_from_file pre lsn (of_nat b)) = Inr w" "length pre = b * PAGE_SIZE"
    and "st_disk st f = Some (finish_part w @ post)" "length post mod PAGE_SIZE = 0" "length (finish_part w @ post) < 2 ^ 60"
  shows "index_lookup_at st f lsn (of_nat b) key = Inr (map_of es key) \<and>
    index_floor_at st f lsn (of_nat b) key =
      Inr (case filter (\<lambda>e. fst e \<le> key) es of [] \<Rightarrow> None | xs \<Rightarrow> Some (last xs)) \<and>
    (\<exists>c. index_scan_at st f lsn (of_nat b) lower upper = Inr c \<and>
      (\<forall>n. cursor_run n st c = take n (map Inr (filter (\<lambda>e. lower \<le> fst e \<and> fst e \<le> upper) es))))"
proof -
  obtain gs0 where gs0: "append_inv pre b lsn gs0 w" "concat gs0 @ iw_leaf w = es"
    using writer_append_all_inv [OF append_inv_new assms(1)] by (auto simp: writer_from_file_def)
  obtain gs ns where es: "es = concat gs" and built: "index_built st f lsn b gs ns"
    using index_finished [OF gs0(1) assms(2-5)] gs0(2) by metis
  show ?thesis unfolding es
    by (intro conjI index_lookup_built [OF built] index_floor_built [OF built] index_scan_built [OF built])
qed

text \<open>
  The index writer accepts exactly the strictly increasing sequences of
  keys; any repeated or descending key is refused before the file can hold it.
\<close>

theorem index_append_ordered:
  "(\<exists>w. writer_append_all es (writer_from_file file lsn (of_nat b)) = Inr w) \<longleftrightarrow> bt_ok es"
  using writer_append_all_iff [OF append_inv_new] by (simp add: writer_from_file_def)

text \<open>
  Descending a tree page by page always ends: every step that validation
  accepts goes to a page with a smaller number, so even a corrupt file cannot make a lookup cycle.
\<close>

theorem index_descent_ends:
  assumes "index_node st f pid lsn = Inr n" "node_kind n = 2"
  shows "chosen_child n key < pid \<and> descend_loop st f lsn key pid =
    (if pid = 0 then Inr None else descend_loop st f lsn key (chosen_child n key))"
  using assms chosen_child_less index_node_ok by (simp add: descend_loop.simps [of st f lsn key pid])

lemma one_entry_part:
  "\<exists>w. writer_append_all [e] (writer_from_file [] 7 (of_nat 0)) = Inr w \<and>
     length (finish_part w) = 2 * PAGE_SIZE"
proof -
  let ?w = "(writer_from_file [] 7 0)\<lparr>iw_leaf := [e], iw_previous := Some (fst e), iw_count := 1\<rparr>"
  let ?leaf = "leaf_page 1 7 [e] 0"
  have w: "writer_append_all [e] (writer_from_file [] 7 (of_nat 0)) = Inr ?w"
    by (simp add: writer_append_def writer_from_file_def index_consts)
  have leaf: "length (index_seal ?leaf) = PAGE_SIZE"
    by (rule leaf_decode(6)) (simp_all add: index_consts bt_ok_def)
  have meta: "length (index_seal (meta_page 0 7 1 1)) = PAGE_SIZE" by (rule meta_decode(5)) simp
  have "write_levels (flush_leaf 0 ?w) = flush_leaf 0 ?w"
    by (subst write_levels.simps) (simp add: flush_leaf_def writer_from_file_def)
  then have "finish_part ?w = put 0 (index_seal (meta_page 0 7 1 1)) (replicate PAGE_SIZE 0 @ index_seal ?leaf)"
    by (simp add: finish_part_def flush_leaf_def writer_from_file_def)
  then have "length (finish_part ?w) = 2 * PAGE_SIZE" using leaf meta by (simp add: length_put)
  then show ?thesis using w by blast
qed

lemma index_search_witness:
  "\<exists>w. index_lookup_at (open_store (\<lambda>_. Some (finish_part w)))
     (file_id_new 1 1 3 0) 7 (of_nat 0) (1, 2) = Inr (Some (3, 4))"
proof -
  obtain w where w: "writer_append_all [((1, 2), (3, 4))] (writer_from_file [] 7 (of_nat 0)) = Inr w"
      "length (finish_part w) = 2 * PAGE_SIZE"
    using one_entry_part by blast
  let ?st = "(open_store (\<lambda>_. Some (finish_part w)))"
  have "index_lookup_at ?st (file_id_new 1 1 3 0) 7 (of_nat 0) (1, 2) = Inr (map_of [((1, 2), (3, 4))] ((1, 2) :: index_key))"
    by (rule conjunct1 [OF index_search [OF w(1), of ?st "file_id_new 1 1 3 0" "[]"]])
       (use w(2) in \<open>simp_all add: PAGE_SIZE_def\<close>)
  then show ?thesis by (intro exI [of _ w]) simp
qed

lemma index_descent_ends_witness:
  "\<exists>n. chosen_child n (0, 0) < 3"
proof -
  let ?n = "branch_page 3 7 [((1, 2), 1), ((5, 0), 2)]"
  let ?st = "open_store (\<lambda>_. Some (replicate (3 * PAGE_SIZE) 0 @ index_seal ?n))"
  have d: "node_decode 3 (index_seal ?n) = Inr ?n" "node_kind ?n = 2" "node_lsn ?n = 7"
      "length (index_seal ?n) = PAGE_SIZE"
    by (rule branch_decode; simp add: index_consts bt_ok_def)+
  have "index_node ?st f 3 7 = Inr ?n" for f
    using d by (intro index_node_direct)
      (simp_all add: page_direct_def page_at_def usize_checked_mul_def read_exact_at_def PAGE_SIZE_def)
  then show ?thesis using index_descent_ends [OF _ d(2)] by blast
qed

end
