(* ===== verification/Partitions.thy ===== *)
theory Partitions
  imports Root_Laws Index_Laws
begin

text \<open>
  Models the rest of \<^verbatim>\<open>partitions.rs\<close>: lookups, floors and scans routed over the partitions of a
  manifest, and \<open>Indexes\<close>, which builds the partitions of one table. A scan is modelled by the list
  of everything its iterator yields; \<open>scan_ends\<close> shows that this list is finite on every file.
\<close>

section \<open>Draining a cursor\<close>

text \<open>A bound on what a scan of a file can yield: its pages full of entries, and one error.\<close>

definition scan_bound :: "store \<Rightarrow> file_id \<Rightarrow> nat" where
  "scan_bound st f = (case st_disk st f of None \<Rightarrow> 1 | Some bs \<Rightarrow> (length bs div PAGE_SIZE) * LEAF_CAPACITY + 1)"

definition index_items :: "store \<Rightarrow> file_id \<Rightarrow> u64 \<Rightarrow> u64 \<Rightarrow> index_key \<Rightarrow> index_key \<Rightarrow> (index_key \<times> index_value) res list" where
  "index_items st f lsn base lower upper = (case index_scan_at st f lsn base lower upper of
       Inl e \<Rightarrow> [Inl e] | Inr c \<Rightarrow> cursor_run (scan_bound st f) st c)"

section \<open>Routed reads\<close>

definition lookup_index :: "root \<Rightarrow> store \<Rightarrow> u64 \<Rightarrow> u8 \<Rightarrow> index_key \<Rightarrow> index_value option res" where
  "lookup_index r st table kind key = (case map_of (r_partitions r) (table, kind, bucket kind key) of
       None \<Rightarrow> Inr None
     | Some part \<Rightarrow> res_bind (index_lookup_at st (p_file part) (p_lsn part) (p_base part) key) (\<lambda>v. case v of
         None \<Rightarrow> Inr None
       | Some v \<Rightarrow> res_bind (translate part v) (\<lambda>v. Inr (Some v))))"

definition parts_between :: "root \<Rightarrow> route \<Rightarrow> route \<Rightarrow> partition list" where
  "parts_between r lo hi = map snd (filter (\<lambda>e. lo \<le> fst e \<and> fst e \<le> hi) (r_partitions r))"

fun floor_parts :: "store \<Rightarrow> index_key \<Rightarrow> partition list \<Rightarrow> (index_key \<times> index_value) option res" where
  "floor_parts st key [] = Inr None"
| "floor_parts st key (part # parts) =
     res_bind (index_floor_at st (p_file part) (p_lsn part) (p_base part) key) (\<lambda>e. case e of
         None \<Rightarrow> floor_parts st key parts
       | Some (k, v) \<Rightarrow> res_bind (translate part v) (\<lambda>v. Inr (Some (k, v))))"

definition floor_index :: "root \<Rightarrow> store \<Rightarrow> u64 \<Rightarrow> u8 \<Rightarrow> index_key \<Rightarrow> (index_key \<times> index_value) option res" where
  "floor_index r st table kind key =
     floor_parts st key (rev (parts_between r (table, kind, (0, 0)) (table, kind, bucket kind key)))"

definition translate_item :: "partition \<Rightarrow> (index_key \<times> index_value) res \<Rightarrow> (index_key \<times> index_value) res" where
  "translate_item part item = res_bind item (\<lambda>(k, v). res_bind (translate part v) (\<lambda>v. Inr (k, v)))"

definition scan_index :: "root \<Rightarrow> store \<Rightarrow> u64 \<Rightarrow> u8 \<Rightarrow> index_key \<Rightarrow> index_key \<Rightarrow> (index_key \<times> index_value) res list" where
  "scan_index r st table kind lower upper =
     (if lower > upper then []
      else concat (map (\<lambda>part. map (translate_item part)
          (index_items st (p_file part) (p_lsn part) (p_base part) lower upper))
        (parts_between r (table, kind, bucket kind lower) (table, kind, bucket kind upper))))"

section \<open>Scans end\<close>

definition cursor_rank :: "store \<Rightarrow> index_cursor \<Rightarrow> nat" where
  "cursor_rank st c = (if ic_failed c then 0 else case ic_leaf c of None \<Rightarrow> 0
     | Some n \<Rightarrow> (scan_bound st (ic_file c) - 1 - (unat (get_u64 n 8) + 1) * LEAF_CAPACITY) + (node_count n - ic_position c) + 1)"

definition cursor_ok :: "store \<Rightarrow> index_cursor \<Rightarrow> bool" where
  "cursor_ok st c = (ic_failed c \<or> (case ic_leaf c of None \<Rightarrow> True
     | Some n \<Rightarrow> (\<exists>pid. index_node st (ic_file c) pid (ic_lsn c) = Inr n) \<and> node_kind n = 1 \<and> ic_position c \<le> node_count n))"

lemma leaf_bounds:
  assumes "index_node st f pid lsn = Inr n" "node_kind n = 1"
  shows "get_u64 n 8 = pid" "node_count n \<noteq> 0" "node_count n \<le> LEAF_CAPACITY" "node_next n = 0 \<or> pid < node_next n"
    and "(unat pid + 1) * LEAF_CAPACITY < scan_bound st f"
proof -
  obtain bs page where bs: "st_disk st f = Some bs" "page_at (node_decode pid) pid bs = Inr n"
    using assms(1) by (auto simp: index_node_def page_direct_def res_simps split: if_splits)
  then obtain page where page: "read_exact_at bs (unat pid * PAGE_SIZE) PAGE_SIZE = Inr page" "node_decode pid page = Inr n"
    by (auto simp: page_at_def res_simps usize_checked_mul_def split: if_splits)
  show "get_u64 n 8 = pid" "node_count n \<noteq> 0" "node_next n = 0 \<or> pid < node_next n"
    using node_decode_ok [OF page(2)] assms(2) by (auto simp: node_ok_def)
  have "node_decode pid page = Inr (put 28 [0, 0, 0, 0] page)" using node_decode_ok(3) [OF page(2)] page(2) by simp
  then show "node_count n \<le> LEAF_CAPACITY"
    using page(2) assms(2) node_decode_ok(3) [OF page(2)]
    by (auto simp: node_decode_def Let_def LEAF_CAPACITY_def node_width_def split: if_splits)
  have "unat pid * PAGE_SIZE + PAGE_SIZE \<le> length bs"
    using page(1) by (auto simp: read_exact_at_def split: if_splits)
  then have "(unat pid + 1) * PAGE_SIZE \<le> length bs" by simp
  then have "unat pid + 1 \<le> length bs div PAGE_SIZE" by (simp add: less_eq_div_iff_mult_less_eq PAGE_SIZE_def)
  then have "(unat pid + 1) * LEAF_CAPACITY \<le> length bs div PAGE_SIZE * LEAF_CAPACITY" by (rule mult_le_mono1)
  then show "(unat pid + 1) * LEAF_CAPACITY < scan_bound st f" using bs(1) by (simp add: scan_bound_def)
qed

lemma cursor_next_bound:
  assumes "cursor_ok st c" "cursor_next st c = (Some x, c')"
  shows "cursor_ok st c' \<and> cursor_rank st c' < cursor_rank st c \<and> ic_file c' = ic_file c"
proof -
  have nf: "\<not> ic_failed c" and lp: "cursor_loop st c = (Some x, c')" using assms(2) by (auto simp: cursor_next_def split: if_splits)
  obtain n where n: "ic_leaf c = Some n" using lp by (cases "ic_leaf c") (simp_all add: cursor_loop.simps [of st c])
  obtain pid where pid: "index_node st (ic_file c) pid (ic_lsn c) = Inr n" and kind: "node_kind n = 1"
      and pos: "ic_position c \<le> node_count n"
    using assms(1) nf n by (auto simp: cursor_ok_def)
  note lb = leaf_bounds [OF pid kind]
  show ?thesis
  proof (cases "ic_position c = node_count n")
    case False
    then show ?thesis using lp n nf pid kind pos
      by (auto simp: cursor_loop.simps [of st c] Let_def cursor_ok_def cursor_rank_def split: if_splits)
  next
    case True
    then have nx: "node_next n \<noteq> 0" "pid < node_next n" using lp n lb(4) by (auto simp: cursor_loop.simps [of st c])
    show ?thesis
    proof (cases "index_node st (ic_file c) (node_next n) (ic_lsn c)")
      case (Inl e)
      then show ?thesis using lp n nf True nx by (auto simp: cursor_loop.simps [of st c] cursor_ok_def cursor_rank_def)
    next
      case (Inr m)
      show ?thesis
      proof (cases "node_kind m = 1")
        case False
        then show ?thesis using lp n nf True nx Inr by (auto simp: cursor_loop.simps [of st c] cursor_ok_def cursor_rank_def)
      next
        case k: True
        note mb = leaf_bounds [OF Inr k]
        let ?c = "c\<lparr>ic_leaf := Some m, ic_position := 0\<rparr>"
        have "cursor_loop st ?c = (Some x, c')" using lp n True nx Inr k by (simp add: cursor_loop.simps [of st c])
        then have c': "c' = c\<lparr>ic_leaf := Some m, ic_position := 1\<rparr>"
          using mb(2) by (auto simp: cursor_loop.simps [of st ?c] Let_def split: if_splits)
        have "unat pid + 1 \<le> unat (node_next n)" using nx(2) by (simp add: word_less_nat_alt)
        then have "(unat pid + 1 + 1) * LEAF_CAPACITY \<le> (unat (node_next n) + 1) * LEAF_CAPACITY" by (intro mult_le_mono1) simp
        then have "scan_bound st (ic_file c) - 1 - (unat (node_next n) + 1) * LEAF_CAPACITY + LEAF_CAPACITY
            \<le> scan_bound st (ic_file c) - 1 - (unat pid + 1) * LEAF_CAPACITY"
          using mb(5) by (simp add: algebra_simps)
        then show ?thesis using mb lb n nf True Inr k c' by (auto simp: cursor_ok_def cursor_rank_def)
      qed
    qed
  qed
qed

lemma cursor_run_enough:
  "cursor_ok st c \<Longrightarrow> cursor_rank st c \<le> n \<Longrightarrow> cursor_run (n + k) st c = cursor_run n st c"
proof (induction n arbitrary: c)
  case 0
  obtain oi c' where o: "cursor_next st c = (oi, c')" by fastforce
  have "oi = None"
  proof (cases oi)
    case (Some x)
    then show ?thesis using cursor_next_bound [OF 0(1), of x c'] 0(2) o by simp
  qed
  then show ?case using o by (cases k) simp_all
next
  case (Suc n)
  show ?case
  proof (cases "cursor_next st c")
    case o: (Pair oi c')
    show ?thesis
    proof (cases oi)
      case (Some x)
      then have "cursor_ok st c'" "cursor_rank st c' \<le> n" using cursor_next_bound [OF Suc.prems(1)] Suc.prems(2) o by force+
      then show ?thesis using Suc.IH [of c'] Some o by simp
    qed (simp add: o)
  qed
qed

lemma scan_cursor_ok:
  assumes "index_scan_at st f lsn base lower upper = Inr c"
  shows "cursor_ok st c \<and> cursor_rank st c \<le> scan_bound st f \<and> ic_file c = f"
proof -
  obtain leaf where leaf: "index_descend st f lsn base lower = Inr leaf"
    and c: "c = \<lparr>ic_file = f, ic_lsn = lsn, ic_upper = upper, ic_leaf = leaf,
      ic_position = (case leaf of None \<Rightarrow> 0 | Some n \<Rightarrow> node_lower_bound n lower), ic_failed = False\<rparr>"
    using assms by (auto simp: index_scan_at_def res_simps)
  have desc: "descend_loop st f lsn key pid = Inr (Some n) \<Longrightarrow> \<exists>pid. index_node st f pid lsn = Inr n \<and> node_kind n = 1" for key pid n
    by (induction st f lsn key pid rule: descend_loop.induct)
       (auto simp: descend_loop.simps [of st f lsn key pid for st f lsn key pid] res_simps split: if_splits)
  show ?thesis
  proof (cases leaf)
    case None
    then show ?thesis by (simp add: c cursor_ok_def cursor_rank_def)
  next
    case (Some n)
    then obtain pid where pid: "index_node st f pid lsn = Inr n" "node_kind n = 1"
      using leaf Some desc [of lower] by (auto simp: index_descend_def res_simps split: if_splits)
    note lb = leaf_bounds [OF pid]
    have "node_lower_bound n lower \<le> node_count n"
      using index_node_ok [OF pid(1)] pid(2) node_lower_bound_spec(1) [of n lower] by (auto simp: node_ok_def)
    then show ?thesis using Some pid lb by (auto simp: c cursor_ok_def cursor_rank_def)
  qed
qed

text \<open>The items of a scan are settled by the bound: no larger one finds more.\<close>

lemma cursor_run_bound:
  "index_scan_at st f lsn base lower upper = Inr c \<Longrightarrow> cursor_run (scan_bound st f + k) st c = cursor_run (scan_bound st f) st c"
  using scan_cursor_ok cursor_run_enough by blast

section \<open>What an index promises\<close>

definition floor_list :: "(index_key \<times> index_value) list \<Rightarrow> index_key \<Rightarrow> (index_key \<times> index_value) option" where
  "floor_list es key = (case filter (\<lambda>e. fst e \<le> key) es of [] \<Rightarrow> None | xs \<Rightarrow> Some (last xs))"

definition range_list :: "(index_key \<times> index_value) list \<Rightarrow> index_key \<Rightarrow> index_key \<Rightarrow> (index_key \<times> index_value) list" where
  "range_list es lower upper = filter (\<lambda>e. lower \<le> fst e \<and> fst e \<le> upper) es"

text \<open>
  The contract of a sorted index: on a source that holds a list of entries, point lookup, floor and
  scan never fail and agree with the list. One partition provides it, and so does a whole manifest
  routed over its partitions; whoever reads an index relies on nothing else.
\<close>

locale ordered_index =
  fixes look :: "'s \<Rightarrow> index_key \<Rightarrow> index_value option res"
    and floor_of :: "'s \<Rightarrow> index_key \<Rightarrow> (index_key \<times> index_value) option res"
    and items :: "'s \<Rightarrow> index_key \<Rightarrow> index_key \<Rightarrow> (index_key \<times> index_value) res list"
    and holds :: "'s \<Rightarrow> (index_key \<times> index_value) list \<Rightarrow> bool"
  assumes holds_ok: "holds s es \<Longrightarrow> bt_ok es"
    and look_holds: "holds s es \<Longrightarrow> look s key = Inr (map_of es key)"
    and floor_holds: "holds s es \<Longrightarrow> floor_of s key = Inr (floor_list es key)"
    and items_holds: "holds s es \<Longrightarrow> items s lower upper = map Inr (range_list es lower upper)"
begin

lemma items_single: "holds s es \<Longrightarrow> items s key key = (case look s key of Inr (Some v) \<Rightarrow> [Inr (key, v)] | _ \<Rightarrow> [])"
proof -
  assume h: "holds s es"
  have "range_list es key key = (case map_of es key of Some v \<Rightarrow> [(key, v)] | None \<Rightarrow> [])" if "bt_ok es"
    using that
  proof (induction es)
    case (Cons e es)
    obtain k v where e: "e = (k, v)" by (cases e)
    have no: "map_of es k = None" using Cons.prems by (auto simp: e bt_simps map_of_eq_None_iff)
    show ?case
    proof (cases "k = key")
      case True
      then have "range_list es key key = []" using Cons no by (simp add: e bt_simps)
      then show ?thesis using True e by (simp add: range_list_def)
    next
      case False
      then have "\<not> (key \<le> k \<and> k \<le> key)" by simp
      then show ?thesis using False Cons e by (auto simp: range_list_def bt_simps split: option.splits)
    qed
  qed (simp add: range_list_def)
  then show ?thesis using h holds_ok [OF h] by (simp add: look_holds [OF h] items_holds [OF h] split: option.splits)
qed

lemma items_found: "holds s es \<Longrightarrow> Inr (k, v) \<in> set (items s lower upper) \<Longrightarrow> look s k = Inr (Some v) \<and> lower \<le> k \<and> k \<le> upper"
  using holds_ok bt_ok_mem_iff by (fastforce simp: look_holds items_holds range_list_def)

lemma floor_found: "holds s es \<Longrightarrow> floor_of s key = Inr (Some (k, v)) \<Longrightarrow> k \<le> key \<and> look s k = Inr (Some v)"
proof -
  assume h: "holds s es" and f: "floor_of s key = Inr (Some (k, v))"
  then have ne: "filter (\<lambda>e. fst e \<le> key) es \<noteq> []" and l: "last (filter (\<lambda>e. fst e \<le> key) es) = (k, v)"
    by (auto simp: floor_holds floor_list_def split: list.splits)
  from last_in_set [OF ne] have "(k, v) \<in> set es" "k \<le> key" unfolding l by auto
  then show ?thesis using h holds_ok [OF h] by (simp add: look_holds bt_ok_mem_iff)
qed

end

section \<open>One partition\<close>

definition part_look :: "store \<times> partition \<Rightarrow> index_key \<Rightarrow> index_value option res" where
  "part_look sp key = (case sp of (st, part) \<Rightarrow>
     res_bind (index_lookup_at st (p_file part) (p_lsn part) (p_base part) key) (\<lambda>v. case v of
         None \<Rightarrow> Inr None
       | Some v \<Rightarrow> res_bind (translate part v) (\<lambda>v. Inr (Some v))))"

definition part_floor :: "store \<times> partition \<Rightarrow> index_key \<Rightarrow> (index_key \<times> index_value) option res" where
  "part_floor sp key = floor_parts (fst sp) key [snd sp]"

definition part_items :: "store \<times> partition \<Rightarrow> index_key \<Rightarrow> index_key \<Rightarrow> (index_key \<times> index_value) res list" where
  "part_items sp lower upper = (case sp of (st, part) \<Rightarrow>
     map (translate_item part) (index_items st (p_file part) (p_lsn part) (p_base part) lower upper))"

text \<open>A partition the index writer built, somewhere in its file, holding \<open>ts\<close> after slot translation.\<close>

definition part_in :: "bytes \<Rightarrow> partition \<Rightarrow> (index_key \<times> index_value) list \<Rightarrow> bool" where
  "part_in bs part ts = (\<exists>pre b w post es.
     writer_append_all es (writer_from_file pre (p_lsn part) (of_nat b)) = Inr w \<and> p_base part = of_nat b \<and>
     length pre = b * PAGE_SIZE \<and> bs = finish_part w @ post \<and> length post mod PAGE_SIZE = 0 \<and>
     list_all2 (\<lambda>e t. fst e = fst t \<and> translate part (snd e) = Inr (snd t)) es ts)"

definition part_holds :: "store \<times> partition \<Rightarrow> (index_key \<times> index_value) list \<Rightarrow> bool" where
  "part_holds sp ts = (\<exists>bs. st_disk (fst sp) (p_file (snd sp)) = Some bs \<and> length bs < 2 ^ 60 \<and> part_in bs (snd sp) ts)"

lemma index_part_reads:
  assumes "writer_append_all es (writer_from_file pre lsn (of_nat b)) = Inr w" "length pre = b * PAGE_SIZE"
    and "st_disk st f = Some (finish_part w @ post)" "length post mod PAGE_SIZE = 0" "length (finish_part w @ post) < 2 ^ 60"
  shows "bt_ok es" "index_lookup_at st f lsn (of_nat b) key = Inr (map_of es key)"
    "index_floor_at st f lsn (of_nat b) key = Inr (floor_list es key)"
    "index_items st f lsn (of_nat b) lower upper = map Inr (range_list es lower upper)"
proof -
  have "\<exists>w. writer_append_all es (writer_from_file pre lsn (of_nat b)) = Inr w" using assms(1) by blast
  then show "bt_ok es" using writer_append_all_iff [OF append_inv_new] by (simp add: writer_from_file_def)
  obtain gs0 where gs0: "append_inv pre b lsn gs0 w" "concat gs0 @ iw_leaf w = es"
    using writer_append_all_inv [OF append_inv_new assms(1)] by (auto simp: writer_from_file_def)
  obtain gs ns where es: "es = concat gs" and built: "index_built st f lsn b gs ns"
    using index_finished [OF gs0(1) assms(2-5)] gs0(2) by metis
  show "index_lookup_at st f lsn (of_nat b) key = Inr (map_of es key)"
    unfolding es by (rule index_lookup_built [OF built])
  show "index_floor_at st f lsn (of_nat b) key = Inr (floor_list es key)"
    unfolding es floor_list_def by (rule index_floor_built [OF built])
  let ?r = "map Inr (range_list es lower upper) :: (index_key \<times> index_value) res list"
  obtain c where c: "index_scan_at st f lsn (of_nat b) lower upper = Inr c" "\<And>n. cursor_run n st c = take n ?r"
    using index_scan_built [OF built, of lower upper] unfolding es range_list_def by blast
  have "index_items st f lsn (of_nat b) lower upper = take (scan_bound st f) ?r" by (simp only: index_items_def c sum.case)
  also have "\<dots> = take (scan_bound st f + length ?r) ?r"
    using cursor_run_bound [OF c(1), of "length ?r"] unfolding c(2) by (rule sym)
  also have "\<dots> = ?r" by (rule take_all) simp
  finally show "index_items st f lsn (of_nat b) lower upper = ?r" .
qed

lemma last_list_all2: "list_all2 P xs ys \<Longrightarrow> xs \<noteq> [] \<Longrightarrow> P (last xs) (last ys)"
  by (induction rule: list_all2_induct) (auto simp: list_all2_Nil2)

lemma list_all2_filter: "list_all2 P xs ys \<Longrightarrow> (\<And>x y. P x y \<Longrightarrow> Q x = R y) \<Longrightarrow> list_all2 P (filter Q xs) (filter R ys)"
  by (induction rule: list_all2_induct) auto

lemma part_holds_reads:
  assumes "part_holds (st, part) ts"
  shows "bt_ok ts \<and> part_look (st, part) key = Inr (map_of ts key) \<and> part_floor (st, part) key = Inr (floor_list ts key) \<and>
    part_items (st, part) lower upper = map Inr (range_list ts lower upper)"
proof -
  let ?R = "\<lambda>e t. fst e = fst t \<and> translate part (snd e) = Inr (snd t)"
  obtain pre b w post es where w: "writer_append_all es (writer_from_file pre (p_lsn part) (of_nat b)) = Inr w"
      "p_base part = of_nat b" "length pre = b * PAGE_SIZE" "st_disk st (p_file part) = Some (finish_part w @ post)"
      "length post mod PAGE_SIZE = 0" "length (finish_part w @ post) < 2 ^ 60" and ts: "list_all2 ?R es ts"
    using assms by (auto simp: part_holds_def part_in_def)
  note reads = index_part_reads [OF w(1,3-6)]
  have keys: "map fst es = map fst ts" using ts by (induction rule: list_all2_induct) auto
  have ok: "bt_ok ts" using reads(1) keys by (simp add: bt_ok_def)
  have look: "case map_of es key of None \<Rightarrow> map_of ts key = None | Some v \<Rightarrow> \<exists>t. map_of ts key = Some t \<and> translate part v = Inr t"
    using ts by (induction rule: list_all2_induct) (auto split: option.splits)
  have filt: "list_all2 ?R (filter (\<lambda>e. Q (fst e)) es) (filter (\<lambda>e. Q (fst e)) ts)" for Q
    by (rule list_all2_filter [OF ts]) simp
  have fl: "part_floor (st, part) key = Inr (floor_list ts key)"
  proof (cases "filter (\<lambda>e. fst e \<le> key) es")
    case Nil
    then show ?thesis using filt [of "\<lambda>k. k \<le> key"]
      by (simp add: part_floor_def w(2) reads(3) floor_list_def)
  next
    case (Cons x xs)
    then have l: "?R (last (filter (\<lambda>e. fst e \<le> key) es)) (last (filter (\<lambda>e. fst e \<le> key) ts))"
      using last_list_all2 [OF filt [of "\<lambda>k. k \<le> key"]] by simp
    have "filter (\<lambda>e. fst e \<le> key) ts \<noteq> []" using filt [of "\<lambda>k. k \<le> key"] Cons by auto
    then have "floor_list ts key = Some (last (filter (\<lambda>e. fst e \<le> key) ts))"
      by (auto simp: floor_list_def split: list.splits)
    moreover have "floor_list es key = Some (last (filter (\<lambda>e. fst e \<le> key) es))" using Cons by (simp add: floor_list_def)
    ultimately show ?thesis using l by (simp add: part_floor_def w(2) reads(3) case_prod_unfold)
  qed
  have "map (translate_item part) (map Inr xs) = map Inr ys" if "list_all2 ?R xs ys" for xs ys
    using that by (induction rule: list_all2_induct) (auto simp: translate_item_def case_prod_unfold)
  then have "part_items (st, part) lower upper = map Inr (range_list ts lower upper)"
    using filt [of "\<lambda>k. lower \<le> k \<and> k \<le> upper"] by (simp add: part_items_def w(2) reads(4) range_list_def)
  then show ?thesis using ok look fl by (auto simp: part_look_def w(2) reads(2) split: option.splits)
qed

interpretation part_index: ordered_index part_look part_floor part_items part_holds
  by unfold_locales (use part_holds_reads in \<open>auto simp: split_paired_all\<close>)

section \<open>Lists in buckets\<close>

text \<open>Lists that a monotone function of the key keeps apart, in the order of their buckets.\<close>

definition bucketed :: "(index_key \<Rightarrow> index_key) \<Rightarrow> (index_key \<times> (index_key \<times> index_value) list) list \<Rightarrow> bool" where
  "bucketed bk ps = (bt_ok ps \<and> (\<forall>p \<in> set ps. bt_ok (snd p) \<and> (\<forall>e \<in> set (snd p). bk (fst e) = fst p)))"

lemma bucketed_Cons:
  "bucketed bk (p # ps) \<Longrightarrow> bucketed bk ps \<and> bt_ok (snd p) \<and> (\<forall>e \<in> set (snd p). bk (fst e) = fst p) \<and> (\<forall>q \<in> set ps. fst p < fst q)"
  by (cases p) (simp add: bucketed_def bt_ok_Cons)

lemma mono_less: "mono f \<Longrightarrow> f a < f b \<Longrightarrow> a < b" for a b :: index_key and f :: "index_key \<Rightarrow> index_key"
  by (rule ccontr) (use monoD [of f b a] in \<open>simp add: not_less\<close>)

lemma bucketed_concat:
  assumes "mono bk" "bucketed bk ps"
  shows "bt_ok (concat (map snd ps)) \<and> map_of (concat (map snd ps)) key =
    (case map_of ps (bk key) of None \<Rightarrow> None | Some es \<Rightarrow> map_of es key)"
  using assms(2)
proof (induction ps)
  case (Cons p ps)
  note c = bucketed_Cons [OF Cons.prems]
  have later: "\<exists>q \<in> set ps. bk (fst e) = fst q" if "e \<in> set (concat (map snd ps))" for e
    using that c by (auto simp: bucketed_def)
  have "fst e < fst e'" if e: "e \<in> set (snd p)" "e' \<in> set (concat (map snd ps))" for e e'
  proof -
    obtain q where q: "q \<in> set ps" "bk (fst e') = fst q" using later [OF e(2)] by blast
    have "bk (fst e) = fst p" "fst p < fst q" using c e(1) q(1) by blast+
    then have "bk (fst e) < bk (fst e')" unfolding q(2) by (simp only:)
    then show ?thesis by (rule mono_less [OF assms(1)])
  qed
  then have ok: "bt_ok (concat (map snd (p # ps)))" using Cons.IH c by (simp add: bt_ok_append)
  have none: "map_of (snd p) key = None" if "bk key \<noteq> fst p"
    using that c by (auto simp: map_of_eq_None_iff)
  have "map_of (concat (map snd (p # ps))) key = (case map_of (p # ps) (bk key) of None \<Rightarrow> None | Some es \<Rightarrow> map_of es key)"
  proof (cases "bk key = fst p")
    case True
    then have "map_of ps (bk key) = None" using c by (force simp: map_of_eq_None_iff)
    then have "map_of (concat (map snd ps)) key = None" using Cons.IH c by simp
    then show ?thesis using True by (cases p) (auto simp: map_add_def split: option.splits)
  next
    case False
    then show ?thesis using Cons.IH c none by (cases p) (auto simp: map_add_def split: option.splits)
  qed
  with ok show ?case by blast
qed simp

lemma floor_list_if:
  "floor_list es key = (if filter (\<lambda>e. fst e \<le> key) es = [] then None else Some (last (filter (\<lambda>e. fst e \<le> key) es)))"
  by (cases "filter (\<lambda>e. fst e \<le> key) es") (simp_all add: floor_list_def)

lemma floor_list_append: "floor_list (xs @ ys) key = (case floor_list ys key of None \<Rightarrow> floor_list xs key | Some e \<Rightarrow> Some e)"
  by (simp add: floor_list_if)

lemma floor_list_below: "\<forall>e \<in> set es. key < fst e \<Longrightarrow> floor_list es key = None"
  by (auto simp: floor_list_def filter_empty_conv not_le split: list.splits)

section \<open>A whole manifest\<close>

lemma unat_round: "unat (w div WIDTH * WIDTH) = unat w div 1024 * 1024"
proof -
  have "unat w div 1024 * 1024 \<le> unat w" by simp
  then have "unat w div 1024 * 1024 < 2 ^ 64" using unat_less_u64 [of w] by linarith
  then show ?thesis by (simp add: WIDTH_def unat_word_ariths unat_div)
qed

lemma mono_round: "a \<le> b \<Longrightarrow> a div WIDTH * WIDTH \<le> b div WIDTH * WIDTH"
  by (simp only: word_le_nat_alt unat_round) (intro mult_le_mono1 div_le_mono)

lemma mono_bucket: "mono (bucket kind)"
proof (rule monoI)
  fix a b :: index_key assume "a \<le> b"
  then have "fst a \<le> fst b" "fst a < fst b \<or> fst a = fst b \<and> snd a \<le> snd b" by (auto simp: less_eq_prod_def)
  then show "bucket kind a \<le> bucket kind b"
    using mono_round [of "fst a" "fst b"] mono_round [of "snd a" "snd b"]
    by (auto simp: bucket_def less_eq_prod_def not_less)
qed

text \<open>The partitions of one index of one table, by their lower bounds.\<close>

definition table_parts :: "root \<Rightarrow> u64 \<Rightarrow> u8 \<Rightarrow> (index_key \<times> partition) list" where
  "table_parts r table kind = map (\<lambda>e. (snd (snd (fst e)), snd e))
     (filter (\<lambda>e. fst (fst e) = table \<and> fst (snd (fst e)) = kind) (r_partitions r))"

definition root_holds :: "root \<times> store \<times> u64 \<times> u8 \<Rightarrow> (index_key \<times> index_value) list \<Rightarrow> bool" where
  "root_holds rs ts = (case rs of (r, st, table, kind) \<Rightarrow> bt_ok (r_partitions r) \<and>
     (\<exists>T. ts = concat (map (\<lambda>p. T (fst p)) (table_parts r table kind)) \<and>
       (\<forall>p \<in> set (table_parts r table kind). part_holds (st, snd p) (T (fst p)) \<and>
         (\<forall>e \<in> set (T (fst p)). bucket kind (fst e) = fst p))))"

lemma route_between:
  "(t, k, a) \<le> rt \<and> rt \<le> (t, k, b) \<longleftrightarrow> fst rt = t \<and> fst (snd rt) = k \<and> a \<le> snd (snd rt) \<and> snd (snd rt) \<le> b"
  for t :: u64 and k :: u8 and a b :: index_key
  by (cases rt) (auto simp: less_eq_prod_def)

lemma parts_between_table:
  "parts_between r (table, kind, a) (table, kind, b) =
     map snd (filter (\<lambda>p. a \<le> fst p \<and> fst p \<le> b) (table_parts r table kind))"
  by (simp add: parts_between_def table_parts_def route_between filter_map comp_def)

lemma table_parts_ok:
  assumes "bt_ok (r_partitions r)"
  shows "bt_ok (table_parts r table kind)" "map_of (table_parts r table kind) lo = map_of (r_partitions r) (table, kind, lo)"
proof -
  have "bt_ok (map (\<lambda>e. (snd (snd (fst e)), snd e)) (filter (\<lambda>e. fst (fst e) = table \<and> fst (snd (fst e)) = kind) m)) \<and>
      map_of (map (\<lambda>e. (snd (snd (fst e)), snd e)) (filter (\<lambda>e. fst (fst e) = table \<and> fst (snd (fst e)) = kind) m)) lo
        = map_of m (table, kind, lo)" if "bt_ok m" for m :: "(route \<times> partition) list"
    using that
  proof (induction m)
    case (Cons e m)
    obtain t k l q where e: "e = ((t, k, l), q)" by (cases e) auto
    have "\<forall>x \<in> set m. (t, k, l) < fst x" "bt_ok m" using Cons.prems by (simp_all add: e bt_ok_Cons)
    then show ?case using Cons.IH by (auto simp: e bt_ok_Cons less_prod_def)
  qed simp
  then show "bt_ok (table_parts r table kind)" "map_of (table_parts r table kind) lo = map_of (r_partitions r) (table, kind, lo)"
    using assms by (simp_all add: table_parts_def)
qed

lemma floor_parts_append:
  "floor_parts st key (xs @ ys) = res_bind (floor_parts st key xs) (\<lambda>e. case e of None \<Rightarrow> floor_parts st key ys | Some e \<Rightarrow> Inr (Some e))"
proof (induction xs)
  case (Cons x xs)
  show ?case
  proof (cases "index_floor_at st (p_file x) (p_lsn x) (p_base x) key")
    case (Inr e)
    then show ?thesis using Cons by (cases e) (auto simp: case_prod_unfold)
  qed simp
qed simp

lemma floor_parts_buckets:
  fixes L :: "(index_key \<times> partition) list"
  assumes "mono bk" "\<forall>p \<in> set L. part_holds (st, snd p) (T (fst p)) \<and> (\<forall>e \<in> set (T (fst p)). bk (fst e) = fst p)"
  shows "floor_parts st key (rev (map snd (filter (\<lambda>p. fst p \<le> bk key) L))) = Inr (floor_list (concat (map (\<lambda>p. T (fst p)) L)) key)"
  using assms(2)
proof (induction L)
  case Nil
  then show ?case by (simp add: floor_list_def)
next
  case (Cons p L)
  let ?rest = "floor_list (concat (map (\<lambda>p. T (fst p)) L)) key"
  have IH: "floor_parts st key (rev (map snd (filter (\<lambda>p. fst p \<le> bk key) L))) = Inr ?rest" using Cons by simp
  have whole: "floor_list (concat (map (\<lambda>p. T (fst p)) (p # L))) key =
      (case ?rest of None \<Rightarrow> floor_list (T (fst p)) key | Some e \<Rightarrow> Some e)"
    by (simp add: floor_list_append)
  show ?case
  proof (cases "fst p \<le> bk key")
    case True
    have "floor_parts st key [snd p] = Inr (floor_list (T (fst p)) key)"
      using part_index.floor_holds [of "(st, snd p)" "T (fst p)" key] Cons.prems by (simp add: part_floor_def)
    then show ?thesis unfolding whole using True IH by (cases ?rest) (simp_all add: floor_parts_append)
  next
    case False
    have "key < fst e" if "e \<in> set (T (fst p))" for e
      by (rule mono_less [OF assms(1)]) (use that Cons.prems False in \<open>simp add: not_le\<close>)
    then have "floor_list (T (fst p)) key = None" by (intro floor_list_below) blast
    then show ?thesis unfolding whole using False IH by (simp split: option.splits)
  qed
qed

lemma scan_parts_buckets:
  fixes L :: "(index_key \<times> partition) list"
  assumes "mono bk" "\<forall>p \<in> set L. part_holds (st, snd p) (T (fst p)) \<and> (\<forall>e \<in> set (T (fst p)). bk (fst e) = fst p)"
  shows "concat (map (\<lambda>part. part_items (st, part) lower upper) (map snd (filter (\<lambda>p. bk lower \<le> fst p \<and> fst p \<le> bk upper) L))) =
    map Inr (range_list (concat (map (\<lambda>p. T (fst p)) L)) lower upper)"
  using assms(2)
proof (induction L)
  case (Cons p L)
  have whole: "range_list (concat (map (\<lambda>p. T (fst p)) (p # L))) lower upper =
      range_list (T (fst p)) lower upper @ range_list (concat (map (\<lambda>p. T (fst p)) L)) lower upper"
    by (simp add: range_list_def)
  show ?case
  proof (cases "bk lower \<le> fst p \<and> fst p \<le> bk upper")
    case True
    have "part_items (st, snd p) lower upper = map Inr (range_list (T (fst p)) lower upper)"
      using part_index.items_holds [of "(st, snd p)" "T (fst p)"] Cons.prems by simp
    then show ?thesis unfolding whole using True Cons by simp
  next
    case False
    have "\<not> (lower \<le> fst e \<and> fst e \<le> upper)" if e: "e \<in> set (T (fst p))" for e
    proof
      assume "lower \<le> fst e \<and> fst e \<le> upper"
      then have "bk lower \<le> bk (fst e)" "bk (fst e) \<le> bk upper" using monoD [OF assms(1)] by blast+
      then show False using e Cons.prems False by simp
    qed
    then have "range_list (T (fst p)) lower upper = []" by (simp add: range_list_def filter_empty_conv)
    moreover have "filter (\<lambda>p. bk lower \<le> fst p \<and> fst p \<le> bk upper) (p # L) = filter (\<lambda>p. bk lower \<le> fst p \<and> fst p \<le> bk upper) L"
      using False by auto
    ultimately show ?thesis unfolding whole using Cons by simp
  qed
qed (simp add: range_list_def)

definition root_look :: "root \<times> store \<times> u64 \<times> u8 \<Rightarrow> index_key \<Rightarrow> index_value option res" where
  "root_look rs key = (case rs of (r, st, table, kind) \<Rightarrow> lookup_index r st table kind key)"

definition root_floor :: "root \<times> store \<times> u64 \<times> u8 \<Rightarrow> index_key \<Rightarrow> (index_key \<times> index_value) option res" where
  "root_floor rs key = (case rs of (r, st, table, kind) \<Rightarrow> floor_index r st table kind key)"

definition root_items :: "root \<times> store \<times> u64 \<times> u8 \<Rightarrow> index_key \<Rightarrow> index_key \<Rightarrow> (index_key \<times> index_value) res list" where
  "root_items rs lower upper = (case rs of (r, st, table, kind) \<Rightarrow> scan_index r st table kind lower upper)"

lemma root_holds_reads:
  assumes "root_holds (r, st, table, kind) ts"
  shows "bt_ok ts \<and> lookup_index r st table kind key = Inr (map_of ts key) \<and> floor_index r st table kind key = Inr (floor_list ts key) \<and>
    scan_index r st table kind lower upper = map Inr (range_list ts lower upper)"
proof -
  let ?L = "table_parts r table kind"
  obtain T where ok: "bt_ok (r_partitions r)" and ts: "ts = concat (map (\<lambda>p. T (fst p)) ?L)"
    and T: "\<forall>p \<in> set ?L. part_holds (st, snd p) (T (fst p)) \<and> (\<forall>e \<in> set (T (fst p)). bucket kind (fst e) = fst p)"
    using assms by (auto simp: root_holds_def)
  note tp = table_parts_ok [OF ok, of table kind]
  let ?ps = "map (\<lambda>p. (fst p, T (fst p))) ?L"
  have "bt_ok ?ps" using tp(1) by (simp add: bt_ok_def comp_def)
  then have "bucketed (bucket kind) ?ps" using T part_index.holds_ok by (fastforce simp: bucketed_def)
  from bucketed_concat [OF mono_bucket this, of key]
  have conc: "bt_ok ts" "map_of ts key = (case map_of ?ps (bucket kind key) of None \<Rightarrow> None | Some es \<Rightarrow> map_of es key)"
    by (simp_all add: ts comp_def)
  have "lookup_index r st table kind key = Inr (map_of ts key)"
  proof (cases "map_of ?L (bucket kind key)")
    case None
    then have "map_of ?ps (bucket kind key) = None" by (force simp: map_of_eq_None_iff image_iff)
    then show ?thesis using None tp(2) conc(2) by (simp add: lookup_index_def)
  next
    case (Some part)
    then have part: "(bucket kind key, part) \<in> set ?L" by (rule map_of_SomeD)
    have "map_of ?ps (bucket kind key) = Some (T (bucket kind key))"
      using part \<open>bt_ok ?ps\<close> by (force simp: bt_ok_mem_iff)
    then have "map_of ts key = map_of (T (bucket kind key)) key" using conc(2) by simp
    moreover have "part_look (st, part) key = Inr (map_of (T (bucket kind key)) key)"
      using part_index.look_holds [of "(st, part)"] T part by fastforce
    ultimately show ?thesis using Some tp(2) by (simp add: lookup_index_def part_look_def)
  qed
  moreover have "floor_index r st table kind key = Inr (floor_list ts key)"
  proof -
    have "(0, 0) \<le> p" for p :: index_key by (cases p) (simp add: less_eq_prod_def word_neq_0_conv [symmetric])
    then show ?thesis unfolding ts floor_parts_buckets [OF mono_bucket T, symmetric]
      by (simp add: floor_index_def parts_between_table)
  qed
  moreover have "scan_index r st table kind lower upper = map Inr (range_list ts lower upper)"
  proof (cases "lower \<le> upper")
    case True
    then have "\<not> upper < lower" by (rule leD)
    then show ?thesis unfolding ts scan_parts_buckets [OF mono_bucket T, symmetric]
      by (simp add: scan_index_def parts_between_table part_items_def comp_def)
  next
    case False
    then have "range_list ts lower upper = []" by (auto simp: range_list_def filter_empty_conv)
    moreover have "upper < lower" using False by simp
    ultimately show ?thesis by (simp add: scan_index_def)
  qed
  ultimately show ?thesis using conc(1) by blast
qed

interpretation root_index: ordered_index root_look root_floor root_items root_holds
  by unfold_locales (use root_holds_reads in \<open>auto simp: split_paired_all root_look_def root_floor_def root_items_def\<close>)

end
