(* ===== verification/Memory.thy ===== *)
theory Memory
  imports Heap Model_Laws
begin

text \<open>
  Models \<^verbatim>\<open>memory.rs\<close>: the logical charges of decoded values, their computation for a merged row
  without merging, and the pass over an encoded record that finds its charge before anything is
  decoded. The capacity of a buffer and the sizes of the structures are the store's parameters.
  The laws: both shortcuts give what the merged row and the decoded record are charged.
\<close>

section \<open>Charges\<close>

definition FIELD_BYTES :: nat where "FIELD_BYTES = 128"

fun value_bytes :: "store \<Rightarrow> value_t \<Rightarrow> nat" where
  "value_bytes st (TextV t) = st_capacity st t"
| "value_bytes st (BytesV b) = st_capacity st b"
| "value_bytes st _ = 0"

definition fields_bytes :: "store \<Rightarrow> fields \<Rightarrow> nat" where
  "fields_bytes st fs = sum_list (map (\<lambda>e. FIELD_BYTES + value_bytes st (snd e)) fs)"

definition entity_bytes :: "store \<Rightarrow> entity \<Rightarrow> nat" where
  "entity_bytes st e = st_entity_size st + fields_bytes st (en_fields e)"

definition event_bytes :: "store \<Rightarrow> event \<Rightarrow> nat" where
  "event_bytes st e = st_event_size st + fields_bytes st (ev_fields e)"

text \<open>The values of the row that the changes would leave, and the loop that sums them up.\<close>

definition merged_values :: "fields \<Rightarrow> fields \<Rightarrow> value_t list" where
  "merged_values current changes =
     map (\<lambda>(id, v). case map_of changes id of Some new \<Rightarrow> new | None \<Rightarrow> v) current @
     map snd (filter (\<lambda>(id, _). \<not> bt_has current id) changes)"

fun merged_value_len :: "value_t \<Rightarrow> nat" where
  "merged_value_len Null = 0"
| "merged_value_len (BoolV _) = 1"
| "merged_value_len (TextV t) = 8 + length t"
| "merged_value_len (BytesV b) = 8 + length b"
| "merged_value_len _ = 8"

definition merged_sizes :: "store \<Rightarrow> fields \<Rightarrow> fields \<Rightarrow> nat \<times> nat" where
  "merged_sizes st current changes = fold (\<lambda>v (decoded, encoded).
       (decoded + (FIELD_BYTES + value_bytes st v), encoded + (5 + merged_value_len v)))
     (merged_values current changes) (st_entity_size st, 25 + 8)"

text \<open>The body of the loop of \<^verbatim>\<open>record_bytes\<close>, threading the size and the decoder.\<close>

definition skip_variable :: "u8 \<Rightarrow> decoder \<Rightarrow> (nat \<times> decoder) res" where
  "skip_variable tag d =
     (if tag = 0 then Inr (0, d)
      else if tag = 1 then res_bind (d_u8 d) (\<lambda>(_, d). Inr (0, d))
      else if 2 \<le> tag \<and> tag \<le> 4 then res_bind (d_u64 d) (\<lambda>(_, d). Inr (0, d))
      else if tag = 5 \<or> tag = 6 then res_bind (d_bytes d) (\<lambda>(b, d). Inr (length b, d))
      else Inl (Corrupt ''unknown value tag''))"

definition charge_field :: "nat \<Rightarrow> decoder \<Rightarrow> (nat \<times> decoder) res" where
  "charge_field acc d =
     res_bind (d_u32 d) (\<lambda>(_, d). res_bind (d_u8 d) (\<lambda>(tag, d). res_bind (skip_variable tag d) (\<lambda>(variable, d).
     res_bind (ok_or (usize_checked_add acc variable) (Corrupt ''decoded size overflow'')) (\<lambda>acc.
       Inr (acc, d)))))"

definition record_bytes :: "bytes \<Rightarrow> nat \<Rightarrow> nat res" where
  "record_bytes bs overhead =
     res_bind (d_u64 (d_new bs)) (\<lambda>(_, d). res_bind (d_u64 d) (\<lambda>(_, d). res_bind (d_u64 d) (\<lambda>(_, d).
     res_bind (d_u8 d) (\<lambda>(_, d). res_bind (d_count 5 d) (\<lambda>(count, d).
     res_bind (ok_or (usize_checked_mul count FIELD_BYTES) (Corrupt ''decoded size overflow'')) (\<lambda>fixed.
     res_bind (ok_or (usize_checked_add overhead fixed) (Corrupt ''decoded size overflow'')) (\<lambda>size.
     res_bind (d_repeat count charge_field size d) (\<lambda>(size, d).
     res_bind (d_finish d) (\<lambda>_. Inr size)))))))))"

section \<open>Charging a merged row\<close>

lemma merged_value_len_correct: "merged_value_len v = value_encoded_len v"
  by (cases v) simp_all

lemma merged_sizes_sum:
  "merged_sizes st cur ch = (st_entity_size st + sum_list (map (\<lambda>v. FIELD_BYTES + value_bytes st v) (merged_values cur ch)),
     33 + sum_list (map (\<lambda>v. 5 + value_encoded_len v) (merged_values cur ch)))"
proof -
  have "fold (\<lambda>v (d, e). (d + (FIELD_BYTES + value_bytes st v), e + (5 + merged_value_len v))) vs (d, e) =
      (d + sum_list (map (\<lambda>v. FIELD_BYTES + value_bytes st v) vs), e + sum_list (map (\<lambda>v. 5 + value_encoded_len v) vs))" for vs d e
    by (induction vs arbitrary: d e) (simp_all add: merged_value_len_correct)
  then show ?thesis by (simp add: merged_sizes_def)
qed

text \<open>Summing over an ordered map is summing over its keys, so a merge can be summed in two parts.\<close>

lemma bt_sum_keys:
  assumes "bt_ok m"
  shows "sum_list (map (\<lambda>e. f (snd e)) m) = (\<Sum>k\<in>set (map fst m). (f (the (map_of m k)) :: nat))"
proof -
  have "f (the (map_of m (fst e))) = f (snd e)" if "e \<in> set m" for e
    using that bt_ok_mem_iff [OF assms, of "fst e" "snd e"] by simp
  then have "map (\<lambda>e. f (snd e)) m = map (\<lambda>k. f (the (map_of m k))) (map fst m)" by simp
  then show ?thesis using bt_ok_distinct [OF assms] by (metis sum_list_distinct_conv_sum_set)
qed

lemma merged_values_sum:
  assumes "bt_ok cur" "bt_ok ch"
  shows "sum_list (map f (merged_values cur ch)) = sum_list (map (\<lambda>e. (f (snd e) :: nat)) (bt_extend cur ch))"
proof -
  let ?m = "map_of cur ++ map_of ch"
  have ok: "bt_ok (bt_extend cur ch)" using assms by simp
  have m: "map_of (bt_extend cur ch) = ?m" using map_of_bt_extend [OF assms(2)] .
  have "set (map fst (bt_extend cur ch)) = dom ?m" by (metis dom_map_of_conv_image_fst list.set_map m)
  then have keys: "set (map fst (bt_extend cur ch)) = set (map fst cur) \<union> {k \<in> set (map fst ch). \<not> bt_has cur k}"
    by (auto simp: bt_has_def map_of_eq_None_iff dom_map_of_conv_image_fst)
  have one: "sum_list (map f (map (\<lambda>(id, v). case map_of ch id of Some new \<Rightarrow> new | None \<Rightarrow> v) cur)) =
      (\<Sum>k\<in>set (map fst cur). f (the (?m k)))"
  proof -
    have "f (case map_of ch (fst e) of Some new \<Rightarrow> new | None \<Rightarrow> snd e) = f (the (?m (fst e)))" if "e \<in> set cur" for e
      using that bt_ok_mem_iff [OF assms(1), of "fst e" "snd e"] by (simp add: map_add_def split: option.splits)
    then have "map f (map (\<lambda>(id, v). case map_of ch id of Some new \<Rightarrow> new | None \<Rightarrow> v) cur) =
        map (\<lambda>k. f (the (?m k))) (map fst cur)"
      by (auto simp: case_prod_unfold)
    then show ?thesis using bt_ok_distinct [OF assms(1)] by (metis sum_list_distinct_conv_sum_set)
  qed
  let ?new = "filter (\<lambda>(id, _). \<not> bt_has cur id) ch"
  have new: "bt_ok ?new" using bt_ok_filter [OF assms(2)] by blast
  have at: "the (?m k) = the (map_of ?new k)" if "k \<in> set (map fst ?new)" for k
  proof -
    have "\<not> bt_has cur k" using that by auto
    moreover have "(\<lambda>(id, _). \<not> bt_has cur id) = (\<lambda>e :: u32 \<times> value_t. \<not> bt_has cur (fst e))" by auto
    ultimately have "map_of ?new k = map_of ch k"
      by (simp add: map_of_filter_key [where P = "\<lambda>id. \<not> bt_has cur id"])
    moreover have "map_of cur k = None" using \<open>\<not> bt_has cur k\<close> by (simp add: bt_has_def)
    ultimately show ?thesis by (simp add: map_add_def split: option.splits)
  qed
  have two: "sum_list (map f (map snd ?new)) = (\<Sum>k\<in>set (map fst ?new). f (the (?m k)))"
    using bt_sum_keys [OF new, of f] at by (simp add: comp_def)
  have set_new: "set (map fst ?new) = {k \<in> set (map fst ch). \<not> bt_has cur k}" by force
  have disj: "set (map fst cur) \<inter> {k \<in> set (map fst ch). \<not> bt_has cur k} = {}"
    by (auto simp: bt_has_def map_of_eq_None_iff)
  have "sum_list (map f (merged_values cur ch)) = (\<Sum>k\<in>set (map fst (bt_extend cur ch)). f (the (?m k)))"
    unfolding keys merged_values_def map_append sum_list_append one two set_new
    by (rule sum.union_disjoint [symmetric]) (use disj in auto)
  then show ?thesis using bt_sum_keys [OF ok, of f] m by simp
qed

section \<open>Charging an encoded record\<close>

fun value_payload :: "value_t \<Rightarrow> nat" where
  "value_payload (TextV t) = length t"
| "value_payload (BytesV b) = length b"
| "value_payload _ = 0"

definition fields_payload :: "fields \<Rightarrow> nat" where
  "fields_payload fs = sum_list (map (\<lambda>e. value_payload (snd e)) fs)"

lemma parses_skip_fixed:
  "parses (skip_variable 0) 0 []" "parses (skip_variable 1) 0 (e_u8 b)" "parses (skip_variable 2) 0 (e_u64 w)"
  "parses (skip_variable 3) 0 (e_u64 w)" "parses (skip_variable 4) 0 (e_u64 w)"
  by (simp_all add: skip_variable_def [abs_def], (rule parse_steps, simp)+)

lemma parses_bind_last: "parses f x bs \<Longrightarrow> parses (g x) y [] \<Longrightarrow> parses (\<lambda>d. res_bind (f d) (\<lambda>(x, d). g x d)) y bs"
  using parses_bind [where f = f and x = x and g = g and y = y and cs = "[]"] by simp

lemma parses_skip_bytes: "t = 5 \<or> t = 6 \<Longrightarrow> parses (skip_variable t) (length b) (e_bytes b)"
  unfolding skip_variable_def [abs_def] by (elim disjE) (simp, rule parses_bind_last, rule parses_bytes, simp)+

lemma parses_skip:
  "parses (\<lambda>d. res_bind (d_u8 d) (\<lambda>(tag, d). skip_variable tag d)) (value_payload v) (encode_value v)"
proof (cases v)
  case Null
  then show ?thesis by simp (rule parses_bind_last [OF parses_u8], rule parses_skip_fixed)
qed (auto simp: e_string_def intro!: parses_tag parses_skip_fixed parses_skip_bytes)

lemma parses_charge_field:
  assumes "n + value_payload (snd e) < 2 ^ 64"
  shows "parses (charge_field n) (n + value_payload (snd e)) (encode_field_entry e)"
proof -
  define add where "add = (\<lambda>variable (d :: decoder).
    res_bind (ok_or (usize_checked_add n variable) (Corrupt ''decoded size overflow'')) (\<lambda>acc. Inr (acc, d)))"
  define field where "field = (\<lambda>(_ :: u32) d. res_bind (res_bind (d_u8 d) (\<lambda>(tag, d). skip_variable tag d)) (\<lambda>(v, d). add v d))"
  have eq: "charge_field n = (\<lambda>d. res_bind (d_u32 d) (\<lambda>(x, d). field x d))"
    by (auto simp: charge_field_def add_def field_def fun_eq_iff case_prod_unfold)
  have "parses (field w) (n + value_payload (snd e)) (encode_value (snd e))" for w
    unfolding field_def by (rule parses_bind_last [OF parses_skip]) (use assms in \<open>simp add: add_def usize_checked_add_def\<close>)
  then show ?thesis unfolding eq encode_field_entry_def by (rule parses_u32_bind)
qed

definition usize_fits :: "nat \<Rightarrow> bool" where "usize_fits n = (n < 2 ^ 64)"

interpretation charge_format: loop_format encode_field_entry charge_field
  "\<lambda>n e. usize_fits (n + value_payload (snd e))" "\<lambda>n e. n + value_payload (snd e)"
  by unfold_locales (rule parses_charge_field, simp add: usize_fits_def)

lemma charge_ok_list:
  "usize_fits (n + fields_payload fs) \<Longrightarrow> charge_format.ok_list n fs \<and> foldl (\<lambda>n e. n + value_payload (snd e)) n fs = n + fields_payload fs"
proof (induction fs arbitrary: n)
  case (Cons e fs)
  then have "usize_fits (n + value_payload (snd e) + fields_payload fs)" by (simp add: fields_payload_def add.assoc)
  moreover from this have "usize_fits (n + value_payload (snd e))" by (simp add: usize_fits_def)
  ultimately show ?case using Cons.IH [of "n + value_payload (snd e)"] by (simp add: fields_payload_def)
qed (simp add: fields_payload_def)

lemma fields_payload_less: "fields_payload fs \<le> length (encode_fields fs)"
proof -
  have "value_payload v \<le> value_encoded_len v" for v by (cases v) simp_all
  then have "fields_payload fs \<le> fields_encoded_len fs"
    unfolding fields_payload_def fields_encoded_len_def by (intro trans_le_add2 sum_list_mono) (simp add: trans_le_add2)
  then show ?thesis by (simp add: fields_encoded_len_correct)
qed

text \<open>Entities and events share the shape that the pass relies on: three words, a byte and the fields.\<close>

lemma record_bytes_encoded:
  assumes "fields_ok fs" "length (encode_fields fs) < 2 ^ 62" "overhead < 2 ^ 32"
  shows "record_bytes (e_u64 a @ e_u64 b @ e_u64 c @ e_u8 t @ encode_fields fs) overhead =
    Inr (overhead + length fs * FIELD_BYTES + fields_payload fs)"
proof -
  let ?bs = "e_u64 a @ e_u64 b @ e_u64 c @ e_u8 t @ encode_fields fs"
  let ?n = "overhead + length fs * FIELD_BYTES"
  define charged where "charged = (\<lambda>count d.
     res_bind (ok_or (usize_checked_mul count FIELD_BYTES) (Corrupt ''decoded size overflow'')) (\<lambda>fixed.
     res_bind (ok_or (usize_checked_add overhead fixed) (Corrupt ''decoded size overflow'')) (\<lambda>n. d_repeat count charge_field n d)))"
  define body where "body = (\<lambda>d. res_bind (d_u64 d) (\<lambda>(_, d). res_bind (d_u64 d) (\<lambda>(_, d). res_bind (d_u64 d) (\<lambda>(_, d).
     res_bind (d_u8 d) (\<lambda>(_, d). res_bind (d_count 5 d) (\<lambda>(count, d). charged count d))))))"
  have eq: "record_bytes bs overhead = res_bind (body (d_new bs)) (\<lambda>(n, d). res_bind (d_finish d) (\<lambda>_. Inr n))" for bs
    by (simp add: record_bytes_def body_def charged_def case_prod_unfold)
  have fs: "length fs \<le> 4096" using assms(1) by (simp add: fields_ok_def)
  have pay: "usize_fits (?n + fields_payload fs)"
    using fields_payload_less [of fs] assms(2,3) fs by (simp add: usize_fits_def FIELD_BYTES_def)
  have "charged (length fs) = d_repeat (length fs) charge_field ?n"
    using assms(3) fs by (simp add: charged_def fun_eq_iff usize_checked_mul_def usize_checked_add_def FIELD_BYTES_def)
  then have loop: "parses (charged (length fs)) (?n + fields_payload fs) (concat (map encode_field_entry fs))"
    using charge_format.parses_repeat [of ?n fs] charge_ok_list [OF pay] by simp
  have "length fs * max 5 1 \<le> length (concat (map encode_field_entry fs))"
    using length_concat_ge [of fs 5 encode_field_entry] by (simp add: length_encode_field_entry)
  then have "parses body (?n + fields_payload fs) ?bs"
    unfolding body_def encode_fields_def by (intro parses_u64_bind parses_tag parses_count loop)
  from parsesD [OF this, of "d_new ?bs" "[]"] show ?thesis
    using assms(2) by (simp add: eq d_finish_def d_remaining_rest)
qed

lemma fields_bytes_exact: "fields_bytes (st\<lparr>st_capacity := length\<rparr>) fs = length fs * FIELD_BYTES + fields_payload fs"
proof -
  have "value_bytes (st\<lparr>st_capacity := length\<rparr>) v = value_payload v" for v by (cases v) simp_all
  then show ?thesis by (simp add: fields_bytes_def fields_payload_def sum_list_addf sum_list_triv)
qed

section \<open>Properties\<close>

text \<open>
  (charges_exact) The sizes computed for a row before the changes are merged into it are the
  charge and the encoded length of the merged entity, and the pass over an encoded entity finds the
  charge of the entity it decodes to, with buffers exactly as large as their contents.
\<close>

theorem charges_exact:
  assumes "bt_ok row" "bt_ok changes" "en_fields e = bt_extend row changes" "fields_ok (en_fields e)"
    and "length (encode_entity e) < 2 ^ 62" "st_entity_size st < 2 ^ 32"
  shows "merged_sizes st row changes = (entity_bytes st e, length (encode_entity e)) \<and>
    record_bytes (encode_entity e) (st_entity_size st) = Inr (entity_bytes (st\<lparr>st_capacity := length\<rparr>) e)"
proof
  show "merged_sizes st row changes = (entity_bytes st e, length (encode_entity e))"
    using merged_values_sum [OF assms(1,2), of "\<lambda>v. FIELD_BYTES + value_bytes st v"]
      merged_values_sum [OF assms(1,2), of "\<lambda>v. 5 + value_encoded_len v"]
      fields_encoded_len_correct [of "en_fields e"] assms(3)
    by (simp add: merged_sizes_sum entity_bytes_def fields_bytes_def encode_entity_def fields_encoded_len_def)
  have "length (encode_fields (en_fields e)) < 2 ^ 62" using assms(5) by (simp add: encode_entity_def)
  then show "record_bytes (encode_entity e) (st_entity_size st) = Inr (entity_bytes (st\<lparr>st_capacity := length\<rparr>) e)"
    using record_bytes_encoded [OF assms(4) _ assms(6)] by (simp add: encode_entity_def entity_bytes_def fields_bytes_exact)
qed

lemma charges_exact_witness:
  "merged_sizes (open_store (\<lambda>_. None)) [(1, BoolV True), (2, TextV (ascii ''ab''))] [(2, TextV (ascii ''abc'')), (3, Null)] =
     (56 + 3 * 128 + 3, 60)"
proof -
  let ?row = "[(1 :: u32, BoolV True), (2, TextV (ascii ''ab''))]" and ?ch = "[(2 :: u32, TextV (ascii ''abc'')), (3, Null)]"
  let ?e = "\<lparr>en_id = 1, en_version = 1, en_schema = 1, en_deleted = False, en_fields = bt_extend ?row ?ch\<rparr>"
  have row: "bt_extend ?row ?ch = [(1, BoolV True), (2, TextV (ascii ''abc'')), (3, Null)]"
    by (simp add: bt_extend_def)
  have "utf8_valid (ascii ''abc'')" by (simp add: utf8_valid_def ascii_def)
  then have "fields_ok (bt_extend ?row ?ch)" unfolding row by (simp add: fields_ok_def bt_simps)
  moreover have len: "length (encode_entity ?e) = 60"
    using fields_encoded_len_correct [of "bt_extend ?row ?ch"] unfolding row
    by (simp add: encode_entity_def fields_encoded_len_def)
  ultimately have "merged_sizes (open_store (\<lambda>_. None)) ?row ?ch = (entity_bytes (open_store (\<lambda>_. None)) ?e, length (encode_entity ?e))"
    by (intro conjunct1 [OF charges_exact]) (simp_all add: bt_simps open_store_def)
  then show ?thesis unfolding len by (simp add: entity_bytes_def fields_bytes_def row FIELD_BYTES_def open_store_def)
qed

end
