(* ===== verification/History.thy ===== *)
theory History
  imports Partitions Memory Frame
begin

text \<open>
  Models how \<^verbatim>\<open>snapshot.rs\<close> reads a checkpoint: the record formats of the history segments, the
  reading of one entity state and one event, and the reconstruction of an old version from the base,
  the nearest snapshot and the events after it. The accounting guards (\<^verbatim>\<open>Accounted\<close>) only release
  memory when dropped, so a read value is modelled without its reservation; that a reservation is
  admitted before anything is decoded is modelled.
\<close>

section \<open>History records\<close>

text \<open>How far a run of one byte goes, at most 255, and the run-length encoding.\<close>

fun run_length :: "u8 \<Rightarrow> bytes \<Rightarrow> nat \<Rightarrow> nat" where
  "run_length v [] count = count"
| "run_length v (b # bs) count = (if count < 255 \<and> b = v then run_length v bs (count + 1) else count)"

function rle_encode :: "bytes \<Rightarrow> bytes" where
  "rle_encode [] = []"
| "rle_encode (b # bs) = (let count = run_length b bs 1 in of_nat count # b # rle_encode (drop (count - 1) bs))"
  by pat_completeness auto
termination by (relation "measure length") auto

declare rle_encode.simps(2) [simp del]

definition history_pack :: "u64 \<Rightarrow> bytes \<Rightarrow> bool \<Rightarrow> bytes" where
  "history_pack ent bs compress =
     (let encoded = (if compress then rle_encode bs else []);
          use_rle = (compress \<and> length encoded < length bs) in
      le64 ent @ [if use_rle then 1 else 0] @ le32 (of_nat (length bs)) @ (if use_rle then encoded else bs))"

text \<open>The loop over the pairs of the run-length encoding.\<close>

fun rle_decode :: "nat \<Rightarrow> bytes \<Rightarrow> bytes \<Rightarrow> bytes res" where
  "rle_decode limit result (n # v # bs) =
     (if n = 0 \<or> length result + unat n > limit then Inl (Corrupt ''RLE length overflow'')
      else rle_decode limit (result @ replicate (unat n) v) bs)"
| "rle_decode limit result _ = Inr result"

definition history_unpack :: "store \<Rightarrow> bytes \<Rightarrow> (u64 \<times> bytes) res" where
  "history_unpack st bs =
     (if length bs < 13 then Inl (Corrupt ''short history record'')
      else let ent = from_le64 (take 8 bs); size = unat (from_le32 (take 4 (drop 9 bs))) in
        if size > MAX_RECORD then Inl (Corrupt ''oversized history record'')
        else if bs ! 8 = 0 \<and> length bs - 13 \<noteq> size then Inl (Corrupt ''history length mismatch'')
        else res_bind (st_scratch st size) (\<lambda>_.
          res_bind (if bs ! 8 = 0 then Inr (drop 13 bs)
                    else if bs ! 8 = 1 then
                      (if length (drop 13 bs) mod 2 \<noteq> 0 then Inl (Corrupt ''invalid RLE payload'')
                       else rle_decode size [] (drop 13 bs))
                    else Inl (Corrupt ''unsupported history compression'')) (\<lambda>result.
            if length result \<noteq> size then Inl (Corrupt ''history length mismatch'') else Inr (ent, result))))"

definition event_location :: "u64 \<Rightarrow> u64 \<Rightarrow> u64 res" where
  "event_location segment offset =
     (if segment > 65535 \<or> offset \<ge> push_bit 48 1 then Inl (Invalid ''history location exhausted'')
      else Inr (push_bit 48 segment OR offset))"

definition event_split :: "u64 \<Rightarrow> u64 \<times> u64" where
  "event_split location = (drop_bit 48 location, location AND (push_bit 48 1 - 1))"

section \<open>Reading one record\<close>

text \<open>
  The closures a caller passes thread its state: \<open>charge\<close> may refuse, \<open>admit\<close> may also stop a visit.
\<close>

definition locate :: "root \<Rightarrow> store \<Rightarrow> u64 \<Rightarrow> u64 \<Rightarrow> (u8 \<times> index_value) option res" where
  "locate r st table ent =
     (if \<not> bt_has (r_catalog r) table then Inr None
      else res_bind (lookup_index r st table 3 (ent, 0)) (\<lambda>v. case v of
          None \<Rightarrow> Inr None
        | Some v \<Rightarrow> res_bind (entity_slot v) (\<lambda>slot. Inr (Some (slot, v)))))"

definition state_charged :: "root \<Rightarrow> store \<Rightarrow> u64 \<Rightarrow> u8 \<Rightarrow> u64 \<Rightarrow> u64 \<Rightarrow> (nat \<Rightarrow> 's \<Rightarrow> 's res) \<Rightarrow> 's \<Rightarrow> (entity \<times> 's) res" where
  "state_charged r st table kind locator ent charge s =
     (let (slot, location) = split_locator locator in
      res_bind (slotted r table kind slot 0) (\<lambda>(f, lsn).
      res_bind (heap_read st f location lsn) (\<lambda>raw.
      res_bind (record_bytes raw (st_entity_size st)) (\<lambda>size.
      res_bind (st_decoded st size) (\<lambda>_.
      res_bind (charge size s) (\<lambda>s.
      res_bind (decode_entity raw) (\<lambda>e.
        if en_id e \<noteq> ent then Inl (Corrupt ''index references another entity'') else Inr (e, s))))))))"

definition read_state :: "root \<Rightarrow> store \<Rightarrow> u64 \<Rightarrow> u8 \<Rightarrow> u64 \<Rightarrow> u64 \<Rightarrow> entity res" where
  "read_state r st table kind locator ent =
     res_bind (state_charged r st table kind locator ent (\<lambda>_ s. Inr s) ()) (\<lambda>(e, _). Inr e)"

definition current_state :: "root \<Rightarrow> store \<Rightarrow> u64 \<Rightarrow> u64 \<Rightarrow> entity option res" where
  "current_state r st table ent =
     res_bind (locate r st table ent) (\<lambda>l. case l of
         None \<Rightarrow> Inr None
       | Some (_, v) \<Rightarrow> res_bind (read_state r st table 0 (fst v) ent) (\<lambda>e. Inr (Some e)))"

definition event_at_if :: "root \<Rightarrow> store \<Rightarrow> u64 \<Rightarrow> index_value \<Rightarrow> (nat \<Rightarrow> 's \<Rightarrow> (bool \<times> 's) res) \<Rightarrow> 's \<Rightarrow>
    ((u64 \<times> event \<times> u64) option \<times> 's) res" where
  "event_at_if r st table location admit s =
     (if \<not> bt_has (r_history_generations r) (fst location) then Inl (Corrupt ''absent history generation'')
      else let (segment, offset) = event_split (snd location); f = file_id_new table (fst location) 6 segment in
      res_bind (ok_or (st_disk st f) not_found_error) (\<lambda>bs.
      res_bind (payload_size_at bs (unat offset) (length bs)) (\<lambda>size.
      res_bind (st_scratch st size) (\<lambda>_.
      res_bind (frame_read_at bs (unat offset) (length bs)) (\<lambda>fr.
      res_bind (ok_or fr (Corrupt ''truncated indexed event'')) (\<lambda>record.
      if fr_kind record \<noteq> 3 then Inl (Corrupt ''invalid history frame kind'')
      else res_bind (history_unpack st (fr_payload record)) (\<lambda>(eid, payload).
      res_bind (record_bytes payload (st_event_size st)) (\<lambda>size.
      res_bind (admit size s) (\<lambda>(go, s).
      if \<not> go then Inr (None, s)
      else res_bind (st_decoded st size) (\<lambda>_.
      res_bind (decode_event payload) (\<lambda>ev. Inr (Some (eid, ev, fr_lsn record), s))))))))))))"

definition event_at :: "root \<Rightarrow> store \<Rightarrow> u64 \<Rightarrow> index_value \<Rightarrow> (u64 \<times> event \<times> u64) res" where
  "event_at r st table location =
     res_bind (event_at_if r st table location (\<lambda>_ s. Inr (True, s)) ()) (\<lambda>(e, _).
       ok_or e (Corrupt ''event admission unexpectedly stopped''))"

definition history_state :: "root \<Rightarrow> store \<Rightarrow> u64 \<Rightarrow> index_value \<Rightarrow> u64 \<Rightarrow> entity res" where
  "history_state r st table location ent =
     res_bind (ok_or (map_of (r_history_generations r) (fst location)) (Corrupt ''absent snapshot generation'')) (\<lambda>lsn.
     res_bind (heap_read st (file_id_new table (fst location) 2 0) (snd location) lsn) (\<lambda>raw.
     res_bind (record_bytes raw (st_entity_size st)) (\<lambda>size.
     res_bind (st_decoded st size) (\<lambda>_.
     res_bind (decode_entity raw) (\<lambda>e.
       if en_id e \<noteq> ent then Inl (Corrupt ''snapshot references another entity'') else Inr e)))))"

section \<open>Old versions\<close>

text \<open>The body of the loop of \<^verbatim>\<open>advance\<close> over the indexed events.\<close>

definition advance_step :: "root \<Rightarrow> store \<Rightarrow> u64 \<Rightarrow> u64 \<Rightarrow> table \<Rightarrow> (index_key \<times> index_value) res \<Rightarrow> entity \<Rightarrow> entity res" where
  "advance_step r st table ent definition entry state =
     res_bind entry (\<lambda>(key, location).
     res_bind (event_at r st table location) (\<lambda>(eid, ev, lsn).
       if eid \<noteq> ent \<or> ev_version ev \<noteq> snd key \<or> ev_transaction ev \<noteq> lsn \<or> ev_transaction ev > r_lsn r
       then Inl (Corrupt ''invalid indexed event identity'')
       else apply_event state ev definition))"

definition snapshot_start :: "root \<Rightarrow> store \<Rightarrow> u64 \<Rightarrow> u64 \<Rightarrow> entity \<Rightarrow> u64 \<Rightarrow> bool \<Rightarrow> entity res" where
  "snapshot_start r st table ent state version snapshots =
     (if \<not> snapshots then Inr state
      else res_bind (floor_index r st table 5 (ent, version)) (\<lambda>e. case e of
          None \<Rightarrow> Inr state
        | Some (key, location) \<Rightarrow>
            if fst key = ent \<and> snd key \<ge> en_version state
            then res_bind (history_state r st table location ent) (\<lambda>state.
              if en_version state \<noteq> snd key then Inl (Corrupt ''invalid snapshot identity'') else Inr state)
            else Inr state))"

definition advance :: "root \<Rightarrow> store \<Rightarrow> u64 \<Rightarrow> u64 \<Rightarrow> entity \<Rightarrow> u64 \<Rightarrow> bool \<Rightarrow> entity res" where
  "advance r st table ent state version snapshots =
     res_bind (ok_or (map_of (r_catalog r) table) (NotFound (''table '' @ show_nat (unat table)))) (\<lambda>definition.
     res_bind (snapshot_start r st table ent state version snapshots) (\<lambda>state.
       if en_version state = version then Inr state
       else res_bind (res_fold (advance_step r st table ent definition)
           (scan_index r st table 4 (ent, en_version state + 1) (ent, version)) state) (\<lambda>state.
         if en_version state \<noteq> version then Inl (Corrupt ''gap in indexed history'') else Inr state)))"

definition state_at :: "root \<Rightarrow> store \<Rightarrow> u64 \<Rightarrow> u64 \<Rightarrow> u64 \<Rightarrow> bool \<Rightarrow> entity res" where
  "state_at r st table ent version snapshots =
     res_bind (locate r st table ent) (\<lambda>l.
     res_bind (ok_or l (NotFound (''entity '' @ show_nat (unat ent)))) (\<lambda>(_, v).
     res_bind (read_state r st table 0 (fst v) ent) (\<lambda>current.
     res_bind (read_state r st table 1 (snd v) ent) (\<lambda>state.
       if en_version state > en_version current then Inl (Corrupt ''invalid state reference'')
       else if version < en_version state \<or> version > en_version current
       then Inl (VersionUnavailable version (en_version state) (en_version current))
       else if snapshots \<and> version = en_version current then Inr current
       else advance r st table ent state version snapshots))))"

text \<open>The loop of \<^verbatim>\<open>visit_events\<close>: true when every event was visited.\<close>

fun visit_items :: "root \<Rightarrow> store \<Rightarrow> u64 \<Rightarrow> u64 \<Rightarrow> ('s \<Rightarrow> 's res) \<Rightarrow> (nat \<Rightarrow> 's \<Rightarrow> (bool \<times> 's) res) \<Rightarrow>
    (event \<Rightarrow> 's \<Rightarrow> (bool \<times> 's) res) \<Rightarrow> (index_key \<times> index_value) res list \<Rightarrow> 's \<Rightarrow> (bool \<times> 's) res" where
  "visit_items r st table ent check admit visit [] s = Inr (True, s)"
| "visit_items r st table ent check admit visit (item # items) s =
     res_bind (check s) (\<lambda>s.
     res_bind item (\<lambda>(key, location).
     res_bind (event_at_if r st table location admit s) (\<lambda>(e, s). case e of
         None \<Rightarrow> Inr (False, s)
       | Some (eid, ev, lsn) \<Rightarrow>
           if eid \<noteq> ent \<or> ev_version ev \<noteq> snd key \<or> ev_transaction ev \<noteq> lsn \<or> ev_transaction ev > r_lsn r
           then Inl (Corrupt ''history index references another event'')
           else res_bind (visit ev s) (\<lambda>(go, s).
             if \<not> go then Inr (False, s) else visit_items r st table ent check admit visit items s))))"

definition root_visit_events :: "root \<Rightarrow> store \<Rightarrow> u64 \<Rightarrow> u64 \<Rightarrow> u64 \<Rightarrow> u64 \<Rightarrow> ('s \<Rightarrow> 's res) \<Rightarrow> (nat \<Rightarrow> 's \<Rightarrow> (bool \<times> 's) res) \<Rightarrow>
    (event \<Rightarrow> 's \<Rightarrow> (bool \<times> 's) res) \<Rightarrow> 's \<Rightarrow> (bool \<times> 's) res" where
  "root_visit_events r st table ent low high check admit visit s =
     visit_items r st table ent check admit visit (scan_index r st table 4 (ent, low) (ent, high)) s"

end
