(* ===== verification/Partition_Build.thy ===== *)
theory Partition_Build
  imports Partitions
begin

text \<open>
  Models \<^verbatim>\<open>Indexes\<close> of \<^verbatim>\<open>partitions.rs\<close>: the builder that cuts the three indexes of a table into
  partitions, one after the other in one file per index, and reuses sealed partitions of the last
  manifest. The law: over the partitions it finished, every routed read finds exactly the entries
  appended and those of the partitions reused.
\<close>

section \<open>The builder\<close>

record pending =
  pe_writer :: index_writer
  pe_route :: route
  pe_part :: partition

text \<open>\<open>ix_disk\<close> holds the files of the directory; a file being written is in its handle or writer.\<close>

record indexes =
  ix_limit :: nat
  ix_disk :: "file_id \<Rightarrow> bytes option"
  ix_table :: u64
  ix_generation :: u64
  ix_lsn :: u64
  ix_handles :: "bytes option list"
  ix_next :: "u64 list"
  ix_pending :: "pending option list"
  ix_parts :: "(route, partition) btree"
  ix_files :: "(file_id, file_info) btree"

definition indexes_new :: "(file_id \<Rightarrow> bytes option) \<Rightarrow> u64 \<Rightarrow> u64 \<Rightarrow> u64 \<Rightarrow> nat \<Rightarrow> indexes" where
  "indexes_new disk table generation lsn limit = \<lparr>ix_limit = limit, ix_disk = disk, ix_table = table,
     ix_generation = generation, ix_lsn = lsn, ix_handles = [None, None, None], ix_next = [0, 0, 0],
     ix_pending = [None, None, None], ix_parts = [], ix_files = []\<rparr>"

definition indexes_admit :: "indexes \<Rightarrow> unit res" where
  "indexes_admit ix =
     (if length (ix_parts ix) + length (filter (\<lambda>p. p \<noteq> None) (ix_pending ix)) \<ge> ix_limit ix
      then Inl (LimitExceeded ''index partitions'' (ix_limit ix)) else Inr ())"

definition indexes_flush :: "nat \<Rightarrow> indexes \<Rightarrow> indexes res" where
  "indexes_flush at ix = (case ix_pending ix ! at of
       None \<Rightarrow> Inr ix
     | Some p \<Rightarrow>
         let bs = finish_part (pe_writer p) in
         if bt_has (ix_parts ix) (pe_route p) then Inl (Corrupt ''duplicate built partition'')
         else Inr (ix\<lparr>ix_pending := (ix_pending ix)[at := None],
           ix_next := (ix_next ix)[at := of_nat (length bs div PAGE_SIZE)],
           ix_handles := (ix_handles ix)[at := Some bs],
           ix_parts := bt_insert (pe_route p) (pe_part p) (ix_parts ix)\<rparr>))"

definition exists_error :: error where
  "exists_error = Io \<lparr>io_kind = ''AlreadyExists'', io_text = ''File exists (os error 17)''\<rparr>"

text \<open>The handle of a file begun before, or a new file.\<close>

definition indexes_open :: "nat \<Rightarrow> file_id \<Rightarrow> indexes \<Rightarrow> (bytes \<times> indexes) res" where
  "indexes_open at f ix = (case ix_handles ix ! at of
       Some bs \<Rightarrow> Inr (bs, ix\<lparr>ix_handles := (ix_handles ix)[at := None]\<rparr>)
     | None \<Rightarrow> if ix_disk ix f \<noteq> None then Inl exists_error
         else Inr ([], ix\<lparr>ix_disk := (ix_disk ix)(f := Some [])\<rparr>))"

text \<open>The route change at the head of \<^verbatim>\<open>append\<close>.\<close>

definition indexes_start :: "nat \<Rightarrow> u8 \<Rightarrow> route \<Rightarrow> index_key \<Rightarrow> indexes \<Rightarrow> indexes res" where
  "indexes_start at kind rt key ix =
     res_bind (indexes_flush at ix) (\<lambda>ix.
     res_bind (indexes_admit ix) (\<lambda>_.
       if bt_has (ix_parts ix) rt then Inl (Corrupt ''append to sealed index partition'')
       else let f = file_id_new (ix_table ix) (ix_generation ix) kind 0 in
       res_bind (indexes_open at f ix) (\<lambda>(bs, ix).
         let base = ix_next ix ! at in
         Inr (ix\<lparr>ix_pending := (ix_pending ix)[at := Some \<lparr>pe_writer = writer_from_file bs (ix_lsn ix) base,
           pe_route = rt, pe_part = \<lparr>p_file = f, p_lsn = ix_lsn ix, p_base = base, p_first = key, p_last = key,
             p_slots = [], p_dependencies = []\<rparr>\<rparr>]\<rparr>))))"

text \<open>The entry itself, into the pending partition.\<close>

definition pending_append :: "u8 \<Rightarrow> index_key \<Rightarrow> index_value \<Rightarrow> file_id option \<Rightarrow> pending \<Rightarrow> pending res" where
  "pending_append kind key v dependency p =
     res_bind (writer_append key v (pe_writer p)) (\<lambda>w.
     let part = (pe_part p)\<lparr>p_last := key\<rparr> in
     res_bind (if kind = 3 then res_bind (entity_slot v) (\<lambda>slot. Inr (part\<lparr>p_slots := bt_insert slot slot (p_slots part)\<rparr>))
               else Inr part) (\<lambda>part.
     let part = (case dependency of None \<Rightarrow> part | Some f \<Rightarrow> part\<lparr>p_dependencies := bt_insert f () (p_dependencies part)\<rparr>) in
     Inr (p\<lparr>pe_writer := w, pe_part := part\<rparr>)))"

definition indexes_append :: "u8 \<Rightarrow> index_key \<Rightarrow> index_value \<Rightarrow> file_id option \<Rightarrow> indexes \<Rightarrow> indexes res" where
  "indexes_append kind key v dependency ix =
     (let at = unat (kind - 3); rt = (ix_table ix, kind, bucket kind key) in
      res_bind (if (case ix_pending ix ! at of None \<Rightarrow> True | Some p \<Rightarrow> pe_route p \<noteq> rt)
                then indexes_start at kind rt key ix else Inr ix) (\<lambda>ix.
      res_bind (pending_append kind key v dependency (the (ix_pending ix ! at))) (\<lambda>p.
        Inr (ix\<lparr>ix_pending := (ix_pending ix)[at := Some p]\<rparr>))))"

definition indexes_reuse :: "route \<Rightarrow> partition \<Rightarrow> root \<Rightarrow> indexes \<Rightarrow> indexes res" where
  "indexes_reuse rt part r ix =
     res_bind (indexes_flush (unat (fst (snd rt) - 3)) ix) (\<lambda>ix.
     res_bind (indexes_admit ix) (\<lambda>_.
     res_bind (ok_or (List.find (\<lambda>info. file_info_id info = p_file part) (r_files r)) (Corrupt ''unlisted partition'')) (\<lambda>info.
       if bt_has (ix_parts ix) rt then Inl (Corrupt ''duplicate reused partition'')
       else Inr (ix\<lparr>ix_files := bt_insert (file_info_id info) info (ix_files ix),
              ix_parts := bt_insert rt part (ix_parts ix)\<rparr>))))"

text \<open>The last loop of \<^verbatim>\<open>finish\<close>: every file is complete on disk and described by its digest.\<close>

definition file_digest :: "bytes \<Rightarrow> u32" where
  "file_digest bs = checksum_finish (foldl checksum_update checksum_new (chunks 65536 bs))"

definition indexes_sync :: "nat \<Rightarrow> indexes \<Rightarrow> indexes" where
  "indexes_sync at ix = (case ix_handles ix ! at of
       None \<Rightarrow> ix
     | Some bs \<Rightarrow> let f = file_id_new (ix_table ix) (ix_generation ix) (of_nat at + 3) 0 in
         ix\<lparr>ix_disk := (ix_disk ix)(f := Some bs),
           ix_files := bt_insert f \<lparr>fi_generation = ix_generation ix, fi_table = ix_table ix, fi_kind = fid_kind f,
             fi_segment = 0, fi_size = of_nat (length bs), fi_crc = file_digest bs\<rparr> (ix_files ix)\<rparr>)"

definition indexes_finish :: "indexes \<Rightarrow> indexes res" where
  "indexes_finish ix = res_bind (res_fold indexes_flush [0, 1, 2] ix) (\<lambda>ix. Inr (fold indexes_sync [0, 1, 2] ix))"

section \<open>Slots of a partition being built\<close>

lemma locate_split: "locate_slot (fst (split_locator l)) (snd (split_locator l)) = l"
proof -
  have "push_bit 16 PAGE_LIMIT - 1 = (mask 56 :: u64)" by (simp add: PAGE_LIMIT_def mask_eq_exp_minus_1)
  then have s: "split_locator l = (ucast (drop_bit 56 l), l AND mask 56)" by (simp add: split_locator_def)
  show ?thesis
  proof (rule bit_word_eqI)
    fix n assume "n < LENGTH(64)"
    then show "bit (locate_slot (fst (split_locator l)) (snd (split_locator l))) n = bit l n"
      by (cases "n < 56") (auto simp: s locate_slot_def bit_simps)
  qed
qed

definition slot_kept :: "partition \<Rightarrow> index_value \<Rightarrow> bool" where
  "slot_kept part v = (fid_kind (p_file part) = 3 \<longrightarrow>
     (\<exists>slot. entity_slot v = Inr slot \<and> map_of (p_slots part) slot = Some slot))"

lemma translate_kept: "slot_kept part v \<Longrightarrow> translate part v = Inr v"
proof -
  assume k: "slot_kept part v"
  have "remap v slot = v" if "entity_slot v = Inr slot" for slot
    using that locate_split [of "fst v"] locate_split [of "snd v"]
    by (auto simp: entity_slot_def remap_def case_prod_unfold Let_def split: if_splits)
  then show ?thesis using k by (auto simp: slot_kept_def translate_def)
qed

section \<open>Partitions in a growing file\<close>

lemma part_in_extend: "part_in bs part ts \<Longrightarrow> length ext mod PAGE_SIZE = 0 \<Longrightarrow> part_in (bs @ ext) part ts"
  unfolding part_in_def
proof (elim exE conjE)
  fix pre b w post es
  assume a: "writer_append_all es (writer_from_file pre (p_lsn part) (of_nat b)) = Inr w" "p_base part = of_nat b"
    "length pre = b * PAGE_SIZE" "bs = finish_part w @ post" "length post mod PAGE_SIZE = 0" "length ext mod PAGE_SIZE = 0"
    "list_all2 (\<lambda>e t. fst e = fst t \<and> translate part (snd e) = Inr (snd t)) es ts"
  then have "length (post @ ext) mod PAGE_SIZE = 0" by (simp add: mod_add_eq [symmetric])
  then show "\<exists>pre b w post es. writer_append_all es (writer_from_file pre (p_lsn part) (of_nat b)) = Inr w \<and>
      p_base part = of_nat b \<and> length pre = b * PAGE_SIZE \<and> bs @ ext = finish_part w @ post \<and>
      length post mod PAGE_SIZE = 0 \<and> list_all2 (\<lambda>e t. fst e = fst t \<and> translate part (snd e) = Inr (snd t)) es ts"
    using a by (intro exI [of _ pre] exI [of _ b] exI [of _ w] exI [of _ "post @ ext"] exI [of _ es]) simp
qed

text \<open>Finishing a part keeps the file before it and adds whole pages.\<close>

lemma finish_part_length:
  assumes "writer_append_all es (writer_from_file pre lsn base) = Inr w"
  shows "length pre \<le> length (finish_part w)" "finish_part w \<noteq> []"
proof -
  have "writer_append_all es (writer_from_file pre lsn (of_nat (unat base))) = Inr w" using assms by simp
  from writer_append_all_inv [OF append_inv_new this] obtain gs0 where inv: "append_inv pre (unat base) lsn gs0 w"
    by (auto simp: writer_from_file_def)
  obtain gs ns0 where g: "level_inv pre (unat base) lsn gs ns0 (flush_leaf 0 w)"
      "spans (unat base) lsn gs ns0 (iw_level (flush_leaf 0 w)) 0 (length gs)"
    using flush_leaf_last [OF inv] by blast
  obtain ns where "level_inv pre (unat base) lsn gs ns (write_levels (flush_leaf 0 w))"
    using write_levels_tree [OF g] by blast
  then have "length pre \<le> length (iw_file (write_levels (flush_leaf 0 w)))" by (simp add: level_inv_def)
  also have "\<dots> \<le> length (finish_part w)" by (simp add: finish_part_def Let_def put_def)
  finally show "length pre \<le> length (finish_part w)" .
  have "length (index_seal (meta_page b l c r)) = PAGE_SIZE" for b l c r
    using index_seal_slices(3) [OF length_index_header index_header_slices(8)] by (simp add: meta_page_layout PAGE_SIZE_def)
  then have "index_seal (meta_page b l c r) \<noteq> []" for b l c r by (metis length_0_conv PAGE_SIZE_def zero_neq_numeral)
  then show "finish_part w \<noteq> []" by (simp add: finish_part_def Let_def put_def)
qed

lemma finish_part_grows:
  assumes "writer_append_all es (writer_from_file pre lsn (of_nat b)) = Inr w" "length pre = b * PAGE_SIZE" "length pre < 2 ^ 60"
  shows "\<exists>ext. finish_part w = pre @ ext \<and> length ext mod PAGE_SIZE = 0"
proof -
  obtain gs0 where inv: "append_inv pre b lsn gs0 w"
    using writer_append_all_inv [OF append_inv_new assms(1)] by (auto simp: writer_from_file_def)
  obtain gs ns0 where g: "level_inv pre b lsn gs ns0 (flush_leaf 0 w)" "spans b lsn gs ns0 (iw_level (flush_leaf 0 w)) 0 (length gs)"
    using flush_leaf_last [OF inv] by blast
  define w' where "w' = write_levels (flush_leaf 0 w)"
  obtain ns where ns: "level_inv pre b lsn gs ns w'" using write_levels_tree [OF g] unfolding w'_def by blast
  have "b < 2 ^ 64" using assms(2,3) by (simp add: PAGE_SIZE_def)
  let ?meta = "meta_page (of_nat b) lsn (iw_count w') (meta_root w')"
  have fin: "finish_part w = pre @ index_seal ?meta @ concat (map index_seal ns)"
    by (rule finish_part_layout [OF w'_def ns assms(2) \<open>b < 2 ^ 64\<close>])
  have "length (index_seal ?meta) = PAGE_SIZE"
    using index_seal_slices(3) [OF length_index_header index_header_slices(8)] by (simp add: meta_page_layout PAGE_SIZE_def)
  then have "\<forall>p \<in> set (index_seal ?meta # map index_seal ns). length p = PAGE_SIZE"
    using length_sealed [OF ns] by (auto simp: in_set_conv_nth)
  then have "length (concat (index_seal ?meta # map index_seal ns)) mod PAGE_SIZE = 0"
    using length_concat_const [of "index_seal ?meta # map index_seal ns" "\<lambda>p. p" PAGE_SIZE]
    by (simp only: list.map_ident mod_mult_self2_is_0)
  then show ?thesis using fin by auto
qed

section \<open>The invariant of building\<close>

text \<open>
  \<open>H\<close> gives the sealed bytes of the three new files, \<open>T\<close> the entries of each finished partition, \<open>P\<close> those
  of the pending ones, \<open>E\<close> everything appended or reused so far.
\<close>

definition new_file :: "indexes \<Rightarrow> nat \<Rightarrow> file_id" where
  "new_file ix at = file_id_new (ix_table ix) (ix_generation ix) (of_nat at + 3) 0"

definition built_disk :: "indexes \<Rightarrow> (nat \<Rightarrow> bytes) \<Rightarrow> file_id \<Rightarrow> bytes option" where
  "built_disk ix H f = (if \<exists>at < 3. f = new_file ix at then Some (H (unat (fid_kind f - 3))) else ix_disk ix f)"

definition pending_ok :: "indexes \<Rightarrow> bytes \<Rightarrow> nat \<Rightarrow> pending \<Rightarrow> (index_key \<times> index_value) list \<Rightarrow> bool" where
  "pending_ok ix h at p es = ((\<exists>lo. pe_route p = (ix_table ix, of_nat at + 3, lo)) \<and> p_file (pe_part p) = new_file ix at \<and>
     p_lsn (pe_part p) = ix_lsn ix \<and> p_base (pe_part p) = ix_next ix ! at \<and>
     writer_append_all es (writer_from_file h (ix_lsn ix) (ix_next ix ! at)) = Inr (pe_writer p) \<and>
     (\<forall>e \<in> set es. bucket (of_nat at + 3) (fst e) = snd (snd (pe_route p)) \<and> slot_kept (pe_part p) (snd e)))"

definition part_ok :: "indexes \<Rightarrow> (nat \<Rightarrow> bytes) \<Rightarrow> route \<times> partition \<Rightarrow> (index_key \<times> index_value) list \<Rightarrow> bool" where
  "part_ok ix H e ts = (fst (fst e) = ix_table ix \<and>
     (\<exists>bs. built_disk ix H (p_file (snd e)) = Some bs \<and> part_in bs (snd e) ts) \<and>
     (\<forall>t \<in> set ts. bucket (fst (snd (fst e))) (fst t) = snd (snd (fst e))))"

definition lens :: "(nat \<Rightarrow> bytes) \<Rightarrow> bool" where
  "lens H = (\<forall>at < 3. length (H at) < 2 ^ 60)"

definition slot_ok :: "indexes \<Rightarrow> (nat \<Rightarrow> bytes) \<Rightarrow> (nat \<Rightarrow> (index_key \<times> index_value) list) \<Rightarrow> nat \<Rightarrow> bool" where
  "slot_ok ix H P at = (case ix_pending ix ! at of
       None \<Rightarrow> P at = [] \<and> (ix_handles ix ! at = Some (H at) \<or> ix_handles ix ! at = None \<and> H at = [])
     | Some p \<Rightarrow> ix_handles ix ! at = None \<and> pending_ok ix (H at) at p (P at))"

definition built_entries :: "indexes \<Rightarrow> (route \<Rightarrow> (index_key \<times> index_value) list) \<Rightarrow> nat \<Rightarrow> (index_key \<times> index_value) set" where
  "built_entries ix T at = (\<Union>e \<in> {e \<in> set (ix_parts ix). fst (snd (fst e)) = of_nat at + 3}. set (T (fst e)))"

definition build_inv :: "(file_id \<Rightarrow> bytes option) \<Rightarrow> indexes \<Rightarrow> (nat \<Rightarrow> bytes) \<Rightarrow> (route \<Rightarrow> (index_key \<times> index_value) list) \<Rightarrow>
    (nat \<Rightarrow> (index_key \<times> index_value) list) \<Rightarrow> (nat \<Rightarrow> (index_key \<times> index_value) list) \<Rightarrow> bool" where
  "build_inv disk ix H T P E = (bt_ok (ix_parts ix) \<and>
     length (ix_handles ix) = 3 \<and> length (ix_next ix) = 3 \<and> length (ix_pending ix) = 3 \<and>
     (\<forall>at < 3. slot_ok ix H P at) \<and>
     (\<forall>f. (\<forall>at < 3. f \<noteq> new_file ix at) \<longrightarrow> ix_disk ix f = disk f) \<and>
     (lens H \<longrightarrow> (\<forall>at < 3. length (H at) mod PAGE_SIZE = 0 \<and> ix_next ix ! at = of_nat (length (H at) div PAGE_SIZE)) \<and>
       (\<forall>e \<in> set (ix_parts ix). part_ok ix H e (T (fst e)))) \<and>
     (\<forall>at < 3. set (E at) = set (P at) \<union> built_entries ix T at))"

lemma kind_index: "3 \<le> k \<Longrightarrow> k \<le> 5 \<Longrightarrow> unat (k - 3) < 3 \<and> of_nat (unat (k - 3)) + 3 = (k :: u8)"
  by (simp add: unat_sub word_le_nat_alt)

lemma kind_index_eq:
  assumes "i < 3" "j < 3"
  shows "(of_nat i + 3 = (of_nat j + 3 :: u8)) = (i = j)"
proof -
  have "i \<in> {0, 1, 2}" "j \<in> {0, 1, 2}" using assms by auto
  then show ?thesis by auto
qed

lemma new_file_kind [simp]: "at < 3 \<Longrightarrow> unat (fid_kind (new_file ix at) - 3) = at"
  by (simp add: new_file_def file_id_new_def unat_of_nat)

lemma built_disk_new: "at < 3 \<Longrightarrow> built_disk ix H (new_file ix at) = Some (H at)"
  by (auto simp: built_disk_def)

lemma slot_ok_cong:
  assumes "ix_pending ix' ! at = ix_pending ix ! at" "ix_handles ix' ! at = ix_handles ix ! at" "ix_next ix' ! at = ix_next ix ! at"
    and "ix_table ix' = ix_table ix" "ix_generation ix' = ix_generation ix" "ix_lsn ix' = ix_lsn ix" "H' at = H at" "P' at = P at"
  shows "slot_ok ix' H' P' at = slot_ok ix H P at"
  using assms by (simp add: slot_ok_def pending_ok_def new_file_def split: option.splits)

lemma built_entries_insert:
  assumes "set (ix_parts ix') = insert (rt, part) (set (ix_parts ix))" "\<And>e. e \<in> set (ix_parts ix) \<Longrightarrow> fst e \<noteq> rt"
  shows "built_entries ix' (T(rt := ts)) i = (if fst (snd rt) = of_nat i + 3 then set ts else {}) \<union> built_entries ix T i"
proof -
  let ?Q = "\<lambda>e :: route \<times> partition. fst (snd (fst e)) = of_nat i + 3"
  have "{e \<in> set (ix_parts ix'). ?Q e} = (if ?Q (rt, part) then {(rt, part)} else {}) \<union> {e \<in> set (ix_parts ix). ?Q e}"
    unfolding assms(1) by auto
  moreover have "(\<Union>e \<in> {e \<in> set (ix_parts ix). ?Q e}. set ((T(rt := ts)) (fst e))) = built_entries ix T i"
    unfolding built_entries_def by (rule SUP_cong) (use assms(2) in auto)
  ultimately show ?thesis unfolding built_entries_def by (simp add: UN_Un)
qed

lemma indexes_flush_inv:
  assumes inv: "build_inv disk ix H T P E" and fl: "indexes_flush at ix = Inr ix'" and at: "at < 3"
  shows "\<exists>H' T'. build_inv disk ix' H' T' (P(at := [])) E \<and> ix_pending ix' ! at = None \<and>
    ix_table ix' = ix_table ix \<and> ix_generation ix' = ix_generation ix \<and> ix_lsn ix' = ix_lsn ix \<and>
    (\<forall>i. ix_pending ix ! i = None \<longrightarrow> ix_pending ix' ! i = None) \<and>
    ix_disk ix' = ix_disk ix \<and> ix_files ix' = ix_files ix"
proof (cases "ix_pending ix ! at")
  case None
  then have "P at = []" using inv at by (auto simp: build_inv_def slot_ok_def)
  then have "P(at := []) = P" by auto
  then show ?thesis using inv fl None by (auto simp: indexes_flush_def)
next
  case (Some p)
  let ?bs = "finish_part (pe_writer p)"
  let ?H = "H(at := ?bs)" and ?T = "T(pe_route p := P at)" and ?P = "P(at := [])"
  have new: "\<not> bt_has (ix_parts ix) (pe_route p)"
    and ix': "ix' = ix\<lparr>ix_pending := (ix_pending ix)[at := None], ix_next := (ix_next ix)[at := of_nat (length ?bs div PAGE_SIZE)],
      ix_handles := (ix_handles ix)[at := Some ?bs], ix_parts := bt_insert (pe_route p) (pe_part p) (ix_parts ix)\<rparr>"
    using fl Some by (auto simp: indexes_flush_def Let_def split: if_splits)
  have len3: "length (ix_handles ix) = 3" "length (ix_next ix) = 3" "length (ix_pending ix) = 3" and ok: "bt_ok (ix_parts ix)"
    using inv by (simp_all add: build_inv_def)
  have pend: "pending_ok ix (H at) at p (P at)" using inv at Some by (fastforce simp: build_inv_def slot_ok_def)
  then obtain lo where lo: "pe_route p = (ix_table ix, of_nat at + 3, lo)" by (auto simp: pending_ok_def)
  have wr: "writer_append_all (P at) (writer_from_file (H at) (ix_lsn ix) (ix_next ix ! at)) = Inr (pe_writer p)"
    using pend by (simp add: pending_ok_def)
  note grow = finish_part_length [OF wr]
  have same: "new_file ix' i = new_file ix i" "built_disk ix' H' f = built_disk ix H' f" for i H' f
    by (auto simp: ix' new_file_def built_disk_def)
  have slots: "slot_ok ix' ?H ?P i" if "i < 3" for i
  proof (cases "i = at")
    case True
    then show ?thesis using len3 at by (simp add: slot_ok_def ix')
  next
    case False
    then have "slot_ok ix' ?H ?P i = slot_ok ix H P i" by (intro slot_ok_cong) (simp_all add: ix')
    then show ?thesis using inv that by (simp add: build_inv_def)
  qed
  have parts: "set (ix_parts ix') = insert (pe_route p, pe_part p) (set (ix_parts ix))"
    using set_bt_insert_new [OF new] by (simp add: ix')
  have old: "fst e \<noteq> pe_route p" if "e \<in> set (ix_parts ix)" for e
    using new that by (metis bt_has_def map_of_eq_None_iff image_eqI)
  have main: "(\<forall>i < 3. length (?H i) mod PAGE_SIZE = 0 \<and> ix_next ix' ! i = of_nat (length (?H i) div PAGE_SIZE)) \<and>
      (\<forall>e \<in> set (ix_parts ix'). part_ok ix' ?H e (?T (fst e)))" if l: "lens ?H"
  proof -
    have "length (H at) < 2 ^ 60" using l at grow(1) by (fastforce simp: lens_def)
    then have lH: "lens H" using l by (auto simp: lens_def split: if_splits)
    then have m: "length (H i) mod PAGE_SIZE = 0" "ix_next ix ! i = of_nat (length (H i) div PAGE_SIZE)" if "i < 3" for i
      using inv that by (simp_all add: build_inv_def)
    let ?b = "length (H at) div PAGE_SIZE"
    have b: "length (H at) = ?b * PAGE_SIZE" using m(1) [OF at] by (simp add: mod_0_imp_dvd)
    have "writer_append_all (P at) (writer_from_file (H at) (ix_lsn ix) (of_nat ?b)) = Inr (pe_writer p)"
      using wr unfolding m(2) [OF at] .
    from finish_part_grows [OF this b \<open>length (H at) < 2 ^ 60\<close>]
    obtain ext where ext: "?bs = H at @ ext" "length ext mod PAGE_SIZE = 0" by (elim exE conjE)
    have "length (H at) mod PAGE_SIZE = 0" by (rule m(1) [OF at])
    then have "length ?bs mod PAGE_SIZE = 0" using ext(2) by (simp add: ext(1) mod_add_eq [symmetric])
    then have pages: "\<forall>i < 3. length (?H i) mod PAGE_SIZE = 0 \<and> ix_next ix' ! i = of_nat (length (?H i) div PAGE_SIZE)"
      using m len3 by (simp add: ix' nth_list_update)
    have "part_in ?bs (pe_part p) (P at)"
      unfolding part_in_def
    proof (intro exI conjI)
      show "writer_append_all (P at) (writer_from_file (H at) (p_lsn (pe_part p)) (of_nat ?b)) = Inr (pe_writer p)"
        using wr pend m(2) [OF at] by (simp add: pending_ok_def)
      show "p_base (pe_part p) = of_nat ?b" using pend m(2) [OF at] by (simp add: pending_ok_def)
      show "?bs = ?bs @ []" by simp
      show "list_all2 (\<lambda>e t. fst e = fst t \<and> translate (pe_part p) (snd e) = Inr (snd t)) (P at) (P at)"
        using pend translate_kept by (auto simp: pending_ok_def list_all2_same)
    qed (use b in simp_all)
    moreover have "built_disk ix ?H (p_file (pe_part p)) = Some ?bs"
      using pend built_disk_new [OF at, of ix ?H] by (simp add: pending_ok_def)
    ultimately have here: "part_ok ix' ?H (pe_route p, pe_part p) (P at)"
      using pend lo unfolding part_ok_def same by (auto simp: pending_ok_def ix')
    have there: "part_ok ix' ?H e (T (fst e))" if e: "e \<in> set (ix_parts ix)" for e
    proof -
      have pe: "part_ok ix H e (T (fst e))" using inv lH e by (auto simp: build_inv_def)
      then obtain bs where bs: "built_disk ix H (p_file (snd e)) = Some bs" "part_in bs (snd e) (T (fst e))"
        by (auto simp: part_ok_def)
      have "\<exists>bs. built_disk ix ?H (p_file (snd e)) = Some bs \<and> part_in bs (snd e) (T (fst e))"
      proof (cases "p_file (snd e) = new_file ix at")
        case True
        then have "bs = H at" using bs(1) built_disk_new [OF at, of ix H] by simp
        then have "part_in ?bs (snd e) (T (fst e))" using part_in_extend [OF bs(2) ext(2)] ext(1) by simp
        then show ?thesis using built_disk_new [OF at, of ix ?H] True by simp
      next
        case False
        have "built_disk ix ?H (p_file (snd e)) = built_disk ix H (p_file (snd e))"
        proof (cases "\<exists>i < 3. p_file (snd e) = new_file ix i")
          case True
          then obtain i where i: "i < 3" "p_file (snd e) = new_file ix i" by blast
          then have "i \<noteq> at" using False by auto
          then show ?thesis using i built_disk_new [OF i(1), of ix] by simp
        qed (auto simp: built_disk_def)
        then show ?thesis using bs by auto
      qed
      moreover have "ix_table ix' = ix_table ix" by (simp add: ix')
      ultimately show ?thesis using pe by (simp add: part_ok_def same)
    qed
    then have "\<forall>e \<in> set (ix_parts ix'). part_ok ix' ?H e (?T (fst e))" using here old by (auto simp: parts)
    with pages show ?thesis by blast
  qed
  have entries: "set (E i) = set (?P i) \<union> built_entries ix' ?T i" if i: "i < 3" for i
  proof -
    have E: "set (E i) = set (P i) \<union> built_entries ix T i" using inv i by (simp add: build_inv_def)
    have "built_entries ix' ?T i = (if i = at then set (P at) else {}) \<union> built_entries ix T i"
      using built_entries_insert [OF parts old, where T = T and ts = "P at" and i = i] kind_index_eq [OF at i] by (auto simp: lo)
    then show ?thesis using E by auto
  qed
  have "build_inv disk ix' ?H ?T ?P E"
    unfolding build_inv_def same using inv main entries slots len3 ok by (simp add: build_inv_def ix')
  then show ?thesis using at len3 by (intro exI [of _ ?H] exI [of _ ?T]) (auto simp: ix' nth_list_update)
qed

section \<open>Appending and reusing\<close>

lemma writer_append_all_snoc:
  "writer_append_all es w = Inr w' \<Longrightarrow> writer_append k v w' = Inr w'' \<Longrightarrow> writer_append_all (es @ [(k, v)]) w = Inr w''"
  by (induction es arbitrary: w) (auto simp: res_simps)

lemma pending_append_ok:
  assumes "pending_append (of_nat at + 3) key v dep p = Inr p'" "pending_ok ix h at p es" "at < 3"
    and "bucket (of_nat at + 3) key = snd (snd (pe_route p))"
  shows "pending_ok ix h at p' (es @ [(key, v)]) \<and> pe_route p' = pe_route p"
proof -
  obtain w where w: "writer_append key v (pe_writer p) = Inr w"
    and p': "pe_writer p' = w" "pe_route p' = pe_route p" "p_file (pe_part p') = p_file (pe_part p)"
      "p_lsn (pe_part p') = p_lsn (pe_part p)" "p_base (pe_part p') = p_base (pe_part p)"
    and slots: "(of_nat at + 3 :: u8) = 3 \<longrightarrow> (\<exists>slot. entity_slot v = Inr slot \<and> p_slots (pe_part p') = bt_insert slot slot (p_slots (pe_part p)))"
    using assms(1) by (auto simp: pending_append_def res_simps Let_def split: if_splits option.splits)
  have kind: "fid_kind (p_file (pe_part p)) = of_nat at + 3"
    using assms(2) by (simp add: pending_ok_def new_file_def file_id_new_def)
  have "slot_kept (pe_part p') v" using slots by (auto simp: slot_kept_def p' kind)
  moreover have "slot_kept (pe_part p') u" if "slot_kept (pe_part p) u" for u
    using that slots by (auto simp: slot_kept_def p' kind)
  moreover have "writer_append_all (es @ [(key, v)]) (writer_from_file h (ix_lsn ix) (ix_next ix ! at)) = Inr w"
    using assms(2) w by (auto simp: pending_ok_def intro: writer_append_all_snoc)
  ultimately show ?thesis using assms(2,4) p' by (auto simp: pending_ok_def)
qed

lemma build_inv_pending:
  assumes inv: "build_inv disk ix H T P E" and at: "at < 3"
    and fields: "ix' = ix\<lparr>ix_pending := (ix_pending ix)[at := Some p], ix_handles := (ix_handles ix)[at := None], ix_disk := d\<rparr>"
    and disk: "\<forall>f. (\<forall>i < 3. f \<noteq> new_file ix i) \<longrightarrow> d f = ix_disk ix f"
    and p: "pending_ok ix (H at) at p es"
    and E': "\<forall>i < 3. set (E' i) \<union> set (P i) = set (E i) \<union> set ((P(at := es)) i)" "set (P at) \<subseteq> set es" "\<forall>i < 3. set (P i) \<subseteq> set (E' i)"
  shows "build_inv disk ix' H T (P(at := es)) E'"
proof -
  have len3: "length (ix_handles ix) = 3" "length (ix_next ix) = 3" "length (ix_pending ix) = 3"
    using inv by (simp_all add: build_inv_def)
  have same: "new_file ix' i = new_file ix i" "built_disk ix' H f = built_disk ix H f" for i f
    using disk by (auto simp: fields new_file_def built_disk_def)
  have "slot_ok ix' H (P(at := es)) i" if "i < 3" for i
  proof (cases "i = at")
    case True
    then show ?thesis using len3 at p by (simp add: slot_ok_def pending_ok_def fields new_file_def)
  next
    case False
    then have "slot_ok ix' H (P(at := es)) i = slot_ok ix H P i" by (intro slot_ok_cong) (simp_all add: fields)
    then show ?thesis using inv that by (simp add: build_inv_def)
  qed
  moreover have "set (E' i) = set ((P(at := es)) i) \<union> built_entries ix' T i" if i: "i < 3" for i
  proof -
    have "set (E i) = set (P i) \<union> built_entries ix T i" using inv i by (simp add: build_inv_def)
    moreover have "set (E' i) \<union> set (P i) = set (E i) \<union> set ((P(at := es)) i)" "set (P i) \<subseteq> set (E' i)" using E' i by blast+
    moreover have "set (P i) \<subseteq> set ((P(at := es)) i)" using E'(2) by simp
    moreover have "built_entries ix' T i = built_entries ix T i" by (simp add: built_entries_def fields)
    ultimately show ?thesis by blast
  qed
  moreover have "part_ok ix' H e ts = part_ok ix H e ts" for e ts by (simp add: part_ok_def same) (simp add: fields)
  ultimately show ?thesis using inv disk len3 unfolding build_inv_def same by (simp add: fields)
qed

lemma indexes_start_inv:
  assumes inv: "build_inv disk ix H T P E" and st: "indexes_start at (of_nat at + 3) rt key ix = Inr ix'" and at: "at < 3"
    and rt: "rt = (ix_table ix, of_nat at + 3, lo)"
  shows "\<exists>H T p. build_inv disk ix' H T (P(at := [])) E \<and> ix_pending ix' ! at = Some p \<and> pe_route p = rt \<and>
    ix_table ix' = ix_table ix \<and> ix_generation ix' = ix_generation ix"
proof -
  obtain ix1 where fl: "indexes_flush at ix = Inr ix1" and nb: "\<not> bt_has (ix_parts ix1) rt"
    and op: "res_bind (indexes_open at (file_id_new (ix_table ix1) (ix_generation ix1) (of_nat at + 3) 0) ix1) (\<lambda>(bs, ix).
         let base = ix_next ix ! at in
         Inr (ix\<lparr>ix_pending := (ix_pending ix)[at := Some \<lparr>pe_writer = writer_from_file bs (ix_lsn ix) base,
           pe_route = rt, pe_part = \<lparr>p_file = file_id_new (ix_table ix1) (ix_generation ix1) (of_nat at + 3) 0, p_lsn = ix_lsn ix,
             p_base = base, p_first = key, p_last = key, p_slots = [], p_dependencies = []\<rparr>\<rparr>]\<rparr>)) = Inr ix'"
    using st by (auto simp: indexes_start_def res_simps Let_def split: if_splits)
  from indexes_flush_inv [OF inv fl at] obtain H1 T1 where i1: "build_inv disk ix1 H1 T1 (P(at := [])) E" "ix_pending ix1 ! at = None"
      "ix_table ix1 = ix_table ix" "ix_generation ix1 = ix_generation ix" "ix_lsn ix1 = ix_lsn ix"
    by blast
  let ?P = "P(at := [])"
  have len3: "length (ix_handles ix1) = 3" "length (ix_pending ix1) = 3" using i1(1) by (simp_all add: build_inv_def)
  have slot: "ix_handles ix1 ! at = Some (H1 at) \<or> ix_handles ix1 ! at = None \<and> H1 at = []"
    using i1(1,2) at by (fastforce simp: build_inv_def slot_ok_def)
  define f where "f = new_file ix1 at"
  define d where "d = (if ix_handles ix1 ! at = None then (ix_disk ix1)(f := Some []) else ix_disk ix1)"
  define p where "p = \<lparr>pe_writer = writer_from_file (H1 at) (ix_lsn ix1) (ix_next ix1 ! at), pe_route = rt,
    pe_part = \<lparr>p_file = f, p_lsn = ix_lsn ix1, p_base = ix_next ix1 ! at, p_first = key, p_last = key, p_slots = [], p_dependencies = []\<rparr>\<rparr>"
  have ix': "ix' = ix1\<lparr>ix_pending := (ix_pending ix1)[at := Some p], ix_handles := (ix_handles ix1)[at := None], ix_disk := d\<rparr>"
  proof (cases "ix_handles ix1 ! at")
    case None
    then have "(ix_handles ix1)[at := None] = ix_handles ix1" by (metis list_update_id)
    then show ?thesis using op slot None
      by (auto simp: indexes_open_def Let_def p_def d_def f_def new_file_def split: if_splits)
  next
    case (Some bs)
    then show ?thesis using op slot by (auto simp: indexes_open_def Let_def p_def d_def f_def new_file_def)
  qed
  have "build_inv disk ix' H1 T1 (?P(at := [])) E"
  proof (rule build_inv_pending [OF i1(1) at ix'])
    show "\<forall>g. (\<forall>i < 3. g \<noteq> new_file ix1 i) \<longrightarrow> d g = ix_disk ix1 g" using at by (auto simp: d_def f_def)
    show "pending_ok ix1 (H1 at) at p []" by (simp add: pending_ok_def p_def f_def rt i1(3))
    show "\<forall>i < 3. set (?P i) \<subseteq> set (E i)" using i1(1) by (auto simp: build_inv_def)
  qed auto
  moreover have "ix_pending ix' ! at = Some p" using len3 at by (simp add: ix')
  ultimately show ?thesis using i1(3,4) by (intro exI [of _ H1] exI [of _ T1] exI [of _ p]) (simp add: ix' p_def)
qed

text \<open>The entries of index \<open>k\<close> that one call adds; \<open>C\<close> gives what the reused partitions hold.\<close>

datatype index_op = AppendEntry u8 index_key index_value "file_id option" | ReusePart route partition

fun index_step :: "root \<Rightarrow> index_op \<Rightarrow> indexes \<Rightarrow> indexes res" where
  "index_step r (AppendEntry kind key v dep) ix = indexes_append kind key v dep ix"
| "index_step r (ReusePart rt part) ix = indexes_reuse rt part r ix"

fun op_entries :: "(partition \<Rightarrow> (index_key \<times> index_value) list) \<Rightarrow> u8 \<Rightarrow> index_op \<Rightarrow> (index_key \<times> index_value) list" where
  "op_entries C k (AppendEntry kind key v dep) = (if kind = k then [(key, v)] else [])"
| "op_entries C k (ReusePart rt part) = (if fst (snd rt) = k then C part else [])"

fun op_ok :: "(file_id \<Rightarrow> bytes option) \<Rightarrow> (partition \<Rightarrow> (index_key \<times> index_value) list) \<Rightarrow> u64 \<Rightarrow> u64 \<Rightarrow> index_op \<Rightarrow> bool" where
  "op_ok disk C t g (AppendEntry kind key v dep) = (3 \<le> kind \<and> kind \<le> 5)"
| "op_ok disk C t g (ReusePart rt part) = (fst rt = t \<and> 3 \<le> fst (snd rt) \<and> fst (snd rt) \<le> 5 \<and> fid_generation (p_file part) \<noteq> g \<and>
     (\<exists>bs. disk (p_file part) = Some bs \<and> part_in bs part (C part)) \<and>
     (\<forall>e \<in> set (C part). bucket (fst (snd rt)) (fst e) = snd (snd rt)))"

lemma indexes_append_inv:
  assumes inv: "build_inv disk ix H T P E" and ap: "indexes_append kind key v dep ix = Inr ix'" and kind: "3 \<le> kind" "kind \<le> 5"
  shows "\<exists>H T P. build_inv disk ix' H T P (\<lambda>i. E i @ op_entries C (of_nat i + 3) (AppendEntry kind key v dep)) \<and>
    ix_table ix' = ix_table ix \<and> ix_generation ix' = ix_generation ix"
proof -
  define at where "at = unat (kind - 3)"
  let ?rt = "(ix_table ix, kind, bucket kind key)"
  have at: "at < 3" and k: "kind = of_nat at + 3" using kind_index [OF kind] by (simp_all add: at_def)
  obtain ix1 p' where st: "(if (case ix_pending ix ! at of None \<Rightarrow> True | Some p \<Rightarrow> pe_route p \<noteq> ?rt)
        then indexes_start at kind ?rt key ix else Inr ix) = Inr ix1"
      and pa: "pending_append kind key v dep (the (ix_pending ix1 ! at)) = Inr p'"
      and ix': "ix' = ix1\<lparr>ix_pending := (ix_pending ix1)[at := Some p']\<rparr>"
    using ap unfolding indexes_append_def Let_def at_def [symmetric] res_bind_Inr_iff by blast
  have "\<exists>H T P p. build_inv disk ix1 H T P E \<and> ix_pending ix1 ! at = Some p \<and> pe_route p = ?rt \<and>
      ix_table ix1 = ix_table ix \<and> ix_generation ix1 = ix_generation ix"
  proof (cases "case ix_pending ix ! at of None \<Rightarrow> True | Some p \<Rightarrow> pe_route p \<noteq> ?rt")
    case True
    then have "indexes_start at (of_nat at + 3) ?rt key ix = Inr ix1" using st k by simp
    from indexes_start_inv [OF inv this at, of "bucket kind key"] show ?thesis using k by blast
  next
    case False
    then have "ix1 = ix" using st by simp
    then show ?thesis using False inv by (cases "ix_pending ix ! at") auto
  qed
  then obtain H1 T1 P1 p where i1: "build_inv disk ix1 H1 T1 P1 E" "ix_pending ix1 ! at = Some p" "pe_route p = ?rt"
      "ix_table ix1 = ix_table ix" "ix_generation ix1 = ix_generation ix" by blast
  have hp: "ix_handles ix1 ! at = None" "pending_ok ix1 (H1 at) at p (P1 at)"
    using i1(1,2) at by (fastforce simp: build_inv_def slot_ok_def)+
  have pk: "pending_ok ix1 (H1 at) at p' (P1 at @ [(key, v)])"
    using pending_append_ok [OF _ hp(2) at, of key v dep p'] pa i1(2,3) k by simp
  have "(ix_handles ix1)[at := None] = ix_handles ix1" using hp(1) by (metis list_update_id)
  then have "ix' = ix1\<lparr>ix_pending := (ix_pending ix1)[at := Some p'], ix_handles := (ix_handles ix1)[at := None], ix_disk := ix_disk ix1\<rparr>"
    by (simp add: ix')
  note ix'' = this
  let ?op = "AppendEntry kind key v dep"
  have op: "op_entries C (of_nat i + 3) ?op = (if i = at then [(key, v)] else [])" if "i < 3" for i
    using kind_index_eq [OF at that] by (auto simp: k)
  have "build_inv disk ix' H1 T1 (P1(at := P1 at @ [(key, v)])) (\<lambda>i. E i @ op_entries C (of_nat i + 3) ?op)"
  proof (rule build_inv_pending [OF i1(1) at ix'' _ pk])
    have sub: "set (P1 i) \<subseteq> set (E i)" if "i < 3" for i using i1(1) that by (simp add: build_inv_def)
    show "\<forall>i < 3. set (E i @ op_entries C (of_nat i + 3) ?op) \<union> set (P1 i) = set (E i) \<union> set ((P1(at := P1 at @ [(key, v)])) i)"
    proof (intro allI impI)
      fix i :: nat assume i: "i < 3"
      show "set (E i @ op_entries C (of_nat i + 3) ?op) \<union> set (P1 i) = set (E i) \<union> set ((P1(at := P1 at @ [(key, v)])) i)"
        using sub [OF i] unfolding op [OF i] by auto
    qed
    show "\<forall>i < 3. set (P1 i) \<subseteq> set (E i @ op_entries C (of_nat i + 3) ?op)" using sub by auto
  qed auto
  then show ?thesis using i1(4,5) by (auto simp: ix')
qed

lemma indexes_reuse_inv:
  assumes inv: "build_inv disk ix H T P E" and ru: "indexes_reuse rt part r ix = Inr ix'"
    and ok: "op_ok disk C (ix_table ix) (ix_generation ix) (ReusePart rt part)"
  shows "\<exists>H T P. build_inv disk ix' H T P (\<lambda>i. E i @ op_entries C (of_nat i + 3) (ReusePart rt part)) \<and>
    ix_table ix' = ix_table ix \<and> ix_generation ix' = ix_generation ix"
proof -
  define at where "at = unat (fst (snd rt) - 3)"
  have at: "at < 3" and k: "fst (snd rt) = of_nat at + 3" using kind_index ok by (auto simp: at_def)
  obtain ix1 info where fl: "indexes_flush at ix = Inr ix1" and new: "\<not> bt_has (ix_parts ix1) rt"
      and ix': "ix' = ix1\<lparr>ix_files := bt_insert (file_info_id info) info (ix_files ix1), ix_parts := bt_insert rt part (ix_parts ix1)\<rparr>"
    using ru by (auto simp: indexes_reuse_def at_def res_simps split: if_splits)
  from indexes_flush_inv [OF inv fl at] obtain H1 T1 where i1: "build_inv disk ix1 H1 T1 (P(at := [])) E"
      "ix_table ix1 = ix_table ix" "ix_generation ix1 = ix_generation ix" by blast
  let ?T = "T1(rt := C part)" and ?E = "\<lambda>i. E i @ op_entries C (of_nat i + 3) (ReusePart rt part)"
  have same: "new_file ix' i = new_file ix1 i" "built_disk ix' H1 f = built_disk ix1 H1 f" for i f
    by (auto simp: ix' new_file_def built_disk_def)
  have parts: "set (ix_parts ix') = insert (rt, part) (set (ix_parts ix1))" using set_bt_insert_new [OF new] by (simp add: ix')
  have old: "fst e \<noteq> rt" if "e \<in> set (ix_parts ix1)" for e
    using new that by (metis bt_has_def map_of_eq_None_iff image_eqI)
  have pk: "part_ok ix' H e ts = part_ok ix1 H e ts" if "H = H1" for H e ts
    using that by (simp add: part_ok_def same) (simp add: ix')
  have "\<forall>i < 3. p_file part \<noteq> new_file ix1 i" using ok i1(3) by (auto simp: new_file_def file_id_new_def)
  then have "built_disk ix1 H1 (p_file part) = disk (p_file part)" using i1(1) by (auto simp: built_disk_def build_inv_def)
  then have "part_ok ix1 H1 (rt, part) (C part)" using ok i1(2) by (auto simp: part_ok_def)
  then have "\<forall>e \<in> set (ix_parts ix'). part_ok ix' H1 e (?T (fst e))" if "lens H1"
    using i1(1) that old by (auto simp: parts pk build_inv_def)
  moreover have "set (?E i) = set ((P(at := [])) i) \<union> built_entries ix' ?T i" if i: "i < 3" for i
  proof -
    have "built_entries ix' ?T i = (if i = at then set (C part) else {}) \<union> built_entries ix1 T1 i"
      using built_entries_insert [OF parts old, where T = T1 and ts = "C part" and i = i] kind_index_eq [OF at i] by (auto simp: k)
    moreover have "set (E i) = set ((P(at := [])) i) \<union> built_entries ix1 T1 i" using i1(1) i by (simp add: build_inv_def)
    ultimately show ?thesis using kind_index_eq [OF at i] by (auto simp: k)
  qed
  moreover have "slot_ok ix' H1 (P(at := [])) i = slot_ok ix1 H1 (P(at := [])) i" for i by (rule slot_ok_cong) (simp_all add: ix')
  ultimately have "build_inv disk ix' H1 ?T (P(at := [])) ?E"
    using i1(1) unfolding build_inv_def same by (simp add: ix')
  then show ?thesis using i1(2,3) by (auto simp: ix')
qed

section \<open>A whole run\<close>

lemma nth_three: "at < 3 \<Longrightarrow> [x, x, x] ! at = x"
proof -
  assume "at < 3"
  then have "at \<in> {0, 1, 2}" by auto
  then show ?thesis by auto
qed

lemma build_inv_new: "build_inv disk (indexes_new disk t g lsn limit) (\<lambda>_. []) T (\<lambda>_. []) (\<lambda>_. [])"
  by (simp add: build_inv_def indexes_new_def slot_ok_def built_entries_def nth_three)

lemma index_run_inv:
  assumes "res_fold (index_step r) ops ix = Inr ix'" "build_inv disk ix H T P E"
    and "\<forall>op \<in> set ops. op_ok disk C (ix_table ix) (ix_generation ix) op"
  shows "\<exists>H T P. build_inv disk ix' H T P (\<lambda>i. E i @ concat (map (op_entries C (of_nat i + 3)) ops)) \<and>
    ix_table ix' = ix_table ix \<and> ix_generation ix' = ix_generation ix"
  using assms
proof (induction ops arbitrary: ix H T P E)
  case (Cons op ops)
  then obtain ix1 where st: "index_step r op ix = Inr ix1" and rest: "res_fold (index_step r) ops ix1 = Inr ix'"
    by (auto simp: res_simps)
  have "\<exists>H T P. build_inv disk ix1 H T P (\<lambda>i. E i @ op_entries C (of_nat i + 3) op) \<and>
      ix_table ix1 = ix_table ix \<and> ix_generation ix1 = ix_generation ix"
  proof (cases op)
    case (AppendEntry kind key v dep)
    then show ?thesis using indexes_append_inv [OF Cons.prems(2), of kind key v dep ix1 C] st Cons.prems(3) by simp
  next
    case (ReusePart rt part)
    then show ?thesis using indexes_reuse_inv [OF Cons.prems(2), of rt part r ix1 C] st Cons.prems(3) by simp
  qed
  then obtain H1 T1 P1 where i1: "build_inv disk ix1 H1 T1 P1 (\<lambda>i. E i @ op_entries C (of_nat i + 3) op)"
      "ix_table ix1 = ix_table ix" "ix_generation ix1 = ix_generation ix" by blast
  show ?case using Cons.IH [OF rest i1(1)] Cons.prems(3) i1(2,3) by simp
qed auto

lemma flush_all_inv:
  assumes "res_fold indexes_flush [0, 1, 2] ix = Inr ix'" "build_inv disk ix H T P E"
  shows "\<exists>H T P. build_inv disk ix' H T P E \<and> (\<forall>at < 3. ix_pending ix' ! at = None) \<and>
    ix_table ix' = ix_table ix \<and> ix_generation ix' = ix_generation ix"
proof -
  obtain ix1 ix2 where fl: "indexes_flush 0 ix = Inr ix1" "indexes_flush 1 ix1 = Inr ix2" "indexes_flush 2 ix2 = Inr ix'"
    using assms(1) by (auto simp: res_simps)
  from indexes_flush_inv [OF assms(2) fl(1)] obtain H1 T1 where 1: "build_inv disk ix1 H1 T1 (P(0 := [])) E" "ix_pending ix1 ! 0 = None"
      "ix_table ix1 = ix_table ix" "ix_generation ix1 = ix_generation ix" by auto
  from indexes_flush_inv [OF 1(1) fl(2)] obtain H2 T2 where 2: "build_inv disk ix2 H2 T2 (P(0 := [], 1 := [])) E" "ix_pending ix2 ! 1 = None"
      "ix_table ix2 = ix_table ix" "ix_generation ix2 = ix_generation ix" "ix_pending ix2 ! 0 = None" using 1(2-4) by auto
  from indexes_flush_inv [OF 2(1) fl(3)] obtain H3 T3 where 3: "build_inv disk ix' H3 T3 (P(0 := [], 1 := [], 2 := [])) E"
      "ix_pending ix' ! 2 = None" "ix_table ix' = ix_table ix" "ix_generation ix' = ix_generation ix"
      "ix_pending ix' ! 0 = None" "ix_pending ix' ! 1 = None" using 2(2-5) by auto
  have "ix_pending ix' ! at = None" if "at < 3" for at
  proof -
    have "at = 0 \<or> at = 1 \<or> at = 2" using that by auto
    then show ?thesis using 3(2,5,6) by auto
  qed
  then show ?thesis using 3(1,3,4) by blast
qed

lemma indexes_sync_fields:
  "ix_handles (indexes_sync at ix) = ix_handles ix" "ix_table (indexes_sync at ix) = ix_table ix"
  "ix_generation (indexes_sync at ix) = ix_generation ix" "ix_parts (indexes_sync at ix) = ix_parts ix"
  "ix_disk (indexes_sync at ix) = (case ix_handles ix ! at of None \<Rightarrow> ix_disk ix | Some bs \<Rightarrow> (ix_disk ix)(new_file ix at := Some bs))"
  "new_file (indexes_sync at ix) i = new_file ix i"
  by (auto simp: indexes_sync_def Let_def new_file_def split: option.splits)

lemma new_file_eq: "i < 3 \<Longrightarrow> j < 3 \<Longrightarrow> (new_file ix i = new_file ix j) = (i = j)"
  using kind_index_eq by (auto simp: new_file_def file_id_new_def)

lemma finished_root_holds:
  assumes inv: "build_inv disk ix H T P E" and none: "\<forall>at < 3. ix_pending ix ! at = None"
    and ix': "ix' = fold indexes_sync [0, 1, 2] ix" and sz: "\<forall>f bs. ix_disk ix' f = Some bs \<longrightarrow> length bs < 2 ^ 60"
    and st: "st_disk st = ix_disk ix'" "r_partitions r = ix_parts ix'" and at: "at < 3"
  shows "\<exists>ts. root_holds (r, st, ix_table ix, of_nat at + 3) ts \<and> set ts = set (E at)"
proof -
  have slot: "ix_handles ix ! i = Some (H i) \<or> ix_handles ix ! i = None \<and> H i = []" "P i = []" if "i < 3" for i
    using inv none that by (auto simp: build_inv_def slot_ok_def)
  have disk: "ix_disk ix' (new_file ix i) = Some (H i)" if i: "i < 3" "H i \<noteq> []" for i
  proof -
    have h: "ix_handles ix ! i = Some (H i)" using slot(1) i by blast
    have "i = 0 \<or> i = 1 \<or> i = 2" using i(1) by auto
    then show ?thesis using h
      by (elim disjE) (auto simp: ix' indexes_sync_fields new_file_eq split: option.splits)
  qed
  have other: "ix_disk ix' f = ix_disk ix f" if "\<forall>i < 3. f \<noteq> new_file ix i" for f
    using that by (auto simp: ix' indexes_sync_fields split: option.splits)
  have lens: "lens H"
    unfolding lens_def
  proof (intro allI impI)
    fix i :: nat assume i: "i < 3"
    show "length (H i) < 2 ^ 60"
    proof (cases "H i = []")
      case False
      then show ?thesis using disk [OF i] sz by blast
    qed simp
  qed
  have parts: "ix_parts ix' = ix_parts ix" by (simp add: ix' indexes_sync_fields)
  have ok: "bt_ok (ix_parts ix)" using inv by (simp add: build_inv_def)
  have holds: "fst (fst e) = ix_table ix \<and> part_holds (st, snd e) (T (fst e)) \<and>
      (\<forall>t \<in> set (T (fst e)). bucket (fst (snd (fst e))) (fst t) = snd (snd (fst e)))" if e: "e \<in> set (ix_parts ix)" for e
  proof -
    have "part_ok ix H e (T (fst e))" using inv lens e by (simp add: build_inv_def)
    then obtain bs where bs: "built_disk ix H (p_file (snd e)) = Some bs" "part_in bs (snd e) (T (fst e))"
      and po: "fst (fst e) = ix_table ix" "\<forall>t \<in> set (T (fst e)). bucket (fst (snd (fst e))) (fst t) = snd (snd (fst e))"
      by (auto simp: part_ok_def)
    have ne: "bs \<noteq> []" using bs(2) finish_part_length(2) by (auto simp: part_in_def)
    have "ix_disk ix' (p_file (snd e)) = Some bs"
    proof (cases "\<exists>i < 3. p_file (snd e) = new_file ix i")
      case True
      then obtain i where i: "i < 3" "p_file (snd e) = new_file ix i" by blast
      then have "H i = bs" using bs(1) built_disk_new [OF i(1), of ix H] by simp
      then show ?thesis using disk i ne by simp
    next
      case False
      then have "built_disk ix H (p_file (snd e)) = ix_disk ix (p_file (snd e))" by (auto simp: built_disk_def)
      then show ?thesis using bs(1) other False by simp
    qed
    then show ?thesis using bs(2) po sz st(1) by (auto simp: part_holds_def)
  qed
  let ?k = "of_nat at + 3 :: u8" and ?T = "\<lambda>lo. T (ix_table ix, of_nat at + 3, lo)"
  let ?L = "table_parts r (ix_table ix) ?k"
  let ?ts = "concat (map (\<lambda>p. ?T (fst p)) ?L)"
  have mem: "p \<in> set ?L \<longleftrightarrow> ((ix_table ix, ?k, fst p), snd p) \<in> set (ix_parts ix)" for p
    by (cases p) (force simp: table_parts_def st(2) parts)
  have "root_holds (r, st, ix_table ix, ?k) ?ts"
    unfolding root_holds_def prod.case
  proof (intro conjI exI [of _ ?T])
    show "\<forall>p \<in> set ?L. part_holds (st, snd p) (?T (fst p)) \<and> (\<forall>e \<in> set (?T (fst p)). bucket ?k (fst e) = fst p)"
    proof (intro ballI)
      fix p assume "p \<in> set ?L"
      then have "((ix_table ix, ?k, fst p), snd p) \<in> set (ix_parts ix)" using mem by blast
      from holds [OF this] show "part_holds (st, snd p) (?T (fst p)) \<and> (\<forall>e \<in> set (?T (fst p)). bucket ?k (fst e) = fst p)"
        by simp
    qed
  qed (use ok in \<open>simp_all add: st(2) parts\<close>)
  moreover have "set ?ts = set (E at)"
  proof -
    have "set ?ts = (\<Union>p \<in> set ?L. set (?T (fst p)))" by auto
    also have "\<dots> = built_entries ix T at"
    proof -
      have "{e \<in> set (ix_parts ix). fst (snd (fst e)) = ?k} = (\<lambda>p. ((ix_table ix, ?k, fst p), snd p)) ` set ?L"
      proof (intro set_eqI iffI)
        fix e assume "e \<in> {e \<in> set (ix_parts ix). fst (snd (fst e)) = ?k}"
        then have e: "e \<in> set (ix_parts ix)" "e = ((ix_table ix, ?k, snd (snd (fst e))), snd e)"
          using holds [of e] by (cases e; auto)+
        then show "e \<in> (\<lambda>p. ((ix_table ix, ?k, fst p), snd p)) ` set ?L"
          using mem [of "(snd (snd (fst e)), snd e)"] by (intro image_eqI [of _ _ "(snd (snd (fst e)), snd e)"]) simp_all
      qed (use mem in auto)
      then show ?thesis by (simp add: built_entries_def)
    qed
    also have "\<dots> = set (E at)" using inv at slot(2) [OF at] by (simp add: build_inv_def)
    finally show ?thesis .
  qed
  ultimately show ?thesis by blast
qed

section \<open>Properties\<close>

text \<open>
  C39 (scan_ends): a scan of any index file, corrupt or not, yields a bounded number of items: at most
  a full page of entries for every page of the file, and one error. Drawing more items than the bound
  draws nothing more.
\<close>

theorem scan_ends:
  assumes "index_scan_at st f lsn base lower upper = Inr c"
  shows "cursor_run (scan_bound st f + k) st c = index_items st f lsn base lower upper"
  using cursor_run_bound [OF assms] by (simp add: index_items_def assms)

text \<open>
  C22 (partitions_searchable): whatever the builder was given, entries appended in any order of buckets
  and sealed partitions reused from older files, once it has finished, routed lookups, floors and
  scans over its partitions are the operations of the one sorted list of all those entries; they visit
  only the partitions of the buckets concerned, and never fail.
\<close>

theorem partitions_searchable:
  assumes run: "res_fold (index_step old) ops (indexes_new disk table g lsn limit) = Inr ix" "indexes_finish ix = Inr ix'"
    and ok: "\<forall>op \<in> set ops. op_ok disk C table g op" and size: "\<forall>f bs. ix_disk ix' f = Some bs \<longrightarrow> length bs < 2 ^ 60"
    and st: "st_disk st = ix_disk ix'" "r_partitions r = ix_parts ix'" and kind: "3 \<le> kind" "kind \<le> 5"
  shows "\<exists>ts. bt_ok ts \<and> set ts = set (concat (map (op_entries C kind) ops)) \<and>
    lookup_index r st table kind key = Inr (map_of ts key) \<and> floor_index r st table kind key = Inr (floor_list ts key) \<and>
    scan_index r st table kind lower upper = map Inr (range_list ts lower upper)"
proof -
  define at where "at = unat (kind - 3)"
  have at: "at < 3" "kind = of_nat at + 3" using kind_index [OF kind] by (simp_all add: at_def)
  have tg: "ix_table (indexes_new disk table g lsn limit) = table" "ix_generation (indexes_new disk table g lsn limit) = g"
    by (simp_all add: indexes_new_def)
  obtain H T P where 1: "build_inv disk ix H T P (\<lambda>i. concat (map (op_entries C (of_nat i + 3)) ops))" "ix_table ix = table"
    using index_run_inv [OF run(1) build_inv_new, of C] ok tg by auto
  obtain ix1 where fl: "res_fold indexes_flush [0, 1, 2] ix = Inr ix1" and ix': "ix' = fold indexes_sync [0, 1, 2] ix1"
    using run(2) by (auto simp: indexes_finish_def res_bind_Inr_iff simp del: res_fold.simps)
  obtain H T P where 2: "build_inv disk ix1 H T P (\<lambda>i. concat (map (op_entries C (of_nat i + 3)) ops))"
      "\<forall>at < 3. ix_pending ix1 ! at = None" "ix_table ix1 = table"
    using flush_all_inv [OF fl 1(1)] 1(2) by auto
  from finished_root_holds [OF 2(1,2) ix' size st at(1)] obtain ts where
      ts: "root_holds (r, st, table, kind) ts" "set ts = set (concat (map (op_entries C kind) ops))"
    using 2(3) at(2) by auto
  show ?thesis
    using root_index.holds_ok [OF ts(1)] root_index.look_holds [OF ts(1), of key] root_index.floor_holds [OF ts(1), of key]
      root_index.items_holds [OF ts(1), of lower upper] ts(2)
    by (intro exI [of _ ts]) (simp add: root_look_def root_floor_def root_items_def)
qed

lemma scan_ends_witness:
  "\<exists>w c. index_scan_at (open_store (\<lambda>_. Some (finish_part w))) (file_id_new 1 1 3 0) 7 0 (0, 0) (9, 9) = Inr c \<and>
     cursor_run (scan_bound (open_store (\<lambda>_. Some (finish_part w))) (file_id_new 1 1 3 0) + 5)
       (open_store (\<lambda>_. Some (finish_part w))) c = [Inr ((1, 2), (3, 4))]"
proof -
  obtain w where w: "writer_append_all [((1, 2), (3, 4))] (writer_from_file [] 7 (of_nat 0)) = Inr w"
      "length (finish_part w) = 2 * PAGE_SIZE"
    using one_entry_part by blast
  let ?st = "open_store (\<lambda>_. Some (finish_part w))" and ?f = "file_id_new 1 1 3 0"
  have items: "index_items ?st ?f 7 (of_nat 0) (0, 0) (9, 9) = map Inr (range_list [((1, 2), (3, 4))] (0, 0) (9, 9))"
    by (rule index_part_reads(4) [OF w(1), where post = "[]"]) (use w(2) in \<open>simp_all add: PAGE_SIZE_def\<close>)
  then obtain c where c: "index_scan_at ?st ?f 7 (of_nat 0) (0, 0) (9, 9) = Inr c"
    by (cases "index_scan_at ?st ?f 7 (of_nat 0) (0, 0) (9, 9)") (simp_all add: index_items_def range_list_def less_eq_prod_def)
  show ?thesis using scan_ends [OF c, of 5] items c by (auto simp: range_list_def less_eq_prod_def)
qed

lemma partitions_searchable_witness:
  "\<exists>ix ix'. indexes_append 4 (1, 2) (3, 4) None (indexes_new (\<lambda>_. None) 1 1 7 9) = Inr ix \<and> indexes_finish ix = Inr ix' \<and>
     lookup_index (root_empty\<lparr>r_partitions := ix_parts ix'\<rparr>) (open_store (ix_disk ix')) 1 4 (1, 2) = Inr (Some (3, 4))"
proof -
  let ?new = "indexes_new (\<lambda>_. None) 1 1 7 9" and ?f = "file_id_new 1 1 4 0"
  obtain w where w: "writer_append (1, 2) (3, 4) (writer_from_file [] 7 0) = Inr w" "length (finish_part w) = 2 * PAGE_SIZE"
    using one_entry_part [of "((1, 2), (3, 4))"] by (auto simp: res_simps)
  define part where "part = \<lparr>p_file = ?f, p_lsn = 7, p_base = 0, p_first = (1, 2), p_last = (1, 2), p_slots = [], p_dependencies = []\<rparr>"
  define ix where "ix = ?new\<lparr>ix_disk := (\<lambda>_. None)(?f := Some []), ix_pending := [None,
    Some \<lparr>pe_writer = w, pe_route = (1, 4, bucket 4 (1, 2)), pe_part = part\<rparr>, None]\<rparr>"
  have ap: "indexes_append 4 (1, 2) (3, 4) None ?new = Inr ix"
    using w(1) by (simp add: indexes_append_def indexes_start_def indexes_flush_def indexes_admit_def indexes_open_def
        pending_append_def indexes_new_def ix_def part_def Let_def bt_has_def)
  define ix' where "ix' = fold indexes_sync [0, 1, 2] (ix\<lparr>ix_pending := [None, None, None], ix_next := [0, 2, 0],
    ix_handles := [None, Some (finish_part w), None], ix_parts := [((1, 4, bucket 4 (1, 2)), part)]\<rparr>)"
  have fin: "indexes_finish ix = Inr ix'"
    using w(2) by (simp add: indexes_finish_def ix'_def indexes_flush_def ix_def indexes_new_def Let_def bt_has_def PAGE_SIZE_def)
  have disk: "ix_disk ix' = (\<lambda>_. None)(?f := Some (finish_part w))"
    by (simp add: ix'_def indexes_sync_fields new_file_def) (simp add: ix_def indexes_new_def)
  have "\<exists>ts. bt_ok ts \<and> set ts = set (concat (map (op_entries (\<lambda>_. []) 4) [AppendEntry 4 (1, 2) (3, 4) None])) \<and>
      lookup_index (root_empty\<lparr>r_partitions := ix_parts ix'\<rparr>) (open_store (ix_disk ix')) 1 4 (1, 2) = Inr (map_of ts (1, 2)) \<and>
      floor_index (root_empty\<lparr>r_partitions := ix_parts ix'\<rparr>) (open_store (ix_disk ix')) 1 4 (1, 2) = Inr (floor_list ts (1, 2)) \<and>
      scan_index (root_empty\<lparr>r_partitions := ix_parts ix'\<rparr>) (open_store (ix_disk ix')) 1 4 (1, 2) (1, 2) = map Inr (range_list ts (1, 2) (1, 2))"
    by (rule partitions_searchable [OF _ fin, of root_empty _ "\<lambda>_. None" 1 1 7 9])
       (use ap disk w(2) in \<open>simp_all add: PAGE_SIZE_def\<close>)
  then obtain ts where ts: "bt_ok ts" "set ts = set (concat (map (op_entries (\<lambda>_. []) 4) [AppendEntry 4 (1, 2) (3, 4) None]))"
      "lookup_index (root_empty\<lparr>r_partitions := ix_parts ix'\<rparr>) (open_store (ix_disk ix')) 1 4 (1, 2) = Inr (map_of ts (1, 2))"
    by blast
  have "map_of ts (1, 2) = Some (3, 4)" using ts(1,2) by (simp add: bt_ok_mem_iff)
  then show ?thesis using ap fin ts(3) by auto
qed

end
