(* ===== verification/History_Laws.thy ===== *)
theory History_Laws
  imports History Partition_Build
begin

text \<open>
  The laws of reading history: a history record and the frame around it are read back unchanged
  whether compressed or not, and an old version is reconstructed from whatever base and snapshots
  are there to the one state the events define.
\<close>

section \<open>Run-length encoding\<close>

lemma run_length_spec:
  assumes "c \<le> 255"
  shows "c \<le> run_length v bs c \<and> run_length v bs c \<le> 255 \<and> run_length v bs c - c \<le> length bs \<and>
    take (run_length v bs c - c) bs = replicate (run_length v bs c - c) v"
  using assms
proof (induction v bs c rule: run_length.induct)
  case (2 v b bs c)
  show ?case
  proof (cases "c < 255 \<and> b = v")
    case True
    then have IH: "c + 1 \<le> run_length v bs (c + 1)" "run_length v bs (c + 1) \<le> 255"
        "run_length v bs (c + 1) - (c + 1) \<le> length bs"
        "take (run_length v bs (c + 1) - (c + 1)) bs = replicate (run_length v bs (c + 1) - (c + 1)) v"
      using 2 by simp_all
    have "run_length v bs (c + 1) - c = Suc (run_length v bs (c + 1) - (c + 1))" using IH(1) by simp
    then show ?thesis using True IH by simp
  qed (use 2 in auto)
qed simp

lemma even_rle: "even (length (rle_encode bs))"
  by (induction bs rule: rle_encode.induct) (simp_all add: rle_encode.simps(2) Let_def)

lemma rle_roundtrip:
  "length result + length bs \<le> limit \<Longrightarrow> rle_decode limit result (rle_encode bs) = Inr (result @ bs)"
proof (induction bs arbitrary: result rule: rle_encode.induct)
  case (2 b bs)
  define count where "count = run_length b bs 1"
  have c: "1 \<le> count" "count \<le> 255" "count - 1 \<le> length bs" "take (count - 1) bs = replicate (count - 1) b"
    using run_length_spec [of 1 b bs] by (simp_all add: count_def)
  have n: "unat (of_nat count :: u8) = count" using c(2) by (simp add: unat_of_nat)
  then have nz: "(of_nat count :: u8) \<noteq> 0" using c(1) by (metis not_one_le_zero unat_0)
  have "replicate count b = b # replicate (count - 1) b" using c(1) by (cases count) simp_all
  then have whole: "replicate count b @ drop (count - 1) bs = b # bs"
    using append_take_drop_id [of "count - 1" bs] unfolding c(4) by simp
  have fits: "length (result @ replicate count b) + length (drop (count - 1) bs) \<le> limit" using 2(2) c(1,3) by simp
  have eq: "rle_encode (b # bs) = of_nat count # b # rle_encode (drop (count - 1) bs)"
    by (simp add: rle_encode.simps(2) Let_def count_def)
  from 2(1) [OF count_def fits] show ?case using 2(2) c(2,3) n nz whole by (simp add: eq)
qed simp

lemma unpack_pack:
  assumes "length bs \<le> MAX_RECORD" "st_scratch st (length bs) = Inr ()"
  shows "history_unpack st (history_pack ent bs compress) = Inr (ent, bs)"
proof -
  define rle where "rle = (compress \<and> length (rle_encode bs) < length bs)"
  let ?body = "if rle then rle_encode bs else bs"
  have p: "history_pack ent bs compress = le64 ent @ [if rle then 1 else 0] @ le32 (of_nat (length bs)) @ ?body"
    by (auto simp: history_pack_def rle_def Let_def)
  have "length bs < 2 ^ 32" using assms(1) by (simp add: MAX_RECORD_def)
  then have n: "unat (of_nat (length bs) :: u32) = length bs" by (simp add: unat_of_nat)
  have parts: "take 8 (history_pack ent bs compress) = le64 ent" "history_pack ent bs compress ! 8 = (if rle then 1 else 0)"
      "take 4 (drop 9 (history_pack ent bs compress)) = le32 (of_nat (length bs))" "drop 13 (history_pack ent bs compress) = ?body"
      "length (history_pack ent bs compress) = 13 + length ?body"
    unfolding p by (simp_all add: nth_append)
  have "rle_decode (length bs) [] (rle_encode bs) = Inr bs" using rle_roundtrip [of "[]" bs "length bs"] by simp
  then show ?thesis unfolding history_unpack_def Let_def parts
    using assms n even_rle [of bs] by (auto simp: even_iff_mod_2_eq_zero)
qed

section \<open>Locations of events\<close>

lemma event_split_location:
  assumes "event_location segment offset = Inr l"
  shows "event_split l = (segment, offset)"
proof -
  have b: "segment \<le> 65535" "offset < push_bit 48 1" and l: "l = push_bit 48 segment OR offset"
    using assms by (auto simp: event_location_def not_le not_less split: if_splits)
  have off: "\<not> bit offset n" if "48 \<le> n" for n
  proof -
    have "(2 :: nat) ^ 48 \<le> 2 ^ n" using that by (intro power_increasing) auto
    moreover have "unat offset < 2 ^ 48" using b(2) by (simp add: word_less_nat_alt)
    ultimately have "unat offset < 2 ^ n" by linarith
    then have "\<not> bit (unat offset) n" by (simp add: bit_iff_odd)
    then show ?thesis by (simp add: bit_unsigned_iff)
  qed
  have seg: "\<not> bit segment n" if "16 \<le> n" for n
  proof -
    have "(2 :: nat) ^ 16 \<le> 2 ^ n" using that by (intro power_increasing) auto
    moreover have "unat segment < 2 ^ 16" using b(1) by (simp add: word_le_nat_alt)
    ultimately have "unat segment < 2 ^ n" by linarith
    then have "\<not> bit (unat segment) n" by (simp add: bit_iff_odd)
    then show ?thesis by (simp add: bit_unsigned_iff)
  qed
  have mask: "push_bit 48 1 - 1 = (mask 48 :: u64)" by (simp add: mask_eq_exp_minus_1)
  have "drop_bit 48 l = segment"
    by (rule bit_word_eqI) (use seg in \<open>auto simp: l bit_simps off not_less [symmetric]\<close>)
  moreover have "l AND mask 48 = offset"
    by (rule bit_word_eqI) (use off in \<open>auto simp: l bit_simps not_less [symmetric]\<close>)
  ultimately show ?thesis unfolding event_split_def mask by (rule arg_cong2)
qed

section \<open>Reading an event back\<close>

lemma frame_read_at_complete:
  assumes "frame_encode k l p = Inr fr" "bs = pre @ fr @ post" "length bs < 2 ^ 64"
  shows "payload_size_at bs (length pre) (length bs) = Inr (length p)"
    and "frame_read_at bs (length pre) (length bs) = Inr (Some \<lparr>fr_kind = k, fr_lsn = l, fr_payload = p\<rparr>)"
proof -
  let ?f = "\<lparr>file_bytes = bs, file_pos = length pre\<rparr>"
  have "frame_read ?f = Inr (Some \<lparr>fr_kind = k, fr_lsn = l, fr_payload = p\<rparr>, ?f\<lparr>file_pos := length pre + length fr\<rparr>)"
    using frame_read_complete [OF assms(1), of ?f post] assms(2) by simp
  then show "frame_read_at bs (length pre) (length bs) = Inr (Some \<lparr>fr_kind = k, fr_lsn = l, fr_payload = p\<rparr>)"
    using frame_read_at_agrees [of "length bs" ?f] assms(2) by simp
  obtain h where h: "fr = h @ p @ ascii ''EVCOMMIT''" "length h = 32"
      "header_length h = Inr (of_nat (length p))" "unat (of_nat (length p) :: u64) = length p"
    using frame_encode_parts [OF assms(1)] by metis
  then have "read_exact_at bs (length pre) 32 = Inr h" using assms(2) by (simp add: read_exact_at_def)
  then show "payload_size_at bs (length pre) (length bs) = Inr (length p)"
    using h assms(2,3) by (simp add: payload_size_at_def)
qed

text \<open>An event as the history segment stores it: packed, framed, somewhere in the segment's file.\<close>

definition event_stored :: "root \<Rightarrow> store \<Rightarrow> u64 \<Rightarrow> u64 \<Rightarrow> event \<Rightarrow> index_value \<Rightarrow> bool" where
  "event_stored r st table ent ev location = (\<exists>pre fr post segment compress.
     bt_has (r_history_generations r) (fst location) \<and> event_location segment (of_nat (length pre)) = Inr (snd location) \<and>
     frame_encode 3 (ev_transaction ev) (history_pack ent (encode_event ev) compress) = Inr fr \<and>
     st_disk st (file_id_new table (fst location) 6 segment) = Some (pre @ fr @ post) \<and> length (pre @ fr @ post) < 2 ^ 63)"

definition event_admitted :: "store \<Rightarrow> event \<Rightarrow> bool" where
  "event_admitted st ev = (fields_ok (ev_fields ev) \<and> length (encode_event ev) \<le> MAX_RECORD \<and> st_event_size st < 2 ^ 32 \<and>
     (\<forall>n. st_scratch st n = Inr ()) \<and> (\<forall>n. st_decoded st n = Inr ()))"

lemma event_at_if_stored:
  assumes "event_stored r st table ent ev location" "event_admitted st ev"
  shows "event_at_if r st table location admit s =
    res_bind (admit (event_bytes (st\<lparr>st_capacity := length\<rparr>) ev) s) (\<lambda>(go, s).
      if go then Inr (Some (ent, ev, ev_transaction ev), s) else Inr (None, s))"
proof -
  obtain pre fr post segment compress where s: "bt_has (r_history_generations r) (fst location)"
      "event_location segment (of_nat (length pre)) = Inr (snd location)"
      "frame_encode 3 (ev_transaction ev) (history_pack ent (encode_event ev) compress) = Inr fr"
      "st_disk st (file_id_new table (fst location) 6 segment) = Some (pre @ fr @ post)" "length (pre @ fr @ post) < 2 ^ 63"
    using assms(1) by (auto simp: event_stored_def)
  let ?bs = "pre @ fr @ post"
  have split: "event_split (snd location) = (segment, of_nat (length pre))" by (rule event_split_location [OF s(2)])
  have off: "unat (of_nat (length pre) :: u64) = length pre" using s(5) by (simp add: unat_of_nat)
  have adm: "fields_ok (ev_fields ev)" "length (encode_event ev) \<le> MAX_RECORD" "st_event_size st < 2 ^ 32"
      "st_scratch st n = Inr ()" "st_decoded st n = Inr ()" for n
    using assms(2) by (auto simp: event_admitted_def)
  have len: "length ?bs < 2 ^ 64" using s(5) by simp
  have el: "length (encode_fields (ev_fields ev)) < 2 ^ 62" using adm(2) by (simp add: encode_event_def MAX_RECORD_def)
  have rb: "record_bytes (encode_event ev) (st_event_size st) = Inr (event_bytes (st\<lparr>st_capacity := length\<rparr>) ev)"
    using record_bytes_encoded [OF adm(1) el adm(3)] fields_bytes_exact by (simp add: encode_event_def event_bytes_def)
  have de: "decode_event (encode_event ev) = Inr ev"
    using decode_encode_event [OF adm(1)] adm(2) by (simp add: MAX_RECORD_def)
  show ?thesis
    unfolding event_at_if_def split Let_def prod.case off s(4)
      res_bind.simps ok_or.simps frame_read_at_complete [OF s(3) refl len] adm(4)
    using s(1) unpack_pack [of "encode_event ev" st ent compress] adm(2,4,5) rb de
    by (simp add: case_prod_unfold cong: res_bind_cong) (cases "admit (event_bytes (st\<lparr>st_capacity := length\<rparr>) ev) s"; simp)
qed

lemma event_at_stored:
  "event_stored r st table ent ev location \<Longrightarrow> event_admitted st ev \<Longrightarrow>
   event_at r st table location = Inr (ent, ev, ev_transaction ev)"
  by (simp add: event_at_def event_at_if_stored)

section \<open>Reconstructing a version\<close>

lemma bt_eq_setI: "bt_ok m \<Longrightarrow> bt_ok n \<Longrightarrow> set m = set n \<Longrightarrow> m = n"
proof (rule bt_eqI)
  assume ok: "bt_ok m" "bt_ok n" and eq: "set m = set n"
  have "map_of m k = Some v \<longleftrightarrow> map_of n k = Some v" for k v using ok eq by (simp add: bt_ok_mem_iff)
  then show "map_of m = map_of n" by (metis ext not_None_eq)
qed

text \<open>The index of the events of one entity, read between two versions, lists exactly those between.\<close>

definition version_entries :: "u64 \<Rightarrow> (u64 \<Rightarrow> index_value) \<Rightarrow> u64 \<Rightarrow> u64 \<Rightarrow> (index_key \<times> index_value) list" where
  "version_entries ent loc b v = map (\<lambda>n. ((ent, of_nat n), loc (of_nat n))) [Suc (unat b)..<Suc (unat v)]"

lemma unat_suc: "b < (v :: u64) \<Longrightarrow> unat (b + 1) = Suc (unat b)"
proof -
  assume "b < v"
  then have "unat b + 1 < 2 ^ 64" using unat_less_u64 [of v] by (simp add: word_less_nat_alt)
  then show ?thesis by (simp add: unat_word_ariths)
qed

lemma range_versions:
  assumes "bt_ok ts" "b < v" "\<And>w. b < w \<Longrightarrow> w \<le> v \<Longrightarrow> map_of ts (ent, w) = Some (loc w)"
  shows "range_list ts (ent, b + 1) (ent, v) = version_entries ent loc b v"
proof (rule bt_eq_setI)
  have lt: "n < 2 ^ 64" if "n \<in> set [Suc (unat b)..<Suc (unat v)]" for n
    using that unat_less_u64 [of v] by auto
  show "bt_ok (range_list ts (ent, b + 1) (ent, v))" unfolding range_list_def by (rule bt_ok_filter [OF assms(1)])
  have "sorted_wrt (\<lambda>m n. (of_nat m :: u64) < of_nat n) [Suc (unat b)..<Suc (unat v)]"
  proof (rule sorted_wrt_mono_rel)
    show "sorted_wrt (<) [Suc (unat b)..<Suc (unat v)]" by (simp del: upt_Suc)
    show "(of_nat m :: u64) < of_nat n" if "m \<in> set [Suc (unat b)..<Suc (unat v)]" "n \<in> set [Suc (unat b)..<Suc (unat v)]" "m < n" for m n
      using that(3) lt [OF that(1)] lt [OF that(2)] by (simp add: word_less_nat_alt unat_of_nat)
  qed
  then show "bt_ok (version_entries ent loc b v)"
    by (simp add: bt_ok_def version_entries_def sorted_wrt_map less_prod_def)
  have key: "(ent, b + 1) \<le> k \<and> k \<le> (ent, v) \<longleftrightarrow> fst k = ent \<and> b < snd k \<and> snd k \<le> v" for k :: index_key
  proof -
    have "b + 1 \<le> w \<longleftrightarrow> b < w" for w
      unfolding word_le_nat_alt word_less_nat_alt unat_suc [OF assms(2)] by (rule Suc_le_eq)
    then show ?thesis by (cases k) (force simp: less_eq_prod_def)
  qed
  show "set (range_list ts (ent, b + 1) (ent, v)) = set (version_entries ent loc b v)"
  proof (intro set_eqI iffI)
    fix e assume "e \<in> set (range_list ts (ent, b + 1) (ent, v))"
    then have e: "e \<in> set ts" "fst (fst e) = ent" "b < snd (fst e)" "snd (fst e) \<le> v" by (auto simp: range_list_def key)
    then have "map_of ts (fst e) = Some (snd e)" using bt_ok_mem_iff [OF assms(1)] by simp
    then have "snd e = loc (snd (fst e))" using assms(3) [OF e(3,4)] e(2) by (metis option.inject prod.collapse)
    moreover have "unat (snd (fst e)) \<in> set [Suc (unat b)..<Suc (unat v)]"
      using e(3,4) by (simp add: word_le_nat_alt word_less_nat_alt less_Suc_eq_le del: upt_Suc)
    ultimately show "e \<in> set (version_entries ent loc b v)" unfolding version_entries_def set_map
      using e(2) by (intro image_eqI [of _ _ "unat (snd (fst e))"]) (simp_all add: prod_eq_iff)
  next
    fix e assume "e \<in> set (version_entries ent loc b v)"
    then obtain n where n: "e = ((ent, of_nat n), loc (of_nat n))" "n \<in> set [Suc (unat b)..<Suc (unat v)]"
      by (auto simp: version_entries_def)
    have u: "unat (of_nat n :: u64) = n" using lt [OF n(2)] by (simp add: unat_of_nat)
    then have w: "b < of_nat n" "of_nat n \<le> v" using n(2) by (auto simp: word_less_nat_alt word_le_nat_alt)
    from assms(3) [OF w] have "e \<in> set ts" using bt_ok_mem_iff [OF assms(1)] by (simp add: n(1))
    then show "e \<in> set (range_list ts (ent, b + 1) (ent, v))" using w by (simp add: range_list_def key n(1))
  qed
qed

text \<open>
  The history of one entity: \<open>S v\<close> is its state at version \<open>v\<close>, \<open>ev v\<close> the event that led there. The
  index of events holds every event after the base, the index of snapshots may hold any of the states.
\<close>

definition event_at_version :: "root \<Rightarrow> store \<Rightarrow> u64 \<Rightarrow> u64 \<Rightarrow> table \<Rightarrow> (u64 \<Rightarrow> entity) \<Rightarrow> (u64 \<Rightarrow> event) \<Rightarrow> (u64 \<Rightarrow> index_value) \<Rightarrow> u64 \<Rightarrow> bool" where
  "event_at_version r st table ent def S ev loc v = (event_at r st table (loc v) = Inr (ent, ev v, ev_transaction (ev v)) \<and>
     ev_version (ev v) = v \<and> ev_transaction (ev v) \<le> r_lsn r \<and> apply_event (S (v - 1)) (ev v) def = Inr (S v))"

definition history_ok :: "root \<Rightarrow> store \<Rightarrow> u64 \<Rightarrow> u64 \<Rightarrow> table \<Rightarrow> u64 \<Rightarrow> u64 \<Rightarrow> (u64 \<Rightarrow> entity) \<Rightarrow> (u64 \<Rightarrow> event) \<Rightarrow> bool" where
  "history_ok r st table ent def base cur S ev = (map_of (r_catalog r) table = Some def \<and> base \<le> cur \<and>
     (\<forall>v. base \<le> v \<and> v \<le> cur \<longrightarrow> en_version (S v) = v) \<and>
     (\<exists>ts loc. root_holds (r, st, table, 4) ts \<and> (\<forall>v. base < v \<and> v \<le> cur \<longrightarrow>
        map_of ts (ent, v) = Some (loc v) \<and> event_at_version r st table ent def S ev loc v)) \<and>
     (\<exists>ts. root_holds (r, st, table, 5) ts \<and> (\<forall>v l. base \<le> v \<and> v \<le> cur \<and> map_of ts (ent, v) = Some l \<longrightarrow>
        history_state r st table l ent = Inr (S v))))"

lemma replay_versions:
  assumes "\<And>v. of_nat a < v \<Longrightarrow> v \<le> of_nat c \<Longrightarrow> event_at_version r st table ent def S ev loc v" "c < 2 ^ 64" "a \<le> n" "n \<le> c"
  shows "res_fold (advance_step r st table ent def) (map Inr (map (\<lambda>n. ((ent, of_nat n), loc (of_nat n))) [Suc a..<Suc n])) (S (of_nat a)) =
    Inr (S (of_nat n))"
  using assms(3,4)
proof (induction n rule: dec_induct)
  case (step n)
  let ?v = "of_nat (Suc n) :: u64"
  have "of_nat a < ?v" "?v \<le> of_nat c"
    using step assms(2) by (simp_all only: word_less_nat_alt word_le_nat_alt unat_of_nat) simp_all
  then have "event_at_version r st table ent def S ev loc ?v" by (rule assms(1))
  then have "advance_step r st table ent def (Inr ((ent, ?v), loc ?v)) (S (of_nat n)) = Inr (S ?v)"
    by (simp add: advance_step_def event_at_version_def not_less)
  moreover have "[Suc a..<Suc (Suc n)] = [Suc a..<Suc n] @ [Suc n]" using step.hyps by simp
  ultimately show ?case using step.IH step.prems by (simp del: upt_Suc of_nat_Suc)
qed simp

lemma advance_reconstructs:
  assumes h: "history_ok r st table ent def base cur S ev" and v: "base \<le> b" "b \<le> v" "v \<le> cur"
  shows "advance r st table ent (S b) v snapshots = Inr (S v)"
proof -
  obtain ts loc where ts: "root_holds (r, st, table, 4) ts"
      "\<And>v. base < v \<Longrightarrow> v \<le> cur \<Longrightarrow> map_of ts (ent, v) = Some (loc v) \<and> event_at_version r st table ent def S ev loc v"
    using h unfolding history_ok_def by blast
  obtain us where us: "root_holds (r, st, table, 5) us"
      "\<And>v l. base \<le> v \<Longrightarrow> v \<le> cur \<Longrightarrow> map_of us (ent, v) = Some l \<Longrightarrow> history_state r st table l ent = Inr (S v)"
    using h unfolding history_ok_def by blast
  have ver: "en_version (S w) = w" if "base \<le> w" "w \<le> cur" for w using h that by (simp add: history_ok_def)
  have "\<exists>c. snapshot_start r st table ent (S b) v snapshots = Inr (S c) \<and> base \<le> c \<and> c \<le> v"
  proof (cases "snapshots \<and> (\<exists>k l. floor_index r st table 5 (ent, v) = Inr (Some (k, l)) \<and> fst k = ent \<and> b \<le> snd k)")
    case False
    obtain e where e: "floor_index r st table 5 (ent, v) = Inr e"
      using root_index.floor_holds [OF us(1)] by (simp add: root_floor_def)
    have "snapshot_start r st table ent (S b) v snapshots = Inr (S b)"
      using False e ver [of b] v by (cases e) (auto simp: snapshot_start_def)
    then show ?thesis using v by blast
  next
    case True
    then obtain k l where k: "floor_index r st table 5 (ent, v) = Inr (Some (k, l))" "fst k = ent" "b \<le> snd k" by blast
    have "root_floor (r, st, table, 5) (ent, v) = Inr (Some (k, l))" using k(1) by (simp add: root_floor_def)
    from root_index.floor_found [OF us(1) this] have le: "k \<le> (ent, v)" and "root_look (r, st, table, 5) k = Inr (Some l)" by blast+
    then have "map_of us k = Some l" using root_index.look_holds [OF us(1), of k] by simp
    moreover have "snd k \<le> v" using le k(2) by (cases k) (simp add: less_eq_prod_def)
    moreover have "k = (ent, snd k)" using k(2) by (metis prod.collapse)
    ultimately have hs: "history_state r st table l ent = Inr (S (snd k))" "base \<le> snd k" "snd k \<le> v"
      using us(2) [of "snd k" l] v k(3) by auto
    then have "snapshot_start r st table ent (S b) v snapshots = Inr (S (snd k))"
      using True k ver [of b] ver [of "snd k"] v by (simp add: snapshot_start_def)
    then show ?thesis using hs by blast
  qed
  then obtain c where c: "snapshot_start r st table ent (S b) v snapshots = Inr (S c)" "base \<le> c" "c \<le> v" by blast
  have cv: "en_version (S c) = c" "en_version (S v) = v" using ver c v by auto
  show ?thesis
  proof (cases "c = v")
    case True
    then show ?thesis using h c(1) cv by (simp add: advance_def history_ok_def)
  next
    case False
    then have less: "c < v" using c(3) by simp
    have "range_list ts (ent, c + 1) (ent, v) = version_entries ent loc c v"
      by (rule range_versions [OF root_index.holds_ok [OF ts(1)] less]) (use ts(2) c v in auto)
    then have items: "scan_index r st table 4 (ent, c + 1) (ent, v) = map Inr (version_entries ent loc c v)"
      using root_index.items_holds [OF ts(1)] by (simp add: root_items_def)
    have "res_fold (advance_step r st table ent def) (map Inr (version_entries ent loc c v)) (S (of_nat (unat c))) = Inr (S (of_nat (unat v)))"
      unfolding version_entries_def
    proof (rule replay_versions)
      show "event_at_version r st table ent def S ev loc w" if "of_nat (unat c) < w" "w \<le> of_nat (unat v)" for w
        using ts(2) [of w] that c v by simp
      show "unat c \<le> unat v" using c(3) by (simp add: word_le_nat_alt)
    qed (use unat_less_u64 in auto)
    then show ?thesis using h c(1) cv False items by (simp add: advance_def history_ok_def)
  qed
qed

lemma state_at_reads:
  assumes h: "history_ok r st table ent def base cur S ev"
    and at: "locate r st table ent = Inr (Some (slot, val))" "read_state r st table 0 (fst val) ent = Inr (S cur)"
      "read_state r st table 1 (snd val) ent = Inr (S base)"
  shows "state_at r st table ent v snapshots =
    (if v < base \<or> cur < v then Inl (VersionUnavailable v base cur) else Inr (S v))"
proof -
  have ver: "en_version (S base) = base" "en_version (S cur) = cur" "base \<le> cur" using h by (simp_all add: history_ok_def)
  then show ?thesis using at advance_reconstructs [OF h order_refl, of v snapshots] by (auto simp: state_at_def not_less)
qed

section \<open>Properties\<close>

text \<open>
  C27 (event_record_read): an event that was packed, with or without run-length compression, framed
  and stored anywhere in a history segment is read back unchanged through the location the index
  keeps for it, with its owner and its transaction.
\<close>

theorem event_record_read:
  assumes "event_stored r st table ent ev location" "event_admitted st ev"
  shows "event_at r st table location = Inr (ent, ev, ev_transaction ev)"
  by (rule event_at_stored [OF assms])

text \<open>
  C10 (old_version_reconstructed): reading any version of an entity from a checkpoint, by replaying
  the events after the base or after any snapshot of it on the way, with or without the snapshots,
  gives the one state that the events define; a version outside the retained range is refused.
\<close>

theorem old_version_reconstructed:
  assumes "history_ok r st table ent def base cur S ev"
    and "locate r st table ent = Inr (Some (slot, val))" "read_state r st table 0 (fst val) ent = Inr (S cur)"
    and "read_state r st table 1 (snd val) ent = Inr (S base)"
  shows "state_at r st table ent v snapshots =
    (if v < base \<or> cur < v then Inl (VersionUnavailable v base cur) else Inr (S v))"
  by (rule state_at_reads [OF assms])

section \<open>A concrete checkpoint\<close>

definition sample_state :: "u64 \<Rightarrow> entity" where
  "sample_state v = \<lparr>en_id = 1, en_version = v, en_schema = 1, en_deleted = False,
     en_fields = [(1, TextV (ascii ''ann'')), (2, if v = 1 then Null else Int64V 5)]\<rparr>"

definition sample_event :: event where
  "sample_event = \<lparr>ev_version = 2, ev_transaction = 6, ev_schema = 1, ev_kind = ApplyEvent, ev_fields = [(2, Int64V 5)]\<rparr>"

definition sample_frame :: bytes where
  "sample_frame = (case frame_encode 3 6 (history_pack 1 (encode_event sample_event) True) of Inr fr \<Rightarrow> fr | Inl _ \<Rightarrow> [])"

definition history_root :: root where
  "history_root = root_empty\<lparr>r_generation := 3, r_lsn := 7, r_catalog := [(1, sample_table)],
     r_generations := [\<lparr>g_generation = 3, g_lsn = 7\<rparr>], r_history_generations := [(3, 7)],
     r_partitions := [((1, 3, (0, 0)), \<lparr>p_file = file_id_new 1 3 3 0, p_lsn = 7, p_base = 0, p_first = (1, 0), p_last = (1, 0),
         p_slots = [(0, 0)], p_dependencies = []\<rparr>),
       ((1, 4, (1, 0)), \<lparr>p_file = file_id_new 1 3 4 0, p_lsn = 7, p_base = 0, p_first = (1, 2), p_last = (1, 2),
         p_slots = [], p_dependencies = [(file_id_new 1 3 6 0, ())]\<rparr>)]\<rparr>"

lemma sample_apply: "apply_event (sample_state 1) sample_event sample_table = Inr (sample_state 2)"
  by (simp add: apply_event_def sample_state_def sample_event_def checked_add64_def table_version_def sample_table_def
      sample_schema_def normalize_def check_entry_def find_field_def fill_missing_def bt_has_def bt_extend_def
      encode_fields_def encode_field_entry_def MAX_RECORD_def)

lemma sample_fields: "fields_ok (en_fields (sample_state v))" "fields_ok (ev_fields sample_event)"
  by (simp_all add: fields_ok_def bt_simps sample_state_def sample_event_def utf8_valid_def sample_chars)

lemma sample_lengths: "length (encode_entity (sample_state v)) < 100" "length (encode_event sample_event) < 100"
  by (simp_all add: encode_entity_def encode_event_def sample_state_def sample_event_def encode_fields_def
      encode_field_entry_def)

lemma sample_frame_encode: "frame_encode 3 6 (history_pack 1 (encode_event sample_event) True) = Inr sample_frame"
proof -
  have "length (history_pack 1 (encode_event sample_event) True) \<le> 13 + length (encode_event sample_event)"
    by (simp add: history_pack_def Let_def)
  then have "length (history_pack 1 (encode_event sample_event) True) \<le> MAX_FRAME"
    using sample_lengths(2) by (simp add: MAX_FRAME_def)
  then show ?thesis unfolding sample_frame_def frame_encode_def Let_def by simp
qed

lemma single_part_holds:
  assumes "writer_append_all [e] (writer_from_file [] 7 (of_nat 0)) = Inr w" "length (finish_part w) = 2 * PAGE_SIZE"
    and "st_disk st (p_file part) = Some (finish_part w)" "p_base part = 0" "p_lsn part = 7" "slot_kept part (snd e)"
  shows "part_holds (st, part) [e]"
  unfolding part_holds_def part_in_def
  using assms translate_kept [OF assms(6)]
  by (intro exI [of _ "finish_part w"] conjI exI [of _ "[]"] exI [of _ 0] exI [of _ w] exI [of _ "[e]"]) (simp_all add: PAGE_SIZE_def)

lemma single_state_read:
  assumes w: "heap_append (encode_entity e) (heap_create 7) = Inr (0, w)" "length (heap_finish w) = 8192"
    and st: "st_disk st (file_id_new table 3 kind 0) = Some (heap_finish w)" "\<And>n. st_scratch st n = Inr ()" "\<And>n. st_decoded st n = Inr ()"
      "st_entity_size st < 2 ^ 32"
    and e: "fields_ok (en_fields e)" "length (encode_entity e) < 100" and r: "r_generations r = [\<lparr>g_generation = 3, g_lsn = 7\<rparr>]"
  shows "read_state r st table kind (locate_slot 0 0) (en_id e) = Inr e"
proof -
  have "heap_append_all [encode_entity e] (heap_create 7) = Inr ([0], w)" using w(1) by simp
  moreover have "length (heap_finish w) < 2 ^ 60" using w(2) by simp
  ultimately obtain qs where qs: "heap_holds st (file_id_new table 3 kind 0) 7 qs" "list_all2 (heap_stored qs) [0] [encode_entity e]"
    using heap_file_stored [OF _ st(1)] by blast
  then have hr: "heap_read st (file_id_new table 3 kind 0) 0 7 = Inr (encode_entity e)" using heap_read_stored st(2) by simp
  have sl: "slotted r table kind 0 0 = Inr (file_id_new table 3 kind 0, 7)" by (simp add: slotted_def at_slot_def r)
  have "length (encode_fields (en_fields e)) < 2 ^ 62" using e(2) by (simp add: encode_entity_def)
  from record_bytes_encoded [OF e(1) this st(4)] obtain n where rb: "record_bytes (encode_entity e) (st_entity_size st) = Inr n"
    by (simp add: encode_entity_def)
  have "decode_entity (encode_entity e) = Inr e" using decode_encode_entity [OF e(1)] e(2) by simp
  then show ?thesis using hr sl rb st(3) by (simp add: read_state_def state_charged_def split_locate)
qed

lemma sample_checkpoint:
  obtains st val where "st_scratch st = (\<lambda>_. Inr ())" "st_decoded st = (\<lambda>_. Inr ())" "st_event_size st < 2 ^ 32"
    "st_disk st (file_id_new 1 3 6 0) = Some sample_frame"
    "root_holds (history_root, st, 1, 3) [((1, 0), val)]" "root_holds (history_root, st, 1, 4) [((1, 2), (3, 0))]"
    "entity_slot val = Inr 0" "read_state history_root st 1 0 (fst val) 1 = Inr (sample_state 2)"
    "read_state history_root st 1 1 (snd val) 1 = Inr (sample_state 1)"
proof -
  obtain w3 where w3: "writer_append_all [((1, 0), (locate_slot 0 0, locate_slot 0 0))] (writer_from_file [] 7 (of_nat 0)) = Inr w3"
      "length (finish_part w3) = 2 * PAGE_SIZE" using one_entry_part by blast
  obtain w4 where w4: "writer_append_all [((1, 2), (3, 0))] (writer_from_file [] 7 (of_nat 0)) = Inr w4"
      "length (finish_part w4) = 2 * PAGE_SIZE" using one_entry_part by blast
  have fits: "length (encode_entity (sample_state v)) + 9 \<le> MAX_RECORD_SIZE" for v
    using sample_lengths(1) [of v] by (simp add: page_consts)
  obtain h0 where h0: "heap_append (encode_entity (sample_state 2)) (heap_create 7) = Inr (0, h0)" "length (heap_finish h0) = 8192"
    using heap_append_first [OF fits] by blast
  obtain h1 where h1: "heap_append (encode_entity (sample_state 1)) (heap_create 7) = Inr (0, h1)" "length (heap_finish h1) = 8192"
    using heap_append_first [OF fits] by blast
  define st where "st = open_store (\<lambda>f. map_of [(file_id_new 1 3 3 0, finish_part w3), (file_id_new 1 3 4 0, finish_part w4),
    (file_id_new 1 3 0 0, heap_finish h0), (file_id_new 1 3 1 0, heap_finish h1), (file_id_new 1 3 6 0, sample_frame)] f)"
  have ne: "file_id_new 1 3 a 0 = file_id_new 1 3 b 0 \<longleftrightarrow> a = b" for a b :: u8 by (simp add: file_id_new_def)
  have disk: "st_disk st (file_id_new 1 3 3 0) = Some (finish_part w3)" "st_disk st (file_id_new 1 3 4 0) = Some (finish_part w4)"
      "st_disk st (file_id_new 1 3 0 0) = Some (heap_finish h0)" "st_disk st (file_id_new 1 3 1 0) = Some (heap_finish h1)"
      "st_disk st (file_id_new 1 3 6 0) = Some sample_frame"
    by (simp_all add: st_def ne)
  have adm: "st_scratch st = (\<lambda>_. Inr ())" "st_decoded st = (\<lambda>_. Inr ())" "st_event_size st = 96" "st_entity_size st = 56"
    by (simp_all add: st_def open_store_def)
  have slot: "entity_slot (locate_slot 0 0, locate_slot 0 0) = Inr 0" by (simp add: entity_slot_def split_locate)
  have p3: "part_holds (st, snd (r_partitions history_root ! 0)) [((1, 0), (locate_slot 0 0, locate_slot 0 0))]"
    by (rule single_part_holds [OF w3]) (simp_all add: disk history_root_def slot_kept_def slot)
  have p4: "part_holds (st, snd (r_partitions history_root ! 1)) [((1, 2), (3, 0))]"
    by (rule single_part_holds [OF w4]) (simp_all add: disk history_root_def slot_kept_def, simp add: file_id_new_def)
  have ok: "bt_ok (r_partitions history_root)" by (simp add: history_root_def bt_ok_Cons)
  have r3: "root_holds (history_root, st, 1, 3) [((1, 0), (locate_slot 0 0, locate_slot 0 0))]"
    unfolding root_holds_def using ok p3
    by (simp, intro exI [of _ "\<lambda>_. [((1, 0), (locate_slot 0 0, locate_slot 0 0))]"]) (simp add: table_parts_def history_root_def bucket_def WIDTH_def)
  have r4: "root_holds (history_root, st, 1, 4) [((1, 2), (3, 0))]"
    unfolding root_holds_def using ok p4
    by (simp, intro exI [of _ "\<lambda>_. [((1, 2), (3, 0))]"]) (simp add: table_parts_def history_root_def bucket_def WIDTH_def)
  have read: "read_state history_root st 1 0 (locate_slot 0 0) 1 = Inr (sample_state 2)"
      "read_state history_root st 1 1 (locate_slot 0 0) 1 = Inr (sample_state 1)"
    using single_state_read [OF h0 disk(3) _ _ _ sample_fields(1) sample_lengths(1), of history_root]
      single_state_read [OF h1 disk(4) _ _ _ sample_fields(1) sample_lengths(1), of history_root] adm
    by (simp_all add: history_root_def sample_state_def)
  show thesis by (rule that [OF adm(1,2) _ disk(5) r3 r4 slot]) (simp_all add: adm(3) read)
qed

lemma sample_stored:
  assumes "st_disk st (file_id_new 1 3 6 0) = Some sample_frame"
  shows "event_stored history_root st 1 1 sample_event (3, 0)"
proof -
  have "length (history_pack 1 (encode_event sample_event) True) \<le> 13 + length (encode_event sample_event)"
    by (simp add: history_pack_def Let_def)
  then have len: "length sample_frame < 200"
    using length_frame_encode [OF sample_frame_encode] sample_lengths(2) by simp
  show ?thesis
    unfolding event_stored_def
  proof (intro exI conjI)
    show "bt_has (r_history_generations history_root) (fst ((3, 0) :: index_value))"
      by (simp add: history_root_def bt_has_def)
    show "event_location 0 (of_nat (length [])) = Inr (snd ((3, 0) :: index_value))" by (simp add: event_location_def)
    show "frame_encode 3 (ev_transaction sample_event) (history_pack 1 (encode_event sample_event) True) = Inr sample_frame"
      using sample_frame_encode by (simp add: sample_event_def)
    show "st_disk st (file_id_new 1 (fst ((3, 0) :: index_value)) 6 0) = Some ([] @ sample_frame @ [])" using assms by simp
    show "length ([] @ sample_frame @ []) < 2 ^ 63" using len by simp
  qed
qed

lemma event_record_read_witness:
  "event_at history_root (open_store (\<lambda>_. Some sample_frame)) 1 (3, 0) = Inr (1, sample_event, 6)"
proof -
  have "event_admitted (open_store (\<lambda>_. Some sample_frame)) sample_event"
    using sample_fields(2) sample_lengths(2) by (simp add: event_admitted_def MAX_RECORD_def) (simp add: open_store_def)
  from event_record_read [OF sample_stored this] show ?thesis by (simp add: sample_event_def)
qed

lemma old_version_reconstructed_witness:
  "\<exists>st. state_at history_root st 1 1 1 True = Inr (sample_state 1) \<and> state_at history_root st 1 1 2 False = Inr (sample_state 2) \<and>
     state_at history_root st 1 1 3 True = Inl (VersionUnavailable 3 1 2)"
proof -
  obtain st val where st: "st_scratch st = (\<lambda>_. Inr ())" "st_decoded st = (\<lambda>_. Inr ())" "st_event_size st < 2 ^ 32"
      "st_disk st (file_id_new 1 3 6 0) = Some sample_frame"
      "root_holds (history_root, st, 1, 3) [((1, 0), val)]" "root_holds (history_root, st, 1, 4) [((1, 2), (3, 0))]"
      "entity_slot val = Inr 0" "read_state history_root st 1 0 (fst val) 1 = Inr (sample_state 2)"
      "read_state history_root st 1 1 (snd val) 1 = Inr (sample_state 1)"
    by (rule sample_checkpoint)
  have adm: "event_admitted st sample_event"
    using sample_fields(2) sample_lengths(2) st(1-3) by (simp add: event_admitted_def MAX_RECORD_def)
  have ev: "event_at history_root st 1 (3, 0) = Inr (1, sample_event, ev_transaction sample_event)"
    by (rule event_at_stored [OF sample_stored [OF st(4)] adm])
  have two: "v = 2" if "(1 :: u64) < v" "v \<le> 2" for v
  proof -
    have "unat v = 2" using that by (simp add: word_less_nat_alt word_le_nat_alt)
    then show ?thesis by (simp add: word_unat_eq_iff)
  qed
  have none: "root_holds (history_root, st, 1, 5) []"
    by (simp add: root_holds_def table_parts_def history_root_def bt_ok_Cons)
  have at2: "event_at_version history_root st 1 1 sample_table sample_state (\<lambda>_. sample_event) (\<lambda>_. (3, 0)) 2"
    using ev sample_apply by (simp add: event_at_version_def) (simp add: sample_event_def history_root_def)
  have cat: "map_of (r_catalog history_root) 1 = Some sample_table" by (simp add: history_root_def)
  have ver: "en_version (sample_state v) = v" for v by (simp add: sample_state_def)
  have h: "history_ok history_root st 1 1 sample_table 1 2 sample_state (\<lambda>_. sample_event)"
    unfolding history_ok_def
  proof (intro conjI)
    show "\<exists>ts loc. root_holds (history_root, st, 1, 4) ts \<and> (\<forall>v. 1 < v \<and> v \<le> 2 \<longrightarrow>
        map_of ts (1, v) = Some (loc v) \<and> event_at_version history_root st 1 1 sample_table sample_state (\<lambda>_. sample_event) loc v)"
      using st(6) two at2 by (intro exI [of _ "[((1, 2), (3, 0))]"] exI [of _ "\<lambda>_. (3, 0)"]) auto
    show "\<exists>ts. root_holds (history_root, st, 1, 5) ts \<and> (\<forall>v l. 1 \<le> v \<and> v \<le> 2 \<and> map_of ts (1, v) = Some l \<longrightarrow>
        history_state history_root st 1 l 1 = Inr (sample_state v))"
      using none by (intro exI [of _ "[]"]) simp
  qed (simp_all add: cat ver)
  have loc: "locate history_root st 1 1 = Inr (Some (0, val))"
    using root_index.look_holds [OF st(5), of "(1, 0)"] st(7)
    by (simp add: locate_def root_look_def) (simp add: history_root_def bt_has_def)
  note read = old_version_reconstructed [OF h loc st(8,9)]
  show ?thesis by (intro exI [of _ st]) (simp add: read)
qed

end
