(* ===== verification/Ordered_Map.thy ===== *)
theory Ordered_Map
  imports Prelude "HOL-Library.Product_Lexorder"
begin

text \<open>
  Models \<^verbatim>\<open>ordered_map.rs\<close>: the persistent AVL map that holds published overlays, committed
  events, snapshots and charges. Sharing of nodes is not observable (nodes are immutable), so a
  link is a tree value. Every operation is related to the ordered association list of the
  entries, and keeps both the search order and the AVL balance. The locale at the end is the map
  interface the clients of the engine use; the AVL map and \<^verbatim>\<open>BTreeMap\<close> both provide it.
\<close>

section \<open>Nodes\<close>

datatype ('k, 'v) link =
    NoLink
  | Link (key: 'k) (val: 'v) (left: "('k, 'v) link") (right: "('k, 'v) link") (stored_height: nat)

fun height :: "('k, 'v) link \<Rightarrow> nat" where
  "height NoLink = 0"
| "height (Link k v l r h) = h"

definition mk_node :: "'k \<Rightarrow> 'v \<Rightarrow> ('k, 'v) link \<Rightarrow> ('k, 'v) link \<Rightarrow> ('k, 'v) link" where
  "mk_node k v l r = Link k v l r (1 + max (height l) (height r))"

text \<open>
  The two rotations expect a pivot; \<open>balance\<close> only rotates where the height of the pivot's side
  is positive, so the last equation of each (a panic of the code) is never reached.
\<close>

fun rotate_left :: "('k, 'v) link \<Rightarrow> ('k, 'v) link" where
  "rotate_left (Link k v l (Link pk pv pl pr ph) h) = mk_node pk pv (mk_node k v l pl) pr"
| "rotate_left t = t"

fun rotate_right :: "('k, 'v) link \<Rightarrow> ('k, 'v) link" where
  "rotate_right (Link k v (Link pk pv pl pr ph) r h) = mk_node pk pv pl (mk_node k v pr r)"
| "rotate_right t = t"

definition balance :: "('k, 'v) link \<Rightarrow> ('k, 'v) link" where
  "balance t = (case t of NoLink \<Rightarrow> NoLink | Link k v l r h \<Rightarrow>
     if height l > height r + 1 then
       rotate_right (if height (right l) > height (left l)
                     then mk_node k v (rotate_left l) r else t)
     else if height r > height l + 1 then
       rotate_left (if height (left r) > height (right r)
                    then mk_node k v l (rotate_right r) else t)
     else t)"

section \<open>Operations\<close>

fun om_insert :: "('k::linorder, 'v) link \<Rightarrow> 'k \<Rightarrow> 'v \<Rightarrow> ('k, 'v) link" where
  "om_insert NoLink k v = mk_node k v NoLink NoLink"
| "om_insert (Link ok ov l r h) k v = balance
     (if k < ok then mk_node ok ov (om_insert l k v) r
      else if ok < k then mk_node ok ov l (om_insert r k v)
      else mk_node k v l r)"

fun om_get :: "('k::linorder, 'v) link \<Rightarrow> 'k \<Rightarrow> 'v option" where
  "om_get NoLink k = None"
| "om_get (Link nk v l r h) k =
     (if k < nk then om_get l k else if nk < k then om_get r k else Some v)"

definition om_contains :: "('k::linorder, 'v) link \<Rightarrow> 'k \<Rightarrow> bool" where
  "om_contains t k = (om_get t k \<noteq> None)"

fun om_floor_from :: "('k::linorder, 'v) link \<Rightarrow> 'k \<Rightarrow> ('k \<times> 'v) option \<Rightarrow> ('k \<times> 'v) option" where
  "om_floor_from NoLink k res = res"
| "om_floor_from (Link nk v l r h) k res =
     (if nk \<le> k then om_floor_from r k (Some (nk, v)) else om_floor_from l k res)"

definition om_floor :: "('k::linorder, 'v) link \<Rightarrow> 'k \<Rightarrow> ('k \<times> 'v) option" where
  "om_floor t k = om_floor_from t k None"

function om_join :: "('k, 'v) link \<Rightarrow> 'k \<Rightarrow> 'v \<Rightarrow> ('k, 'v) link \<Rightarrow> ('k, 'v) link" where
  "om_join l k v r =
     (if height l > height r + 1 then
        (case l of NoLink \<Rightarrow> mk_node k v l r
         | Link tk tv tleft tright th \<Rightarrow> balance (mk_node tk tv tleft (om_join tright k v r)))
      else if height r > height l + 1 then
        (case r of NoLink \<Rightarrow> mk_node k v l r
         | Link tk tv tleft tright th \<Rightarrow> balance (mk_node tk tv (om_join l k v tleft) tright))
      else mk_node k v l r)"
  by pat_completeness auto
termination
  by (relation "measure (\<lambda>(l, k, v, r). size l + size r)") auto

declare om_join.simps [simp del]

fun om_first :: "('k, 'v) link \<Rightarrow> ('k \<times> 'v) option" where
  "om_first NoLink = None"
| "om_first (Link k v l r h) = (case om_first l of None \<Rightarrow> Some (k, v) | Some e \<Rightarrow> Some e)"

function om_remove :: "('k::linorder, 'v) link \<Rightarrow> 'k \<Rightarrow> ('k, 'v) link" where
  "om_remove NoLink k = NoLink"
| "om_remove (Link tk tv l r h) k =
     (if k < tk then om_join (om_remove l k) tk tv r
      else if tk < k then om_join l tk tv (om_remove r k)
      else case om_first r of None \<Rightarrow> l
           | Some (nk, nv) \<Rightarrow> om_join l nk nv (om_remove r nk))"
  by pat_completeness auto
termination
  by (relation "measure (\<lambda>(t, k). size t)") auto

fun om_retain_from :: "('k::linorder, 'v) link \<Rightarrow> 'k \<Rightarrow> ('k, 'v) link" where
  "om_retain_from NoLink k = NoLink"
| "om_retain_from (Link tk tv l r h) k =
     (if tk < k then om_retain_from r k
      else om_join (om_retain_from l k) tk tv r)"

definition om_extend :: "('k::linorder, 'v) link \<Rightarrow> ('k \<times> 'v) list \<Rightarrow> ('k, 'v) link" where
  "om_extend t kvs = fold (\<lambda>e t. om_insert t (fst e) (snd e)) kvs t"

subsection \<open>Range iteration\<close>

datatype 'k bound = Included 'k | Excluded 'k | Unbounded

fun below_start :: "'k::linorder bound \<Rightarrow> 'k \<Rightarrow> bool" where
  "below_start (Included k) x = (x < k)"
| "below_start (Excluded k) x = (x \<le> k)"
| "below_start Unbounded x = False"

fun beyond_end :: "'k::linorder bound \<Rightarrow> 'k \<Rightarrow> bool" where
  "beyond_end (Included k) x = (x > k)"
| "beyond_end (Excluded k) x = (x \<ge> k)"
| "beyond_end Unbounded x = False"

record ('k, 'v) range_iter =
  stack :: "('k, 'v) link list"
  end_bound :: "'k bound"

fun range_descend :: "'k::linorder bound \<Rightarrow> ('k, 'v) link \<Rightarrow> ('k, 'v) link list \<Rightarrow> ('k, 'v) link list" where
  "range_descend b NoLink st = st"
| "range_descend b (Link k v l r h) st =
     (if below_start b k then range_descend b r st
      else range_descend b l (Link k v l r h # st))"

definition om_range :: "('k::linorder, 'v) link \<Rightarrow> 'k bound \<Rightarrow> 'k bound \<Rightarrow> ('k, 'v) range_iter" where
  "om_range t s e = \<lparr>stack = range_descend s t [], end_bound = e\<rparr>"

fun push_left :: "('k, 'v) link \<Rightarrow> ('k, 'v) link list \<Rightarrow> ('k, 'v) link list" where
  "push_left NoLink st = st"
| "push_left (Link k v l r h) st = push_left l (Link k v l r h # st)"

definition range_next :: "('k::linorder, 'v) range_iter \<Rightarrow> ('k \<times> 'v) option \<times> ('k, 'v) range_iter" where
  "range_next it = (case stack it of
       Link k v l r h # st \<Rightarrow>
         if beyond_end (end_bound it) k then (None, it\<lparr>stack := []\<rparr>)
         else (Some (k, v), it\<lparr>stack := push_left r st\<rparr>)
     | _ \<Rightarrow> (None, it))"

text \<open>The entries an iterator still yields, by running it: fuel is the number of nodes left.\<close>

fun range_run :: "nat \<Rightarrow> ('k::linorder, 'v) range_iter \<Rightarrow> ('k \<times> 'v) list" where
  "range_run 0 it = []"
| "range_run (Suc n) it = (case range_next it of
     (None, it') \<Rightarrow> [] | (Some e, it') \<Rightarrow> e # range_run n it')"

definition om_range_list :: "('k::linorder, 'v) link \<Rightarrow> 'k bound \<Rightarrow> 'k bound \<Rightarrow> ('k \<times> 'v) list" where
  "om_range_list t s e = range_run (Suc (size t)) (om_range t s e)"


section \<open>The entries of a map, in key order\<close>

fun om_entries :: "('k, 'v) link \<Rightarrow> ('k \<times> 'v) list" where
  "om_entries NoLink = []"
| "om_entries (Link k v l r h) = om_entries l @ (k, v) # om_entries r"

lemma entries_mk_node [simp]: "om_entries (mk_node k v l r) = om_entries l @ (k, v) # om_entries r"
  by (simp add: mk_node_def)

lemma entries_rotate_left [simp]: "om_entries (rotate_left t) = om_entries t"
  by (cases t rule: rotate_left.cases) auto

lemma entries_rotate_right [simp]: "om_entries (rotate_right t) = om_entries t"
  by (cases t rule: rotate_right.cases) auto

lemma entries_balance [simp]: "om_entries (balance t) = om_entries t"
  by (cases t) (auto simp: balance_def)

lemma entries_join [simp]: "om_entries (om_join l k v r) = om_entries l @ (k, v) # om_entries r"
proof (induction l k v r rule: om_join.induct)
  case (1 l k v r)
  then show ?case by (subst om_join.simps) (auto split: link.splits)
qed

lemma length_entries: "length (om_entries t) = size t"
  by (induction t) auto

lemma bt_ok_entries_Link:
  "bt_ok (om_entries (Link k v l r h)) \<longleftrightarrow> bt_ok (om_entries l) \<and> bt_ok (om_entries r) \<and>
     (\<forall>e \<in> set (om_entries l). fst e < k) \<and> (\<forall>e \<in> set (om_entries r). k < fst e)"
  by (fastforce simp: bt_ok_append bt_simps)

lemmas bt_ok_mid = bt_ok_entries_Link [unfolded om_entries.simps]

lemma bt_insert_left: "k < a \<Longrightarrow> bt_insert k v (xs @ (a, b) # ys) = bt_insert k v xs @ (a, b) # ys"
  by (induction k v xs rule: bt_insert.induct) auto

lemma bt_insert_mid: "\<forall>e \<in> set xs. fst e < k \<Longrightarrow> bt_insert k v (xs @ (k, b) # ys) = xs @ (k, v) # ys"
  by (induction k v xs rule: bt_insert.induct) auto

lemma bt_insert_right:
  "\<forall>e \<in> set xs. fst e < a \<Longrightarrow> a < k \<Longrightarrow>
   bt_insert k v (xs @ (a, b) # ys) = xs @ (a, b) # bt_insert k v ys"
  by (induction k v xs rule: bt_insert.induct) auto

lemma entries_insert:
  "bt_ok (om_entries t) \<Longrightarrow> om_entries (om_insert t k v) = bt_insert k v (om_entries t)"
  by (induction t k v rule: om_insert.induct)
     (auto simp: bt_ok_mid bt_insert_left bt_insert_mid bt_insert_right not_less)

lemma get_entries: "bt_ok (om_entries t) \<Longrightarrow> om_get t k = map_of (om_entries t) k"
proof (induction t)
  case (Link nk v l r h)
  note ok = Link.prems [unfolded bt_ok_entries_Link]
  have "k \<le> nk \<Longrightarrow> map_of (om_entries r) k = None"
    and "nk \<le> k \<Longrightarrow> map_of (om_entries l) k = None"
    using ok by (auto simp: map_of_eq_None_iff)
  with Link ok show ?case
    by (auto simp: map_add_def not_less order.order_iff_strict split: option.splits)
qed simp

lemma om_first_entries: "om_first t = (case om_entries t of [] \<Rightarrow> None | e # es \<Rightarrow> Some e)"
  by (induction t) (auto split: list.splits)

lemma bt_remove_append [simp]: "bt_remove k (xs @ ys) = bt_remove k xs @ bt_remove k ys"
  by (simp add: bt_remove_def)

lemma bt_remove_absent: "\<forall>e \<in> set xs. fst e \<noteq> k \<Longrightarrow> bt_remove k xs = xs"
  by (simp add: bt_remove_def)

lemma bt_remove_Cons: "bt_remove k ((a, b) # xs) = (if a = k then bt_remove k xs else (a, b) # bt_remove k xs)"
  by (simp add: bt_remove_def)

lemma entries_remove:
  "bt_ok (om_entries t) \<Longrightarrow> om_entries (om_remove t k) = bt_remove k (om_entries t)"
proof (induction t k rule: om_remove.induct)
  case (2 tk tv l r h k)
  note ok = "2.prems" [unfolded bt_ok_entries_Link]
  have l: "tk \<le> k \<Longrightarrow> bt_remove k (om_entries l) = om_entries l"
    and r: "k \<le> tk \<Longrightarrow> bt_remove k (om_entries r) = om_entries r"
    using ok by (auto intro!: bt_remove_absent)
  show ?case
  proof (cases "om_first r")
    case None
    then have "om_entries r = []" by (auto simp: om_first_entries split: list.splits)
    with 2 ok l r None show ?thesis by (auto simp: bt_remove_Cons bt_remove_def)
  next
    case (Some e)
    then obtain nk nv es where e: "e = (nk, nv)" "om_entries r = (nk, nv) # es"
      by (cases e) (auto simp: om_first_entries split: list.splits)
    then have "bt_remove nk es = es"
      using ok by (auto simp: bt_simps intro!: bt_remove_absent)
    with 2 ok l r Some e show ?thesis by (auto simp: bt_remove_Cons)
  qed
qed (simp add: bt_remove_def)

lemma entries_retain_from:
  "bt_ok (om_entries t) \<Longrightarrow> om_entries (om_retain_from t k) = filter (\<lambda>e. k \<le> fst e) (om_entries t)"
proof (induction t k rule: om_retain_from.induct)
  case (2 tk tv l r h k)
  note ok = "2.prems" [unfolded bt_ok_entries_Link]
  have "tk < k \<Longrightarrow> filter (\<lambda>e. k \<le> fst e) (om_entries l) = []"
    and "k \<le> tk \<Longrightarrow> filter (\<lambda>e. k \<le> fst e) (om_entries r) = om_entries r"
    using ok by (fastforce simp: filter_empty_conv, fastforce simp: filter_id_conv)
  with 2 ok show ?case by (auto simp: not_less)
qed simp

lemma floor_from_entries:
  "bt_ok (om_entries t) \<Longrightarrow> om_floor_from t k res =
   (case filter (\<lambda>e. fst e \<le> k) (om_entries t) of [] \<Rightarrow> res | es \<Rightarrow> Some (last es))"
proof (induction t k res rule: om_floor_from.induct)
  case (2 nk v l r h k res)
  note ok = "2.prems" [unfolded bt_ok_entries_Link]
  have "nk \<le> k \<Longrightarrow> filter (\<lambda>e. fst e \<le> k) (om_entries l) = om_entries l"
    and "k < nk \<Longrightarrow> filter (\<lambda>e. fst e \<le> k) (om_entries r) = []"
    using ok by (fastforce simp: filter_id_conv, fastforce simp: filter_empty_conv)
  with 2 ok show ?case by (auto simp: not_le last_append split: list.splits)
qed simp

lemma floor_entries:
  "bt_ok (om_entries t) \<Longrightarrow> om_floor t k =
   (case filter (\<lambda>e. fst e \<le> k) (om_entries t) of [] \<Rightarrow> None | es \<Rightarrow> Some (last es))"
  by (simp add: om_floor_def floor_from_entries)

section \<open>Balance\<close>

fun avl :: "('k, 'v) link \<Rightarrow> bool" where
  "avl NoLink = True"
| "avl (Link k v l r h) =
     (avl l \<and> avl r \<and> height l \<le> height r + 1 \<and> height r \<le> height l + 1 \<and>
      h = 1 + max (height l) (height r))"

lemma height_mk_node [simp]: "height (mk_node k v l r) = 1 + max (height l) (height r)"
  by (simp add: mk_node_def)

lemma avl_mk_node [simp]:
  "avl (mk_node k v l r) \<longleftrightarrow> avl l \<and> avl r \<and> height l \<le> height r + 1 \<and> height r \<le> height l + 1"
  by (auto simp: mk_node_def)

lemma avl_height_0: "avl t \<Longrightarrow> height t = 0 \<longleftrightarrow> t = NoLink"
  by (cases t) auto

text \<open>
  Rebalancing repairs a node whose subtrees differ by two levels, and grows the taller side's
  height by at most one.
\<close>

lemma balance_left_heavy:
  assumes "avl l" "avl r" "height l = height r + 2"
  shows "avl (balance (mk_node k v l r)) \<and>
    (height (balance (mk_node k v l r)) = height l \<or> height (balance (mk_node k v l r)) = height l + 1)"
proof (cases l)
  case (Link lk lv ll lr lh)
  show ?thesis
  proof (cases "height lr > height ll")
    case True
    then obtain k' v' l' r' h' where "lr = Link k' v' l' r' h'" by (cases lr) auto
    with assms Link True show ?thesis
      by (auto simp: balance_def mk_node_def max_def split: if_splits)
  next
    case False
    with assms Link show ?thesis
      by (auto simp: balance_def mk_node_def max_def split: if_splits)
  qed
qed (use assms in auto)

lemma balance_right_heavy:
  assumes "avl l" "avl r" "height r = height l + 2"
  shows "avl (balance (mk_node k v l r)) \<and>
    (height (balance (mk_node k v l r)) = height r \<or> height (balance (mk_node k v l r)) = height r + 1)"
proof (cases r)
  case (Link rk rv rl rr rh)
  show ?thesis
  proof (cases "height rl > height rr")
    case True
    then obtain k' v' l' r' h' where "rl = Link k' v' l' r' h'" by (cases rl) auto
    with assms Link True show ?thesis
      by (auto simp: balance_def mk_node_def max_def split: if_splits)
  next
    case False
    with assms Link show ?thesis
      by (auto simp: balance_def mk_node_def max_def split: if_splits)
  qed
qed (use assms in auto)

lemma balance_even:
  assumes "height l \<le> height r + 1" "height r \<le> height l + 1"
  shows "balance (mk_node k v l r) = mk_node k v l r"
  using assms by (auto simp: balance_def mk_node_def)

text \<open>Balanced, and of height \<open>m\<close> or one more.\<close>

definition grown :: "nat \<Rightarrow> ('k, 'v) link \<Rightarrow> bool" where
  "grown m t = (avl t \<and> m \<le> height t \<and> height t \<le> m + 1)"

lemma avl_balance:
  assumes "avl l" "avl r" "height l \<le> height r + 2" "height r \<le> height l + 2"
  shows "grown (max (height l) (height r)) (balance (mk_node k v l r)) \<and>
    (height l \<le> height r + 1 \<longrightarrow> height r \<le> height l + 1 \<longrightarrow>
     height (balance (mk_node k v l r)) = 1 + max (height l) (height r))"
proof -
  consider "height l = height r + 2" | "height r = height l + 2"
    | "height l \<le> height r + 1" "height r \<le> height l + 1"
    using assms(3,4) by linarith
  then show ?thesis
  proof cases
    case 1
    then show ?thesis using balance_left_heavy [OF assms(1,2) 1, of k v] by (auto simp: grown_def)
  next
    case 2
    then show ?thesis using balance_right_heavy [OF assms(1,2) 2, of k v] by (auto simp: grown_def)
  next
    case 3
    then show ?thesis using assms by (auto simp: balance_even grown_def)
  qed
qed

text \<open>Replacing one subtree of a balanced node by a grown one.\<close>

lemma avl_balance_left:
  assumes "avl (Link k' v' l r h)" "grown m l'" "height l \<le> m" "m \<le> height l + 1"
    "height l' \<le> height l + 1"
  shows "grown h (balance (mk_node k v l' r))"
  using avl_balance [of l' r k v] assms by (auto simp: grown_def max_def split: if_splits)

lemma avl_balance_right:
  assumes "avl (Link k' v' l r h)" "grown m r'" "height r \<le> m" "m \<le> height r + 1"
    "height r' \<le> height r + 1"
  shows "grown h (balance (mk_node k v l r'))"
  using avl_balance [of l r' k v] assms by (auto simp: grown_def max_def split: if_splits)

lemma grown_insert: "avl t \<Longrightarrow> grown (height t) (om_insert t k v)"
proof (induction t k v rule: om_insert.induct)
  case (2 ok ov l r h k v)
  consider (lt) "k < ok" | (gt) "ok < k" | (eq) "k = ok" by fastforce
  then show ?case
  proof cases
    case lt
    then show ?thesis
      using 2 avl_balance_left [of ok ov l r h "height l" "om_insert l k v" ok ov]
      by (auto simp: grown_def)
  next
    case gt
    then show ?thesis
      using 2 avl_balance_right [of ok ov l r h "height r" "om_insert r k v" ok ov]
      by (auto simp: grown_def)
  qed (use 2 in \<open>auto simp: balance_even grown_def\<close>)
qed (simp add: grown_def)

lemma grown_join:
  "avl l \<Longrightarrow> avl r \<Longrightarrow> grown (max (height l) (height r)) (om_join l k v r)"
proof (induction l k v r rule: om_join.induct)
  case (1 l k v r)
  consider (left) "height l > height r + 1" | (right) "height r > height l + 1"
    | (even) "height l \<le> height r + 1" "height r \<le> height l + 1" by linarith
  then show ?case
  proof cases
    case left
    then obtain tk tv tl' tr' th where l: "l = Link tk tv tl' tr' th" by (cases l) auto
    let ?j = "om_join tr' k v r"
    have "grown (max (height tr') (height r)) ?j"
      using "1.IH"(1) [OF left l] "1.prems" by (simp add: l)
    moreover from this left "1.prems" have "height ?j \<le> height tr' + 1"
      by (auto simp: l grown_def max_def split: if_splits)
    ultimately have "grown th (balance (mk_node tk tv tl' ?j))"
      using avl_balance_right [of tk tv tl' tr' th "max (height tr') (height r)" ?j tk tv] "1.prems" left
      by (auto simp: l max_def split: if_splits)
    then show ?thesis using left by (simp add: om_join.simps [of l k v r]) (simp add: l)
  next
    case right
    then obtain tk tv tl' tr' th where r: "r = Link tk tv tl' tr' th" by (cases r) auto
    have nl: "\<not> height l > height r + 1" using right by simp
    let ?j = "om_join l k v tl'"
    have "grown (max (height l) (height tl')) ?j"
      using "1.IH"(2) [OF nl right r] "1.prems" by (simp add: r)
    moreover from this right "1.prems" have "height ?j \<le> height tl' + 1"
      by (auto simp: r grown_def max_def split: if_splits)
    ultimately have "grown th (balance (mk_node tk tv ?j tr'))"
      using avl_balance_left [of tk tv tl' tr' th "max (height l) (height tl')" ?j tk tv] "1.prems" right
      by (auto simp: r max_def split: if_splits)
    then show ?thesis using right by (simp add: om_join.simps [of l k v r]) (simp add: r max_def)
  next
    case even
    then show ?thesis using "1.prems" by (auto simp: om_join.simps [of l k v r] grown_def)
  qed
qed

lemma avl_insert: "avl t \<Longrightarrow> avl (om_insert t k v)"
  using grown_insert [of t k v] by (simp add: grown_def)

lemma avl_join: "avl l \<Longrightarrow> avl r \<Longrightarrow> avl (om_join l k v r)"
  using grown_join [of l r k v] by (simp add: grown_def)

lemma avl_remove: "avl t \<Longrightarrow> avl (om_remove t k)"
  by (induction t k rule: om_remove.induct) (auto simp: avl_join split: option.splits)

lemma avl_retain_from: "avl t \<Longrightarrow> avl (om_retain_from t k)"
  by (induction t k rule: om_retain_from.induct) (auto simp: avl_join)

text \<open>A balanced map of height \<open>h\<close> holds at least \<open>2 ^ (h div 2) - 1\<close> entries.\<close>

lemma avl_size_bound: "avl t \<Longrightarrow> 2 ^ (height t div 2) \<le> size t + 1"
proof (induction t)
  case (Link k v l r h)
  let ?m = "min (height l) (height r)"
  have two: "(2::nat) ^ (h div 2) \<le> 2 * 2 ^ (?m div 2)"
  proof -
    have "h div 2 \<le> Suc (?m div 2)" using Link.prems by (auto simp: max_def min_def)
    then have "(2::nat) ^ (h div 2) \<le> 2 ^ Suc (?m div 2)" by (intro power_increasing) auto
    then show ?thesis by simp
  qed
  have l: "?m div 2 \<le> height l div 2" and r: "?m div 2 \<le> height r div 2"
    by (simp_all add: div_le_mono)
  have "2 ^ (height l div 2) \<le> size l + 1" "2 ^ (height r div 2) \<le> size r + 1"
    using Link by simp_all
  with two power_increasing [OF l, of "2 :: nat"] power_increasing [OF r, of "2 :: nat"]
  have "2 ^ (h div 2) \<le> (size l + 1) + (size r + 1)" by linarith
  then show ?case by simp
qed simp

section \<open>Ranges\<close>

text \<open>What the nodes on an iterator's stack still stand for.\<close>

fun stack_entries :: "('k, 'v) link list \<Rightarrow> ('k \<times> 'v) list" where
  "stack_entries [] = []"
| "stack_entries (NoLink # st) = stack_entries st"
| "stack_entries (Link k v l r h # st) = (k, v) # om_entries r @ stack_entries st"

definition no_empty :: "('k, 'v) link list \<Rightarrow> bool" where
  "no_empty st = (NoLink \<notin> set st)"

lemma no_empty_push_left: "no_empty st \<Longrightarrow> no_empty (push_left t st)"
  by (induction t st rule: push_left.induct) (auto simp: no_empty_def)

lemma no_empty_descend: "no_empty st \<Longrightarrow> no_empty (range_descend b t st)"
  by (induction b t st rule: range_descend.induct) (auto simp: no_empty_def)

lemma stack_entries_push_left: "stack_entries (push_left t st) = om_entries t @ stack_entries st"
  by (induction t st rule: push_left.induct) auto

lemma below_start_mono: "below_start b y \<Longrightarrow> x \<le> y \<Longrightarrow> below_start b x"
  by (cases b) auto

lemma stack_entries_descend:
  "bt_ok (om_entries t) \<Longrightarrow> stack_entries (range_descend b t st) =
     filter (\<lambda>e. \<not> below_start b (fst e)) (om_entries t) @ stack_entries st"
proof (induction b t st rule: range_descend.induct)
  case (2 b k v l r h st)
  note ok = "2.prems" [unfolded bt_ok_entries_Link]
  have "below_start b k \<Longrightarrow> filter (\<lambda>e. \<not> below_start b (fst e)) (om_entries l) = []"
    using ok by (auto simp: filter_empty_conv intro: below_start_mono less_imp_le)
  moreover have "\<not> below_start b k \<Longrightarrow>
      filter (\<lambda>e. \<not> below_start b (fst e)) (om_entries r) = om_entries r"
    using ok by (auto simp: filter_id_conv dest: below_start_mono [OF _ less_imp_le])
  ultimately show ?case using 2 ok by auto
qed simp

lemma beyond_end_mono: "beyond_end b x \<Longrightarrow> x \<le> y \<Longrightarrow> beyond_end b y"
  by (cases b) auto

lemma range_next_entries:
  assumes "no_empty (stack it)"
  shows "range_next it =
    (case stack_entries (stack it) of
       [] \<Rightarrow> (None, it)
     | (k, v) # es \<Rightarrow> if beyond_end (end_bound it) k then (None, it\<lparr>stack := []\<rparr>)
         else (Some (k, v), it\<lparr>stack := push_left (right (hd (stack it))) (tl (stack it))\<rparr>))"
  using assms by (auto simp: range_next_def no_empty_def split: list.splits link.splits)

lemma range_run_entries:
  "no_empty (stack it) \<Longrightarrow> length (stack_entries (stack it)) < n \<Longrightarrow>
   range_run n it = takeWhile (\<lambda>e. \<not> beyond_end (end_bound it) (fst e)) (stack_entries (stack it))"
proof (induction n arbitrary: it)
  case (Suc n)
  show ?case
  proof (cases "stack it")
    case (Cons t st)
    then obtain k v l r h where t: "t = Link k v l r h"
      using Suc.prems by (cases t) (auto simp: no_empty_def)
    let ?it = "it\<lparr>stack := push_left r st\<rparr>"
    have "no_empty (stack ?it)" "length (stack_entries (stack ?it)) < n"
      using Suc.prems Cons t
      by (auto simp: no_empty_def stack_entries_push_left intro!: no_empty_push_left [unfolded no_empty_def])
    then have "range_run n ?it = takeWhile (\<lambda>e. \<not> beyond_end (end_bound it) (fst e)) (om_entries r @ stack_entries st)"
      using Suc.IH [of ?it] by (simp add: stack_entries_push_left)
    then show ?thesis by (simp add: range_next_def Cons t)
  qed (simp add: range_next_def)
qed simp

lemma takeWhile_sorted_filter:
  "bt_ok m \<Longrightarrow> takeWhile (\<lambda>e. \<not> beyond_end b (fst e)) m = filter (\<lambda>e. \<not> beyond_end b (fst e)) m"
proof (induction m)
  case (Cons e m)
  have "beyond_end b (fst e) \<Longrightarrow> filter (\<lambda>e. \<not> beyond_end b (fst e)) m = []"
    using Cons.prems by (cases e) (auto simp: bt_simps filter_empty_conv intro: beyond_end_mono less_imp_le)
  then show ?case using Cons by (cases e) (auto simp: bt_simps)
qed simp

lemma range_list_entries:
  assumes "bt_ok (om_entries t)"
  shows "om_range_list t s e =
    filter (\<lambda>x. \<not> below_start s (fst x) \<and> \<not> beyond_end e (fst x)) (om_entries t)"
proof -
  let ?it = "om_range t s e"
  have st: "stack_entries (stack ?it) = filter (\<lambda>x. \<not> below_start s (fst x)) (om_entries t)"
    using stack_entries_descend [OF assms, of s "[]"] by (simp add: om_range_def)
  have "no_empty (stack ?it)"
    using no_empty_descend [of "[]" s t] by (simp add: om_range_def no_empty_def)
  moreover have "length (stack_entries (stack ?it)) < Suc (size t)"
    using length_filter_le [of _ "om_entries t"] by (simp add: st length_entries le_imp_less_Suc)
  ultimately have "om_range_list t s e =
      takeWhile (\<lambda>x. \<not> beyond_end e (fst x)) (filter (\<lambda>x. \<not> below_start s (fst x)) (om_entries t))"
    using range_run_entries [of ?it "Suc (size t)"] st by (simp only: om_range_list_def) (simp add: om_range_def)
  also have "\<dots> = filter (\<lambda>x. \<not> beyond_end e (fst x)) (filter (\<lambda>x. \<not> below_start s (fst x)) (om_entries t))"
    by (rule takeWhile_sorted_filter) (simp add: assms bt_ok_filter)
  finally show ?thesis by (simp add: conj_commute)
qed

section \<open>The map interface\<close>

text \<open>
  What a client of an ordered map may rely on: every operation is the one of the ordered
  association list of its entries. The client's lemmas are proved once, from these laws.
\<close>

locale ordered_store =
  fixes emp :: "'m"
    and get :: "'m \<Rightarrow> 'k::linorder \<Rightarrow> 'v option"
    and ins :: "'m \<Rightarrow> 'k \<Rightarrow> 'v \<Rightarrow> 'm"
    and del :: "'m \<Rightarrow> 'k \<Rightarrow> 'm"
    and entries :: "'m \<Rightarrow> ('k, 'v) btree"
    and inv :: "'m \<Rightarrow> bool"
  assumes inv_emp: "inv emp"
    and entries_emp: "entries emp = []"
    and entries_ok: "inv m \<Longrightarrow> bt_ok (entries m)"
    and get_map_of: "inv m \<Longrightarrow> get m k = map_of (entries m) k"
    and inv_ins: "inv m \<Longrightarrow> inv (ins m k v)"
    and entries_ins: "inv m \<Longrightarrow> entries (ins m k v) = bt_insert k v (entries m)"
    and inv_del: "inv m \<Longrightarrow> inv (del m k)"
    and entries_del: "inv m \<Longrightarrow> entries (del m k) = bt_remove k (entries m)"
begin

lemma get_emp [simp]: "get emp k = None"
  by (simp add: get_map_of inv_emp entries_emp)

lemma get_ins: "inv m \<Longrightarrow> get (ins m k v) a = (if a = k then Some v else get m a)"
  by (simp add: get_map_of inv_ins entries_ins)

lemma get_del: "inv m \<Longrightarrow> get (del m k) a = (if a = k then None else get m a)"
  by (simp add: get_map_of inv_del entries_del)

lemma entries_iff: "inv m \<Longrightarrow> (k, v) \<in> set (entries m) \<longleftrightarrow> get m k = Some v"
  by (simp add: get_map_of entries_ok bt_ok_mem_iff)

lemma store_eqI: "inv m \<Longrightarrow> inv n \<Longrightarrow> (\<And>k. get m k = get n k) \<Longrightarrow> entries m = entries n"
  by (rule bt_eqI) (auto simp: entries_ok get_map_of fun_eq_iff)

text \<open>A batch of insertions, as a loop over its items.\<close>

definition ins_all :: "'m \<Rightarrow> ('k \<times> 'v) list \<Rightarrow> 'm" where
  "ins_all m kvs = fold (\<lambda>e m. ins m (fst e) (snd e)) kvs m"

lemma inv_ins_all: "inv m \<Longrightarrow> inv (ins_all m kvs)"
  unfolding ins_all_def by (induction kvs arbitrary: m) (auto simp: inv_ins)

lemma get_ins_all:
  "inv m \<Longrightarrow> distinct (map fst kvs) \<Longrightarrow>
   get (ins_all m kvs) a = (case map_of kvs a of None \<Rightarrow> get m a | Some v \<Rightarrow> Some v)"
proof (induction kvs arbitrary: m)
  case (Cons e kvs)
  obtain k v where e: "e = (k, v)" by fastforce
  have "k \<notin> fst ` set kvs" using Cons.prems by (auto simp: e)
  then have none: "map_of kvs k = None" by (simp add: map_of_eq_None_iff)
  have "get (ins_all m (e # kvs)) a = get (ins_all (ins m k v) kvs) a"
    by (simp add: ins_all_def e)
  also have "\<dots> = (case map_of kvs a of None \<Rightarrow> get (ins m k v) a | Some v \<Rightarrow> Some v)"
    using Cons by (simp add: e inv_ins)
  finally show ?case
    using none Cons.prems(1) by (auto simp: e get_ins split: option.splits)
qed (simp add: ins_all_def)

end

text \<open>A store that also answers predecessor and range queries and drops a prefix.\<close>

locale ranged_store = ordered_store emp get ins del entries inv
  for emp :: "'m"
    and get :: "'m \<Rightarrow> 'k::linorder \<Rightarrow> 'v option"
    and ins :: "'m \<Rightarrow> 'k \<Rightarrow> 'v \<Rightarrow> 'm"
    and del :: "'m \<Rightarrow> 'k \<Rightarrow> 'm"
    and entries :: "'m \<Rightarrow> ('k, 'v) btree"
    and inv :: "'m \<Rightarrow> bool" +
  fixes flr :: "'m \<Rightarrow> 'k \<Rightarrow> ('k \<times> 'v) option"
    and retain :: "'m \<Rightarrow> 'k \<Rightarrow> 'm"
    and range :: "'m \<Rightarrow> 'k bound \<Rightarrow> 'k bound \<Rightarrow> ('k \<times> 'v) list"
  assumes floor_entries: "inv m \<Longrightarrow> flr m k =
      (case filter (\<lambda>e. fst e \<le> k) (entries m) of [] \<Rightarrow> None | es \<Rightarrow> Some (last es))"
    and inv_retain: "inv m \<Longrightarrow> inv (retain m k)"
    and entries_retain: "inv m \<Longrightarrow> entries (retain m k) = filter (\<lambda>e. k \<le> fst e) (entries m)"
    and range_entries: "inv m \<Longrightarrow> range m s e =
      filter (\<lambda>x. \<not> below_start s (fst x) \<and> \<not> beyond_end e (fst x)) (entries m)"
begin

lemma get_retain: "inv m \<Longrightarrow> get (retain m k) a = (if k \<le> a then get m a else None)"
  by (simp add: get_map_of inv_retain entries_retain map_of_filter_key)

lemma floor_None: "inv m \<Longrightarrow> flr m k = None \<longleftrightarrow> (\<forall>a \<le> k. get m a = None)"
proof -
  assume "inv m"
  then have "flr m k = None \<longleftrightarrow> filter (\<lambda>e. fst e \<le> k) (entries m) = []"
    by (simp add: floor_entries split: list.split)
  also have "\<dots> \<longleftrightarrow> (\<forall>a \<le> k. map_of (entries m) a = None)"
    by (force simp: filter_empty_conv map_of_eq_None_iff)
  finally show ?thesis using \<open>inv m\<close> by (simp add: get_map_of)
qed

lemma floor_Some:
  assumes "inv m" "flr m k = Some (a, v)"
  shows "a \<le> k" "get m a = Some v" "\<And>b w. b \<le> k \<Longrightarrow> get m b = Some w \<Longrightarrow> b \<le> a"
proof -
  let ?es = "filter (\<lambda>e. fst e \<le> k) (entries m)"
  have ne: "?es \<noteq> []" and l: "last ?es = (a, v)"
    using assms by (auto simp: floor_entries split: list.splits)
  have mem: "(a, v) \<in> set ?es" using last_in_set [OF ne] l by simp
  then show "a \<le> k" by simp
  show "get m a = Some v" using mem assms(1) by (simp add: entries_iff [symmetric])
  have "bt_last_key ?es = Some a" using ne l by (simp add: bt_last_key_def)
  moreover have "bt_ok ?es" using assms(1) by (simp add: entries_ok bt_ok_filter)
  ultimately show "b \<le> k \<Longrightarrow> get m b = Some w \<Longrightarrow> b \<le> a" for b w
    using bt_last_key_greatest [of ?es a "(b, w)"] assms(1) by (simp add: entries_iff [symmetric])
qed

lemma range_iff:
  "inv m \<Longrightarrow> (k, v) \<in> set (range m s e) \<longleftrightarrow> get m k = Some v \<and> \<not> below_start s k \<and> \<not> beyond_end e k"
  by (auto simp: range_entries entries_iff)

lemma range_ordered: "inv m \<Longrightarrow> bt_ok (range m s e)"
  by (simp add: range_entries entries_ok bt_ok_filter)

end

text \<open>The AVL map provides the interface; so does the association list of \<^verbatim>\<open>BTreeMap\<close>.\<close>

definition om_inv :: "('k::linorder, 'v) link \<Rightarrow> bool" where
  "om_inv t = (bt_ok (om_entries t) \<and> avl t)"

lemma om_inv_simps [simp]:
  "om_inv NoLink"
  "om_inv t \<Longrightarrow> om_inv (om_insert t k v)"
  "om_inv t \<Longrightarrow> om_inv (om_remove t k)"
  "om_inv t \<Longrightarrow> om_inv (om_retain_from t k)"
  by (auto simp: om_inv_def avl_insert avl_remove avl_retain_from entries_insert entries_remove
      entries_retain_from bt_ok_filter)

interpretation om: ranged_store NoLink om_get om_insert om_remove om_entries om_inv
  om_floor om_retain_from om_range_list
  by unfold_locales
     (auto simp: om_inv_def get_entries entries_insert entries_remove floor_entries avl_insert
       avl_remove avl_retain_from entries_retain_from range_list_entries bt_ok_filter)

interpretation bt: ordered_store "[]" map_of "\<lambda>m k v. bt_insert k v m" "\<lambda>m k. bt_remove k m"
  "\<lambda>m. m" bt_ok
  by unfold_locales auto

section \<open>Properties\<close>

text \<open>
  C29 (ordered_map_refines): every operation of the persistent AVL map is the operation of the
  ordered list of its entries: lookup, insertion, removal, dropping a prefix, predecessor search
  and the lazily evaluated range iterator.
\<close>

theorem ordered_map_refines:
  assumes "om_inv t"
  shows "om_get t k = map_of (om_entries t) k \<and>
    om_entries (om_insert t k v) = bt_insert k v (om_entries t) \<and>
    om_entries (om_remove t k) = bt_remove k (om_entries t) \<and>
    om_entries (om_retain_from t k) = filter (\<lambda>e. k \<le> fst e) (om_entries t) \<and>
    om_floor t k = (case filter (\<lambda>e. fst e \<le> k) (om_entries t) of [] \<Rightarrow> None | es \<Rightarrow> Some (last es)) \<and>
    om_range_list t s e = filter (\<lambda>x. \<not> below_start s (fst x) \<and> \<not> beyond_end e (fst x)) (om_entries t)"
  by (intro conjI om.get_map_of [OF assms] om.entries_ins [OF assms] om.entries_del [OF assms]
      om.entries_retain [OF assms] om.floor_entries [OF assms] om.range_entries [OF assms])

lemma ordered_map_refines_witness:
  "om_range_list (om_insert (om_insert NoLink (2::nat) True) 1 False) (Excluded 1) Unbounded = [(2, True)]"
proof -
  let ?t = "om_insert (om_insert NoLink (2::nat) True) 1 False"
  have "om_inv ?t" by (intro om_inv_simps)
  from ordered_map_refines [OF this, of 0 True "Excluded 1" Unbounded]
  have "om_range_list ?t (Excluded 1) Unbounded =
      filter (\<lambda>x. \<not> below_start (Excluded 1) (fst x) \<and> \<not> beyond_end Unbounded (fst x)) (om_entries ?t)"
    by blast
  also have "\<dots> = [(2, True)]" by (simp add: balance_def mk_node_def)
  finally show ?thesis .
qed

datatype ('k, 'v) map_op = InsertOp 'k 'v | RemoveOp 'k | RetainOp 'k

fun map_step :: "('k::linorder, 'v) map_op \<Rightarrow> ('k, 'v) link \<Rightarrow> ('k, 'v) link" where
  "map_step (InsertOp k v) t = om_insert t k v"
| "map_step (RemoveOp k) t = om_remove t k"
| "map_step (RetainOp k) t = om_retain_from t k"

text \<open>
  Whatever operations built it, the map is ordered and AVL balanced,
  and its height is at most logarithmic in the number of its entries.
\<close>

theorem ordered_map_balanced:
  "let t = fold map_step ops NoLink in
   bt_ok (om_entries t) \<and> avl t \<and> 2 ^ (height t div 2) \<le> length (om_entries t) + 1"
proof -
  have "om_inv (fold map_step ops t)" if "om_inv t" for t :: "('a, 'b) link"
    using that
  proof (induction ops arbitrary: t)
    case (Cons x ops)
    then show ?case by (cases x) simp_all
  qed simp
  from this [of NoLink] show ?thesis
    using avl_size_bound by (auto simp: Let_def om_inv_def length_entries)
qed

end
