(* ===== verification/Entity_Data.thy ===== *)
theory Entity_Data
  imports History_Laws Ordered_Map
begin

text \<open>
  Models \<^verbatim>\<open>EntityData\<close> of \<^verbatim>\<open>model.rs\<close>: one entity in memory, with its current and base state, the
  events of the running transaction, the committed events and snapshots shared in persistent maps,
  and the checkpoint that holds its older history. The law: whatever is in memory and whatever on
  disk, every retained version is the one its events define, and dropping old history or publishing
  new events keeps that.
\<close>

section \<open>The data\<close>

record disk_history =
  dh_root :: root
  dh_pager :: store
  dh_table :: u64
  dh_through :: u64

text \<open>A charge is what a reservation holds: mutation bytes and decoded bytes.\<close>

type_synonym charge = "nat \<times> nat"

record entity_data =
  ed_charges :: "(u64, charge) link"
  ed_current :: entity
  ed_base :: entity
  ed_events :: "event list"
  ed_committed :: "(u64, event) link"
  ed_snapshots :: "(u64, entity) link"
  ed_disk :: "disk_history option"

section \<open>Operations\<close>

definition nearest_snapshot :: "entity_data \<Rightarrow> u64 \<Rightarrow> bool \<Rightarrow> entity" where
  "nearest_snapshot d version use_snapshots = (case om_floor (ed_snapshots d) version of
       Some (_, snapshot) \<Rightarrow> if use_snapshots \<and> en_version snapshot \<ge> en_version (ed_base d) then snapshot else ed_base d
     | None \<Rightarrow> ed_base d)"

definition from_disk :: "entity_data \<Rightarrow> u64 \<Rightarrow> bool \<Rightarrow> entity \<Rightarrow> entity res" where
  "from_disk d version use_snapshots state = (case ed_disk d of
       None \<Rightarrow> Inr state
     | Some disk \<Rightarrow>
         if en_version state < min version (dh_through disk) then
           (if use_snapshots \<and> version \<ge> dh_through disk
            then res_bind (current_state (dh_root disk) (dh_pager disk) (dh_table disk) (en_id (ed_current d)))
              (\<lambda>e. ok_or e (Corrupt ''history source disappeared''))
            else advance (dh_root disk) (dh_pager disk) (dh_table disk) (en_id (ed_current d)) state
              (min version (dh_through disk)) use_snapshots)
         else Inr state)"

definition entity_at :: "entity_data \<Rightarrow> table \<Rightarrow> u64 \<Rightarrow> bool \<Rightarrow> entity res" where
  "entity_at d table version use_snapshots =
     (if version < en_version (ed_base d) \<or> version > en_version (ed_current d)
      then Inl (VersionUnavailable version (en_version (ed_base d)) (en_version (ed_current d)))
      else if use_snapshots \<and> version = en_version (ed_current d) then Inr (ed_current d)
      else res_bind (from_disk d version use_snapshots (nearest_snapshot d version use_snapshots)) (\<lambda>state.
        res_bind (res_fold (\<lambda>e s. apply_event s (snd e) table)
            (om_range_list (ed_committed d) (Excluded (en_version state)) (Included version)) state) (\<lambda>state.
        res_bind (res_fold (\<lambda>e s. if ev_version e > en_version s then apply_event s e table else Inr s)
            (filter (\<lambda>e. ev_version e \<le> version) (ed_events d)) state) (\<lambda>state.
          if en_version state \<noteq> version then Inl (Corrupt ''gap in entity history'') else Inr state))))"

text \<open>The loop of \<^verbatim>\<open>visit_events\<close> over the events in memory.\<close>

fun visit_memory :: "store \<Rightarrow> ('s \<Rightarrow> 's res) \<Rightarrow> (nat \<Rightarrow> 's \<Rightarrow> (bool \<times> 's) res) \<Rightarrow> (event \<Rightarrow> 's \<Rightarrow> (bool \<times> 's) res) \<Rightarrow>
    event list \<Rightarrow> 's \<Rightarrow> (bool \<times> 's) res" where
  "visit_memory st check admit visit [] s = Inr (True, s)"
| "visit_memory st check admit visit (e # es) s =
     res_bind (check s) (\<lambda>s.
     res_bind (admit (event_bytes st e) s) (\<lambda>(go, s).
     if \<not> go then Inr (False, s)
     else res_bind (st_decoded st (event_bytes st e)) (\<lambda>_.
       res_bind (visit e s) (\<lambda>(go, s). if \<not> go then Inr (False, s) else visit_memory st check admit visit es s))))"

definition entity_visit_events :: "entity_data \<Rightarrow> store \<Rightarrow> u64 \<Rightarrow> u64 \<Rightarrow> ('s \<Rightarrow> 's res) \<Rightarrow> (nat \<Rightarrow> 's \<Rightarrow> (bool \<times> 's) res) \<Rightarrow>
    (event \<Rightarrow> 's \<Rightarrow> (bool \<times> 's) res) \<Rightarrow> 's \<Rightarrow> (bool \<times> 's) res" where
  "entity_visit_events d st low high check admit visit s =
     res_bind (case ed_disk d of
         None \<Rightarrow> Inr (True, s)
       | Some disk \<Rightarrow> if low \<le> min high (dh_through disk)
           then root_visit_events (dh_root disk) (dh_pager disk) (dh_table disk) (en_id (ed_current d)) low
             (min high (dh_through disk)) check admit visit s
           else Inr (True, s)) (\<lambda>(go, s).
     if \<not> go then Inr (False, s)
     else visit_memory st check admit visit
       (map snd (om_range_list (ed_committed d) (Included low) (Included high)) @
        filter (\<lambda>e. low \<le> ev_version e \<and> ev_version e \<le> high) (ed_events d)) s)"

definition entity_retain :: "entity_data \<Rightarrow> table \<Rightarrow> u64 \<Rightarrow> entity_data res" where
  "entity_retain d table count =
     (let version = saturating_sub64 (en_version (ed_current d)) count in
      if version \<le> en_version (ed_base d) then Inr d
      else res_bind (entity_at d table version True) (\<lambda>base.
        Inr (d\<lparr>ed_base := base, ed_events := filter (\<lambda>e. ev_version e > version) (ed_events d),
          ed_committed := (case checked_add64 version 1 of
              Some low \<Rightarrow> om_retain_from (ed_committed d) low | None \<Rightarrow> NoLink),
          ed_snapshots := om_retain_from (ed_snapshots d) version\<rparr>)))"

definition entity_seal :: "entity_data \<Rightarrow> entity_data" where
  "entity_seal d = d\<lparr>ed_events := [],
     ed_committed := fold (\<lambda>e t. om_insert t (ev_version e) e) (ed_events d) (ed_committed d)\<rparr>"

text \<open>\<^verbatim>\<open>Root::entity_charged\<close>: an entity as the checkpoint holds it.\<close>

definition entity_charged :: "root \<Rightarrow> store \<Rightarrow> u64 \<Rightarrow> u64 \<Rightarrow> (nat \<Rightarrow> 's \<Rightarrow> 's res) \<Rightarrow> 's \<Rightarrow> (entity_data option \<times> 's) res" where
  "entity_charged r st table ent charge s =
     res_bind (locate r st table ent) (\<lambda>l. case l of
         None \<Rightarrow> Inr (None, s)
       | Some (_, v) \<Rightarrow>
           res_bind (state_charged r st table 0 (fst v) ent charge s) (\<lambda>(current, s).
           res_bind (state_charged r st table 1 (snd v) ent charge s) (\<lambda>(base, s).
             if en_version base > en_version current then Inl (Corrupt ''invalid current/base reference'')
             else Inr (Some \<lparr>ed_charges = NoLink, ed_current = current, ed_base = base, ed_events = [],
               ed_committed = NoLink, ed_snapshots = NoLink,
               ed_disk = Some \<lparr>dh_root = r, dh_pager = st, dh_table = table, dh_through = en_version current\<rparr>\<rparr>, s))))"

definition root_entity :: "root \<Rightarrow> store \<Rightarrow> u64 \<Rightarrow> u64 \<Rightarrow> entity_data option res" where
  "root_entity r st table ent = res_bind (entity_charged r st table ent (\<lambda>_ s. Inr s) ()) (\<lambda>(d, _). Inr d)"

section \<open>What the data means\<close>

definition disk_limit :: "entity_data \<Rightarrow> u64" where
  "disk_limit d = (case ed_disk d of None \<Rightarrow> en_version (ed_base d) | Some disk \<Rightarrow> dh_through disk)"

definition disk_ok :: "entity_data \<Rightarrow> (u64 \<Rightarrow> entity) \<Rightarrow> (u64 \<Rightarrow> event) \<Rightarrow> bool" where
  "disk_ok d S ev = (case ed_disk d of
       None \<Rightarrow> True
     | Some disk \<Rightarrow> en_version (ed_base d) < dh_through disk \<longrightarrow>
         (\<exists>def low. low \<le> en_version (ed_base d) \<and>
           history_ok (dh_root disk) (dh_pager disk) (dh_table disk) (en_id (ed_current d)) def low (dh_through disk) S ev \<and>
           current_state (dh_root disk) (dh_pager disk) (dh_table disk) (en_id (ed_current d)) = Inr (Some (S (dh_through disk)))))"

text \<open>The committed events reach up to version \<open>c\<close>, those of the transaction go on from there.\<close>

definition events_ok :: "entity_data \<Rightarrow> (u64 \<Rightarrow> event) \<Rightarrow> u64 \<Rightarrow> bool" where
  "events_ok d ev c = (en_version (ed_base d) \<le> c \<and> disk_limit d \<le> c \<and> c \<le> en_version (ed_current d) \<and>
     (\<forall>v e. om_get (ed_committed d) v = Some e \<and> en_version (ed_base d) < v \<longrightarrow> disk_limit d < v \<and> v \<le> c \<and> e = ev v) \<and>
     (\<forall>v. disk_limit d < v \<and> en_version (ed_base d) < v \<and> v \<le> c \<longrightarrow> om_get (ed_committed d) v = Some (ev v)) \<and>
     ed_events d = map (\<lambda>n. ev (of_nat n)) [Suc (unat c)..<Suc (unat (en_version (ed_current d)))])"

definition data_ok :: "entity_data \<Rightarrow> table \<Rightarrow> (u64 \<Rightarrow> entity) \<Rightarrow> (u64 \<Rightarrow> event) \<Rightarrow> bool" where
  "data_ok d def S ev = (
     ed_base d = S (en_version (ed_base d)) \<and> ed_current d = S (en_version (ed_current d)) \<and>
     en_version (ed_base d) \<le> en_version (ed_current d) \<and>
     (\<forall>v. en_version (ed_base d) \<le> v \<and> v \<le> en_version (ed_current d) \<longrightarrow> en_version (S v) = v) \<and>
     (\<forall>v. en_version (ed_base d) < v \<and> v \<le> en_version (ed_current d) \<longrightarrow>
        ev_version (ev v) = v \<and> apply_event (S (v - 1)) (ev v) def = Inr (S v)) \<and>
     om_inv (ed_committed d) \<and> om_inv (ed_snapshots d) \<and>
     (\<forall>v s. om_get (ed_snapshots d) v = Some s \<longrightarrow> v \<le> en_version (ed_current d) \<and>
        en_version s = v \<and> (en_version (ed_base d) \<le> v \<longrightarrow> s = S v)) \<and>
     disk_ok d S ev \<and> (\<exists>c. events_ok d ev c))"

end
