(* ===== verification/Entity_Data_Laws.thy ===== *)
theory Entity_Data_Laws
  imports Entity_Data
begin

text \<open>
  The laws of \<^verbatim>\<open>EntityData\<close>: every retained version is read as the state its events define, whichever
  of the checkpoint, the snapshots, the committed events and the transaction's own events it takes;
  retention and sealing keep that.
\<close>

section \<open>Lists of versions\<close>

lemma of_nat_unat_id: "of_nat (unat x) = (x :: u64)"
  by simp

lemma versions_set:
  fixes m :: u64 and b :: u64 and f :: "u64 \<Rightarrow> 'a"
  shows "set (map (\<lambda>n. (of_nat n :: u64, f (of_nat n))) [Suc (unat b)..<Suc (unat m)]) = {(w, f w) | w. b < w \<and> w \<le> m}"
proof (intro set_eqI iffI)
  fix e assume "e \<in> set (map (\<lambda>n. (of_nat n :: u64, f (of_nat n))) [Suc (unat b)..<Suc (unat m)])"
  then obtain n where n: "e = (of_nat n, f (of_nat n))" "Suc (unat b) \<le> n" "n < Suc (unat m)" by auto
  then have "unat (of_nat n :: u64) = n" using unat_less_u64 [of m] by (simp add: unat_of_nat)
  then have "b < of_nat n" "of_nat n \<le> m" using n(2,3) by (simp_all add: word_less_nat_alt word_le_nat_alt)
  then show "e \<in> {(w, f w) | w. b < w \<and> w \<le> m}" using n(1) by blast
next
  fix e assume "e \<in> {(w, f w) | w. b < w \<and> w \<le> m}"
  then obtain w where w: "e = (w, f w)" "b < w" "w \<le> m" by blast
  then have "unat w \<in> set [Suc (unat b)..<Suc (unat m)]"
    by (simp add: word_less_nat_alt word_le_nat_alt less_Suc_eq_le del: upt_Suc)
  then show "e \<in> set (map (\<lambda>n. (of_nat n :: u64, f (of_nat n))) [Suc (unat b)..<Suc (unat m)])"
    unfolding set_map using w(1) by (intro image_eqI [of _ _ "unat w"]) simp_all
qed

lemma versions_ok:
  fixes m :: u64 and b :: u64 and f :: "nat \<Rightarrow> 'a"
  shows "bt_ok (map (\<lambda>n. (of_nat n :: u64, f n)) [Suc (unat b)..<Suc (unat m)])"
proof -
  have "sorted_wrt (\<lambda>i j. (of_nat i :: u64) < of_nat j) [Suc (unat b)..<Suc (unat m)]"
  proof (rule sorted_wrt_mono_rel)
    show "sorted_wrt (<) [Suc (unat b)..<Suc (unat m)]" by (simp del: upt_Suc)
    fix i j assume "i \<in> set [Suc (unat b)..<Suc (unat m)]" "j \<in> set [Suc (unat b)..<Suc (unat m)]" "i < j"
    moreover from this have "i < 2 ^ 64" "j < 2 ^ 64" using unat_less_u64 [of m] by auto
    ultimately show "(of_nat i :: u64) < of_nat j" by (simp add: word_less_nat_alt unat_of_nat)
  qed
  then show ?thesis by (simp add: bt_ok_def sorted_wrt_map)
qed

lemma om_versions:
  fixes m :: u64 and b :: u64 and f :: "u64 \<Rightarrow> 'a"
  assumes "om_inv t" "\<And>w. b < w \<Longrightarrow> w \<le> v \<Longrightarrow> om_get t w = (if w \<le> m then Some (f w) else None)" "m \<le> v"
  shows "om_range_list t (Excluded b) (Included v) = map (\<lambda>n. (of_nat n :: u64, f (of_nat n))) [Suc (unat b)..<Suc (unat m)]"
proof (rule bt_eq_setI [OF om.range_ordered [OF assms(1)] versions_ok])
  have "e \<in> set (om_range_list t (Excluded b) (Included v)) \<longleftrightarrow> om_get t (fst e) = Some (snd e) \<and> b < fst e \<and> fst e \<le> v" for e
    using om.range_iff [OF assms(1), of "fst e" "snd e"] by (simp add: not_le not_less)
  then show "set (om_range_list t (Excluded b) (Included v)) = set (map (\<lambda>n. (of_nat n :: u64, f (of_nat n))) [Suc (unat b)..<Suc (unat m)])"
    unfolding versions_set using assms(2,3) by (fastforce split: if_splits)
qed

lemma filter_upt: "filter (\<lambda>n. n \<le> v) [a..<b] = [a..<min b (Suc v)]"
  by (induction b) (auto simp: min_def le_Suc_eq not_le)

lemma replay_committed:
  fixes S :: "u64 \<Rightarrow> entity" and ev :: "u64 \<Rightarrow> event"
  assumes "\<And>v. of_nat a < v \<Longrightarrow> v \<le> of_nat c \<Longrightarrow> apply_event (S (v - 1)) (ev v) def = Inr (S v)" "c < 2 ^ 64" "a \<le> n" "n \<le> c"
  shows "res_fold (\<lambda>e s. apply_event s (snd e) def) (map (\<lambda>n. (of_nat n :: u64, ev (of_nat n))) [Suc a..<Suc n]) (S (of_nat a)) = Inr (S (of_nat n))"
  using assms(3,4)
proof (induction n rule: dec_induct)
  case (step n)
  let ?v = "of_nat (Suc n) :: u64"
  have "of_nat a < ?v" "?v \<le> of_nat c"
    using step assms(2) by (simp_all only: word_less_nat_alt word_le_nat_alt unat_of_nat) simp_all
  from assms(1) [OF this] have "apply_event (S (of_nat n)) (ev ?v) def = Inr (S ?v)" by simp
  moreover have "[Suc a..<Suc (Suc n)] = [Suc a..<Suc n] @ [Suc n]" using step.hyps by simp
  ultimately show ?case using step.IH step.prems by (simp del: upt_Suc of_nat_Suc)
qed simp

lemma replay_pending:
  fixes m c :: nat and S :: "u64 \<Rightarrow> entity" and ev :: "u64 \<Rightarrow> event"
  assumes "\<And>v. of_nat a < v \<Longrightarrow> v \<le> of_nat c \<Longrightarrow> ev_version (ev v) = v \<and> apply_event (S (v - 1)) (ev v) def = Inr (S v)"
    and ver: "\<And>n. a \<le> n \<Longrightarrow> n \<le> max m c \<Longrightarrow> en_version (S (of_nat n)) = of_nat n" and c: "max m c < 2 ^ 64" "a \<le> m" and n: "a \<le> n" "n \<le> c"
  shows "res_fold (\<lambda>e s. if ev_version e > en_version s then apply_event s e def else Inr s)
    (map (\<lambda>n. ev (of_nat n)) [Suc a..<Suc n]) (S (of_nat m)) = Inr (S (of_nat (max m n)))"
  using n
proof (induction n rule: dec_induct)
  case base
  then show ?case using c(2) by (simp add: max_def)
next
  case (step n)
  let ?v = "of_nat (Suc n) :: u64"
  have less: "of_nat a < ?v" "?v \<le> of_nat c"
    using step c(1) by (simp_all only: word_less_nat_alt word_le_nat_alt unat_of_nat) simp_all
  note ev = assms(1) [OF less]
  have list: "[Suc a..<Suc (Suc n)] = [Suc a..<Suc n] @ [Suc n]" using step.hyps by simp
  have cur: "en_version (S (of_nat (max m n))) = of_nat (max m n)" by (rule ver) (use step c in auto)
  have "(?v > of_nat (max m n)) = (Suc n > max m n)"
    using step c(1) by (simp only: word_less_nat_alt unat_of_nat) simp
  then have cmp: "(ev_version (ev ?v) > en_version (S (of_nat (max m n)))) = (m \<le> n)" using ev cur by auto
  show ?case
  proof (cases "m \<le> n")
    case True
    then have "max m n = n" "max m (Suc n) = Suc n" by simp_all
    then show ?thesis using step ev cmp True by (simp add: list del: upt_Suc of_nat_Suc) simp
  next
    case False
    then have "max m n = m" "max m (Suc n) = m" by simp_all
    then show ?thesis using step cmp False by (simp add: list del: upt_Suc of_nat_Suc)
  qed
qed

section \<open>Reading a version\<close>

lemma nearest_snapshot_state:
  assumes d: "data_ok d def S ev" and v: "en_version (ed_base d) \<le> v" "v \<le> en_version (ed_current d)"
  shows "\<exists>b. nearest_snapshot d v u = S b \<and> en_version (ed_base d) \<le> b \<and> b \<le> v"
proof (cases "om_floor (ed_snapshots d) v")
  case None
  then show ?thesis using d v by (intro exI [of _ "en_version (ed_base d)"]) (auto simp: nearest_snapshot_def data_ok_def)
next
  case (Some e)
  obtain k s where e: "e = (k, s)" by (cases e)
  have inv: "om_inv (ed_snapshots d)" using d by (simp add: data_ok_def)
  have k: "k \<le> v" "om_get (ed_snapshots d) k = Some s" using om.floor_Some [OF inv] Some e by blast+
  then have s: "en_version s = k" "en_version (ed_base d) \<le> k \<longrightarrow> s = S k" using d v by (auto simp: data_ok_def)
  show ?thesis
  proof (cases "u \<and> en_version (ed_base d) \<le> k")
    case True
    then show ?thesis using s k Some e by (intro exI [of _ k]) (simp add: nearest_snapshot_def)
  next
    case False
    then have "nearest_snapshot d v u = ed_base d" using s Some e by (auto simp: nearest_snapshot_def)
    then show ?thesis using d v by (intro exI [of _ "en_version (ed_base d)"]) (simp add: data_ok_def)
  qed
qed

lemma from_disk_state:
  assumes d: "data_ok d def S ev" and v: "en_version (ed_base d) \<le> b" "b \<le> v" "v \<le> en_version (ed_current d)"
  shows "\<exists>c. from_disk d v u (S b) = Inr (S c) \<and> b \<le> c \<and> c \<le> v \<and> (c = v \<or> disk_limit d \<le> c)"
proof (cases "ed_disk d")
  case None
  then show ?thesis using v by (intro exI [of _ b]) (simp add: from_disk_def disk_limit_def)
next
  case (Some k)
  let ?t = "dh_through k"
  have ver: "en_version (S b) = b" using d v by (simp add: data_ok_def)
  have lim: "disk_limit d = ?t" by (simp add: disk_limit_def Some)
  show ?thesis
  proof (cases "b < min v ?t")
    case False
    then show ?thesis using v ver Some lim by (intro exI [of _ b]) (auto simp: from_disk_def min_def split: if_splits)
  next
    case True
    then have "en_version (ed_base d) < ?t" using v(1) by (meson less_le_trans le_less_trans min.cobounded2)
    then obtain def' low where h: "low \<le> en_version (ed_base d)"
        "history_ok (dh_root k) (dh_pager k) (dh_table k) (en_id (ed_current d)) def' low ?t S ev"
        "current_state (dh_root k) (dh_pager k) (dh_table k) (en_id (ed_current d)) = Inr (Some (S ?t))"
      using d Some by (auto simp: data_ok_def disk_ok_def)
    show ?thesis
    proof (cases "u \<and> ?t \<le> v")
      case True
      then show ?thesis using \<open>b < min v ?t\<close> ver h(3) Some lim
        by (intro exI [of _ ?t]) (simp add: from_disk_def)
    next
      case False
      have "advance (dh_root k) (dh_pager k) (dh_table k) (en_id (ed_current d)) (S b) (min v ?t) u = Inr (S (min v ?t))"
        by (rule advance_reconstructs [OF h(2)]) (use h(1) v(1) True in auto)
      then show ?thesis using False True ver Some lim
        by (intro exI [of _ "min v ?t"]) (auto simp: from_disk_def min_def)
    qed
  qed
qed

lemma entity_at_exact:
  assumes d: "data_ok d def S ev"
  shows "entity_at d def v u = (if v < en_version (ed_base d) \<or> en_version (ed_current d) < v
    then Inl (VersionUnavailable v (en_version (ed_base d)) (en_version (ed_current d))) else Inr (S v))"
proof (cases "v < en_version (ed_base d) \<or> en_version (ed_current d) < v \<or> u \<and> v = en_version (ed_current d)")
  case True
  then show ?thesis using d by (auto simp: entity_at_def data_ok_def)
next
  case False
  let ?base = "en_version (ed_base d)" and ?cur = "en_version (ed_current d)"
  have v: "?base \<le> v" "v \<le> ?cur" using False by auto
  obtain b where b: "nearest_snapshot d v u = S b" "?base \<le> b" "b \<le> v" using nearest_snapshot_state [OF d v] by blast
  obtain s where s: "from_disk d v u (S b) = Inr (S s)" "b \<le> s" "s \<le> v" "s = v \<or> disk_limit d \<le> s"
    using from_disk_state [OF d b(2,3) v(2)] by blast
  have sb: "?base \<le> s" using b(2) s(2) by order
  have ver: "en_version (S w) = w" if "?base \<le> w" "w \<le> ?cur" for w using d that by (simp add: data_ok_def)
  have evs: "ev_version (ev w) = w \<and> apply_event (S (w - 1)) (ev w) def = Inr (S w)" if "?base < w" "w \<le> ?cur" for w
    using d that by (simp add: data_ok_def)
  obtain c where c: "?base \<le> c" "disk_limit d \<le> c" "c \<le> ?cur"
      "\<And>w e. om_get (ed_committed d) w = Some e \<Longrightarrow> ?base < w \<Longrightarrow> w \<le> c \<and> e = ev w"
      "\<And>w. disk_limit d < w \<Longrightarrow> ?base < w \<Longrightarrow> w \<le> c \<Longrightarrow> om_get (ed_committed d) w = Some (ev w)"
      "ed_events d = map (\<lambda>n. ev (of_nat n)) [Suc (unat c)..<Suc (unat ?cur)]"
    using d unfolding data_ok_def events_ok_def by blast
  let ?m = "max s (min v c)"
  have m: "s \<le> ?m" "?m \<le> v" using s(3) by auto
  have comm: "om_range_list (ed_committed d) (Excluded s) (Included v) = map (\<lambda>n. (of_nat n, ev (of_nat n))) [Suc (unat s)..<Suc (unat ?m)]"
  proof (rule om_versions)
    show "om_inv (ed_committed d)" using d by (simp add: data_ok_def)
    fix w assume w: "s < w" "w \<le> v"
    then have dl: "disk_limit d < w" "?base < w" using s(4) sb by auto
    show "om_get (ed_committed d) w = (if w \<le> ?m then Some (ev w) else None)"
    proof (cases "w \<le> c")
      case True
      then show ?thesis using c(5) [OF dl] w by (auto simp: max_def min_def)
    next
      case False
      then have "om_get (ed_committed d) w = None" using c(4) [of w] dl(2) by (metis not_None_eq)
      then show ?thesis using False w by (auto simp: max_def min_def)
    qed
  qed (rule m(2))
  have "res_fold (\<lambda>e s. apply_event s (snd e) def) (map (\<lambda>n. (of_nat n :: u64, ev (of_nat n))) [Suc (unat s)..<Suc (unat ?m)]) (S (of_nat (unat s))) =
      Inr (S (of_nat (unat ?m)))"
  proof (rule replay_committed)
    show "apply_event (S (w - 1)) (ev w) def = Inr (S w)" if "of_nat (unat s) < w" "w \<le> of_nat (unat ?m)" for w
    proof -
      have "s < w" "w \<le> ?m" using that by (simp_all only: of_nat_unat_id)
      then have "?base < w" "w \<le> ?cur" using sb m(2) v(2) by order+
      then show ?thesis using evs by blast
    qed
    show "unat s \<le> unat ?m" using m(1) by (simp only: word_le_nat_alt)
  qed (use unat_less_u64 in auto)
  then have fold1: "res_fold (\<lambda>e s. apply_event s (snd e) def) (om_range_list (ed_committed d) (Excluded s) (Included v)) (S s) = Inr (S ?m)"
    by (simp only: comm of_nat_unat_id)
  have filt: "filter (\<lambda>e. ev_version e \<le> v) (ed_events d) = map (\<lambda>n. ev (of_nat n)) [Suc (unat c)..<Suc (unat v)]"
  proof -
    have "ev_version (ev (of_nat n)) \<le> v \<longleftrightarrow> n \<le> unat v" if "n \<in> set [Suc (unat c)..<Suc (unat ?cur)]" for n
    proof -
      have u: "unat (of_nat n :: u64) = n" using that unat_less_u64 [of ?cur] by (auto simp: unat_of_nat)
      then have "?base < of_nat n" "of_nat n \<le> ?cur" using that c(1) by (auto simp: word_less_nat_alt word_le_nat_alt)
      then show ?thesis using evs u by (simp add: word_le_nat_alt)
    qed
    then have "filter (\<lambda>e. ev_version e \<le> v) (ed_events d) = map (\<lambda>n. ev (of_nat n)) (filter (\<lambda>n. n \<le> unat v) [Suc (unat c)..<Suc (unat ?cur)])"
      unfolding c(6) filter_map comp_def by (intro arg_cong [where f = "map _"] filter_cong) simp_all
    also have "filter (\<lambda>n. n \<le> unat v) [Suc (unat c)..<Suc (unat ?cur)] = [Suc (unat c)..<Suc (unat v)]"
      using v(2) by (simp only: filter_upt) (simp add: word_le_nat_alt min_def)
    finally show ?thesis .
  qed
  have fold2: "res_fold (\<lambda>e s. if ev_version e > en_version s then apply_event s e def else Inr s)
      (filter (\<lambda>e. ev_version e \<le> v) (ed_events d)) (S ?m) = Inr (S v)"
  proof (cases "c \<le> v")
    case False
    then have "[Suc (unat c)..<Suc (unat v)] = []" by (simp add: word_le_nat_alt)
    moreover have "?m = v" using False s(3) by (auto simp: max_def min_def)
    ultimately show ?thesis by (simp add: filt del: upt_Suc)
  next
    case True
    have m: "?m = max s c" using True by (simp add: min_def)
    have "res_fold (\<lambda>e s. if ev_version e > en_version s then apply_event s e def else Inr s)
        (map (\<lambda>n. ev (of_nat n)) [Suc (unat c)..<Suc (unat v)]) (S (of_nat (unat ?m))) = Inr (S (of_nat (max (unat ?m) (unat v))))"
    proof (rule replay_pending [where c = "unat v"])
      show "ev_version (ev w) = w \<and> apply_event (S (w - 1)) (ev w) def = Inr (S w)" if "of_nat (unat c) < w" "w \<le> of_nat (unat v)" for w
        using that c(1) v(2) by (intro evs) auto
      show "en_version (S (of_nat n)) = of_nat n" if "unat c \<le> n" "n \<le> max (unat ?m) (unat v)" for n
      proof (rule ver)
        have "max (unat ?m) (unat v) = unat v" using \<open>?m \<le> v\<close> by (simp add: word_le_nat_alt max_def)
        then have "unat (of_nat n :: u64) = n" "n \<le> unat v" using that unat_less_u64 [of v] by (auto simp: unat_of_nat)
        then show "?base \<le> of_nat n" "of_nat n \<le> ?cur" using that(1) c(1) v(2) by (auto simp: word_le_nat_alt)
      qed
      show "max (unat ?m) (unat v) < 2 ^ 64" using unat_less_u64 by (metis max_def)
      show "unat c \<le> unat ?m" "unat c \<le> unat v" using True m by (auto simp: word_le_nat_alt [symmetric])
    qed simp
    moreover have "max (unat ?m) (unat v) = unat v" using \<open>?m \<le> v\<close> by (simp add: word_le_nat_alt max_def)
    ultimately show ?thesis by (simp only: filt of_nat_unat_id)
  qed
  have "en_version (S s) = s" "en_version (S v) = v" using ver sb s(3) v by auto
  then show ?thesis using False b(1) s(1) fold1 fold2 v by (auto simp: entity_at_def)
qed

section \<open>Dropping and publishing\<close>

lemma retained_from:
  assumes "om_inv t"
  shows "om_inv (case checked_add64 v 1 of Some low \<Rightarrow> om_retain_from t low | None \<Rightarrow> NoLink)"
    and "om_get (case checked_add64 v 1 of Some low \<Rightarrow> om_retain_from t low | None \<Rightarrow> NoLink) w = (if v < w then om_get t w else None)"
proof -
  show "om_inv (case checked_add64 v 1 of Some low \<Rightarrow> om_retain_from t low | None \<Rightarrow> NoLink)"
    using assms by (simp split: option.split)
  show "om_get (case checked_add64 v 1 of Some low \<Rightarrow> om_retain_from t low | None \<Rightarrow> NoLink) w = (if v < w then om_get t w else None)"
  proof (cases "checked_add64 v 1")
    case None
    then have "\<not> v < w" by (simp add: checked_add64_1_None_iff)
    then show ?thesis using None by simp
  next
    case (Some low)
    then have "unat low = Suc (unat v)" by (simp add: checked_add64_Some_iff)
    then have "low \<le> w \<longleftrightarrow> v < w" by (auto simp: word_le_nat_alt word_less_nat_alt)
    then show ?thesis using Some om.get_retain [OF assms] by simp
  qed
qed

lemma later_events:
  assumes "\<And>n. n \<in> set [Suc (unat c)..<Suc (unat cur)] \<Longrightarrow> ev_version (ev (of_nat n)) = of_nat n"
  shows "filter (\<lambda>e. (v :: u64) < ev_version e) (map (\<lambda>n. ev (of_nat n)) [Suc (unat c)..<Suc (unat (cur :: u64))]) =
    map (\<lambda>n. ev (of_nat n)) [Suc (unat (max c v))..<Suc (unat cur)]"
proof -
  have "v < ev_version (ev (of_nat n)) \<longleftrightarrow> Suc (unat v) \<le> n" if "n \<in> set [Suc (unat c)..<Suc (unat cur)]" for n
  proof -
    have "unat (of_nat n :: u64) = n" using that unat_less_u64 [of cur] by (auto simp: unat_of_nat)
    then show ?thesis using assms [OF that] by (simp add: word_less_nat_alt Suc_le_eq)
  qed
  then have "filter (\<lambda>e. v < ev_version e) (map (\<lambda>n. ev (of_nat n)) [Suc (unat c)..<Suc (unat cur)]) =
      map (\<lambda>n. ev (of_nat n)) (filter (\<lambda>n. Suc (unat v) \<le> n) [Suc (unat c)..<Suc (unat cur)])"
    unfolding filter_map comp_def by (intro arg_cong [where f = "map _"] filter_cong) simp_all
  also have "filter (\<lambda>n. a \<le> n) [b..<k] = [max b a..<k]" for a b k :: nat
    by (induction k) (auto simp: max_def le_Suc_eq)
  finally show ?thesis by (simp add: max_def word_le_nat_alt)
qed

lemma data_versions: "data_ok d def S ev \<Longrightarrow> en_version (ed_base d) \<le> c \<Longrightarrow>
    n \<in> set [Suc (unat c)..<Suc (unat (en_version (ed_current d)))] \<Longrightarrow> ev_version (ev (of_nat n)) = of_nat n"
proof -
  assume d: "data_ok d def S ev" "en_version (ed_base d) \<le> c"
    and n: "n \<in> set [Suc (unat c)..<Suc (unat (en_version (ed_current d)))]"
  then have "unat (of_nat n :: u64) = n" using unat_less_u64 [of "en_version (ed_current d)"] by (auto simp: unat_of_nat)
  then have "c < of_nat n" "of_nat n \<le> en_version (ed_current d)" using n by (auto simp: word_less_nat_alt word_le_nat_alt)
  then show ?thesis using d by (simp add: data_ok_def)
qed

text \<open>What a data value drops when its base moves up to \<open>v\<close>.\<close>

definition drop_before :: "entity_data \<Rightarrow> u64 \<Rightarrow> entity \<Rightarrow> entity_data" where
  "drop_before d v base = d\<lparr>ed_base := base, ed_events := filter (\<lambda>e. ev_version e > v) (ed_events d),
     ed_committed := (case checked_add64 v 1 of Some low \<Rightarrow> om_retain_from (ed_committed d) low | None \<Rightarrow> NoLink),
     ed_snapshots := om_retain_from (ed_snapshots d) v\<rparr>"

lemma drop_before_ok:
  assumes d: "data_ok d def S ev" and v: "en_version (ed_base d) \<le> v" "v \<le> en_version (ed_current d)"
  shows "data_ok (drop_before d v (S v)) def S ev"
proof -
  have sv: "en_version (S v) = v" using d v by (simp add: data_ok_def)
  have inv: "om_inv (ed_committed d)" "om_inv (ed_snapshots d)" using d by (simp_all add: data_ok_def)
  obtain c where c: "en_version (ed_base d) \<le> c" "disk_limit d \<le> c" "c \<le> en_version (ed_current d)"
      "\<And>w e. om_get (ed_committed d) w = Some e \<Longrightarrow> en_version (ed_base d) < w \<Longrightarrow> disk_limit d < w \<and> w \<le> c \<and> e = ev w"
      "\<And>w. disk_limit d < w \<Longrightarrow> en_version (ed_base d) < w \<Longrightarrow> w \<le> c \<Longrightarrow> om_get (ed_committed d) w = Some (ev w)"
      "ed_events d = map (\<lambda>n. ev (of_nat n)) [Suc (unat c)..<Suc (unat (en_version (ed_current d)))]"
    using d unfolding data_ok_def events_ok_def by blast
  have limit: "disk_limit (drop_before d v (S v)) = (if ed_disk d = None then v else disk_limit d)"
    by (simp add: drop_before_def disk_limit_def sv split: option.split)
  have events: "events_ok (drop_before d v (S v)) ev (max c v)"
    unfolding events_ok_def
  proof (intro conjI allI impI)
    show "disk_limit (drop_before d v (S v)) \<le> max c v" using limit c(2) by (simp add: le_max_iff_disj)
    show "om_get (ed_committed (drop_before d v (S v))) w = Some (ev w)"
      if w: "disk_limit (drop_before d v (S v)) < w \<and> en_version (ed_base (drop_before d v (S v))) < w \<and> w \<le> max c v" for w
    proof -
      have "v < w" using w by (simp add: drop_before_def sv)
      then have "en_version (ed_base d) < w" using v(1) by (rule le_less_trans [rotated])
      moreover have "w \<le> c" using w \<open>v < w\<close> by (auto simp: le_max_iff_disj)
      moreover from this have "disk_limit d < w"
        using w limit \<open>en_version (ed_base d) < w\<close> by (cases "ed_disk d") (simp_all add: disk_limit_def)
      ultimately show ?thesis using c(5) \<open>v < w\<close> retained_from(2) [OF inv(1)] by (simp add: drop_before_def)
    qed
    show "disk_limit (drop_before d v (S v)) < w" "w \<le> max c v" "e = ev w"
      if "om_get (ed_committed (drop_before d v (S v))) w = Some e \<and> en_version (ed_base (drop_before d v (S v))) < w" for w e
    proof -
      have "v < w" "om_get (ed_committed d) w = Some e"
        using that retained_from(2) [OF inv(1)] by (simp_all add: drop_before_def sv split: if_splits)
      moreover from this have "disk_limit d < w \<and> w \<le> c \<and> e = ev w" using c(4) v(1) by auto
      ultimately show "disk_limit (drop_before d v (S v)) < w" "w \<le> max c v" "e = ev w" by (simp_all add: le_max_iff_disj limit)
    qed
    show "ed_events (drop_before d v (S v)) =
        map (\<lambda>n. ev (of_nat n)) [Suc (unat (max c v))..<Suc (unat (en_version (ed_current (drop_before d v (S v)))))]"
      unfolding drop_before_def using later_events [OF data_versions [OF d c(1)]] by (simp add: c(6) del: upt_Suc)
  qed (use sv v c(3) in \<open>auto simp: drop_before_def\<close>)
  have disk: "disk_ok (drop_before d v (S v)) S ev"
  proof (cases "ed_disk d")
    case (Some k)
    then show ?thesis using d v(1) unfolding data_ok_def disk_ok_def drop_before_def
      by (simp add: sv) (meson le_less_trans order_trans)
  qed (simp add: disk_ok_def drop_before_def)
  have snaps: "w \<le> en_version (ed_current d) \<and> en_version s = w \<and> (v \<le> w \<longrightarrow> s = S w)"
    if "om_get (om_retain_from (ed_snapshots d) v) w = Some s" for w s
    using that d v(1) om.get_retain [OF inv(2)] unfolding data_ok_def by (auto split: if_splits)
  have up: "\<And>w. v \<le> w \<Longrightarrow> en_version (ed_base d) \<le> w" "\<And>w. v < w \<Longrightarrow> en_version (ed_base d) < w"
    using v(1) by (meson order_trans, meson le_less_trans)
  show ?thesis
    unfolding data_ok_def
  proof (intro conjI)
    show "\<exists>c. events_ok (drop_before d v (S v)) ev c" using events by blast
  qed (use d sv v(2) up snaps disk inv retained_from(1) [OF inv(1)] in \<open>simp_all add: drop_before_def data_ok_def\<close>)
qed

lemma saturating_sub_le: "saturating_sub64 a b \<le> a"
  by (simp add: saturating_sub64_def word_sub_le)

lemma retain_ok:
  assumes "data_ok d def S ev"
  shows "\<exists>d'. entity_retain d def count = Inr d' \<and> data_ok d' def S ev \<and> ed_current d' = ed_current d \<and>
    en_version (ed_base d') = max (en_version (ed_base d)) (saturating_sub64 (en_version (ed_current d)) count)"
proof (cases "saturating_sub64 (en_version (ed_current d)) count \<le> en_version (ed_base d)")
  case True
  then show ?thesis using assms by (simp add: entity_retain_def max_def)
next
  case False
  let ?v = "saturating_sub64 (en_version (ed_current d)) count"
  have v: "en_version (ed_base d) \<le> ?v" "?v \<le> en_version (ed_current d)" using False saturating_sub_le by auto
  have "\<not> (?v < en_version (ed_base d) \<or> en_version (ed_current d) < ?v)" using v by (simp only: not_le [symmetric] not_less) simp
  then have "entity_at d def ?v True = Inr (S ?v)" using entity_at_exact [OF assms, of ?v True] by (simp only: if_False)
  then have "entity_retain d def count = Inr (drop_before d ?v (S ?v))"
    using False by (simp add: entity_retain_def drop_before_def Let_def)
  moreover have "en_version (S ?v) = ?v" using assms v unfolding data_ok_def by blast
  ultimately show ?thesis using drop_before_ok [OF assms v] v by (simp add: drop_before_def max_def)
qed

lemma seal_committed:
  assumes "om_inv t" "a \<le> n" "n < 2 ^ 64" "\<And>k. a < k \<Longrightarrow> k \<le> n \<Longrightarrow> ev_version (ev (of_nat k)) = (of_nat k :: u64)"
  shows "om_inv (fold (\<lambda>e t. om_insert t (ev_version e) e) (map (\<lambda>n. ev (of_nat n)) [Suc a..<Suc n]) t) \<and>
    om_get (fold (\<lambda>e t. om_insert t (ev_version e) e) (map (\<lambda>n. ev (of_nat n)) [Suc a..<Suc n]) t) w =
      (if a < unat w \<and> unat w \<le> n then Some (ev w) else om_get t w)"
  using assms(2-)
proof (induction n rule: dec_induct)
  case (step n)
  let ?t = "fold (\<lambda>e t. om_insert t (ev_version e) e) (map (\<lambda>n. ev (of_nat n)) [Suc a..<Suc n]) t"
  have list: "[Suc a..<Suc (Suc n)] = [Suc a..<Suc n] @ [Suc n]" using step.hyps by simp
  have IH: "om_inv ?t" "om_get ?t w = (if a < unat w \<and> unat w \<le> n then Some (ev w) else om_get t w)"
    using step.IH step.prems by simp_all
  have v: "ev_version (ev (of_nat (Suc n))) = (of_nat (Suc n) :: u64)"
    using step.prems(2) [of "Suc n"] step.hyps by (simp del: of_nat_Suc)
  have "unat (of_nat (Suc n) :: u64) = Suc n" using step.prems(1) by (simp only: unat_of_nat) simp
  then have eq: "w = of_nat (Suc n) \<longleftrightarrow> unat w = Suc n" by (simp only: word_unat_eq_iff)
  show ?case using IH om.get_ins [OF IH(1)] step.hyps eq
    by (auto simp: list v simp del: upt_Suc of_nat_Suc)
qed (use assms(1) in \<open>auto simp del: upt_Suc simp: upt_rec\<close>)

lemma seal_fields [simp]: "disk_limit (entity_seal d) = disk_limit d" "ed_base (entity_seal d) = ed_base d"
    "ed_current (entity_seal d) = ed_current d" "ed_events (entity_seal d) = []" "ed_snapshots (entity_seal d) = ed_snapshots d"
    "ed_disk (entity_seal d) = ed_disk d"
  by (simp_all add: entity_seal_def disk_limit_def split: option.split)

lemma seal_ok:
  assumes d: "data_ok d def S ev"
  shows "data_ok (entity_seal d) def S ev"
proof -
  let ?cur = "en_version (ed_current d)"
  have inv: "om_inv (ed_committed d)" using d by (simp add: data_ok_def)
  obtain c where c: "en_version (ed_base d) \<le> c" "disk_limit d \<le> c" "c \<le> ?cur"
      "\<And>w e. om_get (ed_committed d) w = Some e \<Longrightarrow> en_version (ed_base d) < w \<Longrightarrow> disk_limit d < w \<and> w \<le> c \<and> e = ev w"
      "\<And>w. disk_limit d < w \<Longrightarrow> en_version (ed_base d) < w \<Longrightarrow> w \<le> c \<Longrightarrow> om_get (ed_committed d) w = Some (ev w)"
      "ed_events d = map (\<lambda>n. ev (of_nat n)) [Suc (unat c)..<Suc (unat ?cur)]"
    using d unfolding data_ok_def events_ok_def by blast
  have seal: "om_inv (ed_committed (entity_seal d)) \<and> om_get (ed_committed (entity_seal d)) w =
      (if c < w \<and> w \<le> ?cur then Some (ev w) else om_get (ed_committed d) w)" for w
    using seal_committed [OF inv, of "unat c" "unat ?cur" ev w] data_versions [OF d c(1)] c(3) unat_less_u64 [of ?cur]
    by (simp add: entity_seal_def c(6) word_le_nat_alt word_less_nat_alt del: upt_Suc)
  have "events_ok (entity_seal d) ev ?cur"
    unfolding events_ok_def
  proof (intro conjI allI impI)
    show "disk_limit (entity_seal d) < w" "w \<le> ?cur" "e = ev w"
      if "om_get (ed_committed (entity_seal d)) w = Some e \<and> en_version (ed_base (entity_seal d)) < w" for w e
    proof -
      have "c < w \<and> w \<le> ?cur \<and> e = ev w \<or> disk_limit d < w \<and> w \<le> c \<and> e = ev w"
        using that seal [of w] c(4) [of w e] by (auto split: if_splits)
      then show "disk_limit (entity_seal d) < w" "w \<le> ?cur" "e = ev w" using c(2,3) by auto
    qed
    show "om_get (ed_committed (entity_seal d)) w = Some (ev w)"
      if "disk_limit (entity_seal d) < w \<and> en_version (ed_base (entity_seal d)) < w \<and> w \<le> ?cur" for w
    proof -
      have "disk_limit d < w" "en_version (ed_base d) < w" "w \<le> ?cur"
        using that by simp_all
      then show ?thesis using seal [of w] c(5) [of w] by (cases "c < w") (simp_all add: not_less)
    qed
  qed (use c in auto)
  moreover have "disk_ok (entity_seal d) S ev" using d by (simp add: data_ok_def disk_ok_def cong: option.case_cong)
  ultimately show ?thesis using d seal unfolding data_ok_def by auto
qed

section \<open>Growing\<close>

lemma pred_word: "(a :: u64) < v \<Longrightarrow> unat (v - 1) = unat v - 1"
  by (subst unat_minus_one) auto

lemma history_ok_cong:
  assumes h: "history_ok r st table ent def low hi S ev" and eq: "\<And>v. low \<le> v \<Longrightarrow> v \<le> hi \<Longrightarrow> S' v = S v \<and> ev' v = ev v"
  shows "history_ok r st table ent def low hi S' ev'"
proof -
  have "event_at_version r st table ent def S' ev' loc v = event_at_version r st table ent def S ev loc v"
    if "low < v" "v \<le> hi" for v loc
  proof -
    have "low \<le> v - 1" "v - 1 \<le> hi" using that using pred_word [of low v] by (auto simp: word_le_nat_alt word_less_nat_alt)
    then show ?thesis using that eq [of "v - 1"] eq [of v] by (simp add: event_at_version_def)
  qed
  then show ?thesis using h eq unfolding history_ok_def by (metis (no_types, lifting) order.strict_implies_order)
qed

text \<open>The data of an entity that is just created, and the three ways an operation changes it.\<close>

definition created_data :: "entity \<Rightarrow> entity_data" where
  "created_data e = \<lparr>ed_charges = NoLink, ed_current = e, ed_base = e, ed_events = [], ed_committed = NoLink,
     ed_snapshots = NoLink, ed_disk = None\<rparr>"

definition push_event :: "entity_data \<Rightarrow> event \<Rightarrow> entity \<Rightarrow> entity_data" where
  "push_event d e state = d\<lparr>ed_current := state, ed_events := ed_events d @ [e]\<rparr>"

definition keep_snapshot :: "entity_data \<Rightarrow> entity_data" where
  "keep_snapshot d = d\<lparr>ed_snapshots := om_insert (ed_snapshots d) (en_version (ed_current d)) (ed_current d)\<rparr>"

lemma keep_fields [simp]: "disk_limit (keep_snapshot d) = disk_limit d" "ed_base (keep_snapshot d) = ed_base d"
    "ed_current (keep_snapshot d) = ed_current d" "ed_events (keep_snapshot d) = ed_events d"
    "ed_committed (keep_snapshot d) = ed_committed d" "ed_disk (keep_snapshot d) = ed_disk d"
  by (simp_all add: keep_snapshot_def disk_limit_def split: option.split)

lemma push_fields [simp]: "disk_limit (push_event d e state) = disk_limit d" "ed_base (push_event d e state) = ed_base d"
    "ed_current (push_event d e state) = state" "ed_events (push_event d e state) = ed_events d @ [e]"
    "ed_committed (push_event d e state) = ed_committed d" "ed_disk (push_event d e state) = ed_disk d"
    "ed_snapshots (push_event d e state) = ed_snapshots d"
  by (simp_all add: push_event_def disk_limit_def split: option.split)

lemma created_ok: "data_ok (created_data e) def (\<lambda>_. e) ev"
proof -
  have "events_ok (created_data e) ev (en_version e)"
    by (auto simp: created_data_def events_ok_def disk_limit_def)
  then show ?thesis unfolding data_ok_def disk_ok_def by (auto simp: created_data_def dest: leD)
qed

lemma snapshot_ok: "data_ok d def S ev \<Longrightarrow> data_ok (keep_snapshot d) def S ev"
proof -
  assume d: "data_ok d def S ev"
  then have inv: "om_inv (ed_snapshots d)" by (simp add: data_ok_def)
  have same: "disk_ok (keep_snapshot d) S ev = disk_ok d S ev" "events_ok (keep_snapshot d) ev = events_ok d ev"
    by (simp_all add: disk_ok_def events_ok_def fun_eq_iff cong: option.case_cong)
  have cur: "ed_current d = S (en_version (ed_current d))" using d by (simp add: data_ok_def)
  have "v \<le> en_version (ed_current d) \<and> en_version s = v \<and> (en_version (ed_base d) \<le> v \<longrightarrow> s = S v)"
    if "om_get (ed_snapshots (keep_snapshot d)) v = Some s" for v s
  proof (cases "v = en_version (ed_current d)")
    case True
    then have "s = ed_current d" using that om.get_ins [OF inv] by (simp add: keep_snapshot_def)
    then show ?thesis using True cur by simp
  next
    case False
    then have "om_get (ed_snapshots d) v = Some s" using that om.get_ins [OF inv] by (simp add: keep_snapshot_def)
    then show ?thesis using d by (auto simp: data_ok_def)
  qed
  moreover have "om_inv (ed_snapshots (keep_snapshot d))" using inv by (simp add: keep_snapshot_def)
  ultimately show ?thesis using d unfolding data_ok_def same by simp
qed

lemma apply_facts:
  assumes "apply_event st e t = Inr st'"
  shows "unat (ev_version e) = Suc (unat (en_version st))" "en_version st' = ev_version e" "en_id st' = en_id st"
  using assms by (auto simp: apply_event_def checked_add64_Some_iff res_bind_Inr_iff split: if_splits)

lemma push_ok:
  assumes d: "data_ok d def S ev" and e: "apply_event (ed_current d) e def = Inr state"
  shows "data_ok (push_event d e state) def (S(ev_version e := state)) (ev(ev_version e := e))"
proof -
  let ?d = "push_event d e state" and ?v = "ev_version e" and ?cur = "en_version (ed_current d)"
  let ?S = "S(?v := state)" and ?ev = "ev(?v := e)"
  note v = apply_facts [OF e]
  have old: "w \<noteq> ?v" if "w \<le> ?cur" for w using that v(1) by (auto simp: word_le_nat_alt)
  have le: "w \<le> ?v \<longleftrightarrow> w = ?v \<or> w \<le> ?cur" for w using v(1) by (auto simp: word_le_nat_alt word_unat_eq_iff)
  have prev: "?v - 1 = ?cur" using v(1) by (metis add_diff_cancel_right' of_nat_Suc of_nat_unat_id add.commute)
  have base: "en_version (ed_base d) \<le> ?cur" "ed_base d = S (en_version (ed_base d))" "ed_current d = S ?cur"
    using d by (simp_all add: data_ok_def)
  obtain c where c: "events_ok d ev c" using d by (auto simp: data_ok_def)
  have cv: "c \<le> ?cur" "en_version (ed_base d) \<le> c" "disk_limit d \<le> c" using c unfolding events_ok_def by blast+
  have events: "events_ok ?d ?ev c"
    unfolding events_ok_def
  proof (intro conjI allI impI)
    have "ed_events d = map (\<lambda>n. ev (of_nat n)) [Suc (unat c)..<Suc (unat ?cur)]" using c unfolding events_ok_def by blast
    then have "ed_events ?d = map (\<lambda>n. ev (of_nat n)) [Suc (unat c)..<Suc (unat ?cur)] @ [e]" by (simp del: upt_Suc)
    also have "map (\<lambda>n. ev (of_nat n)) [Suc (unat c)..<Suc (unat ?cur)] = map (\<lambda>n. ?ev (of_nat n)) [Suc (unat c)..<Suc (unat ?cur)]"
    proof (rule map_cong [OF refl])
      fix n assume "n \<in> set [Suc (unat c)..<Suc (unat ?cur)]"
      then have "of_nat n \<le> ?cur" using unat_less_u64 [of ?cur] by (auto simp: word_le_nat_alt unat_of_nat)
      then show "ev (of_nat n) = ?ev (of_nat n)" using old by simp
    qed
    also have "[e] = map (\<lambda>n. ?ev (of_nat n)) [unat ?v]" by simp
    finally have "ed_events ?d = map (\<lambda>n. ?ev (of_nat n)) ([Suc (unat c)..<Suc (unat ?cur)] @ [unat ?v])"
      by (simp only: map_append)
    moreover have "[Suc (unat c)..<Suc (unat ?cur)] @ [unat ?v] = [Suc (unat c)..<Suc (unat ?v)]"
      using v(1) cv(1) by (simp add: word_le_nat_alt)
    ultimately show "ed_events ?d = map (\<lambda>n. ?ev (of_nat n)) [Suc (unat c)..<Suc (unat (en_version (ed_current ?d)))]"
      using v(2) by (simp del: upt_Suc)
    show "om_get (ed_committed ?d) w = Some (?ev w)" if "disk_limit ?d < w \<and> en_version (ed_base ?d) < w \<and> w \<le> c" for w
    proof -
      have "w \<noteq> ?v" by (rule old [OF order_trans [OF _ cv(1)]]) (use that in simp)
      then have "?ev w = ev w" by simp
      moreover have "om_get (ed_committed d) w = Some (ev w)"
        using c that unfolding events_ok_def push_fields by blast
      ultimately show ?thesis by (simp only: push_fields)
    qed
    show "disk_limit ?d < w" "w \<le> c" "f = ?ev w" if "om_get (ed_committed ?d) w = Some f \<and> en_version (ed_base ?d) < w" for w f
    proof -
      have "disk_limit d < w \<and> w \<le> c \<and> f = ev w" using that c unfolding events_ok_def push_fields by blast
      moreover from this have "w \<noteq> ?v" using old [OF order_trans [OF _ cv(1)]] by blast
      ultimately show "disk_limit ?d < w" "w \<le> c" "f = ?ev w" by simp_all
    qed
  qed (use cv v(2) le in auto)
  have disk: "disk_ok ?d ?S ?ev"
  proof (cases "ed_disk d")
    case (Some k)
    have "dh_through k \<le> ?cur" using cv Some by (simp add: disk_limit_def)
    then have eq: "?S w = S w \<and> ?ev w = ev w" if "w \<le> dh_through k" for w using old [of w] that by simp
    show ?thesis
      unfolding disk_ok_def
    proof (simp add: Some v(3) del: fun_upd_apply, intro impI)
      assume "en_version (ed_base d) < dh_through k"
      then obtain def' low where h: "low \<le> en_version (ed_base d)"
          "history_ok (dh_root k) (dh_pager k) (dh_table k) (en_id (ed_current d)) def' low (dh_through k) S ev"
          "current_state (dh_root k) (dh_pager k) (dh_table k) (en_id (ed_current d)) = Inr (Some (S (dh_through k)))"
        using d Some by (auto simp: data_ok_def disk_ok_def)
      have "history_ok (dh_root k) (dh_pager k) (dh_table k) (en_id (ed_current d)) def' low (dh_through k) ?S ?ev"
        by (rule history_ok_cong [OF h(2)]) (rule eq)
      moreover have "?S (dh_through k) = S (dh_through k)" using eq by blast
      ultimately show "\<exists>def low. low \<le> en_version (ed_base d) \<and>
          history_ok (dh_root k) (dh_pager k) (dh_table k) (en_id (ed_current d)) def low (dh_through k) ?S ?ev \<and>
          current_state (dh_root k) (dh_pager k) (dh_table k) (en_id (ed_current d)) = Inr (Some (?S (dh_through k)))"
        using h(1,3) by (intro exI [of _ def'] exI [of _ low] conjI) (simp_all only:)
    qed
  qed (simp add: disk_ok_def)
  show ?thesis
    unfolding data_ok_def
  proof (intro conjI allI impI)
    show "ed_base ?d = ?S (en_version (ed_base ?d))" using old [OF base(1)] base(2) by simp
    show "en_version (ed_base ?d) \<le> en_version (ed_current ?d)" using base(1) v(2) le by simp
    show "en_version (?S w) = w" if "en_version (ed_base ?d) \<le> w \<and> w \<le> en_version (ed_current ?d)" for w
      using that v(2) le d by (auto simp: data_ok_def)
    show "apply_event (?S (w - 1)) (?ev w) def = Inr (?S w)" "ev_version (?ev w) = w"
      if w: "en_version (ed_base ?d) < w \<and> w \<le> en_version (ed_current ?d)" for w
    proof -
      have "w = ?v \<or> w \<noteq> ?v \<and> w \<le> ?cur \<and> en_version (ed_base d) < w" using w v(2) le old by auto
      then show "ev_version (?ev w) = w" using d by (auto simp: data_ok_def)
      from \<open>w = ?v \<or> _\<close> show "apply_event (?S (w - 1)) (?ev w) def = Inr (?S w)"
      proof (elim disjE conjE)
        assume "w = ?v"
        then show ?thesis using prev old [of ?cur] e base(3) by simp
      next
        assume a: "w \<noteq> ?v" "w \<le> ?cur" "en_version (ed_base d) < w"
        then have "w - 1 \<le> ?cur" using pred_word [of _ w] by (auto simp: word_le_nat_alt word_less_nat_alt)
        then show ?thesis using a old d by (simp add: data_ok_def)
      qed
    qed
    show "w \<le> en_version (ed_current ?d)" "en_version s = w" "en_version (ed_base ?d) \<le> w \<Longrightarrow> s = ?S w"
      if "om_get (ed_snapshots ?d) w = Some s" for w s
    proof -
      have "w \<le> ?cur \<and> en_version s = w \<and> (en_version (ed_base d) \<le> w \<longrightarrow> s = S w)"
        using that d by (simp add: data_ok_def)
      then show "w \<le> en_version (ed_current ?d)" "en_version s = w" "en_version (ed_base ?d) \<le> w \<Longrightarrow> s = ?S w"
        using old [of w] le v(2) by auto
    qed
    show "\<exists>c. events_ok ?d ?ev c" using events by blast
  qed (use d disk v(2) in \<open>simp_all add: data_ok_def\<close>)
qed

section \<open>Properties\<close>

text \<open>
  C11 (entity_version_read): an entity in memory gives, for every version between its base and its
  current one, the one state its events define, from whichever of the checkpoint, the snapshots, the
  committed events and the events of the running transaction the version needs, and with snapshots
  used or not; every other version is refused with the available range.
\<close>

theorem entity_version_read:
  assumes "data_ok d def S ev"
  shows "entity_at d def v use_snapshots = (if v < en_version (ed_base d) \<or> en_version (ed_current d) < v
    then Inl (VersionUnavailable v (en_version (ed_base d)) (en_version (ed_current d))) else Inr (S v))"
  by (rule entity_at_exact [OF assms])

text \<open>
  C12 (entity_data_kept): every change of an entity in memory keeps its history faithful: applying an
  event adds one version and changes no older one; an explicit snapshot and sealing the events on
  commit change none; retention never fails, moves the base to the current version less the count
  (never back) and changes no state it keeps.
\<close>

theorem entity_data_kept:
  assumes "data_ok d def S ev"
  shows "(apply_event (ed_current d) e def = Inr state \<longrightarrow>
      data_ok (push_event d e state) def (S(ev_version e := state)) (ev(ev_version e := e))) \<and>
    data_ok (keep_snapshot d) def S ev \<and> data_ok (entity_seal d) def S ev \<and>
    (\<exists>d'. entity_retain d def count = Inr d' \<and> data_ok d' def S ev \<and> ed_current d' = ed_current d \<and>
      en_version (ed_base d') = max (en_version (ed_base d)) (saturating_sub64 (en_version (ed_current d)) count))"
  using push_ok [OF assms] snapshot_ok [OF assms] seal_ok [OF assms] retain_ok [OF assms] by blast

definition sample_data :: entity_data where
  "sample_data = push_event (created_data (sample_state 1)) sample_event (sample_state 2)"

lemma sample_data_ok: "data_ok sample_data sample_table ((\<lambda>_. sample_state 1)(2 := sample_state 2)) ((\<lambda>_. sample_event)(2 := sample_event))"
proof -
  have "apply_event (ed_current (created_data (sample_state 1))) sample_event sample_table = Inr (sample_state 2)"
    using sample_apply by (simp add: created_data_def)
  from push_ok [OF created_ok this, of "\<lambda>_. sample_event"] show ?thesis
    by (simp add: sample_data_def sample_event_def)
qed

lemma sample_data_range: "en_version (ed_base sample_data) = 1" "en_version (ed_current sample_data) = 2"
  by (simp_all add: sample_data_def created_data_def sample_state_def)

lemma entity_version_read_witness:
  "entity_at sample_data sample_table 1 True = Inr (sample_state 1) \<and>
   entity_at sample_data sample_table 3 True = Inl (VersionUnavailable 3 1 2)"
  using entity_version_read [OF sample_data_ok, of 1 True] entity_version_read [OF sample_data_ok, of 3 True]
  by (simp add: sample_data_range)

lemma entity_data_kept_witness:
  "\<exists>d'. entity_retain sample_data sample_table 0 = Inr d' \<and> en_version (ed_base d') = 2"
proof -
  obtain d' where "entity_retain sample_data sample_table 0 = Inr d'"
      "en_version (ed_base d') = max (en_version (ed_base sample_data)) (saturating_sub64 (en_version (ed_current sample_data)) 0)"
    using entity_data_kept [OF sample_data_ok, of sample_event "sample_state 2" 0] by blast
  then show ?thesis by (simp add: sample_data_range saturating_sub64_def max_def)
qed

end
