(* ===== verification/Overlay.thy ===== *)
theory Overlay
  imports Entity_Data_Laws
begin

text \<open>
  Models \<^verbatim>\<open>overlay.rs\<close>: the entities changed since a checkpoint, with a counted reference to every
  checkpoint whose files they still read. The law: the counts and the byte total are exact, so the
  files the overlay reports are those of every checkpoint an entry refers to, and no others.
\<close>

section \<open>Operations\<close>

definition root_file_sizes :: "root \<Rightarrow> (file_id \<times> u64) list" where
  "root_file_sizes r = map (\<lambda>f. (file_info_id f, fi_size f)) (r_files r)"

text \<open>The sum of the sizes, saturating at the greatest \<^verbatim>\<open>usize\<close>.\<close>

definition root_bytes :: "root \<Rightarrow> nat" where
  "root_bytes r = foldl usize_saturating_add 0 (map (\<lambda>f. unat (snd f)) (root_file_sizes r))"

type_synonym entity_ref = "u64 \<times> u64"

record overlay =
  ov_entries :: "(entity_ref, entity_data) link"
  ov_roots :: "(u64, root \<times> nat \<times> nat) link"
  ov_bytes :: nat

definition overlay_new :: overlay where
  "overlay_new = \<lparr>ov_entries = NoLink, ov_roots = NoLink, ov_bytes = 0\<rparr>"

definition overlay_get :: "overlay \<Rightarrow> entity_ref \<Rightarrow> entity_data option" where
  "overlay_get ov k = om_get (ov_entries ov) k"

definition overlay_range :: "overlay \<Rightarrow> entity_ref bound \<Rightarrow> entity_ref bound \<Rightarrow> (entity_ref \<times> entity_data) list" where
  "overlay_range ov low high = om_range_list (ov_entries ov) low high"

definition disk_generation :: "entity_data \<Rightarrow> u64 option" where
  "disk_generation d = map_option (\<lambda>disk. r_generation (dh_root disk)) (ed_disk d)"

text \<open>An entry that goes drops its reference; the count of a reference that is held is in the map.\<close>

definition overlay_release :: "u64 \<Rightarrow> overlay \<Rightarrow> overlay" where
  "overlay_release g ov = (case om_get (ov_roots ov) g of
       None \<Rightarrow> ov
     | Some (r, count, bytes) \<Rightarrow>
         if count = 1 then ov\<lparr>ov_roots := om_remove (ov_roots ov) g, ov_bytes := ov_bytes ov - bytes\<rparr>
         else ov\<lparr>ov_roots := om_insert (ov_roots ov) g (r, count - 1, bytes)\<rparr>)"

definition overlay_acquire :: "root \<Rightarrow> overlay \<Rightarrow> overlay" where
  "overlay_acquire r ov =
     (let g = r_generation r;
          (count, bytes) = (case om_get (ov_roots ov) g of None \<Rightarrow> (0, root_bytes r) | Some (_, count, bytes) \<Rightarrow> (count, bytes));
          ov = (if count = 0 then ov\<lparr>ov_bytes := usize_saturating_add (ov_bytes ov) bytes\<rparr> else ov) in
      ov\<lparr>ov_roots := om_insert (ov_roots ov) g (r, count + 1, bytes)\<rparr>)"

definition overlay_insert :: "overlay \<Rightarrow> entity_ref \<Rightarrow> entity_data \<Rightarrow> overlay" where
  "overlay_insert ov k d =
     (let previous = Option.bind (om_get (ov_entries ov) k) disk_generation in
      if previous = disk_generation d then ov\<lparr>ov_entries := om_insert (ov_entries ov) k d\<rparr>
      else
        let ov = (case previous of None \<Rightarrow> ov | Some g \<Rightarrow> overlay_release g ov);
            ov = (case ed_disk d of None \<Rightarrow> ov | Some disk \<Rightarrow> overlay_acquire (dh_root disk) ov) in
        ov\<lparr>ov_entries := om_insert (ov_entries ov) k d\<rparr>)"

definition overlay_file_sizes :: "overlay \<Rightarrow> (file_id \<times> u64) list" where
  "overlay_file_sizes ov = concat (map (\<lambda>e. root_file_sizes (fst (snd e))) (om_range_list (ov_roots ov) Unbounded Unbounded))"

definition overlay_extend :: "overlay \<Rightarrow> (entity_ref \<times> entity_data) list \<Rightarrow> overlay" where
  "overlay_extend ov values = foldl (\<lambda>ov e. overlay_insert ov (fst e) (snd e)) ov values"

section \<open>What the counts mean\<close>

definition owners :: "(entity_ref, entity_data) link \<Rightarrow> u64 \<Rightarrow> entity_ref set" where
  "owners t g = {k. Option.bind (om_get t k) disk_generation = Some g}"

text \<open>\<open>R\<close> gives the one checkpoint that was published under each generation.\<close>

definition counted :: "(u64 \<Rightarrow> root) \<Rightarrow> (u64 \<Rightarrow> entity_ref set) \<Rightarrow> overlay \<Rightarrow> bool" where
  "counted R own ov = (om_inv (ov_roots ov) \<and> finite {g. own g \<noteq> {}} \<and> (\<forall>g. finite (own g)) \<and>
     (\<forall>g. om_get (ov_roots ov) g = (if own g = {} then None else Some (R g, card (own g), root_bytes (R g)))) \<and>
     ov_bytes ov = (\<Sum>g \<in> {g. own g \<noteq> {}}. root_bytes (R g)))"

definition overlay_ok :: "(u64 \<Rightarrow> root) \<Rightarrow> overlay \<Rightarrow> bool" where
  "overlay_ok R ov = (om_inv (ov_entries ov) \<and> counted R (owners (ov_entries ov)) ov \<and>
     (\<forall>k d disk. om_get (ov_entries ov) k = Some d \<and> ed_disk d = Some disk \<longrightarrow> dh_root disk = R (r_generation (dh_root disk))))"

lemma counted_release:
  assumes c: "counted R own ov" and k: "k \<in> own g"
  shows "counted R (own(g := own g - {k})) (overlay_release g ov)"
proof -
  have inv: "om_inv (ov_roots ov)" and fin: "finite {g. own g \<noteq> {}}" "finite (own g)"
    and get: "om_get (ov_roots ov) g = Some (R g, card (own g), root_bytes (R g))"
    using c k by (auto simp: counted_def)
  have card: "card (own g - {k}) = card (own g) - 1" "card (own g) \<noteq> 0" using k fin(2) by auto
  show ?thesis
  proof (cases "card (own g) = 1")
    case True
    then have e: "own g - {k} = {}" using k by (auto simp: card_Suc_eq)
    have live: "{h. (own(g := own g - {k})) h \<noteq> {}} = {h. own h \<noteq> {}} - {g}" using e by auto
    have "(\<Sum>h \<in> {h. own h \<noteq> {}} - {g}. root_bytes (R h)) = (\<Sum>h \<in> {h. own h \<noteq> {}}. root_bytes (R h)) - root_bytes (R g)"
      using k fin(1) by (subst sum_diff1_nat) auto
    then have total: "ov_bytes (overlay_release g ov) = (\<Sum>h \<in> {h. (own(g := own g - {k})) h \<noteq> {}}. root_bytes (R h))"
      unfolding live using c True k by (auto simp: counted_def overlay_release_def get)
    have "finite {h. (own(g := own g - {k})) h \<noteq> {}}" unfolding live using fin(1) by simp
    with total show ?thesis unfolding counted_def
      using c True e inv by (auto simp: counted_def overlay_release_def get om.get_del)
  next
    case False
    then have e: "own g - {k} \<noteq> {}" using k card by (metis card.empty diff_is_0_eq le_antisym less_one linorder_not_less)
    then have live: "{h. (own(g := own g - {k})) h \<noteq> {}} = {h. own h \<noteq> {}}" using k by auto
    have "ov_bytes (overlay_release g ov) = (\<Sum>h \<in> {h. (own(g := own g - {k})) h \<noteq> {}}. root_bytes (R h))"
      unfolding live using c False by (simp add: counted_def overlay_release_def get)
    moreover have "finite {h. (own(g := own g - {k})) h \<noteq> {}}" unfolding live by (rule fin(1))
    ultimately show ?thesis unfolding counted_def
      using c False e inv card by (auto simp: counted_def overlay_release_def get om.get_ins)
  qed
qed

lemma counted_acquire:
  assumes c: "counted R own ov" and k: "k \<notin> own g" and r: "r = R g" "r_generation r = g"
    and fits: "ov_bytes ov + root_bytes r < 2 ^ 64"
  shows "counted R (own(g := insert k (own g))) (overlay_acquire r ov)"
proof -
  have inv: "om_inv (ov_roots ov)" and fin: "finite {g. own g \<noteq> {}}" "finite (own g)"
    using c by (auto simp: counted_def)
  have live: "{h. (own(g := insert k (own g))) h \<noteq> {}} = insert g {h. own h \<noteq> {}}" by auto
  show ?thesis
  proof (cases "own g = {}")
    case True
    then have get: "om_get (ov_roots ov) g = None" using c by (simp add: counted_def)
    have "usize_saturating_add (ov_bytes ov) (root_bytes r) = ov_bytes ov + root_bytes r"
      using fits by (simp add: usize_saturating_add_def)
    moreover have "(\<Sum>h \<in> insert g {h. own h \<noteq> {}}. root_bytes (R h)) = root_bytes (R g) + (\<Sum>h \<in> {h. own h \<noteq> {}}. root_bytes (R h))"
      using True fin(1) by simp
    ultimately have total: "ov_bytes (overlay_acquire r ov) = (\<Sum>h \<in> {h. (own(g := insert k (own g))) h \<noteq> {}}. root_bytes (R h))"
      unfolding live using c r get by (simp add: counted_def overlay_acquire_def)
    have "finite {h. (own(g := insert k (own g))) h \<noteq> {}}" unfolding live using fin(1) by simp
    with total show ?thesis unfolding counted_def
      using c True inv r fin by (auto simp: counted_def overlay_acquire_def get om.get_ins)
  next
    case False
    then have get: "om_get (ov_roots ov) g = Some (R g, card (own g), root_bytes (R g))" and "card (own g) \<noteq> 0"
      using c fin(2) by (auto simp: counted_def)
    moreover have "insert g {h. own h \<noteq> {}} = {h. own h \<noteq> {}}" using False by auto
    ultimately have same: "{h. (own(g := insert k (own g))) h \<noteq> {}} = {h. own h \<noteq> {}}" unfolding live by blast
    have "ov_bytes (overlay_acquire r ov) = (\<Sum>h \<in> {h. (own(g := insert k (own g))) h \<noteq> {}}. root_bytes (R h))"
      unfolding same using c r get False fin(2) by (simp add: counted_def overlay_acquire_def)
    moreover have "finite {h. (own(g := insert k (own g))) h \<noteq> {}}" unfolding same by (rule fin(1))
    ultimately show ?thesis unfolding counted_def
      using c inv r k fin get False by (auto simp: counted_def overlay_acquire_def om.get_ins)
  qed
qed

lemma owners_insert:
  "om_inv t \<Longrightarrow> owners (om_insert t k d) g = (if disk_generation d = Some g then insert k (owners t g) else owners t g - {k})"
  by (auto simp: owners_def om.get_ins)

lemma overlay_ok_new: "overlay_ok R overlay_new"
  by (simp add: overlay_ok_def overlay_new_def counted_def owners_def)

lemma release_fields [simp]: "ov_entries (overlay_release g ov) = ov_entries ov"
  by (simp add: overlay_release_def split: option.split)

lemma acquire_fields [simp]: "ov_entries (overlay_acquire r ov) = ov_entries ov"
  by (simp add: overlay_acquire_def Let_def split: option.split prod.split)

lemma counted_more: "counted R own (ov\<lparr>ov_entries := t\<rparr>) = counted R own ov"
  by (simp add: counted_def)

lemma release_le: "ov_bytes (overlay_release g ov) \<le> ov_bytes ov"
  by (simp add: overlay_release_def split: option.split)

lemma overlay_insert_ok:
  assumes ok: "overlay_ok R ov" and r: "\<And>disk. ed_disk d = Some disk \<Longrightarrow> dh_root disk = R (r_generation (dh_root disk))"
    and fits: "\<And>disk. ed_disk d = Some disk \<Longrightarrow> ov_bytes ov + root_bytes (dh_root disk) < 2 ^ 64"
  shows "overlay_ok R (overlay_insert ov k d)"
proof -
  let ?t = "ov_entries ov" and ?ov = "overlay_insert ov k d"
  let ?prev = "Option.bind (om_get ?t k) disk_generation"
  have inv: "om_inv ?t" and c: "counted R (owners ?t) ov" using ok by (simp_all add: overlay_ok_def)
  have entries: "ov_entries ?ov = om_insert ?t k d"
    by (simp add: overlay_insert_def Let_def split: option.split)
  let ?own = "\<lambda>g. if disk_generation d = Some g then insert k (owners ?t g) else owners ?t g - {k}"
  have mem: "k \<in> owners ?t g \<longleftrightarrow> ?prev = Some g" for g by (simp add: owners_def)
  have "counted R ?own ?ov"
  proof (cases "?prev = disk_generation d")
    case True
    then have "?own = owners ?t" using mem by (auto simp: fun_eq_iff)
    then show ?thesis using c True by (simp add: overlay_insert_def counted_more)
  next
    case False
    let ?ov1 = "case ?prev of None \<Rightarrow> ov | Some g \<Rightarrow> overlay_release g ov"
    let ?own1 = "\<lambda>g. owners ?t g - {k}"
    have "counted R ?own1 ?ov1"
    proof (cases ?prev)
      case None
      then have "?own1 = owners ?t" using mem by (auto simp: fun_eq_iff)
      then show ?thesis using c None by simp
    next
      case (Some g)
      have "(owners ?t)(g := owners ?t g - {k}) = ?own1" using mem Some by (auto simp: fun_eq_iff)
      then show ?thesis using counted_release [OF c, of k g] mem [of g] Some by simp
    qed
    moreover have "ov_bytes ?ov1 \<le> ov_bytes ov" by (simp add: release_le split: option.split)
    ultimately show ?thesis
    proof (cases "ed_disk d")
      case None
      then have "disk_generation d = None" by (simp add: disk_generation_def)
      then show ?thesis using \<open>counted R ?own1 ?ov1\<close> False None by (auto simp: overlay_insert_def Let_def counted_more)
    next
      case (Some disk)
      let ?r = "dh_root disk"
      have g: "disk_generation d = Some (r_generation ?r)" by (simp add: disk_generation_def Some)
      have "counted R (?own1(r_generation ?r := insert k (?own1 (r_generation ?r)))) (overlay_acquire ?r ?ov1)"
        by (rule counted_acquire [OF \<open>counted R ?own1 ?ov1\<close> _ r [OF Some] refl])
           (use fits [OF Some] \<open>ov_bytes ?ov1 \<le> ov_bytes ov\<close> in auto)
      moreover have "?own1(r_generation ?r := insert k (?own1 (r_generation ?r))) = ?own" using g by (auto simp: fun_eq_iff)
      ultimately show ?thesis using False Some by (simp add: overlay_insert_def Let_def counted_more)
    qed
  qed
  moreover have "owners (om_insert ?t k d) = ?own" by (simp add: fun_eq_iff owners_insert [OF inv])
  ultimately show ?thesis using ok r inv by (auto simp: overlay_ok_def entries om.get_ins split: if_splits)
qed

lemma overlay_files:
  assumes "overlay_ok R ov"
  shows "set (overlay_file_sizes ov) = (\<Union>g \<in> {g. owners (ov_entries ov) g \<noteq> {}}. set (root_file_sizes (R g)))"
proof -
  have c: "om_inv (ov_roots ov)" "\<And>g. om_get (ov_roots ov) g = (if owners (ov_entries ov) g = {} then None
      else Some (R g, card (owners (ov_entries ov) g), root_bytes (R g)))"
    using assms by (auto simp: overlay_ok_def counted_def)
  let ?own = "owners (ov_entries ov)"
  have "e \<in> set (om_range_list (ov_roots ov) Unbounded Unbounded) \<longleftrightarrow>
      ?own (fst e) \<noteq> {} \<and> snd e = (R (fst e), card (?own (fst e)), root_bytes (R (fst e)))" for e
    using om.range_iff [OF c(1), of "fst e" "snd e" Unbounded Unbounded] c(2) by auto
  then have "set (om_range_list (ov_roots ov) Unbounded Unbounded) =
      (\<lambda>g. (g, R g, card (?own g), root_bytes (R g))) ` {g. ?own g \<noteq> {}}"
    by (intro set_eqI) (metis (mono_tags, lifting) image_iff mem_Collect_eq prod.collapse fst_conv snd_conv)
  then show ?thesis by (simp add: overlay_file_sizes_def)
qed

section \<open>Properties\<close>

text \<open>
  C26 (overlay_counted): replacing or adding an entry keeps the overlay's checkpoint references exact:
  each checkpoint is counted once per entry that reads it and is forgotten with the last one, the
  byte total is that of the checkpoints still referred to, and the files reported are exactly
  theirs, so no cleanup removes a file an entry needs.
\<close>

theorem overlay_counted:
  assumes "overlay_ok R ov" "\<And>disk. ed_disk d = Some disk \<Longrightarrow> dh_root disk = R (r_generation (dh_root disk)) \<and>
    ov_bytes ov + root_bytes (dh_root disk) < 2 ^ 64"
  shows "overlay_ok R (overlay_insert ov k d) \<and> overlay_get (overlay_insert ov k d) a = (if a = k then Some d else overlay_get ov a) \<and>
    set (overlay_file_sizes (overlay_insert ov k d)) =
      (\<Union>g \<in> {g. owners (ov_entries (overlay_insert ov k d)) g \<noteq> {}}. set (root_file_sizes (R g)))"
proof -
  have "om_inv (ov_entries ov)" using assms(1) by (simp add: overlay_ok_def)
  then have "overlay_get (overlay_insert ov k d) a = (if a = k then Some d else overlay_get ov a)"
    by (simp add: overlay_get_def overlay_insert_def Let_def om.get_ins split: option.split)
  moreover have "overlay_ok R (overlay_insert ov k d)" by (rule overlay_insert_ok [OF assms(1)]) (use assms(2) in blast)+
  ultimately show ?thesis using overlay_files by blast
qed

lemma overlay_counted_witness:
  "overlay_ok (\<lambda>_. root_empty) (overlay_insert overlay_new (1, 1) (sample_data\<lparr>ed_disk :=
     Some \<lparr>dh_root = root_empty, dh_pager = open_store (\<lambda>_. None), dh_table = 1, dh_through = 0\<rparr>\<rparr>))"
proof -
  have "root_bytes root_empty = 0" by (simp add: root_bytes_def root_file_sizes_def root_empty_def)
  then show ?thesis
    by (intro conjunct1 [OF overlay_counted]) (simp add: overlay_ok_new, auto simp: overlay_new_def)
qed

end
