(* ===== verification/Deadline.thy ===== *)
theory Deadline
  imports Prelude
begin

text \<open>
  Models \<^verbatim>\<open>deadline.rs\<close>: timeouts, and leases that hold a value until a deadline passes, until
  they sit idle too long, or until an operation on them overruns. An instant and a duration are
  numbers of nanoseconds; the clock is read by the caller and passed in, and \<open>instant_max\<close> is the
  last instant the platform can represent. A poisoned lock is not modelled: no operation of the
  model panics while it holds one.
\<close>

section \<open>Timeouts\<close>

type_synonym instant = nat
type_synonym duration = nat

record timeouts =
  to_transaction :: duration
  to_idle_transaction :: duration
  to_snapshot :: duration
  to_operation :: duration
  to_commit_queue :: duration
  to_reap_interval :: duration

definition seconds :: "nat \<Rightarrow> duration" where "seconds n = n * 1000000000"
definition millis :: "nat \<Rightarrow> duration" where "millis n = n * 1000000"

definition timeouts_default :: timeouts where
  "timeouts_default = \<lparr>to_transaction = seconds 60, to_idle_transaction = seconds 30,
     to_snapshot = seconds 300, to_operation = seconds 30, to_commit_queue = seconds 5,
     to_reap_interval = millis 50\<rparr>"

definition deadline_at :: "instant \<Rightarrow> instant \<Rightarrow> duration \<Rightarrow> instant res" where
  "deadline_at instant_max now d =
     (if d = 0 then Inl (Invalid ''timeouts must be positive'')
      else if now + d \<le> instant_max then Inr (now + d) else Inl (Invalid ''timeout overflow''))"

definition timeouts_validate :: "instant \<Rightarrow> instant \<Rightarrow> timeouts \<Rightarrow> unit res" where
  "timeouts_validate instant_max now t =
     res_fold (\<lambda>d u. res_bind (deadline_at instant_max now d) (\<lambda>_. Inr ()))
       [to_transaction t, to_idle_transaction t, to_snapshot t, to_operation t, to_commit_queue t,
        to_reap_interval t] ()"

definition deadline_check :: "instant option \<Rightarrow> instant \<Rightarrow> unit res" where
  "deadline_check end_at now =
     (case end_at of Some e \<Rightarrow> if now \<ge> e then Inl DeadlineExceeded else Inr () | None \<Rightarrow> Inr ())"

section \<open>Leases\<close>

record 'a lease =
  ls_value :: "'a option"
  ls_last_access :: instant
  ls_deadline :: "instant option"
  ls_idle :: "duration option"
  ls_operation :: "duration option"

definition lease_new :: "instant \<Rightarrow> instant \<Rightarrow> 'a \<Rightarrow> duration option \<Rightarrow> duration option \<Rightarrow> duration option \<Rightarrow> 'a lease res" where
  "lease_new instant_max now v timeout idle op =
     res_bind (case timeout of None \<Rightarrow> Inr None
       | Some d \<Rightarrow> res_bind (deadline_at instant_max now d) (\<lambda>e. Inr (Some e))) (\<lambda>e.
       Inr \<lparr>ls_value = Some v, ls_last_access = now, ls_deadline = e, ls_idle = idle, ls_operation = op\<rparr>)"

definition reached :: "instant option \<Rightarrow> instant \<Rightarrow> bool" where
  "reached e now = (case e of None \<Rightarrow> False | Some t \<Rightarrow> now \<ge> t)"

definition overrun :: "duration option \<Rightarrow> instant \<Rightarrow> instant \<Rightarrow> bool" where
  "overrun d since now = (case d of None \<Rightarrow> False | Some t \<Rightarrow> now - since \<ge> t)"

definition lease_expired :: "'a lease \<Rightarrow> instant \<Rightarrow> bool" where
  "lease_expired l now = (reached (ls_deadline l) now \<or> overrun (ls_idle l) (ls_last_access l) now)"

text \<open>
  \<^verbatim>\<open>with\<close>: the operation runs on the value between the instants \<open>start\<close> and \<open>now\<close>, and returns
  its result and the value it left.
\<close>

definition lease_with :: "('a \<Rightarrow> 'r res \<times> 'a) \<Rightarrow> instant \<Rightarrow> instant \<Rightarrow> 'a lease \<Rightarrow> 'r res \<times> 'a lease" where
  "lease_with operation start now l =
     (let l = (if lease_expired l start then l\<lparr>ls_value := None\<rparr> else l) in
      case ls_value l of
        None \<Rightarrow> (Inl TransactionExpired, l)
      | Some v \<Rightarrow>
          let (r, v') = operation v in
          if reached (ls_deadline l) now \<or> overrun (ls_operation l) start now
          then (Inl DeadlineExceeded, l\<lparr>ls_value := None\<rparr>)
          else (r, l\<lparr>ls_value := Some v', ls_last_access := now\<rparr>))"

definition lease_take :: "instant \<Rightarrow> 'a lease \<Rightarrow> 'a res \<times> 'a lease" where
  "lease_take now l =
     (let l = (if lease_expired l now then l\<lparr>ls_value := None\<rparr> else l) in
      (ok_or (ls_value l) TransactionExpired, l\<lparr>ls_value := None\<rparr>))"

text \<open>\<open>locked\<close>: whether an operation holds the lease, which then is left alone.\<close>

definition lease_expire :: "bool \<Rightarrow> instant \<Rightarrow> 'a lease \<Rightarrow> 'a lease" where
  "lease_expire locked now l =
     (if \<not> locked \<and> (reached (ls_deadline l) now \<or> overrun (ls_idle l) (ls_last_access l) now)
      then l\<lparr>ls_value := None\<rparr> else l)"

definition lease_drop :: "'a lease \<Rightarrow> 'a lease" where
  "lease_drop l = l\<lparr>ls_value := None\<rparr>"

section \<open>The reaper\<close>

text \<open>
  The registry holds weak references: \<open>leases\<close> gives a lease that still has an owner. A sweep
  expires the leases alive and forgets the others.
\<close>

definition reaper_sweep :: "('i \<Rightarrow> bool) \<Rightarrow> ('i \<Rightarrow> instant) \<Rightarrow> 'i list \<Rightarrow> ('i \<Rightarrow> 'a lease option) \<Rightarrow>
    'i list \<times> ('i \<Rightarrow> 'a lease option)" where
  "reaper_sweep locked clock entries leases =
     (filter (\<lambda>i. leases i \<noteq> None) entries,
      \<lambda>i. if i \<in> set entries then map_option (lease_expire (locked i) (clock i)) (leases i) else leases i)"

definition reaper_register :: "'i \<Rightarrow> 'i list \<Rightarrow> ('i \<Rightarrow> 'a lease option) \<Rightarrow> 'i list" where
  "reaper_register i entries leases = filter (\<lambda>j. leases j \<noteq> None) entries @ [i]"

section \<open>Leases over time\<close>

text \<open>
  What happens to one lease: operations, taking the value, a sweep, dropping it. The clock does
  not go back; \<open>at\<close> is the instant of the last event. What an operation returns to its caller does
  not matter here.
\<close>

inductive lease_step :: "instant \<times> 'a lease \<Rightarrow> instant \<times> 'a lease \<Rightarrow> bool" where
  use: "at \<le> start \<Longrightarrow> start \<le> now \<Longrightarrow>
    lease_step (at, l) (now, snd (lease_with (operation :: 'a \<Rightarrow> unit res \<times> 'a) start now l))"
| take: "at \<le> now \<Longrightarrow> lease_step (at, l) (now, snd (lease_take now l))"
| expire: "at \<le> now \<Longrightarrow> lease_step (at, l) (now, lease_expire locked now l)"
| dropped: "at \<le> now \<Longrightarrow> lease_step (at, l) (now, lease_drop l)"


inductive_cases lease_stepE: "lease_step s t"

lemma lease_with_deadline: "ls_deadline (snd (lease_with f start now l)) = ls_deadline l"
  by (auto simp: lease_with_def Let_def split: option.split prod.split)

lemma lease_with_value:
  "ls_value (snd (lease_with f start now l)) \<noteq> None \<Longrightarrow>
   ls_value l \<noteq> None \<and> \<not> reached (ls_deadline l) now"
  by (auto simp: lease_with_def Let_def split: option.splits prod.splits if_splits)

lemma lease_with_ok:
  "fst (lease_with f start now l) = Inr r \<Longrightarrow>
   ls_value l \<noteq> None \<and> \<not> lease_expired l start \<and> \<not> reached (ls_deadline l) now \<and>
   \<not> overrun (ls_operation l) start now"
  by (auto simp: lease_with_def Let_def split: option.splits prod.splits if_splits)

lemma lease_step_keeps:
  assumes "lease_step (at, l) (now, l')"
  shows "at \<le> now \<and> ls_deadline l' = ls_deadline l \<and> (ls_value l' \<noteq> None \<longrightarrow> ls_value l \<noteq> None)"
  using assms
proof (cases rule: lease_step.cases)
  case (use start operation)
  then show ?thesis using lease_with_deadline lease_with_value by fastforce
qed (auto simp: lease_take_def lease_expire_def lease_drop_def Let_def)

lemma lease_steps_keep:
  "lease_step\<^sup>*\<^sup>* s t \<Longrightarrow> fst s \<le> fst t \<and> ls_deadline (snd t) = ls_deadline (snd s) \<and>
   (ls_value (snd t) \<noteq> None \<longrightarrow> ls_value (snd s) \<noteq> None)"
proof (induction rule: rtranclp_induct)
  case (step t u)
  then show ?case using lease_step_keeps [of "fst t" "snd t" "fst u" "snd u"] by auto
qed simp

section \<open>Properties\<close>

text \<open>
  C34 (lease_expiry_final): once a lease has lost its value, to a deadline, to idleness, to an
  overrunning operation or because it was taken, no later sequence of events gives it back; and
  once its deadline has passed, every operation on it fails and the value is gone.
\<close>

theorem lease_expiry_final:
  assumes "lease_step\<^sup>*\<^sup>* (t0, l) (t1, l')"
  shows "(ls_value l = None \<longrightarrow> ls_value l' = None \<and> fst (lease_with f start now l') = Inl TransactionExpired) \<and>
    (reached (ls_deadline l) now \<longrightarrow> (\<exists>e. fst (lease_with f start now l') = Inl e) \<and>
      ls_value (snd (lease_with f start now l')) = None)"
proof -
  have k: "ls_deadline l' = ls_deadline l" "ls_value l' \<noteq> None \<longrightarrow> ls_value l \<noteq> None"
    using lease_steps_keep [OF assms] by simp_all
  have "ls_value l = None \<Longrightarrow> fst (lease_with f start now l') = Inl TransactionExpired"
    using k(2) by (auto simp: lease_with_def Let_def)
  moreover have "\<exists>e. fst (lease_with f start now l') = Inl e" if "reached (ls_deadline l) now"
    using lease_with_ok [of f start now l'] that k(1)
    by (cases "fst (lease_with f start now l')") auto
  moreover have "ls_value (snd (lease_with f start now l')) = None" if "reached (ls_deadline l) now"
    using lease_with_value [of f start now l'] that k(1) by (cases "ls_value (snd (lease_with f start now l'))") auto
  ultimately show ?thesis using k(2) by blast
qed

lemma lease_expiry_final_witness:
  "let l = \<lparr>ls_value = Some (5::nat), ls_last_access = 0, ls_deadline = Some 10, ls_idle = None, ls_operation = None\<rparr>;
       l' = lease_expire False 12 l in
   fst (lease_with (\<lambda>v. (Inr v, v)) 13 14 l') = Inl TransactionExpired"
proof -
  let ?l = "\<lparr>ls_value = Some (5::nat), ls_last_access = 0, ls_deadline = Some 10, ls_idle = None, ls_operation = None\<rparr>"
  let ?l' = "lease_expire False 12 ?l"
  have "ls_value ?l' = None" by (simp add: lease_expire_def reached_def)
  moreover have "lease_step\<^sup>*\<^sup>* (12, ?l') (12, ?l')" by simp
  ultimately show ?thesis using lease_expiry_final [of 12 ?l' 12 ?l' "\<lambda>v. (Inr v, v)" 13 14] by (simp add: Let_def)
qed

end
