(* ===== verification/Resources.thy ===== *)
theory Resources
  imports Deadline Codec "HOL-Library.Multiset"
begin

text \<open>
  Models \<^verbatim>\<open>resources.rs\<close>: the admission limits, the counters behind one lock, and the handles
  whose ownership the counters follow: transaction and snapshot permits, write reservations and
  memory reservations. Every handle takes its share when it is acquired or grows and gives it back
  when it is dropped. The counters are natural numbers; the invariant shows that no subtraction
  underflows.
\<close>

section \<open>Limits\<close>

record limits =
  max_decoded_record_bytes :: nat
  max_transaction_decoded_bytes :: nat
  max_resident_decoded_write_bytes :: nat
  max_read_memory_bytes :: nat
  max_scratch_bytes :: nat
  max_read_result_bytes :: nat
  max_history_batch_events :: nat
  max_history_batch_bytes :: nat
  max_transactions :: nat
  max_snapshots :: nat
  max_pinned_bytes :: nat
  max_transaction_operations :: nat
  max_transaction_bytes :: nat
  max_resident_write_bytes :: nat
  max_queued_commits :: nat
  max_queued_commit_bytes :: nat
  max_history_files :: nat
  max_index_partitions :: nat
  max_uncheckpointed_wal_bytes :: nat

definition mib :: "nat \<Rightarrow> nat" where "mib n = n * 1024 * 1024"

definition limits_default :: limits where
  "limits_default = \<lparr>max_decoded_record_bytes = mib 64, max_transaction_decoded_bytes = mib 256,
     max_resident_decoded_write_bytes = mib 1024, max_read_memory_bytes = mib 256,
     max_scratch_bytes = mib 128, max_read_result_bytes = mib 64, max_history_batch_events = 4096,
     max_history_batch_bytes = mib 64, max_transactions = 1024, max_snapshots = 4096,
     max_pinned_bytes = mib (8 * 1024), max_transaction_operations = 100000,
     max_transaction_bytes = MAX_FRAME, max_resident_write_bytes = mib 512, max_queued_commits = 256,
     max_queued_commit_bytes = mib 128, max_history_files = 4096, max_index_partitions = 65536,
     max_uncheckpointed_wal_bytes = mib 512\<rparr>"

definition limits_validate :: "limits \<Rightarrow> unit res" where
  "limits_validate l =
     (if max_decoded_record_bytes l = 0 \<or> max_transaction_decoded_bytes l = 0 \<or>
         max_resident_decoded_write_bytes l < max_transaction_decoded_bytes l \<or>
         max_read_memory_bytes l = 0 \<or> max_scratch_bytes l = 0 \<or> max_read_result_bytes l = 0 \<or>
         max_history_batch_events l = 0 \<or> max_history_batch_bytes l = 0 \<or>
         max_uncheckpointed_wal_bytes l = 0 \<or> max_transactions l = 0 \<or> max_history_files l = 0 \<or>
         max_index_partitions l = 0 \<or> max_queued_commits l = 0 \<or>
         max_queued_commit_bytes l < max_transaction_bytes l \<or> max_snapshots l = 0 \<or>
         max_transaction_operations l = 0 \<or> max_transaction_bytes l < 8 \<or>
         max_transaction_bytes l > MAX_FRAME \<or> max_resident_write_bytes l < max_transaction_bytes l
      then Inl (Invalid ''invalid admission limits'') else Inr ())"

definition limit_check :: "string \<Rightarrow> nat \<Rightarrow> nat \<Rightarrow> nat \<Rightarrow> unit res" where
  "limit_check resource used additional limit = (case usize_checked_add used additional of
       None \<Rightarrow> Inl (LimitExceeded resource limit)
     | Some n \<Rightarrow> if n > limit then Inl (LimitExceeded resource limit) else Inr ())"

section \<open>Counters and handles\<close>

record resource_usage =
  decoded_write_bytes :: nat
  read_memory_bytes :: nat
  scratch_bytes :: nat
  transactions :: nat
  snapshots :: nat
  pinned_bytes :: nat
  resident_write_bytes :: nat

definition usage_default :: resource_usage where
  "usage_default = \<lparr>decoded_write_bytes = 0, read_memory_bytes = 0, scratch_bytes = 0, transactions = 0,
     snapshots = 0, pinned_bytes = 0, resident_write_bytes = 0\<rparr>"

datatype memory_kind = ReadMemory | ScratchMemory

datatype handle =
    TransactionPermit
  | SnapshotPermit nat
  | WriteReservation (res_bytes: nat) (res_decoded: nat)
  | MemoryHandle memory_kind nat

definition acquire_transaction :: "limits \<Rightarrow> resource_usage \<Rightarrow> (handle \<times> resource_usage) res" where
  "acquire_transaction l u =
     res_bind (limit_check ''active transactions'' (transactions u) 1 (max_transactions l)) (\<lambda>_.
       Inr (TransactionPermit, u\<lparr>transactions := transactions u + 1\<rparr>))"

definition acquire_snapshot :: "limits \<Rightarrow> nat \<Rightarrow> resource_usage \<Rightarrow> (handle \<times> resource_usage) res" where
  "acquire_snapshot l bytes u =
     res_bind (limit_check ''active snapshots'' (snapshots u) 1 (max_snapshots l)) (\<lambda>_.
     res_bind (limit_check ''pinned checkpoint bytes'' (pinned_bytes u) bytes (max_pinned_bytes l)) (\<lambda>_.
       Inr (SnapshotPermit bytes, u\<lparr>snapshots := snapshots u + 1, pinned_bytes := pinned_bytes u + bytes\<rparr>)))"

definition reservation_new :: handle where
  "reservation_new = WriteReservation 0 0"

definition grow_decoded :: "limits \<Rightarrow> nat \<Rightarrow> bool \<Rightarrow> nat \<times> nat \<Rightarrow> resource_usage \<Rightarrow> (handle \<times> resource_usage) res" where
  "grow_decoded l bytes recovery r u =
     res_bind (if recovery then Inr ()
       else res_bind (limit_check ''transaction decoded bytes'' (snd r) bytes (max_transaction_decoded_bytes l)) (\<lambda>_.
         limit_check ''resident decoded write bytes'' (decoded_write_bytes u) bytes
           (max_resident_decoded_write_bytes l))) (\<lambda>_.
       Inr (WriteReservation (fst r) (snd r + bytes), u\<lparr>decoded_write_bytes := decoded_write_bytes u + bytes\<rparr>))"

definition grow_recovered :: "nat \<Rightarrow> nat \<times> nat \<Rightarrow> resource_usage \<Rightarrow> handle \<times> resource_usage" where
  "grow_recovered bytes r u =
     (WriteReservation (fst r + bytes) (snd r), u\<lparr>resident_write_bytes := resident_write_bytes u + bytes\<rparr>)"

definition grow_resident :: "limits \<Rightarrow> nat \<Rightarrow> nat \<times> nat \<Rightarrow> resource_usage \<Rightarrow> (handle \<times> resource_usage) res" where
  "grow_resident l bytes r u =
     res_bind (limit_check ''resident mutation bytes'' (resident_write_bytes u) bytes (max_resident_write_bytes l)) (\<lambda>_.
       Inr (WriteReservation (fst r + bytes) (snd r), u\<lparr>resident_write_bytes := resident_write_bytes u + bytes\<rparr>))"

definition grow_memory :: "limits \<Rightarrow> nat \<Rightarrow> bool \<Rightarrow> memory_kind \<times> nat \<Rightarrow> resource_usage \<Rightarrow> (handle \<times> resource_usage) res" where
  "grow_memory l bytes recovery m u = (case fst m of
       ReadMemory \<Rightarrow>
         res_bind (if recovery then Inr ()
           else limit_check ''decoded read bytes'' (read_memory_bytes u) bytes (max_read_memory_bytes l)) (\<lambda>_.
           Inr (MemoryHandle ReadMemory (snd m + bytes), u\<lparr>read_memory_bytes := read_memory_bytes u + bytes\<rparr>))
     | ScratchMemory \<Rightarrow>
         res_bind (if recovery then Inr ()
           else limit_check ''scratch bytes'' (scratch_bytes u) bytes (max_scratch_bytes l)) (\<lambda>_.
           Inr (MemoryHandle ScratchMemory (snd m + bytes), u\<lparr>scratch_bytes := scratch_bytes u + bytes\<rparr>)))"

definition acquire_memory :: "limits \<Rightarrow> memory_kind \<Rightarrow> nat \<Rightarrow> bool \<Rightarrow> resource_usage \<Rightarrow> (handle \<times> resource_usage) res" where
  "acquire_memory l k bytes recovery u = grow_memory l bytes recovery (k, 0) u"

fun drop_handle :: "handle \<Rightarrow> resource_usage \<Rightarrow> resource_usage" where
  "drop_handle TransactionPermit u = u\<lparr>transactions := transactions u - 1\<rparr>"
| "drop_handle (SnapshotPermit n) u = u\<lparr>snapshots := snapshots u - 1, pinned_bytes := pinned_bytes u - n\<rparr>"
| "drop_handle (WriteReservation b d) u =
     u\<lparr>resident_write_bytes := resident_write_bytes u - b, decoded_write_bytes := decoded_write_bytes u - d\<rparr>"
| "drop_handle (MemoryHandle ReadMemory n) u = u\<lparr>read_memory_bytes := read_memory_bytes u - n\<rparr>"
| "drop_handle (MemoryHandle ScratchMemory n) u = u\<lparr>scratch_bytes := scratch_bytes u - n\<rparr>"

section \<open>The engine's handles over time\<close>

text \<open>
  The state is the counters and the handles alive. \<open>recovery\<close> says whether the engine is replaying
  its log, when admission is suspended for decoded and memory charges.
\<close>

inductive resource_step :: "limits \<Rightarrow> bool \<Rightarrow> resource_usage \<times> handle multiset \<Rightarrow> resource_usage \<times> handle multiset \<Rightarrow> bool"
  for l recovery where
  transaction: "acquire_transaction l u = Inr (h, u') \<Longrightarrow> resource_step l recovery (u, hs) (u', add_mset h hs)"
| snapshot: "acquire_snapshot l n u = Inr (h, u') \<Longrightarrow> resource_step l recovery (u, hs) (u', add_mset h hs)"
| reserve: "resource_step l recovery (u, hs) (u, add_mset reservation_new hs)"
| decoded: "grow_decoded l n recovery (b, d) u = Inr (h, u') \<Longrightarrow>
    resource_step l recovery (u, add_mset (WriteReservation b d) hs) (u', add_mset h hs)"
| resident: "grow_resident l n (b, d) u = Inr (h, u') \<Longrightarrow>
    resource_step l recovery (u, add_mset (WriteReservation b d) hs) (u', add_mset h hs)"
| recovered: "recovery \<Longrightarrow> grow_recovered n (b, d) u = (h, u') \<Longrightarrow>
    resource_step l recovery (u, add_mset (WriteReservation b d) hs) (u', add_mset h hs)"
| memory: "acquire_memory l k n recovery u = Inr (h, u') \<Longrightarrow> resource_step l recovery (u, hs) (u', add_mset h hs)"
| grow: "grow_memory l n recovery (k, m) u = Inr (h, u') \<Longrightarrow>
    resource_step l recovery (u, add_mset (MemoryHandle k m) hs) (u', add_mset h hs)"
| drop: "resource_step l recovery (u, add_mset h hs) (drop_handle h u, hs)"

text \<open>What each handle holds, as a usage of its own.\<close>

fun handle_usage :: "handle \<Rightarrow> resource_usage" where
  "handle_usage TransactionPermit = usage_default\<lparr>transactions := 1\<rparr>"
| "handle_usage (SnapshotPermit n) = usage_default\<lparr>snapshots := 1, pinned_bytes := n\<rparr>"
| "handle_usage (WriteReservation b d) = usage_default\<lparr>resident_write_bytes := b, decoded_write_bytes := d\<rparr>"
| "handle_usage (MemoryHandle ReadMemory n) = usage_default\<lparr>read_memory_bytes := n\<rparr>"
| "handle_usage (MemoryHandle ScratchMemory n) = usage_default\<lparr>scratch_bytes := n\<rparr>"

definition held :: "(resource_usage \<Rightarrow> nat) \<Rightarrow> handle multiset \<Rightarrow> nat" where
  "held f hs = (\<Sum>h \<in># hs. f (handle_usage h))"

lemma held_simps [simp]: "held f {#} = 0" "held f (add_mset h hs) = f (handle_usage h) + held f hs"
  by (simp_all add: held_def)

definition accounted :: "resource_usage \<times> handle multiset \<Rightarrow> bool" where
  "accounted s = (case s of (u, hs) \<Rightarrow>
     decoded_write_bytes u = held decoded_write_bytes hs \<and> read_memory_bytes u = held read_memory_bytes hs \<and>
     scratch_bytes u = held scratch_bytes hs \<and> transactions u = held transactions hs \<and>
     snapshots u = held snapshots hs \<and> pinned_bytes u = held pinned_bytes hs \<and>
     resident_write_bytes u = held resident_write_bytes hs)"

definition within_limits :: "limits \<Rightarrow> resource_usage \<Rightarrow> bool" where
  "within_limits l u = (decoded_write_bytes u \<le> max_resident_decoded_write_bytes l \<and>
     read_memory_bytes u \<le> max_read_memory_bytes l \<and> scratch_bytes u \<le> max_scratch_bytes l \<and>
     transactions u \<le> max_transactions l \<and> snapshots u \<le> max_snapshots l \<and>
     pinned_bytes u \<le> max_pinned_bytes l \<and> resident_write_bytes u \<le> max_resident_write_bytes l)"

lemma limit_check_Inr: "limit_check r a b n = Inr x \<Longrightarrow> a + b \<le> n"
  by (auto simp: limit_check_def usize_checked_add_def split: if_splits)

lemmas resource_ops = acquire_transaction_def acquire_snapshot_def grow_decoded_def grow_recovered_def
  grow_resident_def grow_memory_def acquire_memory_def reservation_new_def

lemma resource_step_accounted:
  assumes "resource_step l recovery s t" "accounted s"
  shows "accounted t"
  using assms
proof (cases rule: resource_step.cases)
  case (drop u h hs)
  then show ?thesis using assms(2)
    by (cases "(h, u)" rule: drop_handle.cases) (auto simp: accounted_def usage_default_def)
qed (auto simp: accounted_def resource_ops usage_default_def res_simps split: memory_kind.splits)

lemma resource_step_within:
  assumes "resource_step l False s t" "within_limits l (fst s)"
  shows "within_limits l (fst t)"
  using assms
proof (cases rule: resource_step.cases)
  case (drop u h hs)
  then show ?thesis using assms(2)
    by (cases "(h, u)" rule: drop_handle.cases) (auto simp: within_limits_def)
qed (auto simp: within_limits_def resource_ops res_simps dest!: limit_check_Inr split: memory_kind.splits)

section \<open>Properties\<close>



end
