(* ===== verification/Read_State.thy ===== *)
theory Read_State
  imports Overlay Resources
begin

text \<open>
  Models \<^verbatim>\<open>ReadState\<close> of \<^verbatim>\<open>reader.rs\<close>: one committed state of the database, which is a checkpoint and
  the overlay of what changed since, and every read of it. The laws: a listing merges checkpoint and
  overlay into one ascending sequence without omission or repetition, and reads of an entity give
  its current state and its retained versions wherever it is stored.
\<close>

section \<open>The state\<close>

record readstate =
  rs_root :: root
  rs_store :: store
  rs_catalog :: "(u64, table) btree"
  rs_overlay :: overlay
  rs_lsn :: u64
  rs_limits :: limits
  rs_timeouts :: timeouts
  rs_charges :: "(u64, charge) link"
  rs_root_bytes :: "nat option"
  rs_pinned_bytes :: "nat option"
  rs_poisoned :: bool

definition refresh_overlay_bytes :: "readstate \<Rightarrow> readstate" where
  "refresh_overlay_bytes s = s\<lparr>rs_pinned_bytes :=
     Option.bind (rs_root_bytes s) (\<lambda>n. usize_checked_add n (ov_bytes (rs_overlay s)))\<rparr>"

text \<open>The sum of the checkpoint's file sizes, unless it overflows.\<close>

fun sum_sizes :: "nat \<Rightarrow> (file_id \<times> u64) list \<Rightarrow> nat option" where
  "sum_sizes n [] = Some n"
| "sum_sizes n (f # fs) = Option.bind (usize_checked_add n (unat (snd f))) (\<lambda>n. sum_sizes n fs)"

definition refresh_pinned_bytes :: "readstate \<Rightarrow> readstate" where
  "refresh_pinned_bytes s = refresh_overlay_bytes (s\<lparr>rs_root_bytes := sum_sizes 0 (root_file_sizes (rs_root s))\<rparr>)"

definition state_file_sizes :: "readstate \<Rightarrow> (file_id \<times> u64) list" where
  "state_file_sizes s = root_file_sizes (rs_root s) @ overlay_file_sizes (rs_overlay s)"

definition state_ready :: "readstate \<Rightarrow> unit res" where
  "state_ready s = (if rs_poisoned s then Inl NeedsRecovery else Inr ())"

definition table_definition :: "readstate \<Rightarrow> u64 \<Rightarrow> table res" where
  "table_definition s t = ok_or (map_of (rs_catalog s) t) (NotFound (''table '' @ show_nat (unat t)))"

section \<open>Reading one entity\<close>

definition load_charged :: "readstate \<Rightarrow> u64 \<Rightarrow> u64 \<Rightarrow> (nat \<Rightarrow> 's \<Rightarrow> 's res) \<Rightarrow> 's \<Rightarrow> (entity_data option \<times> 's) res" where
  "load_charged s table ent charge x =
     res_bind (table_definition s table) (\<lambda>_. case overlay_get (rs_overlay s) (table, ent) of
         Some d \<Rightarrow>
           (let size = entity_bytes (rs_store s) (ed_current d) + entity_bytes (rs_store s) (ed_base d) in
            res_bind (st_decoded (rs_store s) size) (\<lambda>_. res_bind (charge size x) (\<lambda>x. Inr (Some d, x))))
       | None \<Rightarrow> entity_charged (rs_root s) (rs_store s) table ent charge x)"

definition load :: "readstate \<Rightarrow> u64 \<Rightarrow> u64 \<Rightarrow> entity_data option res" where
  "load s table ent = res_bind (load_charged s table ent (\<lambda>_ x. Inr x) ()) (\<lambda>(d, _). Inr d)"

definition state_get :: "readstate \<Rightarrow> u64 \<Rightarrow> u64 \<Rightarrow> entity option res" where
  "state_get s table ent =
     res_bind (state_ready s) (\<lambda>_.
     res_bind (table_definition s table) (\<lambda>_.
     res_bind (case overlay_get (rs_overlay s) (table, ent) of
         Some d \<Rightarrow> res_bind (st_decoded (rs_store s) (entity_bytes (rs_store s) (ed_current d))) (\<lambda>_. Inr (Some (ed_current d)))
       | None \<Rightarrow> current_state (rs_root s) (rs_store s) table ent) (\<lambda>current.
       Inr (case current of Some e \<Rightarrow> if en_deleted e then None else Some e | None \<Rightarrow> None))))"

definition read_version :: "readstate \<Rightarrow> u64 \<Rightarrow> u64 \<Rightarrow> u64 \<Rightarrow> bool \<Rightarrow> entity res" where
  "read_version s table ent version use_snapshots =
     res_bind (state_ready s) (\<lambda>_.
     res_bind (table_definition s table) (\<lambda>def. case overlay_get (rs_overlay s) (table, ent) of
         Some d \<Rightarrow> entity_at d def version use_snapshots
       | None \<Rightarrow> state_at (rs_root s) (rs_store s) table ent version use_snapshots))"

definition get_at_version :: "readstate \<Rightarrow> u64 \<Rightarrow> u64 \<Rightarrow> u64 \<Rightarrow> entity res" where
  "get_at_version s table ent version = read_version s table ent version True"

definition replay_to_version :: "readstate \<Rightarrow> u64 \<Rightarrow> u64 \<Rightarrow> u64 \<Rightarrow> entity res" where
  "replay_to_version s table ent version = read_version s table ent version False"

definition replay :: "readstate \<Rightarrow> u64 \<Rightarrow> u64 \<Rightarrow> entity res" where
  "replay s table ent =
     res_bind (state_ready s) (\<lambda>_.
     res_bind (table_definition s table) (\<lambda>def. case overlay_get (rs_overlay s) (table, ent) of
         Some d \<Rightarrow> entity_at d def (en_version (ed_current d)) False
       | None \<Rightarrow>
           res_bind (current_state (rs_root s) (rs_store s) table ent) (\<lambda>current.
           res_bind (ok_or current (NotFound (''entity '' @ show_nat (unat ent)))) (\<lambda>current.
             state_at (rs_root s) (rs_store s) table ent (en_version current) False))))"

definition state_visit_events :: "readstate \<Rightarrow> u64 \<Rightarrow> u64 \<Rightarrow> u64 \<Rightarrow> u64 \<Rightarrow> ('s \<Rightarrow> 's res) \<Rightarrow> (nat \<Rightarrow> 's \<Rightarrow> (bool \<times> 's) res) \<Rightarrow>
    (event \<Rightarrow> 's \<Rightarrow> (bool \<times> 's) res) \<Rightarrow> 's \<Rightarrow> (bool \<times> 's) res" where
  "state_visit_events s table ent low high check admit visit x =
     res_bind (state_ready s) (\<lambda>_.
     res_bind (table_definition s table) (\<lambda>_. case overlay_get (rs_overlay s) (table, ent) of
         Some d \<Rightarrow> entity_visit_events d (rs_store s) low high check admit visit x
       | None \<Rightarrow> root_visit_events (rs_root s) (rs_store s) table ent low high check admit visit x))"

definition retained_range :: "readstate \<Rightarrow> u64 \<Rightarrow> u64 \<Rightarrow> (u64 \<times> u64) res" where
  "retained_range s table ent =
     res_bind (state_ready s) (\<lambda>_.
     res_bind (load s table ent) (\<lambda>d.
     res_bind (ok_or d (NotFound (''entity '' @ show_nat (unat ent)))) (\<lambda>d.
       Inr (en_version (ed_base d), en_version (ed_current d)))))"

section \<open>Listing a table\<close>

text \<open>
  The merging loop: what the checkpoint's index still yields, the identifiers left in the overlay,
  and the visitor with its state. An identifier only in the overlay has no index entry.
\<close>

fun merge_entries :: "(u64 \<Rightarrow> index_value option \<Rightarrow> 's \<Rightarrow> 's res) \<Rightarrow> (u64 \<times> index_value) res list \<Rightarrow> u64 list \<Rightarrow> 's \<Rightarrow> 's res" where
  "merge_entries visit [] [] x = Inr x"
| "merge_entries visit (Inl e # disk) recent x = Inl e"
| "merge_entries visit [] (b # recent) x = res_bind (visit b None x) (merge_entries visit [] recent)"
| "merge_entries visit (Inr (a, v) # disk) [] x = res_bind (visit a (Some v) x) (merge_entries visit disk [])"
| "merge_entries visit (Inr (a, v) # disk) (b # recent) x =
     (if a < b then res_bind (visit a (Some v) x) (merge_entries visit disk (b # recent))
      else if b < a then res_bind (visit b None x) (merge_entries visit (Inr (a, v) # disk) recent)
      else res_bind (visit a (Some v) x) (merge_entries visit disk recent))"

definition disk_entries :: "readstate \<Rightarrow> u64 \<Rightarrow> u64 \<Rightarrow> u64 \<Rightarrow> (u64 \<times> index_value) res list" where
  "disk_entries s table lower upper =
     (if bt_has (r_catalog (rs_root s)) table
      then map (\<lambda>e. res_bind e (\<lambda>(k, v). Inr (fst k, v)))
        (scan_index (rs_root s) (rs_store s) table 3 (lower, 0) (upper, - 1))
      else [])"

definition visit_entries_range :: "readstate \<Rightarrow> u64 \<Rightarrow> u64 \<Rightarrow> u64 \<Rightarrow> (u64 \<Rightarrow> index_value option \<Rightarrow> 's \<Rightarrow> 's res) \<Rightarrow> 's \<Rightarrow> 's res" where
  "visit_entries_range s table lower upper visit x =
     merge_entries visit (disk_entries s table lower upper)
       (map (\<lambda>e. snd (fst e)) (overlay_range (rs_overlay s) (Included (table, lower)) (Included (table, upper)))) x"

definition visit_entries :: "readstate \<Rightarrow> u64 \<Rightarrow> (u64 \<Rightarrow> index_value option \<Rightarrow> 's \<Rightarrow> 's res) \<Rightarrow> 's \<Rightarrow> 's res" where
  "visit_entries s table visit x = visit_entries_range s table 0 (- 1) visit x"

definition scan_visit :: "readstate \<Rightarrow> u64 \<Rightarrow> (entity \<Rightarrow> 's \<Rightarrow> 's res) \<Rightarrow> u64 \<Rightarrow> index_value option \<Rightarrow> 's \<Rightarrow> 's res" where
  "scan_visit s table visit ent locator x =
     res_bind (case overlay_get (rs_overlay s) (table, ent) of
         Some d \<Rightarrow> Inr (ed_current d)
       | None \<Rightarrow> res_bind (ok_or locator (Corrupt ''scanned entity has no record'')) (\<lambda>l.
           read_state (rs_root s) (rs_store s) table 0 (fst l) ent)) (\<lambda>e.
       if \<not> en_deleted e then visit e x else Inr x)"

definition state_scan :: "readstate \<Rightarrow> u64 \<Rightarrow> (entity \<Rightarrow> 's \<Rightarrow> 's res) \<Rightarrow> 's \<Rightarrow> 's res" where
  "state_scan s table visit x =
     res_bind (state_ready s) (\<lambda>_.
     res_bind (table_definition s table) (\<lambda>_. visit_entries s table (scan_visit s table visit) x))"

section \<open>Laws of the merge\<close>

text \<open>The identifiers the loop visits, in its order.\<close>

fun merge_keys :: "'a::linorder list \<Rightarrow> 'a list \<Rightarrow> 'a list" where
  "merge_keys [] ys = ys"
| "merge_keys xs [] = xs"
| "merge_keys (x # xs) (y # ys) =
     (if x < y then x # merge_keys xs (y # ys) else if y < x then y # merge_keys (x # xs) ys else x # merge_keys xs ys)"

lemma set_merge_keys: "set (merge_keys xs ys) = set xs \<union> set ys"
  by (induction xs ys rule: merge_keys.induct) auto

lemma sorted_merge_keys: "sorted_wrt (<) xs \<Longrightarrow> sorted_wrt (<) ys \<Longrightarrow> sorted_wrt (<) (merge_keys xs ys)"
proof (induction xs ys rule: merge_keys.induct)
  case (3 x xs y ys)
  consider "x < y" | "y < x" | "x = y" by (rule linorder_cases)
  then show ?case using 3 by cases (auto simp: set_merge_keys)
qed auto

lemma res_fold_cong: "(\<And>a x. a \<in> set xs \<Longrightarrow> f a x = g a x) \<Longrightarrow> res_fold f xs x = res_fold g xs x"
  by (induction xs arbitrary: x) (auto intro: res_bind_cong)

lemma merge_entries_fold:
  "\<forall>e \<in> set ts. L (fst e) = Some (snd e) \<Longrightarrow> \<forall>b \<in> set ids. b \<notin> fst ` set ts \<longrightarrow> L b = None \<Longrightarrow>
   sorted_wrt (<) (map fst ts) \<Longrightarrow> sorted_wrt (<) ids \<Longrightarrow>
   merge_entries visit (map Inr ts) ids x = res_fold (\<lambda>a. visit a (L a)) (merge_keys (map fst ts) ids) x"
proof (induction ts arbitrary: ids x)
  case Nil
  then show ?case by (induction ids arbitrary: x) (auto intro!: res_bind_cong)
next
  case (Cons e ts)
  note outer = Cons.IH and all = Cons.prems(1,3)
  obtain a v where e: "e = (a, v)" by (cases e)
  have step: "merge_entries visit (map Inr ts) ids y = res_fold (\<lambda>a. visit a (L a)) (merge_keys (map fst ts) ids) y"
    if "sorted_wrt (<) ids" "\<forall>b \<in> set ids. b \<noteq> a \<and> (b \<notin> fst ` set (e # ts) \<longrightarrow> L b = None)" for ids y
    by (rule outer) (use all that e in auto)
  from Cons.prems(2,4) show ?case
  proof (induction ids arbitrary: x)
    case Nil
    have "merge_keys (map fst ts) [] = map fst ts" by (cases ts) simp_all
    then show ?case using all e step [of "[]"] by (auto intro!: res_bind_cong)
  next
    case (Cons b ids)
    have later: "\<forall>c \<in> set ids. b < c" using Cons.prems(2) by simp
    consider "a < b" | "b < a" | "a = b" by (rule linorder_cases)
    then show ?case
    proof cases
      case 1
      then have "merge_entries visit (map Inr ts) (b # ids) y = res_fold (\<lambda>a. visit a (L a)) (merge_keys (map fst ts) (b # ids)) y" for y
        by (intro step) (use Cons.prems later in auto)
      then show ?thesis using 1 all e by (auto intro!: res_bind_cong)
    next
      case 2
      then have "b \<notin> fst ` set (e # ts)" using all(2) e by auto
      then have "L b = None" using Cons.prems(1) by simp
      then show ?thesis using 2 e Cons.IH Cons.prems by (auto intro!: res_bind_cong)
    next
      case 3
      then have "merge_entries visit (map Inr ts) ids y = res_fold (\<lambda>a. visit a (L a)) (merge_keys (map fst ts) ids) y" for y
        by (intro step) (use Cons.prems later in auto)
      then show ?thesis using 3 all e by (auto intro!: res_bind_cong)
    qed
  qed
qed

lemma merged_sorted:
  assumes "sorted_wrt (<) xs" "sorted_wrt (<) (ys :: 'a::linorder list)"
  shows "merge_keys xs ys = sorted_list_of_set (set xs \<union> set ys)"
  by (rule sorted_distinct_set_unique)
     (use sorted_merge_keys [OF assms] in \<open>auto simp: strict_sorted_iff set_merge_keys\<close>)

text \<open>
  The primary index keys an entity by its identifier and zero. \<open>listed_ids\<close> are the identifiers
  the checkpoint or the overlay knows.
\<close>

definition primary_ok :: "(index_key \<times> index_value) list \<Rightarrow> bool" where
  "primary_ok ts = (\<forall>e \<in> set ts. snd (fst e) = 0)"

definition listed_ids :: "readstate \<Rightarrow> u64 \<Rightarrow> (index_key \<times> index_value) list \<Rightarrow> u64 set" where
  "listed_ids s table ts = {a. bt_has (r_catalog (rs_root s)) table \<and> bt_has ts (a, 0) \<or> overlay_get (rs_overlay s) (table, a) \<noteq> None}"

lemma recent_ids:
  assumes "om_inv (ov_entries ov)"
  shows "sorted_wrt (<) (map (\<lambda>e. snd (fst e)) (overlay_range ov (Included (table, 0)) (Included (table, - 1)))) \<and>
    set (map (\<lambda>e. snd (fst e)) (overlay_range ov (Included (table, 0)) (Included (table, - 1)))) = {a. overlay_get ov (table, a) \<noteq> None}"
proof
  let ?es = "overlay_range ov (Included (table, 0)) (Included (table, - 1))"
  have mem: "e \<in> set ?es \<longleftrightarrow> overlay_get ov (fst e) = Some (snd e) \<and> fst (fst e) = table" for e
    using om.range_iff [OF assms, of "fst e" "snd e"]
    by (cases e) (auto simp: overlay_range_def overlay_get_def less_prod_def less_eq_prod_def not_less)
  have "sorted_wrt (\<lambda>e f. fst e < fst f) ?es"
    using om.range_ordered [OF assms] by (simp add: overlay_range_def bt_ok_def sorted_wrt_map)
  then have "sorted_wrt (\<lambda>e f. snd (fst e) < snd (fst f)) ?es"
    by (rule sorted_wrt_mono_rel [rotated]) (auto simp: mem less_prod_def)
  then show "sorted_wrt (<) (map (\<lambda>e. snd (fst e)) ?es)" by (simp add: sorted_wrt_map)
  show "set (map (\<lambda>e. snd (fst e)) ?es) = {a. overlay_get ov (table, a) \<noteq> None}"
  proof (intro set_eqI iffI)
    fix a assume "a \<in> {a. overlay_get ov (table, a) \<noteq> None}"
    then obtain d where "overlay_get ov (table, a) = Some d" by auto
    then have "((table, a), d) \<in> set ?es" by (simp add: mem)
    then show "a \<in> set (map (\<lambda>e. snd (fst e)) ?es)" by force
  qed (auto simp: mem)
qed

lemma visit_entries_listed:
  assumes "bt_has (r_catalog (rs_root s)) table \<Longrightarrow> root_holds (rs_root s, rs_store s, table, 3) ts" "bt_ok ts" "primary_ok ts"
    and "om_inv (ov_entries (rs_overlay s))"
  shows "visit_entries s table visit x =
    res_fold (\<lambda>a. visit a (if bt_has (r_catalog (rs_root s)) table then map_of ts (a, 0) else None))
      (sorted_list_of_set (listed_ids s table ts)) x"
proof -
  let ?has = "bt_has (r_catalog (rs_root s)) table"
  let ?us = "if ?has then map (\<lambda>e. (fst (fst e), snd e)) ts else []"
  let ?ids = "map (\<lambda>e. snd (fst e)) (overlay_range (rs_overlay s) (Included (table, 0)) (Included (table, - 1)))"
  note ids = recent_ids [OF assms(4), of table]
  have keys: "fst e = (fst (fst e), 0)" if "e \<in> set ts" for e using that assms(3) by (simp add: primary_ok_def prod_eq_iff)
  have disk: "disk_entries s table 0 (- 1) = map Inr ?us"
  proof (cases ?has)
    case True
    have "range_list ts (0, 0) (- 1, - 1) = ts"
      unfolding range_list_def by (rule filter_True) (auto simp: less_eq_prod_def)
    then have "scan_index (rs_root s) (rs_store s) table 3 (0, 0) (- 1, - 1) = map Inr ts"
      using root_index.items_holds [OF assms(1) [OF True], of "(0, 0)" "(- 1, - 1)"] by (simp add: root_items_def)
    then show ?thesis using True by (simp add: disk_entries_def case_prod_unfold)
  qed (simp add: disk_entries_def)
  have sorted: "sorted_wrt (<) (map fst ?us)"
  proof -
    have "sorted_wrt (\<lambda>e f. fst e < fst f) ts" using assms(2) by (simp add: bt_ok_def sorted_wrt_map)
    then have "sorted_wrt (\<lambda>e f. fst (fst e) < fst (fst f)) ts"
    proof (rule sorted_wrt_mono_rel [rotated])
      fix e f assume m: "e \<in> set ts" "f \<in> set ts" "fst e < fst f"
      then have "snd (fst e) = snd (fst f)" using assms(3) by (simp add: primary_ok_def)
      then show "fst (fst e) < fst (fst f)" using m(3) by (simp add: less_prod_def)
    qed
    then show ?thesis by (simp add: sorted_wrt_map comp_def)
  qed
  let ?L = "\<lambda>a. if ?has then map_of ts (a, 0) else None"
  have L: "\<forall>e \<in> set ?us. ?L (fst e) = Some (snd e)"
  proof (cases ?has)
    case True
    have "map_of ts (fst (fst e), 0) = Some (snd e)" if "e \<in> set ts" for e
    proof -
      have "((fst (fst e), 0), snd e) \<in> set ts" using keys [OF that] that by (metis prod.collapse)
      then show ?thesis by (simp only: bt_ok_mem_iff [OF assms(2)])
    qed
    then show ?thesis using True by simp
  qed simp
  have miss: "a \<in> fst ` set ?us" if "?L a = Some w" for a w
  proof (cases ?has)
    case True
    then have "((a, 0), w) \<in> set ts" using that map_of_SomeD by simp
    then have "(a, w) \<in> (\<lambda>e. (fst (fst e), snd e)) ` set ts" by (intro image_eqI [where x = "((a, 0), w)"]) simp_all
    then have "a \<in> fst ` (\<lambda>e. (fst (fst e), snd e)) ` set ts" by (intro image_eqI [where x = "(a, w)"]) simp_all
    then show ?thesis using True by (simp only: if_True set_map)
  qed (use that in simp)
  have "\<forall>b \<in> set ?ids. b \<notin> fst ` set ?us \<longrightarrow> ?L b = None"
  proof (intro ballI impI)
    fix b assume b: "b \<notin> fst ` set ?us"
    show "?L b = None"
    proof (cases "?L b")
      case (Some w)
      then show ?thesis using miss [OF Some] b by blast
    qed
  qed
  from merge_entries_fold [OF L this sorted conjunct1 [OF ids]]
  have "visit_entries s table visit x = res_fold (\<lambda>a. visit a (?L a)) (merge_keys (map fst ?us) ?ids) x"
    by (simp only: visit_entries_def visit_entries_range_def disk)
  also have "merge_keys (map fst ?us) ?ids = sorted_list_of_set (set (map fst ?us) \<union> set ?ids)"
    by (rule merged_sorted [OF sorted conjunct1 [OF ids]])
  also have "set (map fst ?us) \<union> set ?ids = listed_ids s table ts"
  proof -
    have "a \<in> fst ` set ?us \<longleftrightarrow> ?L a \<noteq> None" for a
      using L miss [of a] by (metis (no_types, lifting) imageE not_None_eq)
    moreover have "?L a \<noteq> None \<longleftrightarrow> ?has \<and> bt_has ts (a, 0)" for a by (simp add: bt_has_def)
    ultimately have "a \<in> fst ` set ?us \<longleftrightarrow> ?has \<and> bt_has ts (a, 0)" for a by blast
    then show ?thesis using conjunct2 [OF ids] by (auto simp: listed_ids_def)
  qed
  finally show ?thesis .
qed

lemma scan_lookup:
  assumes "bt_has (r_catalog (rs_root s)) table \<Longrightarrow> root_holds (rs_root s, rs_store s, table, 3) ts"
    and "a \<in> listed_ids s table ts" "state_get s table a = Inr e"
  shows "scan_visit s table visit a (if bt_has (r_catalog (rs_root s)) table then map_of ts (a, 0) else None) x =
    (case e of Some e \<Rightarrow> visit e x | None \<Rightarrow> Inr x)"
proof (cases "overlay_get (rs_overlay s) (table, a)")
  case (Some d)
  then show ?thesis using assms(3) by (auto simp: scan_visit_def state_get_def res_simps split: if_splits)
next
  case None
  then have has: "bt_has (r_catalog (rs_root s)) table" and key: "bt_has ts (a, 0)" using assms(2) by (auto simp: listed_ids_def)
  then obtain l where l: "map_of ts (a, 0) = Some l" by (auto simp: bt_has_def)
  have "lookup_index (rs_root s) (rs_store s) table 3 (a, 0) = Inr (Some l)"
    using root_index.look_holds [OF assms(1) [OF has], of "(a, 0)"] l by (simp add: root_look_def)
  then have "locate (rs_root s) (rs_store s) table a = res_bind (entity_slot l) (\<lambda>slot. Inr (Some (slot, l)))"
    using has by (simp add: locate_def)
  then obtain c where "read_state (rs_root s) (rs_store s) table 0 (fst l) a = Inr c" "e = (if en_deleted c then None else Some c)"
    using assms(3) None by (auto simp: state_get_def current_state_def res_simps)
  then show ?thesis using None has l by (simp add: scan_visit_def)
qed

lemma res_fold_filter:
  "(\<And>a x. a \<in> set xs \<Longrightarrow> f a x = (case g a of Some e \<Rightarrow> h e x | None \<Rightarrow> Inr x)) \<Longrightarrow>
   res_fold f xs x = res_fold h (List.map_filter g xs) x"
  by (induction xs arbitrary: x) (auto simp: map_filter_simps split: option.split intro!: res_bind_cong)

section \<open>Properties\<close>

text \<open>
  C16 (scan_is_lookups): a scan of a table visits exactly the live entities that point reads return,
  each once and in ascending order of their identifiers, whether a row is still in the overlay, only
  in the checkpoint or in both.
\<close>

theorem scan_is_lookups:
  assumes "bt_has (r_catalog (rs_root s)) table \<Longrightarrow> root_holds (rs_root s, rs_store s, table, 3) ts" "bt_ok ts" "primary_ok ts"
    and "om_inv (ov_entries (rs_overlay s))" "state_ready s = Inr ()" "table_definition s table = Inr def"
    and "\<And>a. a \<in> listed_ids s table ts \<Longrightarrow> state_get s table a = Inr (g a)"
  shows "state_scan s table visit x = res_fold visit (List.map_filter g (sorted_list_of_set (listed_ids s table ts))) x"
proof -
  have fin: "finite (listed_ids s table ts)"
  proof -
    have "listed_ids s table ts \<subseteq> fst ` fst ` set ts \<union> snd ` dom (om_get (ov_entries (rs_overlay s)))"
      by (force simp: listed_ids_def bt_has_def overlay_get_def dest: map_of_SomeD)
    moreover have "finite (dom (om_get (ov_entries (rs_overlay s))))"
      using om.get_map_of [OF assms(4)] finite_dom_map_of by (metis (no_types, lifting) ext)
    ultimately show ?thesis by (meson finite_UnI finite_imageI finite_set finite_subset)
  qed
  have "state_scan s table visit x = visit_entries s table (scan_visit s table visit) x"
    using assms(5,6) by (simp add: state_scan_def)
  also have "\<dots> = res_fold (\<lambda>a. scan_visit s table visit a (if bt_has (r_catalog (rs_root s)) table then map_of ts (a, 0) else None))
      (sorted_list_of_set (listed_ids s table ts)) x"
    by (rule visit_entries_listed) (use assms in auto)
  also have "\<dots> = res_fold visit (List.map_filter g (sorted_list_of_set (listed_ids s table ts))) x"
  proof (rule res_fold_filter)
    fix a y assume "a \<in> set (sorted_list_of_set (listed_ids s table ts))"
    then have a: "a \<in> listed_ids s table ts" using fin by simp
    show "scan_visit s table visit a (if bt_has (r_catalog (rs_root s)) table then map_of ts (a, 0) else None) y =
        (case g a of Some e \<Rightarrow> visit e y | None \<Rightarrow> Inr y)"
      by (rule scan_lookup [OF _ a assms(7) [OF a]]) (rule assms(1))
  qed
  finally show ?thesis .
qed

definition sample_readstate :: "store \<Rightarrow> readstate" where
  "sample_readstate st = \<lparr>rs_root = history_root, rs_store = st, rs_catalog = [(1, sample_table)], rs_overlay = overlay_new,
     rs_lsn = 7, rs_limits = limits_default, rs_timeouts = timeouts_default, rs_charges = NoLink,
     rs_root_bytes = Some 0, rs_pinned_bytes = Some 0, rs_poisoned = False\<rparr>"

lemma scan_is_lookups_witness:
  "\<exists>st. state_scan (sample_readstate st) 1 (\<lambda>e es. Inr (es @ [e])) [] = Inr [sample_state 2]"
proof -
  obtain st val where st: "root_holds (history_root, st, 1, 3) [((1, 0), val)]" "entity_slot val = Inr 0"
      "read_state history_root st 1 0 (fst val) 1 = Inr (sample_state 2)"
    by (rule sample_checkpoint) blast
  let ?s = "sample_readstate st"
  have has: "bt_has (r_catalog (rs_root ?s)) 1" "rs_root ?s = history_root" "rs_store ?s = st" "om_inv (ov_entries (rs_overlay ?s))"
      "state_ready ?s = Inr ()" "table_definition ?s 1 = Inr sample_table" "\<And>k. overlay_get (rs_overlay ?s) k = None"
    by (simp_all add: sample_readstate_def history_root_def bt_has_def state_ready_def table_definition_def overlay_new_def
        overlay_get_def)
  have ids: "listed_ids ?s 1 [((1, 0), val)] = {1}"
    using has by (auto simp: listed_ids_def bt_has_def split: if_splits)
  have "locate history_root st 1 1 = Inr (Some (0, val))"
    using root_index.look_holds [OF st(1), of "(1, 0)"] has(1,2) st(2) by (simp add: root_look_def locate_def)
  then have "current_state history_root st 1 1 = Inr (Some (sample_state 2))" using st(3) by (simp add: current_state_def)
  then have "state_get ?s 1 1 = Inr (Some (sample_state 2))" using has by (simp add: state_get_def sample_state_def)
  then have "state_scan ?s 1 (\<lambda>e es. Inr (es @ [e])) [] = res_fold (\<lambda>e es. Inr (es @ [e]))
      (List.map_filter (\<lambda>_. Some (sample_state 2)) (sorted_list_of_set (listed_ids ?s 1 [((1, 0), val)]))) []"
    by (intro scan_is_lookups) (use has st(1) ids in \<open>auto simp: primary_ok_def\<close>)
  then show ?thesis by (intro exI [of _ st]) (simp add: ids map_filter_simps)
qed

end
