(* ===== verification/Operations.thy ===== *)
theory Operations
  imports Model_Laws
begin

text \<open>
  Models the operations of a transaction as \<^verbatim>\<open>database.rs\<close> logs them: their encoded lengths, the
  payload of a log record and its decoder, and the check of a table's creation or schema change. The
  laws: a payload is read back as the operations it was written for, its length is the sum of the
  lengths the operations were charged, and an accepted schema change leaves every earlier schema
  version and the meaning of every stored field as it was.
\<close>

section \<open>Operations\<close>

datatype operation =
    TableOp table
  | CreateOp u64 u64 fields
  | ApplyOp u64 u64 fields
  | DeleteOp u64 u64
  | RetainOp u64 u64 u64
  | SnapshotOp u64 u64

fun op_encoded_len :: "operation \<Rightarrow> nat" where
  "op_encoded_len (TableOp t) = 1 + 24 + length (t_name t) +
     sum_list (map (\<lambda>s. 16 + sum_list (map (\<lambda>f. 14 + length (f_name f)) (s_fields s))) (t_schemas t))"
| "op_encoded_len (CreateOp _ _ fs) = 17 + fields_encoded_len fs"
| "op_encoded_len (ApplyOp _ _ fs) = 17 + fields_encoded_len fs"
| "op_encoded_len (RetainOp _ _ _) = 25"
| "op_encoded_len (DeleteOp _ _) = 17"
| "op_encoded_len (SnapshotOp _ _) = 17"

fun entity_key :: "operation \<Rightarrow> (u64 \<times> u64) option" where
  "entity_key (TableOp _) = None"
| "entity_key (CreateOp t ent _) = Some (t, ent)"
| "entity_key (ApplyOp t ent _) = Some (t, ent)"
| "entity_key (DeleteOp t ent) = Some (t, ent)"
| "entity_key (RetainOp t ent _) = Some (t, ent)"
| "entity_key (SnapshotOp t ent) = Some (t, ent)"

fun encode_op :: "operation \<Rightarrow> bytes" where
  "encode_op (TableOp t) = e_u8 0 @ encode_table t"
| "encode_op (CreateOp t ent fs) = e_u8 1 @ e_u64 t @ e_u64 ent @ encode_fields fs"
| "encode_op (ApplyOp t ent fs) = e_u8 2 @ e_u64 t @ e_u64 ent @ encode_fields fs"
| "encode_op (DeleteOp t ent) = e_u8 3 @ e_u64 t @ e_u64 ent"
| "encode_op (RetainOp t ent n) = e_u8 4 @ e_u64 t @ e_u64 ent @ e_u64 n"
| "encode_op (SnapshotOp t ent) = e_u8 5 @ e_u64 t @ e_u64 ent"

definition encode_ops :: "operation list \<Rightarrow> bytes" where
  "encode_ops ops = e_u64 (of_nat (length ops)) @ concat (map encode_op ops)"

text \<open>The body of the decoding loop, which pushes one operation.\<close>

definition decode_op :: "operation list \<Rightarrow> decoder \<Rightarrow> (operation list \<times> decoder) res" where
  "decode_op ops d = res_bind (d_u8 d) (\<lambda>(tag, d).
     if tag = 0 then res_bind (decode_table d) (\<lambda>(t, d). Inr (ops @ [TableOp t], d))
     else if tag = 1 then res_bind (d_u64 d) (\<lambda>(t, d). res_bind (d_u64 d) (\<lambda>(ent, d).
       res_bind (decode_fields d) (\<lambda>(fs, d). Inr (ops @ [CreateOp t ent fs], d))))
     else if tag = 2 then res_bind (d_u64 d) (\<lambda>(t, d). res_bind (d_u64 d) (\<lambda>(ent, d).
       res_bind (decode_fields d) (\<lambda>(fs, d). Inr (ops @ [ApplyOp t ent fs], d))))
     else if tag = 3 then res_bind (d_u64 d) (\<lambda>(t, d). res_bind (d_u64 d) (\<lambda>(ent, d).
       Inr (ops @ [DeleteOp t ent], d)))
     else if tag = 4 then res_bind (d_u64 d) (\<lambda>(t, d). res_bind (d_u64 d) (\<lambda>(ent, d).
       res_bind (d_u64 d) (\<lambda>(n, d). Inr (ops @ [RetainOp t ent n], d))))
     else if tag = 5 then res_bind (d_u64 d) (\<lambda>(t, d). res_bind (d_u64 d) (\<lambda>(ent, d).
       Inr (ops @ [SnapshotOp t ent], d)))
     else Inl (Corrupt ''unknown WAL operation''))"

definition decode_ops :: "bytes \<Rightarrow> operation list res" where
  "decode_ops bs = res_bind (d_count 1 (d_new bs)) (\<lambda>(count, d).
     if count = 0 then Inl (Corrupt ''empty WAL transaction'')
     else res_bind (d_repeat count decode_op [] d) (\<lambda>(ops, d).
       res_bind (d_finish d) (\<lambda>_. Inr ops)))"

section \<open>Table changes\<close>

definition text_string :: "bytes \<Rightarrow> string" where
  "text_string bs = map (\<lambda>b. char_of (unat b)) bs"

definition field_preserved :: "schema \<Rightarrow> field \<Rightarrow> bool" where
  "field_preserved latest f = list_ex (\<lambda>new. f_id new = f_id f \<and> f_type new = f_type f \<and> f_nullable new = f_nullable f)
     (s_fields latest)"

definition validate_evolution :: "table \<Rightarrow> table \<Rightarrow> unit res" where
  "validate_evolution old t =
     (if t_schemas t = t_schemas old then Inr ()
      else if length (t_schemas t) \<noteq> length (t_schemas old) + 1 \<or>
          take (length (t_schemas old)) (t_schemas t) \<noteq> t_schemas old \<or>
          s_version (table_schema t) \<noteq> s_version (table_schema old) + 1
      then Inl (Invalid ''invalid schema evolution'')
      else if \<not> list_all (field_preserved (table_schema t)) (s_fields (table_schema old))
      then Inl (Invalid ''existing field IDs, types and nullability must be preserved'')
      else if list_ex (\<lambda>f. \<not> list_ex (\<lambda>g. f_id g = f_id f) (s_fields (table_schema old)) \<and> \<not> f_nullable f)
          (s_fields (table_schema t))
      then Inl (Invalid ''new fields must be nullable'')
      else Inr ())"

text \<open>The identifier a new table has to take: one more than the greatest in use.\<close>

definition next_table_id :: "(u64, table) btree \<Rightarrow> u64" where
  "next_table_id catalog = (case bt_last_key catalog of None \<Rightarrow> 0 | Some k \<Rightarrow> k) + 1"

definition validate_table_change :: "(u64, table) btree \<Rightarrow> table \<Rightarrow> unit res" where
  "validate_table_change catalog t =
     res_bind (validate_name (t_name t)) (\<lambda>_.
     if list_ex (\<lambda>e. t_id (snd e) \<noteq> t_id t \<and> t_name (snd e) = t_name t) catalog
     then Inl (AlreadyExists (text_string (t_name t)))
     else if t_schemas t = [] then Inl (Invalid ''table needs a schema'')
     else res_bind (res_fold (\<lambda>s u. validate_schema s) (t_schemas t) ()) (\<lambda>_.
       case map_of catalog (t_id t) of
         Some old \<Rightarrow> validate_evolution old t
       | None \<Rightarrow>
           if t_id t \<noteq> next_table_id catalog \<or> length (t_schemas t) \<noteq> 1 \<or> s_version (table_schema t) \<noteq> 1
           then Inl (Invalid ''new table requires the next ID and schema version one'')
           else Inr ()))"

section \<open>Laws of the log format\<close>

fun op_ok :: "operation \<Rightarrow> bool" where
  "op_ok (TableOp t) = table_ok t"
| "op_ok (CreateOp _ _ fs) = fields_ok fs"
| "op_ok (ApplyOp _ _ fs) = fields_ok fs"
| "op_ok _ = True"

lemma length_encode_op: "length (encode_op x) = op_encoded_len x"
  by (cases x) (simp_all add: encode_table_def encode_schema_def encode_field_def_def length_concat comp_def
      fields_encoded_len_correct)

lemma length_encode_ops: "length (encode_ops ops) = 8 + sum_list (map op_encoded_len ops)"
  by (simp add: encode_ops_def length_concat comp_def length_encode_op)

lemma op_len_pos: "1 \<le> op_encoded_len x"
  by (cases x) simp_all

lemma parses_op: "op_ok x \<Longrightarrow> parses (decode_op ops) (ops @ [x]) (encode_op x)"
proof (cases x)
  case (TableOp t)
  moreover assume "op_ok x"
  ultimately have "parses (\<lambda>d. res_bind (decode_table d) (\<lambda>(t, d). Inr (ops @ [TableOp t], d))) (ops @ [x]) (encode_table t @ [])"
    by (intro parses_bind [OF parses_decode_table]) simp_all
  then show ?thesis unfolding TableOp decode_op_def [abs_def] encode_op.simps by (intro parses_tag) simp
next
  case (CreateOp t ent fs)
  moreover assume "op_ok x"
  ultimately have "parses (\<lambda>d. res_bind (decode_fields d) (\<lambda>(fs, d). Inr (ops @ [CreateOp t ent fs], d))) (ops @ [x]) (encode_fields fs @ [])"
    by (intro parses_bind [OF parses_decode_fields]) simp_all
  then show ?thesis unfolding CreateOp decode_op_def [abs_def] encode_op.simps
    by (intro parses_tag) (simp, intro parses_u64_bind, simp)
next
  case (ApplyOp t ent fs)
  moreover assume "op_ok x"
  ultimately have "parses (\<lambda>d. res_bind (decode_fields d) (\<lambda>(fs, d). Inr (ops @ [ApplyOp t ent fs], d))) (ops @ [x]) (encode_fields fs @ [])"
    by (intro parses_bind [OF parses_decode_fields]) simp_all
  then show ?thesis unfolding ApplyOp decode_op_def [abs_def] encode_op.simps
    by (intro parses_tag) (simp, intro parses_u64_bind, simp)
next
  case (DeleteOp t ent)
  show ?thesis unfolding DeleteOp decode_op_def [abs_def] encode_op.simps
    by (intro parses_tag) (simp, intro parses_u64_bind parses_u64_last, simp)
next
  case (RetainOp t ent n)
  show ?thesis unfolding RetainOp decode_op_def [abs_def] encode_op.simps
    by (intro parses_tag) (simp, intro parses_u64_bind parses_u64_last, simp)
next
  case (SnapshotOp t ent)
  show ?thesis unfolding SnapshotOp decode_op_def [abs_def] encode_op.simps
    by (intro parses_tag) (simp, intro parses_u64_bind parses_u64_last, simp)
qed

interpretation op_format: loop_format encode_op decode_op "\<lambda>ops x. op_ok x" "\<lambda>ops x. ops @ [x]"
  by unfold_locales (rule parses_op)

lemma op_list: "list_all op_ok xs \<Longrightarrow> op_format.ok_list s xs \<and> foldl (\<lambda>ops x. ops @ [x]) s xs = s @ xs"
  by (induction xs arbitrary: s) simp_all

lemma decode_encode_ops:
  assumes "list_all op_ok ops" "ops \<noteq> []" "length (encode_ops ops) < 2 ^ 63"
  shows "decode_ops (encode_ops ops) = Inr ops"
proof -
  let ?f = "\<lambda>d. res_bind (d_count 1 d) (\<lambda>(count, d). if count = 0 then Inl (Corrupt ''empty WAL transaction'')
      else d_repeat count decode_op [] d)"
  have "parses ?f ops (e_u64 (of_nat (length ops)) @ concat (map encode_op ops))"
  proof (rule parses_count)
    show "parses (\<lambda>d. if length ops = 0 then Inl (Corrupt ''empty WAL transaction'') else d_repeat (length ops) decode_op [] d)
        ops (concat (map encode_op ops))"
      using op_format.parses_repeat [of "[]" ops] op_list [OF assms(1), of "[]"] assms(2) by simp
    show "length ops * max 1 1 \<le> length (concat (map encode_op ops))"
      using length_concat_ge [of ops 1 encode_op] using op_len_pos by (simp add: length_encode_op)
  qed
  from parsesD [OF this, of "d_new (encode_ops ops)" "[]"]
  have "?f (d_new (encode_ops ops)) = Inr (ops, d_skip (length (encode_ops ops)) (d_new (encode_ops ops)))"
    using assms(3) by (simp add: encode_ops_def)
  moreover have "decode_ops bs = res_bind (?f (d_new bs)) (\<lambda>(ops, d). res_bind (d_finish d) (\<lambda>_. Inr ops))" for bs
    by (cases "d_count 1 (d_new bs)") (auto simp: decode_ops_def)
  ultimately show ?thesis by (simp add: d_finish_def d_remaining_rest del: res_bind_assoc)
qed

section \<open>Laws of table changes\<close>

text \<open>
  A catalog: tables under their own identifiers, each with a complete schema history. The names an
  API caller passes are UTF-8 because they are Rust strings.
\<close>

definition catalog_ok :: "(u64, table) btree \<Rightarrow> bool" where
  "catalog_ok catalog = (bt_ok catalog \<and> (\<forall>e \<in> set catalog. fst e = t_id (snd e) \<and> table_ok (snd e)))"

definition table_text_ok :: "table \<Rightarrow> bool" where
  "table_text_ok t = (utf8_valid (t_name t) \<and> (\<forall>s \<in> set (t_schemas t). \<forall>f \<in> set (s_fields s). field_def_ok f))"

lemma catalog_table: "catalog_ok catalog \<Longrightarrow> map_of catalog k = Some t \<Longrightarrow> t_id t = k \<and> table_ok t"
  using map_of_SomeD [of catalog k t] by (fastforce simp: catalog_ok_def)

lemma validate_all: "res_fold (\<lambda>s u. validate_schema s) ss u = Inr v \<Longrightarrow> s \<in> set ss \<Longrightarrow> validate_schema s = Inr ()"
  by (induction ss arbitrary: u) (auto simp: res_simps)

lemma table_ok_valid: "table_ok t \<Longrightarrow> table_valid t"
  by (simp add: table_ok_def table_valid_def schema_ok_def)

lemma validate_change_facts:
  assumes "validate_table_change catalog t = Inr u"
  shows "validate_name (t_name t) = Inr ()" "t_schemas t \<noteq> []" "\<And>s. s \<in> set (t_schemas t) \<Longrightarrow> validate_schema s = Inr ()"
    "\<And>e. e \<in> set catalog \<Longrightarrow> t_id (snd e) \<noteq> t_id t \<Longrightarrow> t_name (snd e) \<noteq> t_name t"
    "map_of catalog (t_id t) = Some old \<Longrightarrow> validate_evolution old t = Inr ()"
    "map_of catalog (t_id t) = None \<Longrightarrow> t_id t = next_table_id catalog \<and> length (t_schemas t) = 1 \<and> s_version (table_schema t) = 1"
proof -
  have *: "validate_name (t_name t) = Inr ()" "t_schemas t \<noteq> []" "res_fold (\<lambda>s u. validate_schema s) (t_schemas t) () = Inr ()"
    "\<not> list_ex (\<lambda>e. t_id (snd e) \<noteq> t_id t \<and> t_name (snd e) = t_name t) catalog"
    "(case map_of catalog (t_id t) of Some old \<Rightarrow> validate_evolution old t
       | None \<Rightarrow> if t_id t \<noteq> next_table_id catalog \<or> length (t_schemas t) \<noteq> 1 \<or> s_version (table_schema t) \<noteq> 1
           then Inl (Invalid ''new table requires the next ID and schema version one'') else Inr ()) = Inr ()"
    using assms by (auto simp: validate_table_change_def res_simps split: if_splits)
  show "validate_name (t_name t) = Inr ()" "t_schemas t \<noteq> []" "\<And>s. s \<in> set (t_schemas t) \<Longrightarrow> validate_schema s = Inr ()"
    using *(1,2) validate_all [OF *(3)] by blast+
  show "\<And>e. e \<in> set catalog \<Longrightarrow> t_id (snd e) \<noteq> t_id t \<Longrightarrow> t_name (snd e) \<noteq> t_name t"
    using *(4) by (auto simp: list_ex_iff)
  show "map_of catalog (t_id t) = Some old \<Longrightarrow> validate_evolution old t = Inr ()"
    "map_of catalog (t_id t) = None \<Longrightarrow> t_id t = next_table_id catalog \<and> length (t_schemas t) = 1 \<and> s_version (table_schema t) = 1"
    using *(5) by (auto split: if_splits)
qed

text \<open>What an accepted evolution adds: nothing, or one schema that keeps the fields of the last.\<close>

lemma evolution_cases:
  assumes "validate_evolution old t = Inr u" "t_schemas old \<noteq> []"
  obtains (rename) "t_schemas t = t_schemas old"
  | (alter) new where "t_schemas t = t_schemas old @ [new]" "s_version new = s_version (table_schema old) + 1"
      "\<And>f. f \<in> set (s_fields (table_schema old)) \<Longrightarrow> field_preserved new f"
      "\<And>f. f \<in> set (s_fields new) \<Longrightarrow> f_id f \<in> f_id ` set (s_fields (table_schema old)) \<or> f_nullable f"
proof (cases "t_schemas t = t_schemas old")
  case False
  then have *: "length (t_schemas t) = length (t_schemas old) + 1" "take (length (t_schemas old)) (t_schemas t) = t_schemas old"
      "s_version (table_schema t) = s_version (table_schema old) + 1"
      "list_all (field_preserved (table_schema t)) (s_fields (table_schema old))"
      "\<not> list_ex (\<lambda>f. \<not> list_ex (\<lambda>g. f_id g = f_id f) (s_fields (table_schema old)) \<and> \<not> f_nullable f) (s_fields (table_schema t))"
    using assms(1) by (auto simp: validate_evolution_def split: if_splits)
  obtain ss new where t: "t_schemas t = ss @ [new]" using *(1) by (cases "t_schemas t" rule: rev_cases) auto
  then have "ss = t_schemas old" "table_schema t = new" using *(1,2) by (auto simp: table_schema_def)
  moreover have "f_id f \<in> f_id ` set fs \<longleftrightarrow> (\<exists>g \<in> set fs. f_id g = f_id f)" for f :: field and fs :: "field list"
    by (metis (no_types, lifting) image_iff)
  ultimately show thesis using t *(3-5) by (intro alter [of new]) (auto simp: list_all_iff list_ex_iff simp del: image_iff)
qed (rule rename)

lemma last_version: "table_ok t \<Longrightarrow> s_version (table_schema t) = of_nat (length (t_schemas t))"
proof -
  assume t: "table_ok t"
  let ?n = "length (t_schemas t) - 1"
  have "t_schemas t \<noteq> []" using t by (simp add: table_ok_def)
  then have "?n < length (t_schemas t)" "table_schema t = t_schemas t ! ?n" "Suc ?n = length (t_schemas t)"
    by (simp_all add: table_schema_def last_conv_nth)
  then show ?thesis using t by (metis (no_types, lifting) add.commute of_nat_Suc schema_ok_def table_ok_def)
qed

lemma change_table_ok:
  assumes c: "catalog_ok catalog" and v: "validate_table_change catalog t = Inr u" and utf8: "table_text_ok t" and id: "t_id t \<noteq> 0"
  shows "table_ok t"
proof -
  note f = validate_change_facts [OF v]
  have "schema_ok n (t_schemas t ! n)" if n: "n < length (t_schemas t)" for n
  proof -
    have mem: "t_schemas t ! n \<in> set (t_schemas t)" using n by simp
    have "s_version (t_schemas t ! n) = of_nat n + 1"
    proof (cases "map_of catalog (t_id t)")
      case None
      then show ?thesis using f(6) n by (auto simp: table_schema_def last_conv_nth length_Suc_conv)
    next
      case (Some old)
      then have ok: "table_ok old" using catalog_table [OF c] by blast
      then have old: "t_schemas old \<noteq> []" "\<And>m. m < length (t_schemas old) \<Longrightarrow> s_version (t_schemas old ! m) = of_nat m + 1"
        by (simp_all add: table_ok_def schema_ok_def)
      show ?thesis
      proof (cases rule: evolution_cases [OF f(5) [OF Some] old(1)])
        case 1
        then show ?thesis using old(2) n by simp
      next
        case (2 new)
        then show ?thesis using old(2) n last_version [OF ok] by (auto simp: nth_append less_Suc_eq)
      qed
    qed
    then show ?thesis using f(3) [OF mem] utf8 mem by (simp add: schema_ok_def table_text_ok_def)
  qed
  then show ?thesis using f(1,2) utf8 id by (simp add: table_ok_def table_text_ok_def)
qed

lemma catalog_change_ok:
  assumes "catalog_ok catalog" "validate_table_change catalog t = Inr u" "table_text_ok t" "t_id t \<noteq> 0"
  shows "catalog_ok (bt_insert (t_id t) t catalog)"
proof -
  have "e \<in> insert (t_id t, t) (set catalog)" if "e \<in> set (bt_insert (t_id t) t catalog)" for e
    using set_bt_insert that by (rule subsetD)
  then show ?thesis using assms(1) change_table_ok [OF assms] by (fastforce simp: catalog_ok_def)
qed

text \<open>Old rows under a later schema: nothing they hold becomes invalid and nothing new is required.\<close>

lemma preserved_value: "field_preserved new f \<Longrightarrow> ids_unique new \<Longrightarrow>
    \<exists>g. find_field new (f_id f) = Some g \<and> (\<forall>v. value_valid v f \<longrightarrow> value_valid v g)"
proof -
  assume "field_preserved new f" "ids_unique new"
  then obtain g where g: "g \<in> set (s_fields new)" "f_id g = f_id f" "f_type g = f_type f" "f_nullable g = f_nullable f"
    by (auto simp: field_preserved_def list_ex_iff)
  then have "value_valid v f \<longrightarrow> value_valid v g" for v by (cases v) auto
  then show ?thesis using find_field_unique [OF \<open>ids_unique new\<close> g(1)] g(2) by auto
qed

lemma fill_succeeds: "(\<And>f. f \<in> set gs \<Longrightarrow> bt_has fs (f_id f) \<or> f_nullable f) \<Longrightarrow> \<exists>fs'. res_fold fill_missing gs fs = Inr fs'"
proof (induction gs arbitrary: fs)
  case (Cons g gs)
  have "fill_missing g fs = Inr (if bt_has fs (f_id g) then fs else bt_insert (f_id g) Null fs)"
    using Cons.prems [of g] by (auto simp: fill_missing_def)
  moreover have "\<exists>fs'. res_fold fill_missing gs (if bt_has fs (f_id g) then fs else bt_insert (f_id g) Null fs) = Inr fs'"
    by (rule Cons.IH) (use Cons.prems in \<open>auto simp: bt_has_def\<close>)
  ultimately show ?case by simp
qed simp

lemma old_row_normalizes:
  assumes new: "\<And>f. f \<in> set (s_fields old) \<Longrightarrow> field_preserved new f" "ids_unique new"
      "\<And>f. f \<in> set (s_fields new) \<Longrightarrow> f_id f \<in> f_id ` set (s_fields old) \<or> f_nullable f"
    and row: "conforms old fs"
  shows "(\<exists>fs'. normalize new fs True = Inr fs') \<or> normalize new fs True = Inl (Invalid ''row exceeds 8 MiB'')"
proof -
  have "conforms_partially new fs"
    unfolding conforms_partially_def
  proof
    fix e assume "e \<in> set fs"
    then obtain f where f: "find_field old (fst e) = Some f" "value_valid (snd e) f"
      using row by (auto simp: conforms_def conforms_partially_def)
    then show "\<exists>f. find_field new (fst e) = Some f \<and> value_valid (snd e) f"
      using preserved_value [OF new(1) new(2), of f] find_field_Some [OF f(1)] by auto
  qed
  then have "res_fold (check_entry new) fs () = Inr ()" using check_entries_iff by blast
  moreover have "bt_has fs (f_id f) \<or> f_nullable f" if "f \<in> set (s_fields new)" for f
    using new(3) [OF that] row by (auto simp: conforms_def)
  then obtain fs' where "res_fold fill_missing (s_fields new) fs = Inr fs'" using fill_succeeds by blast
  ultimately show ?thesis by (auto simp: normalize_def)
qed

lemma find_more: "List.find P xs = Some x \<Longrightarrow> List.find P (xs @ ys) = Some x"
  by (induction xs) (auto split: if_splits)

section \<open>Properties\<close>

text \<open>
  C19 (wal_payload_roundtrip): the payload of a log record is decoded to exactly the operations it
  was written for, and its length is the count's eight bytes and what each operation was charged.
\<close>

theorem wal_payload_roundtrip:
  assumes "list_all op_ok ops" "ops \<noteq> []" "8 + sum_list (map op_encoded_len ops) < 2 ^ 63"
  shows "decode_ops (encode_ops ops) = Inr ops \<and> length (encode_ops ops) = 8 + sum_list (map op_encoded_len ops)"
  using decode_encode_ops [OF assms(1,2)] assms(3) by (simp add: length_encode_ops)

text \<open>
  C20 (schema_evolution_safe): an accepted creation, renaming or schema change keeps the catalog
  well formed with unique names; every schema version an old row or event names is still the same;
  and every row that conformed to the latest schema is accepted by the new one, completed with nulls
  (the only refusal left is the size bound of a row).
\<close>

theorem schema_evolution_safe:
  assumes "catalog_ok catalog" "validate_table_change catalog t = Inr u" "table_text_ok t" "t_id t \<noteq> 0"
  shows "catalog_ok (bt_insert (t_id t) t catalog) \<and>
    (\<forall>e \<in> set catalog. t_id (snd e) \<noteq> t_id t \<longrightarrow> t_name (snd e) \<noteq> t_name t) \<and>
    (\<forall>old. map_of catalog (t_id t) = Some old \<longrightarrow>
      (\<forall>v s. table_version old v = Inr s \<longrightarrow> table_version t v = Inr s) \<and>
      (\<forall>fs. conforms (table_schema old) fs \<longrightarrow> (\<exists>fs'. normalize (table_schema t) fs True = Inr fs') \<or>
        normalize (table_schema t) fs True = Inl (Invalid ''row exceeds 8 MiB'')))"
proof (intro conjI allI impI)
  note f = validate_change_facts [OF assms(2)]
  show "catalog_ok (bt_insert (t_id t) t catalog)" by (rule catalog_change_ok [OF assms])
  show "\<forall>e \<in> set catalog. t_id (snd e) \<noteq> t_id t \<longrightarrow> t_name (snd e) \<noteq> t_name t" using f(4) by blast
  fix old assume old: "map_of catalog (t_id t) = Some old"
  then have ok: "table_ok old" using catalog_table [OF assms(1)] by blast
  then have ne: "t_schemas old \<noteq> []" by (simp add: table_ok_def)
  show "table_version t v = Inr s" if "table_version old v = Inr s" for v s
    using that by (cases rule: evolution_cases [OF f(5) [OF old] ne]) (auto simp: table_version_def res_simps find_more)
  fix fs assume row: "conforms (table_schema old) fs"
  show "(\<exists>fs'. normalize (table_schema t) fs True = Inr fs') \<or>
      normalize (table_schema t) fs True = Inl (Invalid ''row exceeds 8 MiB'')"
  proof (cases rule: evolution_cases [OF f(5) [OF old] ne])
    case 1
    then show ?thesis using normalize_conforming [OF row] by (simp add: table_schema_def)
  next
    case (2 new)
    have "ids_unique new" using f(3) [of new] 2(1) validate_schema_unique by simp
    then show ?thesis using old_row_normalizes [OF 2(3) _ 2(4) row] 2(1) by (simp add: table_schema_def)
  qed
qed

lemma wal_payload_roundtrip_witness:
  "let ops = [TableOp sample_table, CreateOp 1 7 [(1, TextV (ascii ''ann''))], RetainOp 1 7 5] in decode_ops (encode_ops ops) = Inr ops"
proof -
  have "fields_ok [(1, TextV (ascii ''ann''))]" by (simp add: fields_ok_def bt_ok_def utf8_valid_def sample_chars)
  then show ?thesis unfolding Let_def
    by (intro conjunct1 [OF wal_payload_roundtrip])
       (simp_all add: sample_ok, simp add: sample_table_def sample_schema_def fields_encoded_len_def ascii_def)
qed

text \<open>The sample table with one more field, which accepts null as it has to.\<close>

definition altered_table :: table where
  "altered_table = sample_table\<lparr>t_schemas := [sample_schema, sample_schema\<lparr>s_version := 2,
     s_fields := s_fields sample_schema @ [\<lparr>f_id = 3, f_name = ascii ''nick'', f_type = TextT, f_nullable = True\<rparr>]\<rparr>]\<rparr>"

lemma altered_chars: "utf8_chars (ascii ''nick'') = Some [110, 105, 99, 107]"
  by (simp add: ascii_def)

lemma altered_accepted: "validate_table_change [(1, sample_table)] altered_table = Inr ()"
proof -
  have "validate_schema (last (t_schemas altered_table)) = Inr ()"
    by (simp add: altered_table_def validate_schema_def sample_schema_def sample_table_def validate_name_def sample_chars
        altered_chars char_is_whitespace_def char_is_control_def) (simp add: ascii_def)
  then have "res_fold (\<lambda>s u. validate_schema s) (t_schemas altered_table) () = Inr ()"
    using sample_valid(1) by (simp add: altered_table_def)
  moreover have "validate_evolution sample_table altered_table = Inr ()"
    by (simp add: validate_evolution_def altered_table_def sample_table_def table_schema_def sample_schema_def field_preserved_def)
  moreover have "t_schemas altered_table \<noteq> []" "t_name altered_table = t_name sample_table" "t_id altered_table = 1" "t_id sample_table = 1"
    by (simp_all add: altered_table_def sample_table_def)
  ultimately show ?thesis using sample_valid(2) by (simp add: validate_table_change_def)
qed

lemma schema_evolution_safe_witness: "catalog_ok [(1, altered_table)]"
proof -
  have "t_id sample_table = 1" "t_id altered_table = 1" by (simp_all add: sample_table_def altered_table_def)
  then have "catalog_ok [(1, sample_table)]" using sample_ok(1) by (simp add: catalog_ok_def)
  moreover have "table_text_ok altered_table"
    by (simp add: table_text_ok_def altered_table_def sample_table_def sample_schema_def field_def_ok_def utf8_valid_def
        sample_chars altered_chars)
  ultimately have "catalog_ok (bt_insert (t_id altered_table) altered_table [(1, sample_table)])"
    using schema_evolution_safe [OF _ altered_accepted] \<open>t_id altered_table = 1\<close> by simp
  then show ?thesis using \<open>t_id altered_table = 1\<close> by simp
qed

end
