(* ===== verification/Commit_Queue.thy ===== *)
theory Commit_Queue
  imports Resources
begin

text \<open>
  Models \<^verbatim>\<open>commit_queue.rs\<close>: the queue of commit requests of a shared database. Callers submit a
  prepared batch and keep a ticket; one caller at a time leads, claims a prefix of the queue,
  commits it and hands every claimed ticket its result. Tickets are shared between a caller, the
  queue and the leader, so requests live in a store addressed by tickets. \<open>None\<close> as the outcome of
  an operation is a panic; the invariant shows there is none.
\<close>

section \<open>Group commit bounds\<close>

record group_commit =
  gc_max_transactions :: nat
  gc_max_bytes :: nat
  gc_delay :: duration

definition group_commit_default :: group_commit where
  "group_commit_default = \<lparr>gc_max_transactions = 64, gc_max_bytes = 4 * 1024 * 1024, gc_delay = 0\<rparr>"

definition group_commit_validate :: "group_commit \<Rightarrow> unit res" where
  "group_commit_validate g =
     (if gc_max_transactions g = 0 \<or> gc_max_bytes g = 0 \<or> gc_delay g > seconds 1
      then Inl (Invalid ''invalid group commit bounds (delay must be at most one second)'') else Inr ())"

section \<open>Requests and the queue\<close>

type_synonym ticket = nat

record 'b request =
  rq_batch :: "'b option"
  rq_result :: "u64 res option"
  rq_bytes :: nat

record 'b queue =
  q_requests :: "ticket \<Rightarrow> 'b request option"
  q_waiting :: "ticket list"
  q_running :: bool
  q_count :: nat
  q_bytes :: nat

definition queue_new :: "'b queue" where
  "queue_new = \<lparr>q_requests = (\<lambda>_. None), q_waiting = [], q_running = False, q_count = 0, q_bytes = 0\<rparr>"

text \<open>The ticket is the address of the newly allocated request.\<close>

definition queue_submit :: "limits \<Rightarrow> ticket \<Rightarrow> 'b \<Rightarrow> nat \<Rightarrow> 'b queue \<Rightarrow> 'b queue res" where
  "queue_submit l t batch bytes q =
     res_bind (limit_check ''queued commits'' (q_count q) 1 (max_queued_commits l)) (\<lambda>_.
     res_bind (limit_check ''queued commit bytes'' (q_bytes q) bytes (max_queued_commit_bytes l)) (\<lambda>_.
       Inr (q\<lparr>q_requests := (q_requests q)(t \<mapsto> \<lparr>rq_batch = Some batch, rq_result = None, rq_bytes = bytes\<rparr>),
              q_waiting := q_waiting q @ [t], q_count := q_count q + 1, q_bytes := q_bytes q + bytes\<rparr>)))"

definition queue_cancel :: "ticket \<Rightarrow> 'b queue \<Rightarrow> (bool \<times> 'b queue) option" where
  "queue_cancel t q = (case q_requests q t of
       None \<Rightarrow> None
     | Some r \<Rightarrow> (case rq_batch r of
           None \<Rightarrow> Some (False, q)
         | Some b \<Rightarrow> Some (True, q\<lparr>q_requests := (q_requests q)(t \<mapsto> r\<lparr>rq_batch := None,
               rq_result := Some (Inl DeadlineExceeded)\<rparr>),
               q_waiting := filter (\<lambda>x. x \<noteq> t) (q_waiting q),
               q_count := q_count q - 1, q_bytes := q_bytes q - rq_bytes r\<rparr>)))"

fun claim_loop :: "group_commit \<Rightarrow> ticket list \<Rightarrow> (ticket \<Rightarrow> 'b request option) \<Rightarrow> (ticket \<times> 'b) list \<Rightarrow> nat \<Rightarrow>
    ((ticket \<times> 'b) list \<times> ticket list \<times> (ticket \<Rightarrow> 'b request option)) option" where
  "claim_loop g [] rs claimed bytes = Some (claimed, [], rs)"
| "claim_loop g (t # ts) rs claimed bytes = (case rs t of
       None \<Rightarrow> None
     | Some r \<Rightarrow>
         if claimed \<noteq> [] \<and> (length claimed = gc_max_transactions g \<or>
              usize_saturating_add bytes (rq_bytes r) > gc_max_bytes g)
         then Some (claimed, t # ts, rs)
         else (case rq_batch r of
             None \<Rightarrow> None
           | Some b \<Rightarrow> claim_loop g ts (rs(t \<mapsto> r\<lparr>rq_batch := None\<rparr>)) (claimed @ [(t, b)]) (bytes + rq_bytes r)))"

definition queue_claim :: "group_commit \<Rightarrow> 'b queue \<Rightarrow> ((ticket \<times> 'b) list \<times> 'b queue) option" where
  "queue_claim g q = map_option (\<lambda>(claimed, waiting, rs). (claimed, q\<lparr>q_waiting := waiting, q_requests := rs\<rparr>))
     (claim_loop g (q_waiting q) (q_requests q) [] 0)"

fun finish_loop :: "(ticket \<times> u64 res) list \<Rightarrow> 'b queue \<Rightarrow> 'b queue option" where
  "finish_loop [] q = Some q"
| "finish_loop ((t, x) # xs) q = (case q_requests q t of
       None \<Rightarrow> None
     | Some r \<Rightarrow> finish_loop xs (q\<lparr>q_requests := (q_requests q)(t \<mapsto> r\<lparr>rq_result := Some x\<rparr>),
         q_count := q_count q - 1, q_bytes := q_bytes q - rq_bytes r\<rparr>))"

definition queue_finish :: "(ticket \<times> u64 res) list \<Rightarrow> 'b queue \<Rightarrow> 'b queue option" where
  "queue_finish results q = map_option (\<lambda>q. q\<lparr>q_running := False\<rparr>) (finish_loop results q)"

text \<open>A caller takes the result of its ticket; this is what \<^verbatim>\<open>commit\<close> of \<^verbatim>\<open>shared.rs\<close> polls.\<close>

definition queue_take :: "ticket \<Rightarrow> 'b queue \<Rightarrow> u64 res option \<times> 'b queue" where
  "queue_take t q = (case q_requests q t of
       None \<Rightarrow> (None, q)
     | Some r \<Rightarrow> (rq_result r, q\<lparr>q_requests := (q_requests q)(t \<mapsto> r\<lparr>rq_result := None\<rparr>)\<rparr>))"

section \<open>The protocol\<close>

text \<open>
  The state is the queue, the tickets the leader has claimed and not yet finished, and the tickets
  whose result their caller has taken. A leader starts when none runs, claims once, and finishes
  everything it claimed; finishing without claiming is a leader that gave up.
\<close>

inductive queue_step :: "limits \<Rightarrow> group_commit \<Rightarrow> 'b queue \<times> ticket list \<times> ticket list \<Rightarrow>
    'b queue \<times> ticket list \<times> ticket list \<Rightarrow> bool" for l g where
  submit: "q_requests q t = None \<Longrightarrow> queue_submit l t b n q = Inr q' \<Longrightarrow>
    queue_step l g (q, cl, tk) (q', cl, tk)"
| cancel: "queue_cancel t q = Some (True, q') \<Longrightarrow> queue_step l g (q, cl, tk) (q', cl, tk)"
| lead: "\<not> q_running q \<Longrightarrow> queue_step l g (q, cl, tk) (q\<lparr>q_running := True\<rparr>, cl, tk)"
| claim: "q_running q \<Longrightarrow> queue_claim g q = Some (claimed, q') \<Longrightarrow>
    queue_step l g (q, [], tk) (q', map fst claimed, tk)"
| finish: "q_running q \<Longrightarrow> set (map fst results) = set cl \<Longrightarrow> distinct (map fst results) \<Longrightarrow>
    queue_finish results q = Some q' \<Longrightarrow> queue_step l g (q, cl, tk) (q', [], tk)"
| take: "queue_take t q = (Some x, q') \<Longrightarrow> queue_step l g (q, cl, tk) (q', cl, t # tk)"

definition request_bytes :: "'b queue \<Rightarrow> ticket \<Rightarrow> nat" where
  "request_bytes q t = (case q_requests q t of None \<Rightarrow> 0 | Some r \<Rightarrow> rq_bytes r)"

text \<open>
  A waiting request has its batch and no result, a claimed one neither, and any other one has a
  result or has been taken; the counters count the waiting and the claimed ones.
\<close>

definition queue_inv :: "'b queue \<times> ticket list \<times> ticket list \<Rightarrow> bool" where
  "queue_inv s = (case s of (q, cl, tk) \<Rightarrow>
     distinct (q_waiting q @ cl) \<and>
     (\<forall>t \<in> set (q_waiting q). \<exists>r. q_requests q t = Some r \<and> rq_batch r \<noteq> None \<and> rq_result r = None) \<and>
     (\<forall>t \<in> set cl. \<exists>r. q_requests q t = Some r \<and> rq_batch r = None \<and> rq_result r = None) \<and>
     (\<forall>t r. q_requests q t = Some r \<longrightarrow> t \<notin> set (q_waiting q) \<longrightarrow> t \<notin> set cl \<longrightarrow>
        rq_batch r = None \<and> (rq_result r \<noteq> None \<or> t \<in> set tk)) \<and>
     q_count q = length (q_waiting q @ cl) \<and>
     q_bytes q = sum_list (map (request_bytes q) (q_waiting q @ cl)) \<and>
     (\<not> q_running q \<longrightarrow> cl = []))"

section \<open>What each operation does\<close>

definition without_batch :: "'b request \<Rightarrow> 'b request" where
  "without_batch r = r\<lparr>rq_batch := None\<rparr>"

lemma claim_loop_spec:
  assumes "distinct ts" "\<forall>t \<in> set ts. \<exists>r b. rs t = Some r \<and> rq_batch r = Some b"
  shows "\<exists>new rest rs'. claim_loop g ts rs acc n = Some (acc @ new, rest, rs') \<and> ts = map fst new @ rest \<and>
    rs' = (\<lambda>t. if t \<in> set (map fst new) then map_option without_batch (rs t) else rs t) \<and>
    (acc @ new = [] \<longrightarrow> ts = []) \<and>
    (0 < gc_max_transactions g \<longrightarrow> length acc \<le> gc_max_transactions g \<longrightarrow> length (acc @ new) \<le> gc_max_transactions g) \<and>
    (new \<noteq> [] \<longrightarrow> length (acc @ new) = 1 \<or>
      n + sum_list (map (\<lambda>t. rq_bytes (the (rs t))) (map fst new)) \<le> gc_max_bytes g \<or> 2 ^ 64 - 1 \<le> gc_max_bytes g)"
  using assms
proof (induction g ts rs acc n rule: claim_loop.induct)
  case (2 g t ts rs acc n)
  obtain r b where r: "rs t = Some r" "rq_batch r = Some b" using 2(3) by auto
  show ?case
  proof (cases "acc \<noteq> [] \<and> (length acc = gc_max_transactions g \<or> usize_saturating_add n (rq_bytes r) > gc_max_bytes g)")
    case True
    then show ?thesis using r by (intro exI [of _ "[]"] exI [of _ "t # ts"] exI [of _ rs]) auto
  next
    case False
    let ?rs = "rs(t \<mapsto> r\<lparr>rq_batch := None\<rparr>)"
    have t: "t \<notin> set ts" "distinct ts" using 2(2) by auto
    have live: "\<forall>u \<in> set ts. \<exists>r b. ?rs u = Some r \<and> rq_batch r = Some b" using 2(3) t by auto
    from 2(1) [OF r(1) False r(2) t(2) live] obtain new rest rs' where ih: "claim_loop g ts ?rs (acc @ [(t, b)]) (n + rq_bytes r) = Some ((acc @ [(t, b)]) @ new, rest, rs')"
      "ts = map fst new @ rest" "rs' = (\<lambda>u. if u \<in> set (map fst new) then map_option without_batch (?rs u) else ?rs u)"
      "0 < gc_max_transactions g \<longrightarrow> length (acc @ [(t, b)]) \<le> gc_max_transactions g \<longrightarrow>
        length ((acc @ [(t, b)]) @ new) \<le> gc_max_transactions g"
      "new \<noteq> [] \<longrightarrow> length ((acc @ [(t, b)]) @ new) = 1 \<or>
        n + rq_bytes r + sum_list (map (\<lambda>u. rq_bytes (the (?rs u))) (map fst new)) \<le> gc_max_bytes g \<or> 2 ^ 64 - 1 \<le> gc_max_bytes g"
      by (elim exE conjE) (rule that; assumption)
    let ?S = "sum_list (map (\<lambda>u. rq_bytes (the (rs u))) (map fst new))"
    have nt: "t \<notin> set (map fst new)" using t ih(2) by auto
    then have E: "map (\<lambda>u. rq_bytes (the (?rs u))) (map fst new) = map (\<lambda>u. rq_bytes (the (rs u))) (map fst new)"
      by (intro map_cong) auto
    have "claim_loop g (t # ts) rs acc n = Some (acc @ ((t, b) # new), rest, rs')"
      using r False ih(1) by simp
    moreover have "t # ts = map fst ((t, b) # new) @ rest" using ih(2) by simp
    moreover have "rs' = (\<lambda>u. if u \<in> set (map fst ((t, b) # new)) then map_option without_batch (rs u) else rs u)"
      using r(1) nt by (auto simp: ih(3) fun_eq_iff without_batch_def)
    moreover have "0 < gc_max_transactions g \<longrightarrow> length acc \<le> gc_max_transactions g \<longrightarrow>
        length (acc @ (t, b) # new) \<le> gc_max_transactions g"
    proof (intro impI)
      assume a: "0 < gc_max_transactions g" "length acc \<le> gc_max_transactions g"
      have "length (acc @ [(t, b)]) \<le> gc_max_transactions g"
        using False a by (cases "acc = []") auto
      then show "length (acc @ (t, b) # new) \<le> gc_max_transactions g" using ih(4) a by simp
    qed
    moreover have "length (acc @ (t, b) # new) = 1 \<or> n + (rq_bytes r + ?S) \<le> gc_max_bytes g \<or> 2 ^ 64 - 1 \<le> gc_max_bytes g"
    proof (cases "new = []")
      case True
      then show ?thesis using False by (cases "acc = []") (auto simp: usize_saturating_add_def)
    next
      case False
      then show ?thesis using ih(5) unfolding E by (simp add: add.assoc)
    qed
    ultimately show ?thesis
      using r(1) by (intro exI [of _ "(t, b) # new"] exI [of _ rest] exI [of _ rs']) (simp add: comp_def)
  qed
qed auto

text \<open>Replacing a request by one of the same size changes no sum.\<close>

lemma request_bytes_upd:
  "request_bytes (q\<lparr>q_requests := (q_requests q)(t \<mapsto> r)\<rparr>) u = (if u = t then rq_bytes r else request_bytes q u)"
  by (simp add: request_bytes_def)

lemma request_bytes_more [simp]:
  "request_bytes (q\<lparr>q_waiting := w\<rparr>) = request_bytes q" "request_bytes (q\<lparr>q_count := c\<rparr>) = request_bytes q"
  "request_bytes (q\<lparr>q_bytes := b\<rparr>) = request_bytes q" "request_bytes (q\<lparr>q_running := x\<rparr>) = request_bytes q"
  by (simp_all add: request_bytes_def fun_eq_iff)

lemma sum_list_filter_out:
  "distinct xs \<Longrightarrow> t \<in> set xs \<Longrightarrow> f t + sum_list (map f (filter (\<lambda>x. x \<noteq> t) xs)) = (sum_list (map f xs) :: nat)"
proof (induction xs)
  case (Cons x xs)
  have "t \<notin> set xs \<Longrightarrow> filter (\<lambda>x. x \<noteq> t) xs = xs" by (rule filter_True) auto
  then show ?case using Cons by (cases "x = t") auto
qed simp

lemma queue_inv_submit:
  assumes "queue_inv (q, cl, tk)" "q_requests q t = None" "queue_submit l t b n q = Inr q'"
  shows "queue_inv (q', cl, tk)"
proof -
  have q': "q' = q\<lparr>q_requests := (q_requests q)(t \<mapsto> \<lparr>rq_batch = Some b, rq_result = None, rq_bytes = n\<rparr>),
      q_waiting := q_waiting q @ [t], q_count := q_count q + 1, q_bytes := q_bytes q + n\<rparr>"
    using assms(3) by (auto simp: queue_submit_def res_simps)
  have new: "t \<notin> set (q_waiting q)" "t \<notin> set cl" using assms(1,2) by (auto simp: queue_inv_def)
  have f: "q_waiting q' = q_waiting q @ [t]" "q_bytes q' = q_bytes q + n" "request_bytes q' t = n"
    by (simp_all add: q' request_bytes_def)
  have "sum_list (map (request_bytes q') (q_waiting q)) = sum_list (map (request_bytes q) (q_waiting q))"
    "sum_list (map (request_bytes q') cl) = sum_list (map (request_bytes q) cl)"
    using new by (auto simp: q' request_bytes_def intro!: arg_cong [where f = sum_list] map_cong)
  then have "q_bytes q' = sum_list (map (request_bytes q') (q_waiting q' @ cl))"
    using assms(1) by (simp add: f queue_inv_def)
  then show ?thesis using assms(1) new unfolding queue_inv_def
    by (simp add: q') (auto split: if_splits)
qed

lemma queue_inv_cancel:
  assumes "queue_inv (q, cl, tk)" "queue_cancel t q = Some (True, q')"
  shows "queue_inv (q', cl, tk)"
proof -
  obtain r b where r: "q_requests q t = Some r" "rq_batch r = Some b"
    and q': "q' = q\<lparr>q_requests := (q_requests q)(t \<mapsto> r\<lparr>rq_batch := None, rq_result := Some (Inl DeadlineExceeded)\<rparr>),
      q_waiting := filter (\<lambda>x. x \<noteq> t) (q_waiting q), q_count := q_count q - 1, q_bytes := q_bytes q - rq_bytes r\<rparr>"
    using assms(2) by (auto simp: queue_cancel_def split: option.splits)
  have "t \<notin> set cl" using assms(1) r by (auto simp: queue_inv_def)
  moreover from this have "t \<notin> set (q_waiting q) \<Longrightarrow> rq_batch r = None"
    using assms(1) r(1) unfolding queue_inv_def by blast
  ultimately have t: "t \<in> set (q_waiting q)" "t \<notin> set cl" using r(2) by auto
  have d: "distinct (q_waiting q)" using assms(1) by (simp add: queue_inv_def)
  have rb: "request_bytes q' u = request_bytes q u" for u using r by (simp add: q' request_bytes_def)
  have "request_bytes q t = rq_bytes r" using r by (simp add: request_bytes_def)
  have "q_bytes q' = sum_list (map (request_bytes q') (q_waiting q' @ cl))"
  proof -
    have "q_bytes q' = q_bytes q - rq_bytes r" "q_waiting q' = filter (\<lambda>x. x \<noteq> t) (q_waiting q)"
      by (simp_all add: q')
    moreover have "request_bytes q' = request_bytes q" using rb by (simp add: fun_eq_iff)
    ultimately show ?thesis
      using \<open>request_bytes q t = rq_bytes r\<close> sum_list_filter_out [OF d t(1), of "request_bytes q"] assms(1)
      by (simp add: queue_inv_def)
  qed
  moreover have "q_count q' = length (q_waiting q' @ cl)"
    using sum_list_filter_out [OF d t(1), of "\<lambda>_. 1"] assms(1) by (simp add: q' queue_inv_def sum_list_triv)
  ultimately show ?thesis using assms(1) t unfolding queue_inv_def by (simp add: q') (auto split: if_splits)
qed

lemma queue_inv_claim:
  assumes "queue_inv (q, [], tk)"
  shows "\<exists>claimed q'. queue_claim g q = Some (claimed, q') \<and> queue_inv (q'\<lparr>q_running := True\<rparr>, map fst claimed, tk) \<and>
    q_waiting q = map fst claimed @ q_waiting q' \<and> q_running q' = q_running q"
proof -
  have w: "distinct (q_waiting q)" "\<forall>t \<in> set (q_waiting q). \<exists>r b. q_requests q t = Some r \<and> rq_batch r = Some b"
    using assms by (auto simp: queue_inv_def)
  obtain new rest rs' where c: "claim_loop g (q_waiting q) (q_requests q) [] 0 = Some ([] @ new, rest, rs')"
    "q_waiting q = map fst new @ rest"
    "rs' = (\<lambda>t. if t \<in> set (map fst new) then map_option without_batch (q_requests q t) else q_requests q t)"
    using claim_loop_spec [OF w, of g "[]" 0] by blast
  let ?q = "q\<lparr>q_waiting := rest, q_requests := rs'\<rparr>"
  have rb: "request_bytes (?q\<lparr>q_running := True\<rparr>) u = request_bytes q u" for u
    by (cases "q_requests q u") (auto simp: request_bytes_def c(3) without_batch_def)
  have "queue_inv (?q\<lparr>q_running := True\<rparr>, map fst new, tk)"
    unfolding queue_inv_def prod.case
  proof (intro conjI)
    show "q_bytes (?q\<lparr>q_running := True\<rparr>) = sum_list (map (request_bytes (?q\<lparr>q_running := True\<rparr>)) (q_waiting (?q\<lparr>q_running := True\<rparr>) @ map fst new))"
      using assms unfolding rb [abs_def] by (simp add: queue_inv_def c(2))
    show "\<forall>t \<in> set (map fst new). \<exists>r. q_requests (?q\<lparr>q_running := True\<rparr>) t = Some r \<and> rq_batch r = None \<and> rq_result r = None"
    proof
      fix t assume t: "t \<in> set (map fst new)"
      then have "t \<in> set (q_waiting q)" unfolding c(2) by simp
      then obtain z where "q_requests q t = Some z" "rq_result z = None" using assms by (auto simp: queue_inv_def)
      then show "\<exists>r. q_requests (?q\<lparr>q_running := True\<rparr>) t = Some r \<and> rq_batch r = None \<and> rq_result r = None"
        using t by (simp add: c(3) without_batch_def)
    qed
  qed (use assms c(2) in \<open>auto simp: queue_inv_def c(3)\<close>)
  then show ?thesis using c(1,2) by (auto simp: queue_claim_def)
qed

lemma queue_inv_finish_loop:
  assumes "queue_inv (q, cl, tk)" "set (map fst xs) \<subseteq> set cl" "distinct (map fst xs)" "q_running q"
  shows "\<exists>q'. finish_loop xs q = Some q' \<and> queue_inv (q', filter (\<lambda>t. t \<notin> set (map fst xs)) cl, tk) \<and>
    q_running q' \<and> (\<forall>(t, x) \<in> set xs. \<exists>r. q_requests q' t = Some r \<and> rq_result r = Some x) \<and>
    (\<forall>t. t \<notin> set (map fst xs) \<longrightarrow> q_requests q' t = q_requests q t) \<and> q_waiting q' = q_waiting q"
  using assms
proof (induction xs arbitrary: q cl)
  case (Cons tx xs)
  obtain t x where tx: "tx = (t, x)" by fastforce
  have t: "t \<in> set cl" "t \<notin> set (q_waiting q)" "distinct cl" "t \<notin> set (map fst xs)"
    using Cons.prems by (auto simp: tx queue_inv_def)
  obtain r where r: "q_requests q t = Some r" "rq_batch r = None" using Cons.prems(1) t(1) by (auto simp: queue_inv_def)
  let ?q = "q\<lparr>q_requests := (q_requests q)(t \<mapsto> r\<lparr>rq_result := Some x\<rparr>), q_count := q_count q - 1,
    q_bytes := q_bytes q - rq_bytes r\<rparr>"
  let ?cl = "filter (\<lambda>u. u \<noteq> t) cl"
  have rb: "request_bytes ?q u = request_bytes q u" for u using r by (simp add: request_bytes_def)
  have "request_bytes q t = rq_bytes r" using r by (simp add: request_bytes_def)
  then have "queue_inv (?q, ?cl, tk)"
    using Cons.prems(1,4) t r sum_list_filter_out [OF t(3,1), of "request_bytes q"]
      sum_list_filter_out [OF t(3,1), of "\<lambda>_. 1"]
    unfolding queue_inv_def prod.case rb [abs_def] by (auto simp: sum_list_triv)
  moreover have "set (map fst xs) \<subseteq> set ?cl" using Cons.prems(2) t(4) by (auto simp: tx)
  ultimately obtain q' where q': "finish_loop xs ?q = Some q'"
    "queue_inv (q', filter (\<lambda>u. u \<notin> set (map fst xs)) ?cl, tk)" "q_running q'"
    "\<forall>(t, x) \<in> set xs. \<exists>r. q_requests q' t = Some r \<and> rq_result r = Some x"
    "\<forall>u. u \<notin> set (map fst xs) \<longrightarrow> q_requests q' u = q_requests ?q u" "q_waiting q' = q_waiting q"
    using Cons.IH [of ?q ?cl] Cons.prems(3,4) by (auto simp: tx)
  have "filter (\<lambda>u. u \<notin> set (map fst xs)) ?cl = filter (\<lambda>u. u \<notin> set (map fst (tx # xs))) cl"
    by (auto simp: tx filter_filter intro: filter_cong)
  then show ?case using q' r t(4) by (auto simp: tx)
qed auto

lemma queue_inv_take:
  assumes "queue_inv (q, cl, tk)" "queue_take t q = (Some x, q')"
  shows "queue_inv (q', cl, t # tk)"
proof -
  obtain r where r: "q_requests q t = Some r" "rq_result r = Some x"
    and q': "q' = q\<lparr>q_requests := (q_requests q)(t \<mapsto> r\<lparr>rq_result := None\<rparr>)\<rparr>"
    using assms(2) by (auto simp: queue_take_def split: option.splits)
  have "t \<notin> set (q_waiting q)" "t \<notin> set cl" using assms(1) r by (auto simp: queue_inv_def)
  moreover have "request_bytes q' = request_bytes q" using r by (auto simp: q' request_bytes_def fun_eq_iff)
  ultimately show ?thesis using assms(1) r unfolding queue_inv_def by (simp add: q') auto
qed

lemma queue_claim_more:
  "queue_claim g (q\<lparr>q_running := x\<rparr>) = map_option (\<lambda>(c, q). (c, q\<lparr>q_running := x\<rparr>)) (queue_claim g q)"
  by (cases "claim_loop g (q_waiting q) (q_requests q) [] 0") (auto simp: queue_claim_def)

lemma queue_inv_step:
  assumes "queue_step l g s s'" "queue_inv s"
  shows "queue_inv s'"
  using assms
proof (cases rule: queue_step.cases)
  case (submit q t b n q' cl tk)
  then show ?thesis using queue_inv_submit [of q cl tk t l b n q'] assms(2) by simp
next
  case (cancel t q q' cl tk)
  then show ?thesis using queue_inv_cancel [of q cl tk t q'] assms(2) by simp
next
  case (lead q cl tk)
  then show ?thesis using assms(2) by (simp add: queue_inv_def)
next
  case (claim q claimed q' tk)
  then obtain q'' where "queue_claim g q = Some (claimed, q'')" "queue_inv (q''\<lparr>q_running := True\<rparr>, map fst claimed, tk)"
    "q_running q'' = q_running q"
    using queue_inv_claim [of q tk g] assms(2) by auto
  moreover have "q''\<lparr>q_running := True\<rparr> = q''" if "q_running q''" for q'' :: "'a queue"
    using that by simp
  ultimately show ?thesis using claim by simp
next
  case (finish q results cl q' tk)
  then obtain q1 where q1: "finish_loop results q = Some q1" "queue_inv (q1, filter (\<lambda>t. t \<notin> set (map fst results)) cl, tk)"
    using queue_inv_finish_loop [of q cl tk results] assms(2) by auto
  have "filter (\<lambda>t. t \<notin> set (map fst results)) cl = []" using finish by (simp add: filter_empty_conv)
  with q1(2) have "queue_inv (q1, [], tk)" by simp
  then have "queue_inv (q1\<lparr>q_running := False\<rparr>, [], tk)" by (simp add: queue_inv_def)
  then show ?thesis using finish q1(1) by (simp add: queue_finish_def)
next
  case (take t q x q' cl tk)
  then show ?thesis using queue_inv_take [of q cl tk t x q'] assms(2) by simp
qed

definition queue_within :: "limits \<Rightarrow> 'b queue \<Rightarrow> bool" where
  "queue_within l q = (q_count q \<le> max_queued_commits l \<and> q_bytes q \<le> max_queued_commit_bytes l)"

lemma finish_loop_less:
  "finish_loop xs q = Some q' \<Longrightarrow> q_count q' \<le> q_count q \<and> q_bytes q' \<le> q_bytes q"
proof (induction xs arbitrary: q)
  case (Cons tx xs)
  obtain t x where "tx = (t, x)" by fastforce
  with Cons.prems Cons.IH show ?case by (auto split: option.splits) (force+)
qed simp

lemma queue_within_step:
  assumes "queue_step l g s s'" "queue_within l (fst s)"
  shows "queue_within l (fst s')"
  using assms
proof (cases rule: queue_step.cases)
  case (submit q t b n q' cl tk)
  then show ?thesis by (auto simp: queue_within_def queue_submit_def res_simps dest!: limit_check_Inr)
next
  case (finish q results cl q' tk)
  then show ?thesis using assms(2) finish_loop_less [of results q]
    by (auto simp: queue_within_def queue_finish_def)
qed (use assms(2) in \<open>auto simp: queue_within_def queue_cancel_def queue_claim_def queue_take_def split: option.splits\<close>)

lemma queue_reachable:
  assumes "(queue_step l g)\<^sup>*\<^sup>* (queue_new, [], []) s"
  shows "queue_inv s \<and> queue_within l (fst s)"
  using assms
proof (induction rule: rtranclp_induct)
  case base
  then show ?case by (simp add: queue_inv_def queue_within_def queue_new_def)
next
  case (step s t)
  then show ?case using queue_inv_step queue_within_step by blast
qed

section \<open>Properties\<close>

text \<open>
  C25 (commit_queue_consistent): in every reachable state of the commit queue each request is in
  exactly one stage: waiting with its batch, claimed by the one leader, or answered; the counters
  are exact and within the limits; and claiming or finishing the claimed requests never panics.
\<close>

theorem commit_queue_consistent:
  assumes "(queue_step l g)\<^sup>*\<^sup>* (queue_new, [], []) (q, cl, tk)"
  shows "queue_inv (q, cl, tk) \<and> q_count q \<le> max_queued_commits l \<and> q_bytes q \<le> max_queued_commit_bytes l \<and>
    (cl = [] \<longrightarrow> queue_claim g q \<noteq> None) \<and>
    (\<forall>results. q_running q \<longrightarrow> set (map fst results) = set cl \<longrightarrow> distinct (map fst results) \<longrightarrow> queue_finish results q \<noteq> None)"
proof -
  have inv: "queue_inv (q, cl, tk)" "queue_within l q" using queue_reachable [OF assms] by simp_all
  have "cl = [] \<Longrightarrow> queue_claim g q \<noteq> None" using queue_inv_claim [of q tk g] inv(1) by auto
  moreover have "queue_finish results q \<noteq> None"
    if "q_running q" "set (map fst results) = set cl" "distinct (map fst results)" for results
    using queue_inv_finish_loop [OF inv(1), of results] that by (auto simp: queue_finish_def)
  ultimately show ?thesis using inv by (auto simp: queue_within_def)
qed

lemma commit_queue_consistent_witness:
  "queue_inv (queue_new\<lparr>q_requests := [5 \<mapsto> \<lparr>rq_batch = Some ''b'', rq_result = None, rq_bytes = 3\<rparr>],
     q_waiting := [5], q_count := 1, q_bytes := 3\<rparr>, [], [])"
proof -
  have "queue_submit limits_default 5 ''b'' 3 queue_new =
      Inr (queue_new\<lparr>q_requests := [5 \<mapsto> \<lparr>rq_batch = Some ''b'', rq_result = None, rq_bytes = 3\<rparr>],
        q_waiting := [5], q_count := 1, q_bytes := 3\<rparr>)"
    by (simp add: queue_submit_def queue_new_def limit_check_def limits_default_def usize_checked_add_def mib_def)
  then have "(queue_step limits_default group_commit_default)\<^sup>*\<^sup>* (queue_new, [], [])
      (queue_new\<lparr>q_requests := [5 \<mapsto> \<lparr>rq_batch = Some ''b'', rq_result = None, rq_bytes = 3\<rparr>],
        q_waiting := [5], q_count := 1, q_bytes := 3\<rparr>, [], [])"
    by (intro r_into_rtranclp queue_step.submit) (simp_all add: queue_new_def)
  from commit_queue_consistent [OF this] show ?thesis by simp
qed

text \<open>
  (group_claim_bounds) A leader claims a nonempty prefix of the waiting requests in the order
  they were submitted, at most the configured number of transactions, and at most the configured
  bytes unless the first request alone is larger.
\<close>

theorem group_claim_bounds:
  assumes "queue_inv (q, [], tk)" "0 < gc_max_transactions g" "gc_max_bytes g < 2 ^ 64 - 1" "q_waiting q \<noteq> []"
  shows "\<exists>claimed q'. queue_claim g q = Some (claimed, q') \<and> claimed \<noteq> [] \<and>
    q_waiting q = map fst claimed @ q_waiting q' \<and> length claimed \<le> gc_max_transactions g \<and>
    (length claimed = 1 \<or> sum_list (map (request_bytes q) (map fst claimed)) \<le> gc_max_bytes g)"
proof -
  have w: "distinct (q_waiting q)" "\<forall>t \<in> set (q_waiting q). \<exists>r b. q_requests q t = Some r \<and> rq_batch r = Some b"
    using assms(1) by (auto simp: queue_inv_def)
  obtain new rest rs' where c: "claim_loop g (q_waiting q) (q_requests q) [] 0 = Some (new, rest, rs')"
    "q_waiting q = map fst new @ rest" "new = [] \<longrightarrow> q_waiting q = []" "length new \<le> gc_max_transactions g"
    "new \<noteq> [] \<longrightarrow> length new = 1 \<or>
      sum_list (map (\<lambda>t. rq_bytes (the (q_requests q t))) (map fst new)) \<le> gc_max_bytes g"
    using claim_loop_spec [OF w, of g "[]" 0] assms(2,3) by auto
  have "rq_bytes (the (q_requests q t)) = request_bytes q t" if "t \<in> set (map fst new)" for t
  proof -
    have "t \<in> set (q_waiting q)" unfolding c(2) using that by simp
    then show ?thesis using w(2) by (auto simp: request_bytes_def)
  qed
  then have E: "map (\<lambda>t. rq_bytes (the (q_requests q t))) (map fst new) = map (request_bytes q) (map fst new)"
    by (intro map_cong) auto
  have "queue_claim g q = Some (new, q\<lparr>q_waiting := rest, q_requests := rs'\<rparr>)"
    using c(1) by (simp add: queue_claim_def)
  moreover have "length new = 1 \<or> sum_list (map (request_bytes q) (map fst new)) \<le> gc_max_bytes g"
    using c(3,5) assms(4) unfolding E by blast
  ultimately show ?thesis using c(2-4) assms(4) by fastforce
qed

lemma group_claim_bounds_witness:
  "\<exists>claimed q'. queue_claim group_commit_default (queue_new\<lparr>q_requests := [5 \<mapsto> \<lparr>rq_batch = Some ''b'', rq_result = None, rq_bytes = 3\<rparr>],
     q_waiting := [5], q_count := 1, q_bytes := 3\<rparr>) = Some (claimed, q') \<and> claimed \<noteq> []"
proof -
  let ?q = "queue_new\<lparr>q_requests := [5 \<mapsto> \<lparr>rq_batch = Some ''b'', rq_result = None, rq_bytes = 3\<rparr>],
     q_waiting := [5], q_count := 1, q_bytes := 3\<rparr>"
  have "queue_inv (?q, [], [])" by (simp add: queue_inv_def queue_new_def request_bytes_def)
  from group_claim_bounds [OF this, of group_commit_default] show ?thesis
    by (simp add: group_commit_default_def queue_new_def) blast
qed

text \<open>
  When the leader finishes, every request it claimed has the result
  handed to it, whatever the result, no other request changes, and the lead is free again.
\<close>

theorem claimed_are_answered:
  assumes "queue_inv (q, cl, tk)" "q_running q" "set (map fst results) = set cl" "distinct (map fst results)"
  shows "\<exists>q'. queue_finish results q = Some q' \<and> \<not> q_running q' \<and> queue_inv (q', [], tk) \<and>
    (\<forall>t x. (t, x) \<in> set results \<longrightarrow> fst (queue_take t q') = Some x) \<and>
    (\<forall>t. t \<notin> set cl \<longrightarrow> q_requests q' t = q_requests q t) \<and> q_waiting q' = q_waiting q"
proof -
  obtain q1 where q1: "finish_loop results q = Some q1" "queue_inv (q1, filter (\<lambda>t. t \<notin> set (map fst results)) cl, tk)"
    "\<forall>(t, x) \<in> set results. \<exists>r. q_requests q1 t = Some r \<and> rq_result r = Some x"
    "\<forall>t. t \<notin> set (map fst results) \<longrightarrow> q_requests q1 t = q_requests q t" "q_waiting q1 = q_waiting q"
    using queue_inv_finish_loop [OF assms(1), of results] assms(2-4) by auto
  have "filter (\<lambda>t. t \<notin> set (map fst results)) cl = []" using assms(3) by (simp add: filter_empty_conv)
  then have "queue_inv (q1\<lparr>q_running := False\<rparr>, [], tk)" using q1(2) by (simp add: queue_inv_def)
  then show ?thesis using q1 assms(3) by (auto simp: queue_finish_def queue_take_def)
qed

lemma claimed_are_answered_witness:
  "\<exists>q'. queue_finish [(5, Inr 9)] (queue_new\<lparr>q_requests := [5 \<mapsto> \<lparr>rq_batch = None :: string option, rq_result = None, rq_bytes = 3\<rparr>],
     q_running := True, q_count := 1, q_bytes := 3\<rparr>) = Some q' \<and> fst (queue_take 5 q') = Some (Inr 9)"
proof -
  let ?q = "queue_new\<lparr>q_requests := [5 \<mapsto> \<lparr>rq_batch = None :: string option, rq_result = None, rq_bytes = 3\<rparr>],
     q_running := True, q_count := 1, q_bytes := 3\<rparr>"
  have "queue_inv (?q, [5], [])" by (simp add: queue_inv_def queue_new_def request_bytes_def)
  moreover have "q_running ?q" by simp
  moreover have "set (map fst [(5 :: nat, Inr 9 :: u64 res)]) = set [5]" "distinct (map fst [(5 :: nat, Inr 9 :: u64 res)])"
    by simp_all
  ultimately obtain q' where q': "queue_finish [(5, Inr 9)] ?q = Some q'"
    "\<forall>t x. (t, x) \<in> set [(5, Inr 9)] \<longrightarrow> fst (queue_take t q') = Some x"
    using claimed_are_answered [of ?q "[5]" "[]" "[(5, Inr 9)]"] by blast
  then have "fst (queue_take 5 q') = Some (Inr 9)" by simp
  with q'(1) show ?thesis by blast
qed

end
