(* ===== verification/Staging.thy ===== *)
theory Staging
  imports Read_State Operations Commit_Queue
begin

text \<open>
  Models the options of \<^verbatim>\<open>database.rs\<close> and its \<^verbatim>\<open>Staging\<close>: a transaction's own view of the tables and
  entities it changes, the admission of every operation, its execution and the automatic maintenance
  that follows it. A call returns a result and the world it leaves, because a failed call has
  effects: it aborts the transaction. The world is the staging area and the counters it shares with
  the rest of the engine.
\<close>

section \<open>Options\<close>

text \<open>The compaction ratio is the bit pattern of an \<^verbatim>\<open>f64\<close>.\<close>

record db_options =
  op_group_commit :: group_commit
  op_timeouts :: timeouts
  op_limits :: limits
  op_checkpoint_bytes :: u64
  op_history_segment_bytes :: u64
  op_snapshot_interval :: u64
  op_retain_events :: "u64 option"
  op_compress_history :: bool
  op_cache_bytes :: nat
  op_max_open_files :: nat
  op_compact_live_ratio :: u64
  op_max_generations :: nat
  op_collect_entities :: nat

definition options_default :: "group_commit \<Rightarrow> nat \<Rightarrow> nat \<Rightarrow> db_options" where
  "options_default commit cache open_files = \<lparr>op_group_commit = commit, op_timeouts = timeouts_default, op_limits = limits_default,
     op_checkpoint_bytes = 8 * 1024 * 1024, op_history_segment_bytes = 8 * 1024 * 1024, op_snapshot_interval = 32,
     op_retain_events = None, op_compress_history = True, op_cache_bytes = cache, op_max_open_files = open_files,
     op_compact_live_ratio = 0x3FE0000000000000, op_max_generations = 8, op_collect_entities = 8192\<rparr>"

text \<open>Whether a bit pattern lies between zero (of either sign) and one.\<close>

definition f64_unit_interval :: "u64 \<Rightarrow> bool" where
  "f64_unit_interval b = (b \<le> 0x3FF0000000000000 \<or> b = 0x8000000000000000)"

section \<open>Results with the state they leave\<close>

type_synonym ('w, 'a) act = "'w \<Rightarrow> 'a res \<times> 'w"

definition act_bind :: "('w, 'a) act \<Rightarrow> ('a \<Rightarrow> ('w, 'b) act) \<Rightarrow> ('w, 'b) act" where
  "act_bind m f w = (case m w of (Inl e, w) \<Rightarrow> (Inl e, w) | (Inr x, w) \<Rightarrow> f x w)"

definition act_res :: "'a res \<Rightarrow> ('w, 'a) act" where
  "act_res r w = (r, w)"

definition act_when :: "bool \<Rightarrow> ('w, unit) act \<Rightarrow> ('w, unit) act" where
  "act_when c m w = (if c then m w else (Inr (), w))"

named_theorems act_simps \<open>success of composed steps\<close>

lemma act_bind_Inr [act_simps]:
  "act_bind m f w = (Inr y, w2) \<longleftrightarrow> (\<exists>x w1. m w = (Inr x, w1) \<and> f x w1 = (Inr y, w2))"
  by (auto simp: act_bind_def split: sum.splits prod.splits)

lemma act_res_Inr [act_simps]: "act_res r w = (Inr x, w1) \<longleftrightarrow> r = Inr x \<and> w1 = w"
  by (auto simp: act_res_def)

lemma act_when_Inr [act_simps]: "act_when c m w = (Inr x, w1) \<longleftrightarrow> (if c then m w = (Inr x, w1) else w1 = w)"
  by (auto simp: act_when_def)

section \<open>The staging area\<close>

text \<open>\<open>sg_permit\<close>: the transaction counts against the admission limits, unlike one that recovery replays.\<close>

record staging =
  sg_base :: readstate
  sg_options :: db_options
  sg_pinned :: bool
  sg_permit :: bool
  sg_reservation :: "nat \<times> nat"
  sg_catalog :: "(u64, table) btree"
  sg_staged :: "(entity_ref, entity_data) btree"
  sg_operations :: "operation list"
  sg_failed :: bool

type_synonym world = "staging \<times> resource_usage"

definition staging_new :: "readstate \<Rightarrow> db_options \<Rightarrow> bool \<Rightarrow> bool \<Rightarrow> resource_usage \<Rightarrow> world res" where
  "staging_new base options pinned recovery u =
     res_bind (if recovery then Inr u else res_bind (acquire_transaction (rs_limits base) u) (\<lambda>(_, u). Inr u)) (\<lambda>u.
     res_bind (if recovery then Inr (grow_recovered 8 (0, 0) u) else grow_resident (rs_limits base) 8 (0, 0) u) (\<lambda>(h, u).
       Inr (\<lparr>sg_base = base, sg_options = options, sg_pinned = pinned, sg_permit = \<not> recovery,
         sg_reservation = (res_bytes h, res_decoded h), sg_catalog = rs_catalog base, sg_staged = [], sg_operations = [],
         sg_failed = False\<rparr>, u)))"

definition stage_grow_decoded :: "nat \<Rightarrow> (world, unit) act" where
  "stage_grow_decoded n w = (case w of (s, u) \<Rightarrow>
     case grow_decoded (rs_limits (sg_base s)) n (\<not> sg_permit s) (sg_reservation s) u of
       Inl e \<Rightarrow> (Inl e, w)
     | Inr (h, u) \<Rightarrow> (Inr (), (s\<lparr>sg_reservation := (res_bytes h, res_decoded h)\<rparr>, u)))"

definition stage_grow :: "nat \<Rightarrow> (world, unit) act" where
  "stage_grow n w = (case w of (s, u) \<Rightarrow>
     case grow_resident (rs_limits (sg_base s)) n (sg_reservation s) u of
       Inl e \<Rightarrow> (Inl e, w)
     | Inr (h, u) \<Rightarrow> (Inr (), (s\<lparr>sg_reservation := (res_bytes h, res_decoded h)\<rparr>, u)))"

definition stage_recover :: "nat \<Rightarrow> (world, unit) act" where
  "stage_recover n w = (case w of (s, u) \<Rightarrow> case grow_recovered n (sg_reservation s) u of
       (h, u) \<Rightarrow> (Inr (), (s\<lparr>sg_reservation := (res_bytes h, res_decoded h)\<rparr>, u)))"

section \<open>Executing one operation\<close>

definition entity_name :: "u64 \<Rightarrow> string" where
  "entity_name ent = ''entity '' @ show_nat (unat ent)"

definition stage_table :: "staging \<Rightarrow> u64 \<Rightarrow> table res" where
  "stage_table s t = ok_or (map_of (sg_catalog s) t) (NotFound (''table '' @ show_nat (unat t)))"

text \<open>
  Loading an entity on first use. What a load that fails has charged so far stays charged until the
  transaction is dropped; since it has failed and only the drop follows, the model leaves it out.
\<close>

definition stage_charge :: "nat \<Rightarrow> world \<Rightarrow> world res" where
  "stage_charge n w = (case stage_grow_decoded n w of (Inl e, _) \<Rightarrow> Inl e | (Inr _, w) \<Rightarrow> Inr w)"

definition stage_load :: "entity_ref \<Rightarrow> (world, unit) act" where
  "stage_load k w =
     (if bt_has (sg_staged (fst w)) k \<or> \<not> bt_has (rs_catalog (sg_base (fst w))) (fst k) then (Inr (), w)
      else case load_charged (sg_base (fst w)) (fst k) (snd k) stage_charge w of
        Inl e \<Rightarrow> (Inl e, w)
      | Inr (None, w) \<Rightarrow> (Inr (), w)
      | Inr (Some d, (s, u)) \<Rightarrow> (Inr (), (s\<lparr>sg_staged := bt_insert k d (sg_staged s)\<rparr>, u)))"

fun keeps_state :: "operation \<Rightarrow> bool" where
  "keeps_state (SnapshotOp _ _) = True"
| "keeps_state (RetainOp _ _ _) = True"
| "keeps_state _ = False"

definition stage_charge_current :: "operation \<Rightarrow> entity_ref \<Rightarrow> (world, unit) act" where
  "stage_charge_current x k w =
     (if keeps_state x then (case map_of (sg_staged (fst w)) k of
          Some d \<Rightarrow> stage_grow_decoded (entity_bytes (rs_store (sg_base (fst w))) (ed_current d)) w
        | None \<Rightarrow> (Inr (), w))
      else (Inr (), w))"

definition put_staged :: "entity_ref \<Rightarrow> entity_data \<Rightarrow> world \<Rightarrow> world" where
  "put_staged k d w = (case w of (s, u) \<Rightarrow> (s\<lparr>sg_staged := bt_insert k d (sg_staged s)\<rparr>, u))"

definition check_row :: "staging \<Rightarrow> nat \<Rightarrow> nat \<Rightarrow> unit res" where
  "check_row s decoded encoded =
     res_bind (limit_check ''decoded record bytes'' 0 decoded (max_decoded_record_bytes (op_limits (sg_options s)))) (\<lambda>_.
       limit_check ''encoded record bytes'' 0 encoded MAX_RECORD)"

definition new_entity :: "staging \<Rightarrow> table \<Rightarrow> u64 \<Rightarrow> fields \<Rightarrow> entity res" where
  "new_entity s def ent fs =
     res_bind (normalize (table_schema def) fs True) (\<lambda>fs.
     res_bind (if sg_permit s then check_row s (st_entity_size (rs_store (sg_base s)) + fields_bytes (rs_store (sg_base s)) fs)
         (25 + fields_encoded_len fs) else Inr ()) (\<lambda>_.
       Inr \<lparr>en_id = ent, en_version = 0, en_schema = s_version (table_schema def), en_deleted = False, en_fields = fs\<rparr>))"

text \<open>The fields of the event of an assignment, checked against the row it will leave.\<close>

definition change_fields :: "staging \<Rightarrow> table \<Rightarrow> entity_data \<Rightarrow> fields \<Rightarrow> fields res" where
  "change_fields s def d fs =
     (if fs = [] then Inl (Invalid ''an apply needs at least one field'')
      else res_bind (normalize (table_schema def) fs False) (\<lambda>fs.
        res_bind (if sg_permit s then
            (let (decoded, encoded) = merged_sizes (rs_store (sg_base s)) (en_fields (ed_current d)) fs;
                 limit = max_decoded_record_bytes (op_limits (sg_options s)) in
             res_bind (limit_check ''decoded record bytes'' 0 decoded limit) (\<lambda>_.
             res_bind (limit_check ''decoded record bytes'' 0
               (st_event_size (rs_store (sg_base s)) + fields_bytes (rs_store (sg_base s)) fs) limit) (\<lambda>_.
               limit_check ''encoded record bytes'' 0 encoded MAX_RECORD)))
          else Inr ()) (\<lambda>_. Inr fs)))"

definition new_event :: "staging \<Rightarrow> table \<Rightarrow> u64 \<Rightarrow> entity_data \<Rightarrow> event_kind \<Rightarrow> fields \<Rightarrow> event res" where
  "new_event s def ent d kind fs =
     (if en_deleted (ed_current d) then Inl (Invalid (entity_name ent @ '' is deleted''))
      else res_bind (ok_or (checked_add64 (en_version (ed_current d)) 1) (Invalid ''entity versions exhausted'')) (\<lambda>version.
        res_bind (ok_or (checked_add64 (rs_lsn (sg_base s)) 1) (Invalid ''transaction sequence exhausted'')) (\<lambda>transaction.
          Inr \<lparr>ev_version = version, ev_transaction = transaction, ev_schema = s_version (table_schema def), ev_kind = kind,
            ev_fields = fs\<rparr>)))"

definition add_event :: "staging \<Rightarrow> table \<Rightarrow> u64 \<Rightarrow> entity_data \<Rightarrow> event_kind \<Rightarrow> fields \<Rightarrow> entity_data res" where
  "add_event s def ent d kind fs =
     res_bind (new_event s def ent d kind fs) (\<lambda>e.
     res_bind (apply_event (ed_current d) e def) (\<lambda>state. Inr (push_event d e state)))"

text \<open>What an operation other than a creation makes of the entity's data.\<close>

fun change_data :: "staging \<Rightarrow> table \<Rightarrow> operation \<Rightarrow> entity_data \<Rightarrow> entity_data res" where
  "change_data s def (ApplyOp _ ent fs) d = res_bind (change_fields s def d fs) (\<lambda>fs. add_event s def ent d ApplyEvent fs)"
| "change_data s def (DeleteOp _ ent) d = add_event s def ent d DeleteEvent []"
| "change_data s def (RetainOp _ _ n) d = entity_retain d def n"
| "change_data s def (SnapshotOp _ _) d = Inr (keep_snapshot d)"
| "change_data s def _ d = Inr d"

definition stage_change :: "table \<Rightarrow> operation \<Rightarrow> entity_ref \<Rightarrow> (world, unit) act" where
  "stage_change def x k w =
     (case x of
        CreateOp _ _ fs \<Rightarrow>
          if bt_has (sg_staged (fst w)) k then (Inl (AlreadyExists (entity_name (snd k))), w)
          else (case new_entity (fst w) def (snd k) fs of
              Inl e \<Rightarrow> (Inl e, w)
            | Inr e \<Rightarrow> (Inr (), put_staged k (created_data e) w))
      | _ \<Rightarrow> (case map_of (sg_staged (fst w)) k of
            None \<Rightarrow> (Inl (NotFound (entity_name (snd k))), w)
          | Some d \<Rightarrow> (case change_data (fst w) def x d of
                Inl e \<Rightarrow> (Inl e, w)
              | Inr d \<Rightarrow> (Inr (), put_staged k d w))))"

definition stage_execute :: "operation \<Rightarrow> (world, unit) act" where
  "stage_execute x w = (case x of
       TableOp t \<Rightarrow>
         (case validate_table_change (sg_catalog (fst w)) t of
            Inl e \<Rightarrow> (Inl e, w)
          | Inr _ \<Rightarrow> (Inr (), ((fst w)\<lparr>sg_catalog := bt_insert (t_id t) t (sg_catalog (fst w))\<rparr>, snd w)))
     | _ \<Rightarrow> (case entity_key x of
            None \<Rightarrow> (Inr (), w)
          | Some k \<Rightarrow>
              act_bind (act_res (stage_table (fst w) (fst k))) (\<lambda>def.
              act_bind (stage_load k) (\<lambda>_.
              act_bind (stage_charge_current x k) (\<lambda>_. stage_change def x k))) w))"

section \<open>Admission and the public operations\<close>

fun stage_cost :: "staging \<Rightarrow> operation \<Rightarrow> nat res" where
  "stage_cost s (CreateOp t _ fs) = res_bind (stage_table s t) (\<lambda>def.
     Inr (3 * fields_bytes (rs_store (sg_base s)) fs + 2 * length (s_fields (table_schema def)) * FIELD_BYTES + 256))"
| "stage_cost s (ApplyOp _ _ fs) = Inr (3 * fields_bytes (rs_store (sg_base s)) fs + 256)"
| "stage_cost s (SnapshotOp t ent) = Inr ((case map_of (sg_staged s) (t, ent) of
     None \<Rightarrow> 0 | Some d \<Rightarrow> entity_bytes (rs_store (sg_base s)) (ed_current d)) + 256)"
| "stage_cost s (RetainOp t ent _) = Inr ((case map_of (sg_staged s) (t, ent) of
     None \<Rightarrow> 0 | Some d \<Rightarrow> entity_bytes (rs_store (sg_base s)) (ed_current d)) + 256)"
| "stage_cost s (TableOp t) = Inr (op_encoded_len (TableOp t) * 3 +
     sum_list (map (\<lambda>c. length (s_fields c) * FIELD_BYTES) (t_schemas t)) * 2)"
| "stage_cost s (DeleteOp _ _) = Inr 256"

definition stage_admit :: "operation \<Rightarrow> (world, unit) act" where
  "stage_admit x w =
     (if sg_permit (fst w) then
        act_bind (act_res (limit_check ''transaction operations'' (length (sg_operations (fst w))) 1
          (max_transaction_operations (op_limits (sg_options (fst w)))))) (\<lambda>_.
        act_bind (act_res (limit_check ''transaction bytes'' (fst (sg_reservation (fst w))) (op_encoded_len x)
          (max_transaction_bytes (op_limits (sg_options (fst w)))))) (\<lambda>_.
          stage_grow (op_encoded_len x))) w
      else stage_recover (op_encoded_len x) w)"

definition stage_body :: "operation \<Rightarrow> (world, unit) act" where
  "stage_body x w =
     act_bind (act_res (stage_cost (fst w) x)) (\<lambda>cost.
     act_bind (stage_grow_decoded cost) (\<lambda>_.
     act_bind (stage_admit x) (\<lambda>_. stage_execute x))) w"

definition stage_run :: "operation \<Rightarrow> (world, unit) act" where
  "stage_run x w =
     (case state_ready (sg_base (fst w)) of
        Inl e \<Rightarrow> (Inl e, w)
      | Inr _ \<Rightarrow>
          if sg_failed (fst w) then (Inl (Invalid ''transaction was aborted by an earlier operation''), w)
          else (case stage_body x w of
              (Inl e, (s, u)) \<Rightarrow> (Inl e, (s\<lparr>sg_failed := True\<rparr>, u))
            | (Inr _, (s, u)) \<Rightarrow> (Inr (), (s\<lparr>sg_operations := sg_operations s @ [x]\<rparr>, u))))"

definition stage_create_table :: "bytes \<Rightarrow> schema \<Rightarrow> (world, u64) act" where
  "stage_create_table name schema w =
     act_bind (act_res (ok_or (checked_add64 (case bt_last_key (sg_catalog (fst w)) of None \<Rightarrow> 0 | Some k \<Rightarrow> k) 1)
       (Invalid ''table IDs exhausted''))) (\<lambda>t.
     act_bind (stage_run (TableOp \<lparr>t_id = t, t_name = name, t_schemas = [schema]\<rparr>)) (\<lambda>_. act_res (Inr t))) w"

definition table_for_write :: "u64 \<Rightarrow> (world, table) act" where
  "table_for_write t w = (case stage_table (fst w) t of
       Inr def \<Rightarrow> (Inr def, w)
     | Inl e \<Rightarrow> (Inl e, ((fst w)\<lparr>sg_failed := True\<rparr>, snd w)))"

definition stage_rename_table :: "u64 \<Rightarrow> bytes \<Rightarrow> (world, unit) act" where
  "stage_rename_table t name = act_bind (table_for_write t) (\<lambda>def. stage_run (TableOp (def\<lparr>t_name := name\<rparr>)))"

definition stage_alter_table :: "u64 \<Rightarrow> field list \<Rightarrow> (world, unit) act" where
  "stage_alter_table t fs =
     act_bind (table_for_write t) (\<lambda>def.
     act_bind (act_res (ok_or (checked_add64 (s_version (table_schema def)) 1) (Invalid ''schema versions exhausted''))) (\<lambda>version.
       stage_run (TableOp (def\<lparr>t_schemas := t_schemas def @ [\<lparr>s_version = version, s_fields = fs\<rparr>]\<rparr>))))"

definition stage_create :: "u64 \<Rightarrow> u64 \<Rightarrow> fields \<Rightarrow> (world, unit) act" where
  "stage_create t ent fs = stage_run (CreateOp t ent fs)"

definition stage_snapshot :: "u64 \<Rightarrow> u64 \<Rightarrow> (world, unit) act" where
  "stage_snapshot t ent = stage_run (SnapshotOp t ent)"

definition stage_retain_last :: "u64 \<Rightarrow> u64 \<Rightarrow> u64 \<Rightarrow> (world, unit) act" where
  "stage_retain_last t ent n = stage_run (RetainOp t ent n)"

text \<open>
  \<^verbatim>\<open>maintain\<close> reads the entity the operation before it staged, so it is there; the code would panic
  if it were not.
\<close>

definition stage_maintain :: "u64 \<Rightarrow> u64 \<Rightarrow> (world, unit) act" where
  "stage_maintain t ent w =
     act_bind (act_when (op_snapshot_interval (sg_options (fst w)) \<noteq> 0 \<and>
         (case map_of (sg_staged (fst w)) (t, ent) of
            Some d \<Rightarrow> en_version (ed_current d) mod op_snapshot_interval (sg_options (fst w)) = 0 | None \<Rightarrow> False))
       (stage_snapshot t ent)) (\<lambda>_ w.
     case op_retain_events (sg_options (fst w)) of
       Some n \<Rightarrow> stage_retain_last t ent n w
     | None \<Rightarrow> (Inr (), w)) w"

definition stage_apply :: "u64 \<Rightarrow> u64 \<Rightarrow> fields \<Rightarrow> (world, unit) act" where
  "stage_apply t ent fs = act_bind (stage_run (ApplyOp t ent fs)) (\<lambda>_. stage_maintain t ent)"

definition stage_delete :: "u64 \<Rightarrow> u64 \<Rightarrow> (world, unit) act" where
  "stage_delete t ent = act_bind (stage_run (DeleteOp t ent)) (\<lambda>_. stage_maintain t ent)"

definition stage_get :: "staging \<Rightarrow> u64 \<Rightarrow> u64 \<Rightarrow> entity option res" where
  "stage_get s t ent =
     res_bind (state_ready (sg_base s)) (\<lambda>_.
     res_bind (stage_table s t) (\<lambda>_. case map_of (sg_staged s) (t, ent) of
         Some d \<Rightarrow> Inr (if en_deleted (ed_current d) then None else Some (ed_current d))
       | None \<Rightarrow> if \<not> bt_has (rs_catalog (sg_base s)) t then Inr None else state_get (sg_base s) t ent))"

end
