(* ===== verification/Commit.thy ===== *)
theory Commit
  imports Staging
begin

text \<open>
  Models the write path of \<^verbatim>\<open>database.rs\<close>: a transaction that ends becomes a \<open>prepared\<close> batch, and
  \<open>commit_group\<close> rebinds the batches of a group to the current checkpoint, drops the expired ones,
  gives the others consecutive sequence numbers, appends their frames to the log and publishes them.
  The clock is a function from the number of readings to instants, the outcome of writing the log a
  parameter, and so is the checkpoint that a database with a single owner may run first.
\<close>

section \<open>Prepared batches\<close>

record prepared =
  pr_permit :: bool
  pr_pinned :: bool
  pr_deadline :: "instant option"
  pr_reservation :: "nat \<times> nat"
  pr_base_sequence :: u64
  pr_root_generation :: u64
  pr_history_charges :: "(u64, charge) link"
  pr_catalog :: "(u64, table) btree"
  pr_staged :: "(entity_ref, entity_data) btree"
  pr_operations :: "operation list"

definition prepare :: "staging \<Rightarrow> instant option \<Rightarrow> prepared" where
  "prepare s deadline = \<lparr>pr_permit = sg_permit s, pr_pinned = sg_pinned s, pr_deadline = deadline,
     pr_reservation = sg_reservation s, pr_base_sequence = rs_lsn (sg_base s),
     pr_root_generation = r_generation (rs_root (sg_base s)), pr_history_charges = rs_charges (sg_base s),
     pr_catalog = sg_catalog s, pr_staged = sg_staged s, pr_operations = sg_operations s\<rparr>"

definition pr_keys :: "prepared \<Rightarrow> entity_ref list" where
  "pr_keys p = map fst (pr_staged p)"

definition changes_catalog :: "prepared \<Rightarrow> bool" where
  "changes_catalog p = (\<exists>x \<in> set (pr_operations p). case x of TableOp _ \<Rightarrow> True | _ \<Rightarrow> False)"

definition pr_is_empty :: "prepared \<Rightarrow> bool" where
  "pr_is_empty p = (pr_operations p = [])"

definition pr_bytes :: "prepared \<Rightarrow> nat" where
  "pr_bytes p = fst (pr_reservation p)"

section \<open>The database\<close>

text \<open>
  \<open>db_segments\<close> are the log files before the active one, \<open>db_published\<close> what readers see, and
  \<open>db_tail\<close> what a running checkpoint did not capture, \<open>db_wal_number\<close> the number of the active file.
\<close>

record database =
  db_options :: db_options
  db_state :: readstate
  db_published :: readstate
  db_wal :: bytes
  db_segments :: "(u64 \<times> bytes) list"
  db_wal_bytes :: u64
  db_shared_mode :: bool
  db_tail :: "overlay option"
  db_next_generation :: u64
  db_wal_number :: u64

definition db_ready :: "database \<Rightarrow> unit res" where
  "db_ready db = state_ready (db_state db)"

definition sequence :: "database \<Rightarrow> u64" where
  "sequence db = rs_lsn (db_state db)"

definition db_tables :: "database \<Rightarrow> table list" where
  "db_tables db = map snd (rs_catalog (db_state db))"

definition db_table :: "database \<Rightarrow> bytes \<Rightarrow> table option" where
  "db_table db name = find (\<lambda>t. t_name t = name) (db_tables db)"

definition checkpoint_generation :: "database \<Rightarrow> u64" where
  "checkpoint_generation db = r_generation (rs_root (db_state db))"

definition maintenance_due :: "database \<Rightarrow> bool" where
  "maintenance_due db = (db_wal_bytes db \<ge> op_checkpoint_bytes (db_options db) \<and>
     rs_lsn (db_state db) > r_lsn (rs_root (db_state db)))"

text \<open>The flag is shared with every state already handed out.\<close>

definition poison :: "database \<Rightarrow> database" where
  "poison db = db\<lparr>db_state := (db_state db)\<lparr>rs_poisoned := True\<rparr>, db_published := (db_published db)\<lparr>rs_poisoned := True\<rparr>\<rparr>"

definition db_publish :: "database \<Rightarrow> database" where
  "db_publish db = db\<lparr>db_published := db_state db\<rparr>"

section \<open>Rebinding to the current checkpoint\<close>

definition keep_after :: "(u64, 'v) link \<Rightarrow> u64 \<Rightarrow> (u64, 'v) link" where
  "keep_after t v = (case checked_add64 v 1 of Some low \<Rightarrow> om_retain_from t low | None \<Rightarrow> NoLink)"

definition outdated :: "readstate \<Rightarrow> u64 \<Rightarrow> entity_data \<Rightarrow> bool" where
  "outdated st g d = (g \<noteq> r_generation (rs_root st) \<or>
     (case ed_disk d of Some disk \<Rightarrow> r_generation (dh_root disk) \<noteq> r_generation (rs_root st) | None \<Rightarrow> False))"

definition rebind_data :: "readstate \<Rightarrow> u64 \<Rightarrow> entity_ref \<Rightarrow> entity_data \<Rightarrow> (nat \<times> nat) \<times> resource_usage \<Rightarrow>
    (entity_data \<times> (nat \<times> nat) \<times> resource_usage) res" where
  "rebind_data st g k d w =
     (if \<not> outdated st g d then Inr (d, w)
      else res_bind (root_entity (rs_root st) (rs_store st) (fst k) (snd k)) (\<lambda>p. case p of
          None \<Rightarrow> Inr (d, w)
        | Some p \<Rightarrow>
            (let through = en_version (ed_current p);
                 d = d\<lparr>ed_committed := keep_after (ed_committed d) through,
                       ed_snapshots := om_retain_from (ed_snapshots d) through, ed_disk := ed_disk p\<rparr> in
             res_bind (case om_get (ed_snapshots d) through of
                 None \<Rightarrow> Inr w
               | Some snapshot \<Rightarrow>
                   res_bind (grow_decoded (rs_limits st) (entity_bytes (rs_store st) snapshot) False (fst w) (snd w)) (\<lambda>(h, u).
                     Inr ((res_bytes h, res_decoded h), u))) (\<lambda>w.
               Inr (d\<lparr>ed_charges := keep_after (ed_charges d) (r_lsn (rs_root st))\<rparr>, w)))))"

fun rebind_entries :: "readstate \<Rightarrow> u64 \<Rightarrow> (entity_ref, entity_data) btree \<Rightarrow> (nat \<times> nat) \<times> resource_usage \<Rightarrow>
    ((entity_ref, entity_data) btree \<times> (nat \<times> nat) \<times> resource_usage) res" where
  "rebind_entries st g [] w = Inr ([], w)"
| "rebind_entries st g ((k, d) # es) w =
     res_bind (rebind_data st g k d w) (\<lambda>(d, w).
     res_bind (rebind_entries st g es w) (\<lambda>(es, w). Inr ((k, d) # es, w)))"

fun rebind_batches :: "readstate \<Rightarrow> (nat \<times> prepared) list \<Rightarrow> resource_usage \<Rightarrow> ((nat \<times> prepared) list \<times> resource_usage) res" where
  "rebind_batches st [] u = Inr ([], u)"
| "rebind_batches st ((i, p) # ps) u =
     res_bind (rebind_entries st (pr_root_generation p) (pr_staged p) (pr_reservation p, u)) (\<lambda>(staged, r, u).
     res_bind (rebind_batches st ps u) (\<lambda>(ps, u).
       Inr ((i, p\<lparr>pr_staged := staged, pr_reservation := r, pr_root_generation := r_generation (rs_root st)\<rparr>) # ps, u)))"

section \<open>Frames and deadlines\<close>

text \<open>The events of the transaction are those above the sequence number it started from.\<close>

definition stamp_data :: "u64 \<Rightarrow> u64 \<Rightarrow> entity_data \<Rightarrow> entity_data" where
  "stamp_data base lsn d = d\<lparr>ed_events := map (\<lambda>e. if ev_transaction e > base then e\<lparr>ev_transaction := lsn\<rparr> else e) (ed_events d)\<rparr>"

definition stamp_batch :: "u64 \<Rightarrow> prepared \<Rightarrow> prepared" where
  "stamp_batch lsn p = p\<lparr>pr_staged := map (\<lambda>e. (fst e, stamp_data (pr_base_sequence p) lsn (snd e))) (pr_staged p)\<rparr>"

fun group_frames :: "u64 \<Rightarrow> nat \<Rightarrow> (nat \<times> prepared) list \<Rightarrow> ((nat \<times> prepared) list \<times> bytes list) res" where
  "group_frames lsn offset [] = Inr ([], [])"
| "group_frames lsn offset ((i, p) # ps) =
     res_bind (ok_or (checked_add64 lsn (of_nat offset + 1)) (Invalid ''transaction sequence exhausted'')) (\<lambda>n.
     res_bind (frame_encode 2 n (encode_ops (pr_operations p))) (\<lambda>fr.
     res_bind (group_frames lsn (Suc offset) ps) (\<lambda>(ps, frs). Inr ((i, stamp_batch n p) # ps, fr # frs))))"

type_synonym results = "u64 res option list"

text \<open>One pass of \<^verbatim>\<open>retain\<close>; \<open>t\<close> counts the readings of the clock.\<close>

fun retain_live :: "(nat \<Rightarrow> instant) \<Rightarrow> nat \<Rightarrow> (nat \<times> prepared) list \<Rightarrow> results \<Rightarrow> (nat \<times> prepared) list \<times> results \<times> nat" where
  "retain_live clock t [] rs = ([], rs, t)"
| "retain_live clock t ((i, p) # ps) rs =
     (case deadline_check (pr_deadline p) (clock t) of
        Inl _ \<Rightarrow> retain_live clock (Suc t) ps (rs[i := Some (Inl DeadlineExceeded)])
      | Inr _ \<Rightarrow>
          if pr_is_empty p then retain_live clock (Suc t) ps (rs[i := Some (Inr (pr_base_sequence p))])
          else (case retain_live clock (Suc t) ps rs of (ps, rs, t) \<Rightarrow> ((i, p) # ps, rs, t)))"

fun all_in_time :: "(nat \<Rightarrow> instant) \<Rightarrow> nat \<Rightarrow> (nat \<times> prepared) list \<Rightarrow> bool \<times> nat" where
  "all_in_time clock t [] = (True, t)"
| "all_in_time clock t ((i, p) # ps) =
     (case deadline_check (pr_deadline p) (clock t) of
        Inl _ \<Rightarrow> (False, Suc t)
      | Inr _ \<Rightarrow> all_in_time clock (Suc t) ps)"

text \<open>
  The loop that encodes the group again until no deadline passed meanwhile. It returns the batches
  that remain, the results of the others and the frames or the error; \<open>None\<close> is running out of fuel.
\<close>

fun group_loop :: "nat \<Rightarrow> u64 \<Rightarrow> (nat \<Rightarrow> instant) \<Rightarrow> nat \<Rightarrow> (nat \<times> prepared) list \<Rightarrow> results \<Rightarrow>
    ((nat \<times> prepared) list \<times> results \<times> bytes list res) option" where
  "group_loop 0 lsn clock t ps rs = None"
| "group_loop (Suc fuel) lsn clock t ps rs =
     (case retain_live clock t ps rs of (ps, rs, t) \<Rightarrow>
        case group_frames lsn 0 ps of
          Inl e \<Rightarrow> Some (ps, rs, Inl e)
        | Inr (ps, frs) \<Rightarrow>
            (case all_in_time clock t ps of (True, _) \<Rightarrow> Some (ps, rs, Inr frs)
             | (False, t) \<Rightarrow> group_loop fuel lsn clock t ps rs))"

section \<open>Publication\<close>

definition seal_charged :: "u64 \<Rightarrow> charge \<Rightarrow> entity_data \<Rightarrow> entity_data" where
  "seal_charged lsn r d = (entity_seal d)\<lparr>ed_charges := om_insert (ed_charges d) lsn r\<rparr>"

definition publish_state :: "prepared \<Rightarrow> u64 \<Rightarrow> database \<Rightarrow> database" where
  "publish_state p lsn db =
     (let entries = map (\<lambda>e. (fst e, seal_charged lsn (pr_reservation p) (snd e))) (pr_staged p);
          st = db_state db;
          st = st\<lparr>rs_charges := om_insert (rs_charges st) lsn (pr_reservation p), rs_catalog := pr_catalog p,
                  rs_overlay := overlay_extend (rs_overlay st) entries\<rparr> in
      db\<lparr>db_tail := map_option (\<lambda>tail. overlay_extend tail entries) (db_tail db),
         db_state := (refresh_overlay_bytes st)\<lparr>rs_lsn := lsn\<rparr>\<rparr>)"

text \<open>\<^verbatim>\<open>Prepared::publish\<close>, of a transaction that recovery replays.\<close>

definition publish_batch :: "prepared \<Rightarrow> u64 \<Rightarrow> database \<Rightarrow> database" where
  "publish_batch p lsn db = db_publish (publish_state p lsn db)"

fun publish_all :: "u64 \<Rightarrow> nat \<Rightarrow> (nat \<times> prepared) list \<Rightarrow> database \<Rightarrow> results \<Rightarrow> database \<times> results" where
  "publish_all first offset [] db rs = (db, rs)"
| "publish_all first offset ((i, p) # ps) db rs =
     (let lsn = first + of_nat offset + 1 in
      publish_all first (Suc offset) ps (publish_state p lsn db) (rs[i := Some (Inr lsn)]))"

section \<open>Committing a group\<close>

definition answer_all :: "(nat \<times> prepared) list \<Rightarrow> error \<Rightarrow> results \<Rightarrow> results" where
  "answer_all ps e rs = foldl (\<lambda>rs x. rs[fst x := Some (Inl e)]) rs ps"

text \<open>The steps before anything is written; \<open>ckpt\<close> is the checkpoint a single owner may run.\<close>

definition group_ready :: "(database \<Rightarrow> unit res \<times> database) \<Rightarrow> (nat \<times> prepared) list \<Rightarrow> resource_usage \<Rightarrow> database \<Rightarrow>
    ((nat \<times> prepared) list \<times> resource_usage) res \<times> database" where
  "group_ready ckpt ps u db = (case db_ready db of
       Inl e \<Rightarrow> (Inl e, db)
     | Inr _ \<Rightarrow>
         (case (if \<not> db_shared_mode db \<and> of_nat (length (db_wal db)) \<ge> op_checkpoint_bytes (db_options db) \<and>
                  rs_lsn (db_state db) > r_lsn (rs_root (db_state db)) then ckpt db else (Inr (), db)) of
            (Inl e, db) \<Rightarrow> (Inl e, db)
          | (Inr _, db) \<Rightarrow> (rebind_batches (db_state db) ps u, db)))"

text \<open>
  What reaches the log. \<open>io\<close>: \<open>None\<close>, or the error after which only so many of the bytes are in the
  file; the error may also come from the synchronization, when all are.
\<close>

definition group_write :: "(io_error \<times> nat) option \<Rightarrow> (nat \<times> prepared) list \<Rightarrow> bytes list \<Rightarrow> results \<Rightarrow> database \<Rightarrow> results \<times> database" where
  "group_write io ps frames rs db =
     (let bytes = sum_list (map (\<lambda>fr. of_nat (length fr)) frames) in
      if unat (saturating_add64 (db_wal_bytes db) bytes) > max_uncheckpointed_wal_bytes (op_limits (db_options db))
      then (answer_all ps (LimitExceeded ''uncheckpointed WAL bytes'' (max_uncheckpointed_wal_bytes (op_limits (db_options db)))) rs, db)
      else if frames = [] then (rs, db)
      else (case io of
          Some (e, n) \<Rightarrow> (answer_all ps (CommitUnknown (io_duplicate e)) rs,
            poison (db\<lparr>db_wal := db_wal db @ take n (concat frames)\<rparr>))
        | None \<Rightarrow>
            (case publish_all (rs_lsn (db_state db)) 0 ps
                (db\<lparr>db_wal := db_wal db @ concat frames, db_wal_bytes := db_wal_bytes db + bytes\<rparr>) rs of
              (db, rs) \<Rightarrow> (rs, db_publish db))))"

text \<open>\<^verbatim>\<open>Option::unwrap\<close> of every result; \<open>None\<close> is the panic of a batch without one.\<close>

fun unwrap_all :: "'a option list \<Rightarrow> 'a list option" where
  "unwrap_all [] = Some []"
| "unwrap_all (None # xs) = None"
| "unwrap_all (Some x # xs) = map_option ((#) x) (unwrap_all xs)"

text \<open>The results before they are unwrapped; \<open>None\<close> is a loop that does not end.\<close>

definition commit_results :: "(database \<Rightarrow> unit res \<times> database) \<Rightarrow> (nat \<Rightarrow> instant) \<Rightarrow> (io_error \<times> nat) option \<Rightarrow>
    prepared list \<Rightarrow> resource_usage \<Rightarrow> database \<Rightarrow> (results \<times> database) option" where
  "commit_results ckpt clock io batches u db =
     (let rs = replicate (length batches) None in
      case group_ready ckpt (enumerate 0 batches) u db of
        (Inl e, db) \<Rightarrow> Some (answer_all (enumerate 0 batches) (duplicate_error e) rs, db)
      | (Inr (ps, u), db) \<Rightarrow>
          (case group_loop (Suc (length batches)) (rs_lsn (db_state db)) clock 0 ps rs of
             None \<Rightarrow> None
           | Some (ps, rs, Inl e) \<Rightarrow> Some (answer_all ps (duplicate_error e) rs, db)
           | Some (ps, rs, Inr frames) \<Rightarrow> Some (group_write io ps frames rs db)))"

definition commit_group :: "(database \<Rightarrow> unit res \<times> database) \<Rightarrow> (nat \<Rightarrow> instant) \<Rightarrow> (io_error \<times> nat) option \<Rightarrow>
    prepared list \<Rightarrow> resource_usage \<Rightarrow> database \<Rightarrow> (u64 res list \<times> database) option" where
  "commit_group ckpt clock io batches u db =
     Option.bind (commit_results ckpt clock io batches u db) (\<lambda>(rs, db). map_option (\<lambda>rs. (rs, db)) (unwrap_all rs))"

text \<open>\<^verbatim>\<open>Prepared::commit\<close>: a group of one.\<close>

definition commit_one :: "(database \<Rightarrow> unit res \<times> database) \<Rightarrow> (nat \<Rightarrow> instant) \<Rightarrow> (io_error \<times> nat) option \<Rightarrow>
    prepared \<Rightarrow> resource_usage \<Rightarrow> database \<Rightarrow> (u64 res \<times> database) option" where
  "commit_one ckpt clock io p u db = map_option (\<lambda>(rs, db). (last rs, db)) (commit_group ckpt clock io [p] u db)"

end
