(* ===== verification/Recovery.thy ===== *)
theory Recovery
  imports Commit
begin

text \<open>
  Models the part of \<^verbatim>\<open>Database::open_with_options\<close> that rebuilds the committed state from a
  checkpoint and the log: the replay of one record as a recovery transaction, the loop over a log
  file and over the files, and the truncation of what follows the last complete frame. The files
  are given with their numbers and their contents; finding them in the directory is not modelled.
\<close>

section \<open>Replaying one record\<close>

fun stage_all :: "operation list \<Rightarrow> (world, unit) act" where
  "stage_all [] w = (Inr (), w)"
| "stage_all (x # xs) w = act_bind (stage_run x) (\<lambda>_. stage_all xs) w"

definition error_text :: "error \<Rightarrow> string" where
  "error_text e = display_error e"

definition recover_transaction :: "frame \<Rightarrow> database \<times> resource_usage \<Rightarrow> (database \<times> resource_usage) res" where
  "recover_transaction fr x = (case x of (db, u) \<Rightarrow>
     if checked_add64 (rs_lsn (db_state db)) 1 \<noteq> Some (fr_lsn fr)
     then Inl (Corrupt ''gap or duplicate in transaction sequence'')
     else res_bind (staging_new (db_state db) (db_options db) False True u) (\<lambda>w.
       res_bind (decode_ops (fr_payload fr)) (\<lambda>ops. case stage_all ops w of
           (Inl e, _) \<Rightarrow> Inl (Corrupt (''invalid WAL operation: '' @ error_text e))
         | (Inr _, (s, u)) \<Rightarrow>
             (let db = publish_batch (prepare s None) (fr_lsn fr) db in
              Inr (db\<lparr>db_wal_bytes := saturating_add64 (db_wal_bytes db) (of_nat (40 + length (fr_payload fr)))\<rparr>, u)))))"

text \<open>A record of a checkpoint is skipped, and so is what the checkpoint already contains.\<close>

definition recover_record :: "frame \<Rightarrow> database \<times> resource_usage \<Rightarrow> (database \<times> resource_usage) res" where
  "recover_record fr x =
     (if fr_kind fr = 1 then Inr x
      else if fr_kind fr \<noteq> 2 then Inl (Corrupt ''unexpected record in transaction WAL'')
      else if fr_lsn fr > r_lsn (rs_root (db_state (fst x))) then recover_transaction fr x
      else Inr x)"

section \<open>Replaying the log\<close>

text \<open>The loop over the records of one file; it gives the position behind the last complete frame.\<close>

function recover_loop :: "log_file \<Rightarrow> database \<times> resource_usage \<Rightarrow> ((database \<times> resource_usage) \<times> nat) res" where
  "recover_loop f x = (case frame_read f of
       Inl e \<Rightarrow> Inl e
     | Inr (None, _) \<Rightarrow> Inr (x, file_pos f)
     | Inr (Some fr, f') \<Rightarrow> (case recover_record fr x of Inl e \<Rightarrow> Inl e | Inr x \<Rightarrow> recover_loop f' x))"
  by pat_completeness auto

termination recover_loop
  by (relation "measure (\<lambda>(f, _). length (file_bytes f) - file_pos f)") (auto dest!: frame_read_advances)

declare recover_loop.simps [simp del]

definition recover_segment :: "u64 \<Rightarrow> u64 \<times> bytes \<Rightarrow> (database \<times> resource_usage) \<times> nat \<Rightarrow> ((database \<times> resource_usage) \<times> nat) res" where
  "recover_segment active seg x = (case (seg, x) of ((number, contents), (x, active_end)) \<Rightarrow>
     if number < r_generation (rs_root (db_state (fst x))) \<or> number > active then Inr (x, active_end)
     else res_bind (frame_read \<lparr>file_bytes = contents, file_pos = 0\<rparr>) (\<lambda>(header, f). case header of
         None \<Rightarrow> Inr (x, active_end)
       | Some fr \<Rightarrow>
           if fr_kind fr \<noteq> 1 then Inl (Corrupt ''invalid WAL header'')
           else res_bind (recover_loop f x) (\<lambda>(x, complete_end).
             if number \<noteq> active \<and> complete_end \<noteq> length contents
             then Inl (Corrupt ''incomplete frame in a sealed WAL segment'')
             else Inr (x, if number = active then complete_end else active_end))))"

text \<open>
  The database a directory is opened as before its log is replayed, and the whole replay. The
  active file is cut behind its last complete frame.
\<close>

definition opened :: "root \<Rightarrow> store \<Rightarrow> db_options \<Rightarrow> u64 \<Rightarrow> (u64 \<times> bytes) list \<Rightarrow> u64 \<Rightarrow> bytes \<Rightarrow> database" where
  "opened root st options next_generation segments number active =
     (let state = refresh_pinned_bytes \<lparr>rs_root = root, rs_store = st, rs_catalog = r_catalog root, rs_overlay = overlay_new,
            rs_lsn = r_lsn root, rs_limits = op_limits options, rs_timeouts = op_timeouts options, rs_charges = NoLink,
            rs_root_bytes = Some 0, rs_pinned_bytes = Some 0, rs_poisoned = False\<rparr> in
      \<lparr>db_options = options, db_state = state, db_published = state, db_wal = active, db_segments = segments, db_wal_bytes = 0,
       db_shared_mode = False, db_tail = None, db_next_generation = next_generation, db_wal_number = number\<rparr>)"

definition recover :: "u64 \<Rightarrow> (u64 \<times> bytes) list \<Rightarrow> database \<Rightarrow> resource_usage \<Rightarrow> (database \<times> resource_usage) res" where
  "recover active segments db u =
     res_bind (res_fold (recover_segment active) segments ((db, u), 0)) (\<lambda>((db, u), active_end).
       Inr (db\<lparr>db_wal := take active_end (db_wal db)\<rparr>, u))"

text \<open>\<^verbatim>\<open>Database::open_with_options\<close> starts from the newest checkpoint that verifies.\<close>

definition select_root :: "(root \<Rightarrow> unit res) \<Rightarrow> root list \<Rightarrow> root res" where
  "select_root verify roots =
     (case find (\<lambda>r. verify r = Inr ()) (rev roots) of
        Some r \<Rightarrow> Inr r
      | None \<Rightarrow> (case roots of [] \<Rightarrow> Inl (Corrupt ''no complete checkpoint'')
          | r # _ \<Rightarrow> (case verify r of Inl e \<Rightarrow> Inl e | Inr _ \<Rightarrow> Inl (Corrupt ''no complete checkpoint''))))"

text \<open>Roots in the order of their generations, each generation once: the first one stays.\<close>

definition sort_roots :: "root list \<Rightarrow> root list" where
  "sort_roots roots = fold (\<lambda>r rs. if rs \<noteq> [] \<and> r_generation (last rs) = r_generation r then rs else rs @ [r])
     (sort_key r_generation roots) []"

section \<open>Opening a directory\<close>

definition options_validate :: "instant \<Rightarrow> instant \<Rightarrow> db_options \<Rightarrow> unit res" where
  "options_validate instant_max now options =
     res_bind (limits_validate (op_limits options)) (\<lambda>_.
     res_bind (timeouts_validate instant_max now (op_timeouts options)) (\<lambda>_.
     res_bind (group_commit_validate (op_group_commit options)) (\<lambda>_.
       if op_checkpoint_bytes options < 4096 \<or> op_history_segment_bytes options < 4096
       then Inl (Invalid ''checkpoint and segment targets must be at least 4096 bytes'')
       else if \<not> f64_unit_interval (op_compact_live_ratio options)
       then Inl (Invalid ''the compaction ratio must lie between 0.0 and 1.0'')
       else if op_max_generations options < 2 \<or> op_max_generations options > MAX_SLOTS
       then Inl (Invalid (''a manifest references between 2 and '' @ show_nat MAX_SLOTS @ '' generations''))
       else Inr ())))"

text \<open>
  The first pass over the log: the manifests it holds, and the number of the last file with a
  complete record.
\<close>

definition scan_record :: "u64 \<Rightarrow> bool \<Rightarrow> frame \<Rightarrow> root list \<times> u64 option \<Rightarrow> (root list \<times> u64 option) res" where
  "scan_record number first fr x =
     (if first \<and> fr_kind fr \<noteq> 1 then Inl (Corrupt ''WAL segment lacks its checkpoint header'')
      else if fr_kind fr = 1 then
        res_bind (decode_root (fr_payload fr)) (\<lambda>root.
          if r_generation root > number \<or> r_lsn root \<noteq> fr_lsn fr then Inl (Corrupt ''checkpoint/WAL identity mismatch'')
          else Inr (fst x @ [root], Some number))
      else if fr_kind fr \<noteq> 2 then Inl (Corrupt ''unexpected WAL record'')
      else Inr (fst x, Some number))"

function scan_loop :: "u64 \<Rightarrow> bool \<Rightarrow> log_file \<Rightarrow> root list \<times> u64 option \<Rightarrow> (root list \<times> u64 option) res" where
  "scan_loop number first f x = (case frame_read f of
       Inl e \<Rightarrow> Inl e
     | Inr (None, _) \<Rightarrow> Inr x
     | Inr (Some fr, f') \<Rightarrow> (case scan_record number first fr x of Inl e \<Rightarrow> Inl e | Inr x \<Rightarrow> scan_loop number False f' x))"
  by pat_completeness auto

termination scan_loop
  by (relation "measure (\<lambda>(_, _, f, _). length (file_bytes f) - file_pos f)") (auto dest!: frame_read_advances)

declare scan_loop.simps [simp del]

definition scan_segment :: "u64 \<times> bytes \<Rightarrow> root list \<times> u64 option \<Rightarrow> (root list \<times> u64 option) res" where
  "scan_segment seg x = scan_loop (fst seg) True \<lparr>file_bytes = snd seg, file_pos = 0\<rparr> x"

text \<open>The number the next checkpoint gets: above every manifest file and every log file.\<close>

definition first_free :: "u64 list \<Rightarrow> u64 list \<Rightarrow> u64" where
  "first_free catalogs segments = max (if catalogs = [] then 1 else saturating_add64 (last catalogs) 1) (saturating_add64 (last segments) 1)"

text \<open>
  \<^verbatim>\<open>open_with_options\<close> on an initialized directory: \<open>control\<close> is the content of the control file,
  \<open>catalogs\<close> the numbers of the manifest files and \<open>segments\<close> the log files, each in order. The
  store reads the checkpoint files.
\<close>

definition open_database :: "instant \<Rightarrow> instant \<Rightarrow> db_options \<Rightarrow> store \<Rightarrow> bytes \<Rightarrow> u64 list \<Rightarrow> (u64 \<times> bytes) list \<Rightarrow> resource_usage \<Rightarrow>
    (database \<times> resource_usage) res" where
  "open_database instant_max now options st control catalogs segments u =
     res_bind (options_validate instant_max now options) (\<lambda>_.
     if control \<noteq> ascii ''EVEDB005'' then Inl (Corrupt ''unsupported database control format'')
     else if segments = [] then Inl (Corrupt ''missing recovery WAL'')
     else res_bind (res_fold scan_segment segments ([], None)) (\<lambda>(roots, active).
     res_bind (select_root (root_verify st) (sort_roots roots)) (\<lambda>root.
     res_bind (ok_or active (Corrupt ''missing active WAL'')) (\<lambda>active.
     res_bind (ok_or (map_of segments active) not_found_error) (\<lambda>wal.
       recover active segments
         (opened root st options (first_free catalogs (map fst segments)) (filter (\<lambda>s. fst s \<noteq> active) segments) active wal) u)))))"

end
