(* ===== verification/Staging_Laws.thy ===== *)
theory Staging_Laws
  imports Staging
begin

text \<open>
  What replaying the logged operations of a transaction gives. Recovery executes them without
  admission, later, and possibly after other transactions on other entities: the law is that it
  stages the same catalog and the same entities, with every new event stamped with the sequence
  number the transaction was committed under.
\<close>

section \<open>Loading with and without admission\<close>

text \<open>A charge that always succeeds, keeping what it is related to.\<close>

definition lenient :: "('s \<Rightarrow> bool) \<Rightarrow> (nat \<Rightarrow> 's \<Rightarrow> 's res) \<Rightarrow> bool" where
  "lenient P charge = (\<forall>n s. P s \<longrightarrow> (\<exists>s'. charge n s = Inr s' \<and> P s'))"

lemma lenientD: "lenient P charge \<Longrightarrow> P s \<Longrightarrow> \<exists>s'. charge n s = Inr s' \<and> P s'"
  by (simp add: lenient_def)

lemma state_charged_free: "state_charged r st t k l ent charge s = Inr (e, s') \<Longrightarrow> read_state r st t k l ent = Inr e"
  by (auto simp: state_charged_def read_state_def res_simps split: prod.splits if_splits)

lemma state_charged_lenient:
  assumes "read_state r st t k l ent = Inr e" "lenient P charge" "P s"
  shows "\<exists>s'. state_charged r st t k l ent charge s = Inr (e, s') \<and> P s'"
proof -
  obtain slot loc where l: "split_locator l = (slot, loc)" by (cases "split_locator l")
  from assms(1) obtain f lsn raw n where *: "slotted r t k slot 0 = Inr (f, lsn)" "heap_read st f loc lsn = Inr raw"
      "record_bytes raw (st_entity_size st) = Inr n" "st_decoded st n = Inr ()" "decode_entity raw = Inr e" "en_id e = ent"
    by (auto simp: state_charged_def read_state_def res_simps l split: prod.splits if_splits)
  obtain s' where "charge n s = Inr s'" "P s'" using lenientD [OF assms(2,3)] by blast
  then show ?thesis using * by (simp add: state_charged_def l)
qed

lemma entity_charged_free: "entity_charged r st t ent charge s = Inr (d, s') \<Longrightarrow> root_entity r st t ent = Inr d"
proof (cases "locate r st t ent")
  case (Inr l)
  assume a: "entity_charged r st t ent charge s = Inr (d, s')"
  show ?thesis
  proof (cases l)
    case (Some p)
    obtain slot v where p: "p = (slot, v)" by (cases p)
    obtain c s1 b s2 where "state_charged r st t 0 (fst v) ent charge s = Inr (c, s1)"
        "state_charged r st t 1 (snd v) ent charge s1 = Inr (b, s2)" "\<not> en_version b > en_version c"
        "d = Some \<lparr>ed_charges = NoLink, ed_current = c, ed_base = b, ed_events = [], ed_committed = NoLink, ed_snapshots = NoLink,
           ed_disk = Some \<lparr>dh_root = r, dh_pager = st, dh_table = t, dh_through = en_version c\<rparr>\<rparr>"
      using a Inr Some p by (auto simp: entity_charged_def res_simps split: if_splits)
    moreover from this have "state_charged r st t 0 (fst v) ent (\<lambda>_ s. Inr s) () = Inr (c, ())"
        "state_charged r st t 1 (snd v) ent (\<lambda>_ s. Inr s) () = Inr (b, ())"
      using state_charged_free by (auto simp: read_state_def res_simps)
    ultimately show ?thesis using Inr Some p by (simp add: root_entity_def entity_charged_def)
  qed (use a Inr in \<open>simp add: root_entity_def entity_charged_def\<close>)
qed (simp add: entity_charged_def)

lemma entity_charged_lenient:
  assumes "root_entity r st t ent = Inr d" "lenient P charge" "P s"
  shows "\<exists>s'. entity_charged r st t ent charge s = Inr (d, s') \<and> P s'"
proof (cases "locate r st t ent")
  case (Inr l)
  show ?thesis
  proof (cases l)
    case (Some p)
    obtain slot v where p: "p = (slot, v)" by (cases p)
    obtain c b where *: "read_state r st t 0 (fst v) ent = Inr c" "read_state r st t 1 (snd v) ent = Inr b" "\<not> en_version b > en_version c"
        "d = Some \<lparr>ed_charges = NoLink, ed_current = c, ed_base = b, ed_events = [], ed_committed = NoLink, ed_snapshots = NoLink,
           ed_disk = Some \<lparr>dh_root = r, dh_pager = st, dh_table = t, dh_through = en_version c\<rparr>\<rparr>"
      using assms(1) Inr Some p by (auto simp: root_entity_def entity_charged_def read_state_def res_simps split: if_splits)
    obtain s1 where 1: "state_charged r st t 0 (fst v) ent charge s = Inr (c, s1)" "P s1"
      using state_charged_lenient [OF *(1) assms(2,3)] by blast
    obtain s2 where "state_charged r st t 1 (snd v) ent charge s1 = Inr (b, s2)" "P s2"
      using state_charged_lenient [OF *(2) assms(2) 1(2)] by blast
    then show ?thesis using 1 * Inr Some p by (simp add: entity_charged_def)
  qed (use assms Inr in \<open>auto simp: root_entity_def entity_charged_def\<close>)
qed (use assms(1) in \<open>simp add: root_entity_def entity_charged_def\<close>)

lemma load_charged_free: "load_charged b t ent charge s = Inr (d, s') \<Longrightarrow> load b t ent = Inr d"
  by (auto simp: load_charged_def load_def Let_def res_simps root_entity_def dest!: entity_charged_free split: option.splits)

lemma load_charged_lenient:
  assumes "load b t ent = Inr d" "lenient P charge" "P s"
  shows "\<exists>s'. load_charged b t ent charge s = Inr (d, s') \<and> P s'"
proof (cases "overlay_get (rs_overlay b) (t, ent)")
  case None
  then have "root_entity (rs_root b) (rs_store b) t ent = Inr d" "\<exists>def. table_definition b t = Inr def"
    using assms(1) by (auto simp: load_def load_charged_def root_entity_def res_simps)
  then show ?thesis using entity_charged_lenient [OF _ assms(2,3)] None by (fastforce simp: load_charged_def)
next
  case (Some x)
  let ?size = "entity_bytes (rs_store b) (ed_current x) + entity_bytes (rs_store b) (ed_base x)"
  obtain def where *: "table_definition b t = Inr def" "st_decoded (rs_store b) ?size = Inr ()" "d = Some x"
    using assms(1) Some by (auto simp: load_def load_charged_def Let_def res_simps)
  obtain s' where "charge ?size s = Inr s'" "P s'" using lenientD [OF assms(2,3)] by blast
  then show ?thesis using * Some by (simp add: load_charged_def)
qed

section \<open>Stamped data\<close>

definition stamp :: "u64 \<Rightarrow> event \<Rightarrow> event" where
  "stamp n e = e\<lparr>ev_transaction := n\<rparr>"

definition stamped :: "u64 \<Rightarrow> (u64, charge) link \<Rightarrow> entity_data \<Rightarrow> entity_data" where
  "stamped n c d = d\<lparr>ed_events := map (stamp n) (ed_events d), ed_charges := c\<rparr>"

text \<open>The same data with events stamped \<open>n\<close>; what it is charged for may differ.\<close>

definition alike :: "u64 \<Rightarrow> entity_data \<Rightarrow> entity_data \<Rightarrow> bool" where
  "alike n d d' = (\<exists>c. d' = stamped n c d)"

lemma alikeI [intro]: "alike n d (stamped n c d)"
  by (auto simp: alike_def)

lemma stamp_fields [simp]: "ev_version (stamp n e) = ev_version e" "ev_kind (stamp n e) = ev_kind e"
    "ev_fields (stamp n e) = ev_fields e" "ev_schema (stamp n e) = ev_schema e"
  by (simp_all add: stamp_def)

lemma stamped_fields [simp]: "ed_current (stamped n c d) = ed_current d" "ed_base (stamped n c d) = ed_base d"
    "ed_committed (stamped n c d) = ed_committed d" "ed_snapshots (stamped n c d) = ed_snapshots d" "ed_disk (stamped n c d) = ed_disk d"
    "ed_charges (stamped n c d) = c" "ed_events (stamped n c d) = map (stamp n) (ed_events d)"
  by (simp_all add: stamped_def)

lemma apply_stamp [simp]: "apply_event st (stamp n e) def = apply_event st e def"
  by (simp add: apply_event_def)

lemma stamped_push: "stamped n c (push_event d e st) = push_event (stamped n c d) (stamp n e) st"
  by (simp add: stamped_def push_event_def)

lemma stamped_snapshot: "stamped n c (keep_snapshot d) = keep_snapshot (stamped n c d)"
  by (simp add: stamped_def keep_snapshot_def)

lemma from_disk_stamped: "from_disk (stamped n c d) v u st = from_disk d v u st"
  by (simp add: from_disk_def split: option.split)

lemma pending_stamped:
  "res_fold (\<lambda>e s. if ev_version e > en_version s then apply_event s e def else Inr s) (filter (\<lambda>e. ev_version e \<le> v) (map (stamp n) es)) st =
   res_fold (\<lambda>e s. if ev_version e > en_version s then apply_event s e def else Inr s) (filter (\<lambda>e. ev_version e \<le> v) es) st"
  by (induction es arbitrary: st) (auto intro: res_bind_cong)

lemma nearest_stamped: "nearest_snapshot (stamped n c d) v u = nearest_snapshot d v u"
  by (simp only: nearest_snapshot_def stamped_fields)

lemma entity_at_stamped: "entity_at (stamped n c d) def v u = entity_at d def v u"
  by (simp only: entity_at_def from_disk_stamped nearest_stamped stamped_fields pending_stamped)

lemma stamped_drop: "stamped m c (drop_before d v b) = drop_before (stamped m c d) v b"
  by (cases d) (simp add: drop_before_def stamped_def filter_map comp_def split: option.split)

lemma retain_drop: "entity_retain d def n = (let v = saturating_sub64 (en_version (ed_current d)) n in
    if v \<le> en_version (ed_base d) then Inr d else res_bind (entity_at d def v True) (\<lambda>b. Inr (drop_before d v b)))"
  by (simp add: entity_retain_def drop_before_def Let_def)

lemma retain_stamped: "entity_retain d def n = Inr d1 \<Longrightarrow> entity_retain (stamped m c d) def n = Inr (stamped m c d1)"
  by (auto simp: retain_drop entity_at_stamped stamped_drop Let_def res_simps split: if_splits)

section \<open>Executing without admission\<close>

text \<open>
  Two staging areas: one admitted, one of a recovery over a base with the same catalog, whose
  sequence number is the one before \<open>n\<close>, and from which the entities \<open>K\<close> are loaded as from the other.
\<close>

definition staged_alike :: "u64 \<Rightarrow> (entity_ref, entity_data) btree \<Rightarrow> (entity_ref, entity_data) btree \<Rightarrow> bool" where
  "staged_alike n xs ys = list_all2 (\<lambda>e f. fst f = fst e \<and> alike n (snd e) (snd f)) xs ys"

text \<open>What is loaded has no events of a running transaction.\<close>

definition loads_alike :: "entity_ref set \<Rightarrow> readstate \<Rightarrow> readstate \<Rightarrow> bool" where
  "loads_alike K b b' = (\<forall>k \<in> K. \<forall>d. load b (fst k) (snd k) = Inr d \<longrightarrow>
     (case d of None \<Rightarrow> load b' (fst k) (snd k) = Inr None
      | Some x \<Rightarrow> ed_events x = [] \<and> (\<exists>c. load b' (fst k) (snd k) = Inr (Some (x\<lparr>ed_charges := c\<rparr>)))))"

definition sim :: "entity_ref set \<Rightarrow> u64 \<Rightarrow> staging \<Rightarrow> staging \<Rightarrow> bool" where
  "sim K n s r = (sg_catalog r = sg_catalog s \<and> staged_alike n (sg_staged s) (sg_staged r) \<and>
     sg_operations r = sg_operations s \<and> \<not> sg_failed r \<and> \<not> sg_permit r \<and>
     rs_catalog (sg_base r) = rs_catalog (sg_base s) \<and> state_ready (sg_base r) = Inr () \<and>
     checked_add64 (rs_lsn (sg_base r)) 1 = Some n \<and> loads_alike K (sg_base s) (sg_base r))"

lemma map_of_alike: "staged_alike n xs ys \<Longrightarrow> rel_option (alike n) (map_of xs k) (map_of ys k)"
  unfolding staged_alike_def by (induction rule: list_all2_induct) auto

lemma map_of_alike_Some: "staged_alike n xs ys \<Longrightarrow> map_of xs k = Some d \<Longrightarrow> \<exists>c. map_of ys k = Some (stamped n c d)"
  using map_of_alike [of n xs ys k] by (auto simp: alike_def option_rel_Some1)

lemma map_of_alike_None: "staged_alike n xs ys \<Longrightarrow> map_of ys k = None \<longleftrightarrow> map_of xs k = None"
  using map_of_alike [of n xs ys k] by (cases "map_of xs k"; cases "map_of ys k") auto

lemma bt_has_alike: "staged_alike n xs ys \<Longrightarrow> bt_has ys k = bt_has xs k"
  using map_of_alike_None [of n xs ys k] by (auto simp: bt_has_def)

lemma bt_insert_alike: "staged_alike n xs ys \<Longrightarrow> alike n d d' \<Longrightarrow> staged_alike n (bt_insert k d xs) (bt_insert k d' ys)"
  unfolding staged_alike_def by (induction rule: list_all2_induct) (auto split: prod.split)

lemma sim_staged: "sim K n s r \<Longrightarrow> staged_alike n (sg_staged s) (sg_staged r)"
  by (simp add: sim_def)

lemma sim_reservation [simp]: "sim K n s (r\<lparr>sg_reservation := x\<rparr>) = sim K n s r" "sim K n (s\<lparr>sg_reservation := y\<rparr>) r = sim K n s r"
  by (simp_all add: sim_def)

lemma sim_put: "sim K n s r \<Longrightarrow> alike n d d' \<Longrightarrow>
    sim K n (s\<lparr>sg_staged := bt_insert k d (sg_staged s)\<rparr>) (r\<lparr>sg_staged := bt_insert k d' (sg_staged r)\<rparr>)"
  by (simp add: sim_def bt_insert_alike)

lemma stamped_none: "ed_events d = [] \<Longrightarrow> stamped n c d = d\<lparr>ed_charges := c\<rparr>"
  by (simp add: stamped_def)

text \<open>Growing a reservation changes nothing else.\<close>

definition grown :: "world \<Rightarrow> world \<Rightarrow> bool" where
  "grown w w1 = (\<exists>b u. w1 = ((fst w)\<lparr>sg_reservation := b\<rparr>, u))"

lemma grown_refl [intro, simp]: "grown w w"
  unfolding grown_def by (intro exI [of _ "sg_reservation (fst w)"] exI [of _ "snd w"]) simp

lemma grown_trans: "grown w w1 \<Longrightarrow> grown w1 w2 \<Longrightarrow> grown w w2"
  by (auto simp: grown_def simp del: split_paired_Ex)

lemma grow_decoded_grown: "stage_grow_decoded k w = (Inr x, w1) \<Longrightarrow> grown w w1"
  by (auto simp: stage_grow_decoded_def grown_def split: prod.splits sum.splits)

lemma grow_decoded_free: "\<not> sg_permit (fst w) \<Longrightarrow> \<exists>w1. stage_grow_decoded k w = (Inr (), w1) \<and> grown w w1"
  by (cases w) (auto simp: stage_grow_decoded_def grow_decoded_def grown_def)

lemma sim_grown:
  fixes w v w1 v1 :: world
  shows "sim K n (fst w) (fst v) \<Longrightarrow> grown w w1 \<Longrightarrow> grown v v1 \<Longrightarrow> sim K n (fst w1) (fst v1)"
  by (auto simp: grown_def)

lemma sim_permit: "sim K n s r \<Longrightarrow> \<not> sg_permit r"
  by (simp add: sim_def)

lemma charge_lenient: "lenient (\<lambda>v. \<not> sg_permit (fst v) \<and> grown w v) stage_charge"
  unfolding lenient_def
proof (intro allI impI)
  fix k v assume v: "\<not> sg_permit (fst v) \<and> grown w v"
  then obtain v1 where "stage_grow_decoded k v = (Inr (), v1)" "grown v v1" using grow_decoded_free by blast
  then show "\<exists>v'. stage_charge k v = Inr v' \<and> \<not> sg_permit (fst v') \<and> grown w v'"
    using v grown_trans [of w v v1] by (auto simp: stage_charge_def) (auto simp: grown_def)
qed

lemma charge_grown: "stage_charge k w = Inr w1 \<Longrightarrow> grown w w1"
  by (auto simp: stage_charge_def dest: grow_decoded_grown split: sum.splits prod.splits)

text \<open>A load charges a sequence of sizes, so it only grows the reservation.\<close>

lemma state_charged_grown: "state_charged r st t k l ent stage_charge w = Inr (e, w1) \<Longrightarrow> grown w w1"
  by (auto simp: state_charged_def res_simps dest: charge_grown split: prod.splits if_splits)

lemma load_charged_grown: "load_charged b t ent stage_charge w = Inr (d, w1) \<Longrightarrow> grown w w1"
  by (auto simp: load_charged_def entity_charged_def Let_def res_simps
      dest!: state_charged_grown charge_grown intro: grown_trans split: option.splits if_splits)

text \<open>\<open>follows\<close>: whenever the first succeeds, so does the second without admission, and they stay related.\<close>

definition follows :: "entity_ref set \<Rightarrow> u64 \<Rightarrow> (world, unit) act \<Rightarrow> bool" where
  "follows K n m = (\<forall>w v w1. m w = (Inr (), w1) \<longrightarrow> sim K n (fst w) (fst v) \<longrightarrow>
     (\<exists>v1. m v = (Inr (), v1) \<and> sim K n (fst w1) (fst v1)))"

lemma followsD:
  fixes w v w1 :: world
  shows "follows K n m \<Longrightarrow> m w = (Inr (), w1) \<Longrightarrow> sim K n (fst w) (fst v) \<Longrightarrow>
    \<exists>v1 :: world. m v = (Inr (), v1) \<and> sim K n (fst w1) (fst v1)"
  unfolding follows_def by blast

lemma follows_bind: "follows K n m \<Longrightarrow> follows K n m' \<Longrightarrow> follows K n (act_bind m (\<lambda>_. m'))"
  unfolding follows_def
proof (intro allI impI)
  fix w v w1 :: world assume *: "\<forall>w v w1. m w = (Inr (), w1) \<longrightarrow> sim K n (fst w) (fst v) \<longrightarrow> (\<exists>v1. m v = (Inr (), v1) \<and> sim K n (fst w1) (fst v1))"
    "\<forall>w v w1. m' w = (Inr (), w1) \<longrightarrow> sim K n (fst w) (fst v) \<longrightarrow> (\<exists>v1. m' v = (Inr (), v1) \<and> sim K n (fst w1) (fst v1))"
    "act_bind m (\<lambda>_. m') w = (Inr (), w1)" "sim K n (fst w) (fst v)"
  obtain w2 where 2: "m w = (Inr (), w2)" "m' w2 = (Inr (), w1)" using *(3) unfolding act_bind_Inr by auto
  obtain v2 where v2: "m v = (Inr (), v2)" "sim K n (fst w2) (fst v2)" using *(1,4) 2(1) by blast
  obtain v1 where "m' v2 = (Inr (), v1)" "sim K n (fst w1) (fst v1)" using *(2) 2(2) v2(2) by blast
  then show "\<exists>v1. act_bind m (\<lambda>_. m') v = (Inr (), v1) \<and> sim K n (fst w1) (fst v1)"
    using v2(1) unfolding act_bind_Inr by blast
qed

lemma follows_load:
  assumes "k \<in> K"
  shows "follows K n (stage_load k)"
  unfolding follows_def
proof (intro allI impI)
  fix w v w1 :: world assume w: "stage_load k w = (Inr (), w1)" and sim: "sim K n (fst w) (fst v)"
  have same: "bt_has (sg_staged (fst v)) k = bt_has (sg_staged (fst w)) k" "rs_catalog (sg_base (fst v)) = rs_catalog (sg_base (fst w))"
    using sim bt_has_alike [OF sim_staged [OF sim]] by (simp_all add: sim_def)
  show "\<exists>v1. stage_load k v = (Inr (), v1) \<and> sim K n (fst w1) (fst v1)"
  proof (cases "bt_has (sg_staged (fst w)) k \<or> \<not> bt_has (rs_catalog (sg_base (fst w))) (fst k)")
    case True
    then have "w1 = w" "stage_load k v = (Inr (), v)" using w same by (auto simp: stage_load_def split: if_splits)
    then show ?thesis using sim by blast
  next
    case False
    obtain d w' where l: "load_charged (sg_base (fst w)) (fst k) (snd k) stage_charge w = Inr (d, w')"
      using w False by (auto simp: stage_load_def split: sum.splits)
    have loads: "loads_alike K (sg_base (fst w)) (sg_base (fst v))" using sim by (simp add: sim_def)
    have run: "\<exists>v'. load_charged (sg_base (fst v)) (fst k) (snd k) stage_charge v = Inr (x, v') \<and> sim K n (fst w') (fst v')"
      if "load (sg_base (fst v)) (fst k) (snd k) = Inr x" for x
    proof -
      from load_charged_lenient [OF that charge_lenient [of v], of v] sim_permit [OF sim]
      obtain v' where v': "load_charged (sg_base (fst v)) (fst k) (snd k) stage_charge v = Inr (x, v')" "grown v v'" by auto
      then show ?thesis using sim_grown [OF sim load_charged_grown [OF l] v'(2)] by blast
    qed
    show ?thesis
    proof (cases d)
      case None
      then have "load (sg_base (fst v)) (fst k) (snd k) = Inr None"
        using loads assms load_charged_free [OF l] by (auto simp: loads_alike_def)
      from run [OF this] obtain v' where v': "load_charged (sg_base (fst v)) (fst k) (snd k) stage_charge v = Inr (None, v')"
          "sim K n (fst w') (fst v')" by blast
      have "w1 = w'" using w False l None by (simp add: stage_load_def)
      then show ?thesis using False v' same by (simp add: stage_load_def)
    next
      case (Some x)
      then obtain c where x: "ed_events x = []" "load (sg_base (fst v)) (fst k) (snd k) = Inr (Some (x\<lparr>ed_charges := c\<rparr>))"
        using loads assms load_charged_free [OF l] by (fastforce simp: loads_alike_def)
      from run [OF this(2)] obtain r t where v': "load_charged (sg_base (fst v)) (fst k) (snd k) stage_charge v =
          Inr (Some (x\<lparr>ed_charges := c\<rparr>), r, t)" "sim K n (fst w') r" by (metis prod.collapse)
      have "alike n x (x\<lparr>ed_charges := c\<rparr>)" using stamped_none [OF x(1)] alikeI by metis
      from sim_put [OF v'(2) this, of k]
      have "sim K n (fst w1) (r\<lparr>sg_staged := bt_insert k (x\<lparr>ed_charges := c\<rparr>) (sg_staged r)\<rparr>)"
        using w False l Some by (cases w') (auto simp: stage_load_def)
      then show ?thesis using False v'(1) same by (simp add: stage_load_def)
    qed
  qed
qed

lemma follows_charge_current: "follows K n (stage_charge_current x k)"
  unfolding follows_def
proof (intro allI impI)
  fix w v w1 :: world assume w: "stage_charge_current x k w = (Inr (), w1)" and sim: "sim K n (fst w) (fst v)"
  show "\<exists>v1. stage_charge_current x k v = (Inr (), v1) \<and> sim K n (fst w1) (fst v1)"
  proof (cases "keeps_state x \<and> map_of (sg_staged (fst w)) k \<noteq> None")
    case False
    then have "w1 = w" "stage_charge_current x k v = (Inr (), v)"
      using w map_of_alike_None [OF sim_staged [OF sim], of k] by (auto simp: stage_charge_current_def split: if_splits option.splits)
    then show ?thesis using sim by blast
  next
    case True
    then obtain d where d: "keeps_state x" "map_of (sg_staged (fst w)) k = Some d" by auto
    obtain c where c: "map_of (sg_staged (fst v)) k = Some (stamped n c d)" using map_of_alike_Some [OF sim_staged [OF sim] d(2)] by blast
    have "grown w w1" using w d by (auto simp: stage_charge_current_def dest: grow_decoded_grown)
    moreover obtain v1 where v1: "stage_grow_decoded (entity_bytes (rs_store (sg_base (fst v))) (ed_current d)) v = (Inr (), v1)" "grown v v1"
      using grow_decoded_free [OF sim_permit [OF sim]] by blast
    moreover have "stage_charge_current x k v = (Inr (), v1)" using d(1) c v1(1) by (simp add: stage_charge_current_def)
    ultimately show ?thesis using sim_grown [OF sim] by blast
  qed
qed

lemma add_event_stamped:
  assumes "sim K n s r" "add_event s def ent d kind fs = Inr d1"
  shows "add_event r def ent (stamped n c d) kind fs = Inr (stamped n c d1)"
proof -
  obtain e st where e: "new_event s def ent d kind fs = Inr e" "apply_event (ed_current d) e def = Inr st" "d1 = push_event d e st"
    using assms(2) by (auto simp: add_event_def res_simps)
  have "new_event r def ent (stamped n c d) kind fs = Inr (stamp n e)"
    using e(1) assms(1) by (auto simp: new_event_def sim_def stamp_def res_simps split: if_splits)
  then show ?thesis using e(2,3) by (simp add: add_event_def stamped_push)
qed

lemma change_data_stamped:
  assumes "sim K n s r" "change_data s def x d = Inr d1"
  shows "change_data r def x (stamped n c d) = Inr (stamped n c d1)"
proof (cases x)
  case (ApplyOp t ent fs)
  obtain gs where gs: "change_fields s def d fs = Inr gs" "add_event s def ent d ApplyEvent gs = Inr d1"
    using assms(2) ApplyOp by (auto simp: res_simps)
  have "change_fields r def (stamped n c d) fs = Inr gs"
    using gs(1) sim_permit [OF assms(1)] by (auto simp: change_fields_def res_simps split: if_splits)
  then show ?thesis using add_event_stamped [OF assms(1) gs(2)] ApplyOp by simp
qed (use assms add_event_stamped [OF assms(1)] retain_stamped in \<open>auto simp: stamped_snapshot\<close>)

lemma new_entity_free: "sim K n s r \<Longrightarrow> new_entity s def ent fs = Inr e \<Longrightarrow> new_entity r def ent fs = Inr e"
  using sim_permit [of K n s r] by (auto simp: new_entity_def res_simps split: if_splits)

lemma follows_change: "follows K n (stage_change def x k)"
  unfolding follows_def
proof (intro allI impI)
  fix w v w1 :: world assume w: "stage_change def x k w = (Inr (), w1)" and sim: "sim K n (fst w) (fst v)"
  note staged = sim_staged [OF sim]
  have put: "sim K n (fst (put_staged k d w)) (fst (put_staged k d' v))" if "alike n d d'" for d d'
    using sim_put [OF sim that] by (cases w; cases v) (simp add: put_staged_def)
  show "\<exists>v1. stage_change def x k v = (Inr (), v1) \<and> sim K n (fst w1) (fst v1)"
  proof (cases "\<exists>t ent fs. x = CreateOp t ent fs")
    case True
    then obtain t ent fs where x: "x = CreateOp t ent fs" by blast
    then obtain e where e: "new_entity (fst w) def (snd k) fs = Inr e" "w1 = put_staged k (created_data e) w" "\<not> bt_has (sg_staged (fst w)) k"
      using w by (auto simp: stage_change_def split: if_splits sum.splits)
    have "stamped n NoLink (created_data e) = created_data e" by (simp add: stamped_def created_data_def)
    then have "alike n (created_data e) (created_data e)" using alikeI by metis
    from put [OF this] show ?thesis using x e new_entity_free [OF sim e(1)] bt_has_alike [OF staged] by (simp add: stage_change_def)
  next
    case False
    then have eq: "stage_change def x k w = (case map_of (sg_staged (fst w)) k of None \<Rightarrow> (Inl (NotFound (entity_name (snd k))), w)
        | Some d \<Rightarrow> (case change_data (fst w) def x d of Inl e \<Rightarrow> (Inl e, w) | Inr d \<Rightarrow> (Inr (), put_staged k d w)))" for w
      by (cases x) (auto simp: stage_change_def split: option.split)
    obtain d d1 where d: "map_of (sg_staged (fst w)) k = Some d" "change_data (fst w) def x d = Inr d1" "w1 = put_staged k d1 w"
      using w by (auto simp: eq split: option.splits sum.splits)
    obtain c where c: "map_of (sg_staged (fst v)) k = Some (stamped n c d)" using map_of_alike_Some [OF staged d(1)] by blast
    have "stage_change def x k v = (Inr (), put_staged k (stamped n c d1) v)"
      using change_data_stamped [OF sim d(2), of c] c by (simp add: eq)
    then show ?thesis using put [OF alikeI [of n d1 c]] d(3) by simp
  qed
qed

lemma stage_table_sim: "sim K n s r \<Longrightarrow> stage_table r t = stage_table s t"
  by (simp add: stage_table_def sim_def)

lemma bind_res_Inr: "act_bind (act_res (Inr x)) f w = f x w"
  by (simp add: act_bind_def act_res_def)

lemma execute_entity: "entity_key x = Some k \<Longrightarrow> stage_execute x w =
    act_bind (act_res (stage_table (fst w) (fst k))) (\<lambda>def. act_bind (stage_load k) (\<lambda>_.
      act_bind (stage_charge_current x k) (\<lambda>_. stage_change def x k))) w"
  by (cases x) (auto simp: stage_execute_def)

lemma follows_execute:
  assumes "\<And>k. entity_key x = Some k \<Longrightarrow> k \<in> K"
  shows "follows K n (stage_execute x)"
  unfolding follows_def
proof (intro allI impI)
  fix w v w1 :: world assume w: "stage_execute x w = (Inr (), w1)" and sim: "sim K n (fst w) (fst v)"
  show "\<exists>v1. stage_execute x v = (Inr (), v1) \<and> sim K n (fst w1) (fst v1)"
  proof (cases "entity_key x")
    case None
    then obtain t where x: "x = TableOp t" by (cases x) auto
    then show ?thesis using w sim by (auto simp: stage_execute_def sim_def split: sum.splits)
  next
    case (Some k)
    obtain def where def: "stage_table (fst w) (fst k) = Inr def"
        "act_bind (stage_load k) (\<lambda>_. act_bind (stage_charge_current x k) (\<lambda>_. stage_change def x k)) w = (Inr (), w1)"
      using w by (auto simp: execute_entity [OF Some] act_simps)
    have "follows K n (act_bind (stage_load k) (\<lambda>_. act_bind (stage_charge_current x k) (\<lambda>_. stage_change def x k)))"
      by (intro follows_bind follows_load follows_charge_current follows_change assms Some)
    from followsD [OF this def(2) sim] show ?thesis
      by (simp add: execute_entity [OF Some] bind_res_Inr def(1) stage_table_sim [OF sim])
  qed
qed

lemma admit_grown: "stage_admit x w = (Inr y, w1) \<Longrightarrow> grown w w1"
  by (cases w) (auto simp: stage_admit_def act_simps stage_grow_def stage_recover_def grow_recovered_def grown_def
      split: if_splits sum.splits prod.splits)

lemma admit_free: "\<not> sg_permit (fst w) \<Longrightarrow> \<exists>w1. stage_admit x w = (Inr (), w1) \<and> grown w w1"
  by (cases w) (auto simp: stage_admit_def stage_recover_def grow_recovered_def grown_def)

lemma cost_free: "sim K n s r \<Longrightarrow> stage_cost s x = Inr a \<Longrightarrow> \<exists>b. stage_cost r x = Inr b"
  by (cases x) (auto simp: res_simps stage_table_sim)

lemma follows_body:
  assumes "\<And>k. entity_key x = Some k \<Longrightarrow> k \<in> K"
  shows "follows K n (stage_body x)"
  unfolding follows_def
proof (intro allI impI)
  fix w v w1 :: world assume w: "stage_body x w = (Inr (), w1)" and sim: "sim K n (fst w) (fst v)"
  then obtain a w2 w3 where s: "stage_cost (fst w) x = Inr a" "stage_grow_decoded a w = (Inr (), w2)"
      "stage_admit x w2 = (Inr (), w3)" "stage_execute x w3 = (Inr (), w1)"
    by (auto simp: stage_body_def act_simps)
  obtain b where b: "stage_cost (fst v) x = Inr b" using cost_free [OF sim s(1)] by blast
  obtain v2 where v2: "stage_grow_decoded b v = (Inr (), v2)" "grown v v2" using grow_decoded_free [OF sim_permit [OF sim]] by blast
  have sim2: "sim K n (fst w2) (fst v2)" by (rule sim_grown [OF sim grow_decoded_grown [OF s(2)] v2(2)])
  obtain v3 where v3: "stage_admit x v2 = (Inr (), v3)" "grown v2 v3" using admit_free [OF sim_permit [OF sim2]] by blast
  have sim3: "sim K n (fst w3) (fst v3)" by (rule sim_grown [OF sim2 admit_grown [OF s(3)] v3(2)])
  from followsD [OF follows_execute [OF assms] s(4) sim3]
  show "\<exists>v1. stage_body x v = (Inr (), v1) \<and> sim K n (fst w1) (fst v1)"
    using b v2(1) v3(1) by (auto simp: stage_body_def act_bind_def act_res_def)
qed

lemma follows_run:
  assumes "\<And>k. entity_key x = Some k \<Longrightarrow> k \<in> K"
  shows "follows K n (stage_run x)"
  unfolding follows_def
proof (intro allI impI)
  fix w v w1 :: world assume w: "stage_run x w = (Inr (), w1)" and sim: "sim K n (fst w) (fst v)"
  then obtain s u where s: "stage_body x w = (Inr (), (s, u))" "w1 = (s\<lparr>sg_operations := sg_operations s @ [x]\<rparr>, u)"
    by (auto simp: stage_run_def split: sum.splits if_splits prod.splits)
  obtain r t where r: "stage_body x v = (Inr (), (r, t))" "sim K n s r"
    using followsD [OF follows_body [OF assms] s(1) sim] by auto
  have "state_ready (sg_base (fst v)) = Inr ()" "\<not> sg_failed (fst v)" using sim by (simp_all add: sim_def)
  then have "stage_run x v = (Inr (), (r\<lparr>sg_operations := sg_operations r @ [x]\<rparr>, t))" using r(1) by (simp add: stage_run_def)
  moreover have "sim K n (fst w1) (r\<lparr>sg_operations := sg_operations r @ [x]\<rparr>)" using r(2) s(2) by (simp add: sim_def)
  ultimately show "\<exists>v1. stage_run x v = (Inr (), v1) \<and> sim K n (fst w1) (fst v1)" by simp
qed

end
