(* ===== verification/Transactions.thy ===== *)
theory Transactions
  imports Recovery Staging_Laws
begin

text \<open>
  Whole transactions: every call of the public interface as a step on the staging area, and what
  holds of a staging area no call has failed on. The laws: an accepted operation is one the log can
  express, the staged data is stamped with the next sequence number, and replaying the logged
  operations in recovery, over a base that loads the same entities, stages the same changes.
\<close>

section \<open>Calls\<close>

datatype tx_call =
    CreateTable bytes schema
  | RenameTable u64 bytes
  | AlterTable u64 "field list"
  | CreateEntity u64 u64 fields
  | ApplyFields u64 u64 fields
  | DeleteEntity u64 u64
  | RetainLast u64 u64 u64
  | TakeSnapshot u64 u64

fun tx_run :: "tx_call \<Rightarrow> (world, unit) act" where
  "tx_run (CreateTable name schema) = act_bind (stage_create_table name schema) (\<lambda>_. act_res (Inr ()))"
| "tx_run (RenameTable t name) = stage_rename_table t name"
| "tx_run (AlterTable t fs) = stage_alter_table t fs"
| "tx_run (CreateEntity t ent fs) = stage_create t ent fs"
| "tx_run (ApplyFields t ent fs) = stage_apply t ent fs"
| "tx_run (DeleteEntity t ent) = stage_delete t ent"
| "tx_run (RetainLast t ent n) = stage_retain_last t ent n"
| "tx_run (TakeSnapshot t ent) = stage_snapshot t ent"

text \<open>What the types of the interface give: strings are UTF-8 and rows are ordered maps.\<close>

definition row_text_ok :: "fields \<Rightarrow> bool" where
  "row_text_ok fs = (bt_ok fs \<and> (\<forall>e \<in> set fs. case snd e of TextV v \<Rightarrow> utf8_valid v | _ \<Rightarrow> True))"

fun call_typed :: "tx_call \<Rightarrow> bool" where
  "call_typed (CreateTable name schema) = (utf8_valid name \<and> (\<forall>f \<in> set (s_fields schema). field_def_ok f))"
| "call_typed (RenameTable t name) = utf8_valid name"
| "call_typed (AlterTable t fs) = (\<forall>f \<in> set fs. field_def_ok f)"
| "call_typed (CreateEntity t ent fs) = row_text_ok fs"
| "call_typed (ApplyFields t ent fs) = row_text_ok fs"
| "call_typed _ = True"

fun op_typed :: "operation \<Rightarrow> bool" where
  "op_typed (TableOp t) = (table_text_ok t \<and> t_id t \<noteq> 0)"
| "op_typed (CreateOp _ _ fs) = row_text_ok fs"
| "op_typed (ApplyOp _ _ fs) = row_text_ok fs"
| "op_typed _ = True"

section \<open>What calls preserve\<close>

text \<open>\<open>closed\<close>: a property that operations and aborting preserve; then so does every call.\<close>

definition keeps :: "(staging \<Rightarrow> bool) \<Rightarrow> (world, 'a) act \<Rightarrow> bool" where
  "keeps P m = (\<forall>w r w'. P (fst w) \<longrightarrow> m w = (r, w') \<longrightarrow> P (fst w'))"

definition closed :: "(staging \<Rightarrow> bool) \<Rightarrow> bool" where
  "closed P = ((\<forall>x. op_typed x \<longrightarrow> keeps P (stage_run x)) \<and> (\<forall>s. P s \<longrightarrow> P (s\<lparr>sg_failed := True\<rparr>) \<and> (\<not> sg_failed s \<longrightarrow> catalog_ok (sg_catalog s))))"

lemma keepsD: "keeps P m \<Longrightarrow> P (fst w) \<Longrightarrow> m w = (r, w') \<Longrightarrow> P (fst w')"
  unfolding keeps_def by blast

lemma keepsI: "(\<And>w r w'. P (fst w) \<Longrightarrow> m w = (r, w') \<Longrightarrow> P (fst w')) \<Longrightarrow> keeps P m"
  unfolding keeps_def by blast

lemma closed_run: "closed P \<Longrightarrow> op_typed x \<Longrightarrow> keeps P (stage_run x)"
  by (simp add: closed_def)

lemma keeps_bind: "keeps P m \<Longrightarrow> (\<And>x. keeps P (f x)) \<Longrightarrow> keeps P (act_bind m f)"
  by (rule keepsI) (auto simp: act_bind_def split: sum.splits prod.splits dest: keepsD)

lemma keeps_res: "keeps P (act_res r)"
  by (rule keepsI) (simp add: act_res_def)

lemma keeps_when: "keeps P m \<Longrightarrow> keeps P (act_when c m)"
  by (rule keepsI) (auto simp: act_when_def split: if_splits dest: keepsD)

lemma keeps_at: "(\<And>w. keeps P (F w)) \<Longrightarrow> keeps P (\<lambda>w. F w w)"
  unfolding keeps_def by blast

lemma keeps_maintain:
  assumes "closed P"
  shows "keeps P (stage_maintain t ent)"
proof -
  have retain: "keeps P (\<lambda>w. case op_retain_events (sg_options (fst w)) of Some n \<Rightarrow> stage_retain_last t ent n w | None \<Rightarrow> (Inr (), w))"
  proof (rule keepsI)
    fix w r w' assume P: "P (fst w)" and r: "(case op_retain_events (sg_options (fst w)) of Some n \<Rightarrow> stage_retain_last t ent n w | None \<Rightarrow> (Inr (), w)) = (r, w')"
    then show "P (fst w')"
      using keepsD [OF closed_run [OF assms, of "RetainOp t ent n" for n] P]
      by (cases "op_retain_events (sg_options (fst w))") (auto simp: stage_retain_last_def)
  qed
  have snapshot: "keeps P (act_when c (stage_snapshot t ent))" for c
    unfolding stage_snapshot_def by (intro keeps_when closed_run [OF assms]) simp
  show ?thesis
  proof (rule keepsI)
    fix w r w' assume "P (fst w)" "stage_maintain t ent w = (r, w')"
    then show "P (fst w')" unfolding stage_maintain_def by (rule keepsD [OF keeps_bind [OF snapshot retain]])
  qed
qed

lemma keeps_table_change:
  assumes "closed P" "\<And>def w r w'. P (fst w) \<Longrightarrow> stage_table (fst w) t = Inr def \<Longrightarrow> f def w = (r, w') \<Longrightarrow> P (fst w')"
  shows "keeps P (act_bind (table_for_write t) f)"
proof (rule keepsI)
  fix w r w' assume P: "P (fst w)" and r: "act_bind (table_for_write t) f w = (r, w')"
  show "P (fst w')"
  proof (cases "stage_table (fst w) t")
    case (Inl e)
    then show ?thesis using r P assms(1) by (auto simp: act_bind_def table_for_write_def closed_def)
  next
    case (Inr def)
    then have "f def w = (r, w')" using r by (simp add: act_bind_def table_for_write_def)
    then show ?thesis using assms(2) [OF P Inr] by blast
  qed
qed

lemma stored_table: "catalog_ok (sg_catalog s) \<Longrightarrow> stage_table s t = Inr def \<Longrightarrow> table_ok def"
  using catalog_table [of "sg_catalog s" t def] by (cases "map_of (sg_catalog s) t") (simp_all add: stage_table_def)

lemma table_text: "table_ok def \<Longrightarrow> table_text_ok def \<and> t_id def \<noteq> 0"
proof -
  assume t: "table_ok def"
  have "\<forall>f \<in> set (s_fields s). field_def_ok f" if "s \<in> set (t_schemas def)" for s
    using that t by (auto simp: table_ok_def schema_ok_def in_set_conv_nth [of s])
  then show ?thesis using t by (auto simp: table_ok_def table_text_ok_def)
qed

lemma run_aborted: "sg_failed (fst w) \<Longrightarrow> stage_run x w = (r, w') \<Longrightarrow> w' = w"
  by (auto simp: stage_run_def split: sum.splits)

lemma tx_run_keeps:
  assumes closed: "closed P" and typed: "call_typed c"
  shows "keeps P (tx_run c)"
proof -
  note run = closed_run [OF closed]
  have catalog: "P s \<Longrightarrow> \<not> sg_failed s \<Longrightarrow> catalog_ok (sg_catalog s)" for s using closed by (simp add: closed_def)
  show ?thesis
  proof (cases c)
    case (CreateTable name schema)
    have "keeps P (stage_create_table name schema)"
    proof (rule keepsI)
      fix w r w' assume P: "P (fst w)" and r: "stage_create_table name schema w = (r, w')"
      show "P (fst w')"
      proof (cases "checked_add64 (case bt_last_key (sg_catalog (fst w)) of None \<Rightarrow> 0 | Some k \<Rightarrow> k) 1")
        case None
        then show ?thesis using r P by (simp add: stage_create_table_def act_bind_def act_res_def)
      next
        case (Some t)
        then have "t \<noteq> 0" by (auto simp: checked_add64_Some_iff)
        then have "op_typed (TableOp \<lparr>t_id = t, t_name = name, t_schemas = [schema]\<rparr>)"
          using typed CreateTable by (simp add: table_text_ok_def)
        from keepsD [OF run [OF this] P] r Some show ?thesis
          by (auto simp: stage_create_table_def act_bind_def act_res_def split: prod.splits sum.splits)
      qed
    qed
    then show ?thesis using CreateTable by (simp add: keeps_bind keeps_res)
  next
    case (RenameTable t name)
    have op: "op_typed (TableOp (def\<lparr>t_name := name\<rparr>))" if "P s" "\<not> sg_failed s" "stage_table s t = Inr def" for s def
      using table_text [OF stored_table [OF catalog [OF that(1,2)] that(3)]] typed RenameTable by (simp add: table_text_ok_def)
    show ?thesis unfolding RenameTable tx_run.simps stage_rename_table_def
    proof (rule keeps_table_change [OF closed])
      fix def w r w' assume P: "P (fst w)" and t: "stage_table (fst w) t = Inr def"
        and r: "stage_run (TableOp (def\<lparr>t_name := name\<rparr>)) w = (r, w')"
      show "P (fst w')"
      proof (cases "sg_failed (fst w)")
        case False
        show ?thesis by (rule keepsD [OF run [OF op [OF P False t]] P r])
      qed (use run_aborted [OF _ r] P in simp)
    qed
  next
    case (AlterTable t fs)
    have op: "op_typed (TableOp (def\<lparr>t_schemas := t_schemas def @ [\<lparr>s_version = v, s_fields = fs\<rparr>]\<rparr>))"
      if "P s" "\<not> sg_failed s" "stage_table s t = Inr def" for s def v
      using table_text [OF stored_table [OF catalog [OF that(1,2)] that(3)]] typed AlterTable by (auto simp: table_text_ok_def)
    show ?thesis unfolding AlterTable tx_run.simps stage_alter_table_def
    proof (rule keeps_table_change [OF closed])
      fix def w r w' assume P: "P (fst w)" and t: "stage_table (fst w) t = Inr def"
        and r: "act_bind (act_res (ok_or (checked_add64 (s_version (table_schema def)) 1) (Invalid ''schema versions exhausted'')))
          (\<lambda>v. stage_run (TableOp (def\<lparr>t_schemas := t_schemas def @ [\<lparr>s_version = v, s_fields = fs\<rparr>]\<rparr>))) w = (r, w')"
      show "P (fst w')"
      proof (cases "checked_add64 (s_version (table_schema def)) 1")
        case None
        then show ?thesis using r P by (simp add: act_bind_def act_res_def)
      next
        case (Some v)
        then have r: "stage_run (TableOp (def\<lparr>t_schemas := t_schemas def @ [\<lparr>s_version = v, s_fields = fs\<rparr>]\<rparr>)) w = (r, w')"
          using r by (simp add: act_bind_def act_res_def)
        show ?thesis
        proof (cases "sg_failed (fst w)")
          case False
          show ?thesis by (rule keepsD [OF run [OF op [OF P False t]] P r])
        qed (use run_aborted [OF _ r] P in simp)
      qed
    qed
  qed (use typed in \<open>auto simp: stage_create_def stage_apply_def stage_delete_def stage_retain_last_def stage_snapshot_def
      intro!: run keeps_bind keeps_maintain [OF closed]\<close>)
qed

section \<open>What an operation leaves alone\<close>

definition same_frame :: "staging \<Rightarrow> staging \<Rightarrow> bool" where
  "same_frame s s' = (sg_base s' = sg_base s \<and> sg_permit s' = sg_permit s \<and> sg_options s' = sg_options s)"

lemma grown_frame: "grown w w' \<Longrightarrow> same_frame s (fst w) \<Longrightarrow> same_frame s (fst w')"
  by (auto simp: grown_def same_frame_def)

lemma keeps_grow_decoded: "keeps (same_frame s) (stage_grow_decoded n)"
  by (rule keepsI) (auto simp: stage_grow_decoded_def same_frame_def split: prod.splits sum.splits)

lemma keeps_admit: "keeps (same_frame s) (stage_admit x)"
proof -
  have *: "keeps (same_frame s) (stage_grow n)" "keeps (same_frame s) (stage_recover n)" for n
    by (auto intro!: keepsI simp: stage_grow_def stage_recover_def same_frame_def split: prod.splits sum.splits)
  show ?thesis
  proof (rule keepsI)
    fix w r w' assume P: "same_frame s (fst w)" and r: "stage_admit x w = (r, w')"
    then show "same_frame s (fst w')" unfolding stage_admit_def
      by (auto split: if_splits dest: keepsD [OF keeps_bind [OF keeps_res keeps_bind [OF keeps_res *(1)]]] keepsD [OF *(2)])
  qed
qed

lemma keeps_load: "keeps (same_frame s) (stage_load k)"
  by (rule keepsI) (auto simp: stage_load_def same_frame_def split: if_splits sum.splits option.splits prod.splits
      dest!: load_charged_grown simp: grown_def)

lemma keeps_charge_current: "keeps (same_frame s) (stage_charge_current x k)"
  by (rule keepsI) (auto simp: stage_charge_current_def split: if_splits option.splits dest: keepsD [OF keeps_grow_decoded])

lemma put_staged_fields [simp]: "sg_base (fst (put_staged k d w)) = sg_base (fst w)" "sg_permit (fst (put_staged k d w)) = sg_permit (fst w)"
    "sg_options (fst (put_staged k d w)) = sg_options (fst w)" "sg_catalog (fst (put_staged k d w)) = sg_catalog (fst w)"
    "sg_staged (fst (put_staged k d w)) = bt_insert k d (sg_staged (fst w))" "sg_operations (fst (put_staged k d w)) = sg_operations (fst w)"
    "sg_failed (fst (put_staged k d w)) = sg_failed (fst w)"
  by (cases w; simp add: put_staged_def)+

lemma keeps_change: "keeps (same_frame s) (stage_change def x k)"
  by (rule keepsI) (auto simp: stage_change_def same_frame_def split: operation.splits if_splits sum.splits option.splits)

lemma keeps_execute: "keeps (same_frame s) (stage_execute x)"
proof (cases "entity_key x")
  case None
  then obtain t where "x = TableOp t" by (cases x) auto
  then show ?thesis by (intro keepsI) (auto simp: stage_execute_def same_frame_def split: sum.splits)
next
  case (Some k)
  show ?thesis
  proof (rule keepsI)
    fix w r w' assume "same_frame s (fst w)" "stage_execute x w = (r, w')"
    then show "same_frame s (fst w')" unfolding execute_entity [OF Some]
      by (rule keepsD [OF keeps_bind [OF keeps_res keeps_bind [OF keeps_load keeps_bind [OF keeps_charge_current keeps_change]]]])
  qed
qed

lemma keeps_run: "keeps (same_frame s) (stage_run x)"
proof (rule keepsI)
  fix w r w' assume P: "same_frame s (fst w)" and r: "stage_run x w = (r, w')"
  have body: "same_frame s (fst v')" if "stage_body x w = (q, v')" for q v'
    using that unfolding stage_body_def
    by (rule keepsD [OF keeps_bind [OF keeps_res keeps_bind [OF keeps_grow_decoded keeps_bind [OF keeps_admit keeps_execute]]] P])
  show "same_frame s (fst w')"
    using r P body by (auto simp: stage_run_def same_frame_def split: sum.splits if_splits prod.splits)
qed

lemma run_frame: "stage_run x w = (r, w') \<Longrightarrow> same_frame (fst w) (fst w')"
  by (rule keepsD [OF keeps_run]) (auto simp: same_frame_def)

section \<open>Accepted operations\<close>

lemma accepted_row:
  assumes "row_text_ok fs" "normalize (table_schema def) fs c = Inr gs" "table_ok def"
  shows "fields_ok fs"
proof -
  let ?s = "table_schema def"
  have part: "conforms_partially ?s fs" using assms(2) check_entries_iff [of ?s fs] by (auto simp: normalize_def res_simps)
  have "validate_schema ?s = Inr ()" using assms(3) by (auto simp: table_ok_def schema_ok_def table_schema_def last_conv_nth)
  then have few: "length (s_fields ?s) \<le> 4096" by (auto simp: validate_schema_def split: if_splits)
  have known: "fst e \<in> f_id ` set (s_fields ?s)" "value_ok (snd e)" if "e \<in> set fs" for e
  proof -
    obtain f where f: "find_field ?s (fst e) = Some f" "value_valid (snd e) f" using part \<open>e \<in> set fs\<close> by (auto simp: conforms_partially_def)
    then show "fst e \<in> f_id ` set (s_fields ?s)" using find_field_Some [OF f(1)] by (intro image_eqI [where x = f]) simp_all
    have "case snd e of TextV v \<Rightarrow> utf8_valid v | _ \<Rightarrow> True" using assms(1) \<open>e \<in> set fs\<close> by (simp add: row_text_ok_def)
    then show "value_ok (snd e)" using f(2) by (cases "snd e") simp_all
  qed
  have "distinct (map fst fs)" using assms(1) by (auto simp: row_text_ok_def bt_ok_def strict_sorted_iff)
  then have "length fs = card (fst ` set fs)" by (metis distinct_card length_map set_map)
  also have "\<dots> \<le> card (f_id ` set (s_fields ?s))" using known(1) by (intro card_mono) auto
  also have "\<dots> \<le> length (s_fields ?s)" by (metis card_image_le card_length finite_set le_trans)
  finally show ?thesis using few known(2) assms(1) by (simp add: fields_ok_def row_text_ok_def)
qed

text \<open>What a successful operation on an entity did: the entity's data before it, loaded or staged, and after.\<close>

fun is_create :: "operation \<Rightarrow> bool" where
  "is_create (CreateOp _ _ _) = True"
| "is_create _ = False"

definition entity_step :: "operation \<Rightarrow> entity_ref \<Rightarrow> staging \<Rightarrow> staging \<Rightarrow> bool" where
  "entity_step x k s s' = (\<exists>def staged d q. map_of (sg_catalog s) (fst k) = Some def \<and> same_frame s q \<and> sg_catalog s' = sg_catalog s \<and>
     sg_operations s' = sg_operations s \<and> sg_failed s' = sg_failed s \<and>
     (staged = sg_staged s \<or> (\<exists>d0. load (sg_base s) (fst k) (snd k) = Inr (Some d0) \<and> staged = bt_insert k d0 (sg_staged s))) \<and>
     sg_staged s' = bt_insert k d staged \<and>
     ((\<exists>t ent fs e. x = CreateOp t ent fs \<and> new_entity q def ent fs = Inr e \<and> d = created_data e) \<or>
      (\<not> is_create x \<and> (\<exists>d0. map_of staged k = Some d0 \<and> change_data q def x d0 = Inr d))))"

lemma grown_step: "grown w w1 \<Longrightarrow> same_frame (fst w) (fst w1) \<and> sg_catalog (fst w1) = sg_catalog (fst w) \<and> sg_staged (fst w1) = sg_staged (fst w) \<and>
    sg_operations (fst w1) = sg_operations (fst w) \<and> sg_failed (fst w1) = sg_failed (fst w)"
  by (auto simp: grown_def same_frame_def)

lemma load_step:
  assumes "stage_load k w = (Inr (), w1)"
  shows "same_frame (fst w) (fst w1) \<and> sg_catalog (fst w1) = sg_catalog (fst w) \<and> sg_operations (fst w1) = sg_operations (fst w) \<and>
    sg_failed (fst w1) = sg_failed (fst w) \<and> (sg_staged (fst w1) = sg_staged (fst w) \<or>
      (\<exists>d0. load (sg_base (fst w)) (fst k) (snd k) = Inr (Some d0) \<and> sg_staged (fst w1) = bt_insert k d0 (sg_staged (fst w))))"
proof (cases "bt_has (sg_staged (fst w)) k \<or> \<not> bt_has (rs_catalog (sg_base (fst w))) (fst k)")
  case True
  then show ?thesis using assms by (simp add: stage_load_def same_frame_def)
next
  case False
  then obtain d v where l: "load_charged (sg_base (fst w)) (fst k) (snd k) stage_charge w = Inr (d, v)"
    using assms by (auto simp: stage_load_def split: sum.splits)
  note v = grown_step [OF load_charged_grown [OF l]] and free = load_charged_free [OF l]
  show ?thesis
  proof (cases d)
    case None
    then show ?thesis using assms False l v by (simp add: stage_load_def)
  next
    case (Some x)
    then show ?thesis using assms False l v free by (cases v) (auto simp: stage_load_def same_frame_def)
  qed
qed

lemma charge_current_grown: "stage_charge_current x k w = (Inr (), w1) \<Longrightarrow> grown w w1"
  by (auto simp: stage_charge_current_def dest: grow_decoded_grown split: if_splits option.splits)

lemma change_step:
  assumes "stage_change def x k w = (Inr (), w1)"
  obtains d where "w1 = put_staged k d w" "(\<exists>t ent fs e. x = CreateOp t ent fs \<and> new_entity (fst w) def (snd k) fs = Inr e \<and> d = created_data e) \<or>
      (\<not> is_create x \<and> (\<exists>d0. map_of (sg_staged (fst w)) k = Some d0 \<and> change_data (fst w) def x d0 = Inr d))"
proof (cases "\<exists>t ent fs. x = CreateOp t ent fs")
  case True
  then obtain t ent fs where x: "x = CreateOp t ent fs" by blast
  then obtain e where "new_entity (fst w) def (snd k) fs = Inr e" "w1 = put_staged k (created_data e) w"
    using assms by (auto simp: stage_change_def split: if_splits sum.splits)
  then show thesis using x that by blast
next
  case False
  then obtain d0 d where "map_of (sg_staged (fst w)) k = Some d0" "change_data (fst w) def x d0 = Inr d" "w1 = put_staged k d w"
    using assms by (cases x) (auto simp: stage_change_def split: option.splits sum.splits)
  moreover have "\<not> is_create x" using False by (cases x) auto
  ultimately show thesis using that by blast
qed

lemma execute_step:
  assumes k: "entity_key x = Some k" and w: "stage_execute x w = (Inr (), w')"
  shows "entity_step x k (fst w) (fst w')"
proof -
  obtain def w1 w2 where s: "stage_table (fst w) (fst k) = Inr def" "stage_load k w = (Inr (), w1)"
      "stage_charge_current x k w1 = (Inr (), w2)" "stage_change def x k w2 = (Inr (), w')"
    using w by (auto simp: execute_entity [OF k] act_simps)
  have def: "map_of (sg_catalog (fst w)) (fst k) = Some def" using s(1) by (simp add: stage_table_def res_simps)
  note l = load_step [OF s(2)] and g = grown_step [OF charge_current_grown [OF s(3)]]
  have frame: "same_frame (fst w) (fst w2)" using l g by (simp add: same_frame_def)
  obtain d where d: "w' = put_staged k d w2" "(\<exists>t ent fs e. x = CreateOp t ent fs \<and> new_entity (fst w2) def (snd k) fs = Inr e \<and> d = created_data e) \<or>
      (\<not> is_create x \<and> (\<exists>d0. map_of (sg_staged (fst w2)) k = Some d0 \<and> change_data (fst w2) def x d0 = Inr d))"
    using change_step [OF s(4)] by blast
  have ent: "ent = snd k" if "x = CreateOp t ent fs" for t ent fs using that k by auto
  show ?thesis unfolding entity_step_def
    using def frame d l g ent by (intro exI [of _ def] exI [of _ "sg_staged (fst w2)"] exI [of _ d] exI [of _ "fst w2"]) (auto simp: same_frame_def)
qed

text \<open>The steps of a successful operation.\<close>

lemma run_step:
  assumes "stage_run x w = (Inr (), w')"
  obtains w3 w4 where "\<not> sg_failed (fst w)" "grown w w3" "stage_execute x w3 = (Inr (), w4)"
    "fst w' = (fst w4)\<lparr>sg_operations := sg_operations (fst w4) @ [x]\<rparr>"
proof -
  obtain s u where b: "\<not> sg_failed (fst w)" "stage_body x w = (Inr (), (s, u))" "w' = (s\<lparr>sg_operations := sg_operations s @ [x]\<rparr>, u)"
    using assms by (auto simp: stage_run_def split: sum.splits if_splits prod.splits)
  obtain a w2 w3 where e: "stage_grow_decoded a w = (Inr (), w2)" "stage_admit x w2 = (Inr (), w3)" "stage_execute x w3 = (Inr (), (s, u))"
    using b(2) by (auto simp: stage_body_def act_simps)
  show thesis
    by (rule that [OF b(1) grown_trans [OF grow_decoded_grown [OF e(1)] admit_grown [OF e(2)]] e(3)]) (simp add: b(3))
qed

lemma run_failed: "stage_run x w = (Inl e, w') \<Longrightarrow> w' = w \<or> sg_failed (fst w')"
  by (auto simp: stage_run_def split: sum.splits if_splits prod.splits)

section \<open>Staging areas no call has failed on\<close>

text \<open>
  Entities a committed state hands out: no events of a running transaction, and older history, if
  it is on disk, in the state's own checkpoint.
\<close>

definition base_ok :: "readstate \<Rightarrow> bool" where
  "base_ok b = (catalog_ok (rs_catalog b) \<and> om_inv (ov_entries (rs_overlay b)) \<and>
     (\<forall>k d. overlay_get (rs_overlay b) k = Some d \<longrightarrow> ed_events d = [] \<and> (\<forall>disk. ed_disk d = Some disk \<longrightarrow> dh_root disk = rs_root b)))"

definition data_fresh :: "readstate \<Rightarrow> entity_data \<Rightarrow> bool" where
  "data_fresh b d = ((\<forall>e \<in> set (ed_events d). checked_add64 (rs_lsn b) 1 = Some (ev_transaction e)) \<and>
     (\<forall>disk. ed_disk d = Some disk \<longrightarrow> dh_root disk = rs_root b))"

lemma root_entity_fresh: "root_entity r st t ent = Inr (Some d) \<Longrightarrow> ed_events d = [] \<and> (\<forall>disk. ed_disk d = Some disk \<longrightarrow> dh_root disk = r)"
  by (auto simp: root_entity_def entity_charged_def res_simps split: option.splits if_splits)

lemma load_fresh:
  assumes "base_ok b" "load b t ent = Inr (Some d)"
  shows "ed_events d = [] \<and> data_fresh b d"
proof (cases "overlay_get (rs_overlay b) (t, ent)")
  case None
  then have "root_entity (rs_root b) (rs_store b) t ent = Inr (Some d)"
    using assms(2) by (auto simp: load_def load_charged_def root_entity_def res_simps)
  then show ?thesis using root_entity_fresh by (auto simp: data_fresh_def)
next
  case (Some x)
  then have "d = x" using assms(2) by (auto simp: load_def load_charged_def Let_def res_simps)
  then show ?thesis using assms(1) Some by (auto simp: base_ok_def data_fresh_def)
qed

lemma change_fresh:
  assumes "change_data q def x d0 = Inr d" "data_fresh b d0" "sg_base q = b"
  shows "data_fresh b d"
proof -
  have event: "data_fresh b d1" if "add_event q def ent d0 kind fs = Inr d1" for ent kind fs d1
    using that assms(2,3) by (auto simp: add_event_def new_event_def push_event_def data_fresh_def res_simps split: if_splits)
  have retain: "data_fresh b d1" if "entity_retain d0 def n = Inr d1" for n d1
    using that assms(2) by (auto simp: retain_drop drop_before_def data_fresh_def Let_def res_simps split: if_splits)
  show ?thesis
  proof (cases x)
    case (ApplyOp t ent fs)
    then obtain gs where "add_event q def ent d0 ApplyEvent gs = Inr d" using assms(1) by (auto simp: res_simps)
    then show ?thesis by (rule event)
  next
    case (DeleteOp t ent)
    then show ?thesis using assms(1) event by simp
  next
    case (RetainOp t ent n)
    then show ?thesis using assms(1) retain by simp
  qed (use assms(1,2) in \<open>simp_all add: keep_snapshot_def data_fresh_def\<close>, (use assms(1,2) in \<open>auto simp: data_fresh_def\<close>)?)
qed

definition tx_facts :: "readstate \<Rightarrow> staging \<Rightarrow> bool" where
  "tx_facts b s = (sg_base s = b \<and> sg_permit s \<and> (\<not> sg_failed s \<longrightarrow> catalog_ok (sg_catalog s) \<and>
     list_all op_ok (sg_operations s) \<and>
     (\<forall>x \<in> set (sg_operations s). \<forall>k. entity_key x = Some k \<longrightarrow> bt_has (sg_staged s) k) \<and>
     (\<forall>e \<in> set (sg_staged s). data_fresh b (snd e)) \<and>
     ((\<forall>x \<in> set (sg_operations s). entity_key x \<noteq> None) \<longrightarrow> sg_catalog s = rs_catalog b)))"

lemma tx_facts_execute:
  assumes b: "base_ok b" and f: "tx_facts b s" "\<not> sg_failed s" and x: "op_typed x"
    and w: "fst w = s" "stage_execute x w = (Inr (), w')"
  shows "tx_facts b ((fst w')\<lparr>sg_operations := sg_operations s @ [x]\<rparr>) \<and> sg_operations (fst w') = sg_operations s"
proof (cases "entity_key x")
  case None
  then obtain t where t: "x = TableOp t" by (cases x) auto
  have v: "validate_table_change (sg_catalog s) t = Inr ()" "fst w' = s\<lparr>sg_catalog := bt_insert (t_id t) t (sg_catalog s)\<rparr>"
    using w t by (auto simp: stage_execute_def split: sum.splits)
  have "catalog_ok (sg_catalog s)" using f by (simp add: tx_facts_def)
  then have "catalog_ok (bt_insert (t_id t) t (sg_catalog s))" "table_ok t"
    using x t catalog_change_ok [OF _ v(1)] change_table_ok [OF _ v(1)] by auto
  then show ?thesis using f v(2) t None by (auto simp: tx_facts_def)
next
  case (Some k)
  have "entity_step x k s (fst w')" using execute_step [OF Some w(2)] w(1) by simp
  then obtain def staged d q where e: "map_of (sg_catalog s) (fst k) = Some def" "same_frame s q" "sg_catalog (fst w') = sg_catalog s"
     "sg_operations (fst w') = sg_operations s" "sg_failed (fst w') = sg_failed s"
     "staged = sg_staged s \<or> (\<exists>d0. load (sg_base s) (fst k) (snd k) = Inr (Some d0) \<and> staged = bt_insert k d0 (sg_staged s))"
     "sg_staged (fst w') = bt_insert k d staged"
     "(\<exists>t ent fs e. x = CreateOp t ent fs \<and> new_entity q def ent fs = Inr e \<and> d = created_data e) \<or>
      (\<not> is_create x \<and> (\<exists>d0. map_of staged k = Some d0 \<and> change_data q def x d0 = Inr d))"
    unfolding entity_step_def by (elim exE conjE) (rule that, assumption+)
  have "same_frame s (fst w)" using w(1) by (simp add: same_frame_def)
  then have frame: "same_frame s (fst w')" using w(2) by (rule keepsD [OF keeps_execute])
  have base: "sg_base s = b" "sg_base q = b" using f(1) e(2) by (simp_all add: tx_facts_def same_frame_def)
  have old: "\<forall>c \<in> set (sg_staged s). data_fresh b (snd c)" using f by (simp add: tx_facts_def)
  have fresh: "data_fresh b (snd c)" if "c \<in> set staged" for c
    using e(6)
  proof (elim disjE exE conjE)
    fix d0 assume d0: "load (sg_base s) (fst k) (snd k) = Inr (Some d0)" "staged = bt_insert k d0 (sg_staged s)"
    have "c \<in> set (bt_insert k d0 (sg_staged s))" using that d0(2) by simp
    then have "c \<in> insert (k, d0) (set (sg_staged s))" by (rule subsetD [OF set_bt_insert])
    moreover have "data_fresh b d0" using load_fresh [OF b, of "fst k" "snd k" d0] d0(1) base(1) by simp
    ultimately show ?thesis using old by auto
  qed (use that old in simp)
  have kept: "bt_has staged j" if "bt_has (sg_staged s) j" for j
    using e(6) that by (auto simp: bt_has_def)
  have d: "data_fresh b d" using e(8)
  proof (elim disjE exE conjE)
    fix d0 assume "map_of staged k = Some d0" "change_data q def x d0 = Inr d"
    then show ?thesis using change_fresh [of q def x d0 d b] fresh [OF map_of_SomeD] base(2) by simp
  qed (auto simp: data_fresh_def created_data_def)
  have "table_ok def" using f catalog_table [OF _ e(1)] by (simp add: tx_facts_def)
  note row = accepted_row [OF _ _ this]
  have ok: "op_ok x"
  proof (cases x)
    case (CreateOp t ent fs)
    then obtain e where "new_entity q def ent fs = Inr e" using e(8) by auto
    then show ?thesis using x CreateOp row by (auto simp: new_entity_def res_simps)
  next
    case (ApplyOp t ent fs)
    then obtain d0 where "change_data q def (ApplyOp t ent fs) d0 = Inr d" using e(8) by blast
    then show ?thesis using x ApplyOp row by (auto simp: change_fields_def res_simps split: if_splits)
  qed (use Some in auto)
  have "data_fresh b (snd c)" if "c \<in> set (sg_staged (fst w'))" for c
  proof -
    have "c \<in> set (bt_insert k d staged)" using that e(7) by simp
    then have "c \<in> insert (k, d) (set staged)" by (rule subsetD [OF set_bt_insert])
    then show ?thesis using fresh [of c] d by (cases "c = (k, d)") simp_all
  qed
  moreover have "bt_has (sg_staged (fst w')) j" if "bt_has (sg_staged s) j \<or> j = k" for j
    using that kept [of j] by (cases "j = k") (simp_all add: e(7) bt_has_def)
  ultimately show ?thesis using f e(3,4,5) ok Some frame by (auto simp: tx_facts_def same_frame_def)
qed

lemma tx_facts_grown: "grown w w1 \<Longrightarrow> tx_facts b (fst w1) = tx_facts b (fst w)"
  by (auto simp: grown_def tx_facts_def)

lemma tx_facts_closed:
  assumes b: "base_ok b"
  shows "closed (tx_facts b)"
  unfolding closed_def
proof (intro conjI allI impI)
  fix x assume x: "op_typed x"
  show "keeps (tx_facts b) (stage_run x)"
  proof (rule keepsI)
    fix w r w' assume P: "tx_facts b (fst w)" and r: "stage_run x w = (r, w')"
    have frame: "same_frame (fst w) (fst w')" by (rule run_frame [OF r])
    show "tx_facts b (fst w')"
    proof (cases r)
      case (Inl e)
      then consider "w' = w" | "sg_failed (fst w')" using run_failed r by blast
      then show ?thesis
      proof cases
        case 2
        then show ?thesis using 2 P frame by (simp add: tx_facts_def same_frame_def)
      qed (use P in simp)
    next
      case (Inr y)
      then have run: "stage_run x w = (Inr (), w')" using r by simp
      obtain w3 w4 where s: "\<not> sg_failed (fst w)" "grown w w3" "stage_execute x w3 = (Inr (), w4)"
          "fst w' = (fst w4)\<lparr>sg_operations := sg_operations (fst w4) @ [x]\<rparr>"
        by (rule run_step [OF run])
      have "tx_facts b (fst w3)" "\<not> sg_failed (fst w3)" using P s(1) tx_facts_grown [OF s(2)] grown_step [OF s(2)] by simp_all
      from tx_facts_execute [OF b this x refl s(3)] s(4) show ?thesis by simp
    qed
  qed
qed (auto simp: tx_facts_def)

section \<open>Replaying a transaction\<close>

text \<open>
  \<open>ready_for K n b r\<close>: a recovery transaction that has just begun, over a base from which the
  entities \<open>K\<close> are loaded as from \<open>b\<close> and whose next sequence number is \<open>n\<close>.
\<close>

definition ready_for :: "entity_ref set \<Rightarrow> u64 \<Rightarrow> readstate \<Rightarrow> staging \<Rightarrow> bool" where
  "ready_for K n b r = (sg_catalog r = rs_catalog b \<and> sg_staged r = [] \<and> sg_operations r = [] \<and> \<not> sg_failed r \<and> \<not> sg_permit r \<and>
     rs_catalog (sg_base r) = rs_catalog b \<and> state_ready (sg_base r) = Inr () \<and> checked_add64 (rs_lsn (sg_base r)) 1 = Some n \<and>
     loads_alike K b (sg_base r))"

definition tx_replays :: "readstate \<Rightarrow> staging \<Rightarrow> bool" where
  "tx_replays b s = (sg_base s = b \<and> (\<not> sg_failed s \<longrightarrow> (\<forall>K n w. ready_for K n b (fst w) \<longrightarrow>
     (\<forall>x \<in> set (sg_operations s). \<forall>k. entity_key x = Some k \<longrightarrow> k \<in> K) \<longrightarrow>
     (\<exists>w'. stage_all (sg_operations s) w = (Inr (), w') \<and> sim K n s (fst w')))))"

lemma stage_all_append: "stage_all (xs @ [x]) w = act_bind (stage_all xs) (\<lambda>_. stage_run x) w"
proof (induction xs arbitrary: w)
  case Nil
  show ?case by (auto simp: act_bind_def split: sum.splits prod.splits)
next
  case (Cons y xs)
  show ?case by (auto simp: act_bind_def Cons.IH split: sum.splits prod.splits)
qed

lemma run_operations: "stage_run x w = (Inr (), w') \<Longrightarrow> sg_operations (fst w') = sg_operations (fst w) @ [x] \<and> \<not> sg_failed (fst w)"
proof -
  assume r: "stage_run x w = (Inr (), w')"
  obtain w3 w4 where s: "\<not> sg_failed (fst w)" "grown w w3" "stage_execute x w3 = (Inr (), w4)"
      "fst w' = (fst w4)\<lparr>sg_operations := sg_operations (fst w4) @ [x]\<rparr>"
    by (rule run_step [OF r])
  have "sg_operations (fst w4) = sg_operations (fst w3)"
  proof (cases "entity_key x")
    case None
    then obtain t where "x = TableOp t" by (cases x) auto
    then show ?thesis using s(3) by (auto simp: stage_execute_def split: sum.splits)
  next
    case (Some k)
    then show ?thesis using execute_step [OF Some s(3)] by (auto simp: entity_step_def)
  qed
  then show ?thesis using s grown_step [OF s(2)] by simp
qed

lemma tx_replays_run: "keeps (tx_replays b) (stage_run x)"
proof (rule keepsI)
  fix w r w' assume P: "tx_replays b (fst w)" and r: "stage_run x w = (r, w')"
  have base: "sg_base (fst w') = b" using P run_frame [OF r] by (simp add: tx_replays_def same_frame_def)
  show "tx_replays b (fst w')"
  proof (cases r)
    case (Inl e)
    then consider "w' = w" | "sg_failed (fst w')" using run_failed r by blast
    then show ?thesis using P base by cases (simp_all add: tx_replays_def)
  next
    case (Inr y)
    then have run: "stage_run x w = (Inr (), w')" using r by simp
    note ops = run_operations [OF run]
    have "\<exists>v'. stage_all (sg_operations (fst w')) v = (Inr (), v') \<and> sim K n (fst w') (fst v')"
      if v: "ready_for K n b (fst v)" and K: "\<forall>x \<in> set (sg_operations (fst w')). \<forall>k. entity_key x = Some k \<longrightarrow> k \<in> K" for K n v
    proof -
      have "\<forall>x \<in> set (sg_operations (fst w)). \<forall>k. entity_key x = Some k \<longrightarrow> k \<in> K" using K ops by simp
      then obtain v1 where v1: "stage_all (sg_operations (fst w)) v = (Inr (), v1)" "sim K n (fst w) (fst v1)"
        using P ops v unfolding tx_replays_def by blast
      have "follows K n (stage_run x)" by (rule follows_run) (use K ops in auto)
      then obtain v2 where "stage_run x v1 = (Inr (), v2)" "sim K n (fst w') (fst v2)" using followsD run v1(2) by blast
      then show ?thesis using v1(1) ops by (auto simp: stage_all_append act_bind_def)
    qed
    then show ?thesis unfolding tx_replays_def using base by blast
  qed
qed

text \<open>
  A transaction: its staging area begins over a committed state, and every step is a call of the
  interface. The counters it shares with others may change between calls.
\<close>

inductive tx_reach :: "readstate \<Rightarrow> staging \<Rightarrow> bool" where
  start: "staging_new b options pinned False u = Inr (s, u') \<Longrightarrow> tx_reach b s"
| call: "tx_reach b s \<Longrightarrow> call_typed c \<Longrightarrow> tx_run c (s, u) = (r, (s', u')) \<Longrightarrow> tx_reach b s'"

definition tx_inv :: "readstate \<Rightarrow> staging \<Rightarrow> bool" where
  "tx_inv b s = (tx_facts b s \<and> tx_replays b s)"

lemma tx_inv_closed: "base_ok b \<Longrightarrow> closed (tx_inv b)"
proof -
  assume b: "base_ok b"
  have facts: "op_typed x \<Longrightarrow> keeps (tx_facts b) (stage_run x)" for x using tx_facts_closed [OF b] by (simp add: closed_def)
  have "keeps (tx_inv b) (stage_run x)" if "op_typed x" for x
    using facts [OF that] tx_replays_run [of b x] unfolding keeps_def tx_inv_def by blast
  then show ?thesis using tx_facts_closed [OF b] by (auto simp: closed_def tx_inv_def tx_replays_def)
qed

lemma staging_new_fields:
  assumes "staging_new b options pinned recovery u = Inr (s, u')"
  shows "sg_base s = b \<and> sg_options s = options \<and> sg_pinned s = pinned \<and> sg_permit s = (\<not> recovery) \<and> sg_catalog s = rs_catalog b \<and>
    sg_staged s = [] \<and> sg_operations s = [] \<and> \<not> sg_failed s"
  using assms by (auto simp: staging_new_def res_simps split: if_splits)

lemma tx_inv_begin:
  assumes "base_ok b" "staging_new b options pinned False u = Inr (s, u')"
  shows "tx_inv b s"
proof -
  note f = staging_new_fields [OF assms(2)]
  have "tx_facts b s" using f assms(1) by (simp add: tx_facts_def base_ok_def)
  moreover have "sim K n s (fst w)" if "ready_for K n b (fst w)" for K n w
    using that f by (simp add: sim_def ready_for_def staged_alike_def)
  ultimately show ?thesis using f by (auto simp: tx_inv_def tx_replays_def simp del: split_paired_Ex)
qed

lemma tx_reach_inv: "tx_reach b s \<Longrightarrow> base_ok b \<Longrightarrow> tx_inv b s"
proof (induction rule: tx_reach.induct)
  case (call b s c u r s' u')
  have "keeps (tx_inv b) (tx_run c)" by (rule tx_run_keeps [OF tx_inv_closed [OF call.prems] call.hyps(2)])
  from keepsD [OF this _ call.hyps(3)] call.IH [OF call.prems] show ?case by simp
qed (rule tx_inv_begin)

end
