(* ===== verification/Shared.thy ===== *)
theory Shared
  imports Commit
begin

text \<open>
  Models the commit coordinator of \<^verbatim>\<open>shared.rs\<close>: first-committer-wins validation of the batches a
  leader claimed, their commit as one group, and the revisions that later validations read. The
  leader holds the coordinator's lock throughout, so one run is one step; claiming and handing out
  results are the operations of the commit queue.
\<close>

section \<open>Options of a transaction\<close>

record transaction_options =
  to_isolation :: isolation_level
  to_timeout :: "duration option"
  to_idle_timeout :: "duration option"

definition transaction_options_default :: transaction_options where
  "transaction_options_default = \<lparr>to_isolation = SnapshotLevel, to_timeout = None, to_idle_timeout = None\<rparr>"

definition with_isolation :: "isolation_level \<Rightarrow> transaction_options" where
  "with_isolation level = transaction_options_default\<lparr>to_isolation := level\<rparr>"

text \<open>The total and idle lifetime of a transaction: the shorter of what is asked for and the default.\<close>

definition requested_timeouts :: "transaction_options \<Rightarrow> timeouts \<Rightarrow> duration \<times> duration" where
  "requested_timeouts r t =
     (case to_timeout r of None \<Rightarrow> Deadline.to_transaction t | Some d \<Rightarrow> min d (Deadline.to_transaction t),
      case to_idle_timeout r of None \<Rightarrow> to_idle_transaction t | Some d \<Rightarrow> min d (to_idle_transaction t))"

text \<open>The checks before a shared or local transaction starts.\<close>

definition begin_allowed :: "transaction_options \<Rightarrow> readstate \<Rightarrow> unit res" where
  "begin_allowed r published =
     (if to_isolation r \<noteq> SnapshotLevel then Inl (UnsupportedIsolation (to_isolation r)) else state_ready published)"

section \<open>The coordinator\<close>

record coordinator =
  co_database :: database
  co_revisions :: "(entity_ref, u64) btree"
  co_catalog_revision :: u64

definition from_database :: "database \<Rightarrow> coordinator" where
  "from_database db = \<lparr>co_database = db\<lparr>db_shared_mode := True\<rparr>, co_revisions = [], co_catalog_revision = 0\<rparr>"

text \<open>Drops the revisions no transaction still running can conflict with.\<close>

definition prune_revisions :: "u64 option \<Rightarrow> coordinator \<Rightarrow> coordinator" where
  "prune_revisions oldest c =
     (let oldest = (case oldest of Some n \<Rightarrow> n | None \<Rightarrow> sequence (co_database c)) in
      c\<lparr>co_revisions := filter (\<lambda>e. snd e > oldest) (co_revisions c)\<rparr>)"

section \<open>Validation\<close>

definition conflicting :: "coordinator \<Rightarrow> (entity_ref, u64) btree \<Rightarrow> prepared \<Rightarrow> entity_ref \<Rightarrow> bool" where
  "conflicting c group_keys p k = (case map_of group_keys k of
       Some n \<Rightarrow> n > pr_base_sequence p
     | None \<Rightarrow> (case map_of (co_revisions c) k of Some n \<Rightarrow> n > pr_base_sequence p | None \<Rightarrow> False))"

definition validate_batch :: "coordinator \<Rightarrow> (entity_ref, u64) btree \<Rightarrow> u64 \<Rightarrow> instant \<Rightarrow> prepared \<Rightarrow> unit res" where
  "validate_batch c group_keys catalog_revision now p =
     res_bind (db_ready (co_database c)) (\<lambda>_.
     res_bind (deadline_check (pr_deadline p) now) (\<lambda>_.
       if catalog_revision > pr_base_sequence p then Inl (Conflict None None)
       else (case find (conflicting c group_keys p) (pr_keys p) of
           Some k \<Rightarrow> Inl (Conflict (Some (fst k)) (Some (snd k)))
         | None \<Rightarrow> Inr ())))"

text \<open>
  The loop over the claimed batches: the completed tickets, what was noted of the accepted batches
  (their tickets, keys and whether they change the catalog) and the batches themselves.
\<close>

type_synonym metadata = "ticket \<times> entity_ref list \<times> bool"

fun accept_batches :: "coordinator \<Rightarrow> (nat \<Rightarrow> instant) \<Rightarrow> nat \<Rightarrow> (entity_ref, u64) btree \<Rightarrow> u64 \<Rightarrow> (ticket \<times> prepared) list \<Rightarrow>
    (ticket \<times> u64 res) list \<times> metadata list \<times> prepared list" where
  "accept_batches c clock t group_keys revision [] = ([], [], [])"
| "accept_batches c clock t group_keys revision ((tk, p) # ps) =
     (case validate_batch c group_keys revision (clock t) p of
        Inl e \<Rightarrow> (case accept_batches c clock (Suc t) group_keys revision ps of
            (completed, metadata, accepted) \<Rightarrow> ((tk, Inl e) # completed, metadata, accepted))
      | Inr _ \<Rightarrow> (case accept_batches c clock (Suc t) (fold (\<lambda>k m. bt_insert k (- 1) m) (pr_keys p) group_keys)
              (if changes_catalog p then - 1 else revision) ps of
            (completed, metadata, accepted) \<Rightarrow> (completed, (tk, pr_keys p, changes_catalog p) # metadata, p # accepted)))"

text \<open>The revisions of what was committed, and the tickets' results.\<close>

fun record_results :: "(metadata \<times> u64 res) list \<Rightarrow> coordinator \<Rightarrow> coordinator" where
  "record_results [] c = c"
| "record_results (((tk, keys, catalog), r) # rs) c =
     record_results rs (case r of
        Inl _ \<Rightarrow> c
      | Inr n \<Rightarrow> c\<lparr>co_revisions := fold (\<lambda>k m. bt_insert k n m) keys (co_revisions c),
                   co_catalog_revision := (if catalog then n else co_catalog_revision c)\<rparr>)"

text \<open>
  What a leader does with the batches it claimed. \<open>oldest\<close> is the sequence number of the oldest
  pinned state. The result is what the tickets get, the coordinator left behind and whether a
  checkpoint is due.
\<close>

definition run_group :: "(database \<Rightarrow> unit res \<times> database) \<Rightarrow> (nat \<Rightarrow> instant) \<Rightarrow> (nat \<Rightarrow> instant) \<Rightarrow> (io_error \<times> nat) option \<Rightarrow>
    u64 option \<Rightarrow> (ticket \<times> prepared) list \<Rightarrow> resource_usage \<Rightarrow> coordinator \<Rightarrow>
    ((ticket \<times> u64 res) list \<times> coordinator \<times> bool) option" where
  "run_group ckpt clock commit_clock io oldest claimed u c =
     (case accept_batches c clock 0 [] (co_catalog_revision c) claimed of
        (completed, metadata, accepted) \<Rightarrow>
          (case commit_group ckpt commit_clock io accepted u (co_database c) of
             None \<Rightarrow> None
           | Some (results, db) \<Rightarrow>
               let before = checkpoint_generation (co_database c);
                   c = record_results (zip metadata results) (c\<lparr>co_database := db\<rparr>);
                   c = (if checkpoint_generation db \<noteq> before then prune_revisions oldest c else c) in
               Some (completed @ zip (map fst metadata) results, c, maintenance_due db)))"

section \<open>Committing through the queue\<close>

text \<open>What \<^verbatim>\<open>commit\<close> does before it waits: batches without operations are answered at once.\<close>

definition submit_commit :: "limits \<Rightarrow> instant \<Rightarrow> ticket \<Rightarrow> prepared \<Rightarrow> readstate \<Rightarrow> prepared queue \<Rightarrow> (u64 + ticket) res \<times> prepared queue" where
  "submit_commit l now t p published q =
     (case state_ready published of
        Inl e \<Rightarrow> (Inl e, q)
      | Inr _ \<Rightarrow>
          if pr_is_empty p then (Inr (Inl (pr_base_sequence p)), q)
          else (case deadline_check (pr_deadline p) now of
              Inl e \<Rightarrow> (Inl e, q)
            | Inr _ \<Rightarrow> (case queue_submit l t p (pr_bytes p) q of
                  Inl e \<Rightarrow> (Inl e, q)
                | Inr q \<Rightarrow> (Inr (Inr t), q))))"

text \<open>One turn of the waiting loop: a result, a cancellation, leading a group, or waiting on.\<close>

datatype turn = Answered "u64 res" | Cancelled | Leads | Waits

definition commit_turn :: "instant \<Rightarrow> instant option \<Rightarrow> ticket \<Rightarrow> 'b queue \<Rightarrow> (turn \<times> 'b queue) option" where
  "commit_turn now deadline t q = (case queue_take t q of
       (Some r, q) \<Rightarrow> Some (Answered r, q)
     | (None, q) \<Rightarrow>
         (case (if reached deadline now then queue_cancel t q else Some (False, q)) of
            None \<Rightarrow> None
          | Some (True, q) \<Rightarrow> Some (Cancelled, q)
          | Some (False, q) \<Rightarrow>
              if q_running q then Some (Waits, q) else Some (Leads, q\<lparr>q_running := True\<rparr>)))"

text \<open>
  A leader that stops before it has answered its tickets hands the leadership back: every ticket it
  claimed learns that the database needs recovery.
\<close>

definition leadership_drop :: "bool \<Rightarrow> ticket list \<Rightarrow> 'b queue \<Rightarrow> 'b queue option" where
  "leadership_drop armed tickets q = (if armed then queue_finish (map (\<lambda>t. (t, Inl NeedsRecovery)) tickets) q else Some q)"

end
