(* ===== verification/Commit_Laws.thy ===== *)
theory Commit_Laws
  imports Commit "HOL-Library.Sublist"
begin

text \<open>
  The laws of the group commit itself: the loop over deadlines ends, every batch gets exactly one
  result, and a sequence number is acknowledged only with the batch's frame in the log.
\<close>

section \<open>Stamping and numbering\<close>

lemma stamped_fields_batch [simp]: "pr_operations (stamp_batch n p) = pr_operations p" "pr_catalog (stamp_batch n p) = pr_catalog p"
    "pr_base_sequence (stamp_batch n p) = pr_base_sequence p" "pr_keys (stamp_batch n p) = pr_keys p" "pr_deadline (stamp_batch n p) = pr_deadline p"
    "pr_reservation (stamp_batch n p) = pr_reservation p"
  by (simp_all add: stamp_batch_def pr_keys_def comp_def)

lemma unat_next: "offset + 1 < 2 ^ 64 \<Longrightarrow> unat (of_nat offset + 1 :: u64) = offset + 1"
proof -
  assume "offset + 1 < 2 ^ 64"
  moreover have "of_nat offset + 1 = (of_nat (Suc offset) :: u64)" by simp
  ultimately show ?thesis by (simp add: unat_of_nat del: of_nat_Suc)
qed

lemma next_number:
  assumes "checked_add64 lsn (of_nat offset + 1) = Some n" "unat a = unat lsn + offset" "offset + 1 < 2 ^ 64"
  shows "n = lsn + of_nat offset + 1" "checked_add64 a 1 = Some n" "unat n = unat lsn + Suc offset"
proof -
  note off = unat_next [OF assms(3)]
  show "n = lsn + of_nat offset + 1" using assms(1) by (auto simp: checked_add64_def add.assoc split: if_splits)
  show *: "unat n = unat lsn + Suc offset" using assms(1) off by (simp add: checked_add64_Some_iff)
  show "checked_add64 a 1 = Some n" using * assms(2) by (simp add: checked_add64_Some_iff)
qed

section \<open>The loop over deadlines\<close>

text \<open>What the loop hands on is some of the batches, stamped as if they had been encoded once.\<close>

definition stamped_of :: "nat \<times> prepared \<Rightarrow> nat \<times> prepared \<Rightarrow> bool" where
  "stamped_of q p = (fst p = fst q \<and> (snd p = snd q \<or> (\<exists>m > pr_base_sequence (snd q). snd p = stamp_batch m (snd q))))"

lemma stamp_again: "m > pr_base_sequence q \<Longrightarrow> stamp_batch n (stamp_batch m q) = stamp_batch n q"
  by (auto simp: stamp_batch_def stamp_data_def comp_def)

lemma frames_stamped:
  "list_all2 stamped_of qs ps \<Longrightarrow> group_frames lsn offset ps = group_frames lsn offset qs"
proof (induction qs ps arbitrary: offset rule: list_all2_induct)
  case (Cons q qs p ps)
  have "pr_operations (snd p) = pr_operations (snd q)" "\<And>n. stamp_batch n (snd p) = stamp_batch n (snd q)"
    using Cons.hyps(1) by (auto simp: stamped_of_def stamp_again)
  then show ?case using Cons.hyps(1) Cons.IH by (cases p; cases q) (simp add: stamped_of_def)
qed simp

lemma frames_stamp:
  assumes "group_frames lsn offset qs = Inr (ps, frs)" "\<forall>q \<in> set qs. pr_base_sequence (snd q) \<le> lsn" "offset + length qs < 2 ^ 64"
  shows "list_all2 stamped_of qs ps"
  using assms
proof (induction qs arbitrary: offset ps frs)
  case (Cons iq qs)
  obtain i q where iq: "iq = (i, q)" by (cases iq)
  obtain n ps1 frs1 where g: "checked_add64 lsn (of_nat offset + 1) = Some n" "group_frames lsn (Suc offset) qs = Inr (ps1, frs1)"
      "ps = (i, stamp_batch n q) # ps1"
    using Cons.prems(1) by (auto simp: iq res_simps)
  have "unat (of_nat offset + 1 :: u64) = offset + 1" by (rule unat_next) (use Cons.prems(3) in simp)
  then have "n > lsn" using g(1) by (simp add: checked_add64_Some_iff word_less_nat_alt)
  moreover have "pr_base_sequence q \<le> lsn" using Cons.prems(2) by (simp add: iq)
  ultimately have "pr_base_sequence q < n" by (rule order.strict_trans1 [rotated])
  then have "stamped_of iq (i, stamp_batch n q)" by (auto simp: iq stamped_of_def)
  then show ?case using Cons.IH [OF g(2)] Cons.prems(2,3) g(3) by simp
qed simp

text \<open>
  Of \<open>N\<close> batches, those of \<open>A\<close> are still in the group and have no result; the result of each other
  satisfies \<open>Q\<close>.
\<close>

definition answered :: "(u64 res \<Rightarrow> bool) \<Rightarrow> nat \<Rightarrow> nat set \<Rightarrow> results \<Rightarrow> bool" where
  "answered Q N A rs = (length rs = N \<and> (\<forall>j < N. (j \<in> A \<longrightarrow> rs ! j = None) \<and> (j \<notin> A \<longrightarrow> (\<exists>r. rs ! j = Some r \<and> Q r))))"

lemma answered_mono: "answered Q N A rs \<Longrightarrow> (\<And>r. Q r \<Longrightarrow> Q' r) \<Longrightarrow> answered Q' N A rs"
  by (auto simp: answered_def)

lemma answered_set:
  assumes "answered Q N (insert i A) rs" "i \<notin> A" "Q r"
  shows "answered Q N A (rs[i := Some r])"
proof -
  have "(j \<in> A \<longrightarrow> rs[i := Some r] ! j = None) \<and> (j \<notin> A \<longrightarrow> (\<exists>r'. rs[i := Some r] ! j = Some r' \<and> Q r'))" if "j < N" for j
    using assms that by (cases "j = i") (auto simp: answered_def)
  then show ?thesis using assms(1) by (simp add: answered_def)
qed

lemma retain_live_answers:
  assumes "retain_live clock t ps rs = (ps', rs', t')" "answered Q N (B \<union> fst ` set ps) rs" "distinct (map fst ps)" "B \<inter> fst ` set ps = {}"
    and "Q (Inl DeadlineExceeded)" "\<forall>p \<in> set ps. pr_is_empty (snd p) \<longrightarrow> Q (Inr (pr_base_sequence (snd p)))"
  shows "answered Q N (B \<union> fst ` set ps') rs' \<and> subseq ps' ps"
  using assms
proof (induction clock t ps rs arbitrary: B ps' rs' t' rule: retain_live.induct)
  case (2 clock t i p ps rs)
  have i: "i \<notin> B \<union> fst ` set ps" "distinct (map fst ps)" "B \<inter> fst ` set ps = {}" using "2.prems"(3,4) by auto
  have all: "answered Q N (insert i (B \<union> fst ` set ps)) rs" using "2.prems"(2) by simp
  have gone: "answered Q N (B \<union> fst ` set ps) (rs[i := Some r])" if "Q r" for r
    by (rule answered_set [OF all i(1) that])
  consider (late) e where "deadline_check (pr_deadline p) (clock t) = Inl e"
    | (empty) "deadline_check (pr_deadline p) (clock t) = Inr ()" "pr_is_empty p"
    | (live) "deadline_check (pr_deadline p) (clock t) = Inr ()" "\<not> pr_is_empty p"
    by (cases "deadline_check (pr_deadline p) (clock t)") auto
  then show ?case
  proof cases
    case late
    then have "retain_live clock (Suc t) ps (rs[i := Some (Inl DeadlineExceeded)]) = (ps', rs', t')" using "2.prems"(1) by simp
    from "2.IH"(1) [OF late this gone [OF "2.prems"(5)] i(2,3) "2.prems"(5)] "2.prems"(6) show ?thesis by auto
  next
    case empty
    then have r: "retain_live clock (Suc t) ps (rs[i := Some (Inr (pr_base_sequence p))]) = (ps', rs', t')" using "2.prems"(1) by simp
    have "Q (Inr (pr_base_sequence p))" using "2.prems"(6) empty(2) by simp
    from "2.IH"(2) [OF empty r gone [OF this] i(2,3) "2.prems"(5)] "2.prems"(6) show ?thesis by auto
  next
    case live
    obtain qs where r: "retain_live clock (Suc t) ps rs = (qs, rs', t')" "ps' = (i, p) # qs"
      using "2.prems"(1) live by (auto split: prod.splits)
    have "answered Q N (insert i B \<union> fst ` set ps) rs" "insert i B \<inter> fst ` set ps = {}" using all i by auto
    from "2.IH"(3) [OF live r(1) this(1) i(2) this(2) "2.prems"(5)] "2.prems"(6) r(2) show ?thesis by simp
  qed
qed simp

lemma stamped_of_checks:
  assumes "stamped_of (i, q) (j, p)"
  shows "j = i" "pr_deadline p = pr_deadline q" "pr_is_empty p = pr_is_empty q" "pr_base_sequence p = pr_base_sequence q"
    "pr_operations p = pr_operations q"
  using assms by (auto simp: stamped_of_def pr_is_empty_def)

lemma retain_live_stamped:
  assumes "list_all2 stamped_of qs ps" "retain_live clock t ps rs = (ps', rs', t')"
  shows "\<exists>qs'. retain_live clock t qs rs = (qs', rs', t') \<and> list_all2 stamped_of qs' ps'"
  using assms
proof (induction qs ps arbitrary: t rs ps' rs' t' rule: list_all2_induct)
  case (Cons q qs p ps)
  obtain i q1 where q: "q = (i, q1)" by (cases q)
  obtain p1 where p: "p = (i, p1)" using stamped_of_checks(1) Cons.hyps(1) by (cases p) (auto simp: q)
  note same = stamped_of_checks(2-) [OF Cons.hyps(1) [unfolded p q]]
  consider (late) e where "deadline_check (pr_deadline q1) (clock t) = Inl e"
    | (empty) "deadline_check (pr_deadline q1) (clock t) = Inr ()" "pr_is_empty q1"
    | (live) "deadline_check (pr_deadline q1) (clock t) = Inr ()" "\<not> pr_is_empty q1"
    by (cases "deadline_check (pr_deadline q1) (clock t)") auto
  then show ?case
  proof cases
    case late
    then show ?thesis using Cons.IH [of "Suc t" "rs[i := Some (Inl DeadlineExceeded)]"] Cons.prems by (simp add: p q same)
  next
    case empty
    then show ?thesis using Cons.IH [of "Suc t" "rs[i := Some (Inr (pr_base_sequence q1))]"] Cons.prems by (simp add: p q same)
  next
    case live
    then obtain ps1 where r: "retain_live clock (Suc t) ps rs = (ps1, rs', t')" "ps' = p # ps1"
      using Cons.prems by (auto simp: p same split: prod.splits)
    obtain qs1 where "retain_live clock (Suc t) qs rs = (qs1, rs', t')" "list_all2 stamped_of qs1 ps1" using Cons.IH [OF r(1)] by blast
    then show ?thesis using live r(2) Cons.hyps(1) by (simp add: q)
  qed
qed simp

lemma stamped_of_keys: "list_all2 stamped_of qs ps \<Longrightarrow> map fst ps = map fst qs"
  by (induction rule: list_all2_induct) (auto simp: stamped_of_def)

lemma subseq_set: "subseq xs ys \<Longrightarrow> set xs \<subseteq> set ys"
  by (induction rule: list_emb.induct) auto

lemma subseq_keys_distinct: "subseq xs ys \<Longrightarrow> distinct (map fst ys) \<Longrightarrow> distinct (map fst xs)"
proof (induction rule: list_emb.induct)
  case (list_emb_Cons2 x y xs ys)
  then show ?case using subseq_set [of xs ys] by auto
qed auto

lemma group_loop_facts:
  assumes "group_loop fuel lsn clock t ps rs = Some (ps', rs', r)" "list_all2 stamped_of qs ps" "answered Q N (fst ` set qs) rs"
    and "distinct (map fst qs)" "Q (Inl DeadlineExceeded)" "\<forall>q \<in> set qs. pr_is_empty (snd q) \<longrightarrow> Q (Inr (pr_base_sequence (snd q)))"
    and "\<forall>q \<in> set qs. pr_base_sequence (snd q) \<le> lsn" "length qs < 2 ^ 64"
  shows "\<exists>qs'. subseq qs' qs \<and> answered Q N (fst ` set qs') rs' \<and> map fst ps' = map fst qs' \<and>
    (\<forall>frs. r = Inr frs \<longrightarrow> group_frames lsn 0 qs' = Inr (ps', frs))"
  using assms
proof (induction fuel arbitrary: t ps rs qs)
  case (Suc fuel)
  obtain ps1 rs1 t1 where r1: "retain_live clock t ps rs = (ps1, rs1, t1)" by (cases "retain_live clock t ps rs")
  obtain qs1 where q1: "retain_live clock t qs rs = (qs1, rs1, t1)" "list_all2 stamped_of qs1 ps1"
    using retain_live_stamped [OF Suc.prems(2) r1] by blast
  have a: "answered Q N (fst ` set qs1) rs1" "subseq qs1 qs"
    using retain_live_answers [OF q1(1), of Q N "{}"] Suc.prems(3-6) by auto
  have frames: "group_frames lsn 0 ps1 = group_frames lsn 0 qs1" by (rule frames_stamped [OF q1(2)])
  note keys = stamped_of_keys [OF q1(2)]
  show ?case
  proof (cases "group_frames lsn 0 ps1")
    case (Inl e)
    then have "ps' = ps1" "rs' = rs1" "r = Inl e" using Suc.prems(1) r1 by simp_all
    then show ?thesis using a keys by (intro exI [of _ qs1]) simp
  next
    case (Inr fr)
    obtain ps2 frs where fr: "fr = (ps2, frs)" by (cases fr)
    have sub: "set qs1 \<subseteq> set qs" "length qs1 \<le> length qs" "distinct (map fst qs1)"
      using subseq_set [OF a(2)] list_emb_length [OF a(2)] subseq_keys_distinct [OF a(2) Suc.prems(4)] by simp_all
    have stamp: "list_all2 stamped_of qs1 ps2"
      by (rule frames_stamp [of lsn 0 qs1 ps2 frs]) (use frames Inr fr Suc.prems(7,8) sub in auto)
    obtain b t2 where t: "all_in_time clock t1 ps2 = (b, t2)" by (cases "all_in_time clock t1 ps2")
    show ?thesis
    proof (cases b)
      case True
      then have "ps' = ps2" "rs' = rs1" "r = Inr frs" using Suc.prems(1) r1 Inr fr t by simp_all
      then show ?thesis using a frames Inr fr stamped_of_keys [OF stamp] by (intro exI [of _ qs1]) simp
    next
      case False
      then have "group_loop fuel lsn clock t2 ps2 rs1 = Some (ps', rs', r)" using Suc.prems(1) r1 Inr fr t by simp
      moreover have "\<forall>q \<in> set qs1. pr_is_empty (snd q) \<longrightarrow> Q (Inr (pr_base_sequence (snd q)))"
          "\<forall>q \<in> set qs1. pr_base_sequence (snd q) \<le> lsn" using Suc.prems(6,7) sub(1) by blast+
      moreover have "length qs1 < 2 ^ 64" using Suc.prems(8) sub(2) by simp
      ultimately obtain qs' where "subseq qs' qs1" "answered Q N (fst ` set qs') rs'" "map fst ps' = map fst qs'"
          "\<forall>frs. r = Inr frs \<longrightarrow> group_frames lsn 0 qs' = Inr (ps', frs)"
        using Suc.IH [OF _ stamp a(1) sub(3) Suc.prems(5)] by blast
      then show ?thesis using a(2) subseq_order.trans by blast
    qed
  qed
qed simp

section \<open>The loop ends\<close>

lemma retain_live_length: "retain_live clock t ps rs = (ps', rs', t') \<Longrightarrow> length ps' \<le> length ps \<and> t \<le> t'"
proof (induction clock t ps rs arbitrary: ps' rs' t' rule: retain_live.induct)
  case (2 clock t i p ps rs)
  then show ?case by (fastforce split: sum.splits if_splits prod.splits)
qed simp

lemma check_later: "deadline_check d now = Inl e \<Longrightarrow> now \<le> later \<Longrightarrow> deadline_check d later = Inl DeadlineExceeded"
  by (auto simp: deadline_check_def split: option.splits if_splits)

lemma retain_drops_late:
  assumes "mono clock" "retain_live clock t ps rs = (ps', rs', t')" "p \<in> set ps" "deadline_check (pr_deadline (snd p)) now = Inl e" "now \<le> clock t"
  shows "length ps' < length ps"
  using assms(1-3,5)
proof (induction clock t ps rs arbitrary: ps' rs' t' rule: retain_live.induct)
  case (2 clock t i q ps rs)
  have later: "now \<le> clock (Suc t)" using "2.prems"(1,4) monoD [of clock t "Suc t"] by simp
  show ?case
  proof (cases "deadline_check (pr_deadline q) (clock t)")
    case (Inl e')
    then have "retain_live clock (Suc t) ps (rs[i := Some (Inl DeadlineExceeded)]) = (ps', rs', t')" using "2.prems"(2) by simp
    then show ?thesis using retain_live_length by fastforce
  next
    case (Inr u)
    then have "p \<in> set ps" using "2.prems"(3,4) check_later [OF assms(4), of "clock t"] by auto
    show ?thesis
    proof (cases "pr_is_empty q")
      case True
      then have "retain_live clock (Suc t) ps (rs[i := Some (Inr (pr_base_sequence q))]) = (ps', rs', t')" using "2.prems"(2) Inr by simp
      then show ?thesis using retain_live_length by fastforce
    next
      case False
      then obtain qs where r: "retain_live clock (Suc t) ps rs = (qs, rs', t')" "ps' = (i, q) # qs"
        using "2.prems"(2) Inr by (auto split: prod.splits)
      show ?thesis using "2.IH"(3) [OF Inr False "2.prems"(1) r(1) \<open>p \<in> set ps\<close> later] r(2) by simp
    qed
  qed
qed simp

lemma all_in_time_late:
  assumes "mono clock" "all_in_time clock t ps = (False, t')"
  shows "\<exists>p \<in> set ps. \<exists>now e. deadline_check (pr_deadline (snd p)) now = Inl e \<and> now \<le> clock t'"
  using assms
proof (induction clock t ps rule: all_in_time.induct)
  case (2 clock t i p ps)
  show ?case
  proof (cases "deadline_check (pr_deadline p) (clock t)")
    case (Inl e)
    then have "t' = Suc t" using "2.prems"(2) by simp
    then have "clock t \<le> clock t'" using "2.prems"(1) by (simp add: monoD)
    then show ?thesis using Inl by auto
  next
    case (Inr u)
    then show ?thesis using "2.IH" [OF Inr "2.prems"(1)] "2.prems"(2) by auto
  qed
qed simp

lemma frames_deadlines:
  "group_frames lsn offset qs = Inr (ps, frs) \<Longrightarrow> map (\<lambda>p. pr_deadline (snd p)) ps = map (\<lambda>p. pr_deadline (snd p)) qs"
  by (induction lsn offset qs arbitrary: ps frs rule: group_frames.induct) (auto simp: res_simps)

lemma group_loop_ends:
  assumes "mono clock" "length (fst (retain_live clock t ps rs)) < fuel"
  shows "group_loop fuel lsn clock t ps rs \<noteq> None"
  using assms(2)
proof (induction fuel arbitrary: t ps rs)
  case (Suc fuel)
  obtain ps1 rs1 t1 where r1: "retain_live clock t ps rs = (ps1, rs1, t1)" by (cases "retain_live clock t ps rs")
  show ?case
  proof (cases "group_frames lsn 0 ps1")
    case (Inr fr)
    obtain ps2 frs where fr: "fr = (ps2, frs)" by (cases fr)
    obtain b t2 where t: "all_in_time clock t1 ps2 = (b, t2)" by (cases "all_in_time clock t1 ps2")
    show ?thesis
    proof (cases b)
      case False
      then obtain p now e where late: "p \<in> set ps2" "deadline_check (pr_deadline (snd p)) now = Inl e" "now \<le> clock t2"
        using all_in_time_late [OF assms(1), of t1 ps2 t2] t by auto
      obtain ps3 rs3 t3 where r3: "retain_live clock t2 ps2 rs1 = (ps3, rs3, t3)" by (cases "retain_live clock t2 ps2 rs1")
      have "length ps2 = length ps1" using arg_cong [OF frames_deadlines [OF Inr [unfolded fr]], of length] by simp
      then have "length (fst (retain_live clock t2 ps2 rs1)) < fuel"
        using retain_drops_late [OF assms(1) r3 late] Suc.prems r1 r3 by simp
      from Suc.IH [OF this] show ?thesis using r1 Inr fr t False by simp
    qed (use r1 Inr fr t in simp)
  qed (use r1 in simp)
qed simp

lemma group_frames_nth:
  assumes "group_frames lsn offset qs = Inr (ps, frs)" "offset + length qs < 2 ^ 64"
  shows "length frs = length qs \<and> length ps = length qs \<and> (\<forall>k < length qs. lsn < lsn + of_nat (offset + k) + 1 \<and>
    frame_encode 2 (lsn + of_nat (offset + k) + 1) (encode_ops (pr_operations (snd (qs ! k)))) = Inr (frs ! k))"
  using assms
proof (induction qs arbitrary: offset ps frs)
  case (Cons iq qs)
  obtain i q where iq: "iq = (i, q)" by (cases iq)
  obtain n fr ps1 frs1 where g: "checked_add64 lsn (of_nat offset + 1) = Some n" "frame_encode 2 n (encode_ops (pr_operations q)) = Inr fr"
      "group_frames lsn (Suc offset) qs = Inr (ps1, frs1)" "ps = (i, stamp_batch n q) # ps1" "frs = fr # frs1"
    using Cons.prems(1) by (auto simp: iq res_simps)
  have off: "offset + 1 < 2 ^ 64" "Suc offset + length qs < 2 ^ 64" using Cons.prems(2) by simp_all
  have n: "n = lsn + of_nat offset + 1" using g(1) by (auto simp: checked_add64_def add.assoc split: if_splits)
  have "lsn < n" using g(1) unat_next [OF off(1)] by (simp add: checked_add64_Some_iff word_less_nat_alt)
  then have first: "lsn < lsn + of_nat offset + 1" "frame_encode 2 (lsn + of_nat offset + 1) (encode_ops (pr_operations q)) = Inr fr"
    using n g(2) by simp_all
  note IH = Cons.IH [OF g(3) off(2)]
  have "lsn < lsn + of_nat (offset + k) + 1 \<and>
      frame_encode 2 (lsn + of_nat (offset + k) + 1) (encode_ops (pr_operations (snd ((iq # qs) ! k)))) = Inr (frs ! k)"
    if "k < length (iq # qs)" for k
  proof (cases k)
    case 0
    then show ?thesis using first g(5) by (simp add: iq)
  next
    case (Suc j)
    then have "j < length qs" "offset + k = Suc offset + j" using that by simp_all
    then show ?thesis using IH g(5) Suc by (simp del: of_nat_add of_nat_Suc)
  qed
  then show ?case using IH g(4,5) by simp
qed simp

section \<open>Results\<close>

lemma unwrap_answered: "answered Q N {} rs \<Longrightarrow> \<exists>xs. unwrap_all rs = Some xs \<and> rs = map Some xs \<and> length xs = N"
proof -
  have "\<forall>j < length rs. \<exists>r. rs ! j = Some r \<Longrightarrow> \<exists>xs. unwrap_all rs = Some xs \<and> rs = map Some xs" for rs :: "'a option list"
  proof (induction rs)
    case (Cons r rs)
    obtain x where "r = Some x" using Cons.prems by force
    moreover have "\<forall>j < length rs. \<exists>r. rs ! j = Some r" using Cons.prems by force
    then obtain xs where "unwrap_all rs = Some xs" "rs = map Some xs" using Cons.IH by blast
    ultimately show ?case by (intro exI [of _ "x # xs"]) simp
  qed simp
  moreover assume "answered Q N {} rs"
  ultimately show ?thesis by (metis (no_types, lifting) answered_def empty_iff length_map)
qed

lemma answer_all_answers:
  assumes "answered Q N (fst ` set ps) rs" "distinct (map fst ps)" "Q (Inl e)"
  shows "answered Q N {} (answer_all ps e rs)"
  using assms(1,2) unfolding answer_all_def
proof (induction ps arbitrary: rs)
  case (Cons p ps)
  have "answered Q N (fst ` set ps) (rs[fst p := Some (Inl e)])"
    using answered_set [where i = "fst p" and A = "fst ` set ps" and Q = Q and r = "Inl e"] Cons.prems assms(3) by simp
  then show ?case using Cons.IH Cons.prems(2) by simp
qed simp

text \<open>The \<open>k\<close>-th batch that is published gets the \<open>k\<close>-th number; the other results stay.\<close>

lemma publish_all_results:
  assumes "answered Q N (fst ` set ps) rs" "distinct (map fst ps)" "fst ` set ps \<subseteq> {..<N}"
  shows "length (snd (publish_all first offset ps db rs)) = N \<and>
    (\<forall>k < length ps. snd (publish_all first offset ps db rs) ! fst (ps ! k) = Some (Inr (first + of_nat (offset + k) + 1))) \<and>
    (\<forall>j < N. j \<notin> fst ` set ps \<longrightarrow> snd (publish_all first offset ps db rs) ! j = rs ! j)"
proof -
  have "length (snd (publish_all first offset ps db rs)) = length rs \<and>
    (\<forall>k < length ps. snd (publish_all first offset ps db rs) ! fst (ps ! k) = Some (Inr (first + of_nat (offset + k) + 1))) \<and>
    (\<forall>j < length rs. j \<notin> fst ` set ps \<longrightarrow> snd (publish_all first offset ps db rs) ! j = rs ! j)"
    if "distinct (map fst ps)" "fst ` set ps \<subseteq> {..<length rs}" for rs
    using that
  proof (induction ps arbitrary: offset db rs)
    case (Cons ip ps)
    obtain i p where ip: "ip = (i, p)" by (cases ip)
    let ?n = "first + of_nat offset + 1"
    have IH: "length (snd (publish_all first (Suc offset) ps d (rs[i := Some (Inr ?n)]))) = length rs \<and>
        (\<forall>k < length ps. snd (publish_all first (Suc offset) ps d (rs[i := Some (Inr ?n)])) ! fst (ps ! k) =
          Some (Inr (first + of_nat (Suc offset + k) + 1))) \<and>
        (\<forall>j < length rs. j \<notin> fst ` set ps \<longrightarrow> snd (publish_all first (Suc offset) ps d (rs[i := Some (Inr ?n)])) ! j = rs[i := Some (Inr ?n)] ! j)" for d
      using Cons.IH [of "rs[i := Some (Inr ?n)]" "Suc offset" d] Cons.prems by simp
    have i: "i < length rs" "i \<notin> fst ` set ps" using Cons.prems by (auto simp: ip)
    have "snd (publish_all first (Suc offset) ps d (rs[i := Some (Inr ?n)])) ! fst ((ip # ps) ! k) = Some (Inr (first + of_nat (offset + k) + 1))"
      if "k < length (ip # ps)" for k d
      using that IH [of d] i by (cases k) (auto simp: ip)
    moreover have "snd (publish_all first (Suc offset) ps d (rs[i := Some (Inr ?n)])) ! j = rs ! j" if "j < length rs" "j \<notin> fst ` set (ip # ps)" for j d
      using that IH [of d] by (auto simp: ip)
    ultimately show ?case using IH by (simp add: ip Let_def del: set_simps of_nat_add)
  qed simp
  then show ?thesis using assms by (simp add: answered_def)
qed

section \<open>The whole commit\<close>

text \<open>Rebinding changes what a batch carries, not what it is.\<close>

definition same_batch :: "nat \<times> prepared \<Rightarrow> nat \<times> prepared \<Rightarrow> bool" where
  "same_batch q p = (fst p = fst q \<and> pr_deadline (snd p) = pr_deadline (snd q) \<and> pr_operations (snd p) = pr_operations (snd q) \<and>
     pr_base_sequence (snd p) = pr_base_sequence (snd q))"

lemma rebind_same: "rebind_batches st qs u = Inr (ps, u') \<Longrightarrow> list_all2 same_batch qs ps"
  by (induction st qs u arbitrary: ps u' rule: rebind_batches.induct) (auto simp: res_simps same_batch_def)

lemma enumerate_keys: "map fst (enumerate 0 xs) = [0..<length xs]" "fst ` set (enumerate 0 xs) = {..<length xs}"
proof -
  show *: "map fst (enumerate 0 xs) = [0..<length xs]" by (simp add: enumerate_eq_zip)
  have "fst ` set (enumerate 0 xs) = set (map fst (enumerate 0 xs))" by (simp only: set_map)
  also have "\<dots> = {..<length xs}" unfolding * by auto
  finally show "fst ` set (enumerate 0 xs) = {..<length xs}" .
qed

text \<open>
  A commit ends in one of three ways: everything in the group fails before the log is written; the
  log could not be written; or the group is logged and published. \<open>qs\<close> are the batches still in the
  group, after rebinding.
\<close>

definition group_outcome :: "prepared list \<Rightarrow> database \<Rightarrow> (io_error \<times> nat) option \<Rightarrow> (nat \<times> prepared) list \<Rightarrow> bytes list \<Rightarrow>
    u64 res list \<Rightarrow> database \<Rightarrow> bool" where
  "group_outcome batches db io qs frs rs db' = (\<exists>ps rs0. group_frames (rs_lsn (db_state db)) 0 qs = Inr (ps, frs) \<and> map fst ps = map fst qs \<and>
     answered (\<lambda>r. isl r \<or> (\<exists>p \<in> set batches. pr_is_empty p \<and> r = Inr (pr_base_sequence p))) (length batches) (fst ` set qs) rs0 \<and>
     group_write io ps frs rs0 db = (map Some rs, db'))"

lemma rebound:
  assumes "list_all2 same_batch (enumerate 0 batches) ps"
  shows "map fst ps = [0..<length batches]" "\<And>q. q \<in> set ps \<Longrightarrow> fst q < length batches \<and> pr_operations (snd q) = pr_operations (batches ! fst q) \<and>
     pr_base_sequence (snd q) = pr_base_sequence (batches ! fst q) \<and> pr_deadline (snd q) = pr_deadline (batches ! fst q)"
proof -
  have "map fst ps = map fst (enumerate 0 batches)" using assms by (induction rule: list_all2_induct) (auto simp: same_batch_def)
  then show "map fst ps = [0..<length batches]" by (simp only: enumerate_keys)
  fix q assume "q \<in> set ps"
  then obtain j where j: "j < length ps" "q = ps ! j" by (auto simp: in_set_conv_nth)
  then have "same_batch (enumerate 0 batches ! j) q" "j < length batches" using assms by (auto simp: list_all2_conv_all_nth)
  then show "fst q < length batches \<and> pr_operations (snd q) = pr_operations (batches ! fst q) \<and>
     pr_base_sequence (snd q) = pr_base_sequence (batches ! fst q) \<and> pr_deadline (snd q) = pr_deadline (batches ! fst q)"
    by (simp add: same_batch_def nth_enumerate_eq)
qed

lemma start_answered: "answered Q (length batches) {..<length batches} (replicate (length batches) None)"
  by (simp add: answered_def)

lemma group_write_answered:
  assumes "answered Q N (fst ` set ps) rs" "distinct (map fst ps)" "fst ` set ps \<subseteq> {..<N}" "\<And>e. Q (Inl e)" "\<And>n. Q (Inr n)"
    and "frs = [] \<Longrightarrow> ps = []"
  shows "answered Q N {} (fst (group_write io ps frs rs db))"
proof -
  have all: "answered Q N {} (answer_all ps e rs)" for e by (rule answer_all_answers [OF assms(1,2,4)])
  have "answered Q N {} (snd (publish_all first offset ps d rs))" for first offset d
  proof -
    note p = publish_all_results [OF assms(1-3), of first offset d]
    have "\<exists>r. snd (publish_all first offset ps d rs) ! j = Some r \<and> Q r" if "j < N" for j
    proof (cases "j \<in> fst ` set ps")
      case True
      then obtain k where "k < length ps" "fst (ps ! k) = j" by (auto simp: in_set_conv_nth)
      then show ?thesis using p assms(5) by blast
    next
      case False
      then show ?thesis using p that assms(1) by (simp add: answered_def)
    qed
    then show ?thesis using p by (simp add: answered_def)
  qed
  then show ?thesis using all assms(1,6) by (auto simp: group_write_def Let_def split: option.split prod.split) (metis snd_conv)
qed

text \<open>What a result may be when nothing was published for it.\<close>

definition unpublished :: "prepared list \<Rightarrow> u64 res \<Rightarrow> bool" where
  "unpublished batches r = (isl r \<or> (\<exists>p \<in> set batches. pr_is_empty p \<and> r = Inr (pr_base_sequence p)))"

lemma commit_results_cases:
  assumes run: "commit_results ckpt clock io batches u db = Some (rs, db')"
    and ready: "group_ready ckpt (enumerate 0 batches) u db = (r, db1)"
    and base: "\<forall>p \<in> set batches. pr_base_sequence p \<le> rs_lsn (db_state db1)" and len: "length batches < 2 ^ 64"
  obtains (failed) "db' = db1" "answered (unpublished batches) (length batches) {} rs"
  | (written) ps0 u' qs ps frs rs0 where "r = Inr (ps0, u')" "subseq qs ps0" "list_all2 same_batch (enumerate 0 batches) ps0"
      "group_frames (rs_lsn (db_state db1)) 0 qs = Inr (ps, frs)" "map fst ps = map fst qs" "distinct (map fst qs)"
      "fst ` set qs \<subseteq> {..<length batches}" "answered (unpublished batches) (length batches) (fst ` set qs) rs0"
      "group_write io ps frs rs0 db1 = (rs, db')" "answered (\<lambda>_. True) (length batches) {} rs"
proof -
  let ?N = "length batches"
  have isl: "unpublished batches (Inl e)" for e by (simp add: unpublished_def)
  show thesis
  proof (cases r)
    case (Inl e)
    have "answered (unpublished batches) ?N {} (answer_all (enumerate 0 batches) (duplicate_error e) (replicate ?N None))"
      using answer_all_answers [where Q = "unpublished batches" and N = ?N and ps = "enumerate 0 batches"] isl
        start_answered [of "unpublished batches" batches] by (simp add: enumerate_keys)
    then show thesis using run ready Inl by (intro failed) (auto simp: commit_results_def Let_def)
  next
    case (Inr x)
    obtain ps0 u' where x: "x = (ps0, u')" by (cases x)
    have same: "list_all2 same_batch (enumerate 0 batches) ps0"
      using ready Inr x rebind_same by (auto simp: group_ready_def split: sum.splits prod.splits if_splits)
    note ps0 = rebound [OF same]
    have keys: "distinct (map fst ps0)" "fst ` set ps0 = {..<?N}" "length ps0 = ?N"
    proof -
      show "distinct (map fst ps0)" by (simp only: ps0(1) distinct_upt)
      have "fst ` set ps0 = set (map fst ps0)" by (simp only: set_map)
      then show "fst ` set ps0 = {..<?N}" by (simp only: ps0(1)) auto
      show "length ps0 = ?N" using arg_cong [OF ps0(1), of length] by (simp only: length_map length_upt diff_zero)
    qed
    have facts: "\<forall>q \<in> set ps0. pr_is_empty (snd q) \<longrightarrow> unpublished batches (Inr (pr_base_sequence (snd q)))"
        "\<forall>q \<in> set ps0. pr_base_sequence (snd q) \<le> rs_lsn (db_state db1)"
      using ps0(2) base by (auto simp: unpublished_def pr_is_empty_def)
    obtain ps rs0 y where loop: "group_loop (Suc ?N) (rs_lsn (db_state db1)) clock 0 ps0 (replicate ?N None) = Some (ps, rs0, y)"
      using run ready Inr x by (auto simp: commit_results_def Let_def split: option.splits)
    have "list_all2 stamped_of ps0 ps0" by (simp add: list.rel_refl stamped_of_def)
    from group_loop_facts [OF loop this, of "unpublished batches" ?N] facts keys isl len start_answered [of "unpublished batches" batches]
    obtain qs where qs: "subseq qs ps0" "answered (unpublished batches) ?N (fst ` set qs) rs0" "map fst ps = map fst qs"
        "\<And>frs. y = Inr frs \<Longrightarrow> group_frames (rs_lsn (db_state db1)) 0 qs = Inr (ps, frs)"
      by auto
    have dist: "distinct (map fst qs)" by (rule subseq_keys_distinct [OF qs(1) keys(1)])
    have same_keys: "fst ` set ps = fst ` set qs" using qs(3) by (metis set_map)
    have sub: "fst ` set qs \<subseteq> {..<?N}" using image_mono [OF subseq_set [OF qs(1)], of fst] keys(2) by simp
    show thesis
    proof (cases y)
      case (Inl e)
      have "answered (unpublished batches) ?N {} (answer_all ps (duplicate_error e) rs0)"
        by (rule answer_all_answers) (use qs(2,3) dist same_keys isl in simp_all)
      then show thesis
        using run ready Inr x loop Inl by (intro failed) (auto simp: commit_results_def Let_def)
    next
      case (Inr frs)
      have w: "group_write io ps frs rs0 db1 = (rs, db')"
        using run ready \<open>r = Inr x\<close> x loop Inr by (auto simp: commit_results_def Let_def)
      have none: "ps = []" if "frs = []" using qs(4) [OF Inr] that by (cases qs) (auto simp: res_simps)
      have "answered (\<lambda>_. True) ?N (fst ` set ps) rs0" unfolding same_keys by (rule answered_mono [OF qs(2)]) simp
      from group_write_answered [OF this _ _ _ _ none] have "answered (\<lambda>_. True) ?N {} rs"
        using w dist qs(3) sub same_keys by (metis fst_conv)
      then show thesis using written \<open>r = Inr x\<close> x qs same dist w Inr sub by blast
    qed
  qed
qed

text \<open>A clock that does not go back never keeps the loop going.\<close>

lemma commit_results_ends: "mono clock \<Longrightarrow> commit_results ckpt clock io batches u db \<noteq> None"
proof -
  assume clock: "mono clock"
  obtain r db1 where ready: "group_ready ckpt (enumerate 0 batches) u db = (r, db1)" by (cases "group_ready ckpt (enumerate 0 batches) u db")
  show ?thesis
  proof (cases r)
    case (Inr x)
    obtain ps0 u' where x: "x = (ps0, u')" by (cases x)
    have same: "list_all2 same_batch (enumerate 0 batches) ps0"
      using ready Inr x rebind_same by (auto simp: group_ready_def split: sum.splits prod.splits if_splits)
    obtain ps rs t where r: "retain_live clock 0 ps0 (replicate (length batches) None) = (ps, rs, t)"
      by (cases "retain_live clock 0 ps0 (replicate (length batches) None)")
    have "length ps0 = length batches" using list_all2_lengthD [OF same] by simp
    then have "group_loop (Suc (length batches)) (rs_lsn (db_state db1)) clock 0 ps0 (replicate (length batches) None) \<noteq> None"
      by (intro group_loop_ends [OF clock]) (use retain_live_length [OF r] r in simp)
    then show ?thesis using ready Inr x by (auto simp: commit_results_def Let_def split: sum.split)
  qed (use ready in \<open>simp add: commit_results_def Let_def\<close>)
qed

lemma publish_all_wal: "db_wal (fst (publish_all first offset ps db rs)) = db_wal db"
  by (induction first offset ps db rs rule: publish_all.induct) (simp_all add: Let_def publish_state_def)

lemma group_write_cases:
  assumes "group_write io ps frames rs db = (rs', db')"
  obtains (refused) e where "rs' = answer_all ps e rs" "db' = db \<or> rs_poisoned (db_state db') \<and> db_shared_mode db' = db_shared_mode db"
  | (idle) "frames = []" "rs' = rs" "db' = db"
  | (published) d where "io = None" "db_wal db' = db_wal db @ concat frames" "rs' = snd (publish_all (rs_lsn (db_state db)) 0 ps d rs)"
      "db' = db_publish (fst (publish_all (rs_lsn (db_state db)) 0 ps d rs))" "db_state d = db_state db" "db_wal d = db_wal db @ concat frames"
      "db_options d = db_options db" "db_shared_mode d = db_shared_mode db" "db_tail d = db_tail db"
proof -
  let ?d = "db\<lparr>db_wal := db_wal db @ concat frames, db_wal_bytes := db_wal_bytes db + sum_list (map (\<lambda>fr. of_nat (length fr)) frames)\<rparr>"
  let ?r = "publish_all (rs_lsn (db_state db)) 0 ps ?d rs"
  let ?limit = "max_uncheckpointed_wal_bytes (op_limits (db_options db))"
  let ?bytes = "sum_list (map (\<lambda>fr. of_nat (length fr)) frames)"
  define big where "big = (unat (saturating_add64 (db_wal_bytes db) ?bytes) > ?limit)"
  consider (limit) big
    | (none) "\<not> big" "frames = []"
    | (error) e n where "\<not> big" "frames \<noteq> []" "io = Some (e, n)"
    | (wrote) "\<not> big" "frames \<noteq> []" "io = None"
    by (cases io) auto
  then show thesis
  proof cases
    case limit
    have "rs' = answer_all ps (LimitExceeded ''uncheckpointed WAL bytes'' ?limit) rs \<and> db' = db"
      using assms limit by (auto simp: group_write_def Let_def big_def)
    then show thesis using refused by blast
  next
    case none
    show thesis by (rule idle) (use none assms in \<open>simp_all add: group_write_def Let_def big_def\<close>)
  next
    case (error e n)
    then show thesis by (intro refused [of "CommitUnknown (io_duplicate e)"])
      (use assms in \<open>simp_all add: group_write_def Let_def poison_def big_def\<close>, (use assms in \<open>auto simp: group_write_def Let_def poison_def big_def\<close>)?)
  next
    case wrote
    then have "rs' = snd ?r" "db' = db_publish (fst ?r)" using assms by (simp_all add: group_write_def Let_def big_def split: prod.splits)
    then show thesis by (intro published [of ?d]) (simp_all add: wrote publish_all_wal db_publish_def)
  qed
qed

section \<open>Properties\<close>

text \<open>
  C5 (commit_answers_all): a group commit returns, and with exactly one result for each of its
  batches: the loop that encodes the group again when deadlines pass meanwhile ends, and no batch is
  left without a result, however the log, the deadlines and the limits turn out.
\<close>

theorem commit_answers_all:
  assumes "mono clock" "length batches < 2 ^ 64" "\<forall>p \<in> set batches. pr_base_sequence p \<le> rs_lsn (db_state db)"
    and "\<And>d. rs_lsn (db_state (snd (ckpt d))) = rs_lsn (db_state d)"
  shows "\<exists>results db'. commit_group ckpt clock io batches u db = Some (results, db') \<and> length results = length batches"
proof -
  obtain r db1 where ready: "group_ready ckpt (enumerate 0 batches) u db = (r, db1)" by (cases "group_ready ckpt (enumerate 0 batches) u db")
  have "rs_lsn (db_state db1) = rs_lsn (db_state db)"
    using ready assms(4) [of db] by (auto simp: group_ready_def split: sum.splits if_splits prod.splits)
  then have base: "\<forall>p \<in> set batches. pr_base_sequence p \<le> rs_lsn (db_state db1)" using assms(3) by simp
  obtain rs db' where run: "commit_results ckpt clock io batches u db = Some (rs, db')" using commit_results_ends [OF assms(1)] by fast
  have "answered (\<lambda>_. True) (length batches) {} rs"
    by (cases rule: commit_results_cases [OF run ready base assms(2)]) (auto intro: answered_mono)
  from unwrap_answered [OF this] show ?thesis using run by (auto simp: commit_group_def)
qed

text \<open>The results a written group leaves: the sequence numbers of its frames, and what was there for the others.\<close>

lemma published_outcome:
  assumes fr: "length frs = length qs" "length ps = length qs" "\<forall>k < length qs. lsn < lsn + of_nat (0 + k) + 1 \<and>
      frame_encode 2 (lsn + of_nat (0 + k) + 1) (encode_ops (pr_operations (snd (qs ! k)))) = Inr (frs ! k)"
    and keys: "map fst ps = map fst qs" "distinct (map fst qs)" "fst ` set qs \<subseteq> {..<length batches}"
    and rs0: "answered isl (length batches) (fst ` set qs) rs0"
    and ops: "\<And>q. q \<in> set qs \<Longrightarrow> pr_operations (snd q) = pr_operations (batches ! fst q)"
    and rs: "rs = snd (publish_all lsn 0 ps d rs0)" "j < length batches" "rs ! j = Some (Inr n)"
  shows "lsn < n \<and> (\<exists>fr \<in> set frs. frame_encode 2 n (encode_ops (pr_operations (batches ! j))) = Inr fr)"
proof -
  have same: "fst ` set ps = fst ` set qs" using keys(1) by (metis set_map)
  have sub: "distinct (map fst ps)" "fst ` set ps \<subseteq> {..<length batches}" using keys same by simp_all
  note pub = publish_all_results [OF rs0 [folded same] sub, of lsn 0 d, folded rs(1)]
  have "j \<in> fst ` set ps"
  proof (rule ccontr)
    assume j: "j \<notin> fst ` set ps"
    then have "rs0 ! j = Some (Inr n)" using pub rs(2,3) by simp
    then show False using rs0 j same rs(2) by (auto simp: answered_def)
  qed
  then obtain k where k: "k < length ps" "fst (ps ! k) = j" by (auto simp: in_set_conv_nth)
  then have n: "n = lsn + of_nat k + 1" using pub rs(3) by fastforce
  have kq: "k < length qs" "fst (qs ! k) = j" using k fr(2) arg_cong [OF keys(1), of "\<lambda>l. l ! k"] by simp_all
  then have "pr_operations (batches ! j) = pr_operations (snd (qs ! k))" using ops [of "qs ! k"] by simp
  then have "frame_encode 2 n (encode_ops (pr_operations (batches ! j))) = Inr (frs ! k)" "lsn < n" using fr(3) kq n by simp_all
  then show ?thesis using kq(1) fr(1) by (metis nth_mem)
qed

text \<open>A group of batches that all carry operations: either all fail, or those with a number are in the log.\<close>

lemma group_outcome:
  assumes run: "commit_group ckpt clock io batches u db = Some (results, db')" "group_ready ckpt (enumerate 0 batches) u db = (r, db1)"
    and batches: "\<forall>p \<in> set batches. \<not> pr_is_empty p \<and> pr_base_sequence p \<le> rs_lsn (db_state db1)" "length batches < 2 ^ 64"
  obtains (failed) "db' = db1 \<or> rs_poisoned (db_state db')" "length results = length batches" "\<forall>j < length batches. isl (results ! j)"
  | (logged) frames where "io = None" "frames \<noteq> []" "length frames \<le> length batches" "db_wal db' = db_wal db1 @ concat frames"
      "\<forall>j < length batches. \<forall>n. results ! j = Inr n \<longrightarrow>
         rs_lsn (db_state db1) < n \<and> (\<exists>fr \<in> set frames. frame_encode 2 n (encode_ops (pr_operations (batches ! j))) = Inr fr)"
      "\<exists>j < length batches. \<not> isl (results ! j)" "length results = length batches"
proof -
  let ?N = "length batches" and ?lsn = "rs_lsn (db_state db1)"
  obtain rs where rs: "commit_results ckpt clock io batches u db = Some (rs, db')" "unwrap_all rs = Some results"
    using run(1) by (auto simp: commit_group_def bind_eq_Some_conv)
  have isl: "unpublished batches = isl" using batches(1) by (auto simp: unpublished_def fun_eq_iff)
  have dead: thesis if "answered isl ?N {} rs" "db' = db1 \<or> rs_poisoned (db_state db')"
  proof -
    note un = unwrap_answered [OF that(1)]
    obtain xs where "rs = map Some xs" "length xs = ?N" "xs = results" using un rs(2) by auto
    then show thesis using that by (intro failed) (auto simp: answered_def)
  qed
  have base: "\<forall>p \<in> set batches. pr_base_sequence p \<le> ?lsn" using batches(1) by blast
  show thesis
  proof (cases rule: commit_results_cases [OF rs(1) run(2) base batches(2)])
    case 1
    then show thesis using dead by (simp add: isl)
  next
    case (2 ps0 u' qs ps frs rs0)
    have small: "0 + length qs < 2 ^ 64" "length qs \<le> ?N"
      using list_emb_length [OF 2(2)] list_all2_lengthD [OF 2(3)] batches(2) by simp_all
    note fr = group_frames_nth [OF 2(4) small(1)]
    have rs0: "answered isl ?N (fst ` set qs) rs0" using 2(8) by (simp add: isl)
    have ps: "fst ` set ps = fst ` set qs" "distinct (map fst ps)" using 2(5,6) by (metis set_map, simp)
    have ops: "pr_operations (snd q) = pr_operations (batches ! fst q)" if "q \<in> set qs" for q
      using rebound(2) [OF 2(3)] subseq_set [OF 2(2)] that by blast
    obtain xs where xs: "rs = map Some xs" "length xs = ?N" "xs = results" using unwrap_answered [OF 2(10)] rs(2) by auto
    show thesis
    proof (cases rule: group_write_cases [OF 2(9)])
      case (1 e)
      have "answered isl ?N {} (answer_all ps e rs0)" by (rule answer_all_answers [OF rs0 [folded ps(1)] ps(2)]) simp
      then show thesis using dead 1 by blast
    next
      case 2
      then show thesis using dead rs0 fr by simp
    next
      case (3 d)
      show thesis
      proof (cases "qs = []")
        case True
        then have "rs = rs0" "db' = db1" using 2(9) fr by (simp_all add: group_write_def answer_all_def Let_def split: if_splits)
        then show thesis using dead rs0 True by simp
      next
        case False
        have sub: "fst ` set ps \<subseteq> {..<?N}" using 2(7) ps(1) by simp
        note pub = publish_all_results [OF rs0 [folded ps(1)] ps(2) sub, of ?lsn 0 d, folded 3(3)]
        have "0 < length ps" using False fr by simp
        then have first: "fst (ps ! 0) < ?N" "rs ! fst (ps ! 0) = Some (Inr (?lsn + of_nat (0 + 0) + 1))" using pub sub nth_mem by blast+
        then have "\<exists>j < ?N. \<not> isl (results ! j)" using xs by (intro exI [of _ "fst (ps ! 0)"]) auto
        moreover have "?lsn < n \<and> (\<exists>fr \<in> set frs. frame_encode 2 n (encode_ops (pr_operations (batches ! j))) = Inr fr)"
          if "j < ?N" "results ! j = Inr n" for j n
          using that xs fr by (intro published_outcome [OF _ _ _ 2(5-7) rs0 ops 3(3)]) simp_all
        ultimately show thesis using 3 fr small(2) False xs(2,3) by (intro logged [of frs]) auto
      qed
    qed
  qed
qed

text \<open>
  C4 (acknowledged_is_logged): a sequence number is acknowledged to a batch with operations only
  when the log has been extended by the frames of the whole group, among them the frame of that
  number with the batch's operations; if writing the log failed, nothing is acknowledged and the
  database refuses to go on.
\<close>

theorem acknowledged_is_logged:
  assumes "commit_group ckpt clock io batches u db = Some (results, db')" "group_ready ckpt (enumerate 0 batches) u db = (r, db1)"
    and "\<forall>p \<in> set batches. \<not> pr_is_empty p \<and> pr_base_sequence p \<le> rs_lsn (db_state db1)" "length batches < 2 ^ 64"
    and "j < length batches" "results ! j = Inr n"
  shows "\<exists>frames fr. db_wal db' = db_wal db1 @ concat frames \<and> fr \<in> set frames \<and> rs_lsn (db_state db1) < n \<and>
    frame_encode 2 n (encode_ops (pr_operations (batches ! j))) = Inr fr \<and> io = None"
proof (cases rule: group_outcome [OF assms(1-4)])
  case 1
  then have "isl (results ! j)" using assms(5) by blast
  then show ?thesis using assms(6) by simp
next
  case (2 frames)
  then show ?thesis using assms(5,6) by blast
qed

section \<open>A concrete group\<close>

definition sample_batch :: prepared where
  "sample_batch = \<lparr>pr_permit = True, pr_pinned = False, pr_deadline = None, pr_reservation = (8, 0), pr_base_sequence = 0,
     pr_root_generation = 0, pr_history_charges = NoLink, pr_catalog = [(1, sample_table)], pr_staged = [],
     pr_operations = [TableOp sample_table]\<rparr>"

definition sample_database :: database where
  "sample_database =
     (let st = (sample_readstate (open_store (\<lambda>_. None)))\<lparr>rs_root := root_empty, rs_catalog := [], rs_lsn := 0\<rparr> in
      \<lparr>db_options = options_default group_commit_default 0 0, db_state = st, db_published = st, db_wal = [], db_segments = [],
       db_wal_bytes = 0, db_shared_mode = True, db_tail = None, db_next_generation = 1, db_wal_number = 0\<rparr>)"

text \<open>A group of one batch that changes only the catalog, in time and without pressure.\<close>

lemma single_group:
  assumes "db_shared_mode db \<or> of_nat (length (db_wal db)) < op_checkpoint_bytes (db_options db)" "state_ready (db_state db) = Inr ()" "rs_lsn (db_state db) = 0" "db_wal_bytes db = 0"
    and "op_limits (db_options db) = limits_default"
    and p: "pr_operations p \<noteq> []" "pr_staged p = []" "\<And>t. deadline_check (pr_deadline p) (clock t) = Inr ()"
    and fr: "frame_encode 2 1 (encode_ops (pr_operations p)) = Inr fr" "length (encode_ops (pr_operations p)) < 2 ^ 20"
    and q: "q = p\<lparr>pr_root_generation := r_generation (rs_root (db_state db))\<rparr>"
  shows "group_ready ckpt (enumerate 0 [p]) u db =
      (Inr ([(0, q)], u), db)"
    and "commit_group ckpt clock None [p] u db = Some ([Inr 1], db_publish (publish_state (stamp_batch 1 q) 1
      (db\<lparr>db_wal := db_wal db @ fr, db_wal_bytes := of_nat (length fr)\<rparr>)))"
proof -
  have *: "db_ready db = Inr ()" using assms(2) by (simp add: db_ready_def)
  have same: "p\<lparr>pr_staged := [], pr_reservation := pr_reservation p, pr_root_generation := g\<rparr> = p\<lparr>pr_root_generation := g\<rparr>" for g
    using p(2) by (cases p) simp
  show ready: "group_ready ckpt (enumerate 0 [p]) u db = (Inr ([(0, q)], u), db)" using * assms(1) p(2) by (auto simp: group_ready_def same q not_le)
  have len: "length fr < 2 ^ 21" using length_frame_encode [OF fr(1)] fr(2) by simp
  then have small: "unat (of_nat (length fr) :: u64) = length fr" by (simp add: unat_of_nat take_bit_nat_eq_self)
  have frames: "group_frames 0 0 [(0, q)] = Inr ([(0, stamp_batch 1 q)], [fr])"
    using fr(1) by (simp add: q checked_add64_def)
  have loop: "group_loop (Suc 1) 0 clock 0 [(0, q)] [None] = Some ([(0, stamp_batch 1 q)], [None], Inr [fr])"
    using p(1,3) frames by (simp add: pr_is_empty_def stamp_batch_def q del: group_frames.simps)
  have room: "\<not> unat (saturating_add64 0 (of_nat (length fr))) > max_uncheckpointed_wal_bytes limits_default"
    using len small by (simp add: saturating_add64_def limits_default_def mib_def)
  have "commit_results ckpt clock None [p] u db = Some (group_write None [(0, stamp_batch 1 q)] [fr] [None] db)"
    using loop assms(3) by (simp add: commit_results_def ready del: group_loop.simps enumerate_Suc_eq enumerate_simps)
  moreover have "group_write None [(0, stamp_batch 1 q)] [fr] [None] db = ([Some (Inr 1)], db_publish (publish_state (stamp_batch 1 q) 1
      (db\<lparr>db_wal := db_wal db @ fr, db_wal_bytes := of_nat (length fr)\<rparr>)))"
    using room assms(3-5) by (simp add: group_write_def)
  ultimately show "commit_group ckpt clock None [p] u db = Some ([Inr 1], db_publish (publish_state (stamp_batch 1 q) 1
      (db\<lparr>db_wal := db_wal db @ fr, db_wal_bytes := of_nat (length fr)\<rparr>)))"
    by (simp add: commit_group_def)
qed

lemma single_commit:
  assumes "db_shared_mode db" "state_ready (db_state db) = Inr ()" "rs_lsn (db_state db) = 0" "db_wal_bytes db = 0"
    and "op_limits (db_options db) = limits_default"
    and p: "pr_operations p \<noteq> []" "pr_staged p = []" "pr_deadline p = None"
    and fr: "frame_encode 2 1 (encode_ops (pr_operations p)) = Inr fr" "length (encode_ops (pr_operations p)) < 2 ^ 20"
    and q: "q = p\<lparr>pr_root_generation := r_generation (rs_root (db_state db))\<rparr>"
  shows "group_ready ckpt (enumerate 0 [p]) u db =
      (Inr ([(0, q)], u), db)"
    and "commit_group ckpt clock None [p] u db = Some ([Inr 1], db_publish (publish_state (stamp_batch 1 q) 1
      (db\<lparr>db_wal := db_wal db @ fr, db_wal_bytes := of_nat (length fr)\<rparr>)))"
  by (rule single_group(1) [of db p, OF _ assms(2-7) _ fr q]; use assms(1,8) in \<open>simp add: deadline_check_def\<close>)
    (rule single_group(2) [of db p, OF _ assms(2-7) _ fr q]; use assms(1,8) in \<open>simp add: deadline_check_def\<close>)

lemma sample_payload: "length (encode_ops [TableOp sample_table]) < 2 ^ 20"
  by (simp add: encode_ops_def sample_table_def sample_schema_def encode_table_def encode_schema_def
      encode_field_def_def ascii_def)

lemma sample_logged: obtains fr where "frame_encode 2 1 (encode_ops [TableOp sample_table]) = Inr fr"
  using sample_payload by (auto simp: frame_encode_Inr MAX_FRAME_def)

lemma sample_ready: "db_shared_mode sample_database" "state_ready (db_state sample_database) = Inr ()" "rs_lsn (db_state sample_database) = 0"
    "db_wal_bytes sample_database = 0" "op_limits (db_options sample_database) = limits_default"
  by (simp_all add: sample_database_def sample_readstate_def state_ready_def options_default_def Let_def)

lemma commit_answers_all_witness:
  "\<exists>results db'. commit_group (Pair (Inr ())) (\<lambda>_. 0) (Some (\<lparr>io_kind = ''Other'', io_text = ''disk full''\<rparr>, 3)) [sample_batch, sample_batch]
     usage_default sample_database = Some (results, db') \<and> length results = length [sample_batch, sample_batch]"
  by (rule commit_answers_all) (simp_all add: monoI sample_ready, simp add: sample_batch_def)

lemma acknowledged_is_logged_witness:
  "\<exists>results db'. commit_group (Pair (Inr ())) (\<lambda>_. 0) None [sample_batch] usage_default sample_database = Some (results, db') \<and>
     (\<exists>frames fr. db_wal db' = concat frames \<and> fr \<in> set frames \<and> frame_encode 2 1 (encode_ops [TableOp sample_table]) = Inr fr)"
proof -
  obtain fr where fr: "frame_encode 2 1 (encode_ops [TableOp sample_table]) = Inr fr" by (rule sample_logged)
  have ops: "pr_operations sample_batch = [TableOp sample_table]" "pr_staged sample_batch = []" "pr_deadline sample_batch = None"
    by (simp_all add: sample_batch_def)
  note run = single_commit [OF sample_ready, of sample_batch fr, unfolded ops, OF _ refl refl fr sample_payload refl]
  have one: "\<forall>p \<in> set [sample_batch]. \<not> pr_is_empty p \<and> pr_base_sequence p \<le> rs_lsn (db_state sample_database)"
    by (simp add: sample_ready pr_is_empty_def sample_batch_def)
  note go = run(2) [of "Pair (Inr ())" "\<lambda>_. 0" usage_default, OF list.simps(3)]
  have "db_wal sample_database = []" by (simp add: sample_database_def Let_def)
  with acknowledged_is_logged [OF go run(1) one, of 0 1] go show ?thesis by (auto simp: ops)
qed

end
