(* ===== verification/Recovery_Laws.thy ===== *)
theory Recovery_Laws
  imports Transactions Shared Commit_Laws
begin

text \<open>
  Recovery gives back what was committed. The live state and the recovered one may differ only in
  what their entities are charged for; the law follows that relation through every group of
  concurrent transactions the coordinator commits, one log record at a time.
\<close>

section \<open>Equal up to charges\<close>

definition data_alike :: "entity_data \<Rightarrow> entity_data \<Rightarrow> bool" where
  "data_alike d d' = (ed_events d = [] \<and> (\<exists>c. d' = d\<lparr>ed_charges := c\<rparr>))"

definition overlays_alike :: "overlay \<Rightarrow> overlay \<Rightarrow> bool" where
  "overlays_alike ov ov' = (om_inv (ov_entries ov) \<and> om_inv (ov_entries ov') \<and>
     (\<forall>k. rel_option data_alike (overlay_get ov k) (overlay_get ov' k)))"

definition states_alike :: "readstate \<Rightarrow> readstate \<Rightarrow> bool" where
  "states_alike a b = (rs_root b = rs_root a \<and> rs_store b = rs_store a \<and> rs_catalog b = rs_catalog a \<and> rs_lsn b = rs_lsn a \<and>
     overlays_alike (rs_overlay a) (rs_overlay b))"

lemma alike_get:
  assumes "overlays_alike ov ov'"
  shows "overlay_get ov k = None \<Longrightarrow> overlay_get ov' k = None"
    and "overlay_get ov k = Some d \<Longrightarrow> ed_events d = [] \<and> (\<exists>c. overlay_get ov' k = Some (d\<lparr>ed_charges := c\<rparr>))"
proof -
  have "rel_option data_alike (overlay_get ov k) (overlay_get ov' k)" using assms unfolding overlays_alike_def by blast
  then show "overlay_get ov k = None \<Longrightarrow> overlay_get ov' k = None"
    "overlay_get ov k = Some d \<Longrightarrow> ed_events d = [] \<and> (\<exists>c. overlay_get ov' k = Some (d\<lparr>ed_charges := c\<rparr>))"
    by (auto simp: data_alike_def option_rel_Some1)
qed

text \<open>No read sees the difference.\<close>

lemma uncharged_reads:
  "ed_current (d\<lparr>ed_charges := c\<rparr>) = ed_current d" "ed_base (d\<lparr>ed_charges := c\<rparr>) = ed_base d"
  "entity_at (d\<lparr>ed_charges := c\<rparr>) def v u = entity_at d def v u"
proof -
  show current: "ed_current (d\<lparr>ed_charges := c\<rparr>) = ed_current d" and base: "ed_base (d\<lparr>ed_charges := c\<rparr>) = ed_base d" by simp_all
  have "nearest_snapshot (d\<lparr>ed_charges := c\<rparr>) v u = nearest_snapshot d v u" by (simp add: nearest_snapshot_def split: option.split prod.split)
  moreover have "from_disk (d\<lparr>ed_charges := c\<rparr>) v u st = from_disk d v u st" for st by (simp add: from_disk_def split: option.split)
  moreover have "ed_committed (d\<lparr>ed_charges := c\<rparr>) = ed_committed d" "ed_events (d\<lparr>ed_charges := c\<rparr>) = ed_events d" by simp_all
  ultimately show "entity_at (d\<lparr>ed_charges := c\<rparr>) def v u = entity_at d def v u" by (simp only: entity_at_def current base)
qed

lemma alike_state_get: "states_alike a b \<Longrightarrow> rs_poisoned b = rs_poisoned a \<Longrightarrow> state_get b t ent = state_get a t ent"
proof -
  assume a: "states_alike a b" "rs_poisoned b = rs_poisoned a"
  then have ov: "overlays_alike (rs_overlay a) (rs_overlay b)" by (simp add: states_alike_def)
  show ?thesis using a alike_get [OF ov, of "(t, ent)"]
    by (cases "overlay_get (rs_overlay a) (t, ent)")
       (auto simp: state_get_def states_alike_def state_ready_def table_definition_def)
qed

lemma alike_read_version:
  "states_alike a b \<Longrightarrow> rs_poisoned b = rs_poisoned a \<Longrightarrow> read_version b t ent v u = read_version a t ent v u"
proof -
  assume a: "states_alike a b" "rs_poisoned b = rs_poisoned a"
  then have ov: "overlays_alike (rs_overlay a) (rs_overlay b)" by (simp add: states_alike_def)
  have same: "table_definition b t = table_definition a t" "state_ready b = state_ready a" "rs_root b = rs_root a" "rs_store b = rs_store a"
    using a by (simp_all add: states_alike_def state_ready_def table_definition_def)
  show ?thesis
  proof (cases "overlay_get (rs_overlay a) (t, ent)")
    case None
    then show ?thesis using alike_get(1) [OF ov None] same by (simp add: read_version_def)
  next
    case (Some d)
    then obtain c where "overlay_get (rs_overlay b) (t, ent) = Some (d\<lparr>ed_charges := c\<rparr>)" using alike_get(2) [OF ov] by blast
    then show ?thesis using Some same by (simp add: read_version_def uncharged_reads)
  qed
qed

text \<open>A base that nobody changed since loads as the recovered state does.\<close>

definition unchanged :: "entity_ref set \<Rightarrow> readstate \<Rightarrow> readstate \<Rightarrow> bool" where
  "unchanged K b a = (rs_root b = rs_root a \<and> rs_store b = rs_store a \<and> rs_catalog b = rs_catalog a \<and>
     (\<forall>k \<in> K. overlay_get (rs_overlay b) k = overlay_get (rs_overlay a) k))"

lemma loads_alike:
  assumes "unchanged K b a" "states_alike a r"
  shows "loads_alike K b r"
  unfolding loads_alike_def
proof (intro ballI allI impI)
  fix k d assume k: "k \<in> K" and d: "load b (fst k) (snd k) = Inr d"
  have ov: "overlays_alike (rs_overlay a) (rs_overlay r)" using assms(2) by (simp add: states_alike_def)
  have same: "table_definition r (fst k) = table_definition b (fst k)" "rs_root r = rs_root b" "rs_store r = rs_store b"
    using assms by (simp_all add: states_alike_def unchanged_def table_definition_def)
  have get: "overlay_get (rs_overlay a) (fst k, snd k) = overlay_get (rs_overlay b) (fst k, snd k)" using assms(1) k by (simp add: unchanged_def)
  show "case d of None \<Rightarrow> load r (fst k) (snd k) = Inr None
      | Some x \<Rightarrow> ed_events x = [] \<and> (\<exists>c. load r (fst k) (snd k) = Inr (Some (x\<lparr>ed_charges := c\<rparr>)))"
  proof (cases "overlay_get (rs_overlay b) (fst k, snd k)")
    case None
    then have "overlay_get (rs_overlay r) (fst k, snd k) = None" using alike_get(1) [OF ov] get by simp
    then have r: "load r (fst k) (snd k) = Inr d" using d None same by (simp add: load_def load_charged_def)
    show ?thesis
    proof (cases d)
      case (Some x)
      have "root_entity (rs_root b) (rs_store b) (fst k) (snd k) = Inr (Some x)"
        using d None Some by (auto simp: load_def load_charged_def root_entity_def res_simps)
      from root_entity_fresh [OF this] r Some show ?thesis by (intro option.case_eq_if [THEN iffD2] conjI) (auto intro!: exI [of _ "ed_charges x"])
    qed (use r in simp)
  next
    case (Some x)
    then obtain c where c: "ed_events x = []" "overlay_get (rs_overlay r) (fst k, snd k) = Some (x\<lparr>ed_charges := c\<rparr>)"
      using alike_get(2) [OF ov] get by metis
    have "d = Some x" "load r (fst k) (snd k) = Inr (Some (x\<lparr>ed_charges := c\<rparr>))"
      using d Some c(2) same by (auto simp: load_def load_charged_def Let_def res_simps uncharged_reads)
    then show ?thesis using c(1) by auto
  qed
qed

section \<open>Publishing\<close>

lemma overlay_get_insert: "om_inv (ov_entries ov) \<Longrightarrow> overlay_get (overlay_insert ov k d) j = (if j = k then Some d else overlay_get ov j)"
  by (auto simp: overlay_get_def overlay_insert_def Let_def om.get_ins split: option.split)

lemma overlay_inv_insert: "om_inv (ov_entries ov) \<Longrightarrow> om_inv (ov_entries (overlay_insert ov k d))"
  by (auto simp: overlay_insert_def Let_def split: option.split)

lemma overlays_alike_insert:
  "overlays_alike ov ov' \<Longrightarrow> data_alike d d' \<Longrightarrow> overlays_alike (overlay_insert ov k d) (overlay_insert ov' k d')"
  by (simp add: overlays_alike_def overlay_get_insert overlay_inv_insert)

lemma overlays_alike_extend:
  assumes "list_all2 (\<lambda>e f. fst f = fst e \<and> data_alike (snd e) (snd f)) es fs" "overlays_alike ov ov'"
  shows "overlays_alike (overlay_extend ov es) (overlay_extend ov' fs)"
  using assms unfolding overlay_extend_def
  by (induction es fs arbitrary: ov ov' rule: list_all2_induct) (auto intro: overlays_alike_insert)

lemma overlay_extend_other:
  assumes "om_inv (ov_entries ov)" "k \<notin> fst ` set es"
  shows "overlay_get (overlay_extend ov es) k = overlay_get ov k"
  using assms unfolding overlay_extend_def
  by (induction es arbitrary: ov) (auto simp: overlay_get_insert overlay_inv_insert)

lemma overlay_extend_inv: "om_inv (ov_entries ov) \<Longrightarrow> om_inv (ov_entries (overlay_extend ov es))"
  unfolding overlay_extend_def by (induction es arbitrary: ov) (auto simp: overlay_inv_insert)

lemma stamp_fresh:
  assumes "data_fresh b d"
  shows "stamp_data (rs_lsn b) n d = d\<lparr>ed_events := map (stamp n) (ed_events d)\<rparr>"
proof -
  have "ev_transaction e > rs_lsn b" if "e \<in> set (ed_events d)" for e
  proof -
    have "checked_add64 (rs_lsn b) 1 = Some (ev_transaction e)" using assms that by (simp add: data_fresh_def)
    then have "unat (ev_transaction e) = unat (rs_lsn b) + 1" by (simp add: checked_add64_Some_iff)
    then show ?thesis by (simp add: word_less_nat_alt)
  qed
  then show ?thesis by (simp add: stamp_data_def stamp_def cong: map_cong)
qed

lemma sealed_alike: "data_alike (seal_charged n r (d\<lparr>ed_events := map (stamp n) (ed_events d)\<rparr>)) (seal_charged n r' (stamped n c d))"
  unfolding data_alike_def
  by (auto simp: seal_charged_def entity_seal_def stamped_def intro!: exI [of _ "om_insert c n r'"])

lemma refresh_fields [simp]: "rs_root (refresh_overlay_bytes s) = rs_root s" "rs_store (refresh_overlay_bytes s) = rs_store s"
    "rs_catalog (refresh_overlay_bytes s) = rs_catalog s" "rs_overlay (refresh_overlay_bytes s) = rs_overlay s"
    "rs_lsn (refresh_overlay_bytes s) = rs_lsn s" "rs_poisoned (refresh_overlay_bytes s) = rs_poisoned s"
  by (simp_all add: refresh_overlay_bytes_def)

definition published_entries :: "prepared \<Rightarrow> u64 \<Rightarrow> (entity_ref \<times> entity_data) list" where
  "published_entries p n = map (\<lambda>e. (fst e, seal_charged n (pr_reservation p) (snd e))) (pr_staged p)"

lemma published_fields [simp]:
  "rs_root (db_state (publish_state p n db)) = rs_root (db_state db)" "rs_store (db_state (publish_state p n db)) = rs_store (db_state db)"
  "rs_catalog (db_state (publish_state p n db)) = pr_catalog p" "rs_lsn (db_state (publish_state p n db)) = n"
  "rs_poisoned (db_state (publish_state p n db)) = rs_poisoned (db_state db)"
  "rs_overlay (db_state (publish_state p n db)) = overlay_extend (rs_overlay (db_state db)) (published_entries p n)"
  "db_options (publish_state p n db) = db_options db" "db_wal (publish_state p n db) = db_wal db" "db_shared_mode (publish_state p n db) = db_shared_mode db"
  by (simp_all add: publish_state_def published_entries_def Let_def)

lemma entries_keys: "fst ` set (published_entries p n) = set (pr_keys p)"
  by (simp add: published_entries_def pr_keys_def image_image)

section \<open>Replaying one record\<close>

text \<open>A batch nobody's commit has overtaken: prepared by a transaction over a base that still stands for its keys.\<close>

definition current :: "readstate \<Rightarrow> prepared \<Rightarrow> bool" where
  "current a p = (\<exists>b s dl. p = prepare s dl \<and> tx_reach b s \<and> \<not> sg_failed s \<and> base_ok b \<and> sg_operations s \<noteq> [] \<and>
     rs_lsn b \<le> rs_lsn a \<and> unchanged (set (pr_keys p)) b a)"

lemma recovery_begins: "\<exists>s u'. staging_new b options False True u = Inr (s, u')"
  by (simp add: staging_new_def grow_recovered_def)

lemma published_alike:
  assumes s: "tx_facts b s" "\<not> sg_failed s" and sim: "sim K n s r"
  shows "list_all2 (\<lambda>e f. fst f = fst e \<and> data_alike (snd e) (snd f))
    (published_entries (stamp_batch n (prepare s dl)) n) (published_entries (prepare r dl') n)"
proof -
  let ?f = "\<lambda>e. (fst e, seal_charged n (sg_reservation s) (stamp_data (rs_lsn b) n (snd e)))"
  let ?g = "\<lambda>e. (fst e, seal_charged n (sg_reservation r) (snd e))"
  have fresh: "data_fresh b (snd e)" if "e \<in> set (sg_staged s)" for e using s that by (simp add: tx_facts_def)
  have "list_all2 (\<lambda>e f. fst (?g f) = fst (?f e) \<and> data_alike (snd (?f e)) (snd (?g f))) (sg_staged s) (sg_staged r)"
  proof (rule list.rel_mono_strong [OF sim_staged [OF sim, unfolded staged_alike_def]])
    fix e f assume e: "e \<in> set (sg_staged s)" and a: "fst f = fst e \<and> alike n (snd e) (snd f)"
    then obtain c where "snd f = stamped n c (snd e)" by (auto simp: alike_def)
    then show "fst (?g f) = fst (?f e) \<and> data_alike (snd (?f e)) (snd (?g f))"
      using a sealed_alike [of n "sg_reservation s" "snd e" "sg_reservation r" c] by (simp add: stamp_fresh [OF fresh [OF e]])
  qed
  moreover have "published_entries (stamp_batch n (prepare s dl)) n = map ?f (sg_staged s)"
    using s(1) by (simp add: published_entries_def prepare_def stamp_batch_def tx_facts_def comp_def)
  moreover have "published_entries (prepare r dl') n = map ?g (sg_staged r)"
    by (simp add: published_entries_def prepare_def)
  ultimately show ?thesis by (simp add: list.rel_map)
qed

lemma replay_record:
  assumes cur: "current (db_state db) p" and alike: "states_alike (db_state db) (db_state db')" "\<not> rs_poisoned (db_state db')"
    and n: "checked_add64 (rs_lsn (db_state db)) 1 = Some n" and len: "length (encode_ops (pr_operations p)) \<le> MAX_FRAME"
  obtains db'' u'' where "recover_transaction \<lparr>fr_kind = 2, fr_lsn = n, fr_payload = encode_ops (pr_operations p)\<rparr> (db', u) = Inr (db'', u'')"
    "states_alike (db_state (publish_state (stamp_batch n p) n db)) (db_state db'')" "\<not> rs_poisoned (db_state db'')"
    "rs_root (db_state db'') = rs_root (db_state db')" "db_wal db'' = db_wal db'"
proof -
  obtain b s dl where p: "p = prepare s dl" and s: "tx_reach b s" "\<not> sg_failed s" "base_ok b" "sg_operations s \<noteq> []"
      and un: "unchanged (set (pr_keys p)) b (db_state db)"
    using cur unfolding current_def by (elim exE conjE) (rule that)
  have inv: "tx_facts b s" "tx_replays b s" using tx_reach_inv [OF s(1,3)] by (simp_all add: tx_inv_def)
  obtain r0 u0 where r0: "staging_new (db_state db') (db_options db') False True u = Inr (r0, u0)" using recovery_begins by blast
  note f = staging_new_fields [OF r0]
  let ?K = "set (pr_keys p)"
  have "ready_for ?K n b (fst (r0, u0))"
    using f alike un n loads_alike [OF un alike(1)] by (simp add: ready_for_def state_ready_def states_alike_def unchanged_def)
  moreover have "k \<in> ?K" if "x \<in> set (sg_operations s)" "entity_key x = Some k" for x k
  proof -
    have "bt_has (sg_staged s) k" using inv(1) s(2) that unfolding tx_facts_def by blast
    then show ?thesis unfolding p by (auto simp: pr_keys_def prepare_def bt_has_def dest: map_of_SomeD intro!: image_eqI)
  qed
  ultimately obtain r u1 where r: "stage_all (sg_operations s) (r0, u0) = (Inr (), (r, u1))" "sim ?K n s r"
    using inv(2) s(2) unfolding tx_replays_def by (metis prod.collapse)
  have ops: "pr_operations p = sg_operations s" by (simp add: p prepare_def)
  have "decode_ops (encode_ops (sg_operations s)) = Inr (sg_operations s)"
    by (rule decode_encode_ops) (use inv(1) s len ops in \<open>auto simp: tx_facts_def MAX_FRAME_def\<close>)
  moreover have "checked_add64 (rs_lsn (db_state db')) 1 = Some n" using n alike(1) by (simp add: states_alike_def)
  moreover define db1 where "db1 = publish_batch (prepare r None) n db'"
  ultimately have rec: "recover_transaction \<lparr>fr_kind = 2, fr_lsn = n, fr_payload = encode_ops (pr_operations p)\<rparr> (db', u) =
      Inr (db1\<lparr>db_wal_bytes := saturating_add64 (db_wal_bytes db1) (of_nat (40 + length (encode_ops (pr_operations p))))\<rparr>, u1)"
    using r0 r(1) ops by (simp add: recover_transaction_def db1_def Let_def)
  have "overlays_alike (overlay_extend (rs_overlay (db_state db)) (published_entries (stamp_batch n p) n))
      (overlay_extend (rs_overlay (db_state db')) (published_entries (prepare r None) n))"
    unfolding p using alike(1) by (intro overlays_alike_extend [OF published_alike [OF inv(1) s(2) r(2)]]) (simp add: states_alike_def)
  moreover have "sg_catalog r = sg_catalog s" using r(2) by (simp add: sim_def)
  ultimately have "states_alike (db_state (publish_state (stamp_batch n p) n db)) (db_state db1)"
    using alike(1) by (simp add: states_alike_def db1_def publish_batch_def db_publish_def p prepare_def)
  then show thesis
    by (intro that [OF rec]) (use alike in \<open>simp_all add: db1_def publish_batch_def db_publish_def\<close>)
qed

section \<open>Publishing keeps other batches current\<close>

definition compatible :: "prepared \<Rightarrow> prepared \<Rightarrow> bool" where
  "compatible p q = (\<not> changes_catalog p \<and> set (pr_keys p) \<inter> set (pr_keys q) = {})"

text \<open>What a current batch contributes: sealed entities whose older history is in the current checkpoint.\<close>

lemma current_facts:
  assumes "current a p"
  shows "pr_operations p \<noteq> []" "\<not> changes_catalog p \<Longrightarrow> pr_catalog p = rs_catalog a" "catalog_ok (pr_catalog p)"
    "\<And>e. e \<in> set (pr_staged p) \<Longrightarrow> \<forall>disk. ed_disk (snd e) = Some disk \<longrightarrow> dh_root disk = rs_root a"
    "pr_root_generation p = r_generation (rs_root a)" "pr_base_sequence p \<le> rs_lsn a"
proof -
  obtain b s dl where p: "p = prepare s dl" and s: "tx_reach b s" "\<not> sg_failed s" "base_ok b" "sg_operations s \<noteq> []" "rs_lsn b \<le> rs_lsn a"
      and un: "unchanged (set (pr_keys p)) b a"
    using assms unfolding current_def by (elim exE conjE) (rule that)
  have inv: "tx_facts b s" using tx_reach_inv [OF s(1,3)] by (simp add: tx_inv_def)
  show "pr_operations p \<noteq> []" using s(4) by (simp add: p prepare_def)
  show "catalog_ok (pr_catalog p)" using inv s(2) by (simp add: p prepare_def tx_facts_def)
  show "pr_catalog p = rs_catalog a" if "\<not> changes_catalog p"
  proof -
    have "\<forall>x \<in> set (sg_operations s). entity_key x \<noteq> None"
    proof
      fix x assume x: "x \<in> set (sg_operations s)"
      have "\<not> (case x of TableOp _ \<Rightarrow> True | _ \<Rightarrow> False)"
        using bspec [OF that [unfolded changes_catalog_def p prepare_def, simplified] x] by simp
      then show "entity_key x \<noteq> None" by (cases x) simp_all
    qed
    then show ?thesis using inv s(2) un by (simp add: p prepare_def tx_facts_def unchanged_def)
  qed
  show "\<forall>disk. ed_disk (snd e) = Some disk \<longrightarrow> dh_root disk = rs_root a" if "e \<in> set (pr_staged p)" for e
    using inv s(2) un that by (simp add: p prepare_def tx_facts_def unchanged_def data_fresh_def)
  show "pr_root_generation p = r_generation (rs_root a)" "pr_base_sequence p \<le> rs_lsn a"
    using inv un s(5) by (simp_all add: p prepare_def tx_facts_def unchanged_def)
qed

lemma current_published:
  assumes p: "current (db_state db) p" and q: "current (db_state db) q" and pq: "compatible p q" and n: "rs_lsn (db_state db) \<le> n"
    and inv: "om_inv (ov_entries (rs_overlay (db_state db)))"
  shows "current (db_state (publish_state (stamp_batch n p) n db)) q"
proof -
  obtain b s dl where b: "q = prepare s dl" "tx_reach b s" "\<not> sg_failed s" "base_ok b" "sg_operations s \<noteq> []" "rs_lsn b \<le> rs_lsn (db_state db)"
      and un: "unchanged (set (pr_keys q)) b (db_state db)"
    using q unfolding current_def by (elim exE conjE) (rule that)
  have "overlay_get (overlay_extend (rs_overlay (db_state db)) (published_entries (stamp_batch n p) n)) k = overlay_get (rs_overlay (db_state db)) k"
    if "k \<in> set (pr_keys q)" for k
    by (rule overlay_extend_other [OF inv]) (use that pq in \<open>auto simp: entries_keys compatible_def\<close>)
  then have "unchanged (set (pr_keys q)) b (db_state (publish_state (stamp_batch n p) n db))"
    using un current_facts(2) [OF p] pq by (simp add: unchanged_def compatible_def)
  moreover have "rs_lsn b \<le> rs_lsn (db_state (publish_state (stamp_batch n p) n db))" using b(6) n by simp
  ultimately show ?thesis using b(1-5) unfolding current_def by blast
qed

lemma extend_entries:
  assumes "om_inv (ov_entries ov)" "overlay_get (overlay_extend ov es) k = Some d"
  shows "overlay_get ov k = Some d \<or> (k, d) \<in> set es"
  using assms(2)
proof (induction es rule: rev_induct)
  case (snoc e es)
  have step: "overlay_extend ov (es @ [e]) = overlay_insert (overlay_extend ov es) (fst e) (snd e)" by (simp add: overlay_extend_def)
  show ?case
  proof (cases "k = fst e")
    case True
    then have "d = snd e" using snoc.prems by (simp add: step overlay_get_insert [OF overlay_extend_inv [OF assms(1)]])
    then show ?thesis using True by simp
  next
    case False
    then have "overlay_get (overlay_extend ov es) k = Some d"
      using snoc.prems by (simp add: step overlay_get_insert [OF overlay_extend_inv [OF assms(1)]])
    then show ?thesis using snoc.IH by auto
  qed
qed (simp add: overlay_extend_def)

lemma published_base_ok:
  assumes p: "current (db_state db) p" and ok: "base_ok (db_state db)"
  shows "base_ok (db_state (publish_state (stamp_batch n p) n db))"
proof -
  have inv: "om_inv (ov_entries (rs_overlay (db_state db)))" using ok by (simp add: base_ok_def)
  have "ed_events d = [] \<and> (\<forall>disk. ed_disk d = Some disk \<longrightarrow> dh_root disk = rs_root (db_state db))"
    if "overlay_get (overlay_extend (rs_overlay (db_state db)) (published_entries (stamp_batch n p) n)) k = Some d" for k d
    using extend_entries [OF inv that]
  proof
    assume "(k, d) \<in> set (published_entries (stamp_batch n p) n)"
    then obtain e where e: "e \<in> set (pr_staged p)" "d = seal_charged n (pr_reservation p) (stamp_data (pr_base_sequence p) n (snd e))"
      by (auto simp: published_entries_def stamp_batch_def)
    then have "ed_disk d = ed_disk (snd e)" "ed_events d = []" by (simp_all add: seal_charged_def entity_seal_def stamp_data_def)
    then show ?thesis using current_facts(4) [OF p e(1)] by simp
  next
    assume "overlay_get (rs_overlay (db_state db)) k = Some d"
    then show ?thesis using ok unfolding base_ok_def by blast
  qed
  then show ?thesis using current_facts(3) [OF p] overlay_extend_inv [OF inv] unfolding base_ok_def by simp
qed

section \<open>Replaying a group\<close>

fun group_log :: "u64 \<Rightarrow> nat \<Rightarrow> (nat \<times> prepared) list \<Rightarrow> frame list" where
  "group_log lsn offset [] = []"
| "group_log lsn offset (p # ps) =
     \<lparr>fr_kind = 2, fr_lsn = lsn + of_nat offset + 1, fr_payload = encode_ops (pr_operations (snd p))\<rparr> # group_log lsn (Suc offset) ps"

text \<open>The live state after a group and the recovered one after its records, together with what holds between groups.\<close>

definition live_ok :: "database \<Rightarrow> bool" where
  "live_ok db = (base_ok (db_state db) \<and> r_lsn (rs_root (db_state db)) \<le> rs_lsn (db_state db))"

lemma group_replay:
  assumes "group_frames lsn offset qs = Inr (ps, frs)" "unat (rs_lsn (db_state db)) = unat lsn + offset" "offset + length qs < 2 ^ 64"
    and "\<forall>q \<in> set qs. current (db_state db) (snd q)" "sorted_wrt compatible (map snd qs)" "live_ok db"
    and "states_alike (db_state db) (db_state db')" "\<not> rs_poisoned (db_state db')"
  shows "\<exists>db'' u''. res_fold recover_record (group_log lsn offset qs) (db', u) = Inr (db'', u'') \<and>
    states_alike (db_state (fst (publish_all lsn offset ps db rs))) (db_state db'') \<and> \<not> rs_poisoned (db_state db'') \<and>
    db_wal db'' = db_wal db' \<and> live_ok (fst (publish_all lsn offset ps db rs)) \<and>
    rs_lsn (db_state db) \<le> rs_lsn (db_state (fst (publish_all lsn offset ps db rs))) \<and>
    frames_encode (group_log lsn offset qs) = Inr (concat frs)"
  using assms
proof (induction qs arbitrary: offset ps frs db db' u rs)
  case (Cons iq qs)
  obtain i q where iq: "iq = (i, q)" by (cases iq)
  obtain n fr ps1 frs1 where g: "checked_add64 lsn (of_nat offset + 1) = Some n" "frame_encode 2 n (encode_ops (pr_operations q)) = Inr fr"
      "group_frames lsn (Suc offset) qs = Inr (ps1, frs1)" "ps = (i, stamp_batch n q) # ps1" "frs = fr # frs1"
    using Cons.prems(1) by (auto simp: iq res_simps)
  note n = next_number [OF g(1) Cons.prems(2)]
  have small: "offset + 1 < 2 ^ 64" using Cons.prems(3) by simp
  have q: "current (db_state db) q" using Cons.prems(4) by (simp add: iq)
  have len: "length (encode_ops (pr_operations q)) \<le> MAX_FRAME" using g(2) by (simp add: frame_encode_Inr)
  obtain db1 u1 where r: "recover_transaction \<lparr>fr_kind = 2, fr_lsn = n, fr_payload = encode_ops (pr_operations q)\<rparr> (db', u) = Inr (db1, u1)"
      "states_alike (db_state (publish_state (stamp_batch n q) n db)) (db_state db1)" "\<not> rs_poisoned (db_state db1)"
      "rs_root (db_state db1) = rs_root (db_state db')" "db_wal db1 = db_wal db'"
    by (rule replay_record [OF q Cons.prems(7,8) n(2) [OF small] len])
  let ?db = "publish_state (stamp_batch n q) n db"
  have lt: "rs_lsn (db_state db) < n" using n(3) [OF small] Cons.prems(2) by (simp add: word_less_nat_alt)
  have "r_lsn (rs_root (db_state db')) \<le> rs_lsn (db_state db)" using Cons.prems(6,7) by (simp add: live_ok_def states_alike_def)
  then have "r_lsn (rs_root (db_state db')) < n" using lt by (rule le_less_trans)
  then have rec: "recover_record \<lparr>fr_kind = 2, fr_lsn = n, fr_payload = encode_ops (pr_operations q)\<rparr> (db', u) = Inr (db1, u1)"
    using r(1) by (simp add: recover_record_def)
  have ok: "live_ok ?db"
    using published_base_ok [OF q, of n] Cons.prems(6) lt by (auto simp: live_ok_def)
  have cur: "\<forall>p \<in> set qs. current (db_state ?db) (snd p)"
  proof
    fix p assume that: "p \<in> set qs"
    show "current (db_state ?db) (snd p)"
    proof (rule current_published [OF q])
      show "current (db_state db) (snd p)" "compatible q (snd p)" using Cons.prems(4,5) that by (simp_all add: iq)
      show "om_inv (ov_entries (rs_overlay (db_state db)))" using Cons.prems(6) by (simp add: live_ok_def base_ok_def)
    qed (use lt in simp)
  qed
  have le: "unat (rs_lsn (db_state ?db)) = unat lsn + Suc offset" using n(3) [OF small] by simp
  have rest: "Suc offset + length qs < 2 ^ 64" "sorted_wrt compatible (map snd qs)" using Cons.prems(3,5) by simp_all
  obtain db2 u2 where "res_fold recover_record (group_log lsn (Suc offset) qs) (db1, u1) = Inr (db2, u2)"
      "states_alike (db_state (fst (publish_all lsn (Suc offset) ps1 ?db (rs[i := Some (Inr n)])))) (db_state db2)" "\<not> rs_poisoned (db_state db2)"
      "db_wal db2 = db_wal db1" "live_ok (fst (publish_all lsn (Suc offset) ps1 ?db (rs[i := Some (Inr n)])))"
      "n \<le> rs_lsn (db_state (fst (publish_all lsn (Suc offset) ps1 ?db (rs[i := Some (Inr n)]))))"
      "frames_encode (group_log lsn (Suc offset) qs) = Inr (concat frs1)"
    using Cons.IH [OF g(3) le rest(1) cur rest(2) ok r(2,3)] by (metis published_fields(4))
  then show ?case using rec g(2,4,5) n(1) [OF small] r(5) lt by (auto simp: iq Let_def)
next
  case Nil
  then show ?case by auto
qed

text \<open>What publishing a group leaves alone.\<close>

lemma publish_all_fields:
  "rs_root (db_state (fst (publish_all first offset ps db rs))) = rs_root (db_state db) \<and>
   rs_store (db_state (fst (publish_all first offset ps db rs))) = rs_store (db_state db) \<and>
   rs_poisoned (db_state (fst (publish_all first offset ps db rs))) = rs_poisoned (db_state db) \<and>
   db_shared_mode (fst (publish_all first offset ps db rs)) = db_shared_mode db"
  by (induction first offset ps db rs rule: publish_all.induct) (simp_all add: Let_def)

lemma publish_all_other:
  assumes "om_inv (ov_entries (rs_overlay (db_state db)))" "\<forall>p \<in> set ps. k \<notin> set (pr_keys (snd p))"
  shows "overlay_get (rs_overlay (db_state (fst (publish_all first offset ps db rs)))) k = overlay_get (rs_overlay (db_state db)) k"
  using assms
proof (induction first offset ps db rs rule: publish_all.induct)
  case (2 first offset i p ps db rs)
  let ?n = "first + of_nat offset + 1"
  have "k \<notin> fst ` set (published_entries p ?n)" using 2(3) by (simp add: entries_keys)
  then have "overlay_get (rs_overlay (db_state (publish_state p ?n db))) k = overlay_get (rs_overlay (db_state db)) k"
    using overlay_extend_other [OF 2(2)] by simp
  moreover have "om_inv (ov_entries (rs_overlay (db_state (publish_state p ?n db))))" using overlay_extend_inv [OF 2(2)] by simp
  ultimately show ?case using 2(1) [OF refl] 2(3) by (simp add: Let_def)
qed simp

lemma publish_all_catalog:
  assumes "\<forall>p \<in> set ps. pr_catalog (snd p) = rs_catalog (db_state db)"
  shows "rs_catalog (db_state (fst (publish_all first offset ps db rs))) = rs_catalog (db_state db)"
  using assms by (induction first offset ps db rs rule: publish_all.induct) (simp_all add: Let_def)

section \<open>Validation\<close>

lemma map_of_inserts: "map_of (fold (\<lambda>k m. bt_insert k n m) ks m) j = (if j \<in> set ks then Some n else map_of m j)"
  by (induction ks arbitrary: m) auto

text \<open>Whether a key was written after the sequence number \<open>l\<close>, as far as the revisions tell.\<close>

definition unrevised :: "(entity_ref, u64) btree \<Rightarrow> u64 \<Rightarrow> entity_ref \<Rightarrow> bool" where
  "unrevised revisions l k = (case map_of revisions k of Some n \<Rightarrow> n \<le> l | None \<Rightarrow> True)"

lemma validate_facts:
  assumes "validate_batch c group_keys revision now p = Inr u"
  shows "db_ready (co_database c) = Inr ()" "revision \<le> pr_base_sequence p"
    "k \<in> set (pr_keys p) \<Longrightarrow> case map_of group_keys k of Some n \<Rightarrow> n \<le> pr_base_sequence p | None \<Rightarrow> unrevised (co_revisions c) (pr_base_sequence p) k"
proof -
  have *: "db_ready (co_database c) = Inr ()" "\<not> revision > pr_base_sequence p" "find (conflicting c group_keys p) (pr_keys p) = None"
    using assms by (auto simp: validate_batch_def res_simps split: if_splits option.splits)
  show "db_ready (co_database c) = Inr ()" "revision \<le> pr_base_sequence p" using * by simp_all
  assume "k \<in> set (pr_keys p)"
  then have "\<not> conflicting c group_keys p k" using *(3) unfolding find_None_iff by blast
  then show "case map_of group_keys k of Some n \<Rightarrow> n \<le> pr_base_sequence p | None \<Rightarrow> unrevised (co_revisions c) (pr_base_sequence p) k"
    by (auto simp: conflicting_def unrevised_def split: option.splits)
qed

text \<open>
  The accepted batches. Keys written earlier in the group are noted with the greatest number there
  is, which refuses every batch that does not itself begin at that number; a database whose numbers
  have run out to that point commits nothing.
\<close>

lemma accept_facts:
  assumes "accept_batches c clock t group_keys revision ps = (completed, metadata, accepted)" "\<forall>k n. map_of group_keys k = Some n \<longrightarrow> n = - 1"
  shows "map snd metadata = map (\<lambda>p. (pr_keys p, changes_catalog p)) accepted \<and> set accepted \<subseteq> snd ` set ps \<and>
    length accepted \<le> length ps \<and>
    (\<forall>p \<in> set accepted. revision \<le> pr_base_sequence p \<and> (\<forall>k \<in> set (pr_keys p). unrevised (co_revisions c) (pr_base_sequence p) k) \<and>
      (pr_base_sequence p < - 1 \<longrightarrow> (\<forall>k \<in> set (pr_keys p). map_of group_keys k = None))) \<and>
    ((\<forall>p \<in> set accepted. pr_base_sequence p < - 1) \<longrightarrow> sorted_wrt compatible accepted)"
  using assms
proof (induction c clock t group_keys revision ps arbitrary: completed metadata accepted rule: accept_batches.induct)
  case (2 c clock t group_keys revision tk p ps)
  show ?case
  proof (cases "validate_batch c group_keys revision (clock t) p")
    case (Inl e)
    obtain co me ac where a: "accept_batches c clock (Suc t) group_keys revision ps = (co, me, ac)" "metadata = me" "accepted = ac"
      using 2(3) Inl by (auto split: prod.splits)
    from 2(1) [OF Inl a(1) 2(4)] show ?thesis using a(2,3) by auto
  next
    case (Inr u)
    let ?keys = "fold (\<lambda>k m. bt_insert k (- 1) m) (pr_keys p) group_keys" and ?rev = "if changes_catalog p then - 1 else revision"
    obtain co me ac where a: "accept_batches c clock (Suc t) ?keys ?rev ps = (co, me, ac)"
        "metadata = (tk, pr_keys p, changes_catalog p) # me" "accepted = p # ac"
      using 2(3) Inr by (auto split: prod.splits)
    have "\<forall>k n. map_of ?keys k = Some n \<longrightarrow> n = - 1" using 2(4) by (simp add: map_of_inserts)
    note IH = 2(2) [OF Inr a(1) this]
    note v = validate_facts [OF Inr]
    have own: "unrevised (co_revisions c) (pr_base_sequence p) k \<and> (pr_base_sequence p < - 1 \<longrightarrow> map_of group_keys k = None)"
      if "k \<in> set (pr_keys p)" for k
    proof (cases "map_of group_keys k")
      case (Some n)
      then have "n = - 1" using 2(4) by blast
      then have "pr_base_sequence p = - 1" using v(3) [OF that] Some by (simp add: word_order.extremum_unique)
      then show ?thesis by (simp add: unrevised_def split: option.split)
    qed (use v(3) [OF that] in simp)
    have later: "pr_base_sequence q < - 1 \<longrightarrow> compatible p q" "revision \<le> pr_base_sequence q"
        "pr_base_sequence q < - 1 \<longrightarrow> (\<forall>k \<in> set (pr_keys q). map_of group_keys k = None)" if "q \<in> set ac" for q
    proof -
      have q: "?rev \<le> pr_base_sequence q" "pr_base_sequence q < - 1 \<longrightarrow> (\<forall>k \<in> set (pr_keys q). map_of ?keys k = None)" using IH that by blast+
      show "revision \<le> pr_base_sequence q" using q(1) by (auto simp: word_order.extremum_unique split: if_splits)
      show "pr_base_sequence q < - 1 \<longrightarrow> compatible p q"
        using q by (auto simp: compatible_def map_of_inserts split: if_splits)
      show "pr_base_sequence q < - 1 \<longrightarrow> (\<forall>k \<in> set (pr_keys q). map_of group_keys k = None)"
        using q(2) by (auto simp: map_of_inserts split: if_splits)
    qed
    show ?thesis using IH own later v(1,2) a(2,3) by auto
  qed
qed simp

end
