(* ===== verification/System.thy ===== *)
theory System
  imports Recovery_Laws
begin

text \<open>
  Concurrent transactions on one shared database: they begin over what is published, run their
  calls in any interleaving, and a leader commits any group of those that ended. The laws: whatever
  commits saw the state it commits on, and at every moment recovery from the log would rebuild the
  committed state.
\<close>

section \<open>Steps\<close>

type_synonym system = "coordinator \<times> (nat \<Rightarrow> staging option)"

text \<open>
  A commit takes the ended transactions \<open>ends\<close>, each with its ticket and its deadline. The queue
  hands a leader such a list; in between, an ended transaction does not change.
\<close>

definition ended :: "(nat \<Rightarrow> staging option) \<Rightarrow> nat \<times> instant option \<times> ticket \<Rightarrow> bool" where
  "ended txs e = (case txs (fst e) of None \<Rightarrow> False | Some s \<Rightarrow> \<not> sg_failed s \<and> sg_operations s \<noteq> [])"

definition claimed_batches :: "(nat \<Rightarrow> staging option) \<Rightarrow> (nat \<times> instant option \<times> ticket) list \<Rightarrow> (ticket \<times> prepared) list" where
  "claimed_batches txs ends = map (\<lambda>e. (snd (snd e), prepare (the (txs (fst e))) (fst (snd e)))) ends"

inductive sys_step :: "system \<Rightarrow> system \<Rightarrow> bool" where
  start: "txs i = None \<Longrightarrow> state_ready (db_published (co_database c)) = Inr () \<Longrightarrow>
    staging_new (db_published (co_database c)) options True False u = Inr (s, u') \<Longrightarrow> sys_step (c, txs) (c, txs(i := Some s))"
| call: "txs i = Some s \<Longrightarrow> call_typed x \<Longrightarrow> tx_run x (s, u) = (r, (s', u')) \<Longrightarrow> sys_step (c, txs) (c, txs(i := Some s'))"
| drop: "sys_step (c, txs) (c, txs(i := None))"
| commit: "list_all (ended txs) ends \<Longrightarrow> length ends < 2 ^ 64 \<Longrightarrow>
    run_group ckpt clock commit_clock io oldest (claimed_batches txs ends) u c = Some (answers, c', due) \<Longrightarrow>
    sys_step (c, txs) (c', \<lambda>i. if i \<in> fst ` set ends then None else txs i)"

section \<open>The revisions a group leaves\<close>

text \<open>\<open>M\<close> pairs what was noted of the accepted batches with their results.\<close>

lemma record_database: "co_database (record_results M c) = co_database c"
  by (induction M c rule: record_results.induct) (simp_all split: sum.split)

text \<open>An entry of \<open>M\<close> that committed, with the number it got.\<close>

definition committed :: "metadata \<times> u64 res \<Rightarrow> bool" where
  "committed m = (\<not> isl (snd m))"

lemma record_step: "record_results (m # M) c = record_results M (if committed m then
    c\<lparr>co_revisions := fold (\<lambda>k r. bt_insert k (projr (snd m)) r) (fst (snd (fst m))) (co_revisions c),
      co_catalog_revision := (if snd (snd (fst m)) then projr (snd m) else co_catalog_revision c)\<rparr> else c)"
  by (cases m; cases "fst m"; cases "snd m") (auto simp: committed_def)

declare record_results.simps(2) [simp del]

lemma record_other:
  assumes "\<forall>m \<in> set M. committed m \<longrightarrow> k \<notin> set (fst (snd (fst m)))"
  shows "map_of (co_revisions (record_results M c)) k = map_of (co_revisions c) k"
  using assms by (induction M arbitrary: c) (simp_all add: record_step map_of_inserts)

lemma record_catalog:
  assumes "\<forall>m \<in> set M. committed m \<longrightarrow> \<not> snd (snd (fst m))"
  shows "co_catalog_revision (record_results M c) = co_catalog_revision c"
  using assms by (induction M arbitrary: c) (simp_all add: record_step)

lemma record_written:
  assumes "\<forall>m \<in> set M. committed m \<longrightarrow> l < projr (snd m)"
    and "(\<exists>m \<in> set M. committed m \<and> k \<in> set (fst (snd (fst m)))) \<or> \<not> unrevised (co_revisions c) l k"
  shows "\<not> unrevised (co_revisions (record_results M c)) l k"
  using assms
proof (induction M arbitrary: c)
  case (Cons m M)
  show ?case unfolding record_step
    by (rule Cons.IH) (use Cons.prems in \<open>auto simp: unrevised_def map_of_inserts not_le split: option.splits if_splits\<close>)
qed simp

lemma record_changed:
  assumes "\<forall>m \<in> set M. committed m \<longrightarrow> l < projr (snd m)"
    and "(\<exists>m \<in> set M. committed m \<and> snd (snd (fst m))) \<or> l < co_catalog_revision c"
  shows "l < co_catalog_revision (record_results M c)"
  using assms
proof (induction M arbitrary: c)
  case (Cons m M)
  show ?case unfolding record_step by (rule Cons.IH) (use Cons.prems in auto)
qed simp

section \<open>The invariant\<close>

text \<open>
  A running transaction's base stands for every entity and for the catalog unless the revisions say
  otherwise.
\<close>

definition tx_current :: "coordinator \<Rightarrow> staging \<Rightarrow> bool" where
  "tx_current c s = (\<exists>b. tx_reach b s \<and> base_ok b \<and> rs_root b = rs_root (db_state (co_database c)) \<and>
     rs_store b = rs_store (db_state (co_database c)) \<and> rs_lsn b \<le> rs_lsn (db_state (co_database c)) \<and>
     (co_catalog_revision c \<le> rs_lsn b \<longrightarrow> rs_catalog b = rs_catalog (db_state (co_database c))) \<and>
     (\<forall>k. unrevised (co_revisions c) (rs_lsn b) k \<longrightarrow>
        overlay_get (rs_overlay b) k = overlay_get (rs_overlay (db_state (co_database c))) k))"

text \<open>The log holds records whose replay, from the checkpoint, gives the committed state.\<close>

definition log_current :: "database \<Rightarrow> bytes \<Rightarrow> database \<Rightarrow> bool" where
  "log_current db wal0 start = (\<exists>frs bytes. frames_encode frs = Inr bytes \<and> db_wal db = wal0 @ bytes \<and> (\<forall>fr \<in> set frs. fr_kind fr = 2) \<and>
     (\<forall>u. \<exists>db' u'. res_fold recover_record frs (start, u) = Inr (db', u') \<and> states_alike (db_state db) (db_state db') \<and>
        \<not> rs_poisoned (db_state db') \<and> db_wal db' = db_wal start))"

definition sys_inv :: "bytes \<Rightarrow> database \<Rightarrow> system \<Rightarrow> bool" where
  "sys_inv wal0 start sys = (case sys of (c, txs) \<Rightarrow> db_shared_mode (co_database c) \<and>
     (\<not> rs_poisoned (db_state (co_database c)) \<longrightarrow> live_ok (co_database c) \<and> db_published (co_database c) = db_state (co_database c) \<and>
       (\<forall>i s. txs i = Some s \<longrightarrow> tx_current c s) \<and> log_current (co_database c) wal0 start))"

text \<open>An accepted batch is current.\<close>

lemma accepted_current:
  assumes "tx_current c s" "\<not> sg_failed s" "sg_operations s \<noteq> []" "co_catalog_revision c \<le> pr_base_sequence (prepare s dl)"
    and "\<forall>k \<in> set (pr_keys (prepare s dl)). unrevised (co_revisions c) (pr_base_sequence (prepare s dl)) k"
  shows "current (db_state (co_database c)) (prepare s dl)"
proof -
  obtain b where b: "tx_reach b s" "base_ok b" "rs_root b = rs_root (db_state (co_database c))"
     "rs_store b = rs_store (db_state (co_database c))" "rs_lsn b \<le> rs_lsn (db_state (co_database c))"
     "co_catalog_revision c \<le> rs_lsn b \<longrightarrow> rs_catalog b = rs_catalog (db_state (co_database c))"
     "\<forall>k. unrevised (co_revisions c) (rs_lsn b) k \<longrightarrow>
        overlay_get (rs_overlay b) k = overlay_get (rs_overlay (db_state (co_database c))) k"
    using assms(1) unfolding tx_current_def by (elim exE conjE) (rule that)
  have "sg_base s = b" using tx_reach_inv [OF b(1,2)] by (simp add: tx_inv_def tx_facts_def)
  then have "pr_base_sequence (prepare s dl) = rs_lsn b" by (simp add: prepare_def)
  then have "co_catalog_revision c \<le> rs_lsn b" "\<forall>k \<in> set (pr_keys (prepare s dl)). unrevised (co_revisions c) (rs_lsn b) k"
    using assms(4,5) by simp_all
  then have "unchanged (set (pr_keys (prepare s dl))) b (db_state (co_database c))"
    using b(3,4,6,7) unfolding unchanged_def by blast
  then show ?thesis using b(1,2,5) assms(2,3) unfolding current_def by blast
qed

text \<open>Without a checkpoint there is nothing to rebind.\<close>

lemma rebind_same_root:
  assumes "\<forall>q \<in> set qs. current a (snd q)"
  shows "rebind_batches a qs u = Inr (qs, u)"
  using assms
proof (induction qs)
  case (Cons q qs)
  obtain i p where q: "q = (i, p)" by (cases q)
  have p: "current a p" using Cons.prems by (simp add: q)
  have data: "rebind_entries a (pr_root_generation p) es w = Inr (es, w)"
    if "\<forall>e \<in> set es. \<forall>disk. ed_disk (snd e) = Some disk \<longrightarrow> dh_root disk = rs_root a" for es w
    using that by (induction es) (auto simp: rebind_data_def outdated_def current_facts(5) [OF p] split: option.split)
  have "rebind_entries a (pr_root_generation p) (pr_staged p) (pr_reservation p, u) = Inr (pr_staged p, pr_reservation p, u)"
    by (rule data) (use current_facts(4) [OF p] in blast)
  then show ?case using Cons current_facts(5) [OF p] by (simp add: q)
qed simp

section \<open>A group keeps the invariant\<close>

lemma accept_subset: "accept_batches c clock t gk rv ps = (co, me, ac) \<Longrightarrow> set ac \<subseteq> snd ` set ps \<and> length ac \<le> length ps"
proof (induction c clock t gk rv ps arbitrary: co me ac rule: accept_batches.induct)
  case (2 c clock t gk rv tk p ps)
  then show ?case by (cases "validate_batch c gk rv (clock t) p") (fastforce split: prod.splits)+
qed simp

lemma record_nothing: "\<forall>x \<in> set rs. isl x \<Longrightarrow> record_results (zip me rs) c = c"
proof -
  have "record_results M c = c" if "\<forall>m \<in> set M. \<not> committed m" for M using that by (induction M) (simp_all add: record_step)
  moreover assume rs: "\<forall>x \<in> set rs. isl x"
  have "\<forall>m \<in> set (zip me rs). \<not> committed m"
  proof
    fix m assume "m \<in> set (zip me rs)"
    then have "snd m \<in> set rs" by (metis prod.collapse set_zip_rightD)
    then show "\<not> committed m" using rs by (simp add: committed_def)
  qed
  ultimately show ?thesis by blast
qed

lemma frames_encode_append: "frames_encode xs = Inr a \<Longrightarrow> frames_encode ys = Inr b \<Longrightarrow> frames_encode (xs @ ys) = Inr (a @ b)"
  by (induction xs arbitrary: a) (auto simp: res_simps)

lemma group_log_kinds: "\<forall>fr \<in> set (group_log lsn offset qs). fr_kind fr = 2"
  by (induction lsn offset qs rule: group_log.induct) simp_all

text \<open>Which batches were published shows in the results.\<close>

lemma published_results:
  assumes "group_frames lsn 0 qs = Inr (ps, frs)" "map fst ps = map fst qs" "distinct (map fst qs)" "fst ` set qs \<subseteq> {..<length batches}"
    and "answered (unpublished batches) (length batches) (fst ` set qs) rs0" "\<forall>p \<in> set batches. \<not> pr_is_empty p" "length qs < 2 ^ 64"
    and "map Some results = snd (publish_all lsn 0 ps d rs0)" "j < length batches"
  shows "j \<in> fst ` set qs \<Longrightarrow> \<exists>n. results ! j = Inr n \<and> lsn < n" "j \<notin> fst ` set qs \<Longrightarrow> isl (results ! j)"
proof -
  have keys: "fst ` set ps = fst ` set qs" "distinct (map fst ps)" using assms(2,3) by (metis set_map, simp)
  have small: "0 + length qs < 2 ^ 64" using assms(7) by simp
  note fr = group_frames_nth [OF assms(1) small]
  have pub: "length (map Some results) = length batches" "\<forall>k < length ps. map Some results ! fst (ps ! k) = Some (Inr (lsn + of_nat k + 1))"
      "\<forall>j < length batches. j \<notin> fst ` set ps \<longrightarrow> map Some results ! j = rs0 ! j"
    using publish_all_results [of "unpublished batches" "length batches" ps rs0 lsn 0 d] assms(4,5) keys by (simp_all add: assms(8))
  have j: "map Some results ! j = Some (results ! j)" using pub(1) assms(9) by simp
  show "\<exists>n. results ! j = Inr n \<and> lsn < n" if "j \<in> fst ` set qs"
  proof -
    obtain k where k: "k < length ps" "fst (ps ! k) = j" using \<open>j \<in> fst ` set qs\<close> keys(1) by (metis (no_types, lifting) imageE in_set_conv_nth)
    then have "Some (results ! j) = Some (Inr (lsn + of_nat k + 1))" using pub(2) j by metis
    then show ?thesis using fr k(1) by auto
  qed
  show "isl (results ! j)" if "j \<notin> fst ` set qs"
  proof -
    have "rs0 ! j = Some (results ! j)" using pub(3) j that keys(1) assms(9) by simp
    then have "unpublished batches (results ! j)" using assms(5,9) that by (auto simp: answered_def)
    then show ?thesis using assms(6) by (auto simp: unpublished_def)
  qed
qed

lemma set_subseq_enumerate:
  assumes "subseq qs (enumerate 0 xs)"
  shows "\<And>q. q \<in> set qs \<Longrightarrow> fst q < length xs \<and> snd q = xs ! fst q"
    and "sorted_wrt P xs \<Longrightarrow> sorted_wrt P (map snd qs)" "length qs \<le> length xs"
proof -
  show "fst q < length xs \<and> snd q = xs ! fst q" if "q \<in> set qs" for q
  proof -
    have "q \<in> set (enumerate 0 xs)" using subseq_set [OF assms] that by blast
    then show ?thesis by (simp add: in_set_enumerate_eq)
  qed
  show "length qs \<le> length xs" using list_emb_length [OF assms] by simp
  assume "sorted_wrt P xs"
  then have "sorted_wrt (\<lambda>a b. P (snd a) (snd b)) (enumerate 0 xs)" by (simp add: sorted_wrt_map [symmetric])
  then have "sorted_wrt (\<lambda>a b. P (snd a) (snd b)) qs" using assms
  proof (induction rule: list_emb.induct [OF assms])
    case (3 x y xs ys)
    then show ?case using subseq_set [of xs ys] by auto
  qed auto
  then show "sorted_wrt P (map snd qs)" by (simp add: sorted_wrt_map)
qed

text \<open>What committing the accepted batches does to the database and which results it gives.\<close>

lemma frames_batches:
  "group_frames lsn offset qs = Inr (ps, frs) \<Longrightarrow>
   list_all2 (\<lambda>q p. pr_keys (snd p) = pr_keys (snd q) \<and> pr_catalog (snd p) = pr_catalog (snd q)) qs ps"
  by (induction lsn offset qs arbitrary: ps frs rule: group_frames.induct) (auto simp: res_simps)

lemma list_all2_second: "list_all2 P xs ys \<Longrightarrow> y \<in> set ys \<Longrightarrow> \<exists>x \<in> set xs. P x y"
  by (induction rule: list_all2_induct) auto

lemma commit_outcome:
  assumes run: "commit_group ckpt clock io accepted u db = Some (results, db')"
    and db: "db_shared_mode db" "\<not> rs_poisoned (db_state db)" "live_ok db" "log_current db wal0 start"
    and acc: "\<forall>p \<in> set accepted. current (db_state db) p" "length accepted < 2 ^ 64"
    and sorted: "rs_lsn (db_state db) < - 1 \<Longrightarrow> sorted_wrt compatible accepted"
  obtains (unwritten) "\<forall>x \<in> set results. isl x" "db' = db \<or> rs_poisoned (db_state db') \<and> db_shared_mode db'"
  | (published) J where "J \<subseteq> {..<length accepted}" "length results = length accepted"
      "\<And>j. j \<in> J \<Longrightarrow> \<exists>n. results ! j = Inr n \<and> rs_lsn (db_state db) < n" "\<And>j. j < length accepted \<Longrightarrow> j \<notin> J \<Longrightarrow> isl (results ! j)"
      "db_shared_mode db'" "\<not> rs_poisoned (db_state db')" "live_ok db'" "log_current db' wal0 start" "db_published db' = db_state db'"
      "rs_root (db_state db') = rs_root (db_state db)" "rs_store (db_state db') = rs_store (db_state db)"
      "rs_lsn (db_state db) \<le> rs_lsn (db_state db')"
      "\<And>k. \<forall>j \<in> J. k \<notin> set (pr_keys (accepted ! j)) \<Longrightarrow> overlay_get (rs_overlay (db_state db')) k = overlay_get (rs_overlay (db_state db)) k"
      "\<forall>j \<in> J. \<not> changes_catalog (accepted ! j) \<Longrightarrow> rs_catalog (db_state db') = rs_catalog (db_state db)"
proof -
  let ?lsn = "rs_lsn (db_state db)"
  have "rebind_batches (db_state db) (enumerate 0 accepted) u = Inr (enumerate 0 accepted, u)"
    by (rule rebind_same_root) (use acc(1) in \<open>auto simp: in_set_enumerate_eq\<close>)
  then have ready: "group_ready ckpt (enumerate 0 accepted) u db = (Inr (enumerate 0 accepted, u), db)"
    using db(1,2) by (simp add: group_ready_def db_ready_def state_ready_def)
  have facts: "\<forall>p \<in> set accepted. pr_base_sequence p \<le> ?lsn" "\<forall>p \<in> set accepted. \<not> pr_is_empty p"
    using acc(1) current_facts by (auto simp: pr_is_empty_def)
  obtain rs where r: "commit_results ckpt clock io accepted u db = Some (rs, db')" "unwrap_all rs = Some results"
    using run by (auto simp: commit_group_def bind_eq_Some_conv)
  have failed: "\<forall>x \<in> set results. isl x" if un: "answered (unpublished accepted) (length accepted) {} rs"
  proof -
    obtain xs where "unwrap_all rs = Some xs" "rs = map Some xs" "length xs = length accepted" using unwrap_answered [OF un] by blast
    then have "\<forall>x \<in> set results. unpublished accepted x" using un r(2) by (auto simp: answered_def all_set_conv_all_nth)
    then show ?thesis using facts(2) by (auto simp: unpublished_def)
  qed
  note facts0 = facts(2)
  show thesis
  proof (cases rule: commit_results_cases [OF r(1) ready facts(1) acc(2)])
    case 1
    have "\<forall>x \<in> set results. isl x" by (rule failed) (use 1 in simp)
    then show thesis using unwritten 1(1) by blast
  next
    case (2 ps0 u' qs ps frs rs0)
    have qs: "subseq qs (enumerate 0 accepted)" using 2(1,2) by simp
    note sub = set_subseq_enumerate [OF qs]
    have keys: "fst ` set ps = fst ` set qs" "distinct (map fst ps)" using 2(5,6) by (metis set_map, simp)
    have small: "0 + length qs < 2 ^ 64" and small0: "length qs < 2 ^ 64" using sub(3) acc(2) by simp_all
    obtain xs where xs: "rs = map Some xs" "length xs = length accepted" "xs = results"
      using unwrap_answered [OF 2(10)] r(2) by auto
    show thesis
    proof (cases rule: group_write_cases [OF 2(9)])
      case (1 e)
      have none: "answered (unpublished accepted) (length accepted) {} rs"
        using answer_all_answers [of "unpublished accepted" "length accepted" ps rs0 e] 2(8) keys 1(1) by (simp add: unpublished_def)
      show thesis by (rule unwritten [OF failed [OF none]]) (use 1(2) db(1) in auto)
    next
      case 2
      then have "qs = []" using group_frames_nth [OF \<open>group_frames ?lsn 0 qs = Inr (ps, frs)\<close> small] by simp
      then have none: "answered (unpublished accepted) (length accepted) {} rs"
        using \<open>rs = rs0\<close> \<open>answered (unpublished accepted) (length accepted) (fst ` set qs) rs0\<close> by simp
      show thesis by (rule unwritten [OF failed [OF none]]) (simp add: \<open>db' = db\<close>)
    next
      case (3 d)
      let ?db = "fst (publish_all ?lsn 0 ps d rs0)"
      have cur: "\<forall>q \<in> set qs. current (db_state d) (snd q)" using sub(1) acc(1) 3(5) by auto
      have base: "unat (rs_lsn (db_state d)) = unat ?lsn + 0" "live_ok d" using 3(5) db(3) by (simp_all add: live_ok_def)
      have sorted_qs: "sorted_wrt compatible (map snd qs)"
      proof (cases qs)
        case (Cons q qs')
        then obtain n where "checked_add64 ?lsn (of_nat 0 + 1) = Some n"
          using \<open>group_frames ?lsn 0 qs = Inr (ps, frs)\<close> by (cases q) (auto simp: res_simps)
        then have "?lsn \<noteq> - 1" using checked_add64_1_None_iff [of ?lsn] by auto
        then have "?lsn < - 1" by (simp add: word_order.not_eq_extremum)
        then show ?thesis using sub(2) sorted by blast
      qed simp
      obtain frs0 bytes where log: "frames_encode frs0 = Inr bytes" "db_wal db = wal0 @ bytes" "\<forall>fr \<in> set frs0. fr_kind fr = 2"
          "\<And>u. \<exists>db' u'. res_fold recover_record frs0 (start, u) = Inr (db', u') \<and> states_alike (db_state db) (db_state db') \<and>
            \<not> rs_poisoned (db_state db') \<and> db_wal db' = db_wal start"
        using db(4) unfolding log_current_def by blast
      have replay: "\<exists>db1 u1. res_fold recover_record (frs0 @ group_log ?lsn 0 qs) (start, u) = Inr (db1, u1) \<and>
          states_alike (db_state ?db) (db_state db1) \<and> \<not> rs_poisoned (db_state db1) \<and> db_wal db1 = db_wal start \<and> live_ok ?db \<and>
          ?lsn \<le> rs_lsn (db_state ?db) \<and> frames_encode (group_log ?lsn 0 qs) = Inr (concat frs)" for u
      proof -
        obtain db0 u0 where 0: "res_fold recover_record frs0 (start, u) = Inr (db0, u0)" "states_alike (db_state db) (db_state db0)"
            "\<not> rs_poisoned (db_state db0)" "db_wal db0 = db_wal start"
          using log(4) by blast
        have "states_alike (db_state d) (db_state db0)" using 0(2) 3(5) by simp
        from group_replay [OF \<open>group_frames ?lsn 0 qs = Inr (ps, frs)\<close> base(1) small cur sorted_qs base(2) this 0(3), of u0 rs0]
        show ?thesis using 0 3(5) by (auto simp: res_fold_append)
      qed
      then have facts: "live_ok ?db" "?lsn \<le> rs_lsn (db_state ?db)" "frames_encode (group_log ?lsn 0 qs) = Inr (concat frs)" by blast+
      have state: "db_state db' = db_state ?db" "db_shared_mode db' = db_shared_mode ?db" "db_published db' = db_state db'"
        using 3(4) by (simp_all add: db_publish_def)
      note same = publish_all_fields [of ?lsn 0 ps d rs0]
      have results: "map Some results = snd (publish_all ?lsn 0 ps d rs0)" using xs(1,3) 3(3) by simp
      note pub = published_results [OF \<open>group_frames ?lsn 0 qs = Inr (ps, frs)\<close> \<open>map fst ps = map fst qs\<close> \<open>distinct (map fst qs)\<close>
        \<open>fst ` set qs \<subseteq> {..<length accepted}\<close> \<open>answered (unpublished accepted) (length accepted) (fst ` set qs) rs0\<close> facts0 small0 results]
      have stamped: "\<exists>q \<in> set qs. pr_keys (snd p) = pr_keys (snd q) \<and> pr_catalog (snd p) = pr_catalog (snd q)" if "p \<in> set ps" for p
        using frames_batches [OF \<open>group_frames ?lsn 0 qs = Inr (ps, frs)\<close>] that by (rule list_all2_second)
      show thesis
      proof (rule published)
        show "fst ` set qs \<subseteq> {..<length accepted}" by fact
        show "length results = length accepted" using xs by simp
        show "\<exists>n. results ! j = Inr n \<and> ?lsn < n" if "j \<in> fst ` set qs" for j
          using pub(1) that \<open>fst ` set qs \<subseteq> {..<length accepted}\<close> by blast
        show "isl (results ! j)" if "j < length accepted" "j \<notin> fst ` set qs" for j using pub(2) that by blast
        show "db_shared_mode db'" "\<not> rs_poisoned (db_state db')" "live_ok db'" "db_published db' = db_state db'"
          "rs_root (db_state db') = rs_root (db_state db)" "rs_store (db_state db') = rs_store (db_state db)" "?lsn \<le> rs_lsn (db_state db')"
          using state same facts 3(5,8) db(1,2) by (simp_all add: live_ok_def)
        show "log_current db' wal0 start"
          unfolding log_current_def
        proof (rule exI [of _ "frs0 @ group_log ?lsn 0 qs"], rule exI [of _ "bytes @ concat frs"], intro conjI allI)
          show "frames_encode (frs0 @ group_log ?lsn 0 qs) = Inr (bytes @ concat frs)" by (rule frames_encode_append [OF log(1) facts(3)])
          show "db_wal db' = wal0 @ bytes @ concat frs" using 3(2) log(2) by simp
          show "\<forall>fr \<in> set (frs0 @ group_log ?lsn 0 qs). fr_kind fr = 2" using log(3) group_log_kinds [of ?lsn 0 qs] by auto
          fix u
          show "\<exists>db1 u1. res_fold recover_record (frs0 @ group_log ?lsn 0 qs) (start, u) = Inr (db1, u1) \<and>
              states_alike (db_state db') (db_state db1) \<and> \<not> rs_poisoned (db_state db1) \<and> db_wal db1 = db_wal start"
            using replay [of u] unfolding state(1) by blast
        qed
        show "overlay_get (rs_overlay (db_state db')) k = overlay_get (rs_overlay (db_state db)) k"
          if k: "\<forall>j \<in> fst ` set qs. k \<notin> set (pr_keys (accepted ! j))" for k
        proof -
          have "k \<notin> set (pr_keys (snd p))" if "p \<in> set ps" for p
            using stamped [OF that] sub(1) k by (metis imageI)
          then show ?thesis using publish_all_other [of d ps k ?lsn 0 rs0] state 3(5) db(3) by (simp add: live_ok_def base_ok_def)
        qed
        show "rs_catalog (db_state db') = rs_catalog (db_state db)" if c: "\<forall>j \<in> fst ` set qs. \<not> changes_catalog (accepted ! j)"
        proof -
          have "pr_catalog (snd p) = rs_catalog (db_state d)" if "p \<in> set ps" for p
          proof -
            obtain q where q: "q \<in> set qs" "pr_catalog (snd p) = pr_catalog (snd q)" using stamped [OF \<open>p \<in> set ps\<close>] by blast
            then have "\<not> changes_catalog (snd q)" using sub(1) c by (metis imageI)
            then show ?thesis using current_facts(2) q cur by metis
          qed
          then show ?thesis using publish_all_catalog [of ps d ?lsn 0 rs0] state 3(5) by simp
        qed
      qed
    qed
  qed
qed

text \<open>A poisoned database commits nothing more.\<close>

lemma poisoned_group:
  assumes "rs_poisoned (db_state (co_database c))" "run_group ckpt clock commit_clock io oldest claimed u c = Some (answers, c', due)"
  shows "co_database c' = co_database c"
proof -
  obtain co me ac where a: "accept_batches c clock 0 [] (co_catalog_revision c) claimed = (co, me, ac)"
    by (cases "accept_batches c clock 0 [] (co_catalog_revision c) claimed")
  obtain rs db where g: "commit_group ckpt commit_clock io ac u (co_database c) = Some (rs, db)"
    using assms(2) a by (auto simp: run_group_def split: option.splits)
  have "group_ready ckpt (enumerate 0 ac) u (co_database c) = (Inl NeedsRecovery, co_database c)"
    using assms(1) by (simp add: group_ready_def db_ready_def state_ready_def)
  then have "db = co_database c"
    using g by (auto simp: commit_group_def commit_results_def Let_def bind_eq_Some_conv)
  then show ?thesis using assms(2) a g by (auto simp: run_group_def Let_def record_database prune_revisions_def)
qed

lemma group_current:
  assumes inv: "sys_inv wal0 start (c, txs)" and ok: "\<not> rs_poisoned (db_state (co_database c))"
    and ends: "list_all (ended txs) ends" "length ends < 2 ^ 64"
    and acc: "accept_batches c clock 0 [] (co_catalog_revision c) (claimed_batches txs ends) = (co, me, ac)"
  shows "\<forall>p \<in> set ac. current (db_state (co_database c)) p" "length ac < 2 ^ 64"
    "rs_lsn (db_state (co_database c)) < - 1 \<Longrightarrow> sorted_wrt compatible ac"
proof -
  show "length ac < 2 ^ 64" using accept_subset [OF acc] ends(2) by (simp add: claimed_batches_def)
  have txs: "tx_current c s" if "txs i = Some s" for i s using inv ok that by (simp add: sys_inv_def)
  have batch: "\<exists>s dl i. p = prepare s dl \<and> txs i = Some s \<and> \<not> sg_failed s \<and> sg_operations s \<noteq> []" if "p \<in> set ac" for p
  proof -
    have "p \<in> snd ` set (claimed_batches txs ends)" using accept_subset [OF acc] that by blast
    then obtain e where e: "e \<in> set ends" "p = prepare (the (txs (fst e))) (fst (snd e))" by (auto simp: claimed_batches_def)
    then have "ended txs e" using ends(1) by (simp add: list_all_iff)
    then show ?thesis using e(2) by (auto simp: ended_def split: option.splits)
  qed
  note facts = accept_facts [OF acc]
  have cur: "current (db_state (co_database c)) p" if p: "p \<in> set ac" for p
  proof -
    obtain s dl i where s: "p = prepare s dl" "txs i = Some s" "\<not> sg_failed s" "sg_operations s \<noteq> []" using batch [OF p] by blast
    have "co_catalog_revision c \<le> pr_base_sequence p" "\<forall>k \<in> set (pr_keys p). unrevised (co_revisions c) (pr_base_sequence p) k"
      using facts p by simp_all
    then show ?thesis unfolding s(1) by (intro accepted_current txs [OF s(2)] s(3,4)) simp_all
  qed
  then show "\<forall>p \<in> set ac. current (db_state (co_database c)) p" by blast
  assume "rs_lsn (db_state (co_database c)) < - 1"
  then have "\<forall>p \<in> set ac. pr_base_sequence p < - 1" using current_facts(6) [OF cur] by (metis order.strict_trans1)
  then show "sorted_wrt compatible ac" using facts by simp
qed

lemma commit_inv:
  assumes inv: "sys_inv wal0 start (c, txs)" and ok: "\<not> rs_poisoned (db_state (co_database c))"
    and ends: "list_all (ended txs) ends" "length ends < 2 ^ 64"
    and run: "run_group ckpt clock commit_clock io oldest (claimed_batches txs ends) u c = Some (answers, c', due)"
  shows "sys_inv wal0 start (c', \<lambda>i. if i \<in> fst ` set ends then None else txs i)"
proof -
  obtain co me ac where acc: "accept_batches c clock 0 [] (co_catalog_revision c) (claimed_batches txs ends) = (co, me, ac)"
    by (cases "accept_batches c clock 0 [] (co_catalog_revision c) (claimed_batches txs ends)")
  note cur = group_current [OF inv ok ends acc]
  have me: "map snd me = map (\<lambda>p. (pr_keys p, changes_catalog p)) ac" using accept_facts [OF acc] by simp
  let ?db = "co_database c"
  have db: "db_shared_mode ?db" "live_ok ?db" "log_current ?db wal0 start" "db_published ?db = db_state ?db"
    using inv ok by (simp_all add: sys_inv_def)
  have tx: "tx_current c s" if "txs i = Some s" for i s using inv ok that by (simp add: sys_inv_def)
  obtain rs db' where g: "commit_group ckpt commit_clock io ac u ?db = Some (rs, db')"
      "c' = (let d = record_results (zip me rs) (c\<lparr>co_database := db'\<rparr>) in
        if checkpoint_generation db' \<noteq> checkpoint_generation ?db then prune_revisions oldest d else d)"
    using run acc by (auto simp: run_group_def Let_def split: option.splits)
  show ?thesis
  proof (rule commit_outcome [OF g(1) db(1) ok db(2,3) cur(1,2)], goal_cases)
    case 1
    then show ?case by (rule cur(3))
  next
    case un: 2
    then have c': "c' = (if checkpoint_generation db' \<noteq> checkpoint_generation ?db then prune_revisions oldest (c\<lparr>co_database := db'\<rparr>)
        else c\<lparr>co_database := db'\<rparr>)"
      using g(2) by (simp add: record_nothing [OF un(1)] Let_def)
    from un(2) show ?thesis
    proof
      assume "db' = ?db"
      then have "c' = c" using c' by simp
      then show ?thesis using inv by (auto simp: sys_inv_def)
    next
      assume "rs_poisoned (db_state db') \<and> db_shared_mode db'"
      then show ?thesis using c' by (auto simp: sys_inv_def prune_revisions_def Let_def)
    qed
  next
    case (3 J)
    let ?M = "zip me rs"
    have c': "c' = record_results ?M (c\<lparr>co_database := db'\<rparr>)"
      using g(2) 3(10) by (simp add: Let_def checkpoint_generation_def)
    have lengths: "length me = length ac" "length rs = length ac" using arg_cong [OF me, of length] 3(2) by simp_all
    have numbers: "\<forall>m \<in> set ?M. committed m \<longrightarrow> l < projr (snd m)" if "l \<le> rs_lsn (db_state ?db)" for l
    proof (intro ballI impI)
      fix m assume m: "m \<in> set ?M" "committed m"
      then obtain j where j: "j < length ac" "m = (me ! j, rs ! j)" using lengths by (auto simp: set_zip)
      then have "j \<in> J" using 3(4) m(2) by (auto simp: committed_def)
      then obtain n where "rs ! j = Inr n" "rs_lsn (db_state ?db) < n" using 3(3) by blast
      then show "l < projr (snd m)" using j(2) that by (simp add: order.strict_trans1)
    qed
    have member: "\<exists>m \<in> set ?M. committed m \<and> snd (fst m) = (pr_keys (ac ! j), changes_catalog (ac ! j))" if "j \<in> J" for j
    proof -
      have j: "j < length ac" using 3(1) that by auto
      obtain n where n: "rs ! j = Inr n" using 3(3) \<open>j \<in> J\<close> by blast
      have "(me ! j, rs ! j) \<in> set ?M" using j lengths by (auto simp: set_zip)
      moreover have "snd (me ! j) = (pr_keys (ac ! j), changes_catalog (ac ! j))"
        using arg_cong [OF me, of "\<lambda>l. l ! j"] j lengths by simp
      ultimately show ?thesis using n by (intro bexI [of _ "(me ! j, rs ! j)"]) (simp_all add: committed_def)
    qed
    have "tx_current c' s" if s: "txs i = Some s" for i s
    proof -
      obtain b where b: "tx_reach b s" "base_ok b" "rs_root b = rs_root (db_state ?db)" "rs_store b = rs_store (db_state ?db)"
         "rs_lsn b \<le> rs_lsn (db_state ?db)" "co_catalog_revision c \<le> rs_lsn b \<longrightarrow> rs_catalog b = rs_catalog (db_state ?db)"
         "\<forall>k. unrevised (co_revisions c) (rs_lsn b) k \<longrightarrow> overlay_get (rs_overlay b) k = overlay_get (rs_overlay (db_state ?db)) k"
        using tx [OF s] unfolding tx_current_def by (elim exE conjE) (rule that)
      note l = numbers [OF b(5)]
      have catalog: "rs_catalog b = rs_catalog (db_state db')" if "co_catalog_revision c' \<le> rs_lsn b"
      proof -
        have no: "\<not> ((\<exists>m \<in> set ?M. committed m \<and> snd (snd (fst m))) \<or> rs_lsn b < co_catalog_revision c)"
        proof
          assume "(\<exists>m \<in> set ?M. committed m \<and> snd (snd (fst m))) \<or> rs_lsn b < co_catalog_revision c"
          then have "rs_lsn b < co_catalog_revision c'"
            using record_changed [OF l, of "c\<lparr>co_database := db'\<rparr>"] by (simp add: c')
          then show False using that by simp
        qed
        then have "\<forall>j \<in> J. \<not> changes_catalog (ac ! j)" using member by fastforce
        then show ?thesis using 3(14) b(6) no by (simp add: not_less)
      qed
      have entities: "overlay_get (rs_overlay b) k = overlay_get (rs_overlay (db_state db')) k" if "unrevised (co_revisions c') (rs_lsn b) k" for k
      proof -
        have no: "\<not> ((\<exists>m \<in> set ?M. committed m \<and> k \<in> set (fst (snd (fst m)))) \<or> \<not> unrevised (co_revisions c) (rs_lsn b) k)"
        proof
          assume "(\<exists>m \<in> set ?M. committed m \<and> k \<in> set (fst (snd (fst m)))) \<or> \<not> unrevised (co_revisions c) (rs_lsn b) k"
          then have "\<not> unrevised (co_revisions c') (rs_lsn b) k"
            using record_written [OF l, of k "c\<lparr>co_database := db'\<rparr>"] by (simp add: c')
          then show False using that by simp
        qed
        then have "\<forall>j \<in> J. k \<notin> set (pr_keys (ac ! j))" using member by fastforce
        then have "overlay_get (rs_overlay (db_state db')) k = overlay_get (rs_overlay (db_state ?db)) k" by (rule 3(13))
        moreover have "unrevised (co_revisions c) (rs_lsn b) k" using no by blast
        ultimately show ?thesis using b(7) by metis
      qed
      have "co_database c' = db'" by (simp add: c' record_database)
      then show ?thesis unfolding tx_current_def
        using b(1-5) catalog entities 3(10-12) by (intro exI [of _ b]) (auto intro: order.trans)
    qed
    then show ?thesis using 3(5-9) by (simp add: sys_inv_def c' record_database)
  qed
qed

end
