(* ===== verification/Recovered.thy ===== *)
theory Recovered
  imports System
begin

text \<open>
  The laws of the shared database as a whole: every state the concurrent transactions can reach
  keeps the invariant of \<^verbatim>\<open>System\<close>, so what a group commits saw the state it commits on:
  of two transactions that wrote the same entity from the same state only the first commits. The
  invariant carries the log that replays to the committed state, which opening relies on.
\<close>

section \<open>Every step keeps the invariant\<close>

lemma start_current:
  assumes inv: "sys_inv wal0 start (c, txs)" and ok: "\<not> rs_poisoned (db_state (co_database c))"
    and new: "staging_new (db_published (co_database c)) options True False u = Inr (s, u')"
  shows "tx_current c s"
proof -
  have db: "live_ok (co_database c)" "db_published (co_database c) = db_state (co_database c)"
    using inv ok by (simp_all add: sys_inv_def)
  have "tx_reach (db_state (co_database c)) s" using tx_reach.start [OF new] db(2) by simp
  then show ?thesis using db(1) unfolding tx_current_def live_ok_def by (intro exI [of _ "db_state (co_database c)"]) simp
qed

lemma call_current: "tx_current c s \<Longrightarrow> call_typed x \<Longrightarrow> tx_run x (s, u) = (r, (s', u')) \<Longrightarrow> tx_current c s'"
  unfolding tx_current_def by (meson tx_reach.call)

lemma sys_step_inv: "sys_step sys sys' \<Longrightarrow> sys_inv wal0 start sys \<Longrightarrow> sys_inv wal0 start sys'"
proof (induction rule: sys_step.induct)
  case (start txs i c options u s u')
  then show ?case using start_current [OF start.prems _ start.hyps(3)] by (auto simp: sys_inv_def)
next
  case (call txs i s x u r s' u' c)
  then show ?case using call_current [OF _ call.hyps(2,3), of c] by (auto simp: sys_inv_def)
next
  case (drop c txs i)
  then show ?case by (auto simp: sys_inv_def)
next
  case (commit txs ends ckpt clock commit_clock io oldest u c answers c' due)
  show ?case
  proof (cases "rs_poisoned (db_state (co_database c))")
    case True
    then show ?thesis using poisoned_group [OF True commit.hyps(3)] commit.prems by (simp add: sys_inv_def)
  next
    case False
    then show ?thesis by (rule commit_inv [OF commit.prems _ commit.hyps])
  qed
qed

text \<open>The states of a shared database opened from a checkpoint whose log is only its header.\<close>

inductive sys_reach :: "root \<Rightarrow> store \<Rightarrow> bytes \<Rightarrow> system \<Rightarrow> bool" for root st header where
  fresh: "sys_reach root st header (from_database (opened root st options ng segs g header), Map.empty)"
| moving: "sys_reach root st header sys \<Longrightarrow> sys_step sys sys' \<Longrightarrow> sys_reach root st header sys'"

lemma opened_fields [simp]:
  "rs_root (db_state (opened root st options ng segs g wal)) = root" "rs_store (db_state (opened root st options ng segs g wal)) = st"
  "rs_catalog (db_state (opened root st options ng segs g wal)) = r_catalog root" "rs_lsn (db_state (opened root st options ng segs g wal)) = r_lsn root"
  "rs_overlay (db_state (opened root st options ng segs g wal)) = overlay_new" "\<not> rs_poisoned (db_state (opened root st options ng segs g wal))"
  "db_wal (opened root st options ng segs g wal) = wal" "db_published (opened root st options ng segs g wal) = db_state (opened root st options ng segs g wal)"
  by (simp_all add: opened_def Let_def refresh_pinned_bytes_def)

lemma overlay_get_new [simp]: "overlay_get overlay_new k = None"
  by (simp add: overlay_get_def overlay_new_def)

lemma new_inv [simp]: "om_inv (ov_entries overlay_new)"
  by (simp add: overlay_new_def om.inv_emp)

lemma opened_alike: "states_alike (db_state (opened root st options ng segs g wal)) (db_state (opened root st options' ng' segs' g' wal'))"
  by (simp add: states_alike_def overlays_alike_def)

lemma reach_inv:
  assumes "sys_reach root st header sys" "catalog_ok (r_catalog root)"
  shows "sys_inv header (opened root st options ng segs g wal) sys"
  using assms(1)
proof (induction rule: sys_reach.induct)
  case (fresh options' ng' segs' g')
  let ?db = "opened root st options' ng' segs' g' header" and ?start = "opened root st options ng segs g wal"
  have "live_ok (co_database (from_database ?db))"
    using assms(2) by (simp add: live_ok_def base_ok_def from_database_def)
  moreover have "log_current (co_database (from_database ?db)) header ?start"
    unfolding log_current_def by (intro exI [of _ "[]"]) (simp add: from_database_def opened_alike)
  ultimately show ?case by (simp add: sys_inv_def from_database_def)
qed (rule sys_step_inv)

section \<open>Reading the log back\<close>

lemma file_after_frame:
  assumes "frame_encode (fr_kind fr) (fr_lsn fr) (fr_payload fr) = Inr b" "file_pos f \<le> length (file_bytes f)"
    and "drop (file_pos f) (file_bytes f) = b @ rest"
  shows "frame_read f = Inr (Some fr, f\<lparr>file_pos := file_pos f + length b\<rparr>)"
    "drop (file_pos (f\<lparr>file_pos := file_pos f + length b\<rparr>)) (file_bytes (f\<lparr>file_pos := file_pos f + length b\<rparr>)) = rest"
    "file_pos (f\<lparr>file_pos := file_pos f + length b\<rparr>) \<le> length (file_bytes (f\<lparr>file_pos := file_pos f + length b\<rparr>))"
  using frame_read_complete [OF assms] drop_eq_append_iff [OF assms(3,2)] arg_cong [OF assms(3), of length] assms(2)
  by (cases fr; simp)+

lemma recover_loop_all:
  assumes "frames_encode frs = Inr bs" "file_pos f \<le> length (file_bytes f)"
    and "drop (file_pos f) (file_bytes f) = bs @ take n c" "frame_encode k l p = Inr c" "n < length c"
    and "res_fold recover_record frs x = Inr y"
  shows "recover_loop f x = Inr (y, file_pos f + length bs)"
  using assms(1-3,6)
proof (induction frs arbitrary: f bs x)
  case Nil
  then obtain f' where "frame_read f = Inr (None, f')" using frame_read_torn [OF assms(4) Nil(2) _ assms(5)] by auto
  then show ?case using Nil by (simp add: recover_loop.simps)
next
  case (Cons fr frs)
  obtain b d where b: "frame_encode (fr_kind fr) (fr_lsn fr) (fr_payload fr) = Inr b"
    and d: "frames_encode frs = Inr d" and bs: "bs = b @ d"
    using Cons.prems(1) by (auto simp: res_simps)
  obtain z where z: "recover_record fr x = Inr z" "res_fold recover_record frs z = Inr y"
    using Cons.prems(4) by (auto simp: res_simps)
  let ?f = "f\<lparr>file_pos := file_pos f + length b\<rparr>"
  have e: "drop (file_pos f) (file_bytes f) = b @ (d @ take n c)" using Cons.prems(3) bs by simp
  note after = file_after_frame [OF b Cons.prems(2) e]
  have "recover_loop f x = recover_loop (f\<lparr>file_pos := file_pos f + length b\<rparr>) z" using z(1) after(1) by (subst recover_loop.simps) simp
  then show ?case using Cons.IH [OF d after(3,2) z(2)] bs by (simp add: add.assoc)
qed

lemma recover_wal:
  assumes head: "frame_encode 1 hl hp = Inr header" and g: "r_generation (rs_root (db_state db)) \<le> active"
    and frs: "frames_encode frs = Inr bs" "res_fold recover_record frs (db, u) = Inr (db', u')"
    and torn: "frame_encode k l p = Inr c" "n < length c"
  shows "recover active [(active, header @ bs @ take n c)] db u = Inr (db'\<lparr>db_wal := take (length (header @ bs)) (db_wal db')\<rparr>, u')"
proof -
  let ?wal = "header @ bs @ take n c"
  have h: "frame_read \<lparr>file_bytes = ?wal, file_pos = 0\<rparr> = Inr (Some \<lparr>fr_kind = 1, fr_lsn = hl, fr_payload = hp\<rparr>,
      \<lparr>file_bytes = ?wal, file_pos = length header\<rparr>)"
    using frame_read_complete [OF head, of "\<lparr>file_bytes = ?wal, file_pos = 0\<rparr>"] by simp
  have "recover_loop \<lparr>file_bytes = ?wal, file_pos = length header\<rparr> (db, u) = Inr ((db', u'), length header + length bs)"
    using recover_loop_all [OF frs(1) _ _ torn frs(2), of "\<lparr>file_bytes = ?wal, file_pos = length header\<rparr>"] by simp
  then have "recover_segment active (active, ?wal) ((db, u), 0) = Inr ((db', u'), length (header @ bs))"
    using h g by (simp add: recover_segment_def not_less)
  then show ?thesis by (simp add: recover_def)
qed

section \<open>Committing\<close>


section \<open>A concrete run\<close>

text \<open>One transaction creates a table in an empty database and commits.\<close>

definition sample_options :: db_options where
  "sample_options = options_default group_commit_default 0 0"

definition sample_opened :: "bytes \<Rightarrow> database" where
  "sample_opened header = opened root_empty (open_store (\<lambda>_. None)) sample_options 1 [] 0 header"

definition sample_begun :: "readstate \<Rightarrow> staging" where
  "sample_begun b = \<lparr>sg_base = b, sg_options = sample_options, sg_pinned = True, sg_permit = True,
      sg_reservation = (8, 0), sg_catalog = rs_catalog b, sg_staged = [], sg_operations = [], sg_failed = False\<rparr>"

lemma sample_begins: "rs_limits b = limits_default \<Longrightarrow> staging_new b sample_options True False usage_default =
    Inr (sample_begun b, usage_default\<lparr>transactions := 1, resident_write_bytes := 8\<rparr>)"
  by (simp add: staging_new_def sample_begun_def acquire_transaction_def grow_resident_def limit_check_def usage_default_def
      limits_default_def usize_checked_add_def mib_def)

lemma sample_creates:
  assumes "rs_limits b = limits_default" "rs_catalog b = []" "\<not> rs_poisoned b" "decoded_write_bytes u = 0" "resident_write_bytes u \<le> 8"
  obtains s u' where "tx_run (CreateTable (ascii ''users'') sample_schema) ((sample_begun b)\<lparr>sg_pinned := pin\<rparr>, u) = (Inr (), (s, u'))"
    "sg_operations s = [TableOp sample_table]" "sg_staged s = []" "\<not> sg_failed s" "sg_base s = b" "sg_catalog s = [(1, sample_table)]"
proof -
  let ?s = "(sample_begun b)\<lparr>sg_pinned := pin\<rparr>"
  have t: "\<lparr>t_id = 1, t_name = ascii ''users'', t_schemas = [sample_schema]\<rparr> = sample_table" by (simp add: sample_table_def)
  have none: "bt_last_key ([] :: (u64, table) btree) = None" by (simp add: bt_last_key_def)
  have valid: "validate_table_change [] sample_table = Inr ()"
    using sample_valid by (simp add: validate_table_change_def sample_table_def next_table_id_def table_schema_def none)
      (simp add: sample_schema_def)
  have len: "op_encoded_len (TableOp sample_table) = 81"
    by (simp add: sample_table_def sample_schema_def ascii_def)
  have cost: "stage_cost ?s (TableOp sample_table) = Inr 755"
    using len by simp (simp add: sample_table_def sample_schema_def FIELD_BYTES_def)
  let ?s1 = "?s\<lparr>sg_reservation := (8, 755)\<rparr>" and ?u1 = "u\<lparr>decoded_write_bytes := 755\<rparr>"
  have decoded: "stage_grow_decoded 755 (?s, u) = (Inr (), (?s1, ?u1))"
    using assms(1,4,5) by (simp add: stage_grow_decoded_def sample_begun_def grow_decoded_def limit_check_def 
        limits_default_def usize_checked_add_def mib_def)
  let ?s2 = "?s\<lparr>sg_reservation := (89, 755)\<rparr>" and ?u2 = "?u1\<lparr>resident_write_bytes := resident_write_bytes u + 81\<rparr>"
  have "stage_grow 81 (?s1, ?u1) = (Inr (), (?s2, ?u2))"
    using assms(1,4,5) by (simp add: stage_grow_def sample_begun_def grow_resident_def limit_check_def 
        limits_default_def usize_checked_add_def mib_def)
  moreover have "sg_permit ?s1" "sg_operations ?s1 = []" "sg_reservation ?s1 = (8, 755)" "op_limits (sg_options ?s1) = limits_default"
    by (simp_all add: sample_begun_def sample_options_def options_default_def)
  ultimately have admit: "stage_admit (TableOp sample_table) (?s1, ?u1) = (Inr (), (?s2, ?u2))"
    by (simp add: stage_admit_def act_bind_def act_res_def len limit_check_def limits_default_def usize_checked_add_def MAX_FRAME_def
        del: op_encoded_len.simps)
  have "sg_catalog ?s2 = []" using assms(2) by (simp add: sample_begun_def)
  then have exec: "stage_execute (TableOp sample_table) (?s2, ?u2) =
      (Inr (), (?s2\<lparr>sg_catalog := bt_insert (t_id sample_table) sample_table []\<rparr>, ?u2))"
    using valid by (simp add: stage_execute_def)
  have body: "stage_body (TableOp sample_table) (?s, u) =
      (Inr (), (?s2\<lparr>sg_catalog := bt_insert (t_id sample_table) sample_table []\<rparr>, ?u2))"
    using cost decoded admit exec by (simp add: stage_body_def act_bind_def act_res_def del: stage_cost.simps)
  have "state_ready (sg_base ?s) = Inr ()" "\<not> sg_failed ?s" using assms(3) by (simp_all add: sample_begun_def state_ready_def)
  then have run: "stage_run (TableOp sample_table) (?s, u) =
      (Inr (), (?s2\<lparr>sg_catalog := bt_insert (t_id sample_table) sample_table [], sg_operations := [TableOp sample_table]\<rparr>, ?u2))"
    using body by (simp add: stage_run_def) (simp add: sample_begun_def)
  have "sg_catalog ?s = []" using assms(2) by (simp add: sample_begun_def)
  then have "tx_run (CreateTable (ascii ''users'') sample_schema) (?s, u) =
      (Inr (), (?s2\<lparr>sg_catalog := bt_insert (t_id sample_table) sample_table [], sg_operations := [TableOp sample_table]\<rparr>, ?u2))"
    using run by (simp add: stage_create_table_def act_bind_def act_res_def none checked_add64_def t)
  then show thesis by (rule that) (simp_all add: sample_begun_def, simp add: sample_table_def)
qed

lemma sample_base: "rs_limits (db_state (sample_opened header)) = limits_default" "rs_catalog (db_state (sample_opened header)) = []"
    "\<not> rs_poisoned (db_state (sample_opened header))" "rs_lsn (db_state (sample_opened header)) = 0"
    "db_published (sample_opened header) = db_state (sample_opened header)"
    "db_wal_bytes (sample_opened header) = 0" "op_limits (db_options (sample_opened header)) = limits_default"
  by (simp_all add: sample_opened_def opened_def Let_def refresh_pinned_bytes_def sample_options_def options_default_def root_empty_def
      refresh_overlay_bytes_def)

lemma shared_fields: "db_published (co_database (from_database db)) = db_published db" "co_revisions (from_database db) = []"
    "co_catalog_revision (from_database db) = 0" "db_state (co_database (from_database db)) = db_state db"
    "db_wal_bytes (co_database (from_database db)) = db_wal_bytes db" "db_options (co_database (from_database db)) = db_options db"
    "db_shared_mode (co_database (from_database db))"
  by (simp_all add: from_database_def)

text \<open>The transaction has run and its batch is valid.\<close>

lemma sample_ends:
  obtains s where "sys_reach root_empty (open_store (\<lambda>_. None)) header (from_database (sample_opened header), [0 \<mapsto> s])"
    "list_all (ended [0 \<mapsto> s]) [(0, None, 7)]" "claimed_batches [0 \<mapsto> s] [(0, None, 7)] = [(7, prepare s None)]"
    "pr_operations (prepare s None) = [TableOp sample_table]" "pr_staged (prepare s None) = []" "pr_deadline (prepare s None) = None"
    "pr_catalog (prepare s None) = [(1, sample_table)]"
    "accept_batches (from_database (sample_opened header)) (\<lambda>_. 0) 0 [] (co_catalog_revision (from_database (sample_opened header))) [(7, prepare s None)] =
       ([], [(7, [], True)], [prepare s None])"
proof -
  let ?c = "from_database (sample_opened header)" and ?b = "db_state (sample_opened header)"
  note b = sample_base [of header] and same = shared_fields [of "sample_opened header"]
  obtain s u' where s: "tx_run (CreateTable (ascii ''users'') sample_schema) (sample_begun ?b, usage_default) = (Inr (), (s, u'))"
      "sg_operations s = [TableOp sample_table]" "sg_staged s = []" "\<not> sg_failed s" "sg_base s = ?b" "sg_catalog s = [(1, sample_table)]"
  proof -
    have "(sample_begun ?b)\<lparr>sg_pinned := True\<rparr> = sample_begun ?b" "decoded_write_bytes usage_default = 0" "resident_write_bytes usage_default \<le> 8"
      by (simp_all add: sample_begun_def usage_default_def)
    then show thesis using that sample_creates [OF b(1-3), of usage_default True] by metis
  qed
  have "sys_reach root_empty (open_store (\<lambda>_. None)) header (?c, Map.empty)"
    unfolding sample_opened_def by (rule sys_reach.fresh)
  then have "sys_reach root_empty (open_store (\<lambda>_. None)) header (?c, [0 \<mapsto> sample_begun ?b])"
    by (rule sys_reach.moving, intro sys_step.start)
      (use sample_begins [OF b(1)] b(3,5) same in \<open>simp_all add: state_ready_def\<close>)
  moreover have "call_typed (CreateTable (ascii ''users'') sample_schema)"
    by (simp add: utf8_valid_def sample_chars sample_schema_def field_def_ok_def)
  ultimately have begun: "sys_reach root_empty (open_store (\<lambda>_. None)) header (?c, [0 \<mapsto> s])"
    using sys_reach.moving sys_step.call [of "[0 \<mapsto> sample_begun ?b]" 0 "sample_begun ?b", OF _ _ s(1)] by fastforce
  let ?p = "prepare s None"
  have claimed: "claimed_batches ([0 \<mapsto> s]) [(0, None, 7)] = [(7, ?p)]" by (simp add: claimed_batches_def)
  have p: "pr_operations ?p = [TableOp sample_table]" "pr_staged ?p = []" "pr_deadline ?p = None" "pr_base_sequence ?p = 0" "pr_catalog ?p = [(1, sample_table)]"
    using s b(4) by (simp_all add: prepare_def)
  have valid: "accept_batches ?c (\<lambda>_. 0) 0 [] (co_catalog_revision ?c) [(7, ?p)] = ([], [(7, [], True)], [?p])"
    using p b(3) same by (simp add: validate_batch_def db_ready_def state_ready_def deadline_check_def pr_keys_def changes_catalog_def)
  show thesis by (rule that [OF begun _ claimed p(1-3,5) valid]) (use s(2,4) in \<open>simp add: ended_def\<close>)
qed

lemma sample_commits:
  obtains c where "sys_reach root_empty (open_store (\<lambda>_. None)) header (c, Map.empty)" "\<not> rs_poisoned (db_state (co_database c))"
    "rs_catalog (db_state (co_database c)) = [(1, sample_table)]" "rs_lsn (db_state (co_database c)) = 1" "length (db_wal (co_database c)) > length header"
proof -
  let ?c = "from_database (sample_opened header)"
  note b = sample_base [of header] and same = shared_fields [of "sample_opened header"]
  obtain s where begun: "sys_reach root_empty (open_store (\<lambda>_. None)) header (?c, [0 \<mapsto> s])"
    and ended: "list_all (ended [0 \<mapsto> s]) [(0, None, 7)]"
    and claimed: "claimed_batches [0 \<mapsto> s] [(0, None, 7)] = [(7, prepare s None)]"
    and p: "pr_operations (prepare s None) = [TableOp sample_table]" "pr_staged (prepare s None) = []" "pr_deadline (prepare s None) = None"
      "pr_catalog (prepare s None) = [(1, sample_table)]"
    and valid: "accept_batches ?c (\<lambda>_. 0) 0 [] (co_catalog_revision ?c) [(7, prepare s None)] = ([], [(7, [], True)], [prepare s None])"
    by (rule sample_ends)
  let ?p = "prepare s None"
  obtain fr where fr: "frame_encode 2 1 (encode_ops [TableOp sample_table]) = Inr fr" by (rule sample_logged)
  note run = single_commit(2) [of "co_database ?c", OF _ _ _ _ _ _ p(2,3), unfolded p(1), OF _ _ _ _ _ _ fr sample_payload refl]
  have c: "db_shared_mode (co_database ?c)" "state_ready (db_state (co_database ?c)) = Inr ()" "rs_lsn (db_state (co_database ?c)) = 0"
      "db_wal_bytes (co_database ?c) = 0" "op_limits (db_options (co_database ?c)) = limits_default"
    using b same by (simp_all add: state_ready_def)
  note go = run [OF c, OF list.simps(3), of "Pair (Inr ())" "\<lambda>_. 0" usage_default]
  let ?q = "?p\<lparr>pr_root_generation := r_generation (rs_root (db_state (co_database ?c)))\<rparr>"
  let ?new = "db_publish (publish_state (stamp_batch 1 ?q) 1 (co_database ?c\<lparr>db_wal := db_wal (co_database ?c) @ fr, db_wal_bytes := of_nat (length fr)\<rparr>))"
  have "run_group (Pair (Inr ())) (\<lambda>_. 0) (\<lambda>_. 0) None None [(7, ?p)] usage_default ?c = Some ([(7, Inr 1)],
      record_results [((7, [], True), Inr 1)] (?c\<lparr>co_database := ?new\<rparr>), maintenance_due ?new)"
    using valid go by (simp add: run_group_def Let_def checkpoint_generation_def db_publish_def)
  then have "run_group (Pair (Inr ())) (\<lambda>_. 0) (\<lambda>_. 0) None None (claimed_batches ([0 \<mapsto> s]) [(0, None, 7)]) usage_default ?c =
      Some ([(7, Inr 1)], record_results [((7, [], True), Inr 1)] (?c\<lparr>co_database := ?new\<rparr>), maintenance_due ?new)"
    by (simp only: claimed)
  from sys_step.commit [OF ended _ this] have "sys_step (?c, [0 \<mapsto> s])
      (record_results [((7, [], True), Inr 1)] (?c\<lparr>co_database := ?new\<rparr>), \<lambda>i. if i \<in> fst ` set [(0, None :: instant option, 7 :: nat)] then None else ([0 \<mapsto> s]) i)"
    by simp
  also have "(\<lambda>i. if i \<in> fst ` set [(0, None :: instant option, 7 :: nat)] then None else ([0 \<mapsto> s]) i) = Map.empty" by auto
  finally have "sys_reach root_empty (open_store (\<lambda>_. None)) header (record_results [((7, [], True), Inr 1)] (?c\<lparr>co_database := ?new\<rparr>), Map.empty)"
    by (rule sys_reach.moving [OF begun])
  moreover have "db_wal (co_database ?c) = header" by (simp add: from_database_def sample_opened_def)
  then have new: "db_wal ?new = header @ fr" "rs_catalog (db_state ?new) = [(1, sample_table)]" "rs_lsn (db_state ?new) = 1" "\<not> rs_poisoned (db_state ?new)"
    using p(4) b(3) same by (simp_all add: db_publish_def stamp_batch_def)
  moreover have "co_database (record_results [((7, [], True), Inr 1)] (?c\<lparr>co_database := ?new\<rparr>)) = ?new" by (simp add: record_database)
  moreover have "length (header @ fr) > length header" using length_frame_encode [OF fr] by simp
  ultimately show thesis using that by metis
qed


end
