(* ===== verification/Opening.thy ===== *)
theory Opening
  imports Recovered
begin

text \<open>
  Opening a directory whose log holds what a shared database wrote: the scan finds the manifest in
  the header of the log, and the replay gives back the committed state, also when a crash tore the
  last frame.
\<close>

section \<open>The first pass\<close>

lemma scan_loop_records:
  assumes "frames_encode frs = Inr bs" "file_pos f \<le> length (file_bytes f)"
    and "drop (file_pos f) (file_bytes f) = bs @ take n c" "frame_encode k l p = Inr c" "n < length c"
    and "\<forall>fr \<in> set frs. fr_kind fr = 2"
  shows "scan_loop number False f (roots, Some number) = Inr (roots, Some number)"
  using assms(1-3,6)
proof (induction frs arbitrary: f bs)
  case Nil
  then obtain f' where "frame_read f = Inr (None, f')" using frame_read_torn [OF assms(4) Nil(2) _ assms(5)] by auto
  then show ?case by (simp add: scan_loop.simps)
next
  case (Cons fr frs)
  obtain b d where b: "frame_encode (fr_kind fr) (fr_lsn fr) (fr_payload fr) = Inr b"
    and d: "frames_encode frs = Inr d" and bs: "bs = b @ d"
    using Cons.prems(1) by (auto simp: res_simps)
  have e: "drop (file_pos f) (file_bytes f) = b @ (d @ take n c)" using Cons.prems(3) bs by simp
  note after = file_after_frame [OF b Cons.prems(2) e]
  have "scan_record number False fr (roots, Some number) = Inr (roots, Some number)" using Cons.prems(4) by (simp add: scan_record_def)
  then have "scan_loop number False f (roots, Some number) =
      scan_loop number False (f\<lparr>file_pos := file_pos f + length b\<rparr>) (roots, Some number)"
    using after(1) by (subst scan_loop.simps) simp
  then show ?case using Cons.IH [OF d after(3,2)] Cons.prems(4) by simp
qed

lemma manifest_decoded: "root_ok r \<Longrightarrow> length (encode_root r) < 2 ^ 63 \<Longrightarrow> decode_root (encode_root r) = Inr r"
  unfolding decode_root_body by (rule root_format.dec_enc_whole)

lemma scan_header:
  assumes head: "frame_encode 1 (r_lsn root) (encode_root root) = Inr header" and root: "root_ok root" "length (encode_root root) < 2 ^ 63"
    and g: "r_generation root \<le> number"
    and frs: "frames_encode frs = Inr bs" "\<forall>fr \<in> set frs. fr_kind fr = 2" and torn: "frame_encode k l p = Inr c" "n < length c"
  shows "scan_segment (number, header @ bs @ take n c) ([], None) = Inr ([root], Some number)"
proof -
  let ?wal = "header @ bs @ take n c"
  let ?f = "\<lparr>file_bytes = ?wal, file_pos = 0\<rparr>"
  have f: "frame_read ?f = Inr (Some \<lparr>fr_kind = 1, fr_lsn = r_lsn root, fr_payload = encode_root root\<rparr>, ?f\<lparr>file_pos := length header\<rparr>)"
    using frame_read_complete [OF head, of ?f] by simp
  have "decode_root (encode_root root) = Inr root" by (rule manifest_decoded [OF root])
  then have "scan_record number True \<lparr>fr_kind = 1, fr_lsn = r_lsn root, fr_payload = encode_root root\<rparr> ([], None) = Inr ([root], Some number)"
    using g by (simp add: scan_record_def not_less)
  then have "scan_segment (number, ?wal) ([], None) = scan_loop number False (?f\<lparr>file_pos := length header\<rparr>) ([root], Some number)"
    using f by (simp add: scan_segment_def) (subst scan_loop.simps, simp)
  moreover have "drop (length header) ?wal = bs @ take n c" by simp
  ultimately show ?thesis using scan_loop_records [OF frs(1) _ _ torn frs(2), of "?f\<lparr>file_pos := length header\<rparr>"] by simp
qed

text \<open>With one log file, opening is replaying it over the manifest in its header.\<close>

lemma open_one_segment:
  assumes "options_validate instant_max now options = Inr ()" "root_verify st root = Inr ()"
    and "scan_segment (g, wal) ([], None) = Inr ([root], Some g)"
  shows "open_database instant_max now options st (ascii ''EVEDB005'') catalogs [(g, wal)] u =
    recover g [(g, wal)] (opened root st options (first_free catalogs [g]) [] g wal) u"
  using assms by (simp add: open_database_def select_root_def sort_roots_def)

section \<open>Recovery\<close>

text \<open>
  C1 (recovery_reproduces): whatever the concurrent transactions of a shared database did, as long as
  no write failed, opening the database again, with any options, from its checkpoint and the bytes of
  its log gives back the committed state: the catalog, the last sequence number, the current row of
  every entity and every version of it read the same, and the log stays as it was. A frame torn at the
  end of the log, as by a crash while a group was written, is cut off and changes nothing.
\<close>

theorem recovery_reproduces:
  assumes "sys_reach root st header (c, txs)" "\<not> rs_poisoned (db_state (co_database c))"
    and "root_ok root" "root_verify st root = Inr ()" "r_generation root \<le> g"
    and "frame_encode 1 (r_lsn root) (encode_root root) = Inr header" "frame_encode k l p = Inr torn" "n < length torn"
    and "options_validate instant_max now options = Inr ()"
  shows "\<exists>db u'. open_database instant_max now options st (ascii ''EVEDB005'') catalogs
      [(g, db_wal (co_database c) @ take n torn)] u = Inr (db, u') \<and>
    db_wal db = db_wal (co_database c) \<and>
    rs_catalog (db_state db) = rs_catalog (db_state (co_database c)) \<and>
    rs_lsn (db_state db) = rs_lsn (db_state (co_database c)) \<and>
    (\<forall>t ent. state_get (db_state db) t ent = state_get (db_state (co_database c)) t ent) \<and>
    (\<forall>t ent v w. read_version (db_state db) t ent v w = read_version (db_state (co_database c)) t ent v w)"
proof -
  let ?wal = "db_wal (co_database c) @ take n torn"
  let ?start = "opened root st options (first_free catalogs [g]) [] g ?wal"
  have catalog: "catalog_ok (r_catalog root)" using assms(3) by (simp add: root_ok_def catalog_ok_def)
  have "length (encode_root root) < 2 ^ 63" using assms(6) by (simp add: frame_encode_Inr MAX_FRAME_def)
  note header = scan_header [OF assms(6,3) this assms(5)]
  have "log_current (co_database c) header ?start"
    using reach_inv [OF assms(1) catalog, of options "first_free catalogs [g]" "[]" g ?wal] assms(2) by (simp add: sys_inv_def)
  then obtain frs bs db u' where log: "frames_encode frs = Inr bs" "db_wal (co_database c) = header @ bs"
      "res_fold recover_record frs (?start, u) = Inr (db, u')" "states_alike (db_state (co_database c)) (db_state db)"
      "\<not> rs_poisoned (db_state db)" "db_wal db = ?wal" "\<forall>fr \<in> set frs. fr_kind fr = 2"
    unfolding log_current_def opened_fields by blast
  have "scan_segment (g, ?wal) ([], None) = Inr ([root], Some g)"
    using header [OF log(1,7) assms(7,8)] log(2) by simp
  note open_one_segment [OF assms(9,4) this, of catalogs u]
  moreover have "recover g [(g, ?wal)] ?start u = Inr (db\<lparr>db_wal := take (length (header @ bs)) (db_wal db)\<rparr>, u')"
    using recover_wal [OF assms(6) _ log(1,3) assms(7,8), of g] assms(5) log(2) by simp
  moreover have "take (length (header @ bs)) (db_wal db) = db_wal (co_database c)" using log(2,6) by simp
  moreover have p: "rs_poisoned (db_state db) = rs_poisoned (db_state (co_database c))" using log(5) assms(2) by simp
  ultimately show ?thesis
    using alike_state_get [OF log(4) p] alike_read_version [OF log(4) p] log(4)
    by (intro exI [of _ "db\<lparr>db_wal := db_wal (co_database c)\<rparr>"] exI [of _ u']) (simp add: states_alike_def)
qed

text \<open>The manifest of a new directory, and options whose timeouts the clock can express.\<close>

lemma sample_header:
  obtains header where "frame_encode 1 (r_lsn root_empty) (encode_root root_empty) = Inr header"
proof -
  have "length (encode_root root_empty) \<le> MAX_FRAME"
    by (simp add: encode_root_def root_empty_def encode_generation_def MAX_FRAME_def)
  then show thesis using that by (simp add: frame_encode_Inr)
qed

lemma sample_opens: "root_ok root_empty" "root_verify (open_store (\<lambda>_. None)) root_empty = Inr ()"
    "options_validate (2 ^ 64) 0 (sample_options\<lparr>op_cache_bytes := 4096\<rparr>) = Inr ()"
  subgoal by (simp add: root_ok_def root_empty_def MAX_SLOTS_def root_file_ids_def)
  subgoal by (simp add: root_verify_def root_empty_def)
  subgoal by (simp add: options_validate_def sample_options_def options_default_def limits_validate_def limits_default_def mib_def MAX_FRAME_def
     timeouts_validate_def timeouts_default_def deadline_at_def seconds_def millis_def group_commit_validate_def group_commit_default_def
     f64_unit_interval_def MAX_SLOTS_def)
  done

lemma recovery_reproduces_witness:
  "\<exists>header torn wal db u'. frame_encode 1 0 (encode_root root_empty) = Inr header \<and> frame_encode 2 2 [] = Inr torn \<and> length wal > length header \<and>
     open_database (2 ^ 64) 0 (sample_options\<lparr>op_cache_bytes := 4096\<rparr>) (open_store (\<lambda>_. None)) (ascii ''EVEDB005'') [0]
       [(0, wal @ take 20 torn)] usage_default = Inr (db, u') \<and>
     db_wal db = wal \<and> rs_catalog (db_state db) = [(1, sample_table)] \<and> rs_lsn (db_state db) = 1"
proof -
  obtain header where header: "frame_encode 1 (r_lsn root_empty) (encode_root root_empty) = Inr header" by (rule sample_header)
  obtain torn where torn: "frame_encode 2 2 [] = Inr torn" by (simp add: frame_encode_Inr)
  have "length torn = 40" using length_frame_encode [OF torn] by simp
  then have n: "20 < length torn" by simp
  obtain c where c: "sys_reach root_empty (open_store (\<lambda>_. None)) header (c, Map.empty)" "\<not> rs_poisoned (db_state (co_database c))"
    "rs_catalog (db_state (co_database c)) = [(1, sample_table)]" "rs_lsn (db_state (co_database c)) = 1"
    "length (db_wal (co_database c)) > length header"
    by (rule sample_commits)
  have "r_generation root_empty \<le> 0" by (simp add: root_empty_def)
  from recovery_reproduces [OF c(1,2) sample_opens(1,2) this header torn n sample_opens(3), of "[0]" usage_default]
  show ?thesis using header torn c(3-5) by (auto simp: root_empty_def)
qed

end
