(* ===== verification/Checkpoint.thy ===== *)
theory Checkpoint
  imports Commit
begin

text \<open>
  Models how \<^verbatim>\<open>database.rs\<close> plans a checkpoint, captures the state for it and installs the manifest it
  built. Between capture and installation transactions go on committing: what they publish is also
  kept in the tail, which becomes the overlay over the new manifest.
\<close>

section \<open>Densities\<close>

text \<open>
  The share of live entities is an \<^verbatim>\<open>f64\<close>. A number of it is a mantissa below \<open>2 ^ 53\<close> with the
  number of bits to shift right; integers and quotients are rounded to nearest, ties to even.
\<close>

fun bit_length :: "nat \<Rightarrow> nat" where
  "bit_length n = (if n = 0 then 0 else 1 + bit_length (n div 2))"

declare bit_length.simps [simp del]

definition div_even :: "nat \<Rightarrow> nat \<Rightarrow> nat" where
  "div_even a b = (let q = a div b; r = a mod b in if 2 * r < b \<or> 2 * r = b \<and> even q then q else q + 1)"

definition f64_of_nat :: "nat \<Rightarrow> nat" where
  "f64_of_nat n = (let k = bit_length n - 53 in div_even n (2 ^ k) * 2 ^ k)"

text \<open>The quotient of two integers that are \<^verbatim>\<open>f64\<close> numbers, where it is at most one.\<close>

definition f64_div :: "nat \<Rightarrow> nat \<Rightarrow> nat \<times> nat" where
  "f64_div n d = (let k = 53 + bit_length d - bit_length n;
     k = (if n * 2 ^ k < d * 2 ^ 53 then k else k - 1) in (div_even (n * 2 ^ k) d, k))"

text \<open>Comparison with the number a bit pattern stands for, when that lies between zero and one.\<close>

definition f64_below :: "nat \<times> nat \<Rightarrow> u64 \<Rightarrow> bool" where
  "f64_below x b = (let e = unat b div 2 ^ 52; fraction = unat b mod 2 ^ 52 in
     if b = 0x8000000000000000 then False
     else if e = 0 then fst x * 2 ^ 1074 < fraction * 2 ^ snd x
     else fst x * 2 ^ (1075 - e) < (2 ^ 52 + fraction) * 2 ^ snd x)"

definition live_ratio :: "occupancy \<Rightarrow> nat \<times> nat" where
  "live_ratio t = (if oc_entities t = 0 then (1, 0)
     else f64_div (f64_of_nat (unat (oc_entities t - oc_dead t))) (f64_of_nat (unat (oc_entities t))))"

section \<open>The plan\<close>

text \<open>A quota for each generation that is to be collected; the greatest number is the whole generation.\<close>

type_synonym plan = "(u64, u64) btree"

type_synonym candidate = "bool \<times> u64 \<times> u64"

definition live_entities :: "root \<Rightarrow> nat \<Rightarrow> u64" where
  "live_entities r slot = (let t = root_totals r (of_nat slot) in oc_entities t - oc_dead t)"

text \<open>Generations without anything live go at no cost; the others are candidates, dense ones last.\<close>

fun plan_scan :: "root \<Rightarrow> u64 \<Rightarrow> (nat \<times> generation_info) list \<Rightarrow> plan \<times> candidate list \<Rightarrow> plan \<times> candidate list" where
  "plan_scan r ratio [] x = x"
| "plan_scan r ratio ((slot, g) # gs) (plan, queue) =
     (let t = root_totals r (of_nat slot); live = oc_entities t - oc_dead t in
      if live = 0 then plan_scan r ratio gs (bt_insert (g_generation g) (- 1) plan, queue)
      else plan_scan r ratio gs (plan, queue @ [(\<not> f64_below (live_ratio t) ratio, live, g_generation g)]))"

fun plan_drain :: "nat \<Rightarrow> candidate list \<Rightarrow> plan \<Rightarrow> nat \<Rightarrow> u64 \<Rightarrow> plan \<times> nat" where
  "plan_drain limit [] plan slots budget = (plan, slots)"
| "plan_drain limit ((dense, live, g) # queue) plan slots budget =
     (if budget = 0 \<or> (dense \<and> slots \<le> limit) then (plan, slots)
      else if live > budget then (bt_insert g budget plan, slots)
      else plan_drain limit queue (bt_insert g (- 1) plan) (slots - 1) (budget - live))"

fun plan_force :: "candidate list \<Rightarrow> plan \<Rightarrow> nat \<Rightarrow> plan" where
  "plan_force [] plan slots = plan"
| "plan_force ((dense, live, g) # queue) plan slots =
     (if slots < MAX_SLOTS then plan
      else plan_force queue (bt_insert g (- 1) plan) (if map_of plan g \<noteq> Some (- 1) then slots - 1 else slots))"

definition collection_plan :: "db_options \<Rightarrow> root \<Rightarrow> plan" where
  "collection_plan options r =
     (let (plan, queue) = plan_scan r (op_compact_live_ratio options) (enumerate 0 (r_generations r)) ([], []);
          queue = sort queue;
          slots = length (r_generations r) - length plan + 1;
          budget = (if op_collect_entities options = 0 then - 1 else of_nat (op_collect_entities options));
          (plan, slots) = plan_drain (op_max_generations options) queue plan slots budget in
      plan_force queue plan slots)"

definition compaction_plan :: "root \<Rightarrow> plan" where
  "compaction_plan r = foldl (\<lambda>plan g. bt_insert (g_generation g) (- 1) plan) [] (r_generations r)"

text \<open>The generations that leave the manifest.\<close>

definition absorbed :: "plan \<Rightarrow> u64 list" where
  "absorbed plan = map fst (filter (\<lambda>e. snd e = - 1) plan)"

record generation_stats =
  gs_generation :: u64
  gs_entities :: u64
  gs_dead :: u64

definition db_generations :: "database \<Rightarrow> generation_stats list" where
  "db_generations db = map (\<lambda>(slot, g). let t = root_totals (rs_root (db_state db)) (of_nat slot) in
       \<lparr>gs_generation = g_generation g, gs_entities = oc_entities t, gs_dead = oc_dead t\<rparr>)
     (enumerate 0 (r_generations (rs_root (db_state db))))"

section \<open>Capture\<close>

record checkpoint_job =
  cj_options :: db_options
  cj_state :: readstate
  cj_generation :: u64
  cj_plan :: plan
  cj_rewrite :: bool
  cj_frontier :: u64

text \<open>
  \<open>catalog_file\<close> and \<open>wal_file\<close> are the outcomes of creating the two files, \<open>rotation\<close> the error of
  writing or synchronizing the header of the new log file, if any.
\<close>

definition prepare_checkpoint :: "unit res \<Rightarrow> unit res \<Rightarrow> io_error option \<Rightarrow> plan \<Rightarrow> bool \<Rightarrow> database \<Rightarrow> checkpoint_job res \<times> database" where
  "prepare_checkpoint catalog_file wal_file rotation plan rewrite db =
     (case db_ready db of Inl e \<Rightarrow> (Inl e, db) | Inr _ \<Rightarrow>
      if db_tail db \<noteq> None then (Inl (Invalid ''maintenance already running''), db)
      else (case checked_add64 (db_next_generation db) 1 of
          None \<Rightarrow> (Inl (Invalid ''generation exhausted''), db)
        | Some n \<Rightarrow>
            let g = db_next_generation db; db = db\<lparr>db_next_generation := n\<rparr>; root = rs_root (db_state db) in
            (case res_bind catalog_file (\<lambda>_. wal_file) of
               Inl e \<Rightarrow> (Inl e, db)
             | Inr _ \<Rightarrow>
                 (case res_bind (frame_encode 1 (r_lsn root) (encode_root root))
                     (\<lambda>header. case rotation of Some e \<Rightarrow> Inl (Io e) | None \<Rightarrow> Inr header) of
                    Inl e \<Rightarrow> (Inl e, poison db)
                  | Inr header \<Rightarrow>
                      (Inr \<lparr>cj_options = db_options db, cj_state = db_state db, cj_generation = g, cj_plan = plan, cj_rewrite = rewrite,
                         cj_frontier = db_wal_bytes db\<rparr>,
                       db\<lparr>db_segments := db_segments db @ [(db_wal_number db, db_wal db)], db_wal := header, db_wal_number := g,
                         db_tail := Some overlay_new\<rparr>)))))"

definition overlay_changed :: "readstate \<Rightarrow> bool" where
  "overlay_changed st = (overlay_range (rs_overlay st) Unbounded Unbounded \<noteq> [])"

definition capture_checkpoint :: "unit res \<Rightarrow> unit res \<Rightarrow> io_error option \<Rightarrow> bool \<Rightarrow> database \<Rightarrow> checkpoint_job res \<times> database" where
  "capture_checkpoint catalog_file wal_file rotation compact db =
     (let root = rs_root (db_state db) in
      prepare_checkpoint catalog_file wal_file rotation
        (if compact then compaction_plan root else collection_plan (db_options db) root)
        (compact \<and> (\<not> r_history_compacted root \<or> overlay_changed (db_state db))) db)"

definition abandon_checkpoint :: "database \<Rightarrow> database" where
  "abandon_checkpoint db = db\<lparr>db_tail := None\<rparr>"

section \<open>Installation\<close>

text \<open>
  \<open>io\<close>: \<open>None\<close>, or the error after which only so many bytes of the manifest's record are in the log.
  The result also gives the state that is retired and the manifest before. \<open>None\<close> is the panic when
  no checkpoint was captured.
\<close>

definition install_state :: "root \<Rightarrow> overlay \<Rightarrow> readstate \<Rightarrow> readstate" where
  "install_state root tail st = refresh_pinned_bytes (st\<lparr>rs_root := root, rs_overlay := tail,
     rs_charges := (case checked_add64 (r_lsn root) 1 of Some first \<Rightarrow> om_retain_from (rs_charges st) first | None \<Rightarrow> NoLink)\<rparr>)"

definition install_checkpoint :: "(io_error \<times> nat) option \<Rightarrow> root \<Rightarrow> u64 \<Rightarrow> database \<Rightarrow> ((readstate \<times> root) res \<times> database) option" where
  "install_checkpoint io root frontier db =
     (case db_ready db of Inl e \<Rightarrow> Some (Inl e, db) | Inr _ \<Rightarrow>
       case frame_encode 1 (r_lsn root) (encode_root root) of Inl e \<Rightarrow> Some (Inl e, db) | Inr record \<Rightarrow>
       case io of
         Some (e, n) \<Rightarrow> Some (Inl (Io e), poison (db\<lparr>db_wal := db_wal db @ take n record\<rparr>))
       | None \<Rightarrow>
           (case db_tail db of
              None \<Rightarrow> None
            | Some tail \<Rightarrow>
                Some (Inr (db_state db, rs_root (db_state db)),
                  db_publish (db\<lparr>db_wal := db_wal db @ record, db_tail := None, db_state := install_state root tail (db_state db),
                    db_wal_bytes := db_wal_bytes db - min (db_wal_bytes db) frontier\<rparr>))))"

end
