(* ===== verification/Writer.thy ===== *)
theory Writer
  imports Checkpoint Partition_Build
begin

text \<open>
  Models how a checkpoint is written: \<^verbatim>\<open>TableWriter\<close> of \<^verbatim>\<open>snapshot.rs\<close> puts the records, events and
  index entries of one table into new files or takes over what the old manifest already has, and
  \<^verbatim>\<open>CheckpointJob::build\<close> of \<^verbatim>\<open>database.rs\<close> does so for every table and makes the new manifest. The files
  of the directory are in the builder of the indexes, \<open>ix_disk\<close>; a failure abandons the job, so what it
  leaves in files nothing names is not part of the result.
\<close>

section \<open>Writing one table\<close>

record table_output =
  to_files :: "file_info list"
  to_entities :: u64
  to_history_generations :: "(u64, u64) btree"
  to_partitions :: "(route, partition) btree"

text \<open>\<open>tw_history\<close> is the open history segment, \<open>tw_segments\<close> those before it.\<close>

record table_writer =
  tw_current :: heap_writer
  tw_bases :: heap_writer
  tw_snapshots :: heap_writer
  tw_indexes :: indexes
  tw_history :: bytes
  tw_segments :: "bytes list"
  tw_segment :: u64
  tw_segment_limit :: u64
  tw_compress :: bool
  tw_table :: u64
  tw_generation :: u64
  tw_slot :: u8
  tw_entities :: u64
  tw_reused :: "(file_id, file_info) btree"
  tw_history_generations :: "(u64, u64) btree"
  tw_rewrite_history :: bool
  tw_rewrite_indexes :: bool

text \<open>\<^verbatim>\<open>File::create_new\<close>.\<close>

definition create_new :: "file_id \<Rightarrow> indexes \<Rightarrow> indexes res" where
  "create_new f ix = (if ix_disk ix f \<noteq> None then Inl exists_error else Inr (ix\<lparr>ix_disk := (ix_disk ix)(f := Some [])\<rparr>))"

definition writer_create :: "(file_id \<Rightarrow> bytes option) \<Rightarrow> u64 \<Rightarrow> u64 \<Rightarrow> u8 \<Rightarrow> u64 \<Rightarrow> u64 \<Rightarrow> bool \<Rightarrow> bool \<Rightarrow> nat \<Rightarrow> bool \<Rightarrow> table_writer res" where
  "writer_create disk table generation slot lsn limit compress rewrite_history max_partitions rewrite_indexes =
     res_bind (res_fold (\<lambda>kind. create_new (file_id_new table generation kind 0)) [0, 1, 2, 6]
         (indexes_new disk table generation lsn max_partitions)) (\<lambda>ix.
       Inr \<lparr>tw_current = heap_create lsn, tw_bases = heap_create lsn, tw_snapshots = heap_create lsn, tw_indexes = ix,
         tw_history = [], tw_segments = [], tw_segment = 0, tw_segment_limit = limit, tw_compress = compress, tw_table = table,
         tw_generation = generation, tw_slot = slot, tw_entities = 0, tw_reused = [], tw_history_generations = [(generation, lsn)],
         tw_rewrite_history = rewrite_history, tw_rewrite_indexes = rewrite_indexes\<rparr>)"

definition writer_index :: "u8 \<Rightarrow> index_key \<Rightarrow> index_value \<Rightarrow> file_id option \<Rightarrow> table_writer \<Rightarrow> table_writer res" where
  "writer_index kind k v dependency w =
     res_bind (indexes_append kind k v dependency (tw_indexes w)) (\<lambda>ix. Inr (w\<lparr>tw_indexes := ix\<rparr>))"

definition writer_reuse :: "route \<Rightarrow> partition \<Rightarrow> root \<Rightarrow> table_writer \<Rightarrow> table_writer res" where
  "writer_reuse rt part r w = res_bind (indexes_reuse rt part r (tw_indexes w)) (\<lambda>ix. Inr (w\<lparr>tw_indexes := ix\<rparr>))"

definition writer_remember :: "root \<Rightarrow> file_id \<Rightarrow> table_writer \<Rightarrow> table_writer res" where
  "writer_remember r f w =
     (if bt_has (tw_reused w) f then Inr w
      else res_bind (ok_or (List.find (\<lambda>info. file_info_id info = f) (r_files r)) (Corrupt ''history references an unlisted file'')) (\<lambda>info.
        res_bind (ok_or (map_of (r_history_generations r) (fid_generation f)) (Corrupt ''absent history sequence'')) (\<lambda>lsn.
          Inr (w\<lparr>tw_reused := bt_insert f info (tw_reused w),
            tw_history_generations := bt_insert (fid_generation f) lsn (tw_history_generations w)\<rparr>))))"

definition remember_all :: "root \<Rightarrow> partition \<Rightarrow> table_writer \<Rightarrow> table_writer res" where
  "remember_all r part w = res_fold (writer_remember r) (map fst (p_dependencies part)) w"

section \<open>Taking over partitions\<close>

definition routes_between :: "root \<Rightarrow> route \<Rightarrow> route \<Rightarrow> (route \<times> partition) list" where
  "routes_between r low high = filter (\<lambda>e. low \<le> fst e \<and> fst e \<le> high) (r_partitions r)"

text \<open>Every slot a partition mentions, in the slots of the new manifest.\<close>

definition moved_slots :: "u8 option list \<Rightarrow> partition \<Rightarrow> partition res" where
  "moved_slots slots part =
     res_bind (res_fold (\<lambda>e m. res_bind (ok_or (slots ! unat (snd e)) (Corrupt ''reused collected partition''))
         (\<lambda>new. Inr (m @ [(fst e, new)]))) (p_slots part) []) (\<lambda>m. Inr (part\<lparr>p_slots := m\<rparr>))"

definition carry_partition :: "root \<Rightarrow> route \<Rightarrow> u8 option list \<Rightarrow> table_writer \<Rightarrow> table_writer res" where
  "carry_partition r rt slots w =
     res_bind (moved_slots slots (the (map_of (r_partitions r) rt))) (\<lambda>part.
     res_bind (remember_all r part w) (writer_reuse rt part r))"

definition carry_partition_history :: "root \<Rightarrow> u64 \<Rightarrow> u64 \<Rightarrow> u8 option list \<Rightarrow> table_writer \<Rightarrow> table_writer res" where
  "carry_partition_history r lower upper slots w =
     res_fold (\<lambda>kind w. res_fold (\<lambda>e. carry_partition r (fst e) slots)
       (routes_between r (tw_table w, kind, (lower, 0)) (tw_table w, kind, (upper, - 1))) w) [4, 5] w"

section \<open>Appending history\<close>

definition append_snapshot :: "u64 \<Rightarrow> entity \<Rightarrow> table_writer \<Rightarrow> table_writer res" where
  "append_snapshot ent state w =
     res_bind (heap_append (encode_entity state) (tw_snapshots w)) (\<lambda>(location, hw).
       writer_index 5 (ent, en_version state) (tw_generation w, location)
         (Some (file_id_new (tw_table w) (tw_generation w) 2 0)) (w\<lparr>tw_snapshots := hw\<rparr>))"

text \<open>A segment that the event would make too long is closed and the next one begun.\<close>

definition next_segment :: "bytes \<Rightarrow> table_writer \<Rightarrow> table_writer res" where
  "next_segment payload w =
     (if tw_history w \<noteq> [] \<and> length (tw_history w) + length payload + 40 > unat (tw_segment_limit w)
      then res_bind (ok_or (checked_add64 (tw_segment w) 1) (Corrupt ''history segment exhausted'')) (\<lambda>segment.
        res_bind (create_new (file_id_new (tw_table w) (tw_generation w) 6 segment) (tw_indexes w)) (\<lambda>ix.
          Inr (w\<lparr>tw_segments := tw_segments w @ [tw_history w], tw_history := [], tw_segment := segment, tw_indexes := ix\<rparr>)))
      else Inr w)"

definition append_event :: "u64 \<Rightarrow> event \<Rightarrow> table_writer \<Rightarrow> table_writer res" where
  "append_event ent ev w =
     (let payload = history_pack ent (encode_event ev) (tw_compress w) in
      res_bind (next_segment payload w) (\<lambda>w.
      res_bind (event_location (tw_segment w) (of_nat (length (tw_history w)))) (\<lambda>location.
      res_bind (frame_encode 3 (ev_transaction ev) payload) (\<lambda>fr.
        writer_index 4 (ent, ev_version ev) (tw_generation w, location)
          (Some (file_id_new (tw_table w) (tw_generation w) 6 (tw_segment w))) (w\<lparr>tw_history := tw_history w @ fr\<rparr>)))))"

section \<open>Copying history\<close>

definition version_within :: "u64 \<Rightarrow> u64 \<Rightarrow> event \<Rightarrow> bool" where
  "version_within low high e = (low \<le> ev_version e \<and> ev_version e \<le> high)"

text \<open>Whether what is in memory overrides an entry of the partition.\<close>

definition overridden :: "u8 \<Rightarrow> u64 \<Rightarrow> u64 \<Rightarrow> entity_data option \<Rightarrow> bool" where
  "overridden kind low high overrides = (case overrides of
       None \<Rightarrow> False
     | Some d \<Rightarrow> if kind = 5 then om_range_list (ed_snapshots d) (Included low) (Included high) \<noteq> []
         else om_range_list (ed_committed d) (Included low) (Included high) \<noteq> [] \<or> list_ex (version_within low high) (ed_events d))"

definition copy_entry :: "root \<Rightarrow> store \<Rightarrow> u64 \<Rightarrow> u8 \<Rightarrow> entity_data option \<Rightarrow> (index_key \<times> index_value) res \<Rightarrow> table_writer \<Rightarrow> table_writer res" where
  "copy_entry r st ent kind overrides entry w =
     res_bind entry (\<lambda>(k, location).
       if kind = 5 then
         if (case overrides of None \<Rightarrow> False | Some d \<Rightarrow> om_get (ed_snapshots d) (snd k) \<noteq> None) then Inr w
         else if tw_rewrite_history w
         then res_bind (history_state r st (tw_table w) location ent) (\<lambda>state. append_snapshot ent state w)
         else (let f = file_id_new (tw_table w) (fst location) 2 0 in
           res_bind (writer_remember r f w) (writer_index 5 k location (Some f)))
       else if tw_rewrite_history w then
         res_bind (event_at r st (tw_table w) location) (\<lambda>(eid, ev, lsn).
           if eid \<noteq> ent \<or> ev_version ev \<noteq> snd k \<or> ev_transaction ev \<noteq> lsn then Inl (Corrupt ''invalid collected event'')
           else append_event ent ev w)
       else (let f = file_id_new (tw_table w) (fst location) 6 (fst (event_split (snd location))) in
         res_bind (writer_remember r f w) (writer_index 4 k location (Some f))))"

definition copy_partition :: "root \<Rightarrow> store \<Rightarrow> u64 \<Rightarrow> u64 \<Rightarrow> u64 \<Rightarrow> u8 \<Rightarrow> entity_data option \<Rightarrow> route \<times> partition \<Rightarrow> table_writer \<Rightarrow> table_writer res" where
  "copy_partition r st ent low high kind overrides e w = (case e of (rt, part) \<Rightarrow>
     (let start = snd (snd (snd rt)); upper = snd (bucket_end kind (snd (snd rt))) in
      if \<not> tw_rewrite_history w \<and> \<not> tw_rewrite_indexes w \<and> \<not> overridden kind start upper overrides \<and>
         low \<le> snd (p_first part) \<and> high \<ge> snd (p_last part)
      then res_bind (remember_all r part w) (writer_reuse rt part r)
      else res_fold (copy_entry r st ent kind overrides)
        (index_items st (p_file part) (p_lsn part) (p_base part) (ent, low) (ent, high)) w))"

definition copy_kind :: "root \<Rightarrow> store \<Rightarrow> u64 \<Rightarrow> u64 \<Rightarrow> u64 \<Rightarrow> entity_data option \<Rightarrow> u8 \<Rightarrow> table_writer \<Rightarrow> table_writer res" where
  "copy_kind r st ent base high overrides kind w =
     (if kind = 4 \<and> base \<ge> high then Inr w
      else let low = (if kind = 4 then base + 1 else base) in
        res_fold (copy_partition r st ent low high kind overrides)
          (routes_between r (tw_table w, kind, bucket kind (ent, low)) (tw_table w, kind, bucket kind (ent, high))) w)"

definition copy_history :: "root \<Rightarrow> store \<Rightarrow> u64 \<Rightarrow> u64 \<Rightarrow> u64 \<Rightarrow> entity_data option \<Rightarrow> table_writer \<Rightarrow> table_writer res" where
  "copy_history r st ent base high overrides w = res_fold (copy_kind r st ent base high overrides) [5, 4] w"

section \<open>Entities\<close>

definition writer_carry :: "u64 \<Rightarrow> index_value \<Rightarrow> root \<Rightarrow> store \<Rightarrow> table_writer \<Rightarrow> table_writer res" where
  "writer_carry ent v r st w =
     res_bind (writer_index 3 (ent, 0) v None w) (copy_history r st ent 0 (- 1) None)"

definition append_records :: "u64 \<Rightarrow> entity_data \<Rightarrow> table_writer \<Rightarrow> table_writer res" where
  "append_records ent d w =
     res_bind (heap_append (encode_entity (ed_current d)) (tw_current w)) (\<lambda>(current, cw).
     res_bind (heap_append (encode_entity (ed_base d)) (tw_bases w)) (\<lambda>(base, bw).
     res_bind (writer_index 3 (ent, 0) (locate_slot (tw_slot w) current, locate_slot (tw_slot w) base) None
         (w\<lparr>tw_current := cw, tw_bases := bw\<rparr>)) (\<lambda>w.
       Inr (w\<lparr>tw_entities := tw_entities w + 1\<rparr>))))"

definition append_entity :: "u64 \<Rightarrow> entity_data \<Rightarrow> table_writer \<Rightarrow> table_writer res" where
  "append_entity ent d w =
     (let base = en_version (ed_base d) in
      res_bind (append_records ent d w) (\<lambda>w.
      res_bind (case ed_disk d of
          None \<Rightarrow> Inr w
        | Some disk \<Rightarrow> if base \<le> dh_through disk
            then copy_history (dh_root disk) (dh_pager disk) ent base (dh_through disk) (Some d) w else Inr w) (\<lambda>w.
      res_bind (res_fold (\<lambda>e. append_snapshot ent (snd e)) (om_range_list (ed_snapshots d) (Included base) Unbounded) w) (\<lambda>w.
      res_bind (res_fold (\<lambda>e. append_event ent (snd e)) (om_range_list (ed_committed d) (Excluded base) Unbounded) w) (\<lambda>w.
        res_fold (append_event ent) (ed_events d) w)))))"

text \<open>A written file and what the manifest says of it.\<close>

definition file_entry :: "table_writer \<Rightarrow> u8 \<times> u64 \<times> bytes \<Rightarrow> file_info" where
  "file_entry w e = (case e of (kind, segment, contents) \<Rightarrow>
     \<lparr>fi_generation = tw_generation w, fi_table = tw_table w, fi_kind = kind, fi_segment = segment,
      fi_size = of_nat (length contents), fi_crc = file_digest contents\<rparr>)"

definition written_files :: "table_writer \<Rightarrow> (u8 \<times> u64 \<times> bytes) list" where
  "written_files w = [(0, 0, heap_finish (tw_current w)), (1, 0, heap_finish (tw_bases w)), (2, 0, heap_finish (tw_snapshots w))] @
     map (\<lambda>(i, bs). (6, of_nat i, bs)) (enumerate 0 (tw_segments w @ [tw_history w]))"

definition writer_finish :: "table_writer \<Rightarrow> (table_output \<times> (file_id \<Rightarrow> bytes option)) res" where
  "writer_finish w =
     res_bind (indexes_finish (tw_indexes w)) (\<lambda>ix.
       Inr (\<lparr>to_files = map snd (tw_reused w) @ map snd (ix_files ix) @ map (file_entry w) (written_files w), to_entities = tw_entities w,
          to_history_generations = tw_history_generations w, to_partitions = ix_parts ix\<rparr>,
        fold (\<lambda>(kind, segment, contents) disk. disk(file_id_new (tw_table w) (tw_generation w) kind segment := Some contents))
          (written_files w) (ix_disk ix)))"

section \<open>Building a checkpoint\<close>

text \<open>What the closure over the entities changes: the writer, the quotas of the slots, the occupancy.\<close>

type_synonym build_state = "table_writer \<times> u64 list \<times> (u64 \<times> u8, occupancy) btree"

definition occupancy_default :: occupancy where
  "occupancy_default = \<lparr>oc_entities = 0, oc_dead = 0\<rparr>"

definition update_occupancy :: "u64 \<times> u8 \<Rightarrow> (occupancy \<Rightarrow> occupancy) \<Rightarrow> (u64 \<times> u8, occupancy) btree \<Rightarrow> (u64 \<times> u8, occupancy) btree" where
  "update_occupancy k f m = bt_insert k (f (case map_of m k of Some v \<Rightarrow> v | None \<Rightarrow> occupancy_default)) m"

definition rewrite_entity :: "readstate \<Rightarrow> u64 \<Rightarrow> u64 \<Rightarrow> build_state \<Rightarrow> build_state res" where
  "rewrite_entity s table ent x = (case x of (w, quotas, occupancy) \<Rightarrow>
     res_bind (load s table ent) (\<lambda>d.
     res_bind (ok_or d (Corrupt ''entity vanished during checkpoint'')) (\<lambda>d.
     res_bind (append_entity ent d w) (\<lambda>w. Inr (w, quotas, occupancy)))))"

text \<open>
  An entity nobody touched stays where it is unless its generation is drained; an entity that is
  rewritten leaves a dead copy in a generation that stays.
\<close>

definition build_entity :: "readstate \<Rightarrow> u8 option list \<Rightarrow> u64 \<Rightarrow> u64 \<Rightarrow> index_value option \<Rightarrow> build_state \<Rightarrow> build_state res" where
  "build_entity s slots table ent locator x = (case x of (w, quotas, occupancy) \<Rightarrow> (case locator of
       None \<Rightarrow> rewrite_entity s table ent x
     | Some v \<Rightarrow>
         (let touched = overlay_get (rs_overlay s) (table, ent) \<noteq> None in
          res_bind (entity_slot v) (\<lambda>old. case slots ! unat old of
              None \<Rightarrow> rewrite_entity s table ent x
            | Some slot \<Rightarrow>
                (let quota = quotas ! unat slot in
                 if \<not> touched \<and> quota = 0
                 then res_bind (writer_carry ent (remap v slot) (rs_root s) (rs_store s) w) (\<lambda>w. Inr (w, quotas, occupancy))
                 else rewrite_entity s table ent
                   (w, if touched then quotas else quotas[unat slot := quota - 1],
                    update_occupancy (table, slot) (\<lambda>v. v\<lparr>oc_dead := oc_dead v + 1\<rparr>) occupancy))))))"

definition reusable :: "readstate \<Rightarrow> u8 option list \<Rightarrow> u64 list \<Rightarrow> u64 \<Rightarrow> u64 \<Rightarrow> u64 \<Rightarrow> bool" where
  "reusable s slots quotas table lower upper = (case map_of (r_partitions (rs_root s)) (table, 3, (lower, 0)) of
       None \<Rightarrow> False
     | Some part \<Rightarrow> overlay_range (rs_overlay s) (Included (table, lower)) (Included (table, upper)) = [] \<and>
         list_all (\<lambda>e. case slots ! unat (snd e) of Some new \<Rightarrow> quotas ! unat new = 0 | None \<Rightarrow> False) (p_slots part))"

definition build_partition :: "readstate \<Rightarrow> u8 option list \<Rightarrow> u64 \<Rightarrow> u64 \<Rightarrow> build_state \<Rightarrow> build_state res" where
  "build_partition s slots table lower x = (case x of (w, quotas, occupancy) \<Rightarrow>
     (let upper = saturating_add64 lower (WIDTH - 1) in
      if reusable s slots quotas table lower upper
      then res_bind (carry_partition (rs_root s) (table, 3, (lower, 0)) slots w) (\<lambda>w.
        res_bind (carry_partition_history (rs_root s) lower upper slots w) (\<lambda>w. Inr (w, quotas, occupancy)))
      else visit_entries_range s table lower upper (build_entity s slots table) x))"

text \<open>The partitions of a table that hold entities, on disk or in memory.\<close>

definition entity_partitions :: "readstate \<Rightarrow> u64 \<Rightarrow> u64 list" where
  "entity_partitions s table =
     map fst (fold (\<lambda>lower m. bt_insert lower () m)
       (map (\<lambda>e. fst (snd (snd (fst e)))) (routes_between (rs_root s) (table, 3, (0, 0)) (table, 3, (- 1, - 1))) @
        map (\<lambda>e. fst (bucket 3 (snd (fst e), 0))) (overlay_range (rs_overlay s) (Included (table, 0)) (Included (table, - 1)))) [])"

text \<open>One table: the manifest being built, the quotas left and the files.\<close>

definition build_table :: "checkpoint_job \<Rightarrow> u8 option list \<Rightarrow> u8 \<Rightarrow> u64 \<Rightarrow> root \<times> u64 list \<times> (file_id \<Rightarrow> bytes option) \<Rightarrow>
    (root \<times> u64 list \<times> (file_id \<Rightarrow> bytes option)) res" where
  "build_table job slots new_slot table x = (case x of (root, quotas, disk) \<Rightarrow>
     (let s = cj_state job; options = cj_options job; plan = cj_plan job in
      res_bind (writer_create disk table (cj_generation job) new_slot (rs_lsn s) (op_history_segment_bytes options)
          (op_compress_history options) (cj_rewrite job) (max_index_partitions (op_limits options) - length (r_partitions root))
          (list_all (\<lambda>e. snd e = - 1) plan \<and> length plan = length (r_generations (rs_root s)))) (\<lambda>w.
      res_bind (res_fold (build_partition s slots table) (entity_partitions s table) (w, quotas, r_occupancy root)) (\<lambda>(w, quotas, occupancy).
      res_bind (writer_finish w) (\<lambda>(out, disk).
        Inr (root\<lparr>r_history_generations := bt_extend (r_history_generations root) (to_history_generations out),
             r_files := r_files root @ to_files out, r_partitions := bt_extend (r_partitions root) (to_partitions out),
             r_occupancy := update_occupancy (table, new_slot) (\<lambda>v. v\<lparr>oc_entities := oc_entities v + to_entities out\<rparr>) occupancy\<rparr>,
           quotas, disk))))))"

definition plan_quotas :: "plan \<Rightarrow> generation_info list \<Rightarrow> u8 option list \<Rightarrow> u64 list" where
  "plan_quotas plan gs slots = fold (\<lambda>(old, g) quotas. case slots ! old of
       None \<Rightarrow> quotas
     | Some slot \<Rightarrow> quotas[unat slot := (case map_of plan (g_generation g) of Some q \<Rightarrow> q | None \<Rightarrow> 0)])
     (enumerate 0 gs) (replicate MAX_SLOTS 0)"

text \<open>\<open>io\<close> is the error of writing or synchronizing the manifest's own file, if any.\<close>

definition build_checkpoint :: "io_error option \<Rightarrow> checkpoint_job \<Rightarrow> (root \<times> (file_id \<Rightarrow> bytes option) \<times> bytes) res" where
  "build_checkpoint io job =
     (let s = cj_state job; old = rs_root s; absorb = absorbed (cj_plan job); limits = op_limits (cj_options job) in
      res_bind (rebuild_slots old absorb (cj_generation job) (rs_lsn s)) (\<lambda>(generations, slots).
      let root = \<lparr>r_generation = cj_generation job, r_lsn = rs_lsn s, r_catalog = rs_catalog s, r_generations = generations,
            r_files = kept_files old absorb, r_partitions = [], r_history_generations = [],
            r_history_compacted = (cj_rewrite job \<or> r_history_compacted old \<and> \<not> overlay_changed s),
            r_occupancy = kept_occupancy old slots\<rparr> in
      res_bind (res_fold (build_table job slots (of_nat (length generations - 1))) (map fst (rs_catalog s))
          (root, plan_quotas (cj_plan job) (r_generations old) slots, st_disk (rs_store s))) (\<lambda>(root, _, disk).
      res_bind (limit_check ''history files'' 0 (length (filter (\<lambda>f. fid_kind f = 2 \<or> fid_kind f = 6) (root_file_ids root)))
          (max_history_files limits)) (\<lambda>_.
      res_bind (limit_check ''index partitions'' 0 (length (r_partitions root)) (max_index_partitions limits)) (\<lambda>_.
      res_bind (frame_encode 4 (rs_lsn s) (encode_root root)) (\<lambda>record.
        case io of Some e \<Rightarrow> Inl (Io e) | None \<Rightarrow> Inr (root, disk, record)))))))"

end
