(* ===== verification/Writer_Laws.thy ===== *)
theory Writer_Laws
  imports Writer
begin

text \<open>
  The laws of writing a checkpoint. The locale \<open>writer_law\<close> is the contract of the primitive steps of a
  table writer with an invariant over them: what all of them keep, every operation of \<^verbatim>\<open>TableWriter\<close> and
  the pass of \<^verbatim>\<open>CheckpointJob::build\<close> over the entities of a table keep. It is interpreted on the
  accounting of files, from which it follows that a checkpoint that was built verifies.
\<close>

section \<open>What every step keeps\<close>

text \<open>The manifests the writer may take files over from.\<close>

definition state_sources :: "(root \<Rightarrow> bool) \<Rightarrow> readstate \<Rightarrow> bool" where
  "state_sources source s = (source (rs_root s) \<and>
     (\<forall>k d disk. overlay_get (rs_overlay s) k = Some d \<and> ed_disk d = Some disk \<longrightarrow> source (dh_root disk)))"

lemma load_source:
  assumes "state_sources source s" "load s table ent = Inr (Some d)" "ed_disk d = Some disk"
  shows "source (dh_root disk)"
proof (cases "overlay_get (rs_overlay s) (table, ent)")
  case None
  then have "dh_root disk = rs_root s"
    using assms(2,3) by (auto simp: load_def load_charged_def entity_charged_def res_simps split: option.splits if_splits)
  then show ?thesis using assms(1) by (simp add: state_sources_def)
next
  case (Some d')
  then have "d = d'" using assms(2) by (auto simp: load_def load_charged_def Let_def res_simps)
  then show ?thesis using assms(1,3) Some unfolding state_sources_def by blast
qed

locale writer_law =
  fixes P :: "table_writer \<Rightarrow> bool" and source :: "root \<Rightarrow> bool"
  assumes index: "P w \<Longrightarrow> kind \<in> {3, 4, 5} \<Longrightarrow> writer_index kind k v dep w = Inr w' \<Longrightarrow> P w'"
    and reuse: "P w \<Longrightarrow> source r \<Longrightarrow> writer_reuse rt part r w = Inr w' \<Longrightarrow> P w'"
    and remember: "P w \<Longrightarrow> source r \<Longrightarrow> writer_remember r fid w = Inr w' \<Longrightarrow> P w'"
    and segment: "P w \<Longrightarrow> next_segment payload w = Inr w' \<Longrightarrow> P w'"
    and event: "P w \<Longrightarrow> frame_encode fk lsn bs = Inr fr \<Longrightarrow> P (w\<lparr>tw_history := tw_history w @ fr\<rparr>)"
    and snapshot: "P w \<Longrightarrow> P (w\<lparr>tw_snapshots := hw\<rparr>)"
    and records: "P w \<Longrightarrow> P (w\<lparr>tw_current := cw, tw_bases := bw\<rparr>)"
    and entities: "P w \<Longrightarrow> P (w\<lparr>tw_entities := n\<rparr>)"
begin

lemmas fold_keeps = res_fold_invariant [where P = P]

lemma remember_all_keeps: "P w \<Longrightarrow> source r \<Longrightarrow> remember_all r part w = Inr w' \<Longrightarrow> P w'"
  unfolding remember_all_def by (erule fold_keeps) (auto intro: remember)

lemma carry_partition_keeps: "P w \<Longrightarrow> source r \<Longrightarrow> carry_partition r rt slots w = Inr w' \<Longrightarrow> P w'"
  unfolding carry_partition_def by (auto simp: res_simps intro: reuse remember_all_keeps)

lemma carry_history_keeps: "P w \<Longrightarrow> source r \<Longrightarrow> carry_partition_history r lower upper slots w = Inr w' \<Longrightarrow> P w'"
  unfolding carry_partition_history_def
  by (erule fold_keeps, assumption, erule fold_keeps, assumption) (rule carry_partition_keeps)

lemma append_snapshot_keeps: "P w \<Longrightarrow> append_snapshot ent state w = Inr w' \<Longrightarrow> P w'"
  unfolding append_snapshot_def by (auto simp: res_simps intro: index [OF snapshot])

lemma append_event_keeps: "P w \<Longrightarrow> append_event ent ev w = Inr w' \<Longrightarrow> P w'"
  unfolding append_event_def Let_def by (auto simp: res_simps intro: index [OF event] segment)

lemma copy_entry_keeps:
  assumes "P w" "source r" "kind \<in> {4, 5}" "copy_entry r st ent kind overrides entry w = Inr w'"
  shows "P w'"
  using assms(1,4) unfolding copy_entry_def Let_def
  by (auto simp: res_simps split: if_splits intro: append_snapshot_keeps [OF assms(1)] append_event_keeps [OF assms(1)]
      index [OF remember [OF assms(1,2)]])

lemma copy_partition_keeps:
  assumes "P w" "source r" "kind \<in> {4, 5}" "copy_partition r st ent low high kind overrides e w = Inr w'"
  shows "P w'"
proof -
  obtain rt part where e: "e = (rt, part)" by (cases e)
  let ?items = "index_items st (p_file part) (p_lsn part) (p_base part) (ent, low) (ent, high)"
  have "res_bind (remember_all r part w) (writer_reuse rt part r) = Inr w' \<or> res_fold (copy_entry r st ent kind overrides) ?items w = Inr w'"
    using assms(4) by (auto simp: copy_partition_def e Let_def split: if_splits)
  then show ?thesis
  proof
    assume "res_bind (remember_all r part w) (writer_reuse rt part r) = Inr w'"
    then show ?thesis by (auto simp: res_simps intro: reuse [OF remember_all_keeps [OF assms(1,2)] assms(2)])
  next
    assume "res_fold (copy_entry r st ent kind overrides) ?items w = Inr w'"
    then show ?thesis using assms(1) by (rule fold_keeps) (rule copy_entry_keeps [OF _ assms(2,3)])
  qed
qed

lemma copy_history_keeps:
  assumes "P w" "source r" "copy_history r st ent base high overrides w = Inr w'"
  shows "P w'"
proof -
  have kind: "P w'" if "kind \<in> set [5, 4]" "P w" "copy_kind r st ent base high overrides kind w = Inr w'" for kind w w'
  proof -
    have "kind \<in> {4, 5}" using that(1) by auto
    have "w' = w \<or> (\<exists>low es. res_fold (copy_partition r st ent low high kind overrides) es w = Inr w')"
      using that(3) unfolding copy_kind_def Let_def by (auto split: if_splits)
    then show ?thesis
    proof
      assume "\<exists>low es. res_fold (copy_partition r st ent low high kind overrides) es w = Inr w'"
      then obtain low es where "res_fold (copy_partition r st ent low high kind overrides) es w = Inr w'" by blast
      then show ?thesis using that(2) by (rule fold_keeps) (rule copy_partition_keeps [OF _ assms(2) \<open>kind \<in> {4, 5}\<close>])
    qed (use that(2) in simp)
  qed
  show ?thesis using assms(3,1) kind unfolding copy_history_def by (rule fold_keeps)
qed

lemma writer_carry_keeps: "P w \<Longrightarrow> source r \<Longrightarrow> writer_carry ent v r st w = Inr w' \<Longrightarrow> P w'"
  unfolding writer_carry_def by (auto simp: res_simps intro: copy_history_keeps [OF index])

lemma append_records_keeps: "P w \<Longrightarrow> append_records ent d w = Inr w' \<Longrightarrow> P w'"
  unfolding append_records_def by (auto simp: res_simps intro: entities index [OF records])

lemma append_entity_keeps:
  assumes "P w" "\<And>disk. ed_disk d = Some disk \<Longrightarrow> source (dh_root disk)" "append_entity ent d w = Inr w'"
  shows "P w'"
proof -
  let ?base = "en_version (ed_base d)"
  obtain w1 w2 w3 w4 where w: "append_records ent d w = Inr w1"
      "(case ed_disk d of None \<Rightarrow> Inr w1 | Some disk \<Rightarrow> if ?base \<le> dh_through disk
          then copy_history (dh_root disk) (dh_pager disk) ent ?base (dh_through disk) (Some d) w1 else Inr w1) = Inr w2"
      "res_fold (\<lambda>e. append_snapshot ent (snd e)) (om_range_list (ed_snapshots d) (Included ?base) Unbounded) w2 = Inr w3"
      "res_fold (\<lambda>e. append_event ent (snd e)) (om_range_list (ed_committed d) (Excluded ?base) Unbounded) w3 = Inr w4"
      "res_fold (append_event ent) (ed_events d) w4 = Inr w'"
    using assms(3) unfolding append_entity_def Let_def by (simp only: res_bind_Inr_iff) blast
  have "P w1" by (rule append_records_keeps [OF assms(1) w(1)])
  then have "P w2" using w(2) assms(2) copy_history_keeps by (cases "ed_disk d") (auto split: if_splits)
  then have "P w3" by (rule fold_keeps [OF w(3)]) (rule append_snapshot_keeps)
  then have "P w4" by (rule fold_keeps [OF w(4)]) (rule append_event_keeps)
  then show ?thesis by (rule fold_keeps [OF w(5)]) (rule append_event_keeps)
qed

section \<open>The pass over the entities of a table\<close>

lemma rewrite_entity_keeps:
  assumes "state_sources source s" "P w" "rewrite_entity s table ent (w, q, oc) = Inr (w', q', oc')"
  shows "P w'"
proof -
  obtain d where d: "load s table ent = Inr (Some d)" "append_entity ent d w = Inr w'"
    using assms(3) by (auto simp: rewrite_entity_def res_simps)
  show ?thesis by (rule append_entity_keeps [OF assms(2) load_source [OF assms(1) d(1)] d(2)])
qed

lemma build_entity_keeps:
  assumes "state_sources source s" "P w" "build_entity s slots table ent locator (w, q, oc) = Inr (w', q', oc')"
  shows "P w'"
proof -
  have root: "source (rs_root s)" using assms(1) by (simp add: state_sources_def)
  show ?thesis using assms(3) unfolding build_entity_def Let_def prod.case
    by (auto simp: res_simps split: option.splits if_splits
        dest: rewrite_entity_keeps [OF assms(1,2)] writer_carry_keeps [OF assms(2) root])
qed

lemma merge_keeps:
  assumes step: "\<And>ent locator x x'. Q x \<Longrightarrow> visit ent locator x = Inr x' \<Longrightarrow> Q x'"
  shows "merge_entries visit es ids x = Inr x' \<Longrightarrow> Q x \<Longrightarrow> Q x'"
proof (induction es arbitrary: ids x)
  case Nil
  then show ?case by (induction ids arbitrary: x) (auto simp: res_simps dest: step)
next
  case (Cons e es)
  show ?case
  proof (cases e)
    case (Inr p)
    obtain a v where e: "e = Inr (a, v)" using Inr by (cases p) simp
    note rest = Cons.IH
    show ?thesis using Cons.prems
    proof (induction ids arbitrary: x)
      case Nil
      then show ?case by (auto simp: e res_simps dest: step rest)
    next
      case (Cons b ids)
      show ?case using Cons.prems
        by (auto simp: e res_simps dest: step Cons.IH [unfolded e] rest split: if_splits)
    qed
  qed (use Cons.prems in simp)
qed

lemma build_partition_keeps:
  assumes "state_sources source s" "P (fst x)" "build_partition s slots table lower x = Inr x'"
  shows "P (fst x')"
proof -
  have root: "source (rs_root s)" using assms(1) by (simp add: state_sources_def)
  obtain w q oc where x: "x = (w, q, oc)" by (metis prod.collapse)
  then have w: "P w" using assms(2) by simp
  have step: "P (fst y')" if "P (fst y)" "build_entity s slots table ent locator y = Inr y'" for ent locator y y'
    using build_entity_keeps [OF assms(1)] that by (cases y; cases y') auto
  let ?upper = "saturating_add64 lower (WIDTH - 1)"
  show ?thesis
  proof (cases "reusable s slots q table lower ?upper")
    case True
    then obtain w1 w2 where c: "carry_partition (rs_root s) (table, 3, (lower, 0)) slots w = Inr w1"
        "carry_partition_history (rs_root s) lower ?upper slots w1 = Inr w2" "x' = (w2, q, oc)"
      using assms(3) unfolding build_partition_def Let_def x prod.case by (auto simp: res_simps)
    show ?thesis using carry_history_keeps [OF carry_partition_keeps [OF w root c(1)] root c(2)] c(3) by simp
  next
    case False
    then have "visit_entries_range s table lower ?upper (build_entity s slots table) x = Inr x'"
      using assms(3) unfolding build_partition_def Let_def x prod.case by simp
    then show ?thesis unfolding visit_entries_range_def
      by (rule merge_keeps [where Q = "\<lambda>x. P (fst x)", rotated]) (use assms(2) step in auto)
  qed
qed

lemma build_partitions_keeps:
  assumes "state_sources source s" "P w" "res_fold (build_partition s slots table) ls (w, q, oc) = Inr (w', q', oc')"
  shows "P w'"
proof -
  have "P (fst (w', q', oc'))"
    by (rule res_fold_invariant [OF assms(3), where P = "\<lambda>x. P (fst x)"]) (use assms(2) build_partition_keeps [OF assms(1)] in auto)
  then show ?thesis by simp
qed

end

section \<open>Files a checkpoint names\<close>

text \<open>The file has the length and the digest the entry says.\<close>

definition sound :: "(file_id \<Rightarrow> bytes option) \<Rightarrow> file_info \<Rightarrow> bool" where
  "sound disk info = (\<exists>bs. disk (file_info_id info) = Some bs \<and> of_nat (length bs) = fi_size info \<and> file_digest bs = fi_crc info)"

lemma root_verify_iff:
  "root_verify st r = Inr () \<longleftrightarrow> (\<forall>f \<in> set (r_files r). \<exists>bs. st_disk st (file_info_id f) = Some bs \<and>
     length bs = unat (fi_size f) \<and> file_digest bs = fi_crc f)"
proof -
  have "res_fold (\<lambda>f _. res_bind (digest st (file_info_id f)) (\<lambda>(size, crc).
       if size \<noteq> unat (fi_size f) \<or> crc \<noteq> fi_crc f then Inl (Corrupt ''checkpoint file checksum mismatch'') else Inr ())) fs () = Inr () \<longleftrightarrow>
     (\<forall>f \<in> set fs. \<exists>bs. st_disk st (file_info_id f) = Some bs \<and> length bs = unat (fi_size f) \<and> file_digest bs = fi_crc f)" for fs
    by (induction fs) (auto simp: digest_def file_digest_def res_simps)
  then show ?thesis by (simp add: root_verify_def)
qed

lemma verified_sound: "root_verify st r = Inr () \<Longrightarrow> f \<in> set (r_files r) \<Longrightarrow> sound (st_disk st) f"
  by (auto simp: root_verify_iff sound_def)

lemma sound_verified:
  assumes "\<And>f. f \<in> set (r_files r) \<Longrightarrow> sound (st_disk st) f" "\<And>f bs. st_disk st f = Some bs \<Longrightarrow> length bs < 2 ^ 64"
  shows "root_verify st r = Inr ()"
  unfolding root_verify_iff
proof
  fix f assume "f \<in> set (r_files r)"
  then obtain bs where bs: "st_disk st (file_info_id f) = Some bs" "of_nat (length bs) = fi_size f" "file_digest bs = fi_crc f"
    using assms(1) by (auto simp: sound_def)
  then have "unat (fi_size f) = length bs" using assms(2) [OF bs(1)] by (simp add: unat_of_nat flip: bs(2))
  then show "\<exists>bs. st_disk st (file_info_id f) = Some bs \<and> length bs = unat (fi_size f) \<and> file_digest bs = fi_crc f"
    using bs by auto
qed

text \<open>Entries taken over from a manifest before, with files of other generations.\<close>

definition old_entry :: "(file_id \<Rightarrow> bytes option) \<Rightarrow> u64 \<Rightarrow> file_info \<Rightarrow> bool" where
  "old_entry disk g info = (sound disk info \<and> fi_generation info \<noteq> g)"

definition old_entries :: "(file_id \<Rightarrow> bytes option) \<Rightarrow> u64 \<Rightarrow> (file_id, file_info) btree \<Rightarrow> bool" where
  "old_entries disk g m = (\<forall>e \<in> set m. old_entry disk g (snd e))"

definition sound_root :: "(file_id \<Rightarrow> bytes option) \<Rightarrow> u64 \<Rightarrow> root \<Rightarrow> bool" where
  "sound_root disk g r = (\<forall>f \<in> set (r_files r). old_entry disk g f)"

definition new_part :: "u64 \<Rightarrow> u64 \<Rightarrow> file_id \<Rightarrow> bool" where
  "new_part t g f = (fid_table f = t \<and> fid_generation f = g)"

definition index_files_ok :: "(file_id \<Rightarrow> bytes option) \<Rightarrow> u64 \<Rightarrow> u64 \<Rightarrow> indexes \<Rightarrow> bool" where
  "index_files_ok disk t g ix = (ix_table ix = t \<and> ix_generation ix = g \<and>
     (\<forall>f. \<not> new_part t g f \<longrightarrow> ix_disk ix f = disk f) \<and> old_entries disk g (ix_files ix))"

definition files_ok :: "(file_id \<Rightarrow> bytes option) \<Rightarrow> u64 \<Rightarrow> u64 \<Rightarrow> table_writer \<Rightarrow> bool" where
  "files_ok disk t g w = (tw_table w = t \<and> tw_generation w = g \<and> length (tw_segments w) = unat (tw_segment w) \<and>
     index_files_ok disk t g (tw_indexes w) \<and> old_entries disk g (tw_reused w))"

lemma index_files_disk: "index_files_ok disk t g ix \<Longrightarrow> new_part t g f \<Longrightarrow> index_files_ok disk t g (ix\<lparr>ix_disk := (ix_disk ix)(f := Some bs)\<rparr>)"
  by (auto simp: index_files_ok_def)

lemma new_part_new [simp]: "new_part t g (file_id_new t g kind segment)"
  by (simp add: new_part_def file_id_new_def)

lemma index_files_flush: "index_files_ok disk t g ix \<Longrightarrow> indexes_flush at ix = Inr ix' \<Longrightarrow> index_files_ok disk t g ix'"
  by (auto simp: indexes_flush_def Let_def index_files_ok_def split: option.splits if_splits)

lemma index_files_open: "index_files_ok disk t g ix \<Longrightarrow> new_part t g f \<Longrightarrow> indexes_open at f ix = Inr (bs, ix') \<Longrightarrow> index_files_ok disk t g ix'"
  by (auto simp: indexes_open_def index_files_ok_def split: option.splits if_splits)

lemma index_files_start:
  assumes "index_files_ok disk t g ix" "indexes_start at kind rt k ix = Inr ix'"
  shows "index_files_ok disk t g ix'"
proof -
  obtain ix1 bs ix2 where ix: "indexes_flush at ix = Inr ix1" "indexes_open at (file_id_new (ix_table ix1) (ix_generation ix1) kind 0) ix1 = Inr (bs, ix2)"
      "\<exists>ps. ix' = ix2\<lparr>ix_pending := ps\<rparr>"
    using assms(2) unfolding indexes_start_def Let_def by (auto simp: res_simps split: if_splits)
  have 1: "index_files_ok disk t g ix1" by (rule index_files_flush [OF assms(1) ix(1)])
  have "index_files_ok disk t g ix2"
    by (rule index_files_open [OF 1 _ ix(2)]) (use 1 in \<open>simp add: index_files_ok_def\<close>)
  then show ?thesis using ix(3) by (auto simp: index_files_ok_def)
qed

lemma index_files_append:
  assumes "index_files_ok disk t g ix" "indexes_append kind k v dep ix = Inr ix'"
  shows "index_files_ok disk t g ix'"
proof -
  obtain ix1 where ix: "ix1 = ix \<or> (\<exists>at rt. indexes_start at kind rt k ix = Inr ix1)" "\<exists>ps. ix' = ix1\<lparr>ix_pending := ps\<rparr>"
    using assms(2) unfolding indexes_append_def Let_def by (simp only: res_bind_Inr_iff sum.inject split: if_splits) blast+
  have "index_files_ok disk t g ix1" using ix(1) assms(1) index_files_start by metis
  then show ?thesis using ix(2) by (auto simp: index_files_ok_def)
qed

lemma listed_entry: "List.find (\<lambda>info. file_info_id info = f) (r_files r) = Some info \<Longrightarrow> sound_root disk g r \<Longrightarrow> old_entry disk g info"
  by (auto simp: find_Some_iff sound_root_def)

lemma old_entries_insert: "old_entries disk g m \<Longrightarrow> old_entry disk g v \<Longrightarrow> old_entries disk g (bt_insert k v m)"
  using set_bt_insert [of k v m] by (auto simp: old_entries_def)

lemma index_files_reuse:
  assumes "index_files_ok disk t g ix" "sound_root disk g r" "indexes_reuse rt part r ix = Inr ix'"
  shows "index_files_ok disk t g ix'"
proof -
  obtain ix1 info where ix: "indexes_flush (unat (fst (snd rt) - 3)) ix = Inr ix1"
      "List.find (\<lambda>info. file_info_id info = p_file part) (r_files r) = Some info"
      "ix' = ix1\<lparr>ix_files := bt_insert (file_info_id info) info (ix_files ix1), ix_parts := bt_insert rt part (ix_parts ix1)\<rparr>"
    using assms(3) unfolding indexes_reuse_def by (auto simp: res_simps split: if_splits)
  have "index_files_ok disk t g ix1" by (rule index_files_flush [OF assms(1) ix(1)])
  then show ?thesis using listed_entry [OF ix(2) assms(2)] unfolding index_files_ok_def ix(3) by (simp add: old_entries_insert)
qed

lemma create_new_files:
  "create_new f ix = Inr ix' \<Longrightarrow> index_files_ok disk t g ix \<Longrightarrow> new_part t g f \<Longrightarrow> index_files_ok disk t g ix'"
  by (auto simp: create_new_def index_files_disk split: if_splits)

lemma files_segment:
  assumes "files_ok disk t g w" "next_segment payload w = Inr w'"
  shows "files_ok disk t g w'"
proof (cases "w' = w")
  case False
  then obtain segment ix where w': "checked_add64 (tw_segment w) 1 = Some segment"
      "create_new (file_id_new (tw_table w) (tw_generation w) 6 segment) (tw_indexes w) = Inr ix"
      "w' = w\<lparr>tw_segments := tw_segments w @ [tw_history w], tw_history := [], tw_segment := segment, tw_indexes := ix\<rparr>"
    using assms(2) by (auto simp: next_segment_def res_simps split: if_splits)
  have "unat segment = unat (tw_segment w) + 1"
    using w'(1) by (auto simp: checked_add64_def unat_word_ariths split: if_splits)
  then show ?thesis
    using assms(1) create_new_files [OF w'(2), of disk t g] unfolding w'(3) by (simp add: files_ok_def)
qed (use assms(1) in simp)

lemma files_remember:
  assumes "files_ok disk t g w" "sound_root disk g r" "writer_remember r f w = Inr w'"
  shows "files_ok disk t g w'"
proof (cases "w' = w")
  case False
  then obtain info lsn where info: "List.find (\<lambda>info. file_info_id info = f) (r_files r) = Some info"
      "w' = w\<lparr>tw_reused := bt_insert f info (tw_reused w), tw_history_generations := bt_insert (fid_generation f) lsn (tw_history_generations w)\<rparr>"
    using assms(3) by (auto simp: writer_remember_def res_simps split: if_splits)
  show ?thesis using assms(1) old_entries_insert [OF _ listed_entry [OF info(1) assms(2)]] unfolding info(2) by (simp add: files_ok_def)
qed (use assms(1) in simp)

lemma files_indexes: "files_ok disk t g w \<Longrightarrow> index_files_ok disk t g ix \<Longrightarrow> files_ok disk t g (w\<lparr>tw_indexes := ix\<rparr>)"
  by (simp add: files_ok_def)

lemma files_index_part: "files_ok disk t g w \<Longrightarrow> index_files_ok disk t g (tw_indexes w)"
  by (simp add: files_ok_def)

interpretation files: writer_law "files_ok disk t g" "sound_root disk g" for disk t g
proof unfold_locales
  show "files_ok disk t g w'" if "files_ok disk t g w" "writer_index kind k v dep w = Inr w'" for kind k v dep w w'
    using that by (auto simp: writer_index_def res_simps intro!: files_indexes intro: index_files_append files_index_part)
  show "files_ok disk t g w'" if "files_ok disk t g w" "sound_root disk g r" "writer_reuse rt part r w = Inr w'" for w r rt part w'
    using that by (auto simp: writer_reuse_def res_simps intro!: files_indexes intro: index_files_reuse files_index_part)
  show "files_ok disk t g w'" if "files_ok disk t g w" "sound_root disk g r" "writer_remember r fid w = Inr w'" for w r fid w'
    using that by (rule files_remember)
  show "files_ok disk t g w'" if "files_ok disk t g w" "next_segment payload w = Inr w'" for w payload w'
    using that by (rule files_segment)
qed (simp_all add: files_ok_def)

section \<open>The files of a finished table\<close>

text \<open>\<open>K\<close>: the kinds of the index files complete so far.\<close>

definition index_synced :: "(file_id \<Rightarrow> bytes option) \<Rightarrow> u64 \<Rightarrow> u64 \<Rightarrow> u8 set \<Rightarrow> indexes \<Rightarrow> bool" where
  "index_synced disk t g K ix = (ix_table ix = t \<and> ix_generation ix = g \<and> (\<forall>f. \<not> new_part t g f \<longrightarrow> ix_disk ix f = disk f) \<and>
     (\<forall>info \<in> snd ` set (ix_files ix). old_entry disk g info \<or> (\<exists>k \<in> K. file_info_id info = file_id_new t g k 0 \<and> sound (ix_disk ix) info)))"

lemma index_synced_none: "index_files_ok disk t g ix \<Longrightarrow> index_synced disk t g {} ix"
  by (auto simp: index_synced_def index_files_ok_def old_entries_def)

lemma sound_cong: "disk' (file_info_id info) = disk (file_info_id info) \<Longrightarrow> sound disk' info = sound disk info"
  by (simp add: sound_def)

lemma index_synced_sync:
  assumes "index_synced disk t g K ix" "of_nat at + 3 \<notin> K"
  shows "index_synced disk t g (insert (of_nat at + 3) K) (indexes_sync at ix)"
proof (cases "ix_handles ix ! at")
  case None
  then show ?thesis using assms(1) by (auto simp: indexes_sync_def index_synced_def)
next
  case (Some bs)
  let ?k = "of_nat at + 3 :: u8"
  let ?f = "file_id_new t g ?k 0" and ?ix = "indexes_sync at ix"
  let ?info = "\<lparr>fi_generation = g, fi_table = t, fi_kind = ?k, fi_segment = 0, fi_size = of_nat (length bs), fi_crc = file_digest bs\<rparr>"
  have ix: "ix_table ix = t" "ix_generation ix = g" "\<forall>f. \<not> new_part t g f \<longrightarrow> ix_disk ix f = disk f"
    and old: "\<And>info. info \<in> snd ` set (ix_files ix) \<Longrightarrow> old_entry disk g info \<or> (\<exists>k \<in> K. file_info_id info = file_id_new t g k 0 \<and> sound (ix_disk ix) info)"
    using assms(1) unfolding index_synced_def by blast+
  have new: "ix_disk ?ix = (ix_disk ix)(?f := Some bs)" "ix_files ?ix = bt_insert ?f ?info (ix_files ix)"
      "ix_table ?ix = t" "ix_generation ?ix = g"
    using Some ix(1,2) by (simp_all add: indexes_sync_def Let_def file_id_new_def)
  have files: "snd ` set (ix_files ?ix) \<subseteq> insert ?info (snd ` set (ix_files ix))"
    using set_bt_insert [of ?f ?info "ix_files ix"] unfolding new(2) by auto
  have sound: "sound (ix_disk ?ix) ?info" by (simp add: sound_def new(1) file_info_id_def)
  have keep: "sound (ix_disk ?ix) info" if "k \<in> K" "file_info_id info = file_id_new t g k 0" "sound (ix_disk ix) info" for info k
  proof -
    have "k \<noteq> ?k" using that(1) assms(2) by blast
    then have "file_id_new t g k 0 \<noteq> ?f" by (simp add: file_id_new_def)
    then have "ix_disk ?ix (file_info_id info) = ix_disk ix (file_info_id info)" unfolding that(2) new(1) by (rule fun_upd_other)
    then show ?thesis using that(3) by (simp only: sound_def)
  qed
  have entries: "old_entry disk g info \<or> (\<exists>k \<in> insert ?k K. file_info_id info = file_id_new t g k 0 \<and> sound (ix_disk ?ix) info)"
    if "info \<in> snd ` set (ix_files ?ix)" for info
  proof (cases "info = ?info")
    case False
    then have "info \<in> snd ` set (ix_files ix)" using that files by blast
    from old [OF this] keep show ?thesis by blast
  qed (use sound in \<open>simp add: file_info_id_def\<close>)
  have "\<forall>f. \<not> new_part t g f \<longrightarrow> ix_disk ?ix f = disk f" using ix(3) by (auto simp: new(1))
  then show ?thesis unfolding index_synced_def using new(3,4) entries by blast
qed

lemma index_finish_files:
  assumes "index_files_ok disk t g ix" "indexes_finish ix = Inr ix'"
  shows "index_synced disk t g {3, 4, 5} ix'"
proof -
  obtain ix1 where ix1: "res_fold indexes_flush [0, 1, 2] ix = Inr ix1" "ix' = fold indexes_sync [0, 1, 2] ix1"
    using assms(2) unfolding indexes_finish_def by (simp only: res_bind_Inr_iff sum.inject) blast
  have "index_files_ok disk t g ix1" 
    using ix1(1) assms(1) by (rule res_fold_invariant) (rule index_files_flush)
  then have "index_synced disk t g {} ix1" by (rule index_synced_none)
  from index_synced_sync [OF this, of 0] have "index_synced disk t g {3} (indexes_sync 0 ix1)" by simp
  from index_synced_sync [OF this, of 1] have "index_synced disk t g {4, 3} (indexes_sync 1 (indexes_sync 0 ix1))" by simp
  from index_synced_sync [OF this, of 2] show ?thesis by (simp add: ix1(2) insert_commute)
qed

text \<open>Writing files with different names.\<close>

lemma fold_files_miss: "f \<notin> F ` set es \<Longrightarrow> fold (\<lambda>e disk. disk(F e := Some (C e))) es disk f = disk f"
  by (induction es arbitrary: disk) auto

lemma fold_files_hit:
  "distinct (map F es) \<Longrightarrow> e \<in> set es \<Longrightarrow> fold (\<lambda>e disk. disk(F e := Some (C e))) es disk (F e) = Some (C e)"
  by (induction es arbitrary: disk) (auto simp: fold_files_miss)

definition written_id :: "table_writer \<Rightarrow> u8 \<times> u64 \<times> bytes \<Rightarrow> file_id" where
  "written_id w e = file_id_new (tw_table w) (tw_generation w) (fst e) (fst (snd e))"

lemma written_distinct:
  assumes "length (tw_segments w) = unat (tw_segment w)"
  shows "distinct (map (written_id w) (written_files w))"
proof -
  let ?segs = "tw_segments w @ [tw_history w]"
  have small: "length ?segs \<le> 2 ^ 64" using unat_less_u64 [of "tw_segment w"] by (simp add: assms)
  have ne: "file_id_new t g k n = file_id_new t g k' n' \<longleftrightarrow> k = k' \<and> n = n'" for t g k k' n n' by (auto simp: file_id_new_def)
  have "inj_on (\<lambda>i. file_id_new (tw_table w) (tw_generation w) 6 (of_nat i)) {0 ..< length ?segs}"
  proof (rule inj_onI)
    fix i j assume a: "i \<in> {0 ..< length ?segs}" "j \<in> {0 ..< length ?segs}"
      and "file_id_new (tw_table w) (tw_generation w) 6 (of_nat i) = file_id_new (tw_table w) (tw_generation w) 6 (of_nat j)"
    then have "(of_nat i :: u64) = of_nat j" by (simp add: ne)
    moreover have "i < 2 ^ 64" "j < 2 ^ 64" using a small by auto
    ultimately show "i = j" by (simp add: word_unat_eq_iff unat_of_nat)
  qed
  then have segs: "distinct (map (\<lambda>i. file_id_new (tw_table w) (tw_generation w) 6 (of_nat i)) [0 ..< length ?segs])"
    by (simp only: distinct_map distinct_upt set_upt simp_thms)
  have "map (written_id w) (map (\<lambda>(i, bs). (6, of_nat i, bs)) (enumerate 0 ?segs)) =
      map (\<lambda>i. file_id_new (tw_table w) (tw_generation w) 6 (of_nat i)) (map fst (enumerate 0 ?segs))"
    by (simp only: map_map) (simp add: written_id_def case_prod_unfold comp_def)
  also have "map fst (enumerate 0 ?segs) = [0 ..< length ?segs]" by (simp add: enumerate_eq_zip)
  finally have "distinct (map (written_id w) (map (\<lambda>(i, bs). (6, of_nat i, bs)) (enumerate 0 ?segs)))" using segs by (simp only:)
  then show ?thesis by (auto simp: written_files_def written_id_def ne)
qed

text \<open>What a finished table adds to the manifest, and the disk after it.\<close>

definition new_entry :: "(file_id \<Rightarrow> bytes option) \<Rightarrow> u64 set \<Rightarrow> u64 \<Rightarrow> file_info \<Rightarrow> bool" where
  "new_entry disk ts g info = (sound disk info \<and> (fi_generation info \<noteq> g \<or> fi_table info \<in> ts))"

lemma file_info_part: "fid_table (file_info_id info) = fi_table info" "fid_generation (file_info_id info) = fi_generation info"
  "fid_kind (file_info_id info) = fi_kind info"
  by (simp_all add: file_info_id_def file_id_new_def)

lemma writer_finish_files:
  assumes "files_ok disk t g w" "writer_finish w = Inr (out, disk')"
  shows "(\<forall>f. \<not> new_part t g f \<longrightarrow> disk' f = disk f) \<and> (\<forall>info \<in> set (to_files out). new_entry disk' {t} g info)"
proof -
  have w: "tw_table w = t" "tw_generation w = g" "length (tw_segments w) = unat (tw_segment w)"
      "index_files_ok disk t g (tw_indexes w)" "old_entries disk g (tw_reused w)"
    using assms(1) by (simp_all add: files_ok_def)
  obtain ix where ix: "indexes_finish (tw_indexes w) = Inr ix"
      "to_files out = map snd (tw_reused w) @ map snd (ix_files ix) @ map (file_entry w) (written_files w)"
      "disk' = fold (\<lambda>e disk. disk(written_id w e := Some (snd (snd e)))) (written_files w) (ix_disk ix)"
    using assms(2) by (auto simp: writer_finish_def res_simps written_id_def case_prod_unfold)
  have synced: "index_synced disk t g {3, 4, 5} ix" by (rule index_finish_files [OF w(4) ix(1)])
  have kinds: "e \<in> set (written_files w) \<Longrightarrow> fst e \<in> {0, 1, 2, 6}" for e by (auto simp: written_files_def)
  have same: "disk' f = ix_disk ix f" if "\<not> new_part t g f \<or> fid_kind f \<in> {3, 4, 5}" for f
  proof -
    have "f \<noteq> written_id w e" if "e \<in> set (written_files w)" for e
      using kinds [OF that] \<open>\<not> new_part t g f \<or> fid_kind f \<in> {3, 4, 5}\<close> w(1,2) by (auto simp: written_id_def file_id_new_def new_part_def)
    then show ?thesis unfolding ix(3) by (intro fold_files_miss) blast
  qed
  have keep: "disk' f = disk f" if "\<not> new_part t g f" for f
    using same [of f] synced that by (simp add: index_synced_def)
  have old: "new_entry disk' {t} g info" if "old_entry disk g info" for info
  proof -
    have "disk' (file_info_id info) = disk (file_info_id info)"
      using that by (intro keep) (simp add: old_entry_def new_part_def file_info_part)
    then show ?thesis using that by (simp add: old_entry_def new_entry_def sound_cong [of disk' _ disk])
  qed
  have index: "new_entry disk' {t} g info" if "info \<in> snd ` set (ix_files ix)" for info
  proof -
    have "\<forall>info \<in> snd ` set (ix_files ix). old_entry disk g info \<or>
        (\<exists>k \<in> {3, 4, 5}. file_info_id info = file_id_new t g k 0 \<and> sound (ix_disk ix) info)"
      using synced unfolding index_synced_def by (elim conjE)
    from bspec [OF this that] consider "old_entry disk g info" | k where "k \<in> {3, 4, 5}" "file_info_id info = file_id_new t g k 0" "sound (ix_disk ix) info"
      by (elim disjE bexE conjE)
    then show ?thesis
    proof cases
      case 2
      then have "disk' (file_info_id info) = ix_disk ix (file_info_id info)" by (intro same) (simp add: file_id_new_def)
      moreover have "fi_table info = t" using 2(2) by (metis file_id.select_convs(1) file_id_new_def file_info_part(1))
      ultimately show ?thesis using 2(3) by (simp add: new_entry_def sound_cong [of disk' _ "ix_disk ix"])
    qed (rule old)
  qed
  have written: "new_entry disk' {t} g (file_entry w e)" if "e \<in> set (written_files w)" for e
  proof -
    have "disk' (written_id w e) = Some (snd (snd e))"
      unfolding ix(3) by (rule fold_files_hit [OF written_distinct [OF w(3)] that])
    then show ?thesis
      by (cases e) (simp add: new_entry_def sound_def file_entry_def file_info_id_def written_id_def w(1,2))
  qed
  show ?thesis using keep old index written w(5) unfolding ix(2) by (auto simp: old_entries_def)
qed

section \<open>The tables of a checkpoint\<close>

lemma writer_create_files:
  assumes "writer_create disk t g slot lsn limit compress rw parts ri = Inr w"
  shows "files_ok disk t g w"
proof -
  obtain ix where ix: "res_fold (\<lambda>kind. create_new (file_id_new t g kind 0)) [0, 1, 2, 6] (indexes_new disk t g lsn parts) = Inr ix"
      "tw_indexes w = ix" "tw_table w = t" "tw_generation w = g" "tw_segments w = []" "tw_segment w = 0" "tw_reused w = []"
    using assms unfolding writer_create_def by (simp only: res_bind_Inr_iff) auto
  have start: "index_files_ok disk t g (indexes_new disk t g lsn parts)"
    by (simp add: indexes_new_def index_files_ok_def old_entries_def)
  have "index_files_ok disk t g ix"
    by (rule res_fold_invariant [where P = "index_files_ok disk t g", OF ix(1) start]) (erule create_new_files, assumption, simp)
  then show ?thesis using ix(2-) by (simp add: files_ok_def old_entries_def)
qed

text \<open>The manifest and the files once the tables \<open>ts\<close> are done.\<close>

definition built_ok :: "(file_id \<Rightarrow> bytes option) \<Rightarrow> u64 \<Rightarrow> u64 set \<Rightarrow> root \<Rightarrow> (file_id \<Rightarrow> bytes option) \<Rightarrow> bool" where
  "built_ok old g ts r disk = ((\<forall>f. fid_generation f = g \<and> fid_table f \<in> ts \<or> disk f = old f) \<and> (\<forall>info \<in> set (r_files r). new_entry disk ts g info))"

lemma sound_root_later: "sound_root old g r \<Longrightarrow> built_ok old g ts r' disk \<Longrightarrow> sound_root disk g r"
  unfolding sound_root_def old_entry_def built_ok_def sound_def by (metis file_info_part(2))

lemma sources_later: "state_sources (sound_root old g) s \<Longrightarrow> built_ok old g ts r disk \<Longrightarrow> state_sources (sound_root disk g) s"
  unfolding state_sources_def using sound_root_later by blast

lemma build_table_files:
  assumes "state_sources (sound_root old (cj_generation job)) (cj_state job)" "built_ok old (cj_generation job) ts r disk" "t \<notin> ts"
    and "build_table job slots slot t (r, q, disk) = Inr (r', q', disk')"
  shows "built_ok old (cj_generation job) (insert t ts) r' disk'"
    "r_generation r' = r_generation r \<and> r_lsn r' = r_lsn r \<and> r_catalog r' = r_catalog r"
proof -
  let ?g = "cj_generation job"
  obtain lsn limit compress rw parts ri w oc w' oc' out where b: "writer_create disk t ?g slot lsn limit compress rw parts ri = Inr w"
      "res_fold (build_partition (cj_state job) slots t) (entity_partitions (cj_state job) t) (w, q, oc) = Inr (w', q', oc')"
      "writer_finish w' = Inr (out, disk')" "r_files r' = r_files r @ to_files out"
      "r_generation r' = r_generation r" "r_lsn r' = r_lsn r" "r_catalog r' = r_catalog r"
    using assms(4) unfolding build_table_def Let_def prod.case by (auto simp: res_simps)
  show "r_generation r' = r_generation r \<and> r_lsn r' = r_lsn r \<and> r_catalog r' = r_catalog r" using b(5-) by simp
  have "files_ok disk t ?g w'"
    by (rule files.build_partitions_keeps [OF sources_later [OF assms(1,2)] writer_create_files [OF b(1)] b(2)])
  then have fin: "\<And>f. \<not> new_part t ?g f \<Longrightarrow> disk' f = disk f" "\<And>info. info \<in> set (to_files out) \<Longrightarrow> new_entry disk' {t} ?g info"
    using writer_finish_files [OF _ b(3)] by blast+
  have old: "new_entry disk' (insert t ts) ?g info" if "info \<in> set (r_files r)" for info
  proof -
    have e: "new_entry disk ts ?g info" using assms(2) that by (simp add: built_ok_def)
    then have "disk' (file_info_id info) = disk (file_info_id info)"
      using assms(3) by (intro fin(1)) (auto simp: new_entry_def new_part_def file_info_part)
    then show ?thesis using e by (auto simp: new_entry_def sound_def)
  qed
  have new: "new_entry disk' (insert t ts) ?g info" if "info \<in> set (to_files out)" for info
    using fin(2) [OF that] by (auto simp: new_entry_def)
  have "fid_generation f = ?g \<and> fid_table f \<in> insert t ts \<or> disk' f = old f" for f
    using assms(2) fin(1) [of f] unfolding built_ok_def new_part_def by (metis insert_iff)
  then show "built_ok old ?g (insert t ts) r' disk'" unfolding built_ok_def b(4) using old new by auto
qed

lemma build_tables_files:
  assumes "state_sources (sound_root old (cj_generation job)) (cj_state job)"
  shows "res_fold (build_table job slots slot) tables (r, q, disk) = Inr (r', q', disk') \<Longrightarrow> distinct tables \<Longrightarrow> set tables \<inter> ts = {} \<Longrightarrow>
    built_ok old (cj_generation job) ts r disk \<Longrightarrow> built_ok old (cj_generation job) (ts \<union> set tables) r' disk' \<and>
      r_generation r' = r_generation r \<and> r_lsn r' = r_lsn r \<and> r_catalog r' = r_catalog r"
proof (induction tables arbitrary: r q disk ts)
  case (Cons t tables)
  obtain r1 q1 disk1 where b: "build_table job slots slot t (r, q, disk) = Inr (r1, q1, disk1)"
      "res_fold (build_table job slots slot) tables (r1, q1, disk1) = Inr (r', q', disk')"
    using Cons.prems(1) by (auto simp: res_simps)
  have t: "t \<notin> ts" using Cons.prems(3) by simp
  note one = build_table_files [OF assms Cons.prems(4) t b(1)]
  have "set tables \<inter> insert t ts = {}" using Cons.prems(2,3) by auto
  from Cons.IH [OF b(2) _ this one(1)] Cons.prems(2) one(2) show ?case by simp
qed simp

section \<open>A checkpoint that was built verifies\<close>

lemma built_checkpoint:
  assumes "build_checkpoint io job = Inr (r, disk, record)"
  obtains r0 q0 q1 slots slot where
    "res_fold (build_table job slots slot) (map fst (rs_catalog (cj_state job))) (r0, q0, st_disk (rs_store (cj_state job))) = Inr (r, q1, disk)"
    "r_files r0 = kept_files (rs_root (cj_state job)) (absorbed (cj_plan job))" "r_generation r0 = cj_generation job"
    "r_lsn r0 = rs_lsn (cj_state job)" "r_catalog r0 = rs_catalog (cj_state job)"
  using assms unfolding build_checkpoint_def Let_def by (auto simp: res_simps split: option.splits)


text \<open>The first checkpoint of a database with one table.\<close>

definition sample_build :: checkpoint_job where
  "sample_build = \<lparr>cj_options = options_default group_commit_default 0 0,
     cj_state = (sample_readstate (open_store (\<lambda>_. None)))\<lparr>rs_root := root_empty\<rparr>,
     cj_generation = 1, cj_plan = compaction_plan root_empty, cj_rewrite = False, cj_frontier = 0\<rparr>"

definition sample_disk :: "file_id \<Rightarrow> bytes option" where
  "sample_disk f = (if f \<in> (\<lambda>k. file_id_new 1 1 k 0) ` {0, 1, 2, 6} then Some [] else None)"

lemma sample_heap: "heap_finish (heap_create 7) = []"
proof -
  have "record_count (set_lsn 7 (page_new 0)) = length (page_records (set_lsn 7 (page_new 0)))" by (simp add: page_records_def)
  also have "\<dots> = 0" using fresh_page [of 7 0] by simp
  finally show ?thesis by (simp add: heap_finish_def heap_flush_def heap_create_def)
qed

definition sample_writer :: table_writer where
  "sample_writer = \<lparr>tw_current = heap_create 7, tw_bases = heap_create 7, tw_snapshots = heap_create 7,
     tw_indexes = (indexes_new (\<lambda>_. None) 1 1 7 65536)\<lparr>ix_disk := sample_disk\<rparr>,
     tw_history = [], tw_segments = [], tw_segment = 0, tw_segment_limit = 8388608, tw_compress = True, tw_table = 1,
     tw_generation = 1, tw_slot = 0, tw_entities = 0, tw_reused = [], tw_history_generations = [(1, 7)],
     tw_rewrite_history = False, tw_rewrite_indexes = True\<rparr>"

lemma sample_created: "writer_create (\<lambda>_. None) 1 1 0 7 8388608 True False 65536 True = Inr sample_writer"
  by (auto simp: writer_create_def create_new_def indexes_new_def file_id_new_def sample_writer_def sample_disk_def fun_eq_iff)

lemma sample_no_entities: "entity_partitions (cj_state sample_build) 1 = []"
  by (simp add: entity_partitions_def routes_between_def sample_build_def sample_readstate_def root_empty_def
      overlay_range_def overlay_new_def om_range_list_def om_range_def range_next_def)

lemma sample_finished:
  "\<exists>out. writer_finish sample_writer = Inr (out, sample_disk) \<and> length (to_files out) = 4 \<and> to_partitions out = [] \<and>
     to_history_generations out = [(1, 7)]"
  by (simp add: writer_finish_def sample_writer_def indexes_finish_def indexes_new_def indexes_flush_def indexes_sync_def written_files_def
      sample_heap fun_eq_iff) (simp add: sample_disk_def)


end
