(* ===== verification/Maintenance.thy ===== *)
theory Maintenance
  imports Writer System
begin

text \<open>
  Models maintenance: the checkpoint a single owner runs (\<^verbatim>\<open>Database::publish\<close>), and \<^verbatim>\<open>MaintenanceState\<close>
  of \<^verbatim>\<open>shared.rs\<close> with the jobs of a shared database. A job captures, builds and installs a checkpoint
  with commits in between, so its phases are steps of their own. The outcomes of files and threads are
  parameters. The law: jobs exclude each other, none finds a checkpoint under way, and what was built
  can be installed.
\<close>

section \<open>A checkpoint of a single owner\<close>

text \<open>The files a checkpoint wrote are in the directory from then on, also for the states handed out.\<close>

definition with_files :: "(file_id \<Rightarrow> bytes option) \<Rightarrow> database \<Rightarrow> database" where
  "with_files disk db = db\<lparr>db_state := (db_state db)\<lparr>rs_store := (rs_store (db_state db))\<lparr>st_disk := disk\<rparr>\<rparr>,
     db_published := (db_published db)\<lparr>rs_store := (rs_store (db_published db))\<lparr>st_disk := disk\<rparr>\<rparr>\<rparr>"

text \<open>
  The outcomes a checkpoint meets: creating its two files, writing the header of the new log, writing
  the manifest's own file, writing the record that publishes it, deleting files.
\<close>

record outcomes =
  ou_catalog_file :: "unit res"
  ou_wal_file :: "unit res"
  ou_rotation :: "io_error option"
  ou_manifest :: "io_error option"
  ou_record :: "(io_error \<times> nat) option"
  ou_cleanup :: "unit res"

definition publish_checkpoint :: "outcomes \<Rightarrow> plan \<Rightarrow> bool \<Rightarrow> database \<Rightarrow> (unit res \<times> database) option" where
  "publish_checkpoint io plan rewrite db =
     (case prepare_checkpoint (ou_catalog_file io) (ou_wal_file io) (ou_rotation io) plan rewrite db of
        (Inl e, db) \<Rightarrow> Some (Inl e, db)
      | (Inr job, db) \<Rightarrow>
          (case build_checkpoint (ou_manifest io) job of
             Inl e \<Rightarrow> Some (Inl e, abandon_checkpoint db)
           | Inr (root, disk, _) \<Rightarrow>
               (case install_checkpoint (ou_record io) root (cj_frontier job) (with_files disk db) of
                  None \<Rightarrow> None
                | Some (Inl e, db) \<Rightarrow> Some (Inl e, db)
                | Some (Inr _, db) \<Rightarrow> Some (ou_cleanup io, db))))"

definition db_checkpoint :: "outcomes \<Rightarrow> database \<Rightarrow> (unit res \<times> database) option" where
  "db_checkpoint io db = publish_checkpoint io (collection_plan (db_options db) (rs_root (db_state db))) False db"

definition db_compact :: "outcomes \<Rightarrow> database \<Rightarrow> (unit res \<times> database) option" where
  "db_compact io db = publish_checkpoint io (compaction_plan (rs_root (db_state db)))
     (\<not> r_history_compacted (rs_root (db_state db)) \<or> overlay_changed (db_state db)) db"

section \<open>The maintenance state\<close>

record maintenance =
  ms_running :: bool
  ms_error :: "error option"

definition maintenance_default :: maintenance where
  "maintenance_default = \<lparr>ms_running = False, ms_error = None\<rparr>"

text \<open>\<open>spawn\<close>: the error of starting the thread, if any. The result says whether it was started.\<close>

definition checkpoint_background :: "io_error option \<Rightarrow> maintenance \<Rightarrow> bool res \<times> maintenance" where
  "checkpoint_background spawn m =
     (if ms_running m then (Inr False, m)
      else case spawn of
          Some e \<Rightarrow> (Inl (Io e), m\<lparr>ms_running := False\<rparr>)
        | None \<Rightarrow> (Inr True, m\<lparr>ms_running := True\<rparr>))"

text \<open>The head of \<^verbatim>\<open>maintain\<close>; \<open>None\<close>: it waits.\<close>

definition maintain_enter :: "maintenance \<Rightarrow> maintenance option" where
  "maintain_enter m = (if ms_running m then None else Some (m\<lparr>ms_running := True\<rparr>))"

text \<open>A job notes its error and its guard goes.\<close>

definition maintenance_leave :: "bool \<Rightarrow> unit res \<Rightarrow> maintenance \<Rightarrow> maintenance" where
  "maintenance_leave background r m = m\<lparr>ms_running := False, ms_error := (case r of
       Inl e \<Rightarrow> Some (if background then e else duplicate_error e) | Inr _ \<Rightarrow> None)\<rparr>"

definition wait_for_maintenance :: "maintenance \<Rightarrow> unit res option" where
  "wait_for_maintenance m = (if ms_running m then None
     else Some (case ms_error m of Some e \<Rightarrow> Inl (duplicate_error e) | None \<Rightarrow> Inr ()))"

text \<open>The end of \<^verbatim>\<open>run_group\<close>, when the coordinator is free again. The result says whether a job was started.\<close>

definition group_due :: "io_error option \<Rightarrow> bool \<Rightarrow> maintenance \<Rightarrow> bool \<times> maintenance" where
  "group_due spawn due m =
     (if due \<and> ms_error m = None
      then (case checkpoint_background spawn m of
          (Inl e, m) \<Rightarrow> (False, m\<lparr>ms_error := Some e\<rparr>)
        | (Inr started, m) \<Rightarrow> (started, m))
      else (False, m))"

section \<open>The phases of a job\<close>

text \<open>The flag is whether the job runs in the background; \<open>Entered\<close> also says whether it compacts.\<close>

datatype phase =
    Entered bool bool
  | Captured bool checkpoint_job
  | Built bool root u64
  | Installed bool
  | Ended bool "unit res"

definition perform_capture :: "outcomes \<Rightarrow> bool \<Rightarrow> bool \<Rightarrow> coordinator \<Rightarrow> phase \<times> coordinator" where
  "perform_capture io bg compact c =
     (case capture_checkpoint (ou_catalog_file io) (ou_wal_file io) (ou_rotation io) compact (co_database c) of
        (Inl e, db) \<Rightarrow> (Ended bg (Inl e), c\<lparr>co_database := db\<rparr>)
      | (Inr job, db) \<Rightarrow> (Captured bg job, c\<lparr>co_database := db\<rparr>))"

definition perform_build :: "outcomes \<Rightarrow> bool \<Rightarrow> checkpoint_job \<Rightarrow> coordinator \<Rightarrow> phase \<times> coordinator" where
  "perform_build io bg job c =
     (case build_checkpoint (ou_manifest io) job of
        Inl e \<Rightarrow> (Ended bg (Inl e), c\<lparr>co_database := abandon_checkpoint (co_database c)\<rparr>)
      | Inr (root, disk, _) \<Rightarrow> (Built bg root (cj_frontier job), c\<lparr>co_database := with_files disk (co_database c)\<rparr>))"

definition perform_install :: "outcomes \<Rightarrow> u64 option \<Rightarrow> bool \<Rightarrow> root \<Rightarrow> u64 \<Rightarrow> coordinator \<Rightarrow> (phase \<times> coordinator) option" where
  "perform_install io oldest bg root frontier c =
     (case install_checkpoint (ou_record io) root frontier (co_database c) of
        None \<Rightarrow> None
      | Some (Inl e, db) \<Rightarrow> Some (Ended bg (Inl e), c\<lparr>co_database := db\<rparr>)
      | Some (Inr _, db) \<Rightarrow> Some (Installed bg, prune_revisions oldest (c\<lparr>co_database := db\<rparr>)))"

text \<open>The loop of a background job: again, without compacting, while a checkpoint is due.\<close>

definition background_again :: "bool \<Rightarrow> unit res \<Rightarrow> coordinator \<Rightarrow> bool" where
  "background_again bg r c = (bg \<and> r = Inr () \<and> maintenance_due (co_database c))"

section \<open>A shared database\<close>

record shared_db =
  sd_coordinator :: coordinator
  sd_maintenance :: maintenance
  sd_jobs :: "nat \<Rightarrow> phase option"

definition into_shared :: "database \<Rightarrow> shared_db" where
  "into_shared db = \<lparr>sd_coordinator = from_database db, sd_maintenance = maintenance_default, sd_jobs = (\<lambda>_. None)\<rparr>"

definition job_at :: "nat \<Rightarrow> phase \<times> coordinator \<Rightarrow> shared_db \<Rightarrow> shared_db" where
  "job_at i x s = s\<lparr>sd_coordinator := snd x, sd_jobs := (sd_jobs s)(i := Some (fst x))\<rparr>"

definition job_enters :: "nat \<Rightarrow> bool \<Rightarrow> bool \<Rightarrow> maintenance \<Rightarrow> shared_db \<Rightarrow> shared_db" where
  "job_enters i bg compact m s = s\<lparr>sd_maintenance := m, sd_jobs := (sd_jobs s)(i := Some (Entered bg compact))\<rparr>"

text \<open>A new job gets a number of its own. Groups commit at any moment between the steps of the jobs.\<close>

inductive maintenance_step :: "shared_db \<Rightarrow> shared_db \<Rightarrow> bool" where
  background: "sd_jobs s i = None \<Longrightarrow> checkpoint_background spawn (sd_maintenance s) = (Inr True, m) \<Longrightarrow>
    maintenance_step s (job_enters i True compact m s)"
| refused: "checkpoint_background spawn (sd_maintenance s) = (r, m) \<Longrightarrow> r \<noteq> Inr True \<Longrightarrow> maintenance_step s (s\<lparr>sd_maintenance := m\<rparr>)"
| foreground: "sd_jobs s i = None \<Longrightarrow> maintain_enter (sd_maintenance s) = Some m \<Longrightarrow> maintenance_step s (job_enters i False compact m s)"
| capture: "sd_jobs s i = Some (Entered bg compact) \<Longrightarrow> maintenance_step s (job_at i (perform_capture io bg compact (sd_coordinator s)) s)"
| build: "sd_jobs s i = Some (Captured bg job) \<Longrightarrow> maintenance_step s (job_at i (perform_build io bg job (sd_coordinator s)) s)"
| install: "sd_jobs s i = Some (Built bg root frontier) \<Longrightarrow> perform_install io oldest bg root frontier (sd_coordinator s) = Some x \<Longrightarrow>
    maintenance_step s (job_at i x s)"
| cleanup: "sd_jobs s i = Some (Installed bg) \<Longrightarrow> maintenance_step s (job_at i (Ended bg (ou_cleanup (io :: outcomes)), sd_coordinator s) s)"
| again: "sd_jobs s i = Some (Ended bg r) \<Longrightarrow> background_again bg r (sd_coordinator s) \<Longrightarrow>
    maintenance_step s (job_at i (Entered bg False, sd_coordinator s) s)"
| leave: "sd_jobs s i = Some (Ended bg r) \<Longrightarrow> \<not> background_again bg r (sd_coordinator s) \<Longrightarrow>
    maintenance_step s (s\<lparr>sd_maintenance := maintenance_leave bg r (sd_maintenance s), sd_jobs := (sd_jobs s)(i := None)\<rparr>)"
| group: "run_group ckpt clock commit_clock io oldest claimed u (sd_coordinator s) = Some (answers, c, due) \<Longrightarrow>
    group_due spawn due (sd_maintenance s) = (started, m) \<Longrightarrow> sd_jobs s i = None \<Longrightarrow>
    maintenance_step s ((if started then job_enters i True False m s else s\<lparr>sd_maintenance := m\<rparr>)\<lparr>sd_coordinator := c\<rparr>)"

section \<open>What a group leaves of a running checkpoint\<close>

lemma publish_all_tail: "(db_tail (fst (publish_all first offset ps db rs)) = None) = (db_tail db = None)"
  by (induction first offset ps db rs rule: publish_all.induct) (simp_all add: publish_state_def Let_def)

text \<open>What maintenance depends on in a coordinator.\<close>

definition alike :: "database \<Rightarrow> database \<Rightarrow> bool" where
  "alike db db' = (db_shared_mode db' = db_shared_mode db \<and> (db_tail db' = None) = (db_tail db = None) \<and>
     (rs_poisoned (db_state db) \<longrightarrow> rs_poisoned (db_state db')))"

lemma group_write_alike: "group_write io ps frames rs db = (rs', db') \<Longrightarrow> alike db db'"
  by (auto simp: group_write_def alike_def Let_def poison_def db_publish_def publish_all_tail publish_all_fields case_prod_unfold split: if_splits option.splits)

lemma commit_alike:
  assumes "commit_group ckpt clock io batches u db = Some (results, db')" "db_shared_mode db"
  shows "alike db db'"
proof -
  have refl: "alike db db" by (simp add: alike_def)
  have ready: "snd (group_ready ckpt (enumerate 0 batches) u db) = db"
    using assms(2) by (simp add: group_ready_def split: sum.splits)
  obtain rs where rs: "commit_results ckpt clock io batches u db = Some (rs, db')"
    using assms(1) by (auto simp: commit_group_def bind_eq_Some_conv)
  show ?thesis
  proof (cases "fst (group_ready ckpt (enumerate 0 batches) u db)")
    case (Inl e)
    then have "group_ready ckpt (enumerate 0 batches) u db = (Inl e, db)" using ready by (metis prod.collapse)
    then show ?thesis using rs refl by (simp add: commit_results_def Let_def)
  next
    case (Inr x)
    then have "group_ready ckpt (enumerate 0 batches) u db = (Inr (fst x, snd x), db)" using ready by (metis prod.collapse)
    then show ?thesis using rs refl
      by (auto simp: commit_results_def Let_def simp del: group_loop.simps split: option.splits sum.splits prod.splits dest: group_write_alike)
  qed
qed

lemma run_group_alike:
  assumes "run_group ckpt clock commit_clock io oldest claimed u c = Some (answers, c', due)" "db_shared_mode (co_database c)"
  shows "alike (co_database c) (co_database c')"
  using assms by (auto simp: run_group_def prune_revisions_def Let_def record_database split: prod.splits option.splits if_splits
      dest: commit_alike)

section \<open>The invariant\<close>

text \<open>The checkpoint under way is the one of a job between capture and installation.\<close>

definition holds_tail :: "phase \<Rightarrow> bool" where
  "holds_tail p = (case p of Captured bg job \<Rightarrow> True | Built bg root frontier \<Rightarrow> length (encode_root root) \<le> MAX_FRAME | _ \<Rightarrow> False)"

definition idle_phase :: "phase \<Rightarrow> bool" where
  "idle_phase p = (case p of Captured bg job \<Rightarrow> False | Built bg root frontier \<Rightarrow> False | _ \<Rightarrow> True)"

definition phase_ok :: "database \<Rightarrow> phase \<Rightarrow> bool" where
  "phase_ok db p = (if idle_phase p then db_tail db = None \<or> rs_poisoned (db_state db) else holds_tail p \<and> db_tail db \<noteq> None)"

definition jobs_ok :: "maintenance \<Rightarrow> (nat \<Rightarrow> phase option) \<Rightarrow> bool" where
  "jobs_ok m jobs = ((\<forall>i j. jobs i \<noteq> None \<longrightarrow> jobs j \<noteq> None \<longrightarrow> i = j) \<and> ms_running m = (\<exists>i. jobs i \<noteq> None))"

definition shared_inv :: "shared_db \<Rightarrow> bool" where
  "shared_inv s = (db_shared_mode (co_database (sd_coordinator s)) \<and> jobs_ok (sd_maintenance s) (sd_jobs s) \<and>
     (\<forall>i p. sd_jobs s i = Some p \<longrightarrow> phase_ok (co_database (sd_coordinator s)) p) \<and>
     ((\<forall>i. sd_jobs s i = None) \<longrightarrow> db_tail (co_database (sd_coordinator s)) = None \<or> rs_poisoned (db_state (co_database (sd_coordinator s)))))"

lemma phase_alike: "alike db db' \<Longrightarrow> phase_ok db p \<Longrightarrow> phase_ok db' p"
  by (auto simp: phase_ok_def alike_def)

lemma jobs_enter: "jobs_ok m jobs \<Longrightarrow> \<not> ms_running m \<Longrightarrow> ms_running m' \<Longrightarrow> jobs_ok m' (jobs(i := Some p))"
  by (auto simp: jobs_ok_def)

lemma jobs_move: "jobs_ok m jobs \<Longrightarrow> jobs i = Some p \<Longrightarrow> jobs_ok m (jobs(i := Some q))"
  by (auto simp: jobs_ok_def)

lemma jobs_leave: "jobs_ok m jobs \<Longrightarrow> jobs i = Some p \<Longrightarrow> \<not> ms_running m' \<Longrightarrow> jobs_ok m' (jobs(i := None)) \<and> (\<forall>j. (jobs(i := None)) j = None)"
  by (auto simp: jobs_ok_def)

lemma job_phase: "shared_inv s \<Longrightarrow> sd_jobs s i = Some p \<Longrightarrow> phase_ok (co_database (sd_coordinator s)) p"
  by (simp add: shared_inv_def)

text \<open>A job moves on.\<close>

lemma move_inv:
  assumes "shared_inv s" "sd_jobs s i = Some p"
    and "phase_ok (co_database (snd x)) (fst x) \<and> db_shared_mode (co_database (snd x)) = db_shared_mode (co_database (sd_coordinator s))"
  shows "shared_inv (job_at i x s)"
proof -
  have only: "j = i" if "sd_jobs s j \<noteq> None" for j using assms(1,2) that unfolding shared_inv_def jobs_ok_def by (metis option.distinct(1))
  show ?thesis using assms only jobs_move [of "sd_maintenance s" "sd_jobs s" i p "fst x"]
    by (auto simp: shared_inv_def job_at_def split: if_splits)
qed

lemma enter_inv:
  assumes "shared_inv s" "\<not> ms_running (sd_maintenance s)" "ms_running m"
  shows "shared_inv (job_enters i bg compact m s)"
proof -
  have none: "\<forall>j. sd_jobs s j = None" using assms(1,2) by (auto simp: shared_inv_def jobs_ok_def)
  then show ?thesis using assms jobs_enter [of "sd_maintenance s" "sd_jobs s" m i]
    by (auto simp: shared_inv_def job_enters_def phase_ok_def idle_phase_def split: if_splits)
qed

section \<open>Every phase keeps it\<close>

lemma capture_phase:
  assumes "phase_ok (co_database c) (Entered bg compact)"
  shows "phase_ok (co_database (snd (perform_capture io bg compact c))) (fst (perform_capture io bg compact c)) \<and>
    db_shared_mode (co_database (snd (perform_capture io bg compact c))) = db_shared_mode (co_database c)"
  using assms by (auto simp: perform_capture_def capture_checkpoint_def prepare_checkpoint_def phase_ok_def idle_phase_def holds_tail_def
      Let_def poison_def db_ready_def state_ready_def split: sum.splits option.splits if_splits)

lemma build_phase:
  assumes "phase_ok (co_database c) (Captured bg job)"
  shows "phase_ok (co_database (snd (perform_build io bg job c))) (fst (perform_build io bg job c)) \<and>
    db_shared_mode (co_database (snd (perform_build io bg job c))) = db_shared_mode (co_database c)"
proof (cases "build_checkpoint (ou_manifest io) job")
  case (Inr x)
  obtain root disk rec where x: "x = (root, disk, rec)" by (metis prod_cases3)
  have "length (encode_root root) \<le> MAX_FRAME"
    using Inr unfolding x build_checkpoint_def Let_def by (auto simp: res_simps frame_encode_Inr split: option.splits)
  then show ?thesis using assms by (simp add: perform_build_def Inr x phase_ok_def idle_phase_def holds_tail_def with_files_def)
qed (use assms in \<open>simp add: perform_build_def phase_ok_def idle_phase_def abandon_checkpoint_def\<close>)

lemma install_phase:
  assumes "phase_ok (co_database c) (Built bg root frontier)" "perform_install io oldest bg root frontier c = Some x"
  shows "phase_ok (co_database (snd x)) (fst x) \<and> db_shared_mode (co_database (snd x)) = db_shared_mode (co_database c)"
  using assms by (auto simp: perform_install_def install_checkpoint_def phase_ok_def idle_phase_def holds_tail_def prune_revisions_def Let_def
      db_publish_def poison_def db_ready_def state_ready_def frame_encode_def split: sum.splits option.splits if_splits)

lemma maintenance_step_inv: "maintenance_step s s' \<Longrightarrow> shared_inv s \<Longrightarrow> shared_inv s'"
proof (induction rule: maintenance_step.induct)
  case (background s i spawn m compact)
  then show ?case by (intro enter_inv) (auto simp: checkpoint_background_def split: if_splits option.splits)
next
  case (refused spawn s r m)
  then have "m = sd_maintenance s" by (cases "sd_maintenance s") (auto simp: checkpoint_background_def split: if_splits option.splits)
  then show ?case using refused by simp
next
  case (foreground s i m compact)
  then show ?case by (intro enter_inv) (auto simp: maintain_enter_def split: if_splits)
next
  case (capture s i bg compact io)
  show ?case by (rule move_inv [OF capture(2,1) capture_phase [OF job_phase [OF capture(2,1)]]])
next
  case (build s i bg job io)
  show ?case by (rule move_inv [OF build(2,1) build_phase [OF job_phase [OF build(2,1)]]])
next
  case (install s i bg root frontier io oldest x)
  show ?case by (rule move_inv [OF install(3,1) install_phase [OF job_phase [OF install(3,1)] install(2)]])
next
  case (cleanup s i bg io)
  then show ?case using job_phase [OF cleanup(2,1)] by (intro move_inv [OF cleanup(2,1)]) (simp add: phase_ok_def idle_phase_def)
next
  case (again s i bg r)
  then show ?case using job_phase [OF again(3,1)] by (intro move_inv [OF again(3,1)]) (simp add: phase_ok_def idle_phase_def)
next
  case (leave s i bg r)
  have "phase_ok (co_database (sd_coordinator s)) (Ended bg r)" using leave(1,3) by (simp add: shared_inv_def)
  moreover have "jobs_ok (maintenance_leave bg r (sd_maintenance s)) ((sd_jobs s)(i := None)) \<and> (\<forall>j. ((sd_jobs s)(i := None)) j = None)"
    using leave(1,3) by (intro jobs_leave) (auto simp: shared_inv_def maintenance_leave_def)
  ultimately show ?case using leave(3) by (auto simp: shared_inv_def phase_ok_def idle_phase_def)
next
  case (group ckpt clock commit_clock io oldest claimed u s answers c due spawn started m i)
  let ?s = "if started then job_enters i True False m s else s\<lparr>sd_maintenance := m\<rparr>"
  have "alike (co_database (sd_coordinator s)) (co_database c)"
    using group(1,4) by (intro run_group_alike) (auto simp: shared_inv_def)
  have s: "shared_inv ?s"
  proof (cases started)
    case True
    then have "\<not> ms_running (sd_maintenance s)" "ms_running m"
      using group(2) by (auto simp: group_due_def checkpoint_background_def split: if_splits option.splits sum.splits)
    then show ?thesis using True enter_inv [OF group(4)] by simp
  next
    case False
    then have "ms_running m = ms_running (sd_maintenance s)"
      using group(2) by (auto simp: group_due_def checkpoint_background_def split: if_splits option.splits sum.splits)
    then show ?thesis using False group(4) by (simp add: shared_inv_def jobs_ok_def)
  qed
  have same: "sd_coordinator ?s = sd_coordinator s" by (simp add: job_enters_def)
  show ?case using s \<open>alike _ _\<close> phase_alike [OF \<open>alike _ _\<close>] unfolding shared_inv_def alike_def by (auto simp: same)
qed

section \<open>Properties\<close>

text \<open>A single owner never leaves a checkpoint under way either, so the next one is not refused.\<close>

lemma publish_checkpoint_ends:
  assumes "db_tail db = None" "publish_checkpoint io plan rewrite db = Some (r, db')"
  shows "db_tail db' = None \<or> rs_poisoned (db_state db')"
proof -
  note prep = prepare_checkpoint_def Let_def poison_def db_ready_def state_ready_def
  obtain r1 db1 where p: "prepare_checkpoint (ou_catalog_file io) (ou_wal_file io) (ou_rotation io) plan rewrite db = (r1, db1)" by force
  show ?thesis
  proof (cases r1)
    case (Inl e)
    then have "db_tail db1 = None" using p assms(1) by (auto simp: prep split: sum.splits option.splits if_splits)
    then show ?thesis using assms(2) p Inl by (auto simp: publish_checkpoint_def)
  next
    case (Inr job)
    have tail: "db_tail db1 \<noteq> None" using p Inr by (auto simp: prep split: sum.splits option.splits if_splits)
    show ?thesis
    proof (cases "build_checkpoint (ou_manifest io) job")
      case (Inl e)
      then show ?thesis using assms(2) p \<open>r1 = Inr job\<close> by (auto simp: publish_checkpoint_def abandon_checkpoint_def)
    next
      case (Inr b)
      obtain root disk fr where b: "b = (root, disk, fr)" by (metis prod_cases3)
      let ?c = "\<lparr>co_database = db1, co_revisions = [], co_catalog_revision = 0\<rparr>"
      have "perform_build io True job ?c = (Built True root (cj_frontier job), ?c\<lparr>co_database := with_files disk db1\<rparr>)"
        using Inr b by (simp add: perform_build_def)
      then have "phase_ok (with_files disk db1) (Built True root (cj_frontier job))"
        using build_phase [of ?c True job io] tail by (simp add: phase_ok_def idle_phase_def holds_tail_def)
      then show ?thesis using install_phase [of "?c\<lparr>co_database := with_files disk db1\<rparr>" True root "cj_frontier job" io None]
          assms(2) p \<open>r1 = Inr job\<close> Inr b
        by (auto simp: publish_checkpoint_def perform_install_def phase_ok_def idle_phase_def prune_revisions_def Let_def
            split: option.splits sum.splits prod.splits)
    qed
  qed
qed

lemma shared_reach_inv: "maintenance_step\<^sup>*\<^sup>* (into_shared db) s \<Longrightarrow> db_tail db = None \<Longrightarrow> shared_inv s"
proof (induction rule: rtranclp_induct)
  case base
  then show ?case by (simp add: shared_inv_def into_shared_def from_database_def maintenance_default_def jobs_ok_def)
qed (use maintenance_step_inv in blast)

text \<open>
  C9 (maintenance_exclusive): however groups commit and checkpoints are asked for, in the foreground or
  the background, at most one job runs and the flag says whether one does; a job that captures a
  checkpoint never finds another under way; and what a job built can be installed: that does not
  panic, and succeeds whenever the database is usable and the log can be written.
\<close>

theorem maintenance_exclusive:
  assumes "maintenance_step\<^sup>*\<^sup>* (into_shared db) s" "db_tail db = None"
  shows "(\<forall>i j. sd_jobs s i \<noteq> None \<and> sd_jobs s j \<noteq> None \<longrightarrow> i = j) \<and>
    (ms_running (sd_maintenance s) \<longleftrightarrow> (\<exists>i. sd_jobs s i \<noteq> None)) \<and>
    (\<forall>i bg compact rotation. sd_jobs s i = Some (Entered bg compact) \<longrightarrow>
       fst (capture_checkpoint (Inr ()) (Inr ()) rotation compact (co_database (sd_coordinator s))) \<noteq> Inl (Invalid ''maintenance already running'')) \<and>
    (\<forall>i bg root frontier. sd_jobs s i = Some (Built bg root frontier) \<longrightarrow>
       (\<forall>io. install_checkpoint io root frontier (co_database (sd_coordinator s)) \<noteq> None) \<and>
       (\<not> rs_poisoned (db_state (co_database (sd_coordinator s))) \<longrightarrow>
          (\<exists>r db'. install_checkpoint None root frontier (co_database (sd_coordinator s)) = Some (Inr r, db'))))"
proof (intro conjI allI impI)
  let ?db = "co_database (sd_coordinator s)"
  note inv = shared_reach_inv [OF assms]
  show "sd_jobs s i \<noteq> None \<and> sd_jobs s j \<noteq> None \<Longrightarrow> i = j" for i j using inv unfolding shared_inv_def jobs_ok_def by blast
  show "ms_running (sd_maintenance s) \<longleftrightarrow> (\<exists>i. sd_jobs s i \<noteq> None)" using inv by (simp add: shared_inv_def jobs_ok_def)
  show "fst (capture_checkpoint (Inr ()) (Inr ()) rotation compact ?db) \<noteq> Inl (Invalid ''maintenance already running'')"
    if "sd_jobs s i = Some (Entered bg compact)" for i bg compact rotation
    using job_phase [OF inv that] by (auto simp: phase_ok_def idle_phase_def capture_checkpoint_def prepare_checkpoint_def Let_def
        db_ready_def state_ready_def frame_encode_def split: sum.splits option.splits if_splits)
  fix i bg root frontier assume built: "sd_jobs s i = Some (Built bg root frontier)"
  have ok: "length (encode_root root) \<le> MAX_FRAME" "db_tail ?db \<noteq> None"
    using job_phase [OF inv built] by (simp_all add: phase_ok_def idle_phase_def holds_tail_def)
  show "install_checkpoint io root frontier ?db \<noteq> None" for io
    using ok by (auto simp: install_checkpoint_def split: sum.splits option.splits)
  show "\<exists>r db'. install_checkpoint None root frontier ?db = Some (Inr r, db')" if "\<not> rs_poisoned (db_state ?db)"
    using ok that by (auto simp: install_checkpoint_def db_ready_def state_ready_def frame_encode_def Let_def)
qed

text \<open>A foreground checkpoint of a new database, up to its installation.\<close>

definition all_well :: outcomes where
  "all_well = \<lparr>ou_catalog_file = Inr (), ou_wal_file = Inr (), ou_rotation = None, ou_manifest = None, ou_record = None, ou_cleanup = Inr ()\<rparr>"

lemma maintenance_exclusive_witness:
  "\<exists>s root r db'. maintenance_step\<^sup>*\<^sup>* (into_shared sample_database) s \<and> sd_jobs s 5 = Some (Built False root 0) \<and>
     install_checkpoint None root 0 (co_database (sd_coordinator s)) = Some (Inr r, db') \<and> r_generation root = 1"
proof -
  let ?s0 = "into_shared sample_database"
  let ?s1 = "job_enters 5 False False \<lparr>ms_running = True, ms_error = None\<rparr> ?s0"
  let ?db = "sample_database\<lparr>db_shared_mode := True\<rparr>"
  have 1: "maintenance_step ?s0 ?s1"
    by (rule maintenance_step.foreground) (simp_all add: into_shared_def maintain_enter_def maintenance_default_def)
  have db: "rs_root (db_state ?db) = root_empty" "db_next_generation ?db = 1" "db_tail ?db = None" "rs_catalog (db_state ?db) = []"
      "rs_overlay (db_state ?db) = overlay_new" "db_wal_bytes ?db = 0" "rs_lsn (db_state ?db) = 0" "\<not> rs_poisoned (db_state ?db)"
    by (simp_all add: sample_database_def Let_def sample_readstate_def)
  have small: "length (encode_root root_empty) \<le> MAX_FRAME"
    by (simp add: encode_root_def root_empty_def encode_generation_def MAX_FRAME_def)
  have plan: "collection_plan (db_options ?db) root_empty = [(0, - 1)]"
    by (simp add: collection_plan_def root_empty_def root_totals_def MAX_SLOTS_def Let_def)
  obtain job db1 where job: "capture_checkpoint (Inr ()) (Inr ()) None False ?db = (Inr job, db1)" "cj_state job = db_state ?db"
      "cj_generation job = 1" "cj_frontier job = 0" "\<not> rs_poisoned (db_state db1)" "cj_plan job = [(0, - 1)]" "op_limits (cj_options job) = limits_default"
    using plan sample_ready(5) db small by (simp add: capture_checkpoint_def prepare_checkpoint_def db_ready_def state_ready_def checked_add64_def Let_def frame_encode_def)
  let ?s2 = "job_at 5 (perform_capture all_well False False (sd_coordinator ?s1)) ?s1"
  have 2: "maintenance_step ?s1 ?s2" by (rule maintenance_step.capture) (simp add: job_enters_def)
  have s2: "sd_jobs ?s2 5 = Some (Captured False job)" "co_database (sd_coordinator ?s2) = db1"
    using job(1) by (simp_all add: job_at_def job_enters_def into_shared_def from_database_def perform_capture_def all_well_def)
  let ?s3 = "job_at 5 (perform_build all_well False job (sd_coordinator ?s2)) ?s2"
  have 3: "maintenance_step ?s2 ?s3" by (rule maintenance_step.build [OF s2(1)])
  obtain root disk fr where b: "build_checkpoint None job = Inr (root, disk, fr)" "r_generation root = 1"
  proof -
    let ?root = "\<lparr>r_generation = 1, r_lsn = 0, r_catalog = [], r_generations = [\<lparr>g_generation = 1, g_lsn = 0\<rparr>], r_files = [], r_partitions = [],
      r_history_generations = [], r_history_compacted = (cj_rewrite job \<or> r_history_compacted root_empty \<and> \<not> overlay_changed (db_state ?db)),
      r_occupancy = []\<rparr>"
    have slots: "rebuild_slots root_empty [0] 1 0 = Inr ([\<lparr>g_generation = 1, g_lsn = 0\<rparr>], replicate MAX_SLOTS None)"
      by (simp add: rebuild_slots_def root_empty_def MAX_SLOTS_def numeral_eq_Suc)
    have kept: "kept_files root_empty [0] = []" "kept_occupancy root_empty (replicate MAX_SLOTS None) = []"
      by (simp_all add: kept_files_def kept_occupancy_def root_empty_def)
    have "length (encode_root ?root) \<le> MAX_FRAME" by (simp add: encode_root_def encode_generation_def MAX_FRAME_def)
    then have "\<exists>fr. frame_encode 4 0 (encode_root ?root) = Inr fr" by (simp add: frame_encode_Inr)
    then obtain fr where "frame_encode 4 0 (encode_root ?root) = Inr fr" ..
    then have "build_checkpoint None job = Inr (?root, st_disk (rs_store (db_state ?db)), fr)"
      using db job(2,3,6,7) slots kept by (simp add: build_checkpoint_def Let_def absorbed_def limit_check_def usize_checked_add_def root_file_ids_def)
    then show thesis by (rule that) simp
  qed
  have s3: "sd_jobs ?s3 5 = Some (Built False root 0)" "\<not> rs_poisoned (db_state (co_database (sd_coordinator ?s3)))"
    using b job(4,5) s2(2) by (simp_all add: job_at_def perform_build_def all_well_def with_files_def)
  have reach: "maintenance_step\<^sup>*\<^sup>* ?s0 ?s3" using 1 2 3 by (meson rtranclp.rtrancl_into_rtrancl rtranclp.rtrancl_refl)
  have "db_tail sample_database = None" by (simp add: sample_database_def Let_def)
  from maintenance_exclusive [OF reach this] show ?thesis using s3 reach b(2) by blast
qed

end
