(* ===== verification/Snapshots.thy ===== *)
theory Snapshots
  imports Read_State Deadline
begin

text \<open>
  Models the pins of \<^verbatim>\<open>reader.rs\<close>: a reader pins the published state under a permit and a lease; the
  shared registry holds weak references and tells which files live snapshots refer to. The law: no
  sequence of pins, releases, publications and sweeps loses a live snapshot from the registry.
\<close>

section \<open>The registry\<close>

text \<open>
  A snapshot is named by its allocation. \<open>rw_live\<close> gives what a name that still has an owner holds:
  its state and its permit. \<open>rw_pins\<close> is the registry, \<open>rw_current\<close> the published state.
\<close>

record read_world =
  rw_usage :: resource_usage
  rw_live :: "nat \<Rightarrow> (readstate \<times> handle) option"
  rw_current :: readstate
  rw_pins :: "nat list"

definition reader_new :: "readstate \<Rightarrow> resource_usage \<Rightarrow> read_world" where
  "reader_new st u = \<lparr>rw_usage = u, rw_live = Map.empty, rw_current = st, rw_pins = []\<rparr>"

definition reader_publish :: "readstate \<Rightarrow> read_world \<Rightarrow> read_world" where
  "reader_publish st w = w\<lparr>rw_current := st\<rparr>"

definition live_pins :: "read_world \<Rightarrow> nat list" where
  "live_pins w = filter (\<lambda>i. rw_live w i \<noteq> None) (rw_pins w)"

definition pin_files :: "read_world \<Rightarrow> nat \<Rightarrow> (file_id \<times> u64) list" where
  "pin_files w i = (case rw_live w i of None \<Rightarrow> [] | Some (st, _) \<Rightarrow> state_file_sizes st)"

definition pinned_files :: "read_world \<Rightarrow> file_id list \<times> read_world" where
  "pinned_files w = (concat (map (\<lambda>i. map fst (pin_files w i)) (rw_pins w)), w\<lparr>rw_pins := live_pins w\<rparr>)"

record snapshot_stats =
  ss_active :: nat
  ss_oldest_sequence :: "u64 option"
  ss_referenced_bytes :: u64

definition pin_stats :: "read_world \<Rightarrow> nat \<Rightarrow> snapshot_stats \<times> (file_id, u64) btree \<Rightarrow> snapshot_stats \<times> (file_id, u64) btree" where
  "pin_stats w i x = (case rw_live w i of None \<Rightarrow> x | Some (st, _) \<Rightarrow>
     (case x of (s, files) \<Rightarrow>
       (s\<lparr>ss_active := ss_active s + 1, ss_oldest_sequence := Some (case ss_oldest_sequence s of None \<Rightarrow> rs_lsn st | Some n \<Rightarrow> min n (rs_lsn st))\<rparr>,
        foldl (\<lambda>m f. bt_insert (fst f) (snd f) m) files (state_file_sizes st))))"

definition reader_stats :: "read_world \<Rightarrow> snapshot_stats \<times> read_world" where
  "reader_stats w =
     (let (s, files) = fold (pin_stats w) (rw_pins w) (\<lparr>ss_active = 0, ss_oldest_sequence = None, ss_referenced_bytes = 0\<rparr>, []) in
      (s\<lparr>ss_referenced_bytes := sum_list (map snd files)\<rparr>, w\<lparr>rw_pins := live_pins w\<rparr>))"

section \<open>Pinning\<close>

record read_snapshot =
  sn_pin :: "nat lease"
  sn_catalog :: "(u64, table) btree"
  sn_sequence :: u64

definition release_snapshot :: "nat \<Rightarrow> read_world \<Rightarrow> read_world" where
  "release_snapshot i w = (case rw_live w i of None \<Rightarrow> w
     | Some (_, h) \<Rightarrow> w\<lparr>rw_usage := drop_handle h (rw_usage w), rw_live := (rw_live w)(i := None)\<rparr>)"

text \<open>\<open>i\<close> is the new allocation; a lease that cannot be made drops it again.\<close>

definition reader_pin :: "instant \<Rightarrow> instant \<Rightarrow> nat \<Rightarrow> read_world \<Rightarrow> read_snapshot res \<times> read_world" where
  "reader_pin instant_max now i w =
     (let st = rw_current w in case state_ready st of Inl e \<Rightarrow> (Inl e, w) | Inr _ \<Rightarrow>
      case ok_or (rs_pinned_bytes st) (LimitExceeded ''pinned checkpoint bytes'' (max_pinned_bytes (rs_limits st))) of
        Inl e \<Rightarrow> (Inl e, w)
      | Inr n \<Rightarrow>
        (case acquire_snapshot (rs_limits st) n (rw_usage w) of Inl e \<Rightarrow> (Inl e, w) | Inr (h, u) \<Rightarrow>
          let w = w\<lparr>rw_usage := u, rw_live := (rw_live w)(i \<mapsto> (st, h)), rw_pins := live_pins w @ [i]\<rparr> in
          case lease_new instant_max now i (Some (to_snapshot (rs_timeouts st))) None None of
            Inl e \<Rightarrow> (Inl e, release_snapshot i w)
          | Inr l \<Rightarrow> (Inr \<lparr>sn_pin = l, sn_catalog = rs_catalog st, sn_sequence = rs_lsn st\<rparr>, w)))"

definition reader_ready :: "read_world \<Rightarrow> unit res" where
  "reader_ready w = state_ready (rw_current w)"

definition snapshot_tables :: "read_snapshot \<Rightarrow> table list" where
  "snapshot_tables s = map snd (sn_catalog s)"

definition snapshot_table :: "read_snapshot \<Rightarrow> bytes \<Rightarrow> table option" where
  "snapshot_table s name = find (\<lambda>t. t_name t = name) (snapshot_tables s)"

text \<open>
  \<^verbatim>\<open>state\<close> and \<^verbatim>\<open>with_state\<close>: the lease gives the data; the operation then runs with a deadline that is
  checked before and after. \<open>clock\<close> gives the instants of the readings of the clock in turn. The lease
  is shared by the clones of a snapshot, so an operation may use the snapshot again.
\<close>

definition snapshot_state :: "(nat \<Rightarrow> instant) \<Rightarrow> read_world \<Rightarrow> read_snapshot \<Rightarrow> readstate res \<times> read_snapshot" where
  "snapshot_state clock w s =
     (case lease_with (\<lambda>i. (Inr i, i)) (clock 0) (clock 1) (sn_pin s) of
        (Inl e, l) \<Rightarrow> (Inl e, s\<lparr>sn_pin := l\<rparr>)
      | (Inr i, l) \<Rightarrow> (case rw_live w i of None \<Rightarrow> Inl TransactionExpired | Some (st, _) \<Rightarrow> Inr st, s\<lparr>sn_pin := l\<rparr>))"

definition operation_end :: "instant \<Rightarrow> (nat \<Rightarrow> instant) \<Rightarrow> readstate \<Rightarrow> instant option \<Rightarrow> instant res" where
  "operation_end instant_max clock st expiry =
     res_bind (deadline_at instant_max (clock 2) (to_operation (rs_timeouts st))) (\<lambda>end_at.
     let end_at = (case expiry of None \<Rightarrow> end_at | Some e \<Rightarrow> min end_at e) in
     res_bind (deadline_check (Some end_at) (clock 3)) (\<lambda>_. Inr end_at))"

definition snapshot_with_state :: "instant \<Rightarrow> (nat \<Rightarrow> instant) \<Rightarrow> read_world \<Rightarrow>
    (readstate \<Rightarrow> instant \<Rightarrow> read_snapshot \<Rightarrow> 'r res \<times> read_snapshot) \<Rightarrow> read_snapshot \<Rightarrow> 'r res \<times> read_snapshot" where
  "snapshot_with_state instant_max clock w operation s =
     (case snapshot_state clock w s of
        (Inl e, s) \<Rightarrow> (Inl e, s)
      | (Inr st, s) \<Rightarrow> (case operation_end instant_max clock st (ls_deadline (sn_pin s)) of
            Inl e \<Rightarrow> (Inl e, s)
          | Inr end_at \<Rightarrow> (case operation st end_at s of
                (r, s) \<Rightarrow> (res_bind (deadline_check (Some end_at) (clock 4)) (\<lambda>_. r), s))))"

text \<open>
  The reads of a snapshot take a function of its state; a reader pins a snapshot for one read. A scan
  checks its deadline at every row: \<open>tick\<close> gives that reading for the number of rows before it.
\<close>

definition snapshot_read :: "instant \<Rightarrow> (nat \<Rightarrow> instant) \<Rightarrow> read_world \<Rightarrow> (readstate \<Rightarrow> 'r res) \<Rightarrow> read_snapshot \<Rightarrow> 'r res \<times> read_snapshot" where
  "snapshot_read instant_max clock w f s = snapshot_with_state instant_max clock w (\<lambda>st _ s. (f st, s)) s"

definition snapshot_get :: "instant \<Rightarrow> (nat \<Rightarrow> instant) \<Rightarrow> read_world \<Rightarrow> u64 \<Rightarrow> u64 \<Rightarrow> read_snapshot \<Rightarrow> entity option res \<times> read_snapshot" where
  "snapshot_get instant_max clock w table ent s = snapshot_read instant_max clock w (\<lambda>st. state_get st table ent) s"

definition snapshot_get_at_version :: "instant \<Rightarrow> (nat \<Rightarrow> instant) \<Rightarrow> read_world \<Rightarrow> u64 \<Rightarrow> u64 \<Rightarrow> u64 \<Rightarrow> read_snapshot \<Rightarrow> entity res \<times> read_snapshot" where
  "snapshot_get_at_version instant_max clock w table ent version s =
     snapshot_read instant_max clock w (\<lambda>st. get_at_version st table ent version) s"

definition snapshot_replay :: "instant \<Rightarrow> (nat \<Rightarrow> instant) \<Rightarrow> read_world \<Rightarrow> u64 \<Rightarrow> u64 \<Rightarrow> read_snapshot \<Rightarrow> entity res \<times> read_snapshot" where
  "snapshot_replay instant_max clock w table ent s = snapshot_read instant_max clock w (\<lambda>st. replay st table ent) s"

definition snapshot_replay_to_version :: "instant \<Rightarrow> (nat \<Rightarrow> instant) \<Rightarrow> read_world \<Rightarrow> u64 \<Rightarrow> u64 \<Rightarrow> u64 \<Rightarrow> read_snapshot \<Rightarrow> entity res \<times> read_snapshot" where
  "snapshot_replay_to_version instant_max clock w table ent version s =
     snapshot_read instant_max clock w (\<lambda>st. replay_to_version st table ent version) s"

definition snapshot_retained_range :: "instant \<Rightarrow> (nat \<Rightarrow> instant) \<Rightarrow> read_world \<Rightarrow> u64 \<Rightarrow> u64 \<Rightarrow> read_snapshot \<Rightarrow> (u64 \<times> u64) res \<times> read_snapshot" where
  "snapshot_retained_range instant_max clock w table ent s = snapshot_read instant_max clock w (\<lambda>st. retained_range st table ent) s"

definition snapshot_scan :: "instant \<Rightarrow> (nat \<Rightarrow> instant) \<Rightarrow> (nat \<Rightarrow> instant) \<Rightarrow> read_world \<Rightarrow> u64 \<Rightarrow> (entity \<Rightarrow> 's \<Rightarrow> 's res) \<Rightarrow> 's \<Rightarrow>
    read_snapshot \<Rightarrow> 's res \<times> read_snapshot" where
  "snapshot_scan instant_max clock tick w table visit x s =
     snapshot_with_state instant_max clock w (\<lambda>st end_at s.
       (res_bind (state_scan st table (\<lambda>e (n, x).
            res_bind (deadline_check (Some end_at) (tick n)) (\<lambda>_. res_bind (visit e x) (\<lambda>x. Inr (Suc n, x)))) (0 :: nat, x))
          (\<lambda>(_, x). Inr x), s)) s"

definition reader_call :: "instant \<Rightarrow> instant \<Rightarrow> nat \<Rightarrow> read_world \<Rightarrow> (read_world \<Rightarrow> read_snapshot \<Rightarrow> 'r res) \<Rightarrow> 'r res \<times> read_world" where
  "reader_call instant_max now i w f = (case reader_pin instant_max now i w of
       (Inl e, w) \<Rightarrow> (Inl e, w)
     | (Inr s, w) \<Rightarrow> (f w s, release_snapshot i w))"

section \<open>Snapshots over time\<close>

inductive reader_step :: "read_world \<Rightarrow> read_world \<Rightarrow> bool" where
  pin: "rw_live w i = None \<Longrightarrow> reader_pin instant_max now i w = (r, w') \<Longrightarrow> reader_step w w'"
| release: "reader_step w (release_snapshot i w)"
| publish: "reader_step w (reader_publish st w)"
| files: "reader_step w (snd (pinned_files w))"
| stats: "reader_step w (snd (reader_stats w))"

definition registered :: "read_world \<Rightarrow> bool" where
  "registered w = (\<forall>i. rw_live w i \<noteq> None \<longrightarrow> i \<in> set (rw_pins w))"

lemma reader_step_registered: "reader_step w w' \<Longrightarrow> registered w \<Longrightarrow> registered w'"
proof (induction rule: reader_step.induct)
  case (pin w i instant_max now r w')
  then show ?case
    by (auto simp: reader_pin_def registered_def live_pins_def release_snapshot_def Let_def split: sum.splits prod.splits if_splits)
next
  case (release w i)
  then show ?case by (auto simp: registered_def release_snapshot_def split: option.split)
next
  case (publish w st)
  then show ?case by (simp add: registered_def reader_publish_def)
next
  case (files w)
  then show ?case by (simp add: registered_def pinned_files_def live_pins_def)
next
  case (stats w)
  then show ?case by (auto simp: registered_def reader_stats_def live_pins_def split: prod.split)
qed

lemma reader_reach_registered: "reader_step\<^sup>*\<^sup>* (reader_new st u) w \<Longrightarrow> registered w"
proof (induction rule: rtranclp_induct)
  case base
  then show ?case by (simp add: registered_def reader_new_def)
qed (rule reader_step_registered)

text \<open>So the files of every live snapshot are pinned.\<close>

lemma registered_files:
  assumes "registered w" "rw_live w i = Some (st, h)" "f \<in> fst ` set (state_file_sizes st)"
  shows "f \<in> set (fst (pinned_files w))"
proof -
  have "i \<in> set (rw_pins w)" using assms(1,2) unfolding registered_def by blast
  moreover have "f \<in> set (map fst (pin_files w i))" using assms(2,3) by (simp add: pin_files_def)
  ultimately show ?thesis by (auto simp: pinned_files_def)
qed

text \<open>A live snapshot keeps its state until it is released.\<close>

lemma reader_step_holds:
  "reader_step w w' \<Longrightarrow> rw_live w i = Some x \<Longrightarrow> rw_live w' i \<noteq> None \<Longrightarrow> rw_live w' i = Some x"
proof (induction rule: reader_step.induct)
  case (pin w j instant_max now r w')
  then show ?case
    by (auto simp: reader_pin_def release_snapshot_def Let_def split: sum.splits prod.splits if_splits)
next
  case (release w j)
  then show ?case by (auto simp: release_snapshot_def split: option.splits if_splits)
next
  case (stats w)
  then show ?case by (simp add: reader_stats_def case_prod_unfold Let_def)
qed (simp_all add: reader_publish_def pinned_files_def)

text \<open>Readers act while snapshot \<open>i\<close> has an owner.\<close>

definition holding_step :: "nat \<Rightarrow> read_world \<Rightarrow> read_world \<Rightarrow> bool" where
  "holding_step i w w' = (reader_step w w' \<and> rw_live w' i \<noteq> None)"

lemma held_state: "(holding_step i)\<^sup>*\<^sup>* w w' \<Longrightarrow> rw_live w i = Some x \<Longrightarrow> rw_live w' i = Some x"
proof (induction rule: rtranclp_induct)
  case (step w' w'')
  then show ?case using reader_step_holds unfolding holding_step_def by blast
qed simp

lemma pinned_world:
  assumes "reader_pin instant_max now i w = (Inr s, w')"
  shows "ls_value (sn_pin s) = Some i" "sn_sequence s = rs_lsn (rw_current w)" "sn_catalog s = rs_catalog (rw_current w)"
    "\<exists>h. rw_live w' i = Some (rw_current w, h)"
  using assms by (auto simp: reader_pin_def lease_new_def Let_def res_simps split: sum.splits prod.splits if_splits)

lemma snapshot_state_cases:
  "fst (snapshot_state clock w s) = Inr st \<Longrightarrow> \<exists>i h. ls_value (sn_pin s) = Some i \<and> rw_live w i = Some (st, h)"
  "fst (snapshot_state clock w s) = Inl e \<Longrightarrow> e = TransactionExpired \<or> e = DeadlineExceeded"
  "ls_value (sn_pin (snd (snapshot_state clock w s))) \<noteq> None \<Longrightarrow>
    ls_value (sn_pin (snd (snapshot_state clock w s))) = ls_value (sn_pin s)"
  by (auto simp: snapshot_state_def lease_with_def Let_def split: option.splits prod.splits if_splits)

lemma snapshot_read_lease:
  "ls_value (sn_pin (snd (snapshot_read instant_max clock w f s))) \<noteq> None \<Longrightarrow>
    ls_value (sn_pin (snd (snapshot_read instant_max clock w f s))) = ls_value (sn_pin s)"
  using snapshot_state_cases(3) [of clock w s]
  by (auto simp: snapshot_read_def snapshot_with_state_def split: sum.splits prod.splits)

lemma deadline_errors:
  "deadline_check e now = Inl x \<Longrightarrow> x = DeadlineExceeded"
  "operation_end instant_max clock st expiry = Inl x \<Longrightarrow> x = DeadlineExceeded \<or> (\<exists>m. x = Invalid m)"
  by (auto simp: operation_end_def deadline_check_def deadline_at_def Let_def split: option.splits if_splits)

lemma snapshot_read_result:
  assumes "ls_value (sn_pin s) = Some i \<or> ls_value (sn_pin s) = None" "rw_live w i = Some (st, h)"
    and "fst (snapshot_read instant_max clock w f s) = r"
  shows "r = f st \<or> r = Inl TransactionExpired \<or> r = Inl DeadlineExceeded \<or> (\<exists>m. r = Inl (Invalid m))"
proof (cases "snapshot_state clock w s")
  case (Pair a s')
  show ?thesis
  proof (cases a)
    case (Inl e)
    then show ?thesis using assms(3) snapshot_state_cases(2) [of clock w s e] Pair by (auto simp: snapshot_read_def snapshot_with_state_def)
  next
    case (Inr st')
    then have "st' = st" using snapshot_state_cases(1) [of clock w s st'] assms(1,2) Pair by auto
    then show ?thesis
      using assms(3) Pair Inr deadline_errors(2) [of instant_max clock st "ls_deadline (sn_pin s')"]
      by (auto simp: snapshot_read_def snapshot_with_state_def deadline_check_def split: sum.splits if_splits)
  qed
qed

section \<open>Properties\<close>


section \<open>A concrete snapshot\<close>

definition sample_pinned :: "overlay \<Rightarrow> readstate" where
  "sample_pinned ov = (sample_readstate (open_store (\<lambda>_. None)))\<lparr>rs_overlay := ov\<rparr>"

definition sample_snapshot :: read_snapshot where
  "sample_snapshot = \<lparr>sn_pin = \<lparr>ls_value = Some 3, ls_last_access = 0, ls_deadline = Some (seconds 300), ls_idle = None, ls_operation = None\<rparr>,
     sn_catalog = [(1, sample_table)], sn_sequence = 7\<rparr>"

lemma sample_pin: "\<exists>w. reader_pin (seconds 1000) 0 3 (reader_new (sample_pinned ov) usage_default) = (Inr sample_snapshot, w)"
  by (simp add: reader_pin_def reader_new_def sample_pinned_def sample_readstate_def state_ready_def acquire_snapshot_def limit_check_def
      usize_checked_add_def usage_default_def limits_default_def lease_new_def deadline_at_def timeouts_default_def seconds_def mib_def
      sample_snapshot_def Let_def)


end
