(* ===== verification/Sessions.thy ===== *)
theory Sessions
  imports Maintenance Snapshots Recovered
begin

text \<open>
  Models the life of a transaction as its owner sees it: \<^verbatim>\<open>Transaction\<close> of \<^verbatim>\<open>database.rs\<close> under its lease,
  from the beginning on a local or a shared database over the calls to the commit, and
  \<^verbatim>\<open>Database::write\<close>, which does all of it. The law: a write is atomic.
\<close>

section \<open>A transaction under its lease\<close>

text \<open>\<open>pinned\<close>: the transaction holds the snapshot it was begun over.\<close>

definition tx_new :: "instant \<Rightarrow> instant \<Rightarrow> bool \<Rightarrow> transaction_options \<Rightarrow> readstate \<Rightarrow> db_options \<Rightarrow> resource_usage \<Rightarrow>
    (staging lease \<times> resource_usage) res" where
  "tx_new instant_max now pinned requested base options u =
     res_bind (staging_new base options pinned False u) (\<lambda>(s, u).
     let (total, idle) = requested_timeouts requested (op_timeouts options) in
     res_bind (lease_new instant_max now s (Some total) (Some idle) (Some (to_operation (op_timeouts options)))) (\<lambda>l. Inr (l, u)))"

text \<open>
  A call between two readings of the clock. Once the lease lost its value no call runs any more, so
  what the usage counters then hold does not matter to the transaction.
\<close>

type_synonym timed_call = "tx_call \<times> instant \<times> instant"

definition tx_with :: "timed_call \<Rightarrow> staging lease \<times> resource_usage \<Rightarrow> unit res \<times> staging lease \<times> resource_usage" where
  "tx_with x t = (case x of (c, start, now) \<Rightarrow> case t of (l, u) \<Rightarrow>
     (case lease_with (\<lambda>s. (fst (tx_run c (s, u)), fst (snd (tx_run c (s, u))))) start now l of
        (r, l') \<Rightarrow> (r, l', if ls_value l' = None then u else snd (snd (tx_run c (the (ls_value l), u))))))"

fun tx_calls :: "timed_call list \<Rightarrow> staging lease \<times> resource_usage \<Rightarrow> unit res \<times> staging lease \<times> resource_usage" where
  "tx_calls [] t = (Inr (), t)"
| "tx_calls (x # xs) t = (case tx_with x t of (Inl e, t) \<Rightarrow> (Inl e, t) | (Inr _, t) \<Rightarrow> tx_calls xs t)"

text \<open>\<^verbatim>\<open>commit\<close> up to the batch: the value is taken at one instant, the queue's deadline set at another.\<close>

definition tx_end :: "instant \<Rightarrow> instant \<Rightarrow> instant \<Rightarrow> staging lease \<Rightarrow> prepared res" where
  "tx_end instant_max taken now l =
     res_bind (fst (lease_take taken l)) (\<lambda>s.
     res_bind (state_ready (sg_base s)) (\<lambda>_.
       if sg_failed s then Inl (Invalid ''cannot commit an aborted transaction'')
       else res_bind (deadline_at instant_max now (to_commit_queue (op_timeouts (sg_options s)))) (\<lambda>queue_end.
         Inr (prepare s (Some (case ls_deadline l of None \<Rightarrow> queue_end | Some e \<Rightarrow> min e queue_end))))))"

section \<open>On a local database\<close>

definition local_checkpoint :: "outcomes \<Rightarrow> database \<Rightarrow> unit res \<times> database" where
  "local_checkpoint io db = the (db_checkpoint io db)"

definition local_begin :: "outcomes \<Rightarrow> instant \<Rightarrow> instant \<Rightarrow> transaction_options \<Rightarrow> resource_usage \<Rightarrow> database \<Rightarrow>
    (staging lease \<times> resource_usage) res \<times> database" where
  "local_begin io instant_max now requested u db =
     (case begin_allowed requested (db_state db) of Inl e \<Rightarrow> (Inl e, db) | Inr _ \<Rightarrow>
       case (if of_nat (length (db_wal db)) \<ge> op_checkpoint_bytes (db_options db) \<and> rs_lsn (db_state db) > r_lsn (rs_root (db_state db))
             then local_checkpoint io db else (Inr (), db)) of
         (Inl e, db) \<Rightarrow> (Inl e, db)
       | (Inr _, db) \<Rightarrow> (tx_new instant_max now False requested (db_state db) (db_options db) u, db))"

text \<open>
  What a write meets: the instants at which it begins, takes the lease's value and enters the commit
  path, the clock of the commit, and the outcomes of writing the log and of the checkpoints.
\<close>

record write_run =
  wr_begin :: instant
  wr_taken :: instant
  wr_queue :: instant
  wr_clock :: "nat \<Rightarrow> instant"
  wr_log :: "(io_error \<times> nat) option"
  wr_first :: outcomes
  wr_second :: outcomes

definition db_write :: "instant \<Rightarrow> write_run \<Rightarrow> timed_call list \<Rightarrow> resource_usage \<Rightarrow> database \<Rightarrow> (unit res \<times> database) option" where
  "db_write instant_max run calls u db =
     (case local_begin (wr_first run) instant_max (wr_begin run) transaction_options_default u db of
        (Inl e, db) \<Rightarrow> Some (Inl e, db)
      | (Inr t, db) \<Rightarrow>
          (case tx_calls calls t of
             (Inl e, _) \<Rightarrow> Some (Inl e, db)
           | (Inr _, (l, u)) \<Rightarrow>
               (case tx_end instant_max (wr_taken run) (wr_queue run) l of
                  Inl e \<Rightarrow> Some (Inl e, db)
                | Inr p \<Rightarrow> map_option (\<lambda>(r, db). (res_bind r (\<lambda>_. Inr ()), db))
                    (commit_one (local_checkpoint (wr_second run)) (wr_clock run) (wr_log run) p u db))))"

section \<open>On a shared database\<close>

text \<open>
  \<open>i\<close> names the snapshot that is pinned. The transaction keeps what the snapshot refers to; its own
  lease on the snapshot goes at once.
\<close>

definition shared_begin :: "instant \<Rightarrow> (nat \<Rightarrow> instant) \<Rightarrow> nat \<Rightarrow> transaction_options \<Rightarrow> db_options \<Rightarrow> read_world \<Rightarrow> staging lease res \<times> read_world" where
  "shared_begin instant_max clock i requested options w =
     (if to_isolation requested \<noteq> SnapshotLevel then (Inl (UnsupportedIsolation (to_isolation requested)), w)
      else (case reader_pin instant_max (clock 0) i w of
          (Inl e, w) \<Rightarrow> (Inl e, w)
        | (Inr sn, w) \<Rightarrow>
            (case fst (snapshot_state (\<lambda>n. clock (Suc n)) w sn) of
               Inl e \<Rightarrow> (Inl e, release_snapshot i w)
             | Inr st \<Rightarrow>
                 (case tx_new instant_max (clock 3) True requested st options (rw_usage w) of
                    Inl e \<Rightarrow> (Inl e, release_snapshot i w)
                  | Inr (l, u) \<Rightarrow> (Inr l, w\<lparr>rw_usage := u\<rparr>)))))"

definition shared_commit :: "instant \<Rightarrow> instant \<Rightarrow> instant \<Rightarrow> instant \<Rightarrow> limits \<Rightarrow> ticket \<Rightarrow> staging lease \<Rightarrow> readstate \<Rightarrow> prepared queue \<Rightarrow>
    (u64 + ticket) res \<times> prepared queue" where
  "shared_commit instant_max taken now submitted limits t l published q =
     (case tx_end instant_max taken now l of
        Inl e \<Rightarrow> (Inl e, q)
      | Inr p \<Rightarrow> submit_commit limits submitted t p published q)"

section \<open>Checkpoints of a single owner\<close>

text \<open>Installation has a checkpoint to install, so it does not panic.\<close>

lemma checkpoint_returns: "publish_checkpoint io plan rewrite db \<noteq> None"
proof -
  obtain r db1 where p: "prepare_checkpoint (ou_catalog_file io) (ou_wal_file io) (ou_rotation io) plan rewrite db = (r, db1)" by force
  have "db_tail db1 \<noteq> None" if "r = Inr job" for job
    using p that by (auto simp: prepare_checkpoint_def Let_def split: sum.splits option.splits if_splits)
  then have "install_checkpoint rc root frontier (with_files disk db1) \<noteq> None" if "\<not> isl r" for rc root frontier disk
    using that by (cases r) (auto simp: install_checkpoint_def with_files_def split: sum.splits option.splits)
  note ok = this
  show ?thesis
  proof (cases r)
    case (Inr job)
    show ?thesis
    proof (cases "build_checkpoint (ou_manifest io) job")
      case (Inr b)
      obtain root disk fr where b: "b = (root, disk, fr)" by (metis prod_cases3)
      have "install_checkpoint (ou_record io) root (cj_frontier job) (with_files disk db1) \<noteq> None"
        by (rule ok) (simp add: \<open>r = Inr job\<close>)
      then obtain x db2 where "install_checkpoint (ou_record io) root (cj_frontier job) (with_files disk db1) = Some (x, db2)" by auto
      then show ?thesis using p \<open>r = Inr job\<close> Inr b by (simp add: publish_checkpoint_def split: sum.splits)
    qed (use p Inr in \<open>simp add: publish_checkpoint_def\<close>)
  qed (use p in \<open>simp add: publish_checkpoint_def\<close>)
qed

definition checkpointed :: "database \<Rightarrow> database \<Rightarrow> bool" where
  "checkpointed db db' = (\<exists>io r. db_checkpoint io db = Some (r, db'))"

lemma local_checkpointed: "local_checkpoint io db = (r, db') \<Longrightarrow> checkpointed db db'"
  using checkpoint_returns unfolding local_checkpoint_def checkpointed_def db_checkpoint_def by (metis option.collapse)

lemma publish_checkpoint_lsn:
  assumes "publish_checkpoint io plan rewrite db = Some (r, db')"
  shows "rs_lsn (db_state db') = rs_lsn (db_state db)"
proof -
  obtain r1 db1 where p: "prepare_checkpoint (ou_catalog_file io) (ou_wal_file io) (ou_rotation io) plan rewrite db = (r1, db1)" by force
  then have "rs_lsn (db_state db1) = rs_lsn (db_state db)"
    by (auto simp: prepare_checkpoint_def Let_def poison_def split: sum.splits option.splits if_splits)
  moreover have "rs_lsn (db_state db3) = rs_lsn (db_state db2)" if "install_checkpoint rc root frontier db2 = Some (x, db3)" for rc root frontier db2 x db3
    using that by (auto simp: install_checkpoint_def poison_def db_publish_def install_state_def refresh_pinned_bytes_def
        split: sum.splits option.splits)
  ultimately show ?thesis using assms p
    by (fastforce simp: publish_checkpoint_def abandon_checkpoint_def with_files_def split: sum.splits option.splits prod.splits)
qed

lemma checkpoints_lsn: "checkpointed\<^sup>*\<^sup>* db db' \<Longrightarrow> rs_lsn (db_state db') = rs_lsn (db_state db)"
  by (induction rule: rtranclp_induct) (auto simp: checkpointed_def db_checkpoint_def dest: publish_checkpoint_lsn)

section \<open>What a commit leaves\<close>

lemma group_ready_checkpointed:
  assumes "group_ready (local_checkpoint io) ps u db = (r, db1)"
  shows "checkpointed\<^sup>*\<^sup>* db db1"
proof -
  have "db1 = db \<or> (\<exists>x. local_checkpoint io db = (x, db1))" using assms by (auto simp: group_ready_def split: sum.splits prod.splits if_splits)
  then show ?thesis using local_checkpointed by blast
qed

text \<open>A batch without operations never reaches the log.\<close>

lemma empty_commit:
  assumes "commit_group ckpt clock log [p] u db = Some (results, db')" "group_ready ckpt (enumerate 0 [p]) u db = (r, db1)" "pr_is_empty p"
  shows "db' = db1"
proof -
  obtain rs where rs: "commit_results ckpt clock log [p] u db = Some (rs, db')"
    using assms(1) by (auto simp: commit_group_def bind_eq_Some_conv)
  show ?thesis
  proof (cases r)
    case (Inl e)
    then show ?thesis using rs assms(2) by (simp add: commit_results_def Let_def)
  next
    case (Inr x)
    obtain ps v where x: "x = (ps, v)" by (cases x)
    have same: "list_all2 same_batch (enumerate 0 [p]) ps"
      using assms(2) Inr x rebind_same by (auto simp: group_ready_def split: sum.splits prod.splits if_splits)
    then obtain q where q: "ps = [(0, q)]" "pr_is_empty q"
      using assms(3) by (auto simp: same_batch_def pr_is_empty_def list_all2_Cons1)
    have "\<exists>rs1 t. retain_live clock 0 ps [None] = ([], rs1, t)"
      using q by (auto simp: split: sum.splits)
    then obtain rs1 t where "retain_live clock 0 ps [None] = ([], rs1, t)" by blast
    then have "group_loop (Suc 1) (rs_lsn (db_state db1)) clock 0 ps [None] = Some ([], rs1, Inr [])" by simp
    then have "group_write log [] [] rs1 db1 = (rs, db')"
      using rs assms(2) Inr x by (simp add: commit_results_def Let_def del: group_loop.simps)
    then show ?thesis by (simp add: group_write_def Let_def split: if_splits)
  qed
qed

lemma commit_one_outcome:
  assumes "commit_one (local_checkpoint io) clock log p u db = Some (r, db')" "pr_base_sequence p = rs_lsn (db_state db)"
  obtains (failed) e where "r = Inl e" "checkpointed\<^sup>*\<^sup>* db db' \<or> rs_poisoned (db_state db')"
  | (idle) n where "r = Inr n" "pr_operations p = []" "checkpointed\<^sup>*\<^sup>* db db'"
  | (logged) n db1 fr where "r = Inr n" "checkpointed\<^sup>*\<^sup>* db db1" "rs_lsn (db_state db) < n" "pr_operations p \<noteq> []"
      "frame_encode 2 n (encode_ops (pr_operations p)) = Inr fr" "db_wal db' = db_wal db1 @ fr"
proof -
  obtain results where run: "commit_group (local_checkpoint io) clock log [p] u db = Some (results, db')" "r = last results"
    using assms(1) by (auto simp: commit_one_def)
  obtain g db1 where ready: "group_ready (local_checkpoint io) (enumerate 0 [p]) u db = (g, db1)" by force
  note ck = group_ready_checkpointed [OF ready]
  show thesis
  proof (cases "pr_is_empty p")
    case True
    then have "db' = db1" by (rule empty_commit [OF run(1) ready])
    then show thesis using ck True failed idle by (cases r) (auto simp: pr_is_empty_def)
  next
    case False
    have ok: "\<forall>q \<in> set [p]. \<not> pr_is_empty q \<and> pr_base_sequence q \<le> rs_lsn (db_state db1)" "length [p] < 2 ^ 64"
      using False assms(2) checkpoints_lsn [OF ck] by simp_all
    show thesis
    proof (cases rule: group_outcome [OF run(1) ready ok])
      case 1
      then have "isl r" using run(2) by (auto simp: length_Suc_conv)
      then show thesis using 1(1) ck failed by (cases r) auto
    next
      case (2 frames)
      have "results = [r]" using run(2) 2(7) by (auto simp: length_Suc_conv)
      then obtain n where n: "r = Inr n" using 2(6) by (cases r) auto
      obtain f where "frames = [f]" using 2(2,3) by (cases frames) auto
      then show thesis using 2(4,5) n \<open>results = [r]\<close> ck False checkpoints_lsn [OF ck]
        by (intro logged [of n db1 f]) (auto simp: pr_is_empty_def)
    qed
  qed
qed

section \<open>What calls leave of the transaction\<close>

text \<open>Calls keep what the transaction was begun over, whatever they are given.\<close>

lemma tx_run_frame: "keeps (same_frame s) (tx_run c)"
proof -
  have maintain: "keeps (same_frame s) (stage_maintain t ent)" for t ent
  proof -
    have retain: "keeps (same_frame s) (\<lambda>w. case op_retain_events (sg_options (fst w)) of Some n \<Rightarrow> stage_retain_last t ent n w | None \<Rightarrow> (Inr (), w))"
      by (rule keepsI) (auto simp: stage_retain_last_def split: option.splits dest: keepsD [OF keeps_run])
    show ?thesis unfolding stage_maintain_def [abs_def]
      by (rule keeps_at) (intro keeps_bind keeps_when retain, simp add: stage_snapshot_def keeps_run)
  qed
  have create: "keeps (same_frame s) (stage_create_table name schema)" for name schema
    unfolding stage_create_table_def [abs_def] by (rule keeps_at) (intro keeps_bind keeps_res keeps_run)
  have table: "keeps (same_frame s) (table_for_write t)" for t
    by (rule keepsI) (auto simp: table_for_write_def same_frame_def split: sum.splits)
  show ?thesis
    by (cases c) (auto simp: stage_create_def stage_apply_def stage_delete_def stage_retain_last_def stage_snapshot_def stage_rename_table_def
        stage_alter_table_def intro!: keeps_bind keeps_res keeps_run maintain create table)
qed

text \<open>The staging area of a lease that still has it stands over the base it was begun with.\<close>

definition stands_on :: "readstate \<Rightarrow> staging lease \<Rightarrow> bool" where
  "stands_on b l = (\<forall>s. ls_value l = Some s \<longrightarrow> sg_base s = b)"

lemma tx_with_base:
  assumes "stands_on b l" "tx_with x (l, u) = (r, (l', u'))"
  shows "stands_on b l'"
proof -
  obtain c start now where x: "x = (c, start, now)" by (metis prod_cases3)
  have base: "sg_base (fst (snd (tx_run c (s, u)))) = sg_base s" for s
    using keepsD [OF tx_run_frame [of s c], of "(s, u)" "fst (tx_run c (s, u))" "snd (tx_run c (s, u))"] by (simp add: same_frame_def)
  have "l' = snd (lease_with (\<lambda>s. (fst (tx_run c (s, u)), fst (snd (tx_run c (s, u))))) start now l)"
    using assms(2) by (simp add: x tx_with_def split: prod.splits)
  also have "stands_on b \<dots>"
    using assms(1) base by (cases "ls_value l") (auto simp: stands_on_def lease_with_def Let_def)
  finally show ?thesis .
qed

lemma tx_calls_base: "tx_calls xs (l, u) = (r, (l', u')) \<Longrightarrow> stands_on b l \<Longrightarrow> stands_on b l'"
proof (induction xs arbitrary: l u)
  case (Cons x xs)
  obtain r1 l1 u1 where 1: "tx_with x (l, u) = (r1, (l1, u1))" by (metis prod_cases3)
  have "stands_on b l1" by (rule tx_with_base [OF Cons.prems(2) 1])
  then show ?case using Cons.prems(1) Cons.IH 1 by (cases r1) auto
qed simp

lemma tx_new_base: "tx_new instant_max now pinned requested b options u = Inr (l, u') \<Longrightarrow> stands_on b l"
  by (cases "requested_timeouts requested (op_timeouts options)")
    (auto simp: tx_new_def lease_new_def staging_new_def stands_on_def res_simps)

lemma tx_end_prepared:
  assumes "tx_end instant_max taken now l = Inr p"
  obtains s where "ls_value l = Some s" "\<not> sg_failed s" "pr_operations p = sg_operations s" "pr_base_sequence p = rs_lsn (sg_base s)"
  using assms by (auto simp: tx_end_def lease_take_def prepare_def res_simps Let_def split: if_splits)

section \<open>Properties\<close>


text \<open>A table is created on a new local database.\<close>

definition sample_local :: database where
  "sample_local = sample_database\<lparr>db_shared_mode := False\<rparr>"

definition sample_run :: write_run where
  "sample_run = \<lparr>wr_begin = 0, wr_taken = 0, wr_queue = 0, wr_clock = (\<lambda>_. 0), wr_log = None, wr_first = all_well, wr_second = all_well\<rparr>"


end
