(* ===== verification/Checkpoint_Laws.thy ===== *)
theory Checkpoint_Laws
  imports Checkpoint Recovery_Laws
begin

text \<open>
  The laws of checkpoints: the plan always leaves room in the manifest and copies no more entities
  than it may; installing a manifest changes no read, whatever was committed since the capture.
\<close>

section \<open>The plan\<close>

definition kept :: "u64 set \<Rightarrow> plan \<Rightarrow> nat" where
  "kept G plan = card {g \<in> G. map_of plan g \<noteq> Some (- 1)}"

text \<open>How many live entities a plan copies; \<open>L\<close> gives those of a generation.\<close>

definition copies :: "u64 set \<Rightarrow> (u64 \<Rightarrow> u64) \<Rightarrow> plan \<Rightarrow> nat" where
  "copies G L plan = (\<Sum>g \<in> G. case map_of plan g of None \<Rightarrow> 0 | Some q \<Rightarrow> min (unat (L g)) (unat q))"

lemma kept_insert:
  assumes "finite G" "g \<in> G" "map_of plan g \<noteq> Some (- 1)"
  shows "kept G plan = Suc (kept G (bt_insert g (- 1) plan))"
proof -
  have "{h \<in> G. map_of plan h \<noteq> Some (- 1)} = insert g {h \<in> G. map_of (bt_insert g (- 1) plan) h \<noteq> Some (- 1)}"
    using assms(2,3) by (auto split: if_splits)
  then show ?thesis using assms(1) by (simp add: kept_def)
qed

lemma kept_again: "map_of plan g = Some (- 1) \<Longrightarrow> kept G (bt_insert g (- 1) plan) = kept G plan"
  unfolding kept_def by (rule arg_cong [where f = card]) auto

lemma kept_partly: "map_of plan g = None \<Longrightarrow> q \<noteq> - 1 \<Longrightarrow> kept G (bt_insert g q plan) = kept G plan"
  unfolding kept_def by (rule arg_cong [where f = card]) auto

lemma copies_insert:
  assumes "finite G" "g \<in> G" "map_of plan g = None"
  shows "copies G L (bt_insert g q plan) = copies G L plan + min (unat (L g)) (unat q)"
proof -
  let ?f = "\<lambda>plan h. case map_of plan h of None \<Rightarrow> 0 | Some q \<Rightarrow> min (unat (L h)) (unat q)"
  have "sum (?f (bt_insert g q plan)) (G - {g}) = sum (?f plan) (G - {g})" by (rule sum.cong) auto
  then show ?thesis using assms by (simp add: copies_def sum.remove [OF assms(1,2)])
qed

text \<open>The generations of a queue are not planned yet, and each is there once.\<close>

definition queue_ok :: "u64 set \<Rightarrow> (u64 \<Rightarrow> u64) \<Rightarrow> plan \<Rightarrow> candidate list \<Rightarrow> bool" where
  "queue_ok G L plan queue = (distinct (map (\<lambda>c. snd (snd c)) queue) \<and>
     (\<forall>c \<in> set queue. snd (snd c) \<in> G \<and> map_of plan (snd (snd c)) = None \<and> fst (snd c) = L (snd (snd c))))"

lemma drain_ok:
  assumes "finite G" "queue_ok G L plan queue" "slots = kept G plan + 1" "plan_drain limit queue plan slots budget = (plan', slots')"
  shows "slots' = kept G plan' + 1 \<and> copies G L plan' \<le> copies G L plan + unat budget \<and>
    (\<forall>g. map_of plan g \<noteq> None \<longrightarrow> map_of plan' g = map_of plan g)"
  using assms(2-4)
proof (induction limit queue plan slots budget rule: plan_drain.induct)
  case (2 limit dense live g queue plan slots budget)
  have g: "g \<in> G" "map_of plan g = None" "live = L g" using 2(2) by (simp_all add: queue_ok_def)
  show ?case
  proof (cases "budget = 0 \<or> (dense \<and> slots \<le> limit)")
    case False
    note step = kept_insert [OF assms(1) g(1), of plan]
    show ?thesis
    proof (cases "live > budget")
      case True
      then have "budget \<noteq> - 1" by (metis word_order.extremum_strict)
      then show ?thesis
        using False True 2(3,4) g kept_partly [OF g(2), of budget G] copies_insert [OF assms(1) g(1,2), of L budget] by auto
    next
      case small: False
      let ?plan = "bt_insert g (- 1) plan"
      have "queue_ok G L ?plan queue" using 2(2) by (auto simp: queue_ok_def)
      moreover have "slots - 1 = kept G ?plan + 1" using step g(2) 2(3) by simp
      moreover have "plan_drain limit queue ?plan (slots - 1) (budget - live) = (plan', slots')"
        using 2(4) False small by simp
      ultimately have IH: "slots' = kept G plan' + 1 \<and> copies G L plan' \<le> copies G L ?plan + unat (budget - live) \<and>
          (\<forall>h. map_of ?plan h \<noteq> None \<longrightarrow> map_of plan' h = map_of ?plan h)"
        using 2(1) [OF False small] by blast
      have "unat (budget - live) = unat budget - unat live" using small by (simp add: unat_sub not_less)
      moreover have "unat live \<le> unat budget" using small by (simp add: word_le_nat_alt not_less)
      moreover have "copies G L ?plan \<le> copies G L plan + unat live" using copies_insert [OF assms(1) g(1,2), of L "- 1"] g(3) by simp
      ultimately show ?thesis using IH g(2) by auto
    qed
  qed (use 2 in auto)
qed simp

lemma force_fits:
  assumes "finite G" "\<forall>g \<in> G. map_of plan g \<noteq> Some (- 1) \<longrightarrow> g \<in> snd ` snd ` set queue" "snd ` snd ` set queue \<subseteq> G" "slots = kept G plan + 1"
  shows "kept G (plan_force queue plan slots) < MAX_SLOTS"
  using assms(2-4)
proof (induction queue plan slots rule: plan_force.induct)
  case (1 plan slots)
  then have "kept G plan = 0" by (simp add: kept_def)
  then show ?case by (simp add: MAX_SLOTS_def)
next
  case (2 dense live g queue plan slots)
  show ?case
  proof (cases "slots < MAX_SLOTS")
    case False
    have "(if map_of plan g \<noteq> Some (- 1) then slots - 1 else slots) = kept G (bt_insert g (- 1) plan) + 1"
      using 2(3,4) kept_insert [OF assms(1), of g plan] kept_again [of plan g G] by auto
    moreover have "\<forall>h \<in> G. map_of (bt_insert g (- 1) plan) h \<noteq> Some (- 1) \<longrightarrow> h \<in> snd ` snd ` set queue"
      using 2(2) by (auto split: if_splits)
    ultimately show ?thesis using 2(1) [OF False] 2(3) False by simp
  qed (use 2 in simp)
qed

lemma force_idle: "slots < MAX_SLOTS \<Longrightarrow> plan_force queue plan slots = plan"
  by (cases queue) auto

text \<open>The scan splits the generations into those without live entities and the candidates.\<close>

definition unused :: "root \<Rightarrow> nat \<times> generation_info \<Rightarrow> bool" where
  "unused r x = (live_entities r (fst x) = 0)"

definition candidate_of :: "root \<Rightarrow> u64 \<Rightarrow> nat \<times> generation_info \<Rightarrow> candidate" where
  "candidate_of r ratio x = (\<not> f64_below (live_ratio (root_totals r (of_nat (fst x)))) ratio, live_entities r (fst x), g_generation (snd x))"

lemma plan_scan_eq:
  "plan_scan r ratio gs (plan, queue) = (fold (\<lambda>g p. bt_insert g (- 1) p) (map (\<lambda>x. g_generation (snd x)) (filter (unused r) gs)) plan,
     queue @ map (candidate_of r ratio) (filter (\<lambda>x. \<not> unused r x) gs))"
  by (induction r ratio gs "(plan, queue)" arbitrary: plan queue rule: plan_scan.induct)
     (simp_all add: unused_def candidate_of_def live_entities_def Let_def)

lemma bt_ok_inserts: "bt_ok m \<Longrightarrow> bt_ok (fold (\<lambda>k m. bt_insert k n m) ks m)"
  by (induction ks arbitrary: m) (simp_all add: bt_ok_insert)

text \<open>The live entities by generation, and what the whole plan comes to.\<close>

definition generation_live :: "root \<Rightarrow> u64 \<Rightarrow> u64" where
  "generation_live r g = (case find (\<lambda>x. g_generation (snd x) = g) (enumerate 0 (r_generations r)) of
     Some x \<Rightarrow> live_entities r (fst x) | None \<Rightarrow> 0)"

lemma generation_live_at:
  assumes "distinct (map g_generation (r_generations r))" "x \<in> set (enumerate 0 (r_generations r))"
  shows "generation_live r (g_generation (snd x)) = live_entities r (fst x)"
proof -
  obtain y where y: "find (\<lambda>y. g_generation (snd y) = g_generation (snd x)) (enumerate 0 (r_generations r)) = Some y"
    using assms(2) by (cases "find (\<lambda>y. g_generation (snd y) = g_generation (snd x)) (enumerate 0 (r_generations r))")
      (cases x, force simp: find_None_iff)+
  then have "y \<in> set (enumerate 0 (r_generations r))" "g_generation (snd y) = g_generation (snd x)" by (auto simp: find_Some_iff)
  then have "fst y < length (r_generations r)" "fst x < length (r_generations r)"
      "g_generation (r_generations r ! fst y) = g_generation (r_generations r ! fst x)"
    using assms(2) by (simp_all add: in_set_enumerate_eq)
  then have "fst y = fst x" using nth_eq_iff_index_eq [OF assms(1), of "fst y" "fst x"] by simp
  then show ?thesis using y by (simp add: generation_live_def)
qed

definition all_generations :: "root \<Rightarrow> u64 set" where
  "all_generations r = g_generation ` set (r_generations r)"

lemma plan_facts:
  fixes r :: root and options :: db_options
  assumes "distinct (map g_generation (r_generations r))" "length (r_generations r) \<le> MAX_SLOTS"
  defines "plan \<equiv> collection_plan options r" and "G \<equiv> all_generations r"
  shows "kept G plan < MAX_SLOTS"
    and "length (r_generations r) + 1 < MAX_SLOTS \<Longrightarrow> 0 < op_collect_entities options \<Longrightarrow> op_collect_entities options < 2 ^ 64 \<Longrightarrow>
      copies G (generation_live r) plan \<le> op_collect_entities options"
proof -
  let ?gs = "enumerate 0 (r_generations r)" and ?gen = "\<lambda>x :: nat \<times> generation_info. g_generation (snd x)" and ?ratio = "op_compact_live_ratio options"
  let ?dead = "map ?gen (filter (unused r) ?gs)" and ?live = "filter (\<lambda>x. \<not> unused r x) ?gs"
  let ?p0 = "fold (\<lambda>g p. bt_insert g (- 1) p) ?dead [] :: plan" and ?q0 = "map (candidate_of r ?ratio) ?live"
  let ?slots = "length (r_generations r) - length ?p0 + 1" and ?queue = "sort ?q0"
  let ?budget = "if op_collect_entities options = 0 then - 1 else of_nat (op_collect_entities options) :: u64"
  have gens: "map ?gen ?gs = map g_generation (r_generations r)" by (simp add: map_map [of g_generation snd, unfolded comp_def, symmetric] del: map_map)
  have G: "finite G" "G = ?gen ` set ?gs" "card G = length (r_generations r)"
    unfolding G_def all_generations_def using arg_cong [OF gens, of set] distinct_card [OF assms(1)] by (simp_all add: image_image)
  have p0: "map_of ?p0 g = (if g \<in> set ?dead then Some (- 1) else None)" for g by (simp add: map_of_inserts)
  have "bt_ok ?p0" by (rule bt_ok_inserts) simp
  then have "distinct (map fst ?p0)" by (rule bt_ok_distinct)
  from distinct_card [OF this, symmetric] have "length ?p0 = card (fst ` set ?p0)" by simp
  also have "fst ` set ?p0 = set ?dead" using p0 by (metis (no_types, lifting) domIff dom_map_of_conv_image_fst option.distinct(1) subsetI subset_antisym)
  finally have "length ?p0 = card (set ?dead)" .
  moreover have "set ?dead \<subseteq> G" unfolding G(2) by auto
  moreover have "{g \<in> G. map_of ?p0 g \<noteq> Some (- 1)} = G - set ?dead" using p0 by auto
  ultimately have slots: "?slots = kept G ?p0 + 1" using G(1,3) by (simp add: kept_def card_Diff_subset card_mono)
  have distinct: "distinct (map ?gen ?gs)" using assms(1) gens by simp
  have snds: "map (\<lambda>c. snd (snd c)) ?q0 = map ?gen ?live" by (simp add: candidate_of_def comp_def)
  have "distinct (map ?gen ?live)" using distinct by (rule distinct_map_filter)
  then have "distinct (map (\<lambda>c. snd (snd c)) ?q0)" unfolding snds .
  then have "distinct (map (\<lambda>c. snd (snd c)) ?queue)" by (simp only: distinct_map distinct_sort set_sort)
  moreover have "map_of ?p0 (?gen x) = None \<and> generation_live r (?gen x) = live_entities r (fst x)" if "x \<in> set ?live" for x
  proof -
    have "?gen x \<notin> set ?dead" using distinct that by (auto simp: distinct_map inj_on_def)
    then show ?thesis using p0 generation_live_at [OF assms(1), of x] that by simp
  qed
  ultimately have queue: "queue_ok G (generation_live r) ?p0 ?queue"
    unfolding queue_ok_def G(2) by (auto simp: candidate_of_def)
  obtain p1 slots1 where drain: "plan_drain (op_max_generations options) ?queue ?p0 ?slots ?budget = (p1, slots1)" by fastforce
  note d = drain_ok [OF G(1) queue slots drain]
  have plan: "plan = plan_force ?queue p1 slots1"
    using drain unfolding plan_def collection_plan_def by (simp add: plan_scan_eq)
  have "set ?queue = set ?q0" by simp
  then have all: "snd ` snd ` set ?queue = ?gen ` set ?live" using arg_cong [OF snds, of set] by (simp add: image_image)
  have "g \<in> snd ` snd ` set ?queue" if "g \<in> G" "map_of p1 g \<noteq> Some (- 1)" for g
  proof -
    have "map_of ?p0 g \<noteq> Some (- 1)" using d that(2) by auto
    then show ?thesis using that(1) p0 unfolding G(2) all by (auto split: if_splits)
  qed
  then show "kept G plan < MAX_SLOTS" unfolding plan by (intro force_fits) (use d G all in auto)
  assume room: "length (r_generations r) + 1 < MAX_SLOTS" and limit: "0 < op_collect_entities options" "op_collect_entities options < 2 ^ 64"
  have "kept G p1 \<le> card G" unfolding kept_def using G(1) by (intro card_mono) auto
  then have "plan = p1" unfolding plan using force_idle [of slots1] d room G(3) by simp
  moreover have "copies G (generation_live r) ?p0 = 0"
  proof -
    have "generation_live r g = 0" if dead: "g \<in> set ?dead" for g
    proof -
      obtain x where "x \<in> set ?gs" "unused r x" "g = ?gen x" using dead by auto
      then show ?thesis using generation_live_at [OF assms(1)] by (simp add: unused_def)
    qed
    then show ?thesis using p0 by (auto simp: copies_def intro!: sum.neutral split: option.split)
  qed
  moreover have "unat ?budget = op_collect_entities options" using limit by (simp add: unat_of_nat take_bit_nat_eq_self)
  ultimately show "copies G (generation_live r) plan \<le> op_collect_entities options" using d by simp
qed

lemma absorbed_kept:
  assumes "bt_ok plan" "distinct (map g_generation gs)"
  shows "length (filter (\<lambda>g. g_generation g \<notin> set (absorbed plan)) gs) = kept (g_generation ` set gs) plan"
proof -
  have "g \<in> set (absorbed plan) \<longleftrightarrow> map_of plan g = Some (- 1)" for g
    using assms(1) by (force simp: absorbed_def bt_ok_mem_iff)
  moreover have "distinct (map g_generation (filter P gs))" for P using assms(2) by (simp add: distinct_map_filter)
  then have "length (filter P gs) = card (g_generation ` set (filter P gs))" for P
    by (metis distinct_card length_map set_map)
  ultimately show ?thesis unfolding kept_def by (simp, intro arg_cong [where f = card]) auto
qed

lemma collection_plan_ok: "bt_ok (collection_plan options r)"
proof -
  have drain: "bt_ok plan \<Longrightarrow> bt_ok (fst (plan_drain limit queue plan slots budget))" for limit queue plan slots budget
    by (induction limit queue plan slots budget rule: plan_drain.induct) (auto simp: bt_ok_insert)
  have force: "bt_ok plan \<Longrightarrow> bt_ok (plan_force queue plan slots)" for queue plan slots
    by (induction queue plan slots rule: plan_force.induct) (auto simp: bt_ok_insert)
  show ?thesis unfolding collection_plan_def
    by (auto simp: plan_scan_eq Let_def intro!: force split: prod.split) (metis bt_ok_inserts bt_ok_Nil drain fst_conv)+
qed

lemma rebuild_loop_fst: "fst (rebuild_loop absorb old gs slots) = gs @ filter (\<lambda>g. g_generation g \<notin> set absorb) old"
  by (induction absorb old gs slots rule: rebuild_loop.induct) simp_all

section \<open>The tail\<close>

text \<open>
  Between capture and installation: the tail holds what was published since, over what was captured.
\<close>

definition tail_covers :: "readstate \<Rightarrow> database \<Rightarrow> bool" where
  "tail_covers captured db = (\<exists>tail. db_tail db = Some tail \<and> om_inv (ov_entries tail) \<and> om_inv (ov_entries (rs_overlay (db_state db))) \<and>
     (\<forall>k. overlay_get (rs_overlay (db_state db)) k =
       (case overlay_get tail k of Some d \<Rightarrow> Some d | None \<Rightarrow> overlay_get (rs_overlay captured) k)) \<and>
     rs_root (db_state db) = rs_root captured \<and> rs_store (db_state db) = rs_store captured)"

lemma extend_covers:
  assumes "om_inv (ov_entries tail)" "om_inv (ov_entries ov)"
    and "\<forall>k. overlay_get ov k = (case overlay_get tail k of Some d \<Rightarrow> Some d | None \<Rightarrow> overlay_get ov0 k)"
  shows "overlay_get (overlay_extend ov es) k =
    (case overlay_get (overlay_extend tail es) k of Some d \<Rightarrow> Some d | None \<Rightarrow> overlay_get ov0 k)"
  using assms unfolding overlay_extend_def
proof (induction es arbitrary: ov tail)
  case Nil
  then show ?case by (simp del: split_paired_All)
next
  case (Cons e es)
  have "overlay_get (overlay_insert ov (fst e) (snd e)) k =
      (case overlay_get (overlay_insert tail (fst e) (snd e)) k of Some d \<Rightarrow> Some d | None \<Rightarrow> overlay_get ov0 k)" for k
    using Cons.prems by (simp add: overlay_get_insert del: split_paired_All)
  then show ?case using Cons.IH Cons.prems(1,2) by (simp add: overlay_inv_insert)
qed

lemma publish_state_covers: "tail_covers captured db \<Longrightarrow> tail_covers captured (publish_state p n db)"
  unfolding tail_covers_def
proof (elim exE conjE)
  fix tail assume a: "db_tail db = Some tail" "om_inv (ov_entries tail)" "om_inv (ov_entries (rs_overlay (db_state db)))"
    "\<forall>k. overlay_get (rs_overlay (db_state db)) k =
       (case overlay_get tail k of Some d \<Rightarrow> Some d | None \<Rightarrow> overlay_get (rs_overlay captured) k)"
    "rs_root (db_state db) = rs_root captured" "rs_store (db_state db) = rs_store captured"
  have "db_tail (publish_state p n db) = Some (overlay_extend tail (published_entries p n))"
    using a(1) by (simp add: publish_state_def published_entries_def Let_def)
  then show "\<exists>tail. db_tail (publish_state p n db) = Some tail \<and> om_inv (ov_entries tail) \<and>
      om_inv (ov_entries (rs_overlay (db_state (publish_state p n db)))) \<and>
      (\<forall>k. overlay_get (rs_overlay (db_state (publish_state p n db))) k =
        (case overlay_get tail k of Some d \<Rightarrow> Some d | None \<Rightarrow> overlay_get (rs_overlay captured) k)) \<and>
      rs_root (db_state (publish_state p n db)) = rs_root captured \<and> rs_store (db_state (publish_state p n db)) = rs_store captured"
    using a overlay_extend_inv extend_covers [OF a(2-4)] by simp
qed

lemma publish_all_covers: "tail_covers captured db \<Longrightarrow> tail_covers captured (fst (publish_all first offset ps db rs))"
  by (induction first offset ps db rs rule: publish_all.induct) (simp_all add: Let_def publish_state_covers)

lemma covers_published: "tail_covers captured (db_publish db) = tail_covers captured db"
  by (simp add: tail_covers_def db_publish_def)

lemma commit_covers:
  assumes "commit_group ckpt clock io batches u db = Some (results, db')" "db_shared_mode db" "tail_covers captured db"
  shows "db_shared_mode db' \<and> (\<not> rs_poisoned (db_state db') \<longrightarrow> tail_covers captured db')"
proof -
  obtain rs where run: "commit_results ckpt clock io batches u db = Some (rs, db')"
    using assms(1) by (auto simp: commit_group_def bind_eq_Some_conv)
  have ready: "snd (group_ready ckpt (enumerate 0 batches) u db) = db"
    using assms(2) by (auto simp: group_ready_def split: sum.split)
  consider "db' = db" | ps frames rs0 rs' where "group_write io ps frames rs0 db = (rs', db')"
    using run ready by (auto simp: commit_results_def Let_def split: prod.splits sum.splits option.splits)
  then show ?thesis
  proof cases
    case 2
    then show ?thesis
    proof (cases rule: group_write_cases)
      case (published d)
      have "tail_covers captured d" using assms(3) published(5,9) by (simp add: tail_covers_def)
      from publish_all_covers [OF this] publish_all_fields [of "rs_lsn (db_state db)" 0 ps d rs0]
      show ?thesis using published(4,8) assms(2) by (simp add: covers_published) (simp add: db_publish_def)
    qed (use assms in auto)
  qed (use assms in simp)
qed

text \<open>Group commits on a shared database.\<close>

definition group_commits :: "database \<Rightarrow> database \<Rightarrow> bool" where
  "group_commits db db' = (\<exists>ckpt clock io batches u results. commit_group ckpt clock io batches u db = Some (results, db'))"

lemma commits_cover:
  assumes "group_commits\<^sup>*\<^sup>* db db'" "db_shared_mode db" "tail_covers captured db" "\<not> rs_poisoned (db_state db')"
  shows "tail_covers captured db'"
proof -
  have poisoned: "d' = d" if "group_commits d d'" "rs_poisoned (db_state d)" for d d'
  proof -
    obtain ckpt clock io batches u results where run: "commit_group ckpt clock io batches u d = Some (results, d')"
      using \<open>group_commits d d'\<close> unfolding group_commits_def by blast
    have "group_ready ckpt (enumerate 0 batches) u d = (Inl NeedsRecovery, d)"
      using that(2) by (simp add: group_ready_def db_ready_def state_ready_def)
    then show ?thesis using run by (auto simp: commit_group_def commit_results_def Let_def bind_eq_Some_conv)
  qed
  have "db_shared_mode db' \<and> (\<not> rs_poisoned (db_state db') \<longrightarrow> tail_covers captured db')"
    using assms(1)
  proof (induction rule: rtranclp_induct)
    case (step d d')
    show ?case
    proof (cases "rs_poisoned (db_state d)")
      case True
      then show ?thesis using poisoned [OF step(2)] step by simp
    next
      case False
      then show ?thesis using step commit_covers unfolding group_commits_def by blast
    qed
  qed (use assms in simp)
  then show ?thesis using assms(4) by blast
qed

section \<open>Installation\<close>

text \<open>
  A manifest stands for a captured state: current rows and versions read from its files are those
  read from the state.
\<close>

definition stands_for :: "root \<Rightarrow> readstate \<Rightarrow> bool" where
  "stands_for r captured = (\<forall>t ent.
     current_state r (rs_store captured) t ent = (case overlay_get (rs_overlay captured) (t, ent) of
         Some d \<Rightarrow> res_bind (st_decoded (rs_store captured) (entity_bytes (rs_store captured) (ed_current d))) (\<lambda>_. Inr (Some (ed_current d)))
       | None \<Rightarrow> current_state (rs_root captured) (rs_store captured) t ent) \<and>
     (\<forall>def v u. map_of (rs_catalog captured) t = Some def \<longrightarrow>
       state_at r (rs_store captured) t ent v u = (case overlay_get (rs_overlay captured) (t, ent) of
         Some d \<Rightarrow> entity_at d def v u
       | None \<Rightarrow> state_at (rs_root captured) (rs_store captured) t ent v u)))"

lemma captured_covers:
  assumes "prepare_checkpoint catalog_file wal_file rotation plan rewrite db0 = (Inr job, db1)" "om_inv (ov_entries (rs_overlay (db_state db0)))"
  shows "cj_state job = db_state db0" "db_shared_mode db1 = db_shared_mode db0" "tail_covers (cj_state job) db1"
proof -
  obtain g header next_free where job: "cj_state job = db_state db0" "db1 = db0\<lparr>db_next_generation := next_free,
      db_segments := db_segments db0 @ [(db_wal_number db0, db_wal db0)], db_wal := header, db_wal_number := g, db_tail := Some overlay_new\<rparr>"
    using assms(1) by (auto simp: prepare_checkpoint_def Let_def split: sum.splits option.splits if_splits)
  have "overlay_get overlay_new k = None" "om_inv (ov_entries overlay_new)" for k
    by (simp_all add: overlay_get_def overlay_new_def om.inv_emp)
  then show "cj_state job = db_state db0" "db_shared_mode db1 = db_shared_mode db0" "tail_covers (cj_state job) db1"
    using job assms(2) by (simp_all add: tail_covers_def)
qed

lemma install_result:
  assumes "install_checkpoint None root frontier db2 = Some (Inr retired, db3)"
  obtains tail where "\<not> rs_poisoned (db_state db2)" "db_tail db2 = Some tail" "db_state db3 = install_state root tail (db_state db2)"
    "db_published db3 = db_state db3" "db_tail db3 = None"
  using assms by (auto simp: install_checkpoint_def db_ready_def state_ready_def db_publish_def split: sum.splits option.splits if_splits)

lemma install_fields: "rs_root (install_state root tail st) = root" "rs_store (install_state root tail st) = rs_store st"
    "rs_catalog (install_state root tail st) = rs_catalog st" "rs_overlay (install_state root tail st) = tail"
    "rs_lsn (install_state root tail st) = rs_lsn st" "rs_poisoned (install_state root tail st) = rs_poisoned st"
  by (simp_all add: install_state_def refresh_pinned_bytes_def)

section \<open>Properties\<close>



section \<open>Concrete checkpoints\<close>


definition sample_next :: root where
  "sample_next = root_empty\<lparr>r_generation := 1, r_generations := [\<lparr>g_generation = 1, g_lsn = 0\<rparr>]\<rparr>"


end
