(* ===== verification/Cleanup.thy ===== *)
theory Cleanup
  imports Snapshots Commit
begin

text \<open>
  Models \<^verbatim>\<open>Cleanup\<close> of \<^verbatim>\<open>database.rs\<close>: after a checkpoint is installed, the files that neither it, the
  manifest before it nor a live snapshot names are deleted. A directory is a tree of named entries.
\<close>

section \<open>Directories\<close>

datatype entry = FileEntry | DirEntry "(string \<times> entry) list"

fun is_dir :: "entry \<Rightarrow> bool" where
  "is_dir FileEntry = False"
| "is_dir (DirEntry _) = True"

definition is_digit :: "char \<Rightarrow> bool" where
  "is_digit c = (48 \<le> (of_char c :: nat) \<and> (of_char c :: nat) \<le> 57)"

definition digits_value :: "string \<Rightarrow> nat" where
  "digits_value s = foldl (\<lambda>n c. n * 10 + ((of_char c :: nat) - 48)) 0 s"

definition parse_number :: "string \<Rightarrow> u64 option" where
  "parse_number s = (if length s = 20 \<and> list_all is_digit s \<and> digits_value s < 2 ^ 64 then Some (of_nat (digits_value s)) else None)"

text \<open>\<^verbatim>\<open>prune\<close>: what is left of a directory, and whether it holds a file that is kept.\<close>

fun prune :: "(string list \<Rightarrow> bool) \<Rightarrow> string list \<Rightarrow> (string \<times> entry) list \<Rightarrow> bool \<times> (string \<times> entry) list" where
  "prune keep path [] = (False, [])"
| "prune keep path ((n, FileEntry) # es) = (case prune keep path es of (used, rest) \<Rightarrow>
     if keep (path @ [n]) then (True, (n, FileEntry) # rest) else (used, rest))"
| "prune keep path ((n, DirEntry ds) # es) = (case prune keep (path @ [n]) ds of (inner, ds') \<Rightarrow>
     case prune keep path es of (used, rest) \<Rightarrow> if inner then (True, (n, DirEntry ds') # rest) else (used, rest))"

text \<open>The generations of one table, and the tables.\<close>

definition prune_generation :: "(string list \<Rightarrow> bool) \<Rightarrow> string list \<Rightarrow> string \<times> entry \<Rightarrow> (string \<times> entry) list" where
  "prune_generation keep path e = (case e of (n, DirEntry ds) \<Rightarrow>
       if parse_number n = None then [e]
       else (case prune keep (path @ [n]) ds of (used, ds') \<Rightarrow> if used then [(n, DirEntry ds')] else [])
     | _ \<Rightarrow> [e])"

definition prune_table :: "(string list \<Rightarrow> bool) \<Rightarrow> string \<times> entry \<Rightarrow> string \<times> entry" where
  "prune_table keep e = (case e of (n, DirEntry ds) \<Rightarrow>
       if parse_number n = None then e else (n, DirEntry (concat (map (prune_generation keep [''tables'', n]) ds)))
     | _ \<Rightarrow> e)"

record directory =
  dr_wal :: "(u64 \<times> bytes) list"
  dr_catalog :: "(u64 \<times> bytes) list"
  dr_tables :: "(string \<times> entry) list"

definition keep_path :: "file_id list \<Rightarrow> string list \<Rightarrow> bool" where
  "keep_path keep path = (\<exists>f \<in> set keep. file_path f = Some path)"

definition cleanup :: "u64 \<Rightarrow> u64 \<Rightarrow> file_id list \<Rightarrow> directory \<Rightarrow> directory" where
  "cleanup previous current keep d =
     d\<lparr>dr_wal := filter (\<lambda>e. \<not> fst e < previous) (dr_wal d),
       dr_catalog := filter (\<lambda>e. fst e = previous \<or> fst e = current) (dr_catalog d),
       dr_tables := map (prune_table (keep_path keep)) (dr_tables d)\<rparr>"

text \<open>
  \<^verbatim>\<open>Cleanup::run\<close>: \<open>previous\<close> is the manifest before, \<open>st\<close> the state that was installed. The page and
  descriptor caches forget what is not kept.
\<close>

definition cleanup_keep :: "root \<Rightarrow> readstate \<Rightarrow> read_world \<Rightarrow> file_id list" where
  "cleanup_keep previous st w = root_file_ids previous @ map fst (state_file_sizes st) @ fst (pinned_files w)"

definition cleanup_run :: "root \<Rightarrow> readstate \<Rightarrow> read_world \<times> 'v pager \<times> directory \<Rightarrow> read_world \<times> 'v pager \<times> directory" where
  "cleanup_run previous st x = (case x of (w, pg, d) \<Rightarrow>
     let keep = cleanup_keep previous st w in
     (snd (pinned_files w), pager_forget (\<lambda>f. f \<notin> set keep) pg, cleanup (r_generation previous) (r_generation (rs_root st)) keep d))"

section \<open>What is left\<close>

fun files_below :: "string list \<Rightarrow> (string \<times> entry) list \<Rightarrow> string list list" where
  "files_below path [] = []"
| "files_below path ((n, FileEntry) # es) = (path @ [n]) # files_below path es"
| "files_below path ((n, DirEntry ds) # es) = files_below (path @ [n]) ds @ files_below path es"

lemma prune_files:
  "files_below path (snd (prune keep path es)) = filter keep (files_below path es) \<and>
   (fst (prune keep path es) \<longleftrightarrow> (\<exists>p \<in> set (files_below path es). keep p))"
proof (induction keep path es rule: prune.induct)
  case (3 keep path n ds es)
  obtain inner ds' used rest where p: "prune keep (path @ [n]) ds = (inner, ds')" "prune keep path es = (used, rest)" by fastforce
  have "filter keep (files_below (path @ [n]) ds) = []" if "\<not> inner" using 3(1) p(1) that by (auto simp: filter_empty_conv)
  moreover have "files_below path rest = filter keep (files_below path es)" "used \<longleftrightarrow> (\<exists>p \<in> set (files_below path es). keep p)"
    using 3(2) [OF p(1) [symmetric]] p(2) by simp_all
  ultimately show ?case using 3(1) p by auto
qed (auto split: prod.splits)

lemma files_below_append [simp]: "files_below path (xs @ ys) = files_below path xs @ files_below path ys"
  by (induction path xs rule: files_below.induct) simp_all

lemma files_below_prefix: "p \<in> set (files_below path es) \<Longrightarrow> \<exists>n rest. p = path @ n # rest"
proof (induction path es rule: files_below.induct)
  case (3 path n ds es)
  from 3(3) show ?case
  proof (simp, elim disjE)
    assume "p \<in> set (files_below (path @ [n]) ds)"
    then obtain m rest where "p = (path @ [n]) @ m # rest" using 3(1) by blast
    then show ?thesis by auto
  next
    assume "p \<in> set (files_below path es)"
    then show ?thesis using 3(2) by blast
  qed
qed auto

text \<open>Which files belong to a generation, by their paths: they lie below two numbered directories.\<close>

definition in_generation :: "string list \<Rightarrow> bool" where
  "in_generation p = (case p of a # t # g # n # rest \<Rightarrow> parse_number t \<noteq> None \<and> parse_number g \<noteq> None | _ \<Rightarrow> False)"

definition left_over :: "(string list \<Rightarrow> bool) \<Rightarrow> string list \<Rightarrow> bool" where
  "left_over keep p = (in_generation p \<longrightarrow> keep p)"

lemma filter_below:
  assumes "\<And>n rest. P (path @ n # rest) = Q (path @ n # rest)"
  shows "filter P (files_below path es) = filter Q (files_below path es)"
  using assms files_below_prefix [of _ path es] by (intro filter_cong) blast+

lemma generation_files:
  assumes "parse_number t \<noteq> None"
  shows "files_below [''tables'', t] (prune_generation keep [''tables'', t] e) = filter (left_over keep) (files_below [''tables'', t] [e])"
proof (cases "snd e")
  case FileEntry
  then show ?thesis by (cases e) (simp add: prune_generation_def left_over_def in_generation_def)
next
  case (DirEntry gs)
  then obtain g where e: "e = (g, DirEntry gs)" by (cases e) simp
  show ?thesis
  proof (cases "parse_number g")
    case None
    then have "filter (left_over keep) (files_below [''tables'', t, g] gs) = filter (\<lambda>_. True) (files_below [''tables'', t, g] gs)"
      by (intro filter_below) (simp add: left_over_def in_generation_def)
    then show ?thesis using None by (simp add: e prune_generation_def)
  next
    case (Some n)
    then have "filter (left_over keep) (files_below [''tables'', t, g] gs) = filter keep (files_below [''tables'', t, g] gs)"
      using assms by (intro filter_below) (simp add: left_over_def in_generation_def)
    then show ?thesis using Some prune_files [of "[''tables'', t, g]" keep gs]
      by (auto simp: e prune_generation_def filter_empty_conv split: prod.split)
  qed
qed

lemma table_files: "files_below [''tables''] [prune_table keep e] = filter (left_over keep) (files_below [''tables''] [e])"
proof (cases "snd e")
  case FileEntry
  then show ?thesis by (cases e) (simp add: prune_table_def left_over_def in_generation_def)
next
  case (DirEntry ds)
  then obtain t where e: "e = (t, DirEntry ds)" by (cases e) simp
  show ?thesis
  proof (cases "parse_number t")
    case None
    then have "filter (left_over keep) (files_below [''tables'', t] ds) = filter (\<lambda>_. True) (files_below [''tables'', t] ds)"
      by (intro filter_below) (auto simp: left_over_def in_generation_def split: list.split)
    then show ?thesis using None by (simp add: e prune_table_def)
  next
    case (Some n)
    have "files_below [''tables'', t] (concat (map (prune_generation keep [''tables'', t]) ds)) =
        filter (left_over keep) (files_below [''tables'', t] ds)"
    proof (induction ds)
      case (Cons x xs)
      have "files_below [''tables'', t] (x # xs) = files_below [''tables'', t] [x] @ files_below [''tables'', t] xs"
        using files_below_append [of "[''tables'', t]" "[x]" xs] by simp
      then show ?case using Cons generation_files [of t keep x] Some by simp
    qed simp
    then show ?thesis using Some by (simp add: e prune_table_def)
  qed
qed

lemma tables_files: "files_below [''tables''] (map (prune_table keep) es) = filter (left_over keep) (files_below [''tables''] es)"
proof (induction es)
  case (Cons x xs)
  have "files_below [''tables''] (x # xs) = files_below [''tables''] [x] @ files_below [''tables''] xs"
      "files_below [''tables''] (prune_table keep x # map (prune_table keep) xs) =
        files_below [''tables''] [prune_table keep x] @ files_below [''tables''] (map (prune_table keep) xs)"
    using files_below_append [of "[''tables'']" "[x]" xs]
      files_below_append [of "[''tables'']" "[prune_table keep x]" "map (prune_table keep) xs"] by simp_all
  then show ?case using Cons table_files [of keep x] by simp
qed simp

section \<open>Properties\<close>


section \<open>A concrete directory\<close>

definition sample_installed :: readstate where
  "sample_installed = (sample_readstate (open_store (\<lambda>_. None)))\<lparr>rs_root := root_empty\<lparr>r_generation := 2,
     r_files := [\<lparr>fi_generation = 2, fi_table = 1, fi_kind = 0, fi_segment = 0, fi_size = 0, fi_crc = 0\<rparr>]\<rparr>\<rparr>"

definition sample_directory :: directory where
  "sample_directory = \<lparr>dr_wal = [(0, [1]), (2, [2])], dr_catalog = [(0, [3]), (1, [4]), (2, [5])], dr_tables = [(pad20 1, DirEntry
     [(pad20 1, DirEntry [(''current.pages'', FileEntry)]), (pad20 2, DirEntry [(''current.pages'', FileEntry)])])]\<rparr>"

lemma sample_numbers: "pad20 1 = ''00000000000000000001''" "pad20 2 = ''00000000000000000002''"
    "parse_number (pad20 1) = Some 1" "parse_number (pad20 2) = Some 2"
proof -
  show p: "pad20 1 = ''00000000000000000001''" "pad20 2 = ''00000000000000000002''"
    by code_simp+
  show "parse_number (pad20 1) = Some 1" "parse_number (pad20 2) = Some 2"
    unfolding p by (simp_all add: parse_number_def is_digit_def digits_value_def)
qed


end
