(* ===== verification/Cursors.thy ===== *)
theory Cursors
  imports Snapshots
begin

text \<open>
  Models \<^verbatim>\<open>cursor.rs\<close>: the events of an entity are read in batches from one snapshot, each bounded in
  events and bytes. The cancellation token is shared with other threads: \<open>cancelled\<close> gives what its
  readings find in turn, \<open>clock\<close> the instants of the readings of the clock.
\<close>

section \<open>Options, batches and cursors\<close>

definition token_check :: "bool \<Rightarrow> unit res" where
  "token_check cancelled = (if cancelled then Inl Cancelled else Inr ())"

record history_options =
  ho_first_version :: "u64 option"
  ho_last_version :: "u64 option"
  ho_max_events :: nat
  ho_max_bytes :: nat

definition history_options_default :: history_options where
  "history_options_default = \<lparr>ho_first_version = None, ho_last_version = None, ho_max_events = 256, ho_max_bytes = 1024 * 1024\<rparr>"

record history_batch =
  hb_events :: "event list"
  hb_bytes :: nat

definition batch_len :: "history_batch \<Rightarrow> nat" where "batch_len b = length (hb_events b)"
definition batch_is_empty :: "history_batch \<Rightarrow> bool" where "batch_is_empty b = (hb_events b = [])"

text \<open>\<open>hc_snapshot\<close>: whether the cursor still holds its clone of the snapshot, which is passed to it.\<close>

record history_cursor =
  hc_deadline :: "instant option"
  hc_snapshot :: bool
  hc_table :: u64
  hc_id :: u64
  hc_next :: "u64 option"
  hc_last :: u64
  hc_options :: history_options

section \<open>Filling a batch\<close>

text \<open>
  What the closures of \<^verbatim>\<open>read_batch\<close> share. \<open>bp_size\<close> is the size the last event was admitted with, which
  its reservation holds; \<open>bp_ticks\<close> counts the readings of the token and the clock.
\<close>

record batch_progress =
  bp_total :: nat
  bp_expected :: "u64 option"
  bp_events :: "event list"
  bp_size :: nat
  bp_ticks :: nat

definition batch_check :: "(nat \<Rightarrow> bool) \<Rightarrow> (nat \<Rightarrow> instant) \<Rightarrow> instant \<Rightarrow> batch_progress \<Rightarrow> batch_progress res" where
  "batch_check cancelled clock end_at s =
     res_bind (token_check (cancelled (bp_ticks s))) (\<lambda>_.
     res_bind (deadline_check (Some end_at) (clock (bp_ticks s))) (\<lambda>_. Inr (s\<lparr>bp_ticks := bp_ticks s + 1\<rparr>)))"

text \<open>A sum that overflows is above every bound, so the checked additions are one comparison.\<close>

definition batch_admit :: "store \<Rightarrow> (nat \<Rightarrow> bool) \<Rightarrow> (nat \<Rightarrow> instant) \<Rightarrow> instant \<Rightarrow> nat \<Rightarrow> nat \<Rightarrow> batch_progress \<Rightarrow> (bool \<times> batch_progress) res" where
  "batch_admit st cancelled clock end_at max_bytes n s =
     res_bind (batch_check cancelled clock end_at s) (\<lambda>s.
       if bp_total s + (n + st_event_size st) > max_bytes
       then (if bp_total s = 0 then Inl (LimitExceeded ''history batch bytes'' max_bytes) else Inr (False, s))
       else res_bind (st_decoded st (st_event_size st)) (\<lambda>_. Inr (True, s\<lparr>bp_size := n\<rparr>)))"

definition batch_visit :: "store \<Rightarrow> u64 \<Rightarrow> nat \<Rightarrow> event \<Rightarrow> batch_progress \<Rightarrow> (bool \<times> batch_progress) res" where
  "batch_visit st end_version max_events ev s =
     (if Some (ev_version ev) \<noteq> bp_expected s then Inl (Corrupt ''gap in cursor history'')
      else let s = s\<lparr>bp_expected := (if ev_version ev = end_version then None else checked_add64 (ev_version ev) 1),
                bp_total := bp_total s + bp_size s + st_event_size st, bp_events := bp_events s @ [ev]\<rparr> in
        Inr (length (bp_events s) < max_events, s))"

definition batch_start :: "u64 \<Rightarrow> batch_progress" where
  "batch_start low = \<lparr>bp_total = 0, bp_expected = Some low, bp_events = [], bp_size = 0, bp_ticks = 0\<rparr>"

definition batch_finish :: "(nat \<Rightarrow> bool) \<Rightarrow> bool \<Rightarrow> batch_progress \<Rightarrow> (history_batch \<times> u64 option) res" where
  "batch_finish cancelled complete s =
     res_bind (token_check (cancelled (bp_ticks s))) (\<lambda>_.
       if complete \<and> bp_expected s \<noteq> None then Inl (Corrupt ''truncated cursor history'')
       else if bp_events s = [] then Inl (Corrupt ''empty unfinished history batch'')
       else Inr (\<lparr>hb_events = bp_events s, hb_bytes = bp_total s\<rparr>, bp_expected s))"

definition fill_batch :: "(nat \<Rightarrow> bool) \<Rightarrow> (nat \<Rightarrow> instant) \<Rightarrow> history_cursor \<Rightarrow> u64 \<Rightarrow> readstate \<Rightarrow> instant \<Rightarrow>
    (history_batch \<times> u64 option) res" where
  "fill_batch cancelled clock c low st end_at =
     (let end_at = (case hc_deadline c of None \<Rightarrow> end_at | Some d \<Rightarrow> min d end_at); options = hc_options c; store = rs_store st in
      res_bind (deadline_check (Some end_at) (clock 0)) (\<lambda>_.
      res_bind (st_decoded store 0) (\<lambda>_.
      res_bind (state_visit_events st (hc_table c) (hc_id c) low (hc_last c) (batch_check cancelled clock end_at)
          (batch_admit store cancelled clock end_at (ho_max_bytes options)) (batch_visit store (hc_last c) (ho_max_events options))
          (batch_start low)) (\<lambda>(complete, s). batch_finish cancelled complete s))))"

definition read_batch :: "instant \<Rightarrow> (nat \<Rightarrow> instant) \<Rightarrow> read_world \<Rightarrow> (nat \<Rightarrow> bool) \<Rightarrow> (nat \<Rightarrow> instant) \<Rightarrow> history_cursor \<Rightarrow> read_snapshot \<Rightarrow>
    (history_batch option res \<times> history_cursor) \<times> read_snapshot" where
  "read_batch instant_max outer w cancelled clock c s = (case hc_next c of
       None \<Rightarrow> ((Inr None, c), s)
     | Some low \<Rightarrow>
         (case token_check (cancelled 0) of Inl e \<Rightarrow> ((Inl e, c), s) | Inr _ \<Rightarrow>
          if \<not> hc_snapshot c then ((Inl (Corrupt ''cursor lost its snapshot''), c), s)
          else (case snapshot_with_state instant_max outer w (\<lambda>st end_at s.
                (fill_batch (\<lambda>n. cancelled (Suc n)) clock c low st end_at, s)) s of
              (Inl e, s) \<Rightarrow> ((Inl e, c), s)
            | (Inr (b, n), s) \<Rightarrow> ((Inr (Some b), c\<lparr>hc_next := n\<rparr>), s))))"

text \<open>After an error or the last batch the cursor is closed.\<close>

definition next_batch :: "instant \<Rightarrow> (nat \<Rightarrow> instant) \<Rightarrow> read_world \<Rightarrow> (nat \<Rightarrow> bool) \<Rightarrow> (nat \<Rightarrow> instant) \<Rightarrow> history_cursor \<Rightarrow> read_snapshot \<Rightarrow>
    (history_batch option res \<times> history_cursor) \<times> read_snapshot" where
  "next_batch instant_max outer w cancelled clock c s =
     (case read_batch instant_max outer w cancelled clock c s of ((r, c), s) \<Rightarrow>
        ((r, if (\<exists>e. r = Inl e) \<or> hc_next c = None then c\<lparr>hc_snapshot := False, hc_next := None\<rparr> else c), s))"

section \<open>Opening a cursor\<close>

definition history_open :: "limits \<Rightarrow> u64 \<Rightarrow> u64 \<Rightarrow> history_options \<Rightarrow> u64 \<Rightarrow> u64 \<Rightarrow> history_cursor res" where
  "history_open l table ent options base current =
     (let options = options\<lparr>ho_max_events := min (ho_max_events options) (max_history_batch_events l),
            ho_max_bytes := min (ho_max_bytes options) (max_history_batch_bytes l)\<rparr>;
          available = (case checked_add64 base 1 of Some v \<Rightarrow> if v \<le> current then Some v else None | None \<Rightarrow> None);
          requests = (case ho_first_version options of Some v \<Rightarrow> [v] | None \<Rightarrow> []) @ (case ho_last_version options of Some v \<Rightarrow> [v] | None \<Rightarrow> []) in
      res_bind (res_fold (\<lambda>v u.
          if (case available of None \<Rightarrow> True | Some low \<Rightarrow> v < low) \<or> v > current
          then Inl (VersionUnavailable v (saturating_add64 base 1) current) else Inr ()) requests ()) (\<lambda>_.
      let low = (case ho_first_version options of Some v \<Rightarrow> Some v | None \<Rightarrow> available);
          high = (case ho_last_version options of Some v \<Rightarrow> v | None \<Rightarrow> current) in
      if (case low of Some v \<Rightarrow> v > high | None \<Rightarrow> False) then Inl (Invalid ''history range is reversed'')
      else Inr \<lparr>hc_deadline = None, hc_snapshot = (low \<noteq> None), hc_table = table, hc_id = ent, hc_next = low, hc_last = high,
         hc_options = options\<rparr>))"

definition snapshot_history :: "instant \<Rightarrow> (nat \<Rightarrow> instant) \<Rightarrow> (nat \<Rightarrow> instant) \<Rightarrow> read_world \<Rightarrow> bool \<Rightarrow> u64 \<Rightarrow> u64 \<Rightarrow> history_options \<Rightarrow>
    read_snapshot \<Rightarrow> history_cursor res \<times> read_snapshot" where
  "snapshot_history instant_max clock again w cancelled table ent options s =
     (case token_check cancelled of Inl e \<Rightarrow> (Inl e, s) | Inr _ \<Rightarrow>
      if ho_max_events options = 0 \<or> ho_max_bytes options = 0 then (Inl (Invalid ''history batch limits must be positive''), s)
      else (case snapshot_retained_range instant_max clock w table ent s of
          (Inl e, s) \<Rightarrow> (Inl e, s)
        | (Inr (base, current), s) \<Rightarrow> (case snapshot_state again w s of
              (Inl e, s) \<Rightarrow> (Inl e, s)
            | (Inr st, s) \<Rightarrow> (history_open (rs_limits st) table ent options base current, s))))"

text \<open>\<^verbatim>\<open>Reader::history\<close>: the pin lives on in the cursor, unless there is nothing to read.\<close>

definition reader_history :: "instant \<Rightarrow> instant \<Rightarrow> nat \<Rightarrow> (nat \<Rightarrow> instant) \<Rightarrow> (nat \<Rightarrow> instant) \<Rightarrow> bool \<Rightarrow> u64 \<Rightarrow> u64 \<Rightarrow> history_options \<Rightarrow> read_world \<Rightarrow>
    (history_cursor \<times> read_snapshot) res \<times> read_world" where
  "reader_history instant_max now i clock again cancelled table ent options w = (case reader_pin instant_max now i w of
       (Inl e, w) \<Rightarrow> (Inl e, w)
     | (Inr s, w) \<Rightarrow> (case snapshot_history instant_max clock again w cancelled table ent options s of
           (Inl e, _) \<Rightarrow> (Inl e, release_snapshot i w)
         | (Inr c, s) \<Rightarrow> (Inr (c, s), if hc_snapshot c then w else release_snapshot i w)))"

section \<open>Collecting all events\<close>

text \<open>What the closures keep, every visit keeps.\<close>

lemma event_at_if_kept:
  assumes "\<And>n s s' b. P s \<Longrightarrow> admit n s = Inr (b, s') \<Longrightarrow> P s'" "event_at_if r st table location admit s = Inr (x, s')" "P s"
  shows "P s'"
  using assms(2) by (auto simp: event_at_if_def Let_def res_simps split: prod.splits if_splits dest: assms(1) [OF assms(3)])

lemma visit_items_kept:
  assumes P: "\<And>s s'. P s \<Longrightarrow> check s = Inr s' \<Longrightarrow> P s'" "\<And>n s s' b. P s \<Longrightarrow> admit n s = Inr (b, s') \<Longrightarrow> P s'"
      "\<And>e s s' b. P s \<Longrightarrow> visit e s = Inr (b, s') \<Longrightarrow> P s'"
  shows "visit_items r st table ent check admit visit items s = Inr (b, s') \<Longrightarrow> P s \<Longrightarrow> P s'"
proof (induction items arbitrary: s)
  case (Cons item items)
  from Cons.prems(1) obtain s1 k l x s2 where 1: "check s = Inr s1" "item = Inr (k, l)" "event_at_if r st table l admit s1 = Inr (x, s2)"
    by (auto simp: res_simps)
  have P2: "P s2" by (rule event_at_if_kept [where P = P, OF P(2) 1(3) P(1) [OF Cons.prems(2) 1(1)]])
  then show ?case using Cons.prems(1) 1 Cons.IH
    by (auto simp: res_simps dest!: P(3) [OF P2] split: option.splits if_splits)
qed simp

lemma visit_memory_kept:
  assumes P: "\<And>s s'. P s \<Longrightarrow> check s = Inr s' \<Longrightarrow> P s'" "\<And>n s s' b. P s \<Longrightarrow> admit n s = Inr (b, s') \<Longrightarrow> P s'"
      "\<And>e s s' b. P s \<Longrightarrow> visit e s = Inr (b, s') \<Longrightarrow> P s'"
  shows "visit_memory st check admit visit es s = Inr (b, s') \<Longrightarrow> P s \<Longrightarrow> P s'"
proof (induction es arbitrary: s)
  case (Cons e es)
  from Cons.prems(1) obtain s1 go s2 where 1: "check s = Inr s1" "admit (event_bytes st e) s1 = Inr (go, s2)"
    by (auto simp: res_simps)
  then have P2: "P s2" using P(2) [OF _ 1(2)] P(1) [OF Cons.prems(2) 1(1)] by blast
  then show ?case using Cons.prems(1) 1 Cons.IH
    by (auto simp: res_simps dest!: P(3) [OF P2] split: if_splits)
qed simp

lemma state_visit_kept:
  fixes s :: 's
  assumes P: "\<And>s s'. P s \<Longrightarrow> check s = Inr s' \<Longrightarrow> P s'" "\<And>n s s' b. P s \<Longrightarrow> admit n s = Inr (b, s') \<Longrightarrow> P s'"
      "\<And>e s s' b. P s \<Longrightarrow> visit e s = Inr (b, s') \<Longrightarrow> P s'"
    and run: "state_visit_events st table ent low high check admit visit s = Inr (b, s')" "P s"
  shows "P s'"
proof -
  have items: "visit_items r st table ent check admit visit items s = Inr (b, s') \<Longrightarrow> P s \<Longrightarrow> P s'" for r st table ent items s b s'
    by (rule visit_items_kept [where P = P and check = check and admit = admit and visit = visit, rotated 3], assumption+) (erule P, assumption)+
  have memory: "visit_memory st check admit visit es s = Inr (b, s') \<Longrightarrow> P s \<Longrightarrow> P s'" for st es s b s'
    by (rule visit_memory_kept [where P = P and check = check and admit = admit and visit = visit, rotated 3], assumption+) (erule P, assumption)+
  show ?thesis
  proof (cases "overlay_get (rs_overlay st) (table, ent)")
    case None
    then show ?thesis using run items by (auto simp: state_visit_events_def root_visit_events_def res_simps)
  next
    case (Some d)
    then have "entity_visit_events d (rs_store st) low high check admit visit s = Inr (b, s')"
      using run(1) by (auto simp: state_visit_events_def res_simps)
    then obtain x where x: "(case ed_disk d of None \<Rightarrow> Inr (True, s)
         | Some disk \<Rightarrow> if low \<le> min high (dh_through disk)
             then root_visit_events (dh_root disk) (dh_pager disk) (dh_table disk) (en_id (ed_current d)) low
               (min high (dh_through disk)) check admit visit s
             else Inr (True, s)) = Inr x"
        and rest: "(case x of (go, s) \<Rightarrow> if \<not> go then Inr (False, s) else visit_memory (rs_store st) check admit visit
           (map snd (om_range_list (ed_committed d) (Included low) (Included high)) @
            filter (\<lambda>e. low \<le> ev_version e \<and> ev_version e \<le> high) (ed_events d)) s) = Inr (b, s')"
      unfolding entity_visit_events_def res_bind_Inr_iff by blast
    obtain go s1 where go: "x = (go, s1)" by (cases x)
    note 1 = x [unfolded go] and 2 = rest [unfolded go prod.case]
    have "P s1"
    proof (cases "\<exists>k. ed_disk d = Some k \<and> low \<le> min high (dh_through k)")
      case True
      then obtain k where k: "ed_disk d = Some k" "low \<le> min high (dh_through k)" by blast
      from 1 [unfolded k(1) option.case if_P [OF k(2)] root_visit_events_def] run(2) show ?thesis using items by blast
    next
      case False
      then have "Inr (go, s1) = (Inr (True, s) :: (bool \<times> 's) res)" using 1 by (cases "ed_disk d") (auto split: if_splits)
      then show ?thesis using run(2) by simp
    qed
    show ?thesis
    proof (cases go)
      case True
      from 2 True have "visit_memory (rs_store st) check admit visit (map snd (om_range_list (ed_committed d) (Included low) (Included high)) @
          filter (\<lambda>e. low \<le> ev_version e \<and> ev_version e \<le> high) (ed_events d)) s1 = Inr (b, s')"
        by (simp only: not_True_eq_False if_False)
      then show ?thesis using \<open>P s1\<close> by (rule memory)
    next
      case False
      then show ?thesis using 2 \<open>P s1\<close> by simp
    qed
  qed
qed

definition batch_moves :: "u64 \<Rightarrow> batch_progress \<Rightarrow> bool" where
  "batch_moves low s = (case bp_expected s of None \<Rightarrow> True | Some n \<Rightarrow> low \<le> n \<and> (bp_events s \<noteq> [] \<longrightarrow> low < n))"

lemma checked_add64_less: "checked_add64 a 1 = Some n \<Longrightarrow> b \<le> a \<Longrightarrow> b < n \<and> b \<le> n"
  by (auto simp: checked_add64_def word_less_nat_alt word_le_nat_alt unat_word_ariths split: if_splits)

lemma fill_batch_next:
  assumes "fill_batch cancelled clock c low st end_at = Inr (b, Some n)"
  shows "low < n"
proof -
  obtain complete s where s: "bp_expected s = Some n" "bp_events s \<noteq> []" and P: "batch_moves low s"
  proof -
    from assms obtain complete s e where run: "state_visit_events st (hc_table c) (hc_id c) low (hc_last c) (batch_check cancelled clock e)
          (batch_admit (rs_store st) cancelled clock e (ho_max_bytes (hc_options c)))
          (batch_visit (rs_store st) (hc_last c) (ho_max_events (hc_options c))) (batch_start low) = Inr (complete, s)"
        and fin: "batch_finish cancelled complete s = Inr (b, Some n)"
      by (auto simp: fill_batch_def Let_def res_simps)
    have "batch_moves low s"
    proof (rule state_visit_kept [where P = "batch_moves low", OF _ _ _ run])
      show "batch_moves low s'" if "batch_moves low s" "batch_check cancelled clock e s = Inr s'" for s s'
        using that by (auto simp: batch_check_def batch_moves_def res_simps split: option.splits)
      show "batch_moves low s'" if "batch_moves low s" "batch_admit (rs_store st) cancelled clock e (ho_max_bytes (hc_options c)) m s = Inr (go, s')" for m s s' go
        using that by (auto simp: batch_admit_def batch_check_def batch_moves_def res_simps split: if_splits option.splits)
      show "batch_moves low s'" if "batch_moves low s" "batch_visit (rs_store st) (hc_last c) (ho_max_events (hc_options c)) ev s = Inr (go, s')" for ev s s' go
      proof -
        have "low \<le> ev_version ev" "bp_expected s' = (if ev_version ev = hc_last c then None else checked_add64 (ev_version ev) 1)"
          using that by (auto simp: batch_visit_def batch_moves_def Let_def split: if_splits option.splits)
        then show ?thesis by (auto simp: batch_moves_def split: option.split dest: checked_add64_less)
      qed
    qed (simp add: batch_start_def batch_moves_def)
    then show ?thesis using that fin by (auto simp: batch_finish_def res_simps split: if_splits)
  qed
  then show ?thesis by (simp add: batch_moves_def)
qed

lemma next_batch_cases:
  assumes "next_batch instant_max outer w cancelled clock c s = ((r, c'), s')" "r = Inr (Some b)"
  obtains low n st end_at where "hc_next c = Some low" "fill_batch (\<lambda>n. cancelled (Suc n)) clock c low st end_at = Inr (b, n)"
    "fst (snapshot_state outer w s) = Inr st" "hc_next c' = n" "hc_snapshot c" "cancelled 0 = False"
    "c' = (if n = None then c\<lparr>hc_snapshot := False, hc_next := None\<rparr> else c\<lparr>hc_next := n\<rparr>)"
  using assms
  by (auto simp: next_batch_def read_batch_def snapshot_with_state_def token_check_def res_simps split: option.splits sum.splits prod.splits if_splits)

text \<open>
  The readings of the clock while all events are collected: in the loop, when a batch takes the
  snapshot, and within a batch.
\<close>

record collect_clock =
  cc_loop :: "nat \<Rightarrow> instant"
  cc_state :: "nat \<Rightarrow> nat \<Rightarrow> instant"
  cc_batch :: "nat \<Rightarrow> nat \<Rightarrow> instant"

text \<open>A batch that does not fit what is left of the result says so.\<close>

definition collect_error :: "limits \<Rightarrow> nat \<Rightarrow> error \<Rightarrow> error" where
  "collect_error l remaining e = (case e of
       LimitExceeded name _ \<Rightarrow> if name = ''history batch bytes'' \<and> remaining \<le> max_history_batch_bytes l
         then LimitExceeded ''read result bytes'' (max_read_result_bytes l) else e
     | _ \<Rightarrow> e)"

definition collect_limit :: "limits \<Rightarrow> nat \<Rightarrow> history_cursor \<Rightarrow> history_cursor" where
  "collect_limit l remaining c = c\<lparr>hc_options := (hc_options c)\<lparr>ho_max_bytes := min remaining (max_history_batch_bytes l)\<rparr>\<rparr>"

function collect_loop :: "instant \<Rightarrow> collect_clock \<Rightarrow> read_world \<Rightarrow> limits \<Rightarrow> instant \<Rightarrow> nat \<Rightarrow> history_batch list \<Rightarrow> nat \<Rightarrow> history_cursor \<Rightarrow> read_snapshot \<Rightarrow>
    history_batch list res \<times> read_snapshot" where
  "collect_loop instant_max cc w l end_at i batches used c s =
     (if hc_next c = None then (Inr batches, s)
      else (case deadline_check (Some end_at) (cc_loop cc i) of Inl e \<Rightarrow> (Inl e, s) | Inr _ \<Rightarrow>
        let remaining = max_read_result_bytes l - used in
        if remaining = 0 then (Inl (LimitExceeded ''read result bytes'' (max_read_result_bytes l)), s)
        else (case next_batch instant_max (cc_state cc i) w (\<lambda>_. False) (cc_batch cc i) (collect_limit l remaining c) s of
            ((Inl e, c), s) \<Rightarrow> (Inl (collect_error l remaining e), s)
          | ((Inr None, c), s) \<Rightarrow> (Inr batches, s)
          | ((Inr (Some b), c), s) \<Rightarrow> (case limit_check ''read result bytes'' used (hb_bytes b) (max_read_result_bytes l) of
                Inl e \<Rightarrow> (Inl e, s)
              | Inr _ \<Rightarrow> collect_loop instant_max cc w l end_at (Suc i) (batches @ [b]) (used + hb_bytes b) c s))))"
  by pat_completeness auto

text \<open>The loop ends: each batch moves the cursor to a higher version.\<close>

termination collect_loop
proof (relation "measure (\<lambda>(_, _, _, _, _, _, _, _, c, _). case hc_next c of None \<Rightarrow> 0 | Some n \<Rightarrow> 2 ^ 64 - unat n)", simp, goal_cases)
  case (1 instant_max cc w l end_at i batches used c s u remaining rc s' r c' bo b v)
  obtain low n where "hc_next (collect_limit l remaining c) = Some low" "hc_next c' = n" "n = None \<or> (\<exists>m. n = Some m \<and> low < m)"
  proof (rule next_batch_cases)
    show "next_batch instant_max (cc_state cc i) w (\<lambda>_. False) (cc_batch cc i) (collect_limit l remaining c) s = ((Inr (Some b), c'), s')"
      using 1 by simp
    show "Inr (Some b) = Inr (Some b)" ..
    fix low n st end_at'
    assume "hc_next (collect_limit l remaining c) = Some low" "hc_next c' = n"
      "fill_batch (\<lambda>n. False) (cc_batch cc i) (collect_limit l remaining c) low st end_at' = Inr (b, n)"
    then show thesis using that fill_batch_next by (cases n) auto
  qed
  then show ?case using unat_less_u64 by (auto simp: collect_limit_def word_less_nat_alt intro!: diff_less_mono2)
qed

declare collect_loop.simps [simp del]

text \<open>
  \<open>result_size\<close> is what one event of the result takes: \<^verbatim>\<open>Event\<close> and an optional reservation. Failing
  allocations are not modelled.
\<close>

definition collect_result :: "store \<Rightarrow> nat \<Rightarrow> history_batch list \<Rightarrow> event list res" where
  "collect_result st result_size batches =
     (let n = sum_list (map batch_len batches) in
      if n * result_size \<ge> 2 ^ 64 then Inl (Corrupt ''read result size overflow'')
      else res_bind (st_decoded st (n * result_size)) (\<lambda>_. Inr (concat (map hb_events batches))))"

definition collect_events :: "instant \<Rightarrow> (nat \<Rightarrow> instant) \<Rightarrow> (nat \<Rightarrow> instant) \<Rightarrow> (nat \<Rightarrow> instant) \<Rightarrow> collect_clock \<Rightarrow> nat \<Rightarrow> read_world \<Rightarrow> u64 \<Rightarrow> u64 \<Rightarrow>
    read_snapshot \<Rightarrow> event list res \<times> read_snapshot" where
  "collect_events instant_max outer inner again cc result_size w table ent s =
     snapshot_with_state instant_max outer w (\<lambda>st end_at s.
       (case snapshot_history instant_max inner again w False table ent
            (history_options_default\<lparr>ho_max_bytes := max_history_batch_bytes (rs_limits st)\<rparr>) s of
          (Inl e, s) \<Rightarrow> (Inl e, s)
        | (Inr c, s) \<Rightarrow> (case collect_loop instant_max cc w (rs_limits st) end_at 0 [] 0 (c\<lparr>hc_deadline := Some end_at\<rparr>) s of
              (r, s) \<Rightarrow> (res_bind r (collect_result (rs_store st) result_size), s)))) s"

end
