(* ===== verification/Cursor_Laws.thy ===== *)
theory Cursor_Laws
  imports Cursors Entity_Data_Laws
begin

text \<open>
  The laws of cursors: a visit offers the events of the versions asked for in their order, wherever
  they are kept, so a batch is a run of them within its bounds, batches follow on each other without
  gap or repetition, and collecting gives every retained event.
\<close>

section \<open>What a visit offers\<close>

text \<open>The size an event read from a checkpoint is admitted with.\<close>

definition event_size_at :: "root \<Rightarrow> store \<Rightarrow> u64 \<Rightarrow> index_value \<Rightarrow> nat" where
  "event_size_at r st table location =
     (case event_at_if r st table location (\<lambda>n _. Inr (False, n)) 0 of Inr (_, n) \<Rightarrow> n | Inl _ \<Rightarrow> 0)"

lemma event_at_admits:
  assumes "event_at r st table location = Inr x"
  shows "event_at_if r st table location admit s =
    res_bind (admit (event_size_at r st table location) s) (\<lambda>(go, s). Inr (if go then Some x else None, s))"
proof -
  have "event_at_if r st table location (\<lambda>_ s. Inr (True, s)) () = Inr (Some x, ())"
    using assms by (auto simp: event_at_def res_simps)
  then show ?thesis
    unfolding event_at_if_def event_size_at_def
    by (auto simp: Let_def res_simps split: if_splits prod.splits intro!: res_bind_cong)
qed

text \<open>An offered event: its size, whether memory for it is granted, the event.\<close>

type_synonym offered = "nat \<times> unit res \<times> event"

fun offer :: "('s \<Rightarrow> 's res) \<Rightarrow> (nat \<Rightarrow> 's \<Rightarrow> (bool \<times> 's) res) \<Rightarrow> (event \<Rightarrow> 's \<Rightarrow> (bool \<times> 's) res) \<Rightarrow> offered list \<Rightarrow> 's \<Rightarrow> (bool \<times> 's) res" where
  "offer check admit visit [] s = Inr (True, s)"
| "offer check admit visit ((n, d, e) # es) s =
     res_bind (check s) (\<lambda>s.
     res_bind (admit n s) (\<lambda>(go, s).
     if \<not> go then Inr (False, s)
     else res_bind d (\<lambda>_.
       res_bind (visit e s) (\<lambda>(go, s). if \<not> go then Inr (False, s) else offer check admit visit es s))))"

lemma offer_append: "offer check admit visit (xs @ ys) s =
    res_bind (offer check admit visit xs s) (\<lambda>(go, s). if \<not> go then Inr (False, s) else offer check admit visit ys s)"
  by (induction check admit visit xs s rule: offer.induct) (auto simp: case_prod_unfold intro!: res_bind_cong)

lemma visit_memory_offer:
  "visit_memory st check admit visit es s = offer check admit visit (map (\<lambda>e. (event_bytes st e, st_decoded st (event_bytes st e), e)) es) s"
  by (induction es arbitrary: s) (auto simp: case_prod_unfold intro!: res_bind_cong)

lemma visit_items_offer:
  assumes "\<And>n. n \<in> set ns \<Longrightarrow> event_at_version r st table ent def S ev loc (of_nat n)"
  shows "visit_items r st table ent check admit visit (map (\<lambda>n. Inr ((ent, of_nat n), loc (of_nat n))) ns) s =
    offer check admit visit (map (\<lambda>n. (event_size_at r st table (loc (of_nat n)), Inr (), ev (of_nat n))) ns) s"
  using assms
proof (induction ns arbitrary: s)
  case (Cons n ns)
  have at: "event_at r st table (loc (of_nat n)) = Inr (ent, ev (of_nat n), ev_transaction (ev (of_nat n)))"
      "ev_version (ev (of_nat n)) = of_nat n" "\<not> ev_transaction (ev (of_nat n)) > r_lsn r"
    using Cons.prems [of n] by (auto simp: event_at_version_def)
  show ?case using Cons at(2,3)
    by (auto simp: event_at_admits [OF at(1)] case_prod_unfold intro!: res_bind_cong)
qed simp

section \<open>The events of a checkpoint and of an entity in memory\<close>

definition offers :: "store \<Rightarrow> (u64 \<Rightarrow> event) \<Rightarrow> nat \<Rightarrow> nat \<Rightarrow> offered list \<Rightarrow> bool" where
  "offers st ev a b es = (map (snd \<circ> snd) es = map (\<lambda>n. ev (of_nat n)) [a..<b] \<and>
     (\<forall>x \<in> set es. fst (snd x) = Inr () \<or> (\<exists>n. fst (snd x) = st_decoded st n)))"

lemma root_visit_offer:
  assumes h: "history_ok r st table ent def base cur S ev" and v: "base < low" "low \<le> high" "high \<le> cur"
  shows "\<exists>es. offers st' ev (unat low) (Suc (unat high)) es \<and>
    root_visit_events r st table ent low high check admit visit s = offer check admit visit es s"
proof -
  obtain ts loc where ts: "root_holds (r, st, table, 4) ts"
      "\<And>v. base < v \<Longrightarrow> v \<le> cur \<Longrightarrow> map_of ts (ent, v) = Some (loc v) \<and> event_at_version r st table ent def S ev loc v"
    using h unfolding history_ok_def by blast
  have pos: "0 < unat low" using v(1) by (simp add: word_less_nat_alt)
  have b: "unat (low - 1) = unat low - 1" by (rule unat_minus_one) (use pos in auto)
  then have less: "low - 1 < high" "low - 1 + 1 = low" "Suc (unat (low - 1)) = unat low"
    using v(2) pos by (simp_all add: word_less_nat_alt word_le_nat_alt)
  have "range_list ts (ent, low - 1 + 1) (ent, high) = version_entries ent loc (low - 1) high"
  proof (rule range_versions [OF root_index.holds_ok [OF ts(1)] less(1)])
    fix w assume "low - 1 < w" "w \<le> high"
    then have "base < w" "w \<le> cur" using b v(1,3) by (auto simp: word_less_nat_alt word_le_nat_alt)
    then show "map_of ts (ent, w) = Some (loc w)" using ts(2) by blast
  qed
  then have "scan_index r st table 4 (ent, low) (ent, high) = map Inr (version_entries ent loc (low - 1) high)"
    using root_index.items_holds [OF ts(1)] less(2) by (simp add: root_items_def)
  then have items: "scan_index r st table 4 (ent, low) (ent, high) = map (\<lambda>n. Inr ((ent, of_nat n), loc (of_nat n))) [unat low..<Suc (unat high)]"
    unfolding version_entries_def less(3) by simp
  have "event_at_version r st table ent def S ev loc (of_nat n)" if "n \<in> set [unat low..<Suc (unat high)]" for n
  proof -
    have "unat (of_nat n :: u64) = n" using that unat_less_u64 [of high] by (auto simp: unat_of_nat)
    then have "base < of_nat n" "of_nat n \<le> cur" using that v by (auto simp: word_less_nat_alt word_le_nat_alt)
    then show ?thesis using ts(2) by blast
  qed
  from visit_items_offer [of "[unat low..<Suc (unat high)]", OF this] show ?thesis
    by (intro exI [of _ "map (\<lambda>n. (event_size_at r st table (loc (of_nat n)), Inr (), ev (of_nat n))) [unat low..<Suc (unat high)]"])
      (auto simp: root_visit_events_def items offers_def)
qed

text \<open>The versions kept in three places, one after the other.\<close>

lemma upt_three: "D \<le> C \<Longrightarrow> L \<le> Suc H \<Longrightarrow>
    [L..<Suc (min H D)] @ [max L (Suc D)..<Suc (min H C)] @ [max L (Suc C)..<Suc H] = [L..<Suc H]"
proof -
  assume a: "D \<le> C" "L \<le> Suc H"
  have two: "[L..<Suc (min H X)] @ [max L (Suc X)..<Suc H] = [L..<Suc H]" if "L \<le> Suc H" for X H
  proof (cases "X \<le> H \<and> L \<le> Suc X")
    case True
    then show ?thesis using upt_add_eq_append [of L "Suc X" "H - X"] by (simp add: min_def max_def del: upt_Suc)
  next
    case False
    then show ?thesis using that by (auto simp: min_def max_def not_le simp del: upt_Suc)
  qed
  have "[L..<Suc (min H D)] @ [max L (Suc D)..<Suc (min H C)] = [L..<Suc (min H C)]"
  proof (cases "L \<le> Suc (min H C)")
    case True
    have "min (min H C) D = min H D" using a(1) by simp
    then show ?thesis using two [OF True, of D] by simp
  next
    case False
    then show ?thesis using a by (simp add: min_def max_def split: if_splits)
  qed
  then show ?thesis using two [OF a(2), of C] by (simp only: append_assoc [symmetric])
qed

lemma committed_versions:
  fixes t :: "(u64, event) link"
  assumes inv: "om_inv t" and none: "\<And>w e. om_get t w = Some e \<Longrightarrow> low \<le> w \<Longrightarrow> D < w \<and> w \<le> C \<and> e = ev w"
    and some: "\<And>w. D < w \<Longrightarrow> low \<le> w \<Longrightarrow> w \<le> C \<Longrightarrow> om_get t w = Some (ev w)" and low: "0 < low"
  shows "map snd (om_range_list t (Included low) (Included high)) =
    map (\<lambda>n. ev (of_nat n)) [max (unat low) (Suc (unat D))..<Suc (min (unat high) (unat C))]"
proof -
  let ?b = "max (low - 1) D" and ?m = "min high C"
  have pred: "unat (low - 1) = unat low - 1" by (rule unat_minus_one) (use low in auto)
  have b: "Suc (unat ?b) = max (unat low) (Suc (unat D))" "unat ?m = min (unat high) (unat C)"
    using pred low by (auto simp: max_def min_def word_le_nat_alt word_less_nat_alt)
  have lt: "?b < w \<longleftrightarrow> D < w \<and> low \<le> w" for w
    using pred low by (auto simp: max_def word_le_nat_alt word_less_nat_alt)
  have "om_range_list t (Included low) (Included high) = map (\<lambda>n. (of_nat n :: u64, ev (of_nat n))) [Suc (unat ?b)..<Suc (unat ?m)]"
  proof (rule bt_eq_setI [OF om.range_ordered [OF inv] versions_ok])
    have "e \<in> set (om_range_list t (Included low) (Included high)) \<longleftrightarrow> om_get t (fst e) = Some (snd e) \<and> low \<le> fst e \<and> fst e \<le> high" for e
      using om.range_iff [OF inv, of "fst e" "snd e"] by (simp add: not_le not_less)
    moreover have "om_get t w = Some e \<and> low \<le> w \<and> w \<le> high \<longleftrightarrow> e = ev w \<and> ?b < w \<and> w \<le> ?m" for w e
      unfolding lt using none [of w e] some [of w] by auto
    ultimately show "set (om_range_list t (Included low) (Included high)) = set (map (\<lambda>n. (of_nat n, ev (of_nat n))) [Suc (unat ?b)..<Suc (unat ?m)])"
      unfolding versions_set by auto
  qed
  then show ?thesis unfolding b by (simp add: comp_def del: upt_Suc)
qed

lemma pending_versions:
  assumes "\<And>n. n \<in> set [Suc C..<Suc M] \<Longrightarrow> unat (ev_version (ev (of_nat n))) = n" "unat high \<le> M"
  shows "filter (\<lambda>e. low \<le> ev_version e \<and> ev_version e \<le> high) (map (\<lambda>n. ev (of_nat n)) [Suc C..<Suc M]) =
    map (\<lambda>n. ev (of_nat n)) [max (unat low) (Suc C)..<Suc (unat high)]"
proof -
  have "filter (\<lambda>n. a \<le> n \<and> n \<le> b) [c..<d] = [max a c..<min (Suc b) d]" for a b c d :: nat
    by (induction d) (auto simp: max_def min_def)
  then have "filter (\<lambda>n. unat low \<le> n \<and> n \<le> unat high) [Suc C..<Suc M] = [max (unat low) (Suc C)..<Suc (unat high)]"
    using assms(2) by (simp add: min_def del: upt_Suc)
  moreover have "filter (\<lambda>n. low \<le> ev_version (ev (of_nat n)) \<and> ev_version (ev (of_nat n)) \<le> high) [Suc C..<Suc M] =
      filter (\<lambda>n. unat low \<le> n \<and> n \<le> unat high) [Suc C..<Suc M]"
    by (rule filter_cong [OF refl]) (simp add: word_le_nat_alt assms(1) del: upt_Suc)
  ultimately show ?thesis unfolding filter_map comp_def by simp
qed

lemma offers_append: "offers st ev a b xs \<Longrightarrow> map (snd \<circ> snd) ys = map (\<lambda>n. ev (of_nat n)) ns \<Longrightarrow>
    \<forall>x \<in> set ys. \<exists>n. fst (snd x) = st_decoded st n \<Longrightarrow> [a..<b] @ ns = [a..<c] \<Longrightarrow> offers st ev a c (xs @ ys)"
  unfolding offers_def by (metis (no_types, lifting) Un_iff map_append set_append)

lemma offers_none: "b \<le> a \<Longrightarrow> offers st ev a b []"
  by (simp add: offers_def)

lemma disk_visit_offer:
  assumes d: "data_ok d def S ev" and v: "en_version (ed_base d) < low" "low \<le> high"
  shows "\<exists>es. offers st ev (unat low) (Suc (min (unat high) (unat (disk_limit d)))) es \<and> (case ed_disk d of None \<Rightarrow> Inr (True, s)
     | Some disk \<Rightarrow> if low \<le> min high (dh_through disk)
         then root_visit_events (dh_root disk) (dh_pager disk) (dh_table disk) (en_id (ed_current d)) low
           (min high (dh_through disk)) check admit visit s
         else Inr (True, s)) = offer check admit visit es s"
proof (cases "\<exists>k. ed_disk d = Some k \<and> low \<le> min high (dh_through k)")
  case True
  then obtain k where k: "ed_disk d = Some k" "low \<le> min high (dh_through k)" by blast
  have lim: "unat (min high (dh_through k)) = min (unat high) (unat (disk_limit d))"
    by (simp add: disk_limit_def k(1) min_def word_le_nat_alt)
  have "en_version (ed_base d) < dh_through k" using v(1) k(2) by (meson less_le_trans min.cobounded2)
  then obtain def' b where h: "b \<le> en_version (ed_base d)"
      "history_ok (dh_root k) (dh_pager k) (dh_table k) (en_id (ed_current d)) def' b (dh_through k) S ev"
    using d k(1) by (auto simp: data_ok_def disk_ok_def)
  from root_visit_offer [OF h(2) le_less_trans [OF h(1) v(1)] k(2) min.cobounded2] show ?thesis
    unfolding k(1) option.case lim using k(2) by (simp only: if_True)
next
  case False
  then have "disk_limit d < low \<or> ed_disk d = None" using v(2) by (auto simp: disk_limit_def not_le split: option.splits)
  then have "disk_limit d < low" using v(1) by (auto simp: disk_limit_def)
  then have "Suc (min (unat high) (unat (disk_limit d))) \<le> unat low" by (simp add: word_less_nat_alt min_def)
  from offers_none [OF this] show ?thesis using False by (intro exI [of _ "[]"]) (auto split: option.split)
qed

lemma entity_visit_offer:
  assumes d: "data_ok d def S ev" and v: "en_version (ed_base d) < low" "low \<le> high" "high \<le> en_version (ed_current d)"
  shows "\<exists>es. offers st ev (unat low) (Suc (unat high)) es \<and>
    entity_visit_events d st low high check admit visit s = offer check admit visit es s"
proof -
  let ?L = "unat low" and ?H = "unat high" and ?D = "unat (disk_limit d)" and ?cur = "en_version (ed_current d)"
  obtain c where c: "en_version (ed_base d) \<le> c" "disk_limit d \<le> c" "c \<le> ?cur"
      "\<And>w e. om_get (ed_committed d) w = Some e \<Longrightarrow> en_version (ed_base d) < w \<Longrightarrow> disk_limit d < w \<and> w \<le> c \<and> e = ev w"
      "\<And>w. disk_limit d < w \<Longrightarrow> en_version (ed_base d) < w \<Longrightarrow> w \<le> c \<Longrightarrow> om_get (ed_committed d) w = Some (ev w)"
      "ed_events d = map (\<lambda>n. ev (of_nat n)) [Suc (unat c)..<Suc (unat ?cur)]"
    using d unfolding data_ok_def events_ok_def by blast
  have inv: "om_inv (ed_committed d)" using d by (simp add: data_ok_def)
  have ver: "ev_version (ev w) = w" if "en_version (ed_base d) < w" "w \<le> ?cur" for w using d that by (simp add: data_ok_def)
  let ?memory = "map snd (om_range_list (ed_committed d) (Included low) (Included high)) @
      filter (\<lambda>e. low \<le> ev_version e \<and> ev_version e \<le> high) (ed_events d)"
  let ?ns = "[max ?L (Suc ?D)..<Suc (min ?H (unat c))] @ [max ?L (Suc (unat c))..<Suc ?H]"
  have "map snd (om_range_list (ed_committed d) (Included low) (Included high)) =
      map (\<lambda>n. ev (of_nat n)) [max ?L (Suc ?D)..<Suc (min ?H (unat c))]"
  proof (rule committed_versions [OF inv])
    have base: "en_version (ed_base d) < w" if "low \<le> w" for w using v(1) that by (rule less_le_trans)
    show "disk_limit d < w \<and> w \<le> c \<and> e = ev w" if "om_get (ed_committed d) w = Some e" "low \<le> w" for w e
      using c(4) [OF that(1) base [OF that(2)]] .
    show "om_get (ed_committed d) w = Some (ev w)" if "disk_limit d < w" "low \<le> w" "w \<le> c" for w
      using c(5) [OF that(1) base [OF that(2)] that(3)] .
    show "0 < low" using v(1) by (meson le_less_trans word_zero_le)
  qed
  moreover have "filter (\<lambda>e. low \<le> ev_version e \<and> ev_version e \<le> high) (ed_events d) = map (\<lambda>n. ev (of_nat n)) [max ?L (Suc (unat c))..<Suc ?H]"
    unfolding c(6)
  proof (rule pending_versions)
    fix n assume n: "n \<in> set [Suc (unat c)..<Suc (unat ?cur)]"
    then have u: "unat (of_nat n :: u64) = n" using unat_less_u64 [of ?cur] by (auto simp: unat_of_nat)
    then have "en_version (ed_base d) < of_nat n" "of_nat n \<le> ?cur" using n c(1) by (auto simp: word_less_nat_alt word_le_nat_alt)
    then show "unat (ev_version (ev (of_nat n))) = n" using ver u by simp
  qed (use v(3) in \<open>simp add: word_le_nat_alt\<close>)
  ultimately have mem: "?memory = map (\<lambda>n. ev (of_nat n)) ?ns" by simp
  let ?em = "map (\<lambda>e. (event_bytes st e, st_decoded st (event_bytes st e), e)) ?memory"
  have em: "map (snd \<circ> snd) ?em = map (\<lambda>n. ev (of_nat n)) ?ns" "\<forall>x \<in> set ?em. \<exists>n. fst (snd x) = st_decoded st n"
    unfolding mem [symmetric] by (auto simp: comp_def)
  have all: "[?L..<Suc (min ?H ?D)] @ ?ns = [?L..<Suc ?H]"
    by (rule upt_three) (use c(2) v(2) in \<open>simp_all add: word_le_nat_alt\<close>)
  obtain es where es: "offers st ev ?L (Suc (min ?H ?D)) es" "(case ed_disk d of None \<Rightarrow> Inr (True, s)
       | Some disk \<Rightarrow> if low \<le> min high (dh_through disk)
           then root_visit_events (dh_root disk) (dh_pager disk) (dh_table disk) (en_id (ed_current d)) low
             (min high (dh_through disk)) check admit visit s
           else Inr (True, s)) = offer check admit visit es s"
    using disk_visit_offer [OF d v(1,2), of st s check admit visit] by (elim exE conjE) (rule that)
  have "entity_visit_events d st low high check admit visit s = offer check admit visit (es @ ?em) s"
    unfolding entity_visit_events_def es(2) offer_append visit_memory_offer ..
  moreover have "offers st ev ?L (Suc ?H) (es @ ?em)" by (rule offers_append [OF es(1) em all])
  ultimately show ?thesis by blast
qed

section \<open>A batch\<close>

text \<open>What a state promises of an entity: its events from the base to the current version.\<close>

definition reads_history :: "readstate \<Rightarrow> u64 \<Rightarrow> u64 \<Rightarrow> table \<Rightarrow> u64 \<Rightarrow> u64 \<Rightarrow> (u64 \<Rightarrow> entity) \<Rightarrow> (u64 \<Rightarrow> event) \<Rightarrow> bool" where
  "reads_history st table ent def base cur S ev = (state_ready st = Inr () \<and> table_definition st table = Inr def \<and>
     (\<forall>v. base < v \<and> v \<le> cur \<longrightarrow> ev_version (ev v) = v) \<and>
     (case overlay_get (rs_overlay st) (table, ent) of
        Some d \<Rightarrow> data_ok d def S ev \<and> en_version (ed_base d) = base \<and> en_version (ed_current d) = cur
      | None \<Rightarrow> history_ok (rs_root st) (rs_store st) table ent def base cur S ev \<and>
          (\<exists>slot v. locate (rs_root st) (rs_store st) table ent = Inr (Some (slot, v)) \<and>
             read_state (rs_root st) (rs_store st) table 0 (fst v) ent = Inr (S cur) \<and>
             read_state (rs_root st) (rs_store st) table 1 (snd v) ent = Inr (S base))))"

lemma state_visit_offer:
  assumes h: "reads_history st table ent def base cur S ev" and v: "base < low" "low \<le> high" "high \<le> cur"
  shows "\<exists>es. offers (rs_store st) ev (unat low) (Suc (unat high)) es \<and>
    state_visit_events st table ent low high check admit visit s = offer check admit visit es s"
proof (cases "overlay_get (rs_overlay st) (table, ent)")
  case None
  then have "history_ok (rs_root st) (rs_store st) table ent def base cur S ev" using h by (simp add: reads_history_def)
  from root_visit_offer [OF this v] show ?thesis using None h by (simp add: state_visit_events_def reads_history_def)
next
  case (Some d)
  then have "data_ok d def S ev" "en_version (ed_base d) = base" "en_version (ed_current d) = cur" using h by (simp_all add: reads_history_def)
  from entity_visit_offer [OF this(1), unfolded this(2,3), OF v] show ?thesis
    using Some h by (simp add: state_visit_events_def reads_history_def)
qed

lemma retained_history:
  assumes h: "reads_history st table ent def base cur S ev" and r: "retained_range st table ent = Inr x"
  shows "x = (base, cur)"
proof (cases "overlay_get (rs_overlay st) (table, ent)")
  case None
  then have "history_ok (rs_root st) (rs_store st) table ent def base cur S ev"
      and "\<exists>slot v. locate (rs_root st) (rs_store st) table ent = Inr (Some (slot, v)) \<and>
             read_state (rs_root st) (rs_store st) table 0 (fst v) ent = Inr (S cur) \<and>
             read_state (rs_root st) (rs_store st) table 1 (snd v) ent = Inr (S base)"
    using h by (simp_all add: reads_history_def)
  moreover from this have "en_version (S cur) = cur" "en_version (S base) = base" by (auto simp: history_ok_def)
  ultimately show ?thesis using r None
    by (auto simp: retained_range_def load_def load_charged_def entity_charged_def read_state_def res_simps split: if_splits)
next
  case (Some d)
  then show ?thesis using h r by (auto simp: retained_range_def load_def load_charged_def reads_history_def res_simps Let_def)
qed

text \<open>How far a batch has come when version \<open>m\<close> is next: a run of events within the bounds.\<close>

definition batch_at :: "(u64 \<Rightarrow> event) \<Rightarrow> nat \<Rightarrow> nat \<Rightarrow> nat \<Rightarrow> nat \<Rightarrow> batch_progress \<Rightarrow> bool" where
  "batch_at ev L H max_bytes m s = (L \<le> m \<and> m \<le> Suc H \<and> bp_events s = map (\<lambda>n. ev (of_nat n)) [L..<m] \<and>
     bp_expected s = (if m \<le> H then Some (of_nat m) else None) \<and> bp_total s \<le> max_bytes \<and> (bp_total s \<noteq> 0 \<longrightarrow> L < m))"

lemma batch_check_result:
  "batch_check cancelled clock e s = Inr s' \<Longrightarrow> s' = s\<lparr>bp_ticks := bp_ticks s + 1\<rparr>"
  "batch_check cancelled clock e s = Inl x \<Longrightarrow> x = Cancelled \<or> x = DeadlineExceeded"
  by (auto simp: batch_check_def token_check_def deadline_check_def res_simps split: if_splits)

lemma batch_admit_result:
  "batch_admit st cancelled clock e mb n s = Inr (True, s') \<Longrightarrow>
    s' = s\<lparr>bp_ticks := bp_ticks s + 1, bp_size := n\<rparr> \<and> bp_total s + n + st_event_size st \<le> mb"
  "batch_admit st cancelled clock e mb n s = Inr (False, s') \<Longrightarrow> s' = s\<lparr>bp_ticks := bp_ticks s + 1\<rparr> \<and> bp_total s \<noteq> 0"
  "batch_admit st cancelled clock e mb n s = Inl x \<Longrightarrow> x = Cancelled \<or> x = DeadlineExceeded \<or>
    x = LimitExceeded ''history batch bytes'' mb \<or> (\<exists>k. st_decoded st k = Inl x)"
  by (auto simp: batch_admit_def res_simps split: if_splits dest: batch_check_result)

lemma batch_visit_step:
  assumes at: "batch_at ev L H mb m s" "m \<le> H" "H < 2 ^ 64" "ev_version (ev (of_nat m)) = of_nat m" "bp_total s + bp_size s + st_event_size st \<le> mb"
  shows "\<exists>s'. batch_visit st (of_nat H) max_events (ev (of_nat m)) s = Inr (Suc m - L < max_events, s') \<and>
    batch_at ev L H mb (Suc m) s'"
proof -
  have last: "(of_nat m :: u64) = of_nat H \<longleftrightarrow> m = H" using at(2,3) by (simp add: word_unat_eq_iff unat_of_nat)
  have succ: "checked_add64 (of_nat m) 1 = Some (of_nat (Suc m))" if "m \<noteq> H"
    using that at(2,3) by (simp add: checked_add64_def unat_of_nat)
  show ?thesis using at last succ
    by (auto simp: batch_visit_def batch_at_def Let_def Suc_diff_le simp del: of_nat_Suc)
qed

text \<open>What may stop a batch: the token, the clock, the bound of the batch, memory; never a corrupt history.\<close>

definition batch_failure :: "store \<Rightarrow> nat \<Rightarrow> error \<Rightarrow> bool" where
  "batch_failure st max_bytes e = (e = Cancelled \<or> e = DeadlineExceeded \<or> e = LimitExceeded ''history batch bytes'' max_bytes \<or>
     (\<exists>n. st_decoded st n = Inl e))"

lemma sum_case_mono:
  "(case r of Inl x \<Rightarrow> P x | Inr (a, b) \<Rightarrow> Q a b) \<Longrightarrow> (\<And>a b. Q a b \<Longrightarrow> Q' a b) \<Longrightarrow> (case r of Inl x \<Rightarrow> P x | Inr (a, b) \<Rightarrow> Q' a b)"
  by (auto split: sum.splits)

lemma offer_one:
  assumes at: "batch_at ev L H mb m s" "m \<le> H" "H < 2 ^ 64" "ev_version (ev (of_nat m)) = of_nat m"
    and d: "d = Inr () \<or> (\<exists>n. d = st_decoded st n)"
    and run: "offer (batch_check cancelled clock e) (batch_admit st cancelled clock e mb) (batch_visit st (of_nat H) max_events)
      [(n, d, ev (of_nat m))] s = r"
  shows "(\<exists>x. r = Inl x \<and> batch_failure st mb x) \<or> (\<exists>s'. r = Inr (False, s') \<and> batch_at ev L H mb m s' \<and> L < m) \<or>
    (\<exists>s'. r = Inr (Suc m - L < max_events, s') \<and> batch_at ev L H mb (Suc m) s')"
proof (cases "batch_check cancelled clock e s")
  case (Inl y)
  then show ?thesis using batch_check_result(2) [OF Inl] run by (auto simp: batch_failure_def)
next
  case 1: (Inr s1)
  have at1: "batch_at ev L H mb m s1" using batch_check_result(1) [OF 1] at(1) by (simp add: batch_at_def)
  show ?thesis
  proof (cases "batch_admit st cancelled clock e mb n s1")
    case (Inl y)
    then have "r = Inl y" using 1 run by simp
    moreover have "batch_failure st mb y" using batch_admit_result(3) [OF Inl] by (simp add: batch_failure_def)
    ultimately show ?thesis by blast
  next
    case (Inr p)
    then consider s2 where "batch_admit st cancelled clock e mb n s1 = Inr (False, s2)" |
        s2 where "batch_admit st cancelled clock e mb n s1 = Inr (True, s2)" by (cases p; cases "fst p") auto
    then show ?thesis
    proof cases
      case a: 1
      from batch_admit_result(2) [OF this] have "batch_at ev L H mb m s2" "L < m" using at1 by (simp_all add: batch_at_def)
      then show ?thesis using 1 a run by auto
    next
      case a: 2
      from batch_admit_result(1) [OF this]
      have at2: "batch_at ev L H mb m s2" "bp_total s2 + bp_size s2 + st_event_size st \<le> mb" using at1 by (simp_all add: batch_at_def)
      from batch_visit_step [OF at2(1) at(2-4) at2(2)] obtain s3 where
          "batch_visit st (of_nat H) max_events (ev (of_nat m)) s2 = Inr (Suc m - L < max_events, s3)" "batch_at ev L H mb (Suc m) s3"
        by blast
      then show ?thesis using 1 a run d by (cases d) (auto simp: batch_failure_def)
    qed
  qed
qed

lemma offer_batch:
  assumes "map (snd \<circ> snd) es = map (\<lambda>n. ev (of_nat n)) [m..<Suc H]" "\<forall>x \<in> set es. fst (snd x) = Inr () \<or> (\<exists>n. fst (snd x) = st_decoded st n)"
    and "batch_at ev L H mb m s" "H < 2 ^ 64" "\<forall>n. L \<le> n \<and> n \<le> H \<longrightarrow> ev_version (ev (of_nat n)) = of_nat n" "m - L < max_events"
  shows "case offer (batch_check cancelled clock e) (batch_admit st cancelled clock e mb) (batch_visit st (of_nat H) max_events) es s of
      Inr (complete, s') \<Rightarrow> \<exists>k. m \<le> k \<and> k - L \<le> max_events \<and> batch_at ev L H mb k s' \<and> (complete \<longrightarrow> k = Suc H) \<and> (\<not> complete \<longrightarrow> L < k)
    | Inl x \<Rightarrow> batch_failure st mb x"
  using assms(1,2,3,6)
proof (induction es arbitrary: m s)
  case Nil
  then have "m = Suc H" by (simp add: batch_at_def split: if_splits)
  then show ?case using Nil by auto
next
  case (Cons x es)
  let ?offer = "offer (batch_check cancelled clock e) (batch_admit st cancelled clock e mb) (batch_visit st (of_nat H) max_events)"
  have m: "m \<le> H" "L \<le> m" using Cons.prems(1,3) by (auto simp: batch_at_def split: if_splits)
  then have x: "x = (fst x, fst (snd x), ev (of_nat m))" and rest: "map (snd \<circ> snd) es = map (\<lambda>n. ev (of_nat n)) [Suc m..<Suc H]"
    using Cons.prems(1) by (simp_all add: upt_conv_Cons prod_eq_iff comp_def del: upt_Suc)
  have split: "?offer (x # es) s = res_bind (?offer [(fst x, fst (snd x), ev (of_nat m))] s) (\<lambda>(go, s). if \<not> go then Inr (False, s) else ?offer es s)"
    using offer_append [of _ _ _ "[x]" es s] by (simp only: append_Cons append_Nil x [symmetric])
  have "ev_version (ev (of_nat m)) = of_nat m" using assms(5) m by blast
  from offer_one [OF Cons.prems(3) m(1) assms(4) this, of "fst (snd x)" st cancelled clock e max_events "fst x", OF _ refl]
  show ?case
  proof (elim meta_impE disjE exE conjE)
    show "fst (snd x) = Inr () \<or> (\<exists>n. fst (snd x) = st_decoded st n)" using Cons.prems(2) by simp
  next
    fix s' assume s': "?offer [(fst x, fst (snd x), ev (of_nat m))] s = Inr (Suc m - L < max_events, s')" "batch_at ev L H mb (Suc m) s'"
    show ?case
    proof (cases "Suc m - L < max_events")
      case True
      then have eq: "?offer (x # es) s = ?offer es s'" unfolding split s'(1) by simp
      have "\<forall>x \<in> set es. fst (snd x) = Inr () \<or> (\<exists>n. fst (snd x) = st_decoded st n)" using Cons.prems(2) by simp
      from Cons.IH [OF rest this s'(2) True] show ?thesis unfolding eq
        by (elim sum_case_mono) (auto intro: exI [of _ "Suc H"] dest: Suc_leD)
    next
      case False
      then have "?offer (x # es) s = Inr (False, s')" unfolding split s'(1) by simp
      then show ?thesis using s'(2) m(2) Cons.prems(4) by (auto intro!: exI [of _ "Suc m"])
    qed
  qed (use Cons.prems(4) in \<open>auto simp: split\<close>)
qed

text \<open>A batch read at version \<open>low\<close> on the way to \<open>high\<close>.\<close>

definition batch_run :: "(u64 \<Rightarrow> event) \<Rightarrow> nat \<Rightarrow> nat \<Rightarrow> history_options \<Rightarrow> history_batch \<Rightarrow> u64 option \<Rightarrow> nat \<Rightarrow> bool" where
  "batch_run ev L H options b after k = (L < k \<and> k \<le> Suc H \<and> hb_events b = map (\<lambda>n. ev (of_nat n)) [L..<k] \<and>
     after = (if k \<le> H then Some (of_nat k) else None) \<and> batch_len b \<le> ho_max_events options \<and> hb_bytes b \<le> ho_max_bytes options)"

lemma batch_finish_run:
  assumes "batch_at ev L H (ho_max_bytes options) k s" "L < k" "k - L \<le> ho_max_events options" "complete \<longrightarrow> k = Suc H"
  shows "batch_finish cancelled complete s = Inl Cancelled \<or>
    (\<exists>b after. batch_finish cancelled complete s = Inr (b, after) \<and> batch_run ev L H options b after k)"
  using assms by (auto simp: batch_finish_def batch_at_def batch_run_def token_check_def batch_len_def)

lemma fill_batch_run:
  assumes h: "reads_history st (hc_table c) (hc_id c) def base cur S ev"
    and v: "base < low" "low \<le> hc_last c" "hc_last c \<le> cur" "0 < ho_max_events (hc_options c)"
  shows "case fill_batch cancelled clock c low st end_at of
      Inr (b, after) \<Rightarrow> \<exists>k. batch_run ev (unat low) (unat (hc_last c)) (hc_options c) b after k
    | Inl e \<Rightarrow> batch_failure (rs_store st) (ho_max_bytes (hc_options c)) e"
proof -
  let ?e = "case hc_deadline c of None \<Rightarrow> end_at | Some d \<Rightarrow> min d end_at" and ?o = "hc_options c" and ?L = "unat low" and ?H = "unat (hc_last c)"
  let ?check = "batch_check cancelled clock ?e" and ?admit = "batch_admit (rs_store st) cancelled clock ?e (ho_max_bytes ?o)"
    and ?visit = "batch_visit (rs_store st) (hc_last c) (ho_max_events ?o)"
  obtain es where es: "offers (rs_store st) ev ?L (Suc ?H) es"
      "state_visit_events st (hc_table c) (hc_id c) low (hc_last c) ?check ?admit ?visit (batch_start low) = offer ?check ?admit ?visit es (batch_start low)"
    using state_visit_offer [OF h v(1-3)] by (elim meta_allE exE conjE) (rule that)
  have start: "batch_at ev ?L ?H (ho_max_bytes ?o) ?L (batch_start low)"
    using v(2) by (simp add: batch_at_def batch_start_def word_le_nat_alt)
  have ver: "\<forall>n. ?L \<le> n \<and> n \<le> ?H \<longrightarrow> ev_version (ev (of_nat n)) = of_nat n"
  proof (intro allI impI)
    fix n assume n: "?L \<le> n \<and> n \<le> ?H"
    then have "unat (of_nat n :: u64) = n" using unat_less_u64 [of "hc_last c"] by (auto simp: unat_of_nat)
    then have "base < of_nat n" "of_nat n \<le> cur" using n v by (auto simp: word_less_nat_alt word_le_nat_alt)
    then show "ev_version (ev (of_nat n)) = of_nat n" using h by (simp add: reads_history_def)
  qed
  have "case offer ?check ?admit ?visit es (batch_start low) of
      Inr (complete, s') \<Rightarrow> \<exists>k. ?L \<le> k \<and> k - ?L \<le> ho_max_events ?o \<and> batch_at ev ?L ?H (ho_max_bytes ?o) k s' \<and>
         (complete \<longrightarrow> k = Suc ?H) \<and> (\<not> complete \<longrightarrow> ?L < k)
    | Inl x \<Rightarrow> batch_failure (rs_store st) (ho_max_bytes ?o) x"
    using offer_batch [OF _ _ start unat_less_u64 ver, of es "rs_store st" "ho_max_events ?o" cancelled clock ?e] es(1) v(4)
    by (simp add: offers_def)
  then consider x where "offer ?check ?admit ?visit es (batch_start low) = Inl x" "batch_failure (rs_store st) (ho_max_bytes ?o) x"
    | complete s' where "offer ?check ?admit ?visit es (batch_start low) = Inr (complete, s')"
        "batch_failure (rs_store st) (ho_max_bytes ?o) Cancelled"
        "batch_finish cancelled complete s' = Inl Cancelled \<or> (\<exists>b after k. batch_finish cancelled complete s' = Inr (b, after) \<and> batch_run ev ?L ?H ?o b after k)"
  proof (cases "offer ?check ?admit ?visit es (batch_start low)")
    case (Inr p)
    obtain complete s' where p: "p = (complete, s')" by (cases p)
    have LH: "?L < Suc ?H" using v(2) by (simp add: word_le_nat_alt)
    with Inr p obtain k where "batch_at ev ?L ?H (ho_max_bytes ?o) k s'" "?L < k" "k - ?L \<le> ho_max_events ?o" "complete \<longrightarrow> k = Suc ?H"
      using \<open>case offer ?check ?admit ?visit es (batch_start low) of Inr (complete, s') \<Rightarrow> _ | Inl x \<Rightarrow> _\<close> by (cases complete) auto
    from batch_finish_run [OF this, of cancelled] show thesis
      by (intro that(2) [of complete s']) (use Inr p in \<open>auto simp: batch_failure_def\<close>)
  qed auto
  then show ?thesis
    by cases (cases "st_decoded (rs_store st) 0"; auto simp: fill_batch_def Let_def es(2) batch_failure_def deadline_check_def split: if_splits)+
qed

section \<open>A cursor over a snapshot\<close>

text \<open>While its lease lasts, a snapshot gives \<open>st\<close>.\<close>

definition snapshot_of :: "read_world \<Rightarrow> readstate \<Rightarrow> read_snapshot \<Rightarrow> bool" where
  "snapshot_of w st s = (\<forall>i. ls_value (sn_pin s) = Some i \<longrightarrow> (\<exists>h. rw_live w i = Some (st, h)))"

lemma snapshot_state_of:
  assumes "snapshot_of w st s"
  shows "fst (snapshot_state clock w s) = Inr st' \<Longrightarrow> st' = st" "snapshot_of w st (snd (snapshot_state clock w s))"
proof -
  show "st' = st" if "fst (snapshot_state clock w s) = Inr st'"
    using snapshot_state_cases(1) [OF that] assms unfolding snapshot_of_def by fastforce
  show "snapshot_of w st (snd (snapshot_state clock w s))"
    unfolding snapshot_of_def
  proof (intro allI impI)
    fix i assume i: "ls_value (sn_pin (snd (snapshot_state clock w s))) = Some i"
    then have "ls_value (sn_pin s) = Some i" using snapshot_state_cases(3) [of clock w s] by simp
    then show "\<exists>h. rw_live w i = Some (st, h)" using assms unfolding snapshot_of_def by blast
  qed
qed

lemma snapshot_with_result:
  assumes "snapshot_of w st s" "snapshot_with_state instant_max clock w f s = (r, s')"
  shows "(\<exists>end_at s1. snapshot_of w st s1 \<and> s' = snd (f st end_at s1) \<and> (r = fst (f st end_at s1) \<or> r = Inl DeadlineExceeded)) \<or>
    (snapshot_of w st s' \<and> (r = Inl TransactionExpired \<or> r = Inl DeadlineExceeded \<or> (\<exists>m. r = Inl (Invalid m))))"
proof -
  obtain a s1 where a: "snapshot_state clock w s = (a, s1)" by (cases "snapshot_state clock w s")
  have s1: "snapshot_of w st s1" using snapshot_state_of(2) [OF assms(1), of clock] a by simp
  show ?thesis
  proof (cases a)
    case (Inl e)
    then show ?thesis using assms(2) a s1 snapshot_state_cases(2) [of clock w s e] by (auto simp: snapshot_with_state_def)
  next
    case (Inr st')
    then have st: "st' = st" using snapshot_state_of(1) [OF assms(1), of clock st'] a by simp
    show ?thesis
    proof (cases "operation_end instant_max clock st (ls_deadline (sn_pin s1))")
      case e: (Inl e)
      then show ?thesis using assms(2) a s1 Inr st deadline_errors(2) [OF e] by (auto simp: snapshot_with_state_def)
    next
      case e: (Inr end_at)
      have "s' = snd (f st end_at s1)" "r = fst (f st end_at s1) \<or> r = Inl DeadlineExceeded"
        using assms(2) a Inr st e by (auto simp: snapshot_with_state_def deadline_check_def split: prod.splits if_splits)
      then show ?thesis using s1 by blast
    qed
  qed
qed

lemma snapshot_with_of:
  assumes "snapshot_of w st s" "\<And>end_at s. snapshot_of w st s \<Longrightarrow> snapshot_of w st (snd (f st end_at s))"
    and "snapshot_with_state instant_max clock w f s = (r, s')"
  shows "snapshot_of w st s' \<and> ((\<exists>end_at s. snapshot_of w st s \<and> r = fst (f st end_at s)) \<or>
    r = Inl TransactionExpired \<or> r = Inl DeadlineExceeded \<or> (\<exists>m. r = Inl (Invalid m)))"
  using snapshot_with_result [OF assms(1,3)] assms(2) by blast

text \<open>What ends a cursor early.\<close>

definition cursor_failure :: "readstate \<Rightarrow> history_cursor \<Rightarrow> error \<Rightarrow> bool" where
  "cursor_failure st c e = (batch_failure (rs_store st) (ho_max_bytes (hc_options c)) e \<or> e = TransactionExpired \<or> (\<exists>m. e = Invalid m))"

lemma next_batch_run:
  assumes of: "snapshot_of w st s" and h: "reads_history st (hc_table c) (hc_id c) def base cur S ev"
    and c: "hc_next c = Some low" "hc_snapshot c" "base < low" "low \<le> hc_last c" "hc_last c \<le> cur" "0 < ho_max_events (hc_options c)"
    and run: "next_batch instant_max outer w cancelled clock c s = ((r, c'), s')"
  shows "snapshot_of w st s' \<and> ((\<exists>e. r = Inl e \<and> cursor_failure st c e \<and> hc_next c' = None \<and> \<not> hc_snapshot c') \<or>
    (\<exists>b k. r = Inr (Some b) \<and> batch_run ev (unat low) (unat (hc_last c)) (hc_options c) b (hc_next c') k \<and>
       c' = (if hc_next c' = None then c\<lparr>hc_snapshot := False, hc_next := None\<rparr> else c\<lparr>hc_next := hc_next c'\<rparr>)))"
proof -
  let ?fill = "\<lambda>end_at. fill_batch (\<lambda>n. cancelled (Suc n)) clock c low st end_at"
  obtain q s1 where q: "snapshot_with_state instant_max outer w (\<lambda>st end_at s. (fill_batch (\<lambda>n. cancelled (Suc n)) clock c low st end_at, s)) s = (q, s1)"
    by (cases "snapshot_with_state instant_max outer w (\<lambda>st end_at s. (fill_batch (\<lambda>n. cancelled (Suc n)) clock c low st end_at, s)) s")
  have s1: "snapshot_of w st s1" and "(\<exists>end_at. q = ?fill end_at) \<or> q = Inl TransactionExpired \<or> q = Inl DeadlineExceeded \<or> (\<exists>m. q = Inl (Invalid m))"
    using snapshot_with_of [OF of _ q] by auto
  then consider e where "q = Inl e" "cursor_failure st c e"
    | b after k where "q = Inr (b, after)" "batch_run ev (unat low) (unat (hc_last c)) (hc_options c) b after k"
  proof (elim disjE exE)
    fix end_at assume qf: "q = ?fill end_at"
    from fill_batch_run [OF h c(3-6), of "\<lambda>n. cancelled (Suc n)" clock end_at, folded qf] show thesis
      using that by (cases q) (auto simp: cursor_failure_def)
  qed (auto simp: cursor_failure_def batch_failure_def intro: that(1))
  then show ?thesis
    using run q s1 of c(1,2) by cases (auto simp: next_batch_def read_batch_def token_check_def cursor_failure_def batch_failure_def split: if_splits)
qed

section \<open>Collecting\<close>

text \<open>The cursor stands before version \<open>m\<close>; what was read so far reaches up to it.\<close>

definition cursor_at :: "(u64 \<Rightarrow> event) \<Rightarrow> u64 \<Rightarrow> history_batch list \<Rightarrow> history_cursor \<Rightarrow> bool" where
  "cursor_at ev base batches c = (\<exists>m. Suc (unat base) \<le> m \<and> m \<le> Suc (unat (hc_last c)) \<and>
     hc_next c = (if m \<le> unat (hc_last c) then Some (of_nat m) else None) \<and>
     (hc_next c \<noteq> None \<longrightarrow> hc_snapshot c) \<and> concat (map hb_events batches) = map (\<lambda>n. ev (of_nat n)) [Suc (unat base)..<m])"

lemma cursor_at_step:
  assumes "cursor_at ev base batches c" "hc_next c = Some low"
    and "batch_run ev (unat low) (unat (hc_last c)) options b (hc_next c') k" "hc_last c' = hc_last c" "hc_next c' \<noteq> None \<longrightarrow> hc_snapshot c'"
  shows "cursor_at ev base (batches @ [b]) c'"
proof -
  obtain m where m: "Suc (unat base) \<le> m" "m \<le> unat (hc_last c)" "low = of_nat m"
      "concat (map hb_events batches) = map (\<lambda>n. ev (of_nat n)) [Suc (unat base)..<m]"
    using assms(1,2) by (auto simp: cursor_at_def split: if_splits)
  have "m < 2 ^ 64" using m(2) unat_less_u64 [of "hc_last c"] by simp
  then have u: "unat low = m" using m(3) by (simp add: unat_of_nat)
  have k: "m < k" "k \<le> Suc (unat (hc_last c))" using assms(3) u by (simp_all add: batch_run_def)
  have "[Suc (unat base)..<m] @ [m..<k] = [Suc (unat base)..<k]"
    using upt_add_eq_append [of "Suc (unat base)" m "k - m"] m(1) k(1) by simp
  moreover have "concat (map hb_events (batches @ [b])) = map (\<lambda>n. ev (of_nat n)) ([Suc (unat base)..<m] @ [m..<k])"
    using m(4) assms(3) u by (simp add: batch_run_def)
  ultimately have "concat (map hb_events (batches @ [b])) = map (\<lambda>n. ev (of_nat n)) [Suc (unat base)..<k]" by simp
  then show ?thesis unfolding cursor_at_def
    using k m(1) assms(3-5) by (intro exI [of _ k]) (auto simp: batch_run_def)
qed

lemma cursor_at_low:
  assumes "cursor_at ev base batches c" "hc_next c = Some low"
  shows "base < low" "low \<le> hc_last c" "hc_snapshot c"
proof -
  obtain m where "Suc (unat base) \<le> m" "m \<le> unat (hc_last c)" "low = of_nat m"
    using assms by (auto simp: cursor_at_def split: if_splits)
  then show "base < low" "low \<le> hc_last c" using unat_less_u64 [of "hc_last c"] by (auto simp: word_less_nat_alt word_le_nat_alt unat_of_nat)
  show "hc_snapshot c" using assms by (auto simp: cursor_at_def)
qed

lemma moved_cursor:
  "c1 = (if n = None then c\<lparr>hc_snapshot := False, hc_next := None\<rparr> else c\<lparr>hc_next := n\<rparr>) \<Longrightarrow>
    hc_last c1 = hc_last c \<and> hc_table c1 = hc_table c \<and> hc_id c1 = hc_id c \<and> hc_options c1 = hc_options c \<and>
    (n \<noteq> None \<longrightarrow> hc_snapshot c1 = hc_snapshot c)"
  by (cases n) simp_all

lemma limited_cursor: "hc_next (collect_limit l r c) = hc_next c" "hc_last (collect_limit l r c) = hc_last c"
    "hc_table (collect_limit l r c) = hc_table c" "hc_id (collect_limit l r c) = hc_id c" "hc_snapshot (collect_limit l r c) = hc_snapshot c"
    "ho_max_events (hc_options (collect_limit l r c)) = ho_max_events (hc_options c)"
  by (simp_all add: collect_limit_def)

text \<open>One turn of the loop.\<close>

lemma collect_step:
  assumes "snapshot_of w st s" "reads_history st (hc_table c) (hc_id c) def base cur S ev" "hc_last c \<le> cur" "0 < ho_max_events (hc_options c)"
    and at: "cursor_at ev base batches c" "hc_next c = Some low"
    and run: "collect_loop instant_max cc w l end_at i batches used c s = (Inr bs, s')"
  obtains b c1 s1 where "snapshot_of w st s1" "cursor_at ev base (batches @ [b]) c1" "hc_last c1 = hc_last c" "hc_table c1 = hc_table c"
    "hc_id c1 = hc_id c" "ho_max_events (hc_options c1) = ho_max_events (hc_options c)" "hc_next c1 = None \<or> (\<exists>n. hc_next c1 = Some n \<and> low < n)"
    "collect_loop instant_max cc w l end_at (Suc i) (batches @ [b]) (used + hb_bytes b) c1 s1 = (Inr bs, s')"
proof -
  let ?c = "collect_limit l (max_read_result_bytes l - used) c"
  obtain r c1 s1 where n: "next_batch instant_max (cc_state cc i) w (\<lambda>_. False) (cc_batch cc i) ?c s = ((r, c1), s1)"
    by (metis prod.collapse)
  note low = cursor_at_low [OF at]
  from next_batch_run [OF assms(1) _ _ _ low(1) _ _ _ n, of "def" cur S ev, unfolded limited_cursor, OF assms(2) at(2) low(3,2) assms(3,4)]
  have nb: "snapshot_of w st s1" "(\<exists>e. r = Inl e) \<or> (\<exists>b k. r = Inr (Some b) \<and>
       batch_run ev (unat low) (unat (hc_last c)) (hc_options ?c) b (hc_next c1) k \<and>
       c1 = (if hc_next c1 = None then ?c\<lparr>hc_snapshot := False, hc_next := None\<rparr> else ?c\<lparr>hc_next := hc_next c1\<rparr>))"
    by blast+
  obtain b where step: "r = Inr (Some b)"
      "collect_loop instant_max cc w l end_at (Suc i) (batches @ [b]) (used + hb_bytes b) c1 s1 = (Inr bs, s')"
    using run at(2) n nb(2) by (subst (asm) collect_loop.simps) (auto simp: Let_def split: sum.splits if_splits)
  then obtain k where k: "batch_run ev (unat low) (unat (hc_last c)) (hc_options ?c) b (hc_next c1) k"
      "c1 = (if hc_next c1 = None then ?c\<lparr>hc_snapshot := False, hc_next := None\<rparr> else ?c\<lparr>hc_next := hc_next c1\<rparr>)"
    using nb(2) by auto
  note moved = moved_cursor [OF k(2), unfolded limited_cursor]
  have "cursor_at ev base (batches @ [b]) c1" by (rule cursor_at_step [OF at k(1)]) (use moved low(3) in auto)
  moreover have "hc_next c1 = None \<or> (\<exists>n. hc_next c1 = Some n \<and> low < n)"
    using k(1) unat_less_u64 [of "hc_last c"] by (auto simp: batch_run_def word_less_nat_alt unat_of_nat)
  ultimately show thesis using that nb(1) moved step(2) limited_cursor(6) by metis
qed

lemma collect_loop_run:
  assumes "snapshot_of w st s" "reads_history st (hc_table c) (hc_id c) def base cur S ev" "hc_last c \<le> cur" "0 < ho_max_events (hc_options c)"
    and "cursor_at ev base batches c" "collect_loop instant_max cc w l end_at i batches used c s = (Inr bs, s')"
  shows "concat (map hb_events bs) = map (\<lambda>n. ev (of_nat n)) [Suc (unat base)..<Suc (unat (hc_last c))]"
  using assms
proof (induction "case hc_next c of None \<Rightarrow> 0 | Some n \<Rightarrow> 2 ^ 64 - unat n" arbitrary: i batches used c s rule: less_induct)
  case less
  show ?case
  proof (cases "hc_next c")
    case None
    then have "bs = batches" using less.prems(6) by (simp add: collect_loop.simps)
    then show ?thesis using less.prems(5) None by (auto simp: cursor_at_def le_Suc_eq simp del: upt_Suc split: if_splits)
  next
    case (Some low)
    obtain b c1 s1 where step: "snapshot_of w st s1" "cursor_at ev base (batches @ [b]) c1" "hc_last c1 = hc_last c" "hc_table c1 = hc_table c"
        "hc_id c1 = hc_id c" "ho_max_events (hc_options c1) = ho_max_events (hc_options c)" "hc_next c1 = None \<or> (\<exists>n. hc_next c1 = Some n \<and> low < n)"
        "collect_loop instant_max cc w l end_at (Suc i) (batches @ [b]) (used + hb_bytes b) c1 s1 = (Inr bs, s')"
      by (rule collect_step [OF less.prems(1-5) Some less.prems(6)])
    have "(case hc_next c1 of None \<Rightarrow> 0 | Some n \<Rightarrow> 2 ^ 64 - unat n) < (case hc_next c of None \<Rightarrow> 0 | Some n \<Rightarrow> 2 ^ 64 - unat n)"
      using step(7) Some unat_less_u64 [of low] by (auto simp: word_less_nat_alt)
    from less.hyps [OF this step(1) _ _ _ step(2) step(8)] show ?thesis using less.prems(2-4) step(3-6) by simp
  qed
qed

lemma history_open_all:
  assumes "history_open l table ent (history_options_default\<lparr>ho_max_bytes := n\<rparr>) base cur = Inr c" "base \<le> cur" "0 < max_history_batch_events l"
  shows "hc_table c = table" "hc_id c = ent" "hc_last c = cur" "0 < ho_max_events (hc_options c)" "cursor_at ev base [] (c\<lparr>hc_deadline := d\<rparr>)"
proof -
  obtain options where c: "c = \<lparr>hc_deadline = None, hc_snapshot = (base < cur), hc_table = table, hc_id = ent,
      hc_next = (if base < cur then Some (base + 1) else None), hc_last = cur, hc_options = options\<rparr>"
      "ho_max_events options = min 256 (max_history_batch_events l)"
    using assms(1,2) unat_less_u64 [of cur]
    by (auto simp: history_open_def history_options_default_def checked_add64_def Let_def word_less_nat_alt word_le_nat_alt unat_word_ariths
        split: if_splits)
  show "hc_table c = table" "hc_id c = ent" "hc_last c = cur" "0 < ho_max_events (hc_options c)" using c assms(3) by simp_all
  have "unat (base + 1) = Suc (unat base)" if "base < cur" by (rule unat_suc [OF that])
  then show "cursor_at ev base [] (c\<lparr>hc_deadline := d\<rparr>)"
    unfolding cursor_at_def using assms(2)
    by (intro exI [of _ "Suc (unat base)"]) (auto simp: c(1) word_less_nat_alt word_le_nat_alt simp del: upt_Suc)
qed

lemma history_opened:
  assumes "snapshot_of w st s" "reads_history st table ent def base cur S ev"
    and "snapshot_history instant_max clock again w False table ent options s = (Inr c, s')"
  shows "snapshot_of w st s' \<and> history_open (rs_limits st) table ent options base cur = Inr c"
proof -
  obtain x s1 where x: "snapshot_retained_range instant_max clock w table ent s = (Inr x, s1)"
      "fst (snapshot_state again w s1) = Inr st \<Longrightarrow> history_open (rs_limits st) table ent options (fst x) (snd x) = Inr c"
      "\<exists>st'. fst (snapshot_state again w s1) = Inr st'" "s' = snd (snapshot_state again w s1)"
    using assms(3) by (auto simp: snapshot_history_def token_check_def split: prod.splits sum.splits if_splits)
  have s1: "snapshot_of w st s1" "retained_range st table ent = Inr x"
    using snapshot_with_of [OF assms(1) _ x(1) [unfolded snapshot_retained_range_def snapshot_read_def]] by auto
  have "x = (base, cur)" by (rule retained_history [OF assms(2) s1(2)])
  obtain st' where st': "fst (snapshot_state again w s1) = Inr st'" using x(3) by blast
  then have "st' = st" by (rule snapshot_state_of(1) [OF s1(1)])
  then have "history_open (rs_limits st) table ent options base cur = Inr c" using x(2) st' \<open>x = (base, cur)\<close> by simp
  then show ?thesis using x(4) snapshot_state_of(2) [OF s1(1), of again] by simp
qed

section \<open>Properties\<close>

text \<open>
  C14 (history_batch_exact): a batch from a cursor holds the next events of the entity, in the order of
  their versions, at least one, within the bounds in number and bytes; the cursor then stands behind
  them. A failure closes the cursor and comes from the token, the clock, a bound or memory, never
  from the history.
\<close>

theorem history_batch_exact:
  assumes "snapshot_of w st s" "reads_history st (hc_table c) (hc_id c) def base cur S ev"
    and "hc_next c = Some low" "hc_snapshot c" "base < low" "low \<le> hc_last c" "hc_last c \<le> cur" "0 < ho_max_events (hc_options c)"
    and "next_batch instant_max outer w cancelled clock c s = ((r, c'), s')"
  shows "case r of
      Inl e \<Rightarrow> cursor_failure st c e \<and> hc_next c' = None \<and> \<not> hc_snapshot c'
    | Inr None \<Rightarrow> False
    | Inr (Some b) \<Rightarrow> \<exists>k. unat low < k \<and> k \<le> Suc (unat (hc_last c)) \<and> hb_events b = map (\<lambda>n. ev (of_nat n)) [unat low..<k] \<and>
        batch_len b \<le> ho_max_events (hc_options c) \<and> hb_bytes b \<le> ho_max_bytes (hc_options c) \<and>
        hc_next c' = (if k \<le> unat (hc_last c) then Some (of_nat k) else None)"
  using next_batch_run [OF assms] unfolding batch_run_def by (auto split: sum.split option.split)

text \<open>
  C13 (events_collected): collecting the events of an entity from a snapshot gives every event after
  the base up to the current version, each once and in order, however they fall into batches.
\<close>

theorem events_collected:
  assumes "snapshot_of w st s" "reads_history st table ent def base cur S ev" "base \<le> cur" "0 < max_history_batch_events (rs_limits st)"
    and "fst (collect_events instant_max outer inner again cc result_size w table ent s) = Inr evs"
  shows "evs = map (\<lambda>n. ev (of_nat n)) [Suc (unat base)..<Suc (unat cur)]"
proof -
  define f where "f = (\<lambda>(st :: readstate) end_at s. case snapshot_history instant_max inner again w False table ent
            (history_options_default\<lparr>ho_max_bytes := max_history_batch_bytes (rs_limits st)\<rparr>) s of
          (Inl e, s) \<Rightarrow> (Inl e, s)
        | (Inr c, s) \<Rightarrow> (case collect_loop instant_max cc w (rs_limits st) end_at 0 [] 0 (c\<lparr>hc_deadline := Some end_at\<rparr>) s of
              (r, s) \<Rightarrow> (res_bind r (collect_result (rs_store st) result_size), s)))"
  obtain s' where "snapshot_with_state instant_max outer w f s = (Inr evs, s')"
  proof
    have "collect_events instant_max outer inner again cc result_size w table ent s = snapshot_with_state instant_max outer w f s"
      unfolding collect_events_def f_def ..
    then show "snapshot_with_state instant_max outer w f s = (Inr evs, snd (snapshot_with_state instant_max outer w f s))"
      using assms(5) by (simp add: prod_eq_iff)
  qed
  from snapshot_with_result [OF assms(1) this]
  obtain end_at s1 where s1: "snapshot_of w st s1" "Inr evs = fst (f st end_at s1)" by auto
  from s1(2) [symmetric] obtain c s2 bs s3 where c: "snapshot_history instant_max inner again w False table ent
        (history_options_default\<lparr>ho_max_bytes := max_history_batch_bytes (rs_limits st)\<rparr>) s1 = (Inr c, s2)"
      and bs: "collect_loop instant_max cc w (rs_limits st) end_at 0 [] 0 (c\<lparr>hc_deadline := Some end_at\<rparr>) s2 = (Inr bs, s3)"
      "evs = concat (map hb_events bs)"
    by (auto simp: f_def collect_result_def Let_def res_simps split: prod.splits sum.splits if_splits)
  note open_c = history_opened [OF s1(1) assms(2) c]
  note o = history_open_all [OF conjunct2 [OF open_c] assms(3,4)]
  show ?thesis
    unfolding bs(2) using collect_loop_run [OF conjunct1 [OF open_c] _ _ _ o(5) bs(1), of "def" cur S] assms(2) o(1-4) by simp
qed

section \<open>A concrete cursor\<close>

definition sample_written :: readstate where
  "sample_written = sample_pinned (overlay_insert overlay_new (1, 1) sample_data)"

lemma sample_written_fields: "overlay_get (rs_overlay sample_written) (1, 1) = Some sample_data" "state_ready sample_written = Inr ()"
    "table_definition sample_written 1 = Inr sample_table" "rs_limits sample_written = limits_default"
    "rs_timeouts sample_written = timeouts_default" "rs_store sample_written = open_store (\<lambda>_. None)"
proof -
  have "ed_disk sample_data = None" by (simp add: sample_data_def push_event_def created_data_def)
  then show "overlay_get (rs_overlay sample_written) (1, 1) = Some sample_data"
    by (simp add: sample_written_def sample_pinned_def overlay_get_def overlay_insert_def overlay_new_def disk_generation_def
        mk_node_def)
qed (simp_all add: sample_written_def sample_pinned_def sample_readstate_def state_ready_def table_definition_def)

lemma sample_reads: "reads_history sample_written 1 1 sample_table 1 2 ((\<lambda>_. sample_state 1)(2 := sample_state 2)) ((\<lambda>_. sample_event)(2 := sample_event))"
proof -
  have "ev_version (((\<lambda>_. sample_event)(2 := sample_event)) v) = v" if "1 < v" "v \<le> 2" for v :: u64
  proof -
    have "v = 2" using that by (simp add: word_less_nat_alt word_le_nat_alt word_unat_eq_iff)
    then show ?thesis by (simp add: sample_event_def)
  qed
  then show ?thesis using sample_written_fields sample_data_ok sample_data_range by (simp add: reads_history_def)
qed

lemma sample_world: "\<exists>w. reader_pin (seconds 1000) 0 3 (reader_new sample_written usage_default) = (Inr sample_snapshot, w) \<and>
    snapshot_of w sample_written sample_snapshot"
proof -
  obtain w where w: "reader_pin (seconds 1000) 0 3 (reader_new sample_written usage_default) = (Inr sample_snapshot, w)"
    using sample_pin [of "overlay_insert overlay_new (1, 1) sample_data"] unfolding sample_written_def by blast
  moreover have "snapshot_of w sample_written sample_snapshot"
    using pinned_world(1,4) [OF w] by (auto simp: snapshot_of_def reader_new_def)
  ultimately show ?thesis by blast
qed

definition sample_cursor :: history_cursor where
  "sample_cursor = \<lparr>hc_deadline = None, hc_snapshot = True, hc_table = 1, hc_id = 1, hc_next = Some 2, hc_last = 2,
     hc_options = history_options_default\<rparr>"

text \<open>The sample snapshot with its last access, and a read of it.\<close>

definition sample_at :: "instant \<Rightarrow> read_snapshot" where
  "sample_at t = sample_snapshot\<lparr>sn_pin := (sn_pin sample_snapshot)\<lparr>ls_last_access := t\<rparr>\<rparr>"

lemma sample_at_0: "sample_at 0 = sample_snapshot"
  by (simp add: sample_at_def sample_snapshot_def)

lemma sample_state_read:
  assumes "snapshot_of w sample_written sample_snapshot"
  shows "snapshot_state (\<lambda>_. 5) w (sample_at t) = (Inr sample_written, sample_at 5)"
proof -
  obtain h where "rw_live w 3 = Some (sample_written, h)" using assms by (auto simp: snapshot_of_def sample_snapshot_def)
  then show ?thesis
    by (simp add: sample_at_def sample_snapshot_def snapshot_state_def lease_with_def lease_expired_def reached_def overrun_def seconds_def Let_def)
qed

lemma sample_enter:
  assumes "snapshot_of w sample_written sample_snapshot"
  shows "snapshot_with_state (seconds 1000) (\<lambda>_. 5) w f (sample_at t) = f sample_written (5 + seconds 30) (sample_at 5)"
proof -
  have "ls_deadline (sn_pin (sample_at 5)) = Some (seconds 300)" by (simp add: sample_at_def sample_snapshot_def)
  then show ?thesis
    by (simp add: snapshot_with_state_def sample_state_read [OF assms] operation_end_def deadline_at_def deadline_check_def seconds_def
        sample_written_fields timeouts_default_def Let_def split: prod.split)
qed

lemma sample_offers: "state_visit_events sample_written 1 1 2 2 check admit visit s =
    offer check admit visit [(event_bytes (open_store (\<lambda>_. None)) sample_event, Inr (), sample_event)] s"
  using sample_written_fields
  by (simp add: state_visit_events_def entity_visit_events_def sample_data_def push_event_def created_data_def
      om.range_entries [OF om.inv_emp] visit_memory_offer open_store_def sample_event_def case_prod_unfold)

lemma sample_fill:
  assumes "d = None \<or> d = Some (5 + seconds 30)" "1000 \<le> ho_max_bytes options" "1 < ho_max_events options"
  shows "fill_batch (\<lambda>_. False) (\<lambda>_. 5) (sample_cursor\<lparr>hc_deadline := d, hc_options := options\<rparr>) 2 sample_written (5 + seconds 30) =
     Inr (\<lparr>hb_events = [sample_event], hb_bytes = event_bytes (open_store (\<lambda>_. None)) sample_event + 96\<rparr>, None)"
proof -
  have small: "event_bytes (open_store (\<lambda>_. None)) sample_event = 224"
    by (simp add: event_bytes_def fields_bytes_def open_store_def sample_event_def FIELD_BYTES_def)
  show ?thesis
    using assms small
    by (auto simp: fill_batch_def sample_cursor_def sample_offers batch_check_def batch_admit_def batch_visit_def batch_start_def batch_finish_def
        token_check_def deadline_check_def sample_written_fields open_store_def sample_event_def seconds_def Let_def)
qed

lemma history_batch_exact_witness:
  "\<exists>w s'. next_batch (seconds 1000) (\<lambda>_. 5) w (\<lambda>_. False) (\<lambda>_. 5) sample_cursor sample_snapshot =
       ((Inr (Some \<lparr>hb_events = [sample_event], hb_bytes = event_bytes (open_store (\<lambda>_. None)) sample_event + 96\<rparr>),
         sample_cursor\<lparr>hc_snapshot := False, hc_next := None\<rparr>), s') \<and>
     (\<exists>k. 2 < k \<and> k \<le> Suc 2 \<and> [sample_event] = map (\<lambda>_. sample_event) [2..<k])"
proof -
  obtain w where w: "snapshot_of w sample_written sample_snapshot" using sample_world by blast
  let ?b = "\<lparr>hb_events = [sample_event], hb_bytes = event_bytes (open_store (\<lambda>_. None)) sample_event + 96\<rparr>"
  have fill: "fill_batch (\<lambda>_. False) (\<lambda>_. 5) sample_cursor 2 sample_written (5 + seconds 30) = Inr (?b, None)"
    using sample_fill [of None history_options_default] by (simp add: sample_cursor_def history_options_default_def)
  have c: "hc_table sample_cursor = 1" "hc_id sample_cursor = 1" "hc_next sample_cursor = Some 2" "hc_snapshot sample_cursor" "hc_last sample_cursor = 2"
      "0 < ho_max_events (hc_options sample_cursor)"
    by (simp_all add: sample_cursor_def history_options_default_def)
  from fill obtain s' where run: "next_batch (seconds 1000) (\<lambda>_. 5) w (\<lambda>_. False) (\<lambda>_. 5) sample_cursor sample_snapshot =
      ((Inr (Some ?b), sample_cursor\<lparr>hc_snapshot := False, hc_next := None\<rparr>), s')"
    using c(3,4) by (simp add: next_batch_def read_batch_def token_check_def sample_enter [OF w, of _ 0, unfolded sample_at_0])
  from history_batch_exact [OF w _ c(3,4) _ _ _ c(6) run, unfolded c, OF sample_reads]
  obtain k where "2 < k" "k \<le> Suc 2" "[sample_event] = map (\<lambda>n. ((\<lambda>_. sample_event)(2 := sample_event)) (of_nat n :: u64)) [2..<k]"
    by (auto simp: word_less_nat_alt)
  moreover have "((\<lambda>_. sample_event)(2 := sample_event)) v = sample_event" for v :: u64 by simp
  ultimately show ?thesis using run by auto
qed

definition sample_clock :: collect_clock where
  "sample_clock = \<lparr>cc_loop = (\<lambda>_. 5), cc_state = (\<lambda>_ _. 5), cc_batch = (\<lambda>_ _. 5)\<rparr>"

lemma sample_collect_loop:
  assumes "snapshot_of w sample_written sample_snapshot" "c = sample_cursor\<lparr>hc_deadline := d, hc_options := options\<rparr>"
    and "d = Some (5 + seconds 30)" "ho_max_events options = 256"
  shows "fst (collect_loop (seconds 1000) sample_clock w limits_default (5 + seconds 30) 0 [] 0 c (sample_at 5)) =
    Inr [\<lparr>hb_events = [sample_event], hb_bytes = event_bytes (open_store (\<lambda>_. None)) sample_event + 96\<rparr>]"
proof -
  let ?b = "\<lparr>hb_events = [sample_event], hb_bytes = event_bytes (open_store (\<lambda>_. None)) sample_event + 96\<rparr>"
    and ?c = "collect_limit limits_default (max_read_result_bytes limits_default) c"
  have lim: "?c = sample_cursor\<lparr>hc_deadline := d, hc_options := options\<lparr>ho_max_bytes := mib 64\<rparr>\<rparr>"
    by (simp add: collect_limit_def assms(2) limits_default_def)
  have fill: "fill_batch (\<lambda>_. False) (\<lambda>_. 5) ?c 2 sample_written (5 + seconds 30) = Inr (?b, None)"
    unfolding lim using assms(3,4) by (intro sample_fill) (simp_all add: mib_def)
  have "next_batch (seconds 1000) (cc_state sample_clock 0) w (\<lambda>_. False) (cc_batch sample_clock 0) ?c (sample_at 5) =
      ((Inr (Some ?b), ?c\<lparr>hc_snapshot := False, hc_next := None\<rparr>), sample_at 5)"
    using fill lim by (simp add: next_batch_def read_batch_def token_check_def sample_clock_def sample_enter [OF assms(1)] sample_cursor_def)
  moreover have "event_bytes (open_store (\<lambda>_. None)) sample_event = 224"
    by (simp add: event_bytes_def fields_bytes_def open_store_def sample_event_def FIELD_BYTES_def)
  moreover have "max_read_result_bytes limits_default = 67108864" by (simp add: limits_default_def mib_def)
  moreover have "deadline_check (Some (5 + seconds 30)) (cc_loop sample_clock 0) = Inr ()"
    by (simp add: deadline_check_def sample_clock_def seconds_def)
  ultimately show ?thesis
    by (simp add: collect_loop.simps [of _ _ _ _ _ 0] collect_loop.simps [of _ _ _ _ _ "Suc 0"] assms(2) sample_cursor_def
        limit_check_def usize_checked_add_def)
qed

lemma events_collected_witness:
  "\<exists>w. fst (collect_events (seconds 1000) (\<lambda>_. 5) (\<lambda>_. 5) (\<lambda>_. 5) sample_clock 96 w 1 1 sample_snapshot) = Inr [sample_event] \<and>
     [sample_event] = map (\<lambda>n. ((\<lambda>_. sample_event)(2 := sample_event)) (of_nat n :: u64)) [Suc 1..<Suc 2]"
proof -
  obtain w where w: "snapshot_of w sample_written sample_snapshot" using sample_world by blast
  let ?o = "history_options_default\<lparr>ho_max_bytes := max_history_batch_bytes (rs_limits sample_written)\<rparr>"
  have range: "retained_range sample_written 1 1 = Inr (1, 2)"
    using sample_written_fields sample_data_range by (simp add: retained_range_def load_def load_charged_def open_store_def Let_def)
  obtain options where hist: "snapshot_history (seconds 1000) (\<lambda>_. 5) (\<lambda>_. 5) w False 1 1 ?o (sample_at t) =
      (Inr (sample_cursor\<lparr>hc_options := options\<rparr>), sample_at 5)" "ho_max_events options = 256" for t
    by (simp add: snapshot_history_def token_check_def snapshot_retained_range_def snapshot_read_def sample_enter [OF w] sample_state_read [OF w]
        range history_open_def history_options_default_def sample_written_fields limits_default_def mib_def checked_add64_def
        sample_cursor_def Let_def)
  let ?b = "\<lparr>hb_events = [sample_event], hb_bytes = event_bytes (open_store (\<lambda>_. None)) sample_event + 96\<rparr>"
  have "fst (collect_loop (seconds 1000) sample_clock w limits_default (5 + seconds 30) 0 [] 0
      (sample_cursor\<lparr>hc_options := options, hc_deadline := Some (5 + seconds 30)\<rparr>) (sample_at 5)) = Inr [?b]"
    by (rule sample_collect_loop [OF w _ refl hist(2)]) simp
  then obtain s' where "collect_loop (seconds 1000) sample_clock w limits_default (5 + seconds 30) 0 [] 0
      (sample_cursor\<lparr>hc_options := options, hc_deadline := Some (5 + seconds 30)\<rparr>) (sample_at 5) = (Inr [?b], s')"
    by (metis prod.collapse)
  then have run: "fst (collect_events (seconds 1000) (\<lambda>_. 5) (\<lambda>_. 5) (\<lambda>_. 5) sample_clock 96 w 1 1 sample_snapshot) = Inr [sample_event]"
    by (simp add: collect_events_def sample_at_0 [symmetric] sample_enter [OF w] hist(1) [unfolded sample_written_fields] sample_written_fields
        collect_result_def batch_len_def open_store_def Let_def)
  have "[sample_event] = map (\<lambda>n. ((\<lambda>_. sample_event)(2 := sample_event)) (of_nat n :: u64)) [Suc (unat (1 :: u64))..<Suc (unat (2 :: u64))]"
    by (rule events_collected [OF w sample_reads _ _ run]) (simp_all add: sample_written_fields limits_default_def)
  then show ?thesis using run by auto
qed

end
