(* ===== verification/Spec2Isabelle.thy ===== *)
theory Spec2Isabelle
  imports Opening Writer_Laws Sessions Checkpoint_Laws Cleanup Cursor_Laws Commit_Queue
begin

text \<open>
  A verification library for EveDB, an embedded database that keeps the history of every entity:
  the engine crate under \<^verbatim>\<open>src/evedb-core\<close>. Every definition is translated from the source it names;
  the theorems say what makes the parts correct and how they compose.

  \<^bold>\<open>The program.\<close> A database directory holds write-ahead log files, manifests (\<^verbatim>\<open>Root\<close>), and per table
  and generation: heap files with the current rows, B+tree indexes cut into partitions, and segments
  of history. A transaction stages its operations over a committed state (\<^verbatim>\<open>ReadState\<close>: a manifest with
  the overlay of entities changed since), then its batch goes through the commit queue; a leader
  validates a group of batches (first committer wins), writes their frames to the log, synchronizes
  and publishes. Checkpoints write the overlay into a new generation and a new manifest. Opening the
  directory replays the log over the newest manifest that verifies.

  \<^bold>\<open>Theories, bottom up.\<close>
  \<^item> \<open>Prelude\<close> (\<^verbatim>\<open>error.rs\<close>): integers, errors, results as sums, ordered association lists that stand for
    \<^verbatim>\<open>BTreeMap\<close>, the collection \<open>res_simps\<close>. \<open>Codec\<close> (\<^verbatim>\<open>codec.rs\<close>) with the locales of record formats;
    \<open>Checksum\<close> (\<^verbatim>\<open>checksum.rs\<close>); \<open>Ordered_Map\<close> (\<^verbatim>\<open>ordered_map.rs\<close>), whose locales \<open>ordered_store\<close> and
    \<open>ranged_store\<close> are the map interface, interpreted on the AVL map and on the association lists.
  \<^item> Storage: \<open>Frame\<close> (\<^verbatim>\<open>storage/frame.rs\<close>), \<open>Page\<close> (\<^verbatim>\<open>storage/page.rs\<close>), \<open>Pager\<close> (\<^verbatim>\<open>storage/pager.rs\<close>),
    \<open>Heap\<close> (\<^verbatim>\<open>storage/heap.rs\<close>), \<open>Index_Node\<close>, \<open>Index\<close>, \<open>Index_Laws\<close> (\<^verbatim>\<open>storage/index.rs\<close>), \<open>Partitions\<close>,
    \<open>Partition_Build\<close> (\<^verbatim>\<open>partitions.rs\<close>). The files of a directory are a map from file identifiers to bytes.
  \<^item> Data: \<open>Model\<close>, \<open>Model_Laws\<close> (\<^verbatim>\<open>model.rs\<close>: values, schemas, rows, events), \<open>Entity_Data\<close>,
    \<open>Entity_Data_Laws\<close> (\<^verbatim>\<open>EntityData\<close>: one entity in memory), \<open>Memory\<close> (\<^verbatim>\<open>memory.rs\<close>), \<open>Root\<close>, \<open>Root_Laws\<close>,
    \<open>History\<close>, \<open>History_Laws\<close> (\<^verbatim>\<open>snapshot.rs\<close>, \<^verbatim>\<open>history.rs\<close>: manifests and reading a checkpoint), \<open>Overlay\<close>
    (\<^verbatim>\<open>overlay.rs\<close>), \<open>Read_State\<close> (\<^verbatim>\<open>reader.rs\<close>: reading a committed state).
  \<^item> Admission: \<open>Resources\<close> (\<^verbatim>\<open>resources.rs\<close>), \<open>Deadline\<close> (\<^verbatim>\<open>deadline.rs\<close>), \<open>Commit_Queue\<close>
    (\<^verbatim>\<open>commit_queue.rs\<close>), each with its operations as a step relation over the shared state.
  \<^item> Transactions: \<open>Operations\<close> (the logged operations), \<open>Staging\<close>, \<open>Staging_Laws\<close>, \<open>Transactions\<close>
    (\<^verbatim>\<open>Staging\<close> and \<^verbatim>\<open>Transaction\<close> of \<^verbatim>\<open>database.rs\<close>), \<open>Commit\<close>, \<open>Commit_Laws\<close> (\<^verbatim>\<open>Prepared\<close>, group
    commit, publication), \<open>Shared\<close> (\<^verbatim>\<open>shared.rs\<close>), and \<open>System\<close>, where concurrent transactions and group
    commits are one transition system.
  \<^item> Opening: \<open>Recovery\<close>, \<open>Recovery_Laws\<close> (choosing a manifest, replaying the log), \<open>Recovered\<close> (a group
    log replayed gives the state that wrote it) and \<open>Opening\<close> (\<^verbatim>\<open>Database::open_with_options\<close> from the
    bytes of a directory, torn tail included).
  \<^item> Checkpoints: \<open>Checkpoint\<close>, \<open>Checkpoint_Laws\<close> (plan, capture, installation), \<open>Writer\<close>, \<open>Writer_Laws\<close>
    (\<^verbatim>\<open>TableWriter\<close> and \<^verbatim>\<open>CheckpointJob::build\<close>), \<open>Cleanup\<close> (removing files nobody names) and \<open>Maintenance\<close>
    (\<^verbatim>\<open>Database::publish\<close>, \<^verbatim>\<open>MaintenanceState\<close>: jobs and group commits of a shared database interleaved).
  \<^item> \<open>Sessions\<close> (\<^verbatim>\<open>Transaction\<close> under its lease from begin to commit, \<^verbatim>\<open>Database::write\<close>).
  \<^item> Readers: \<open>Snapshots\<close> (\<^verbatim>\<open>reader.rs\<close>: pins, their registry and leases), \<open>Cursors\<close>, \<open>Cursor_Laws\<close>
    (\<^verbatim>\<open>cursor.rs\<close>: history in batches, all events of an entity).

  \<^bold>\<open>Conventions.\<close> Machine integers are words of their width; \<^verbatim>\<open>usize\<close> is a 64-bit \<open>nat\<close> with its checks
  written out. A fallible function returns \<open>error + 'a\<close>; a panic of a queue operation is \<open>None\<close>.
  Functions that change a staging area even when they fail have the type \<open>act\<close>, which returns the
  state beside the result. Reference counting and sharing are not observable and left out, except
  where counts decide something (the checkpoint references of an overlay).

  \<^bold>\<open>What the lemmas show.\<close> The \<open>_Laws\<close> theories hold the proofs about the definitions before them:
  round trips of every stored format; refinement of pages, maps, indexes and partitions to lists and
  finite maps; corruption of frames and pages is detected; readers reconstruct every retained version;
  invariants of queue, resources, overlays and entities under all their operations. \<open>Staging_Laws\<close> relates
  a transaction with its replay, \<open>Recovery_Laws\<close> lifts that to groups, and \<open>System\<close> carries an invariant
  through all interleavings, from which recovery and first-committer-wins follow. The locale
  \<open>writer_law\<close> lifts what every step of a table writer keeps to a whole checkpoint; from the accounting of
  files it follows that a built checkpoint verifies. Installation, cleanup and pins keep every reader's
  files and answers; maintenance jobs exclude each other and what they build can be installed.

  \<^bold>\<open>Parameters.\<close> A \<open>store\<close> gives the contents of files, whether a temporary buffer is admitted, and the
  sizes the platform decides. Commits take a clock (readings to instants), the outcome of writing the
  log, and the checkpoint a single owner may run before a group; theorems hold for all of them, with
  hypotheses stated where needed.

  \<^bold>\<open>Bounds and fuel.\<close> \<open>group_loop\<close> gets one more turn than there are batches: every turn but the last
  drops one. \<open>scan_bound\<close> is what the pages of an index file can hold; an iteration over a tree gets as
  much fuel as the tree has nodes. Other loops end by a measure.

  \<^bold>\<open>Idealisations.\<close> The live ratio of a generation is an \<^verbatim>\<open>f64\<close>: \<open>Checkpoint\<close> rounds it as IEEE
  does. \<open>Cleanup\<close> sees the directory as a tree of names. Readings of the clock and of a cancellation
  token are functions from the number of the reading. What a failed checkpoint leaves in files that no
  manifest names is not part of a result.

  \<^bold>\<open>Not modelled.\<close> Threads, locks and waiting, except as the order of steps; the
  operating system behind file operations, such as creating and synchronizing directories; failures of
  memory allocation; statistics; the command line.
\<close>

end
